(* ===== verification/IvP_Prelude.thy ===== *)
theory IvP_Prelude
  imports Complex_Main "HOL-Library.Signed_Division" "HOL-Library.Monad_Syntax"
begin

text \<open>
  What every component of the development shares: the C++ conversions and divisions the
  sources use, loops over an index range, the option monad for code that can abort or touch
  a bad pointer, and the collections of rewrite rules.

  Conventions. A C++ \<open>double\<close> is a \<open>real\<close>: rounding, infinities and NaN are not modelled,
  and where the code divides by a value that may be zero the definition says so explicitly.
  An \<open>int\<close>, \<open>long\<close> or \<open>unsigned int\<close> that indexes a domain is an \<open>int\<close> or a \<open>nat\<close>. A failed
  \<open>assert\<close> and a null or dangling pointer are the value \<open>None\<close>.
\<close>

named_theorems box_simps \<open>field access after an update of a box\<close>
named_theorems wf_intros \<open>well-formedness is preserved\<close>

section \<open>C++ arithmetic\<close>

text \<open>The conversion of a \<open>double\<close> to an \<open>int\<close> drops the fraction.\<close>

definition c_trunc :: "real \<Rightarrow> int" where
  "c_trunc x = (if x < 0 then \<lceil>x\<rceil> else \<lfloor>x\<rfloor>)"

lemma c_trunc_nonneg: "0 \<le> x \<Longrightarrow> c_trunc x = \<lfloor>x\<rfloor>"
  by (simp add: c_trunc_def)

lemma c_trunc_of_int [simp]: "c_trunc (of_int k) = k"
  by (simp add: c_trunc_def)

text \<open>Integer division truncates: \<open>sdiv\<close> of the library. On the values the grid uses it is \<open>div\<close>.\<close>

lemma sdiv_nonneg: "0 \<le> (a::int) \<Longrightarrow> 0 < b \<Longrightarrow> a sdiv b = a div b"
  by (cases "a = 0") (auto simp: signed_divide_int_def sgn_if)

section \<open>Loops over an index range\<close>

lemma foldl_add_sum:
  fixes f :: "nat \<Rightarrow> real"
  shows "foldl (\<lambda>r d. r + f d) a [0..<n] = a + (\<Sum>d<n. f d)"
  by (induction n) auto

text \<open>A loop that writes index \<open>d\<close> of an array in step \<open>d\<close>.\<close>

lemma foldl_list_update_length [simp]:
  "length (foldl (\<lambda>xs i. xs[i := f i]) xs is) = length xs"
  by (induction "is" arbitrary: xs) auto

lemma length_foldl_keep:
  "(\<And>xs i. length (G xs i) = length xs) \<Longrightarrow> length (foldl G xs is) = length xs"
  by (induction "is" arbitrary: xs) auto

lemma foldl_list_update_nth:
  "j < length xs \<Longrightarrow>
   foldl (\<lambda>xs i. xs[i := f i]) xs [0..<n] ! j = (if j < n then f j else xs ! j)"
  by (induction n) (auto simp: nth_list_update less_Suc_eq)

lemma foldl_list_update_map:
  "length xs = n \<Longrightarrow> foldl (\<lambda>xs i. xs[i := f i]) xs [0..<n] = map f [0..<n]"
  by (rule nth_equalityI) (auto simp: foldl_list_update_nth)

text \<open>The largest and the smallest value of a non-empty list, kept as the loops keep them.\<close>

fun run_best :: "('b \<Rightarrow> 'b \<Rightarrow> bool) \<Rightarrow> ('a \<Rightarrow> 'b) \<Rightarrow> 'a \<Rightarrow> 'a list \<Rightarrow> 'a" where
  "run_best better f x [] = x"
| "run_best better f x (y # ys) = run_best better f (if better (f y) (f x) then y else x) ys"

lemma run_best_in: "run_best better f x ys \<in> insert x (set ys)"
proof (induction ys arbitrary: x)
  case (Cons y ys)
  then show ?case using Cons.IH [of x] Cons.IH [of y] by auto
qed simp

lemma run_best_greater:
  fixes f :: "'a \<Rightarrow> 'b::linorder"
  shows "z \<in> insert x (set ys) \<Longrightarrow> f z \<le> f (run_best (>) f x ys)"
proof (induction ys arbitrary: x z)
  case (Cons y ys)
  let ?b = "if f x < f y then y else x"
  have b: "f ?b \<le> f (run_best (>) f ?b ys)" by (rule Cons.IH) simp
  have "f x \<le> f ?b" "f y \<le> f ?b" by auto
  with b Cons.IH [of _ ?b] Cons.prems show ?case by (auto intro: order.trans split del: if_split)
qed simp

lemma run_best_less:
  fixes f :: "'a \<Rightarrow> 'b::linorder"
  shows "z \<in> insert x (set ys) \<Longrightarrow> f (run_best (<) f x ys) \<le> f z"
proof (induction ys arbitrary: x z)
  case (Cons y ys)
  let ?b = "if f y < f x then y else x"
  have b: "f (run_best (<) f ?b ys) \<le> f ?b" by (rule Cons.IH) simp
  have "f ?b \<le> f x" "f ?b \<le> f y" by auto
  with b Cons.IH [of _ ?b] Cons.prems show ?case by (auto intro: order.trans split del: if_split)
qed simp

lemma list_all_upt: "list_all P [0..<n] \<longleftrightarrow> (\<forall>d<n. P d)"
  by (auto simp: list_all_iff)

section \<open>The option monad\<close>

fun foldM :: "('s \<Rightarrow> 'a \<Rightarrow> 's option) \<Rightarrow> 's \<Rightarrow> 'a list \<Rightarrow> 's option" where
  "foldM f s [] = Some s"
| "foldM f s (x # xs) = f s x \<bind> (\<lambda>s'. foldM f s' xs)"

lemma foldM_append: "foldM f s (xs @ ys) = foldM f s xs \<bind> (\<lambda>s'. foldM f s' ys)"
  by (induction xs arbitrary: s) (auto split: Option.bind_splits)

text \<open>A loop whose body never fails on the invariant runs to the end and keeps it.\<close>

lemma foldM_invariant:
  assumes "I s" "\<And>s x. I s \<Longrightarrow> x \<in> set xs \<Longrightarrow> \<exists>s'. f s x = Some s' \<and> I s'"
  shows "\<exists>s'. foldM f s xs = Some s' \<and> I s'"
  using assms
proof (induction xs arbitrary: s)
  case (Cons x xs)
  from Cons.prems obtain s1 where s1: "f s x = Some s1" "I s1" by force
  from Cons.IH [OF s1(2)] Cons.prems(2) obtain s' where "foldM f s1 xs = Some s'" "I s'"
    by (meson list.set_intros(2))
  with s1 show ?case by simp
qed simp

lemma foldM_total: "(\<And>s x. x \<in> set xs \<Longrightarrow> f s x = Some (g s x)) \<Longrightarrow>
   foldM f s xs = Some (foldl g s xs)"
  by (induction xs arbitrary: s) auto

text \<open>
  A loop that settles \<open>Q x\<close> in the step for \<open>x\<close>, and whose steps go up in an order that keeps
  what is settled, ends with all of it settled.
\<close>

lemma foldM_progress:
  assumes "I s" and step: "\<And>s x. I s \<Longrightarrow> x \<in> set xs \<Longrightarrow> \<exists>s'. f s x = Some s' \<and> I s' \<and> R s s' \<and> Q x s'"
    and refl: "\<And>s. R s s" and trans: "\<And>s t u. R s t \<Longrightarrow> R t u \<Longrightarrow> R s u"
    and keep: "\<And>x s t. Q x s \<Longrightarrow> R s t \<Longrightarrow> Q x t"
  shows "\<exists>s'. foldM f s xs = Some s' \<and> I s' \<and> R s s' \<and> (\<forall>x\<in>set xs. Q x s')"
  using assms(1,2)
proof (induction xs arbitrary: s)
  case Nil
  then show ?case using refl by simp
next
  case (Cons x xs)
  from Cons.prems(2) [OF Cons.prems(1)] obtain s1 where s1: "f s x = Some s1" "I s1" "R s s1" "Q x s1"
    by auto
  from Cons.IH [OF s1(2)] Cons.prems(2) obtain s' where
    "foldM f s1 xs = Some s'" "I s'" "R s1 s'" "\<forall>x\<in>set xs. Q x s'" by auto
  with s1 show ?case using trans keep by auto
qed

lemma foldM_map: "foldM f s (map g xs) = foldM (\<lambda>s x. f s (g x)) s xs"
  by (induction xs arbitrary: s) (auto split: Option.bind_splits)

lemma foldM_congruent: "(\<And>s x. x \<in> set xs \<Longrightarrow> f s x = g s x) \<Longrightarrow> foldM f s xs = foldM g s xs"
  by (induction xs arbitrary: s) (auto split: Option.bind_splits)

lemma map_nth_drop: "n = length xs \<Longrightarrow> map (\<lambda>i. xs ! i) [k..<n] = drop k xs"
  by (intro nth_equalityI) auto

end
