(* ===== verification/C_Strings.thy ===== *)
theory C_Strings
  imports IvP_Prelude "HOL-Library.Char_ord" "HOL-Library.List_Lexorder" "HOL-Library.Multiset"
begin

text \<open>
  The part of the C and C++ string libraries that the string utilities of \<open>lib_mbutil\<close> and the
  logic of \<open>lib_logic\<close> call. A \<open>std::string\<close> is a list of characters of 8 bits and may hold the
  null character; \<open>c_str\<close> is what a routine sees that works on the pointer \<open>c_str()\<close> returns.
  Comparison of strings is the lexicographic order of the library theories, on the codes of the
  characters, as \<open>char_traits\<close> compares. The locale is the "C" locale, so only the letters of
  ASCII have a case. \<open>atof\<close> and \<open>atoi\<close> read decimal numerals; hexadecimal numerals, infinities and
  NaN are not modelled, nor is a value out of range. Lengths fit an \<open>unsigned int\<close>.
\<close>

named_theorems str_simps \<open>rules for strings\<close>

abbreviation code :: "char \<Rightarrow> nat" where "code c \<equiv> of_char c"
abbreviation NUL :: char where "NUL \<equiv> CHR 0x00"
abbreviation TAB :: char where "TAB \<equiv> CHR 0x09"
abbreviation LF :: char where "LF \<equiv> CHR 0x0A"
abbreviation CR :: char where "CR \<equiv> CHR 0x0D"
abbreviation QUOTE :: char where "QUOTE \<equiv> CHR 0x22"

section \<open>Null-terminated strings\<close>

definition c_str :: "string \<Rightarrow> string" where
  "c_str s = takeWhile (\<lambda>c. c \<noteq> NUL) s"

lemma c_str_plain [simp]: "NUL \<notin> set s \<Longrightarrow> c_str s = s"
  by (auto simp: c_str_def takeWhile_eq_all_conv)

lemma NUL_notin_c_str [simp]: "NUL \<notin> set (c_str s)"
  by (auto simp: c_str_def dest: set_takeWhileD)

lemma c_str_idem [simp]: "c_str (c_str s) = c_str s"
  by simp

text \<open>
  \<open>s[i]\<close> of a \<open>std::string\<close> or of a null-terminated array: index \<open>length s\<close> holds the terminator,
  beyond it the read is out of range.
\<close>

definition char_at :: "string \<Rightarrow> nat \<Rightarrow> char option" where
  "char_at s i = (if i < length s then Some (s ! i) else if i = length s then Some NUL else None)"

section \<open>Characters\<close>

definition is_digit :: "char \<Rightarrow> bool" where
  "is_digit c \<longleftrightarrow> 48 \<le> code c \<and> code c \<le> 57"

definition is_space :: "char \<Rightarrow> bool" where
  "is_space c \<longleftrightarrow> code c = 32 \<or> 9 \<le> code c \<and> code c \<le> 13"

definition c_tolower :: "char \<Rightarrow> char" where
  "c_tolower c = (if 65 \<le> code c \<and> code c \<le> 90 then char_of (code c + 32) else c)"

definition c_toupper :: "char \<Rightarrow> char" where
  "c_toupper c = (if 97 \<le> code c \<and> code c \<le> 122 then char_of (code c - 32) else c)"

lemma code_char_of: "n < 256 \<Longrightarrow> code (char_of n) = n"
  by (simp add: of_char_mod_256)

lemma c_tolower_idem [simp]: "c_tolower (c_tolower c) = c_tolower c"
  by (auto simp: c_tolower_def code_char_of)

lemma c_toupper_idem [simp]: "c_toupper (c_toupper c) = c_toupper c"
  by (auto simp: c_toupper_def code_char_of)

lemma c_tolower_toupper [simp]: "c_tolower (c_toupper c) = c_tolower c"
  by (auto simp: c_tolower_def c_toupper_def code_char_of)

lemma c_tolower_NUL_iff [simp]: "c_tolower c = NUL \<longleftrightarrow> c = NUL"
proof
  assume h: "c_tolower c = NUL"
  show "c = NUL"
  proof (cases "65 \<le> code c \<and> code c \<le> 90")
    case True
    then have "code (char_of (code c + 32)) = code c + 32" by (intro code_char_of) simp
    moreover have "char_of (code c + 32) = NUL" using True h by (simp add: c_tolower_def)
    ultimately show ?thesis by simp
  qed (use h in \<open>auto simp: c_tolower_def\<close>)
qed (simp add: c_tolower_def)

section \<open>Searching\<close>

text \<open>\<open>std::string::find\<close> of a string and of a character; \<open>npos\<close> is \<open>None\<close>.\<close>

definition str_find :: "string \<Rightarrow> string \<Rightarrow> nat \<Rightarrow> nat option" where
  "str_find s q pos = find (\<lambda>i. take (length q) (drop i s) = q) [pos..<Suc (length s) - length q]"

definition chr_find :: "string \<Rightarrow> char \<Rightarrow> nat option" where
  "chr_find s c = find (\<lambda>i. s ! i = c) [0..<length s]"

lemma find_upt_Some:
  "find P [a..<b] = Some i \<longleftrightarrow> a \<le> i \<and> i < b \<and> P i \<and> (\<forall>j. a \<le> j \<and> j < i \<longrightarrow> \<not> P j)"
proof
  assume h: "find P [a..<b] = Some i"
  then obtain k where k: "k < b - a" "P (a + k)" "i = a + k" "\<forall>j<k. \<not> P (a + j)"
    unfolding find_Some_iff by auto
  have "\<not> P j" if "a \<le> j" "j < i" for j
    using k(3) that k(4) [rule_format, of "j - a"] by simp
  with k(1-3) show "a \<le> i \<and> i < b \<and> P i \<and> (\<forall>j. a \<le> j \<and> j < i \<longrightarrow> \<not> P j)" by auto
next
  assume "a \<le> i \<and> i < b \<and> P i \<and> (\<forall>j. a \<le> j \<and> j < i \<longrightarrow> \<not> P j)"
  then show "find P [a..<b] = Some i"
    unfolding find_Some_iff by (intro exI [of _ "i - a"]) auto
qed

lemma find_upt_None: "find P [a..<b] = None \<longleftrightarrow> (\<forall>i. a \<le> i \<and> i < b \<longrightarrow> \<not> P i)"
  by (auto simp: find_None_iff)

lemma chr_find_None: "chr_find s c = None \<longleftrightarrow> c \<notin> set s"
  by (auto simp: chr_find_def find_upt_None in_set_conv_nth)

lemma str_find_bounds: "str_find s q pos = Some i \<Longrightarrow> pos \<le> i \<and> i + length q \<le> length s"
  by (auto simp: str_find_def find_upt_Some)

section \<open>Reading and printing numbers\<close>

definition digits_val :: "string \<Rightarrow> nat" where
  "digits_val ds = foldl (\<lambda>n c. 10 * n + (code c - 48)) 0 ds"

text \<open>An optional sign in front of a numeral.\<close>

definition split_sign :: "string \<Rightarrow> bool \<times> string" where
  "split_sign s = (case s of c # cs \<Rightarrow> if c = CHR ''-'' then (True, cs) else if c = CHR ''+'' then (False, cs) else (False, s)
                   | [] \<Rightarrow> (False, s))"

definition atoi :: "string \<Rightarrow> int" where
  "atoi s = (let (neg, t) = split_sign (dropWhile is_space (c_str s));
                 n = int (digits_val (takeWhile is_digit t))
             in if neg then - n else n)"

text \<open>The exponent part, when it is complete.\<close>

definition exponent :: "string \<Rightarrow> int" where
  "exponent s = (case s of c # cs \<Rightarrow>
       if c = CHR ''e'' \<or> c = CHR ''E''
       then let (neg, t) = split_sign cs; n = int (digits_val (takeWhile is_digit t)) in if neg then - n else n
       else 0 | [] \<Rightarrow> 0)"

definition atof :: "string \<Rightarrow> real" where
  "atof s = (let (neg, t) = split_sign (dropWhile is_space (c_str s));
                 ds = takeWhile is_digit t; r = dropWhile is_digit t;
                 fs = (case r of c # cs \<Rightarrow> if c = CHR ''.'' then takeWhile is_digit cs else [] | [] \<Rightarrow> []);
                 r' = (case r of c # cs \<Rightarrow> if c = CHR ''.'' then dropWhile is_digit cs else r | [] \<Rightarrow> []);
                 v = (if ds = [] \<and> fs = [] then 0
                      else (real (digits_val ds) + real (digits_val fs) / 10 ^ length fs) * 10 powi exponent r')
             in if neg then - v else v)"

definition digit_char :: "nat \<Rightarrow> char" where
  "digit_char d = char_of (48 + d)"

fun nat_str :: "nat \<Rightarrow> string" where
  "nat_str n = (if n < 10 then [digit_char n] else nat_str (n div 10) @ [digit_char (n mod 10)])"

declare nat_str.simps [simp del]

definition int_str :: "int \<Rightarrow> string" where
  "int_str i = (if i < 0 then CHR ''-'' # nat_str (nat (- i)) else nat_str (nat i))"

lemma code_digit_char: "d < 10 \<Longrightarrow> code (digit_char d) = 48 + d"
  unfolding digit_char_def by (rule code_char_of) simp

lemma nat_str_digits: "set (nat_str n) \<subseteq> {c. is_digit c}" "nat_str n \<noteq> []"
proof (induction n rule: nat_str.induct)
  case (1 n)
  { case 1
    then show ?case using "1.IH" by (subst nat_str.simps) (auto simp: is_digit_def code_digit_char) }
  { case 2
    then show ?case by (subst nat_str.simps) auto }
qed

lemma digits_val_Nil [simp]: "digits_val [] = 0"
  by (simp add: digits_val_def)

lemma digits_val_snoc: "digits_val (ds @ [c]) = 10 * digits_val ds + (code c - 48)"
  by (simp add: digits_val_def)

lemma digits_val_nat_str: "digits_val (nat_str n) = n"
proof (induction n rule: nat_str.induct)
  case (1 n)
  show ?case
  proof (cases "n < 10")
    case True
    then show ?thesis by (subst nat_str.simps) (simp add: digits_val_def code_digit_char)
  next
    case False
    then show ?thesis using 1 by (subst nat_str.simps) (simp add: digits_val_snoc code_digit_char)
  qed
qed

lemma nat_str_all: "takeWhile is_digit (nat_str n) = nat_str n" "dropWhile is_digit (nat_str n) = []"
  using nat_str_digits(1) [of n] by (auto simp: takeWhile_eq_all_conv)

lemma digit_not: "is_digit c \<Longrightarrow> c \<noteq> NUL \<and> \<not> is_space c \<and> c \<noteq> CHR ''-'' \<and> c \<noteq> CHR ''+'' \<and> c \<noteq> CHR ''.''"
  by (auto simp: is_digit_def is_space_def)

lemma minus_not: "\<not> is_space CHR ''-''" "\<not> is_digit CHR ''-''"
  by (simp_all add: is_digit_def is_space_def)

lemma nat_str_plain: "NUL \<notin> set (nat_str n)" "dropWhile is_space (nat_str n) = nat_str n"
  "split_sign (nat_str n) = (False, nat_str n)"
proof -
  obtain c cs where c: "nat_str n = c # cs" using nat_str_digits(2) [of n] by (cases "nat_str n") auto
  then have d: "is_digit c" using nat_str_digits(1) [of n] by auto
  show "NUL \<notin> set (nat_str n)" using nat_str_digits(1) [of n] by (auto simp: is_digit_def)
  show "dropWhile is_space (nat_str n) = nat_str n" "split_sign (nat_str n) = (False, nat_str n)"
    using digit_not [OF d] by (simp_all add: c split_sign_def)
qed

lemma split_sign_int: "split_sign (dropWhile is_space (int_str i)) = (i < 0, nat_str (nat \<bar>i\<bar>))" "NUL \<notin> set (int_str i)"
  by (auto simp: int_str_def minus_not nat_str_plain) (simp add: split_sign_def)

lemma atoi_int_str: "atoi (int_str i) = i"
  using split_sign_int [of i] by (simp add: atoi_def nat_str_all digits_val_nat_str Let_def)

lemma atof_int_str: "atof (int_str i) = of_int i"
  using split_sign_int [of i]
  by (simp add: nat_str_digits(2) atof_def nat_str_all digits_val_nat_str exponent_def Let_def)

end
