(* ===== verification/MB_Split.thy ===== *)
theory MB_Split
  imports C_Strings
begin

text \<open>
  Splitting and joining strings: the \<open>parseString\<close> family, \<open>biteString\<close>, \<open>chompString\<close> and the
  routines that join, of \<open>src/ivp/src/lib_mbutil/MBUtils.cpp\<close>. The routines that work on \<open>c_str()\<close>
  see nothing past a null character. Their separator is not the null character; with it they would
  run past the end of the buffer.
\<close>

section \<open>Scanning for a separator\<close>

text \<open>
  The two loops all splitters share. The inner one collects characters up to a separator that is
  not protected, where \<open>prot\<close> tells whether the state of the scanner protects it and \<open>step\<close> is what
  a character does to the state; the outer one skips the separator and goes on in the same state.
\<close>

fun scan_field :: "('s \<Rightarrow> bool) \<Rightarrow> ('s \<Rightarrow> char \<Rightarrow> 's) \<Rightarrow> char \<Rightarrow> 's \<Rightarrow> string \<Rightarrow> string \<times> string \<times> 's" where
  "scan_field prot step sep st [] = ([], [], st)"
| "scan_field prot step sep st (c # cs) =
     (if c \<noteq> sep \<or> prot st
      then case scan_field prot step sep (step st c) cs of (field, str, st') \<Rightarrow> (c # field, str, st')
      else ([], c # cs, st))"

definition skip_sep :: "char \<Rightarrow> string \<Rightarrow> string" where
  "skip_sep sep str = (case str of c # cs \<Rightarrow> if c = sep then cs else str | [] \<Rightarrow> [])"

lemma scan_field_split: "scan_field prot step sep st str = (field, r, st') \<Longrightarrow>
   str = field @ r \<and> (r = [] \<or> hd r = sep) \<and> (field = [] \<longrightarrow> str = [] \<or> hd str = sep)"
  by (induction str arbitrary: st field) (auto split: prod.splits if_splits)

lemma scan_field_shorter:
  assumes "scan_field prot step sep st str = (field, r, st')" "str \<noteq> []"
  shows "length (skip_sep sep r) < length str"
  using scan_field_split [OF assms(1)] assms(2) by (auto simp: skip_sep_def split: list.splits)

function split_scan :: "('s \<Rightarrow> bool) \<Rightarrow> ('s \<Rightarrow> char \<Rightarrow> 's) \<Rightarrow> char \<Rightarrow> 's \<Rightarrow> string \<Rightarrow> string list" where
  "split_scan prot step sep st str =
     (if str = [] then []
      else case scan_field prot step sep st str of
        (field, r, st') \<Rightarrow> field # split_scan prot step sep st' (skip_sep sep r))"
  by pat_completeness auto
termination
  by (relation "measure (\<lambda>(_, _, _, _, str). length str)") (auto intro: scan_field_shorter [OF sym])

declare split_scan.simps [simp del]

lemma split_scan_Nil [simp]: "split_scan prot step sep st [] = []"
  by (simp add: split_scan.simps)

section \<open>The splitters\<close>

definition parseString :: "string \<Rightarrow> char \<Rightarrow> string list" where
  "parseString string_str separator =
     split_scan (\<lambda>_. False) (\<lambda>st _. st) separator () (c_str string_str)"

text \<open>Double quotes and braces protect; the braces nest.\<close>

record qstate =
  in_quotes :: bool
  brace_count :: nat

definition q_prot :: "qstate \<Rightarrow> bool" where
  "q_prot st \<longleftrightarrow> in_quotes st \<or> brace_count st > 0"

definition q_step :: "qstate \<Rightarrow> char \<Rightarrow> qstate" where
  "q_step st c =
     (if c = QUOTE then st\<lparr>in_quotes := \<not> in_quotes st\<rparr>
      else if c = CHR ''{'' then st\<lparr>brace_count := brace_count st + 1\<rparr>
      else if c = CHR ''}'' then if brace_count st > 0 then st\<lparr>brace_count := brace_count st - 1\<rparr> else st
      else st)"

definition parseStringQ :: "string \<Rightarrow> char \<Rightarrow> string list" where
  "parseStringQ string_str separator =
     split_scan q_prot q_step separator \<lparr>in_quotes = False, brace_count = 0\<rparr> (c_str string_str)"

text \<open>Any choice of double quotes, braces, brackets and parentheses.\<close>

record zstate =
  quote_count :: nat
  z_brace_count :: nat
  brack_count :: nat
  paren_count :: nat

definition z_prot :: "zstate \<Rightarrow> bool" where
  "z_prot st \<longleftrightarrow> quote_count st > 0 \<or> z_brace_count st > 0 \<or> brack_count st > 0 \<or> paren_count st > 0"

text \<open>The counter of a pair of brackets.\<close>

definition z_count :: "char \<Rightarrow> char \<Rightarrow> char \<Rightarrow> nat \<Rightarrow> nat" where
  "z_count lc rc c n = (if c = lc then n + 1 else if c = rc then if n > 0 then n - 1 else n else n)"

definition z_step :: "bool \<Rightarrow> bool \<Rightarrow> bool \<Rightarrow> bool \<Rightarrow> zstate \<Rightarrow> char \<Rightarrow> zstate" where
  "z_step quote_protect brace_protect brack_protect paren_protect st c =
     (let st = (if quote_protect \<and> c = QUOTE
                then st\<lparr>quote_count := if quote_count st = 0 then 1 else 0\<rparr> else st);
          st = (if brace_protect then st\<lparr>z_brace_count := z_count (CHR ''{'') (CHR ''}'') c (z_brace_count st)\<rparr> else st);
          st = (if paren_protect then st\<lparr>paren_count := z_count (CHR ''('') (CHR '')'') c (paren_count st)\<rparr> else st)
      in if brack_protect then st\<lparr>brack_count := z_count (CHR ''['') (CHR '']'') c (brack_count st)\<rparr> else st)"

definition strContains_chr :: "string \<Rightarrow> char \<Rightarrow> bool" where
  "strContains_chr str c = (case chr_find str c of None \<Rightarrow> False | Some posn \<Rightarrow> True)"

definition parseStringZ :: "string \<Rightarrow> char \<Rightarrow> string \<Rightarrow> string list" where
  "parseStringZ string_str separator protectors =
     split_scan z_prot
       (z_step (strContains_chr protectors QUOTE) (strContains_chr protectors (CHR ''{''))
               (strContains_chr protectors (CHR ''['')) (strContains_chr protectors (CHR ''('')))
       separator \<lparr>quote_count = 0, z_brace_count = 0, brack_count = 0, paren_count = 0\<rparr> (c_str string_str)"

text \<open>Nothing at all is returned when the number of quotes is odd; they are counted in all of the string.\<close>

definition parseQuotedString :: "string \<Rightarrow> char \<Rightarrow> string list" where
  "parseQuotedString string_str separator =
     (let quote_counter = foldl (\<lambda>n c. if c = QUOTE then n + 1 else n) (0::nat) string_str
      in if quote_counter mod 2 \<noteq> 0 then []
         else split_scan (\<lambda>even_quote. \<not> even_quote) (\<lambda>even_quote c. if c = QUOTE then \<not> even_quote else even_quote)
                separator True (c_str string_str))"

text \<open>The pieces of \<open>parseStringQ\<close>, bundled up to a length.\<close>

definition parseStringQ_max :: "string \<Rightarrow> char \<Rightarrow> nat \<Rightarrow> string list" where
  "parseStringQ_max string_str separator maxlen =
     (let (rvector, buffer) =
        foldl (\<lambda>(rvector, buffer) s.
            if buffer = '''' then (rvector, s)
            else if length buffer + 1 + length s \<le> maxlen then (rvector, buffer @ [separator] @ s)
            else (rvector @ [buffer @ '',''], s))
          ([], '''') (parseStringQ string_str separator)
      in if buffer \<noteq> '''' then rvector @ [buffer] else rvector)"

text \<open>Words between blanks and tabs; a grouping character keeps what it opens together.\<close>

record words_state =
  w_vector :: "string list"
  w_word :: string
  w_count :: int

definition words_step :: "char \<Rightarrow> char \<Rightarrow> words_state \<Rightarrow> char \<Rightarrow> words_state" where
  "words_step grouping_char rgc st c =
     (if grouping_char \<noteq> NUL \<and> c = grouping_char
      then st\<lparr>w_count := w_count st + 1, w_word := w_word st @ [c]\<rparr>
      else if rgc \<noteq> NUL \<and> c = rgc
      then st\<lparr>w_count := w_count st - 1, w_word := w_word st @ [c]\<rparr>
      else if (c \<noteq> TAB \<and> c \<noteq> CHR '' '') \<or> w_count st > 0
      then st\<lparr>w_word := w_word st @ [c]\<rparr>
      else if length (w_word st) > 0
      then st\<lparr>w_vector := w_vector st @ [w_word st], w_word := ''''\<rparr>
      else st)"

definition parseStringToWords :: "string \<Rightarrow> char \<Rightarrow> string list" where
  "parseStringToWords str grouping_char =
     (let rgc = (if grouping_char = CHR ''('' then CHR '')'' else if grouping_char = CHR ''{'' then CHR ''}''
                 else if grouping_char = CHR ''['' then CHR '']'' else if grouping_char = QUOTE then QUOTE else NUL);
          st = foldl (words_step grouping_char rgc) \<lparr>w_vector = [], w_word = '''', w_count = 0\<rparr> str
      in if length (w_word st) \<noteq> 0 then w_vector st @ [w_word st] else w_vector st)"

definition chompString :: "string \<Rightarrow> char \<Rightarrow> string list" where
  "chompString string_str separator =
     (let str = c_str string_str; str_front = takeWhile (\<lambda>c. c \<noteq> separator) str
      in [str_front, skip_sep separator (drop (length str_front) str)])"

section \<open>Biting off a piece\<close>

text \<open>The value returned and the string left in the argument.\<close>

definition biteString :: "string \<Rightarrow> char \<Rightarrow> string \<times> string" where
  "biteString str separator =
     (if length str = 0 then ('''', str)
      else case chr_find str separator of
        None \<Rightarrow> (str, '''')
      | Some ix \<Rightarrow> (take ix str, if ix + 1 < length str then drop (ix + 1) str else ''''))"

text \<open>The bite at either of two characters stops at a null character, which empties the string.\<close>

definition biteString2 :: "string \<Rightarrow> char \<Rightarrow> char \<Rightarrow> string \<times> string" where
  "biteString2 str sep1 sep2 =
     (if length str = 0 then ('''', str)
      else let str_front = takeWhile (\<lambda>c. c \<noteq> sep1 \<and> c \<noteq> sep2 \<and> c \<noteq> NUL) str; i = length str_front
           in (str_front, if i = length str \<or> str ! i = NUL then '''' else c_str (drop (i + 1) str)))"

text \<open>The loop runs down from the last index and stops before index 0.\<close>

definition rbiteString :: "string \<Rightarrow> char \<Rightarrow> string \<times> string" where
  "rbiteString str separator =
     (if length str = 0 then ('''', str)
      else case find (\<lambda>i. str ! i = separator) (rev [1..<length str]) of
        None \<Rightarrow> (str, '''')
      | Some ix \<Rightarrow> (if ix + 1 < length str then drop (ix + 1) str else '''', take ix str))"

section \<open>Joining\<close>

definition svectorToString :: "string list \<Rightarrow> char \<Rightarrow> string" where
  "svectorToString svector separator =
     foldl (\<lambda>result i. (if i > 0 then result @ [separator] else result) @ svector ! i) '''' [0..<length svector]"

definition augmentSpec :: "string \<Rightarrow> string \<Rightarrow> char \<Rightarrow> string" where
  "augmentSpec orig new_part sep = (if orig \<noteq> '''' then orig @ [sep] else orig) @ new_part"

text \<open>A set is iterated in the order of its elements.\<close>

definition setToString :: "string set \<Rightarrow> string" where
  "setToString str_set =
     foldl (\<lambda>rstr p. (if rstr \<noteq> '''' then rstr @ '','' else rstr) @ p) '''' (sorted_list_of_set str_set)"

section \<open>Splitting loses nothing\<close>

text \<open>Joining, by recursion.\<close>

fun joined :: "char \<Rightarrow> string list \<Rightarrow> string" where
  "joined sep [] = []"
| "joined sep [x] = x"
| "joined sep (x # y # r) = x @ sep # joined sep (y # r)"

lemma joined_snoc: "xs \<noteq> [] \<Longrightarrow> joined sep (xs @ [x]) = joined sep xs @ sep # x"
  by (induction sep xs rule: joined.induct) auto

lemma svectorToString_joined: "svectorToString xs sep = joined sep xs"
proof (induction xs rule: rev_induct)
  case (snoc x xs)
  have "foldl (\<lambda>result i. (if i > 0 then result @ [sep] else result) @ (xs @ [x]) ! i) [] [0..<length xs] =
      foldl (\<lambda>result i. (if i > 0 then result @ [sep] else result) @ xs ! i) [] [0..<length xs]"
    by (rule foldl_cong) (auto simp: nth_append)
  with snoc show ?case by (cases "xs = []") (simp_all add: svectorToString_def joined_snoc)
qed (simp add: svectorToString_def)

lemma split_scan_Cons: "\<exists>y ys. split_scan prot step sep st (c # cs) = y # ys"
  by (subst split_scan.simps) (simp split: prod.splits)

lemma split_scan_lossless:
  "\<exists>t. (t = [] \<or> t = [sep]) \<and> str = joined sep (split_scan prot step sep st str) @ t"
proof (induction prot step sep st str rule: split_scan.induct)
  case (1 prot step sep st str)
  show ?case
  proof (cases "str = []")
    case False
    obtain f r st' where sc: "scan_field prot step sep st str = (f, r, st')" by (metis prod_cases3)
    note s = scan_field_split [OF sc]
    from 1 [OF False sc [symmetric] refl] obtain t where
      t: "t = [] \<or> t = [sep]" "skip_sep sep r = joined sep (split_scan prot step sep st' (skip_sep sep r)) @ t" by auto
    show ?thesis
    proof (cases "skip_sep sep r")
      case Nil
      with s have "r = [] \<or> r = [sep]" by (auto simp: skip_sep_def split: list.splits)
      with False sc s Nil show ?thesis by (subst split_scan.simps) auto
    next
      case (Cons c cs)
      with s have "r = sep # skip_sep sep r" by (auto simp: skip_sep_def split: list.splits)
      moreover obtain y ys where "split_scan prot step sep st' (skip_sep sep r) = y # ys"
        using Cons split_scan_Cons by metis
      ultimately show ?thesis using False sc s t by (subst split_scan.simps) auto
    qed
  qed simp
qed

section \<open>Splitting at every separator\<close>

lemma scan_field_free: "sep \<notin> set x \<Longrightarrow> scan_field (\<lambda>_. False) step sep st (x @ sep # r) = (x, sep # r, foldl step st x)"
  by (induction x arbitrary: st) auto

lemma scan_field_free_end: "sep \<notin> set x \<Longrightarrow> scan_field (\<lambda>_. False) step sep st x = (x, [], foldl step st x)"
  by (induction x arbitrary: st) auto

lemma split_scan_free:
  "sep \<notin> set x \<Longrightarrow> split_scan (\<lambda>_. False) step sep st (x @ sep # r) = x # split_scan (\<lambda>_. False) step sep (foldl step st x) r"
  "sep \<notin> set x \<Longrightarrow> x \<noteq> [] \<Longrightarrow> split_scan (\<lambda>_. False) step sep st x = [x]"
  by (subst split_scan.simps, simp add: scan_field_free skip_sep_def)
    (subst split_scan.simps, simp add: scan_field_free_end skip_sep_def)

lemma foldl_const_unit: "foldl (\<lambda>st _. st) () x = ()"
  by (induction x) auto

lemma split_joined: "\<forall>x\<in>set xs. sep \<notin> set x \<Longrightarrow> xs = [] \<or> last xs \<noteq> [] \<Longrightarrow>
   split_scan (\<lambda>_. False) (\<lambda>st _. st) sep () (joined sep xs) = xs"
proof (induction sep xs rule: joined.induct)
  case (3 sep x y r)
  then have "split_scan (\<lambda>_. False) (\<lambda>st _. st) sep () (joined sep (y # r)) = y # r" by simp
  moreover have "sep \<notin> set x" using 3 by simp
  ultimately show ?case using split_scan_free(1) [of sep x "\<lambda>st _. st" "()"] by (simp add: foldl_const_unit)
qed (auto intro: split_scan_free(2))

lemma set_skip_sep: "set (skip_sep sep r) \<subseteq> set r"
  by (cases r) (auto simp: skip_sep_def)

lemma set_joined: "set (joined sep xs) \<subseteq> insert sep (\<Union>x\<in>set xs. set x)"
  by (induction sep xs rule: joined.induct) auto

text \<open>Two scanners whose states correspond split alike.\<close>

lemma scan_field_sim:
  assumes "R a b" "\<And>a b. R a b \<Longrightarrow> prot a = prot' b" "\<And>a b c. R a b \<Longrightarrow> c \<in> set str \<Longrightarrow> R (step a c) (step' b c)"
  shows "\<exists>f r a' b'. scan_field prot step sep a str = (f, r, a') \<and> scan_field prot' step' sep b str = (f, r, b') \<and> R a' b'"
  using assms(1,3)
proof (induction str arbitrary: a b)
  case (Cons c str)
  have "R (step a c) (step' b c)" using Cons.prems by simp
  moreover have "\<And>a b c'. R a b \<Longrightarrow> c' \<in> set str \<Longrightarrow> R (step a c') (step' b c')" using Cons.prems(2) by simp
  ultimately obtain f r a' b' where
    "scan_field prot step sep (step a c) str = (f, r, a')" "scan_field prot' step' sep (step' b c) str = (f, r, b')" "R a' b'"
    using Cons.IH by blast
  with Cons.prems(1) assms(2) [OF Cons.prems(1)] show ?case by auto
qed auto

lemma split_scan_sim:
  assumes "R a b" "\<And>a b. R a b \<Longrightarrow> prot a = prot' b" "\<And>a b c. R a b \<Longrightarrow> c \<in> set str \<Longrightarrow> R (step a c) (step' b c)"
  shows "split_scan prot step sep a str = split_scan prot' step' sep b str"
  using assms(1,3)
proof (induction "length str" arbitrary: str a b rule: less_induct)
  case less
  show ?case
  proof (cases "str = []")
    case False
    from scan_field_sim [where R = R and sep = sep and prot = prot and prot' = prot' and step = step and step' = step',
      OF less.prems(1) assms(2) less.prems(2)] obtain f r a' b' where
      s: "scan_field prot step sep a str = (f, r, a')" "scan_field prot' step' sep b str = (f, r, b')" "R a' b'" by blast
    have "set (skip_sep sep r) \<subseteq> set str"
      using scan_field_split [OF s(1)] set_skip_sep [of sep r] by auto
    with less.hyps [OF scan_field_shorter [OF s(1) False] s(3)] less.prems(2)
    have "split_scan prot step sep a' (skip_sep sep r) = split_scan prot' step' sep b' (skip_sep sep r)" by blast
    with False s show ?thesis by (simp add: split_scan.simps [of _ _ _ _ str])
  qed simp
qed

lemma strContains_chr_iff: "strContains_chr s c \<longleftrightarrow> c \<in> set s"
  using chr_find_None [of s c] by (auto simp: strContains_chr_def split: option.split)

lemma chr_find_Some:
  assumes "chr_find s c = Some i"
  shows "s = take i s @ c # drop (i + 1) s" "c \<notin> set (take i s)" "i < length s"
proof -
  have i: "i < length s" "s ! i = c" "\<forall>j<i. s ! j \<noteq> c" using assms by (auto simp: chr_find_def find_upt_Some)
  then show "s = take i s @ c # drop (i + 1) s" using id_take_nth_drop [OF i(1)] by simp
  show "c \<notin> set (take i s)" "i < length s" using i by (auto simp: in_set_conv_nth)
qed

section \<open>Properties\<close>


lemma parse_joined:
  assumes "\<forall>x\<in>set xs. sep \<notin> set x \<and> NUL \<notin> set x" "xs = [] \<or> last xs \<noteq> ''''" "sep \<noteq> NUL"
  shows "parseString (joined sep xs) sep = xs"
proof -
  have "NUL \<notin> set (joined sep xs)" using set_joined [of sep xs] assms(1,3) by auto
  moreover have "split_scan (\<lambda>_. False) (\<lambda>st _. st) sep () (joined sep xs) = xs"
    by (rule split_joined) (use assms(1,2) in simp_all)
  ultimately show ?thesis by (simp add: parseString_def)
qed

text \<open>The loops that put a separator behind every field but the last.\<close>

lemma joined_loop_prefix: "k < n \<Longrightarrow>
   foldl (\<lambda>r i. let s = r @ f i in if i < n - 1 then s @ [sep] else s) [] [0..<Suc k] =
   joined sep (map f [0..<Suc k]) @ (if k < n - 1 then [sep] else [])"
proof (induction k)
  case (Suc k)
  then have "foldl (\<lambda>r i. let s = r @ f i in if i < n - 1 then s @ [sep] else s) [] [0..<Suc k] =
      joined sep (map f [0..<Suc k]) @ [sep]" by auto
  then have "foldl (\<lambda>r i. let s = r @ f i in if i < n - 1 then s @ [sep] else s) [] ([0..<Suc k] @ [Suc k]) =
      (joined sep (map f [0..<Suc k]) @ sep # f (Suc k)) @ (if Suc k < n - 1 then [sep] else [])"
    by (simp only: foldl_append foldl.simps Let_def) simp
  moreover have "joined sep (map f [0..<Suc k] @ [f (Suc k)]) = joined sep (map f [0..<Suc k]) @ sep # f (Suc k)"
    by (rule joined_snoc) simp
  moreover have "map f [0..<Suc (Suc k)] = map f [0..<Suc k] @ [f (Suc k)]" "[0..<Suc (Suc k)] = [0..<Suc k] @ [Suc k]" by simp_all
  ultimately show ?case by (simp only:)
qed simp

lemma joined_loop:
  "foldl (\<lambda>r i. let s = r @ f i in if i < n - 1 then s @ [sep] else s) [] [0..<n] = joined sep (map f [0..<n])"
  using joined_loop_prefix [of "n - 1" n f sep] by (cases n) simp_all

text \<open>C30: Splitting what was joined gives the fields back, when none of them holds the separator and the
  last one is not empty.\<close>

theorem join_parse_roundtrip:
  assumes "\<forall>x\<in>set xs. sep \<notin> set x \<and> NUL \<notin> set x" "xs = [] \<or> last xs \<noteq> ''''" "sep \<noteq> NUL"
  shows "parseString (svectorToString xs sep) sep = xs"
  using parse_joined assms by (simp add: svectorToString_joined)

theorem join_parse_roundtrip_witness:
  "parseString (svectorToString [''apples'', '''', '' pears''] (CHR '','')) (CHR '','') = [''apples'', '''', '' pears'']"
  by (rule join_parse_roundtrip) simp_all

text \<open>The three splitters agree where their rules do: \<open>parseStringZ\<close> without protectors is
  \<open>parseString\<close>, with quotes and braces it is \<open>parseStringQ\<close>; and \<open>parseQuotedString\<close> is
  \<open>parseStringQ\<close> on a string without braces, unless the number of quotes is odd.\<close>

theorem splitters_agree:
  assumes "CHR ''{'' \<notin> set s" "CHR ''}'' \<notin> set s"
  shows "parseStringZ t sep '''' = parseString t sep \<and> parseStringZ t sep (QUOTE # ''{'') = parseStringQ t sep \<and>
    parseQuotedString s sep =
      (if foldl (\<lambda>n c. if c = QUOTE then n + 1 else n) (0::nat) s mod 2 = 0 then parseStringQ s sep else [])"
proof (intro conjI)
  have e: "\<not> strContains_chr '''' c" for c by (simp add: strContains_chr_iff)
  show "parseStringZ t sep '''' = parseString t sep"
    unfolding parseStringZ_def parseString_def
    by (rule split_scan_sim [where R = "\<lambda>a b. a = \<lparr>quote_count = 0, z_brace_count = 0, brack_count = 0, paren_count = 0\<rparr>"])
      (simp_all add: z_prot_def z_step_def e)
  have p: "strContains_chr (QUOTE # ''{'') QUOTE" "strContains_chr (QUOTE # ''{'') (CHR ''{'')"
    "\<not> strContains_chr (QUOTE # ''{'') (CHR ''['')" "\<not> strContains_chr (QUOTE # ''{'') (CHR ''('')"
    by (simp_all add: strContains_chr_iff)
  show "parseStringZ t sep (QUOTE # ''{'') = parseStringQ t sep"
    unfolding parseStringZ_def parseStringQ_def
    by (rule split_scan_sim [where R = "\<lambda>a b. (quote_count a > 0) = in_quotes b \<and> z_brace_count a = brace_count b \<and>
        brack_count a = 0 \<and> paren_count a = 0"])
      (auto simp: z_prot_def q_prot_def z_step_def q_step_def p z_count_def Let_def)
  have "set (c_str s) \<subseteq> set s" by (auto simp: c_str_def dest: set_takeWhileD)
  then have b: "CHR ''{'' \<notin> set (c_str s)" "CHR ''}'' \<notin> set (c_str s)" using assms by auto
  have "split_scan (\<lambda>even_quote. \<not> even_quote) (\<lambda>even_quote c. if c = QUOTE then \<not> even_quote else even_quote) sep True (c_str s) =
      split_scan q_prot q_step sep \<lparr>in_quotes = False, brace_count = 0\<rparr> (c_str s)"
    by (rule split_scan_sim [where R = "\<lambda>a b. a \<noteq> in_quotes b \<and> brace_count b = 0"])
      (use b in \<open>auto simp: q_prot_def q_step_def\<close>)
  then show "parseQuotedString s sep =
      (if foldl (\<lambda>n c. if c = QUOTE then n + 1 else n) (0::nat) s mod 2 = 0 then parseStringQ s sep else [])"
    by (simp add: parseQuotedString_def parseStringQ_def)
qed

theorem splitters_agree_witness:
  "parseQuotedString (QUOTE # ''a,b'' @ QUOTE # '',c'') (CHR '','') = parseStringQ (QUOTE # ''a,b'' @ QUOTE # '',c'') (CHR '','')"
  using splitters_agree [of "QUOTE # ''a,b'' @ QUOTE # '',c''" "''''" "CHR '',''"] by simp

text \<open>\<open>biteString\<close> takes what is before the first separator and leaves what is behind it, or takes all
  when there is none. \<open>rbiteString\<close> does so at the last separator, but never sees one at index 0: it
  takes all of \<open>=x\<close> with the separator.\<close>

theorem biteString_splits:
  "(case biteString s sep of (front, back) \<Rightarrow> sep \<notin> set front \<and>
      (if sep \<in> set s then s = front @ sep # back else s = front \<and> back = '''')) \<and>
   (case rbiteString s sep of (back, front) \<Rightarrow>
      (if sep \<in> set (tl s) then s = front @ sep # back \<and> sep \<notin> set back \<and> front \<noteq> '''' else s = back \<and> front = ''''))"
proof (intro conjI)
  show "case biteString s sep of (front, back) \<Rightarrow> sep \<notin> set front \<and>
      (if sep \<in> set s then s = front @ sep # back else s = front \<and> back = '''')"
  proof (cases "chr_find s sep")
    case None
    moreover from None have "sep \<notin> set s" by (simp add: chr_find_None)
    ultimately show ?thesis by (simp add: biteString_def)
  next
    case (Some i)
    note c = chr_find_Some [OF Some]
    have "sep \<in> set s" by (subst c(1)) simp
    with c Some show ?thesis by (auto simp: biteString_def)
  qed
  have nth_rev: "rev [1..<length s] ! k = length s - 1 - k" if "k < length s - 1" for k
    using that by (simp add: rev_nth)
  show "case rbiteString s sep of (back, front) \<Rightarrow>
      (if sep \<in> set (tl s) then s = front @ sep # back \<and> sep \<notin> set back \<and> front \<noteq> '''' else s = back \<and> front = '''')"
  proof (cases "find (\<lambda>i. s ! i = sep) (rev [1..<length s])")
    case None
    then have "\<forall>i. 1 \<le> i \<and> i < length s \<longrightarrow> s ! i \<noteq> sep" by (auto simp: find_None_iff)
    then have "sep \<notin> set (tl s)" by (auto simp: in_set_conv_nth nth_tl)
    with None show ?thesis by (simp add: rbiteString_def)
  next
    case (Some i)
    then obtain k where k0: "k < length (rev [1..<length s])" "s ! (rev [1..<length s] ! k) = sep" "i = rev [1..<length s] ! k"
      "\<forall>j<k. s ! (rev [1..<length s] ! j) \<noteq> sep"
      unfolding find_Some_iff by blast
    then have kl: "k < length s - 1" by simp
    have k: "s ! (length s - 1 - k) = sep" "i = length s - 1 - k" "\<forall>j<k. s ! (length s - 1 - j) \<noteq> sep"
      using k0(2-4) nth_rev kl by simp_all
    then have i: "0 < i" "i < length s" "s ! i = sep" using kl by auto
    have s: "s = take i s @ sep # drop (i + 1) s" using id_take_nth_drop [OF i(2)] i(3) by simp
    have "sep \<notin> set (drop (i + 1) s)"
    proof
      assume "sep \<in> set (drop (i + 1) s)"
      then obtain m where "m < length s - (i + 1)" "s ! (i + 1 + m) = sep" by (auto simp: in_set_conv_nth)
      moreover have "k - Suc m < k" "length s - 1 - (k - Suc m) = i + 1 + m" if "m < length s - (i + 1)"
        using that kl k(2) by arith+
      ultimately show False using k(3) by metis
    qed
    moreover have "sep \<in> set (tl s)"
      using i by (auto simp: in_set_conv_nth nth_tl intro!: exI [of _ "i - 1"])
    ultimately show ?thesis using Some i s by (auto simp: rbiteString_def)
  qed
qed

text \<open>A double quote as the grouping character opens a group and never closes one, since the test for
  the opening character comes first: all that follows the first quote is one word.\<close>

theorem quote_group_never_closes:
  assumes "QUOTE \<notin> set a"
  shows "\<exists>ws w. parseStringToWords (a @ QUOTE # b) QUOTE = ws @ [w @ QUOTE # b]"
proof -
  let ?step = "words_step QUOTE QUOTE"
  have b: "w_count st > 0 \<Longrightarrow> w_vector (foldl ?step st b) = w_vector st \<and> w_word (foldl ?step st b) = w_word st @ b" for st
    by (induction b arbitrary: st) (simp_all add: words_step_def)
  have a: "w_count (foldl ?step st a) = w_count st" for st
    using assms by (induction a arbitrary: st) (auto simp: words_step_def)
  let ?s0 = "\<lparr>w_vector = [], w_word = '''', w_count = 0\<rparr>"
  let ?sa = "foldl ?step ?s0 a"
  have q: "?step ?sa QUOTE = ?sa\<lparr>w_count := 1, w_word := w_word ?sa @ [QUOTE]\<rparr>"
    using a [of ?s0] by (simp add: words_step_def)
  have e: "foldl ?step ?s0 (a @ QUOTE # b) = foldl ?step (?step ?sa QUOTE) b" by simp
  have "w_vector (foldl ?step ?s0 (a @ QUOTE # b)) = w_vector ?sa \<and>
      w_word (foldl ?step ?s0 (a @ QUOTE # b)) = w_word ?sa @ [QUOTE] @ b"
    unfolding e using b [of "?step ?sa QUOTE"] q by simp
  then show ?thesis
    by (intro exI [of _ "w_vector ?sa"] exI [of _ "w_word ?sa"]) (simp add: parseStringToWords_def Let_def)
qed

theorem quote_group_never_closes_witness:
  "\<exists>ws w. parseStringToWords (''a '' @ QUOTE # ''b'' @ QUOTE # '' c d'') QUOTE = ws @ [w @ QUOTE # ''b'' @ QUOTE # '' c d'']"
  by (rule quote_group_never_closes) simp

end
