(* ===== verification/MB_Text.thy ===== *)
theory MB_Text
  imports MB_Split
begin

text \<open>
  The remaining routines of \<open>src/ivp/src/lib_mbutil/MBUtils.cpp\<close> on strings and vectors of strings:
  trimming, replacing, comparing, sorting, and laying out text. A reference parameter that is
  written is a further component of the result.
\<close>

section \<open>Case and ends\<close>

definition tolower :: "string \<Rightarrow> string" where
  "tolower str = map c_tolower str"

definition toupper :: "string \<Rightarrow> string" where
  "toupper str = map c_toupper str"

text \<open>The front loses blanks and tabs, the back also line ends; all of it up to a null character.\<close>

definition front_blank :: "char \<Rightarrow> bool" where
  "front_blank c \<longleftrightarrow> code c = 9 \<or> code c = 32"

definition back_blank :: "char \<Rightarrow> bool" where
  "back_blank c \<longleftrightarrow> code c = 9 \<or> code c = 0 \<or> code c = 32 \<or> code c = 13 \<or> code c = 10"

definition stripBlankEnds :: "string \<Rightarrow> string" where
  "stripBlankEnds str =
     (if length str = 0 then ''''
      else let sPtr = c_str str; len = length sPtr;
               startIX = (case find (\<lambda>i. \<not> front_blank (sPtr ! i)) [0..<len] of Some i \<Rightarrow> i | None \<Rightarrow> len)
           in if startIX = len then ''''
              else let endIX = (case find (\<lambda>i. \<not> back_blank (sPtr ! i)) (rev [0..<len]) of Some i \<Rightarrow> int i | None \<Rightarrow> - 1)
                   in if int startIX > endIX then ''''
                      else take (nat (endIX - int startIX) + 1) (drop startIX sPtr))"

definition biteStringX :: "string \<Rightarrow> char \<Rightarrow> string \<times> string" where
  "biteStringX str separator =
     (case biteString str separator of (front, rest) \<Rightarrow> (stripBlankEnds front, stripBlankEnds rest))"

definition removeWhite :: "string \<Rightarrow> string" where
  "removeWhite str = foldl (\<lambda>r c. if code c \<noteq> 9 \<and> code c \<noteq> 32 then r @ [c] else r) '''' str"

definition truncString :: "string \<Rightarrow> nat \<Rightarrow> string \<Rightarrow> string" where
  "truncString str newlen style =
     (let len = length str in
      if newlen > len then str
      else if style = '''' \<or> style = ''basic'' \<or> style = ''front'' then take newlen str
      else if style = ''back'' then drop (len - newlen) str
      else if newlen < 4 then take newlen str
      else let back = newlen div 2; front = newlen - back; back = back - 1; front = front - 1
           in take front str @ ''..'' @ drop (len - back) str)"

definition padString :: "string \<Rightarrow> nat \<Rightarrow> bool \<Rightarrow> string" where
  "padString str target_size front =
     ((\<lambda>rstr. if front then CHR '' '' # rstr else rstr @ [CHR '' '']) ^^ (target_size - length str)) str"

definition compactConsecutive :: "string \<Rightarrow> char \<Rightarrow> string" where
  "compactConsecutive str dchar =
     (let len = length (c_str str) in
      if len = 0 then ''''
      else foldl (\<lambda>buffer i. if str ! i \<noteq> dchar \<or> str ! (i - 1) \<noteq> dchar then buffer @ [str ! i] else buffer)
             [str ! 0] [1..<len])"

section \<open>Quotes and braces\<close>

text \<open>
  The last character is looked up at the length of the string as given, in the string without its
  blank ends: \<open>None\<close> when that lies behind the terminator.
\<close>

definition enclosed :: "char \<Rightarrow> char \<Rightarrow> string \<Rightarrow> bool option" where
  "enclosed lc rc str =
     (let mod_str = stripBlankEnds str
      in if char_at mod_str 0 = Some lc
         then char_at mod_str (length str - 1) \<bind> (\<lambda>c. Some (c = rc)) else Some False)"

definition isQuoted :: "string \<Rightarrow> bool option" where
  "isQuoted str = enclosed QUOTE QUOTE str"

definition isBraced :: "string \<Rightarrow> bool option" where
  "isBraced str = enclosed (CHR ''{'') (CHR ''}'') str"

definition strip_pair :: "char \<Rightarrow> char \<Rightarrow> string \<Rightarrow> string" where
  "strip_pair lc rc given_str =
     (let str = stripBlankEnds given_str; len = length str
      in if len < 2 then given_str
         else if str ! 0 \<noteq> lc \<or> str ! (len - 1) \<noteq> rc then given_str
         else drop 1 (take (len - 1) str))"

definition stripQuotes :: "string \<Rightarrow> string" where
  "stripQuotes given_str = strip_pair QUOTE QUOTE given_str"

definition stripBraces :: "string \<Rightarrow> string" where
  "stripBraces given_str = strip_pair (CHR ''{'') (CHR ''}'') given_str"

section \<open>Containment\<close>

definition strContains :: "string \<Rightarrow> string \<Rightarrow> bool" where
  "strContains str qstr = (case str_find str qstr 0 of None \<Rightarrow> False | Some posn \<Rightarrow> True)"

definition strContainsWhite :: "string \<Rightarrow> bool" where
  "strContainsWhite str =
     (if chr_find str (CHR '' '') \<noteq> None then True else if chr_find str TAB \<noteq> None then True else False)"

definition strBegins :: "string \<Rightarrow> string \<Rightarrow> bool \<Rightarrow> bool" where
  "strBegins str qstr case_matters =
     (let qlen = length qstr in
      if length str < qlen \<or> qlen = 0 then False
      else if case_matters then list_all (\<lambda>i. str ! i = qstr ! i) [0..<qlen]
      else list_all (\<lambda>i. c_tolower (str ! i) = c_tolower (qstr ! i)) [0..<qlen])"

definition strEnds :: "string \<Rightarrow> string \<Rightarrow> bool \<Rightarrow> bool" where
  "strEnds str qstr case_matters =
     (let qlen = length qstr; slen = length str in
      if slen < qlen \<or> qlen = 0 then False
      else let start_ix = slen - qlen in
        if case_matters then list_all (\<lambda>i. str ! (i + start_ix) = qstr ! i) [0..<qlen]
        else list_all (\<lambda>i. c_tolower (str ! (i + start_ix)) = c_tolower (qstr ! i)) [0..<qlen])"

definition charCount :: "string \<Rightarrow> char \<Rightarrow> nat" where
  "charCount str mychar = foldl (\<lambda>count c. if c = mychar then count + 1 else count) 0 str"

definition isBoolean :: "string \<Rightarrow> bool" where
  "isBoolean str = (let s = tolower str in if s = ''true'' \<or> s = ''false'' then True else False)"

definition stringIsFalse :: "string \<Rightarrow> bool" where
  "stringIsFalse str = (let s = tolower str in if s = ''false'' \<or> s = ''0'' \<or> s = ''no'' then True else False)"

definition isAlphaNum :: "string \<Rightarrow> string \<Rightarrow> bool" where
  "isAlphaNum str achars =
     (if length str = 0 then False
      else list_all (\<lambda>c. 48 \<le> code c \<and> code c \<le> 57 \<or> 65 \<le> code c \<and> code c \<le> 90 \<or>
             97 \<le> code c \<and> code c \<le> 122 \<or> list_ex (\<lambda>a. c = a) achars) str)"

section \<open>Replacing\<close>

definition findReplace_chr :: "string \<Rightarrow> char \<Rightarrow> char \<Rightarrow> string" where
  "findReplace_chr str fchar rchar = map (\<lambda>c. if c = fchar then rchar else c) str"

text \<open>The search goes on behind what was put in; it need not end.\<close>

partial_function (option) replace_loop :: "string \<Rightarrow> string \<Rightarrow> nat \<Rightarrow> string \<Rightarrow> string option" where
  "replace_loop fstr rstr posn newstr =
     (case str_find newstr fstr posn of
        None \<Rightarrow> Some newstr
      | Some p \<Rightarrow> replace_loop fstr rstr (p + length rstr) (take p newstr @ rstr @ drop (p + length fstr) newstr))"

definition findReplace :: "string \<Rightarrow> string \<Rightarrow> string \<Rightarrow> string option" where
  "findReplace str fstr rstr = replace_loop fstr rstr 0 str"

text \<open>A separator of several characters is first replaced by the character 129.\<close>

definition parseString_str :: "string \<Rightarrow> string \<Rightarrow> string list option" where
  "parseString_str string_str separator =
     findReplace string_str separator [CHR 0x81] \<bind> (\<lambda>new_string. Some (parseString new_string (CHR 0x81)))"

definition stripComment :: "string \<Rightarrow> string \<Rightarrow> string" where
  "stripComment str cstr =
     (case str_find str cstr 0 of None \<Rightarrow> str | Some posn \<Rightarrow> c_str (take posn str))"

section \<open>Vectors of strings\<close>

definition vectorContains :: "string list \<Rightarrow> string \<Rightarrow> bool" where
  "vectorContains svector str = list_ex (\<lambda>s. s = str) svector"

definition removeDuplicates :: "string list \<Rightarrow> string list" where
  "removeDuplicates svector =
     foldl (\<lambda>rvector s. if \<not> vectorContains rvector s then rvector @ [s] else rvector) [] svector"

definition mergeVectors :: "string list \<Rightarrow> string list \<Rightarrow> string list" where
  "mergeVectors vector1 vector2 = foldl (\<lambda>v s. v @ [s]) vector1 vector2"

text \<open>The inner loop of the bubble sort compares two neighbours.\<close>

definition bubble :: "string list \<Rightarrow> nat \<Rightarrow> string list" where
  "bubble svector j =
     (if svector ! (j + 1) < svector ! j
      then svector[j := svector ! (j + 1), j + 1 := svector ! j] else svector)"

definition sortStrings :: "string list \<Rightarrow> string list" where
  "sortStrings svector =
     (let vsize = length svector
      in foldl (\<lambda>svector i. foldl bubble svector [0..<vsize - 1 - i]) svector [0..<vsize])"

section \<open>Layout\<close>

record justify_state =
  j_vector :: "string list"
  curr_line :: string
  curr_word :: string
  curr_line_len :: nat
  curr_word_len :: nat

definition justify_step :: "nat \<Rightarrow> justify_state \<Rightarrow> char \<Rightarrow> justify_state" where
  "justify_step maxlen st c =
     (let st = st\<lparr>curr_word := curr_word st @ [c], curr_word_len := curr_word_len st + 1\<rparr>
      in if c = CHR '' ''
         then let st = (if curr_line_len st + curr_word_len st + 1 > maxlen
                        then st\<lparr>j_vector := j_vector st @ [stripBlankEnds (curr_line st)], curr_line := '''', curr_line_len := 0\<rparr>
                        else st)
              in st\<lparr>curr_line := curr_line st @ curr_word st, curr_line_len := curr_line_len st + curr_word_len st,
                    curr_word := '''', curr_word_len := 0\<rparr>
         else st)"

definition justifyLen :: "string list \<Rightarrow> nat \<Rightarrow> string list" where
  "justifyLen svector maxlen =
     (let st = foldl (\<lambda>st line. foldl (justify_step maxlen) st (line @ '' ''))
                 \<lparr>j_vector = [], curr_line = '''', curr_word = '''', curr_line_len = 0, curr_word_len = 0\<rparr> svector
      in j_vector st @ [stripBlankEnds (curr_line st @ curr_word st)])"

definition justifyLen_str :: "string \<Rightarrow> nat \<Rightarrow> string list" where
  "justifyLen_str str maxlen = justifyLen [str] maxlen"

text \<open>The value of the mode, in which \<open>biteString\<close> leaves the part behind the @ sign.\<close>

definition modeShorten :: "string \<Rightarrow> bool \<Rightarrow> string" where
  "modeShorten mode_str really_short =
     foldl (\<lambda>return_value k.
         let (mode_var, rest) = biteString k (CHR ''@'');
             mode_val = (if rest = '''' then mode_var else rest);
             jvector = parseString mode_val (CHR '':'');
             entry = (if return_value \<noteq> '''' then '', '' else '''') @
               (if really_short then if length jvector > 0 then jvector ! (length jvector - 1) else '''' else mode_val)
         in return_value @ entry)
       '''' (parseString mode_str (CHR ''$''))"

text \<open>The parts of a path on Linux; \<open>front()\<close> and \<open>back()\<close> of an empty vector are out of range.\<close>

definition tokenizePath :: "string \<Rightarrow> string list option" where
  "tokenizePath path =
     (case parseString path (CHR ''/'') of
        [] \<Rightarrow> None
      | p # ps \<Rightarrow> Some (if length p = 0 then ps else p # ps))"

definition parseAppName :: "string \<Rightarrow> string option" where
  "parseAppName name =
     tokenizePath name \<bind> (\<lambda>parts. if parts = [] then None else Some (last parts))"

definition isKnownVehicleType :: "string \<Rightarrow> bool" where
  "isKnownVehicleType vehicle_type =
     (let vtype = tolower vehicle_type
      in if vtype = ''auv'' \<or> vtype \<noteq> ''uuv'' \<or> vtype \<noteq> ''kayak'' \<or> vtype = ''usv'' \<or> vtype \<noteq> ''asv'' \<or>
            vtype \<noteq> ''glider'' \<or> vtype = ''ship'' \<or> vtype \<noteq> ''kingfisher'' then True else False)"

section \<open>Trimming\<close>

lemma find_dropWhile:
  "(case find (\<lambda>i. \<not> P (s ! i)) [0..<length s] of Some i \<Rightarrow> i | None \<Rightarrow> length s) = length (takeWhile P s)"
proof (cases "find (\<lambda>i. \<not> P (s ! i)) [0..<length s]")
  case None
  then have "\<forall>x\<in>set s. P x" by (auto simp: find_upt_None in_set_conv_nth)
  then have "length (takeWhile P s) = length s" by (simp add: takeWhile_eq_all_conv [THEN iffD2])
  with None show ?thesis by simp
next
  case (Some i)
  then have i: "i < length s" "\<not> P (s ! i)" "\<forall>j<i. P (s ! j)" by (auto simp: find_upt_Some)
  have "takeWhile P s = take i s" by (rule takeWhile_eq_take_P_nth) (use i in auto)
  with Some i(1) show ?thesis by simp
qed

lemma find_rev_dropWhile:
  "(case find (\<lambda>i. \<not> P (s ! i)) (rev [0..<length s]) of Some i \<Rightarrow> int i | None \<Rightarrow> - 1) =
     int (length s) - 1 - int (length (takeWhile P (rev s)))"
proof -
  have r: "rev [0..<length s] = map (\<lambda>k. length s - 1 - k) [0..<length s]"
    by (rule nth_equalityI) (auto simp: rev_nth)
  have f: "find Q (map g xs) = map_option g (find (\<lambda>x. Q (g x)) xs)" for Q :: "nat \<Rightarrow> bool" and g :: "nat \<Rightarrow> nat" and xs
    by (induction xs) auto
  have c: "find (\<lambda>k. \<not> P (s ! (length s - 1 - k))) [0..<length s] = find (\<lambda>k. \<not> P (rev s ! k)) [0..<length s]"
    by (rule find_cong) (auto simp: rev_nth)
  have "find (\<lambda>k. \<not> P (rev s ! k)) [0..<length (rev s)] = Some i \<Longrightarrow> i < length s" for i
    by (auto simp: find_upt_Some)
  then show ?thesis using find_dropWhile [where P = P and s = "rev s"]
    unfolding r f c by (auto split: option.splits)
qed

text \<open>Trimming, as a specification.\<close>

definition trimmed :: "string \<Rightarrow> string" where
  "trimmed s = rev (dropWhile back_blank (rev (dropWhile front_blank s)))"

lemma front_back_blank: "front_blank c \<Longrightarrow> back_blank c"
  by (auto simp: front_blank_def back_blank_def)

lemma dropWhile_weaker: "(\<And>c. P c \<Longrightarrow> Q c) \<Longrightarrow> dropWhile Q (dropWhile P s) = dropWhile Q s"
  by (induction s) auto

lemma stripBlankEnds_trimmed: "stripBlankEnds s = trimmed (c_str s)"
proof -
  let ?p = "c_str s"
  let ?a = "length (takeWhile front_blank ?p)" and ?b = "length (takeWhile back_blank (rev ?p))"
  have start: "(case find (\<lambda>i. \<not> front_blank (?p ! i)) [0..<length ?p] of Some i \<Rightarrow> i | None \<Rightarrow> length ?p) = ?a"
    by (rule find_dropWhile)
  note stop = find_rev_dropWhile [where P = back_blank and s = ?p]
  have d: "dropWhile front_blank ?p = drop ?a ?p" by (rule dropWhile_eq_drop)
  have t: "?p = takeWhile front_blank ?p @ dropWhile front_blank ?p" by simp
  have e: "stripBlankEnds s = (if s = '''' \<or> ?a = length ?p then '''' else if int ?a > int (length ?p) - 1 - int ?b then ''''
       else take (nat (int (length ?p) - 1 - int ?b - int ?a) + 1) (drop ?a ?p))"
    unfolding stripBlankEnds_def Let_def start stop by simp
  show ?thesis
  proof (cases "list_all back_blank (dropWhile front_blank ?p)")
    case True
    then have "trimmed ?p = ''''" by (auto simp: trimmed_def dropWhile_eq_Nil_conv list_all_iff)
    moreover have "\<forall>c\<in>set ?p. back_blank c" using True front_back_blank
      by (subst t) (auto simp: list_all_iff simp del: takeWhile_dropWhile_id dest: set_takeWhileD)
    then have "?b = length ?p" by (simp add: takeWhile_eq_all_conv [THEN iffD2])
    ultimately show ?thesis unfolding e by simp
  next
    case False
    then have ne: "dropWhile front_blank ?p \<noteq> []" by (metis list.pred_inject(1))
    then have a: "?a < length ?p" using d by simp
    have "takeWhile back_blank (rev ?p) = takeWhile back_blank (rev (dropWhile front_blank ?p) @ rev (takeWhile front_blank ?p))"
      by (subst t) (simp only: rev_append)
    also have "\<dots> = takeWhile back_blank (rev (dropWhile front_blank ?p))"
      using False takeWhile_append1 by (fastforce simp: list_all_iff)
    finally have b: "takeWhile back_blank (rev ?p) = takeWhile back_blank (rev (drop ?a ?p))" by (simp add: d)
    have lb: "?b < length ?p - ?a"
    proof -
      have "?b \<le> length (drop ?a ?p)" unfolding b using length_takeWhile_le [of back_blank "rev (drop ?a ?p)"] by simp
      moreover have "?b \<noteq> length (drop ?a ?p)"
      proof
        assume "?b = length (drop ?a ?p)"
        then have "takeWhile back_blank (rev (drop ?a ?p)) = rev (drop ?a ?p)"
          unfolding b by (metis length_rev takeWhile_eq_take take_all_iff order_refl)
        then show False using False d by (simp add: takeWhile_eq_all_conv list_all_iff)
      qed
      ultimately show ?thesis by simp
    qed
    have "trimmed ?p = rev (drop ?b (rev (drop ?a ?p)))"
      unfolding trimmed_def d dropWhile_eq_drop [of back_blank] b by simp
    also have "\<dots> = take (length ?p - ?a - ?b) (drop ?a ?p)"
    proof -
      have "rev (drop k (rev ys)) = take (length ys - k) ys" for k and ys :: string by (simp add: rev_drop)
      then show ?thesis by (simp only: length_drop)
    qed
    also have "length ?p - ?a - ?b = nat (int (length ?p) - 1 - int ?b - int ?a) + 1" using lb by linarith
    finally have "trimmed ?p = take (nat (int (length ?p) - 1 - int ?b - int ?a) + 1) (drop ?a ?p)" .
    moreover have "s \<noteq> ''''" using a by auto
    ultimately show ?thesis unfolding e using a lb by simp
  qed
qed

lemma trimmed_ends:
  "trimmed s = [] \<or> (\<not> front_blank (hd (trimmed s)) \<and> \<not> back_blank (last (trimmed s)))"
proof (cases "trimmed s = []")
  case False
  let ?d = "dropWhile front_blank s" and ?e = "dropWhile back_blank (rev (dropWhile front_blank s))"
  have e: "?e \<noteq> []" using False by (simp add: trimmed_def)
  then have "\<not> back_blank (hd ?e)" by (rule hd_dropWhile)
  then have l: "\<not> back_blank (last (trimmed s))" using e by (simp add: trimmed_def last_rev)
  have "rev ?d = takeWhile back_blank (rev ?d) @ ?e" by simp
  then have "?d = rev ?e @ rev (takeWhile back_blank (rev ?d))" by (metis rev_append rev_rev_ident)
  then have "hd (trimmed s) = hd ?d" using e by (metis trimmed_def hd_append2 rev_is_Nil_conv)
  moreover have "?d \<noteq> []" using e by (metis dropWhile.simps(1) rev.simps(1))
  then have "\<not> front_blank (hd ?d)" by (rule hd_dropWhile)
  ultimately show ?thesis using l by simp
qed simp

lemma trimmed_id: "s = [] \<or> (\<not> front_blank (hd s) \<and> \<not> back_blank (last s)) \<Longrightarrow> trimmed s = s"
proof (elim disjE conjE)
  assume h: "\<not> front_blank (hd s)" "\<not> back_blank (last s)"
  have "dropWhile front_blank s = s" using h(1) by (cases s) simp_all
  moreover have "dropWhile back_blank (rev s) = rev s" using h(2) by (cases s rule: rev_cases) simp_all
  ultimately show ?thesis by (simp add: trimmed_def)
qed (simp add: trimmed_def)

lemma trimmed_idem: "trimmed (trimmed s) = trimmed s"
  by (rule trimmed_id [OF trimmed_ends])

lemma set_trimmed: "set (trimmed s) \<subseteq> set s"
  by (auto simp: trimmed_def dest!: set_dropWhileD)

text \<open>\<open>stripBlankEnds\<close> cuts the string at its first null character, blanks and tabs off the front,
  and blanks, tabs and line ends off the back; doing it twice changes nothing.\<close>

theorem stripBlankEnds_trims:
  "stripBlankEnds s = rev (dropWhile back_blank (rev (dropWhile front_blank (c_str s)))) \<and>
   stripBlankEnds (stripBlankEnds s) = stripBlankEnds s"
proof -
  have "NUL \<notin> set (trimmed (c_str s))" using set_trimmed NUL_notin_c_str by blast
  then show ?thesis by (simp add: stripBlankEnds_trimmed trimmed_idem) (simp add: trimmed_def)
qed

section \<open>Replacing\<close>

text \<open>Replacing every occurrence from the left, by recursion on the string.\<close>

function replaced :: "string \<Rightarrow> string \<Rightarrow> string \<Rightarrow> string" where
  "replaced f r s =
     (if f \<noteq> [] \<and> take (length f) s = f then r @ replaced f r (drop (length f) s)
      else case s of [] \<Rightarrow> [] | c # cs \<Rightarrow> c # replaced f r cs)"
  by pat_completeness auto
termination
  by (relation "measure (\<lambda>(f, r, s). length s)") (auto intro!: diff_less)

declare replaced.simps [simp del]

lemma replaced_skip:
  "\<forall>j<length u. take (length f) (drop j (u @ w)) \<noteq> f \<Longrightarrow> replaced f r (u @ w) = u @ replaced f r w"
proof (induction u)
  case (Cons c u)
  have "\<forall>j<length u. take (length f) (drop j (u @ w)) \<noteq> f" using Cons.prems by force
  moreover have "take (length f) ((c # u) @ w) \<noteq> f" using Cons.prems by force
  ultimately show ?case using Cons.IH by (subst replaced.simps) simp
qed simp

lemma replace_loop_ends:
  "f \<noteq> [] \<Longrightarrow> posn \<le> length s \<Longrightarrow> replace_loop f r posn s = Some (take posn s @ replaced f r (drop posn s))"
proof (induction "length s - posn" arbitrary: posn s rule: less_induct)
  case less
  show ?case
  proof (cases "str_find s f posn")
    case None
    then have n: "\<forall>i. posn \<le> i \<and> i < Suc (length s) - length f \<longrightarrow> take (length f) (drop i s) \<noteq> f"
      by (simp add: str_find_def find_upt_None)
    have "take (length f) (drop j (drop posn s @ [])) \<noteq> f" for j
    proof
      assume h: "take (length f) (drop j (drop posn s @ [])) = f"
      from arg_cong [OF this, of length] have "length f \<le> length s - (posn + j)"
        by (simp add: min_def add.commute split: if_splits)
      moreover have "0 < length f" using less.prems(1) by simp
      ultimately have "posn + j < Suc (length s) - length f" by linarith
      with n h show False by (simp add: add.commute)
    qed
    then have "replaced f r (drop posn s @ []) = drop posn s @ replaced f r []" by (intro replaced_skip) blast
    moreover have "replaced f r [] = []" using less.prems(1) by (subst replaced.simps) simp
    ultimately show ?thesis using None by (simp add: replace_loop.simps)
  next
    case (Some p)
    then have p: "posn \<le> p" "p < Suc (length s) - length f" "take (length f) (drop p s) = f"
      "\<forall>j. posn \<le> j \<and> j < p \<longrightarrow> take (length f) (drop j s) \<noteq> f"
      by (auto simp: str_find_def find_upt_Some)
    let ?u = "take (p - posn) (drop posn s)"
    have ds: "drop posn s = ?u @ drop p s"
      using p(1) by (metis append_take_drop_id drop_drop le_add_diff_inverse2)
    have lu: "length ?u = p - posn" using p by simp
    have "replaced f r (drop posn s) = ?u @ replaced f r (drop p s)"
    proof (subst ds, rule replaced_skip, intro allI impI)
      fix j assume "j < length ?u"
      with p(4) [rule_format, of "posn + j"] lu show "take (length f) (drop j (?u @ drop p s)) \<noteq> f"
        unfolding ds [symmetric] by (simp add: add.commute)
    qed
    moreover have "replaced f r (drop p s) = r @ replaced f r (drop (p + length f) s)"
      using p(3) less.prems(1) by (subst replaced.simps) (simp add: add.commute)
    moreover have "take posn s @ ?u = take p s" using p(1) by (metis le_add_diff_inverse take_add)
    ultimately have e: "take posn s @ replaced f r (drop posn s) = take p s @ r @ replaced f r (drop (p + length f) s)"
      by (metis append_assoc)
    let ?s' = "take p s @ r @ drop (p + length f) s"
    have pl: "p + length f \<le> length s" using p(2) by simp
    then have "length ?s' - (p + length r) < length s - posn" "p + length r \<le> length ?s'"
      using less.prems p(1) by (cases f; simp)+
    from less.hyps [OF this(1) less.prems(1) this(2)]
    have "replace_loop f r (p + length r) ?s' = Some (take p s @ r @ replaced f r (drop (p + length f) s))"
      using pl by simp
    with Some e show ?thesis by (simp add: replace_loop.simps [of _ _ posn])
  qed
qed

text \<open>With nothing to look for the loop finds it at every position and does not end.\<close>

lemma str_find_empty: "posn \<le> length s \<Longrightarrow> str_find s [] posn = Some posn"
  unfolding str_find_def find_upt_Some by simp

lemma replace_loop_empty_Some:
  assumes "replace_loop f r posn s = Some y"
  shows "f = [] \<longrightarrow> length s < posn"
proof (rule replace_loop.raw_induct [where P = "\<lambda>f r posn s y. f = [] \<longrightarrow> length s < posn", OF _ assms], intro impI)
  fix loop f r posn s y
  assume h: "\<And>f r posn s y. loop f r posn s = Some y \<Longrightarrow> f = [] \<longrightarrow> length s < posn"
    "(case str_find s f posn of None \<Rightarrow> Some s
      | Some p \<Rightarrow> loop f r (p + length r) (take p s @ r @ drop (p + length f) s)) = Some y" "f = []"
  show "length s < posn"
  proof (rule ccontr)
    assume n: "\<not> length s < posn"
    with h(2,3) have "loop [] r (posn + length r) (take posn s @ r @ drop posn s) = Some y"
      by (simp add: str_find_empty)
    from h(1) [OF this] n show False by simp
  qed
qed

lemma replace_loop_empty: "posn \<le> length s \<Longrightarrow> replace_loop [] r posn s = None"
  using replace_loop_empty_Some by (metis leD option.exhaust)

lemma findReplace_replaced [code]: "findReplace s f r = (if f = '''' then None else Some (replaced f r s))"
  by (simp add: findReplace_def replace_loop_empty replace_loop_ends)

text \<open>C32: \<open>findReplace\<close> ends exactly when there is something to look for, whatever is put in its place, even
  a string that holds what is looked for; then every occurrence from the left is replaced. The
  splitter with a string for its separator inherits the loop.\<close>

theorem findReplace_ends:
  "findReplace s f r = (if f = '''' then None else Some (replaced f r s)) \<and>
   parseString_str s f = (if f = '''' then None else Some (parseString (replaced f [CHR 0x81] s) (CHR 0x81)))"
  by (simp add: findReplace_replaced parseString_str_def)

section \<open>Sorting\<close>

lemma bubble_facts:
  assumes "j + 1 < length xs"
  shows "mset (bubble xs j) = mset xs" "length (bubble xs j) = length xs"
    "\<And>k. k \<noteq> j \<Longrightarrow> k \<noteq> j + 1 \<Longrightarrow> bubble xs j ! k = xs ! k"
    "bubble xs j ! j \<le> bubble xs j ! (j + 1)"
    "{bubble xs j ! j, bubble xs j ! (j + 1)} = {xs ! j, xs ! (j + 1)}"
proof -
  show "mset (bubble xs j) = mset xs" using assms mset_swap [of "j + 1" xs j] by (simp add: bubble_def)
  show "length (bubble xs j) = length xs" "\<And>k. k \<noteq> j \<Longrightarrow> k \<noteq> j + 1 \<Longrightarrow> bubble xs j ! k = xs ! k"
    by (simp_all add: bubble_def)
  show "bubble xs j ! j \<le> bubble xs j ! (j + 1)" "{bubble xs j ! j, bubble xs j ! (j + 1)} = {xs ! j, xs ! (j + 1)}"
    using assms by (auto simp: bubble_def nth_list_update)
qed

text \<open>One pass moves the largest of the first \<open>k + 1\<close> strings to index \<open>k\<close> and keeps those behind.\<close>

definition passed :: "string list \<Rightarrow> nat \<Rightarrow> string list \<Rightarrow> bool" where
  "passed xs k ys \<longleftrightarrow> mset ys = mset xs \<and> (\<forall>a\<le>k. ys ! a \<le> ys ! k) \<and> (\<forall>b<length xs. k < b \<longrightarrow> ys ! b = xs ! b)"

lemma pass: "k < length xs \<Longrightarrow> passed xs k (foldl bubble xs [0..<k])"
proof (induction k)
  case (Suc k)
  let ?ys = "foldl bubble xs [0..<k]"
  from Suc have p: "mset ?ys = mset xs" "\<forall>a\<le>k. ?ys ! a \<le> ?ys ! k" "\<forall>b<length xs. k < b \<longrightarrow> ?ys ! b = xs ! b"
    by (simp_all add: passed_def)
  then have l: "k + 1 < length ?ys" using Suc.prems mset_eq_length [of ?ys xs] by simp
  note b = bubble_facts [OF l]
  have "bubble ?ys k ! a \<le> bubble ?ys k ! (k + 1)" if le: "a \<le> k + 1" for a
  proof -
    consider "a < k" | "a = k" | "a = k + 1" using le by linarith
    then show ?thesis
    proof cases
      case 1
      then have "bubble ?ys k ! a \<le> ?ys ! k" using b(3) [of a] p(2) by simp
      also have "?ys ! k \<le> bubble ?ys k ! (k + 1)" using b(4,5) by (metis doubleton_eq_iff order_refl)
      finally show ?thesis .
    qed (use b(4) in auto)
  qed
  moreover have "mset (bubble ?ys k) = mset xs" using b(1) p(1) by simp
  moreover have "\<forall>c<length xs. k + 1 < c \<longrightarrow> bubble ?ys k ! c = xs ! c" using b(3) p(3) by simp
  ultimately show ?case by (simp add: passed_def)
qed (simp add: passed_def)

text \<open>After \<open>i\<close> passes the last \<open>i\<close> strings are in place.\<close>

definition tail_sorted :: "nat \<Rightarrow> string list \<Rightarrow> bool" where
  "tail_sorted m xs \<longleftrightarrow> (\<forall>a b. a < b \<and> b < length xs \<and> m \<le> b \<longrightarrow> xs ! a \<le> xs ! b)"

lemma set_take_eq:
  assumes "mset xs = mset ys" "\<forall>b<length xs. m \<le> b \<longrightarrow> ys ! b = xs ! b"
  shows "set (take m xs) = set (take m ys)"
proof -
  have l: "length xs = length ys" using assms(1) by (rule mset_eq_length)
  have "drop m xs = drop m ys" using assms(2) l by (intro nth_equalityI) auto
  moreover have "mset (take m xs) + mset (drop m xs) = mset (take m ys) + mset (drop m ys)"
    using assms(1) by (metis append_take_drop_id mset_append)
  ultimately have "mset (take m xs) = mset (take m ys)" by simp
  then show ?thesis by (metis set_mset_mset)
qed

lemma pass_tail_sorted:
  assumes "tail_sorted (Suc k) xs" "k < length xs" "passed xs k ys"
  shows "tail_sorted k ys"
  unfolding tail_sorted_def
proof (intro allI impI)
  fix a b assume h: "a < b \<and> b < length ys \<and> k \<le> b"
  have p: "mset ys = mset xs" "\<forall>a\<le>k. ys ! a \<le> ys ! k" "\<forall>b<length xs. k < b \<longrightarrow> ys ! b = xs ! b"
    using assms(3) by (simp_all add: passed_def)
  have l: "length ys = length xs" using p(1) by (rule mset_eq_length)
  show "ys ! a \<le> ys ! b"
  proof (cases "b = k")
    case False
    then have b: "Suc k \<le> b" "ys ! b = xs ! b" using h p(3) l by auto
    show ?thesis
    proof (cases "k < a")
      case True
      then show ?thesis using h p(3) l b assms(1) by (simp add: tail_sorted_def)
    next
      case False
      have "set (take (Suc k) xs) = set (take (Suc k) ys)"
        by (rule set_take_eq) (use p(1,3) in auto)
      moreover have "ys ! a \<in> set (take (Suc k) ys)" using False h by (auto simp: in_set_conv_nth intro!: exI [of _ a])
      ultimately have "ys ! a \<in> set (take (Suc k) xs)" by simp
      then obtain c where "c < Suc k" "ys ! a = xs ! c" by (auto simp: in_set_conv_nth)
      then show ?thesis using b h l assms(1) by (simp add: tail_sorted_def)
    qed
  qed (use h p(2) in simp)
qed

lemma sortStrings_passes:
  "i \<le> length xs \<Longrightarrow> \<exists>ys. foldl (\<lambda>ys i. foldl bubble ys [0..<length xs - 1 - i]) xs [0..<i] = ys \<and>
     mset ys = mset xs \<and> tail_sorted (length xs - i) ys"
proof (induction i)
  case (Suc i)
  then obtain ys where ys: "foldl (\<lambda>ys i. foldl bubble ys [0..<length xs - 1 - i]) xs [0..<i] = ys"
    "mset ys = mset xs" "tail_sorted (length xs - i) ys" by auto
  have k: "length xs - 1 - i < length ys" "Suc (length xs - 1 - i) = length xs - i"
    using Suc.prems mset_eq_length [OF ys(2)] by auto
  note p = pass [OF k(1)]
  have "tail_sorted (length xs - 1 - i) (foldl bubble ys [0..<length xs - 1 - i])"
    by (rule pass_tail_sorted [OF _ k(1) p]) (unfold k(2), rule ys(3))
  with ys p show ?case by (simp add: passed_def)
qed (auto simp: tail_sorted_def)

text \<open>The bubble sort \<open>sortStrings\<close> sorts by the order of \<open>std::string\<close> and keeps every string.\<close>

theorem sortStrings_sorts: "sorted (sortStrings xs) \<and> mset (sortStrings xs) = mset xs"
proof -
  have "sortStrings xs = foldl (\<lambda>ys i. foldl bubble ys [0..<length xs - 1 - i]) xs [0..<length xs]"
    by (simp only: sortStrings_def Let_def)
  with sortStrings_passes [of "length xs" xs] show ?thesis
    by (auto simp: tail_sorted_def sorted_iff_nth_mono_less)
qed

section \<open>Laying out text\<close>

lemma filter_dropWhile_blank: "(\<And>c. P c \<Longrightarrow> \<not> Q c) \<Longrightarrow> filter Q (dropWhile P s) = filter Q s"
  by (induction s) auto

lemma filter_trimmed: "filter (\<lambda>c. \<not> back_blank c) (trimmed s) = filter (\<lambda>c. \<not> back_blank c) s"
  unfolding trimmed_def
  by (simp add: filter_dropWhile_blank front_back_blank flip: rev_filter)

lemma length_trimmed: "length (trimmed s) \<le> length s"
  unfolding trimmed_def
  by (metis length_dropWhile_le length_rev order.trans)

text \<open>A line is short enough or a single word.\<close>

definition line_ok :: "nat \<Rightarrow> string \<Rightarrow> bool" where
  "line_ok maxlen l \<longleftrightarrow> length l \<le> maxlen \<or> CHR '' '' \<notin> set l"

definition line_open :: "nat \<Rightarrow> string \<Rightarrow> bool" where
  "line_open maxlen l \<longleftrightarrow> length l \<le> maxlen \<or> (\<exists>w. l = w @ '' '' \<and> CHR '' '' \<notin> set w)"

lemma blank_is: "front_blank (CHR '' '')" "back_blank (CHR '' '')"
  by (simp_all add: front_blank_def back_blank_def)

lemma trimmed_blank_end: "trimmed (w @ '' '') = trimmed w"
proof (cases "list_all front_blank w")
  case True
  then have "dropWhile front_blank (w @ '' '') = []" "dropWhile front_blank w = []"
    using blank_is by (auto simp: list_all_iff dropWhile_eq_Nil_conv)
  then show ?thesis unfolding trimmed_def by (simp only: rev.simps)
next
  case False
  then have "dropWhile front_blank (w @ '' '') = dropWhile front_blank w @ '' ''"
    by (auto simp: list_all_iff dropWhile_append1)
  then show ?thesis using blank_is by (simp add: trimmed_def)
qed

lemma line_open_trimmed:
  assumes "line_open maxlen l"
  shows "line_ok maxlen (trimmed l)"
proof (cases "length l \<le> maxlen")
  case True
  then show ?thesis using length_trimmed [of l] by (simp add: line_ok_def)
next
  case False
  with assms obtain w where "l = w @ '' ''" "CHR '' '' \<notin> set w" by (auto simp: line_open_def)
  then show ?thesis using set_trimmed [of w] by (auto simp: line_ok_def trimmed_blank_end)
qed

text \<open>What holds after the text \<open>t\<close>; \<open>text_of\<close> is what is visible.\<close>

definition text_of :: "string \<Rightarrow> string" where
  "text_of s = filter (\<lambda>c. \<not> back_blank c) s"

lemma text_of_simps [simp]: "text_of (a @ b) = text_of a @ text_of b" "text_of [] = []" "text_of (trimmed s) = text_of s"
  by (simp_all add: text_of_def filter_trimmed)

definition justified :: "nat \<Rightarrow> string \<Rightarrow> justify_state \<Rightarrow> bool" where
  "justified maxlen t st \<longleftrightarrow>
     curr_line_len st = length (curr_line st) \<and> curr_word_len st = length (curr_word st) \<and>
     CHR '' '' \<notin> set (curr_word st) \<and> line_open maxlen (curr_line st) \<and>
     NUL \<notin> set (curr_line st) \<and> NUL \<notin> set (curr_word st) \<and>
     (\<forall>l\<in>set (j_vector st). line_ok maxlen l) \<and>
     text_of (concat (j_vector st)) @ text_of (curr_line st) @ text_of (curr_word st) = text_of t"

lemma justify_step_blank:
  assumes "justified maxlen t st"
  shows "justified maxlen (t @ '' '') (justify_step maxlen st (CHR '' ''))"
proof -
  note a = assms [unfolded justified_def]
  have s: "text_of '' '' = []" using blank_is by (simp add: text_of_def)
  show ?thesis
  proof (cases "length (curr_line st) + (length (curr_word st) + 1) + 1 > maxlen")
    case True
    have "line_ok maxlen (stripBlankEnds (curr_line st))" using a line_open_trimmed by (simp add: stripBlankEnds_trimmed)
    moreover have "line_open maxlen (curr_word st @ '' '')" using a by (auto simp: line_open_def)
    moreover have "text_of (stripBlankEnds (curr_line st)) = text_of (curr_line st)" using a by (simp add: stripBlankEnds_trimmed)
    ultimately show ?thesis using a True s by (simp add: justify_step_def justified_def Let_def)
  next
    case False
    then have "line_open maxlen (curr_line st @ curr_word st @ '' '')" by (simp add: line_open_def)
    then show ?thesis using a False s by (simp add: justify_step_def justified_def Let_def)
  qed
qed

lemma justify_step_char:
  "justified maxlen t st \<Longrightarrow> c \<noteq> CHR '' '' \<Longrightarrow> c \<noteq> NUL \<Longrightarrow> justified maxlen (t @ [c]) (justify_step maxlen st c)"
  by (simp add: justify_step_def justified_def Let_def)

lemma justify_chars:
  "justified maxlen t st \<Longrightarrow> NUL \<notin> set cs \<Longrightarrow> justified maxlen (t @ cs) (foldl (justify_step maxlen) st cs)"
proof (induction cs arbitrary: t st)
  case (Cons c cs)
  have "justified maxlen (t @ [c]) (justify_step maxlen st c)"
    using Cons.prems justify_step_blank [OF Cons.prems(1)] justify_step_char [OF Cons.prems(1), of c] by (cases "c = CHR '' ''") auto
  with Cons.IH [OF this] Cons.prems(2) show ?case by simp
qed simp

text \<open>\<open>justifyLen\<close> keeps the visible text of its lines in order and breaks it into lines no longer than
  asked for, except for a word that is longer by itself.\<close>

theorem justifyLen_lines:
  assumes "\<forall>s\<in>set xs. NUL \<notin> set s"
  shows "(\<forall>l\<in>set (justifyLen xs maxlen). length l \<le> maxlen \<or> CHR '' '' \<notin> set l) \<and>
    filter (\<lambda>c. \<not> back_blank c) (concat (justifyLen xs maxlen)) = filter (\<lambda>c. \<not> back_blank c) (concat xs)"
proof -
  let ?s0 = "\<lparr>j_vector = [], curr_line = '''', curr_word = '''', curr_line_len = 0, curr_word_len = 0\<rparr>"
  let ?go = "\<lambda>st line. foldl (justify_step maxlen) st (line @ '' '')"
  have s: "text_of '' '' = []" using blank_is by (simp add: text_of_def)
  have lines: "\<exists>t'. justified maxlen t' (foldl ?go st xs) \<and> text_of t' = text_of t @ text_of (concat xs) \<and>
      curr_word (foldl ?go st xs) = ''''"
    if "justified maxlen t st" "curr_word st = ''''" "\<forall>s\<in>set xs. NUL \<notin> set s" for t st xs
    using that
  proof (induction xs arbitrary: t st)
    case (Cons x xs)
    have "justified maxlen (t @ x @ '' '') (?go st x)" by (rule justify_chars) (use Cons.prems in simp_all)
    moreover have "curr_word (?go st x) = ''''" by (simp add: justify_step_def Let_def)
    ultimately obtain t' where "justified maxlen t' (foldl ?go (?go st x) xs)"
      "text_of t' = text_of (t @ x @ '' '') @ text_of (concat xs)" "curr_word (foldl ?go (?go st x) xs) = ''''"
      using Cons.IH Cons.prems(3) by (meson list.set_intros(2))
    with s show ?case by (intro exI [of _ t']) simp
  qed auto
  have "justified maxlen '''' ?s0" by (simp add: justified_def line_open_def)
  from lines [OF this _ assms] obtain t' where t: "justified maxlen t' (foldl ?go ?s0 xs)"
    "text_of t' = text_of (concat xs)" "curr_word (foldl ?go ?s0 xs) = ''''" by auto
  let ?st = "foldl ?go ?s0 xs"
  have e: "justifyLen xs maxlen = j_vector ?st @ [trimmed (curr_line ?st)]"
    using t(1,3) by (simp add: justifyLen_def Let_def justified_def stripBlankEnds_trimmed)
  have "line_ok maxlen (trimmed (curr_line ?st))" using t(1) line_open_trimmed by (simp add: justified_def)
  then have "\<forall>l\<in>set (justifyLen xs maxlen). line_ok maxlen l" using t(1) by (simp add: e justified_def)
  moreover have "text_of (concat (justifyLen xs maxlen)) = text_of (concat xs)"
    using t by (simp add: e justified_def)
  ultimately show ?thesis by (simp add: line_ok_def text_of_def)
qed

theorem justifyLen_lines_witness:
  "filter (\<lambda>c. \<not> back_blank c) (concat (justifyLen [''Now is the'', ''time for''] 8)) =
   filter (\<lambda>c. \<not> back_blank c) (concat [''Now is the'', ''time for''])"
  using justifyLen_lines [of "[''Now is the'', ''time for'']" 8] by simp

section \<open>Two tests that are not\<close>

text \<open>The test for a known vehicle type mixes \<open>==\<close> and \<open>!=\<close> under \<open>||\<close> and accepts every string;
  \<open>isQuoted\<close> looks for the closing quote where the string without its blank ends has none, so that a
  quoted string with a blank around it is read at the terminator or behind it.\<close>

theorem broken_tests:
  assumes "QUOTE \<notin> set a" "NUL \<notin> set a"
  shows "isKnownVehicleType s \<and> isQuoted (QUOTE # a @ [QUOTE]) = Some True \<and>
    isQuoted (QUOTE # a @ [QUOTE] @ '' '') = Some False \<and> isQuoted ('' '' @ QUOTE # a @ [QUOTE] @ '' '') = None"
proof -
  have q: "\<not> front_blank QUOTE" "\<not> back_blank QUOTE" by (simp_all add: front_blank_def back_blank_def)
  let ?q = "QUOTE # a @ [QUOTE]"
  have t: "trimmed ?q = ?q" by (rule trimmed_id) (use q in simp)
  then have t1: "trimmed (?q @ '' '') = ?q" by (simp only: trimmed_blank_end)
  have "trimmed ('' '' @ ?q @ '' '') = trimmed (?q @ '' '')" using blank_is by (simp add: trimmed_def)
  then have t2: "trimmed ('' '' @ ?q @ '' '') = ?q" using t1 by simp
  have s: "stripBlankEnds ?q = ?q" "stripBlankEnds (?q @ '' '') = ?q" "stripBlankEnds ('' '' @ ?q @ '' '') = ?q"
    using t t1 t2 assms(2) by (simp_all add: stripBlankEnds_trimmed)
  have "isKnownVehicleType s" by (auto simp: isKnownVehicleType_def Let_def)
  moreover have "isQuoted ?q = Some True" using s(1)
    by (simp add: isQuoted_def enclosed_def char_at_def Let_def nth_append)
  moreover have "isQuoted (?q @ '' '') = Some False" using s(2)
    by (simp add: isQuoted_def enclosed_def char_at_def Let_def)
  moreover have "isQuoted ('' '' @ ?q @ '' '') = None" using s(3)
    by (simp add: isQuoted_def enclosed_def char_at_def Let_def)
  ultimately show ?thesis by simp
qed

theorem broken_tests_witness:
  "isKnownVehicleType ''zeppelin'' \<and> isQuoted (QUOTE # ''a'' @ [QUOTE]) = Some True \<and>
    isQuoted (QUOTE # ''a'' @ [QUOTE] @ '' '') = Some False \<and> isQuoted ('' '' @ QUOTE # ''a'' @ [QUOTE] @ '' '') = None"
  by (rule broken_tests) simp_all

end
