(* ===== verification/MB_Values.thy ===== *)
theory MB_Values
  imports MB_Text
begin

text \<open>
  The routines of \<open>src/ivp/src/lib_mbutil/MBUtils.cpp\<close> that read and print numbers, look up values
  in lists of pairs, snap and clip values, and read command lines. \<open>sprintf\<close> is modelled for the
  formats the code builds; the real it prints is exact, and halves round to even, as the C library
  rounds. An \<open>int\<close> or \<open>unsigned int\<close> is in the range of its type.
\<close>

section \<open>Printing\<close>

definition boolToString :: "bool \<Rightarrow> string" where
  "boolToString val = (if val then ''true'' else ''false'')"

definition intToString :: "int \<Rightarrow> string" where
  "intToString val = int_str val"

definition uintToString :: "nat \<Rightarrow> string" where
  "uintToString val = nat_str val"

definition comma_loop :: "string \<Rightarrow> string" where
  "comma_loop str =
     (let len = length str in
      foldl (\<lambda>new_str i. let new_str = new_str @ [str ! i]
               in if (len - (i + 1)) mod 3 = 0 \<and> i \<noteq> len - 1 then new_str @ '','' else new_str) '''' [0..<len])"

definition intToCommaString :: "int \<Rightarrow> string" where
  "intToCommaString ival = comma_loop (intToString ival)"

definition uintToCommaString :: "nat \<Rightarrow> string" where
  "uintToCommaString ival = comma_loop (uintToString ival)"

text \<open>The nearest integer, a half to the even one, and the formats \<open>%.df\<close> and \<open>%.de\<close>.\<close>

definition round_even :: "real \<Rightarrow> int" where
  "round_even x = (let f = \<lfloor>x\<rfloor>; r = x - of_int f
     in if r < 1 / 2 then f else if r > 1 / 2 then f + 1 else if even f then f else f + 1)"

definition zero_pad :: "nat \<Rightarrow> string \<Rightarrow> string" where
  "zero_pad d s = replicate (d - length s) (CHR ''0'') @ s"

definition printf_f :: "nat \<Rightarrow> real \<Rightarrow> string" where
  "printf_f d x = (let n = nat (round_even (\<bar>x\<bar> * 10 ^ d))
     in (if x < 0 then ''-'' else '''') @ nat_str (n div 10 ^ d) @
        (if d = 0 then '''' else ''.'' @ zero_pad d (nat_str (n mod 10 ^ d))))"

text \<open>Only a value of at least 1 is printed with an exponent.\<close>

definition printf_e :: "nat \<Rightarrow> real \<Rightarrow> string" where
  "printf_e d x =
     (let e0 = length (nat_str (nat \<lfloor>x\<rfloor>)) - 1;
          n0 = nat (round_even (x / 10 powi (int e0 - int d)));
          e = (if n0 \<ge> 10 ^ (d + 1) then e0 + 1 else e0);
          n = (if n0 \<ge> 10 ^ (d + 1) then 10 ^ d else n0)
      in nat_str (n div 10 ^ d) @ (if d = 0 then '''' else ''.'' @ zero_pad d (nat_str (n mod 10 ^ d))) @
         ''e+'' @ zero_pad 2 (nat_str e))"

text \<open>
  The format starts as \<open>%.5f\<close>; the digits go to index 2, or to 2 and 3, and a large value puts an
  \<open>e\<close> at index 3, which with two digits overwrites the second and leaves the \<open>f\<close> behind it.
\<close>

definition floatToString :: "real \<Rightarrow> int \<Rightarrow> string" where
  "floatToString val digits =
     (let d = (if 0 \<le> digits \<and> digits \<le> 9 then nat digits else 5)
      in if val > 2 ^ 64 then printf_e d val else printf_f d val)"

definition doubleToString :: "real \<Rightarrow> int \<Rightarrow> string" where
  "doubleToString val digits =
     (if 0 \<le> digits \<and> digits \<le> 9
      then if val > 2 ^ 128 then printf_e (nat digits) val else printf_f (nat digits) val
      else if 10 \<le> digits \<and> digits \<le> 19
      then if val > 2 ^ 128 then printf_e 1 val @ ''f'' else printf_f (nat digits) val
      else if val > 2 ^ 128 then printf_e 2 val @ ''f'' else printf_f 20 val)"

text \<open>
  The loop that cuts zeros off the end, and a decimal point behind which nothing is left, on the
  reversed string. The string holds no null character.
\<close>

fun compact_rev :: "string \<Rightarrow> string" where
  "compact_rev [] = []"
| "compact_rev (c # cs) =
     (if c = CHR ''0'' then compact_rev cs else if c = CHR ''.'' then cs else c # cs)"

definition dstringCompact :: "string \<Rightarrow> string" where
  "dstringCompact str =
     (if str = ''0'' then ''0''
      else if length str = 0 then ''''
      else if \<not> list_ex (\<lambda>c. c = CHR ''.'') str then str
      else rev (compact_rev (rev str)))"

definition doubleToStringX :: "real \<Rightarrow> int \<Rightarrow> string" where
  "doubleToStringX val digits =
     (let rstr = dstringCompact (doubleToString val digits) in if rstr = ''-0'' then ''0'' else rstr)"

definition hex_str :: "int \<Rightarrow> string" where
  "hex_str v = (if v = 10 then ''A'' else if v = 11 then ''B'' else if v = 12 then ''C''
     else if v = 13 then ''D'' else if v = 14 then ''E'' else if v = 15 then ''F'' else intToString v)"

definition doubleToHex :: "real \<Rightarrow> string" where
  "doubleToHex g_val =
     (if g_val < 0 then ''00''
      else if g_val > 1 then ''FF''
      else let range0255 = g_val * 255; left = c_trunc (range0255 / 16); right = c_trunc range0255 smod 16
           in hex_str left @ hex_str right)"

section \<open>Reading\<close>

text \<open>The loop over the characters, with the digits and decimal points counted; it stops at the first bad one.\<close>

fun number_loop :: "string \<Rightarrow> nat \<Rightarrow> nat \<Rightarrow> nat \<times> bool" where
  "number_loop [] digi_cnt deci_cnt = (digi_cnt, True)"
| "number_loop (c # cs) digi_cnt deci_cnt =
     (if 48 \<le> code c \<and> code c \<le> 57 then number_loop cs (digi_cnt + 1) deci_cnt
      else if c = CHR ''.''
      then if deci_cnt + 1 > 1 then (digi_cnt, False) else number_loop cs digi_cnt (deci_cnt + 1)
      else if c = CHR ''-''
      then if digi_cnt > 0 \<or> deci_cnt > 0 then (digi_cnt, False) else number_loop cs digi_cnt deci_cnt
      else (digi_cnt, False))"

definition isNumber :: "string \<Rightarrow> bool \<Rightarrow> bool" where
  "isNumber str blanks_allowed =
     (let newstr = (if blanks_allowed then stripBlankEnds str else str)
      in if length newstr = 0 then False
         else let newstr = (if length newstr > 1 \<and> newstr ! 0 = CHR ''+'' then drop 1 newstr else newstr);
                  (digi_cnt, ok) = number_loop newstr 0 0
              in if digi_cnt = 0 then False else ok)"

fun fields_ok :: "string list \<Rightarrow> bool" where
  "fields_ok [] = True"
| "fields_ok (s # ss) =
     (let part = stripBlankEnds s
      in if \<not> isNumber part True then False
         else let dval = atof s in if dval < 0 \<or> dval > 255 then False else fields_ok ss)"

definition isValidIPAddress :: "string \<Rightarrow> bool" where
  "isValidIPAddress ipstring =
     (if tolower ipstring = ''localhost'' then True
      else let svector = parseString ipstring (CHR ''.'')
           in if length svector \<noteq> 4 then False else fields_ok svector)"

definition setBooleanOnString :: "bool \<Rightarrow> string \<Rightarrow> bool \<Rightarrow> bool \<times> bool" where
  "setBooleanOnString boolval str case_tolow =
     (let str = (if case_tolow then tolower str else str)
      in if str = ''toggle'' then (True, \<not> boolval)
         else if str = ''on'' \<or> str = ''true'' then (True, True)
         else if str = ''off'' \<or> str = ''false'' then (True, False)
         else (False, boolval))"

definition setPosDoubleOnString :: "real \<Rightarrow> string \<Rightarrow> bool \<times> real" where
  "setPosDoubleOnString given_dval str =
     (if \<not> isNumber str True then (False, given_dval)
      else let dval = atof str in if dval \<le> 0 then (False, given_dval) else (True, dval))"

definition setNonNegDoubleOnString :: "real \<Rightarrow> string \<Rightarrow> bool \<times> real" where
  "setNonNegDoubleOnString given_dval str =
     (if \<not> isNumber str True then (False, given_dval)
      else let dval = atof str in if dval < 0 then (False, given_dval) else (True, dval))"

definition setNonWhiteVarOnString :: "string \<Rightarrow> string \<Rightarrow> bool \<times> string" where
  "setNonWhiteVarOnString given_var str =
     (if str = '''' \<or> strContainsWhite str then (False, given_var) else (True, str))"

section \<open>Lists of pairs\<close>

text \<open>The loop over the pairs; a piece that is not a pair ends it.\<close>

fun tok_loop :: "string \<Rightarrow> char \<Rightarrow> string list \<Rightarrow> string option" where
  "tok_loop left lsep [] = None"
| "tok_loop left lsep (s # ss) =
     (let svector2 = parseString s lsep
      in if length svector2 \<noteq> 2 then None
         else if stripBlankEnds (svector2 ! 0) = left then Some (svector2 ! 1)
         else tok_loop left lsep ss)"

definition tokParse :: "string \<Rightarrow> string \<Rightarrow> char \<Rightarrow> char \<Rightarrow> bool \<times> string" where
  "tokParse str left gsep lsep =
     (case tok_loop left lsep (parseStringQ str gsep) of Some r \<Rightarrow> (True, r) | None \<Rightarrow> (False, ''error''))"

definition tokStringParse :: "string \<Rightarrow> string \<Rightarrow> char \<Rightarrow> char \<Rightarrow> string" where
  "tokStringParse str left gsep lsep =
     (case tok_loop left lsep (parseStringQ str gsep) of Some r \<Rightarrow> stripBlankEnds r | None \<Rightarrow> '''')"

definition tokDoubleParse :: "string \<Rightarrow> string \<Rightarrow> char \<Rightarrow> char \<Rightarrow> real" where
  "tokDoubleParse str left gsep lsep =
     (case tok_loop left lsep (parseString str gsep) of Some r \<Rightarrow> atof r | None \<Rightarrow> 0)"

definition tokParse_double :: "string \<Rightarrow> string \<Rightarrow> char \<Rightarrow> char \<Rightarrow> real \<Rightarrow> bool \<times> real" where
  "tokParse_double str left gsep lsep rval =
     (let (res, rstr) = tokParse str left gsep lsep
      in if \<not> res then (False, rval) else if \<not> isNumber rstr True then (False, rval) else (True, atof rstr))"

definition tokParse_bool :: "string \<Rightarrow> string \<Rightarrow> char \<Rightarrow> char \<Rightarrow> bool \<Rightarrow> bool \<times> bool" where
  "tokParse_bool str left gsep lsep bval =
     (let (res, rstr) = tokParse str left gsep lsep
      in if \<not> res then (False, bval) else if \<not> isBoolean rstr then (False, bval)
         else (True, tolower rstr = ''true''))"

section \<open>Values\<close>

definition minElement :: "real list \<Rightarrow> real" where
  "minElement myvector =
     (if length myvector = 0 then 0
      else foldl (\<lambda>min_found i. if myvector ! i < min_found then myvector ! i else min_found)
             (myvector ! 0) [1..<length myvector])"

definition maxElement :: "real list \<Rightarrow> real" where
  "maxElement myvector =
     (if length myvector = 0 then 0
      else foldl (\<lambda>max_found i. if myvector ! i > max_found then myvector ! i else max_found)
             (myvector ! 0) [1..<length myvector])"

definition vclip :: "real \<Rightarrow> real \<Rightarrow> real \<Rightarrow> real" where
  "vclip var low high = (if var < low then low else if var > high then high else var)"

definition vclip_min :: "real \<Rightarrow> real \<Rightarrow> real" where
  "vclip_min var low = (if var < low then low else var)"

definition vclip_max :: "real \<Rightarrow> real \<Rightarrow> real" where
  "vclip_max var high = (if var > high then high else var)"

text \<open>The value \<open>rand()\<close> returns is an argument.\<close>

definition randomDouble :: "nat \<Rightarrow> real \<Rightarrow> real \<Rightarrow> real" where
  "randomDouble rand_val mn mx =
     (if mn > mx then 0 else if mn = mx then mn
      else let rand_int = rand_val mod 10001; pct = real rand_int / 10000 in mn + pct * (mx - mn))"

definition snapToStep :: "real \<Rightarrow> real \<Rightarrow> real" where
  "snapToStep orig_value step =
     (if step \<le> 0 then orig_value
      else let new_val = orig_value / step;
               itemp = (if new_val < 0 then c_trunc (new_val - 1 / 2) else c_trunc (new_val + 1 / 2))
           in of_int itemp * step)"

definition snapDownToStep :: "real \<Rightarrow> real \<Rightarrow> real" where
  "snapDownToStep value step =
     (if step \<le> 0 then value
      else let new_val = value / step; itemp = c_trunc new_val in of_int itemp * step)"

section \<open>Command lines\<close>

text \<open>An argument is a null-terminated string, so it holds no null character.\<close>

definition strncmp_eq :: "string \<Rightarrow> string \<Rightarrow> nat \<Rightarrow> bool" where
  "strncmp_eq a b n \<longleftrightarrow> take n a = take n b"

definition dashed :: "string \<Rightarrow> bool" where
  "dashed a \<longleftrightarrow> char_at a 0 = Some (CHR ''-'')"

definition sub_args :: "string list \<Rightarrow> nat \<Rightarrow> nat" where
  "sub_args argv i = length (takeWhile (\<lambda>a. \<not> dashed a) (drop (i + 1) argv))"

definition matches :: "string option \<Rightarrow> string \<Rightarrow> bool" where
  "matches str a \<longleftrightarrow> (case str of None \<Rightarrow> False
     | Some s \<Rightarrow> strncmp_eq s a (length a) \<and> strncmp_eq s a (length s))"

text \<open>The arguments that the loop comes to are cut at their first blank, for good.\<close>

fun getArg_loop :: "string list \<Rightarrow> int \<Rightarrow> string \<Rightarrow> string option \<Rightarrow> nat list \<Rightarrow> int \<times> string list" where
  "getArg_loop argv pos str1 str2 [] = (0, argv)"
| "getArg_loop argv pos str1 str2 (i # is) =
     (let argv = argv[i := takeWhile (\<lambda>c. c \<noteq> CHR '' '') (argv ! i)]
      in if (matches (Some str1) (argv ! i) \<or> matches str2 (argv ! i)) \<and> pos \<le> int (sub_args argv i)
         then (int i + pos, argv)
         else getArg_loop argv pos str1 str2 is)"

definition getArg :: "string list \<Rightarrow> int \<Rightarrow> string \<Rightarrow> string option \<Rightarrow> int \<times> string list" where
  "getArg argv pos str1 str2 = getArg_loop argv pos str1 str2 [0..<length argv]"

text \<open>The third name is compared up to the length of the second, which must not be null then.\<close>

fun scanArgs :: "string list \<Rightarrow> string \<Rightarrow> string option \<Rightarrow> string option \<Rightarrow> bool option" where
  "scanArgs [] str1 str2 str3 = Some False"
| "scanArgs (a # argv) str1 str2 str3 =
     (if matches (Some str1) a \<or> matches str2 a then Some True
      else case str3 of None \<Rightarrow> scanArgs argv str1 str2 str3
        | Some s3 \<Rightarrow> (case str2 of None \<Rightarrow> None
            | Some s2 \<Rightarrow> if strncmp_eq s3 a (length a) \<and> strncmp_eq s3 a (length s2) then Some True
                         else scanArgs argv str1 str2 str3))"

text \<open>The entries of the specification that name the argument, with the number of subarguments they ask for.\<close>

fun spec_loop :: "string \<Rightarrow> nat \<Rightarrow> string list \<Rightarrow> bool \<times> bool \<Rightarrow> (bool \<times> bool) option" where
  "spec_loop arg subArgNum [] (matched, okCount) = Some (matched, okCount)"
| "spec_loop arg subArgNum (temp # ss) (matched, okCount) =
     (if temp \<noteq> ''''
      then let svector2 = parseString temp (CHR '':'')
           in if svector2 = [] then None
              else if arg = svector2 ! 0
              then if length svector2 < 2 then None
                   else spec_loop arg subArgNum ss (True, okCount \<or> atoi (svector2 ! 1) = int subArgNum)
              else spec_loop arg subArgNum ss (matched, okCount)
      else spec_loop arg subArgNum ss (matched, okCount))"

fun validate_loop :: "string list \<Rightarrow> string list \<Rightarrow> nat list \<Rightarrow> int option" where
  "validate_loop argv svector [] = Some 0"
| "validate_loop argv svector (i # is) =
     (if dashed (argv ! i)
      then spec_loop (argv ! i) (sub_args argv i) svector (False, False) \<bind>
           (\<lambda>(matched, okCount). if \<not> matched \<or> \<not> okCount then Some (int i) else validate_loop argv svector is)
      else validate_loop argv svector is)"

definition validateArgs :: "string list \<Rightarrow> string \<Rightarrow> int option" where
  "validateArgs argv ms = validate_loop argv (parseString ms (CHR '' '')) [0..<length argv]"

section \<open>What is a number\<close>

lemma is_digit_iff: "is_digit c \<longleftrightarrow> 48 \<le> code c \<and> code c \<le> 57"
  by (simp add: is_digit_def)

lemma number_loop_digits: "number_loop cs d p = (n, True) \<Longrightarrow> n = d + length (filter is_digit cs)"
  by (induction cs d p rule: number_loop.induct) (auto simp: is_digit_iff split: if_splits)

text \<open>A numeral: any number of minus signs, digits, and at most one decimal point among the digits.\<close>

definition digits_point :: "string \<Rightarrow> bool" where
  "digits_point t \<longleftrightarrow> (\<exists>ds fs. t = ds @ fs \<and> list_all is_digit ds \<and>
     (fs = '''' \<or> (\<exists>g. fs = CHR ''.'' # g \<and> list_all is_digit g)))"

definition numeral :: "string \<Rightarrow> bool" where
  "numeral t \<longleftrightarrow> (\<exists>k u. t = replicate k (CHR ''-'') @ u \<and> digits_point u \<and> list_ex is_digit u)"

lemma number_loop_after_point: "snd (number_loop cs d 1) \<longleftrightarrow> list_all is_digit cs"
  by (induction cs arbitrary: d) (auto simp: is_digit_iff)

lemma digits_point_Nil [simp]: "digits_point []"
  by (simp add: digits_point_def)

lemma digits_point_Cons:
  "digits_point (c # cs) \<longleftrightarrow> is_digit c \<and> digits_point cs \<or> c = CHR ''.'' \<and> list_all is_digit cs"
proof
  assume "digits_point (c # cs)"
  then obtain ds fs where h: "c # cs = ds @ fs" "list_all is_digit ds"
    "fs = '''' \<or> (\<exists>g. fs = CHR ''.'' # g \<and> list_all is_digit g)" by (auto simp: digits_point_def)
  then show "is_digit c \<and> digits_point cs \<or> c = CHR ''.'' \<and> list_all is_digit cs"
    by (cases ds) (auto simp: digits_point_def)
next
  assume h: "is_digit c \<and> digits_point cs \<or> c = CHR ''.'' \<and> list_all is_digit cs"
  show "digits_point (c # cs)"
  proof (cases "is_digit c \<and> digits_point cs")
    case True
    then obtain ds fs where "cs = ds @ fs" "list_all is_digit ds"
      "fs = '''' \<or> (\<exists>g. fs = CHR ''.'' # g \<and> list_all is_digit g)" by (auto simp: digits_point_def)
    with True show ?thesis unfolding digits_point_def by (intro exI [of _ "c # ds"] exI [of _ fs]) simp
  next
    case False
    with h show ?thesis unfolding digits_point_def by (intro exI [of _ "[]"] exI [of _ "c # cs"]) simp
  qed
qed

lemma not_digits: "\<not> is_digit CHR ''.''" "\<not> is_digit CHR ''-''"
  by (simp_all add: is_digit_def)

lemma number_loop_after_digit: "0 < d \<Longrightarrow> snd (number_loop cs d 0) \<longleftrightarrow> digits_point cs"
proof (induction cs arbitrary: d)
  case (Cons c cs)
  then show ?case using number_loop_after_point [of cs d]
    by (auto simp: digits_point_Cons is_digit_iff not_digits)
qed simp

lemma number_loop_start:
  "snd (number_loop cs 0 0) \<longleftrightarrow> (\<exists>k u. cs = replicate k (CHR ''-'') @ u \<and> digits_point u)"
proof (induction cs)
  case Nil
  then show ?case by (auto intro: exI [of _ 0])
next
  case (Cons c cs)
  show ?case
  proof (cases "c = CHR ''-''")
    case True
    then have "snd (number_loop (c # cs) 0 0) \<longleftrightarrow> snd (number_loop cs 0 0)" by simp
    also have "\<dots> \<longleftrightarrow> (\<exists>k u. cs = replicate k (CHR ''-'') @ u \<and> digits_point u)" by (rule Cons.IH)
    also have "\<dots> \<longleftrightarrow> (\<exists>k u. c # cs = replicate k (CHR ''-'') @ u \<and> digits_point u)"
    proof
      assume "\<exists>k u. cs = replicate k (CHR ''-'') @ u \<and> digits_point u"
      then obtain k u where "cs = replicate k (CHR ''-'') @ u" "digits_point u" by blast
      with True show "\<exists>k u. c # cs = replicate k (CHR ''-'') @ u \<and> digits_point u"
        by (intro exI [of _ "Suc k"] exI [of _ u]) simp
    next
      assume "\<exists>k u. c # cs = replicate k (CHR ''-'') @ u \<and> digits_point u"
      then obtain k u where h: "c # cs = replicate k (CHR ''-'') @ u" "digits_point u" by blast
      have "k \<noteq> 0"
      proof
        assume "k = 0"
        with h True have "digits_point (CHR ''-'' # cs)" by simp
        then show False using not_digits by (simp add: digits_point_Cons)
      qed
      with h show "\<exists>k u. cs = replicate k (CHR ''-'') @ u \<and> digits_point u" by (cases k) auto
    qed
    finally show ?thesis .
  next
    case False
    have "(\<exists>k u. c # cs = replicate k (CHR ''-'') @ u \<and> digits_point u) \<longleftrightarrow> digits_point (c # cs)"
    proof
      assume "\<exists>k u. c # cs = replicate k (CHR ''-'') @ u \<and> digits_point u"
      then obtain k u where h: "c # cs = replicate k (CHR ''-'') @ u" "digits_point u" by blast
      with False show "digits_point (c # cs)" by (cases k) auto
    qed (auto intro: exI [of _ 0])
    also have "\<dots> \<longleftrightarrow> snd (number_loop (c # cs) 0 0)"
      using False number_loop_after_digit [of "Suc 0" cs] number_loop_after_point [of cs 0]
      by (auto simp: digits_point_Cons is_digit_iff not_digits)
    finally show ?thesis by simp
  qed
qed

lemma number_loop_numeral:
  "snd (number_loop t 0 0) \<and> fst (number_loop t 0 0) \<noteq> 0 \<longleftrightarrow> numeral t"
proof (cases "snd (number_loop t 0 0)")
  case True
  then have "fst (number_loop t 0 0) = length (filter is_digit t)"
    using number_loop_digits [of t 0 0 "fst (number_loop t 0 0)"] by (simp add: prod_eq_iff)
  then have "fst (number_loop t 0 0) \<noteq> 0 \<longleftrightarrow> list_ex is_digit t" by (auto simp: filter_empty_conv list_ex_iff)
  moreover have "list_ex is_digit (replicate k (CHR ''-'') @ u) \<longleftrightarrow> list_ex is_digit u" for k u
    using not_digits by (auto simp: list_ex_iff)
  ultimately show ?thesis using True number_loop_start [of t] unfolding numeral_def by metis
next
  case False
  then show ?thesis using number_loop_start [of t] by (auto simp: numeral_def)
qed

text \<open>C40: \<open>isNumber\<close> accepts the strings that are, between blanks and behind at most one plus sign, any number
  of minus signs and a decimal numeral with at least one digit.\<close>

theorem isNumber_numerals:
  "isNumber s True \<longleftrightarrow>
     (let t = stripBlankEnds s in numeral (if t \<noteq> '''' \<and> hd t = CHR ''+'' then tl t else t))"
proof -
  have empty: "\<not> numeral ''''" by (simp add: numeral_def)
  have plus: "\<not> numeral (CHR ''+'' # u)" for u
  proof
    assume "numeral (CHR ''+'' # u)"
    then obtain k v where "CHR ''+'' # u = replicate k (CHR ''-'') @ v" "digits_point v" by (auto simp: numeral_def)
    then show False by (cases k) (auto simp: digits_point_Cons is_digit_def)
  qed
  let ?t = "stripBlankEnds s"
  show ?thesis
  proof (cases ?t)
    case (Cons c cs)
    define u where "u = (if cs \<noteq> '''' \<and> c = CHR ''+'' then cs else c # cs)"
    have u: "(if 1 < length ?t \<and> ?t ! 0 = CHR ''+'' then drop 1 ?t else ?t) = u" using Cons by (auto simp: u_def)
    have "isNumber s True \<longleftrightarrow> numeral u"
      unfolding isNumber_def Let_def if_True u number_loop_numeral [symmetric] by (auto simp: Cons split: prod.splits)
    with Cons empty plus show ?thesis by (auto simp: Let_def u_def)
  qed (simp add: isNumber_def empty)
qed

lemma digits_plain:
  assumes "list_all is_digit ds" "ds \<noteq> []"
  shows "NUL \<notin> set ds" "\<not> front_blank (hd ds)" "\<not> back_blank (last ds)"
proof -
  have "is_digit (hd ds)" "is_digit (last ds)" using assms by (auto simp: list_all_iff)
  then show "\<not> front_blank (hd ds)" "\<not> back_blank (last ds)" by (auto simp: is_digit_def front_blank_def back_blank_def)
  show "NUL \<notin> set ds" using assms(1) by (auto simp: list_all_iff is_digit_def)
qed

text \<open>With two minus signs \<open>isNumber\<close> still says yes and \<open>atof\<close> reads 0: such a string is taken for a
  value that is not negative, and for a field of an IP address.\<close>

theorem two_signs_are_zero:
  assumes "list_all is_digit ds" "ds \<noteq> ''''"
  shows "isNumber (''--'' @ ds) True \<and> setNonNegDoubleOnString v (''--'' @ ds) = (True, 0) \<and>
    isValidIPAddress (''--'' @ ds @ ''.0.0.1'')"
proof -
  note p = digits_plain [OF assms]
  have plain: "NUL \<notin> set (''--'' @ ds)" using p(1) by simp
  have strip: "stripBlankEnds (''--'' @ ds) = ''--'' @ ds"
    unfolding stripBlankEnds_trimmed c_str_plain [OF plain]
    by (rule trimmed_id) (use p(3) assms(2) in \<open>simp add: front_blank_def\<close>)
  have num: "numeral (''--'' @ ds)"
    unfolding numeral_def digits_point_def
    by (intro exI [of _ 2] exI [of _ ds] conjI exI [of _ "[]"])
      (use assms in \<open>auto simp: numeral_2_eq_2 list_all_iff list_ex_iff neq_Nil_conv\<close>)
  have n: "isNumber (''--'' @ ds) True" using num by (simp add: isNumber_numerals strip [simplified])
  have z: "atof (''--'' @ ds) = 0"
    using plain by (simp add: atof_def is_space_def split_sign_def Let_def minus_not)
  have dot: "CHR ''.'' \<notin> set (''--'' @ ds)" using assms(1) not_digits by (auto simp: list_all_iff)
  have ps: "parseString (''--'' @ ds @ ''.0.0.1'') (CHR ''.'') = [''--'' @ ds, ''0'', ''0'', ''1'']"
    using join_parse_roundtrip [of "[''--'' @ ds, ''0'', ''0'', ''1'']" "CHR ''.''"] dot p(1)
    by (simp add: svectorToString_joined)
  have d: "isNumber [digit_char k] True" "atof [digit_char k] = real k" "stripBlankEnds [digit_char k] = [digit_char k]"
    if "k < 10" for k
  proof -
    have k: "is_digit (digit_char k)" using that by (simp add: is_digit_def code_digit_char)
    have pl: "NUL \<notin> set [digit_char k]" using digits_plain [of "[digit_char k]"] k by simp
    show st: "stripBlankEnds [digit_char k] = [digit_char k]"
      unfolding stripBlankEnds_trimmed c_str_plain [OF pl] by (rule trimmed_id) (use digits_plain [of "[digit_char k]"] k in simp)
    have nk: "numeral [digit_char k]" unfolding numeral_def digits_point_def
      by (intro exI [of _ 0] exI [of _ "[digit_char k]"] conjI exI [of _ "[]"]) (simp_all add: k)
    have "digit_char k \<noteq> CHR ''+''" using k by (auto simp: is_digit_def)
    with nk st show "isNumber [digit_char k] True" by (simp add: isNumber_numerals)
    have "nat_str k = [digit_char k]" using that by (subst nat_str.simps) simp
    then have "int_str (int k) = [digit_char k]" by (simp add: int_str_def)
    with atof_int_str [of "int k"] show "atof [digit_char k] = real k" by simp
  qed
  have c: "''0'' = [digit_char 0]" "''1'' = [digit_char 1]" by code_simp+
  have "fields_ok [''--'' @ ds, ''0'', ''0'', ''1'']"
    using n z strip d [of 0] d [of 1] unfolding c by (simp add: Let_def)
  moreover have "tolower (''--'' @ ds @ ''.0.0.1'') \<noteq> ''localhost''" by (simp add: tolower_def c_tolower_def)
  ultimately have "isValidIPAddress (''--'' @ ds @ ''.0.0.1'')"
    unfolding isValidIPAddress_def ps by simp
  with n z show ?thesis by (simp add: setNonNegDoubleOnString_def)
qed

theorem two_signs_are_zero_witness:
  "isNumber (''--'' @ ''5'') True \<and> setNonNegDoubleOnString 7 (''--'' @ ''5'') = (True, 0) \<and>
    isValidIPAddress (''--'' @ ''5'' @ ''.0.0.1'')"
  by (rule two_signs_are_zero) (simp_all add: is_digit_def)

section \<open>Printing and reading back\<close>

lemma round_even_close: "\<bar>of_int (round_even x) - x\<bar> \<le> 1 / 2"
proof -
  have "of_int \<lfloor>x\<rfloor> \<le> x" "x < of_int \<lfloor>x\<rfloor> + 1" by linarith+
  then show ?thesis by (auto simp: round_even_def Let_def)
qed

lemma round_even_nonneg: "0 \<le> x \<Longrightarrow> 0 \<le> round_even x"
  by (auto simp: round_even_def Let_def)

lemma length_nat_str: "0 < d \<Longrightarrow> n < 10 ^ d \<Longrightarrow> length (nat_str n) \<le> d"
proof (induction n arbitrary: d rule: nat_str.induct)
  case (1 n)
  show ?case
  proof (cases "n < 10")
    case True
    then show ?thesis using "1.prems" by (subst nat_str.simps) simp
  next
    case False
    obtain e where d: "d = Suc e" using "1.prems"(1) by (cases d) auto
    have "0 < e" using False "1.prems"(2) d by (cases e) auto
    moreover have "n div 10 < 10 ^ e" using "1.prems"(2) d by (simp add: div_less_iff_less_mult mult.commute)
    ultimately have "length (nat_str (n div 10)) \<le> e" using "1.IH" False by blast
    then show ?thesis using False d by (subst nat_str.simps) simp
  qed
qed

lemma digits_val_zeros: "digits_val (replicate k (CHR ''0'') @ s) = digits_val s"
  by (induction k) (simp_all add: digits_val_def)

lemma zero_pad_facts:
  assumes "0 < d" "n < 10 ^ d"
  shows "length (zero_pad d (nat_str n)) = d" "digits_val (zero_pad d (nat_str n)) = n"
    "list_all is_digit (zero_pad d (nat_str n))"
proof -
  show "length (zero_pad d (nat_str n)) = d" using length_nat_str [OF assms] by (simp add: zero_pad_def)
  show "digits_val (zero_pad d (nat_str n)) = n" by (simp add: zero_pad_def digits_val_zeros digits_val_nat_str)
  show "list_all is_digit (zero_pad d (nat_str n))"
    using nat_str_digits(1) [of n] by (auto simp: zero_pad_def list_all_iff is_digit_def)
qed

text \<open>A signed decimal as \<open>atof\<close> reads it.\<close>

lemma atof_decimal:
  assumes "list_all is_digit ds" "ds \<noteq> []" "list_all is_digit fs"
  shows "atof ((if neg then ''-'' else '''') @ ds @ ''.'' @ fs) =
      (if neg then - 1 else 1) * (real (digits_val ds) + real (digits_val fs) / 10 ^ length fs)"
    "atof ((if neg then ''-'' else '''') @ ds) = (if neg then - 1 else 1) * real (digits_val ds)"
proof -
  obtain c cs where c: "ds = c # cs" "is_digit c" using assms(1,2) by (cases ds) auto
  note dc = digit_not [OF c(2)]
  have tk: "takeWhile is_digit (ds @ CHR ''.'' # fs) = ds" "dropWhile is_digit (ds @ CHR ''.'' # fs) = CHR ''.'' # fs"
    using assms(1) not_digits by (auto simp: list_all_iff takeWhile_append dropWhile_append)
  have tk2: "takeWhile is_digit ds = ds" "dropWhile is_digit ds = []" "takeWhile is_digit fs = fs" "dropWhile is_digit fs = []"
    using assms by (auto simp: list_all_iff takeWhile_eq_all_conv dropWhile_eq_Nil_conv)
  have sg: "split_sign (dropWhile is_space ((if neg then ''-'' else '''') @ ds @ u)) = (neg, ds @ u)" for u
    using dc c(1) by (simp add: split_sign_def minus_not)
  have no: "list_all is_digit g \<Longrightarrow> NUL \<notin> set g" for g by (auto simp: list_all_iff is_digit_def)
  have plain: "NUL \<notin> set ((if neg then ''-'' else '''') @ ds @ u)" if "list_all is_digit u \<or> (\<exists>g. u = CHR ''.'' # g \<and> list_all is_digit g)" for u
    using no [OF assms(1)] no that by auto
  have p1: "c_str ((if neg then ''-'' else '''') @ ds @ ''.'' @ fs) = (if neg then ''-'' else '''') @ ds @ ''.'' @ fs"
    by (rule c_str_plain, rule plain) (use assms(3) in simp)
  have p2: "c_str ((if neg then ''-'' else '''') @ ds @ []) = (if neg then ''-'' else '''') @ ds @ []"
    by (rule c_str_plain, rule plain) simp
  show "atof ((if neg then ''-'' else '''') @ ds @ ''.'' @ fs) =
      (if neg then - 1 else 1) * (real (digits_val ds) + real (digits_val fs) / 10 ^ length fs)"
    unfolding atof_def p1 sg by (simp add: tk [simplified] tk2 assms(2) Let_def exponent_def not_digits)
  show "atof ((if neg then ''-'' else '''') @ ds) = (if neg then - 1 else 1) * real (digits_val ds)"
    using p2 sg [of "[]"] unfolding atof_def by (simp add: Let_def exponent_def tk2 assms(2))
qed

lemma nat_str_all_digits: "list_all is_digit (nat_str n)"
  using nat_str_digits(1) [of n] by (auto simp: list_all_iff)

definition printed :: "nat \<Rightarrow> real \<Rightarrow> nat" where
  "printed d x = nat (round_even (\<bar>x\<bar> * 10 ^ d))"

lemma atof_printf_f: "atof (printf_f d x) = (if x < 0 then - 1 else 1) * (real (printed d x) / 10 ^ d)"
proof (cases "d = 0")
  case True
  then show ?thesis
    using atof_decimal(2) [where fs = "[]" and neg = "x < 0", OF nat_str_all_digits nat_str_digits(2), of "printed d x"]
    by (simp add: printf_f_def Let_def printed_def digits_val_nat_str)
next
  case False
  then have d: "0 < d" by simp
  let ?n = "printed d x"
  have m: "?n mod 10 ^ d < 10 ^ d" by simp
  note z = zero_pad_facts [OF d m]
  have "atof (printf_f d x) = (if x < 0 then - 1 else 1) * (real (?n div 10 ^ d) + real (?n mod 10 ^ d) / 10 ^ d)"
    using atof_decimal(1) [where neg = "x < 0", OF nat_str_all_digits nat_str_digits(2) z(3), of "?n div 10 ^ d"] d z(1,2)
    by (simp add: printf_f_def Let_def printed_def digits_val_nat_str)
  moreover have "real (?n div 10 ^ d) + real (?n mod 10 ^ d) / 10 ^ d = real ?n / 10 ^ d"
  proof -
    have "real ?n = real (?n div 10 ^ d * 10 ^ d + ?n mod 10 ^ d)" by (simp only: div_mult_mod_eq)
    also have "\<dots> = real (?n div 10 ^ d) * 10 ^ d + real (?n mod 10 ^ d)" by simp
    finally have "real ?n / 10 ^ d = (real (?n div 10 ^ d) * 10 ^ d + real (?n mod 10 ^ d)) / 10 ^ d" by simp
    then show ?thesis by (simp add: add_divide_distrib)
  qed
  ultimately show ?thesis by simp
qed

lemma printed_close: "\<bar>(if x < 0 then - 1 else 1) * (real (printed d x) / 10 ^ d) - x\<bar> \<le> 1 / (2 * 10 ^ d)"
proof -
  have "real (printed d x) = of_int (round_even (\<bar>x\<bar> * 10 ^ d))"
    using round_even_nonneg [of "\<bar>x\<bar> * 10 ^ d"] by (simp add: printed_def)
  then have "\<bar>real (printed d x) - \<bar>x\<bar> * 10 ^ d\<bar> \<le> 1 / 2" using round_even_close [of "\<bar>x\<bar> * 10 ^ d"] by simp
  then have "\<bar>real (printed d x) - \<bar>x\<bar> * 10 ^ d\<bar> / 10 ^ d \<le> 1 / 2 / 10 ^ d" by (rule divide_right_mono) simp
  moreover have "real (printed d x) / 10 ^ d - \<bar>x\<bar> = (real (printed d x) - \<bar>x\<bar> * 10 ^ d) / 10 ^ d"
    by (simp add: field_simps)
  then have "\<bar>real (printed d x) - \<bar>x\<bar> * 10 ^ d\<bar> / 10 ^ d = \<bar>real (printed d x) / 10 ^ d - \<bar>x\<bar>\<bar>"
    by (simp add: abs_divide)
  ultimately have "\<bar>real (printed d x) / 10 ^ d - \<bar>x\<bar>\<bar> \<le> 1 / (2 * 10 ^ d)" by (simp add: mult.commute)
  then show ?thesis by (auto split: if_splits)
qed

text \<open>Cutting zeros off the end of a decimal keeps its value.\<close>

lemma compact_rev_split:
  "\<exists>k r. s = replicate k (CHR ''0'') @ r \<and> (r = [] \<or> hd r \<noteq> CHR ''0'') \<and>
     compact_rev s = (if r \<noteq> [] \<and> hd r = CHR ''.'' then tl r else r)"
proof (induction s rule: compact_rev.induct)
  case 1
  show ?case by (intro exI [of _ 0] exI [of _ "[]"]) simp
next
  case (2 c cs)
  show ?case
  proof (cases "c = CHR ''0''")
    case True
    with 2 obtain k r where "cs = replicate k (CHR ''0'') @ r" "r = [] \<or> hd r \<noteq> CHR ''0''"
      "compact_rev cs = (if r \<noteq> [] \<and> hd r = CHR ''.'' then tl r else r)" by auto
    with True show ?thesis by (intro exI [of _ "Suc k"] exI [of _ r]) simp
  next
    case False
    then show ?thesis by (intro exI [of _ 0] exI [of _ "c # cs"]) simp
  qed
qed

lemma digits_val_trailing: "digits_val (g @ replicate k (CHR ''0'')) = digits_val g * 10 ^ k"
  by (induction k) (simp_all add: digits_val_snoc flip: replicate_append_same append_assoc)

lemma compact_rev_zeros: "compact_rev (replicate k (CHR ''0'') @ r) = compact_rev r"
  by (induction k) auto

lemma split_zeros: "\<exists>g k. fs = g @ replicate k (CHR ''0'') \<and> (g = [] \<or> last g \<noteq> CHR ''0'')"
proof (induction fs rule: rev_induct)
  case (snoc c fs)
  then obtain g k where h: "fs = g @ replicate k (CHR ''0'')" "g = [] \<or> last g \<noteq> CHR ''0''" by blast
  show ?case
  proof (cases "c = CHR ''0''")
    case True
    with h show ?thesis by (intro exI [of _ g] exI [of _ "Suc k"]) (simp add: replicate_append_same)
  next
    case False
    then show ?thesis by (intro exI [of _ "fs @ [c]"] exI [of _ 0]) simp
  qed
qed simp

lemma dstringCompact_shape:
  assumes "list_all is_digit ds" "ds \<noteq> []" "list_all is_digit fs"
  obtains g where "list_all is_digit g" "real (digits_val fs) / 10 ^ length fs = real (digits_val g) / 10 ^ length g"
    "dstringCompact ((if neg then ''-'' else '''') @ ds @ ''.'' @ fs) =
      (if g = [] then (if neg then ''-'' else '''') @ ds else (if neg then ''-'' else '''') @ ds @ ''.'' @ g)"
proof -
  let ?p = "(if neg then ''-'' else '''') @ ds"
  obtain g k where g: "fs = g @ replicate k (CHR ''0'')" "g = [] \<or> last g \<noteq> CHR ''0''" using split_zeros by blast
  have gd: "list_all is_digit g" using assms(3) g(1) by simp
  have "dstringCompact (?p @ ''.'' @ fs) = rev (compact_rev (rev (?p @ ''.'' @ fs)))"
  proof -
    have i: "CHR ''.'' \<in> set (?p @ ''.'' @ fs)" by simp
    have "?p @ ''.'' @ fs \<noteq> ''0''"
    proof
      assume "?p @ ''.'' @ fs = ''0''"
      with i have "CHR ''.'' \<in> set ''0''" by (simp only:)
      then show False by simp
    qed
    moreover have "list_ex (\<lambda>c. c = CHR ''.'') (?p @ ''.'' @ fs)" by simp
    ultimately show ?thesis using assms(2) by (simp add: dstringCompact_def)
  qed
  also have "rev (?p @ ''.'' @ fs) = replicate k (CHR ''0'') @ rev g @ CHR ''.'' # rev ?p" by (simp add: g(1))
  also have "compact_rev \<dots> = (if g = [] then rev ?p else rev g @ CHR ''.'' # rev ?p)"
  proof (cases g rule: rev_cases)
    case (snoc g' c)
    then have "c \<noteq> CHR ''0''" "c \<noteq> CHR ''.''" using g(2) gd not_digits by auto
    with snoc show ?thesis by (simp add: compact_rev_zeros)
  qed (simp add: compact_rev_zeros)
  finally have e: "dstringCompact (?p @ ''.'' @ fs) = (if g = [] then ?p else ?p @ ''.'' @ g)" by simp
  have v: "real (digits_val fs) / 10 ^ length fs = real (digits_val g) / 10 ^ length g"
    by (simp add: g(1) digits_val_trailing power_add)
  from gd v e show ?thesis by (intro that [of g]) simp_all
qed

lemma dstringCompact_value:
  assumes "list_all is_digit ds" "ds \<noteq> []" "list_all is_digit fs"
  shows "atof (dstringCompact ((if neg then ''-'' else '''') @ ds @ ''.'' @ fs)) =
    atof ((if neg then ''-'' else '''') @ ds @ ''.'' @ fs)"
proof -
  obtain g where g: "list_all is_digit g" "real (digits_val fs) / 10 ^ length fs = real (digits_val g) / 10 ^ length g"
    "dstringCompact ((if neg then ''-'' else '''') @ ds @ ''.'' @ fs) =
      (if g = [] then (if neg then ''-'' else '''') @ ds else (if neg then ''-'' else '''') @ ds @ ''.'' @ g)"
    using dstringCompact_shape [OF assms] by blast
  note a = atof_decimal [where neg = neg, OF assms(1,2)]
  show ?thesis unfolding g(3) using a(1) [OF assms(3)] a(1) [OF g(1)] a(2) [OF assms(3)] g(2) by (cases "g = []") simp_all
qed

lemma dstringCompact_printf_f: "atof (dstringCompact (printf_f d x)) = atof (printf_f d x)"
proof (cases "d = 0")
  case True
  have "CHR ''.'' \<notin> set (nat_str n)" for n using nat_str_all_digits [of n] not_digits by (auto simp: list_all_iff)
  then have "\<not> list_ex (\<lambda>c. c = CHR ''.'') (printf_f d x)" using True by (auto simp: printf_f_def Let_def list_ex_iff)
  then show ?thesis by (auto simp: dstringCompact_def)
next
  case False
  then have "printed d x mod 10 ^ d < 10 ^ d" "0 < d" by simp_all
  from dstringCompact_value [where neg = "x < 0", OF nat_str_all_digits nat_str_digits(2) zero_pad_facts(3) [OF this(2,1)]]
  show ?thesis using False by (simp add: printf_f_def Let_def printed_def)
qed

lemma doubleToStringX_compact: "atof (doubleToStringX v digits) = atof (dstringCompact (doubleToString v digits))"
proof -
  have "atof ''-0'' = 0" "atof ''0'' = 0" by code_simp+
  then show ?thesis by (simp add: doubleToStringX_def Let_def)
qed



text \<open>What the compaction does to the exponent format, and the comma to the sign: the last zero of an
  exponent is cut off as if it were a decimal, and \<open>-123\<close> becomes \<open>-,123\<close>. Otherwise the commas
  are all that \<open>intToCommaString\<close> adds.\<close>

lemma comma_loop_filter:
  assumes "CHR '','' \<notin> set str"
  shows "filter (\<lambda>c. c \<noteq> CHR '','') (comma_loop str) = str"
proof -
  have "filter (\<lambda>c. c \<noteq> CHR '','') (foldl (\<lambda>new_str i. let new_str = new_str @ [str ! i]
      in if (length str - (i + 1)) mod 3 = 0 \<and> i \<noteq> length str - 1 then new_str @ '','' else new_str) '''' [0..<n]) = take n str"
    if "n \<le> length str" for n
    using that
  proof (induction n)
    case (Suc n)
    then have "str ! n \<noteq> CHR '',''" using assms by (auto simp: in_set_conv_nth)
    with Suc show ?case by (simp add: Let_def take_Suc_conv_app_nth)
  qed simp
  from this [of "length str"] show ?thesis by (simp add: comma_loop_def Let_def)
qed

theorem commas_and_exponents:
  "filter (\<lambda>c. c \<noteq> CHR '','') (intToCommaString i) = intToString i \<and>
   filter (\<lambda>c. c \<noteq> CHR '','') (uintToCommaString n) = uintToString n \<and>
   intToCommaString (- 123) = ''-,123'' \<and> dstringCompact ''1.00000e+40'' = ''1.00000e+4''"
proof (intro conjI)
  have n: "CHR '','' \<notin> set (nat_str n)" for n
    using nat_str_all_digits [of n] by (auto simp: list_all_iff is_digit_def)
  then show "filter (\<lambda>c. c \<noteq> CHR '','') (intToCommaString i) = intToString i"
    unfolding intToCommaString_def by (intro comma_loop_filter) (simp add: intToString_def int_str_def)
  from n show "filter (\<lambda>c. c \<noteq> CHR '','') (uintToCommaString n) = uintToString n"
    unfolding uintToCommaString_def by (intro comma_loop_filter) (simp add: uintToString_def)
  show "intToCommaString (- 123) = ''-,123''" by code_simp
  show "dstringCompact ''1.00000e+40'' = ''1.00000e+4''" by code_simp
qed

section \<open>Snapping\<close>

lemma nearest: "\<bar>of_int (if q < 0 then c_trunc (q - 1 / 2) else c_trunc (q + 1 / 2)) - q\<bar> \<le> 1 / 2" for q :: real
proof (cases "q < 0")
  case True
  then have "c_trunc (q - 1 / 2) = \<lceil>q - 1 / 2\<rceil>" by (simp add: c_trunc_def)
  moreover have "of_int \<lceil>q - 1 / 2\<rceil> - 1 < q - 1 / 2" "q - 1 / 2 \<le> of_int \<lceil>q - 1 / 2\<rceil>" by linarith+
  ultimately show ?thesis using True by (simp only: if_True abs_le_iff) linarith
next
  case False
  then have "c_trunc (q + 1 / 2) = \<lfloor>q + 1 / 2\<rfloor>" by (simp add: c_trunc_def)
  moreover have "of_int \<lfloor>q + 1 / 2\<rfloor> \<le> q + 1 / 2" "q + 1 / 2 < of_int \<lfloor>q + 1 / 2\<rfloor> + 1" by linarith+
  ultimately show ?thesis using False by (simp only: if_False abs_le_iff) linarith
qed

lemma toward_zero: "if q < 0 then q \<le> of_int (c_trunc q) \<and> of_int (c_trunc q) < q + 1
    else of_int (c_trunc q) \<le> q \<and> q < of_int (c_trunc q) + 1" for q :: real
proof (cases "q < 0")
  case True
  then have "c_trunc q = \<lceil>q\<rceil>" by (simp add: c_trunc_def)
  with True show ?thesis by simp linarith
qed (simp add: c_trunc_def)

text \<open>\<open>snapToStep\<close> gives a multiple of the step at most half a step away, with halves away from zero;
  \<open>snapDownToStep\<close> gives the next multiple towards zero, which for a negative value is above it.\<close>

theorem snapping:
  assumes "0 < step"
  shows "(\<exists>k::int. snapToStep v step = of_int k * step) \<and> \<bar>snapToStep v step - v\<bar> \<le> step / 2 \<and>
    (\<exists>k::int. snapDownToStep v step = of_int k * step) \<and>
    (if 0 \<le> v then snapDownToStep v step \<le> v \<and> v < snapDownToStep v step + step
     else v \<le> snapDownToStep v step \<and> snapDownToStep v step < v + step)"
proof -
  let ?q = "v / step"
  have v: "v = ?q * step" using assms by simp
  have n: "?q < 0 \<longleftrightarrow> v < 0" using assms by (simp add: divide_less_0_iff)
  let ?i = "if ?q < 0 then c_trunc (?q - 1 / 2) else c_trunc (?q + 1 / 2)"
  have "\<bar>of_int ?i - ?q\<bar> \<le> 1 / 2" by (rule nearest)
  then have "\<bar>(of_int ?i - ?q) * step\<bar> \<le> 1 / 2 * step" using assms by (simp only: abs_mult abs_of_pos mult_right_mono)
  then have s: "\<bar>of_int ?i * step - v\<bar> \<le> step / 2" using v by (simp add: left_diff_distrib)
  have snap: "snapToStep v step = of_int ?i * step" using assms by (simp add: snapToStep_def Let_def)
  let ?t = "c_trunc ?q"
  have down: "snapDownToStep v step = of_int ?t * step" using assms by (simp add: snapDownToStep_def)
  have "if 0 \<le> v then of_int ?t \<le> ?q \<and> ?q < of_int ?t + 1 else ?q \<le> of_int ?t \<and> of_int ?t < ?q + 1"
    using toward_zero [of ?q] n by auto
  moreover have "of_int ?t \<le> ?q \<longleftrightarrow> of_int ?t * step \<le> v" "?q \<le> of_int ?t \<longleftrightarrow> v \<le> of_int ?t * step"
    "?q < of_int ?t + 1 \<longleftrightarrow> v < of_int ?t * step + step" "of_int ?t < ?q + 1 \<longleftrightarrow> of_int ?t * step < v + step"
    using assms pos_divide_less_eq [of step v "of_int ?t + 1"] pos_less_divide_eq [of step "of_int ?t - 1" v]
    by (auto simp: pos_le_divide_eq pos_divide_le_eq distrib_right left_diff_distrib)
  ultimately have "if 0 \<le> v then of_int ?t * step \<le> v \<and> v < of_int ?t * step + step
    else v \<le> of_int ?t * step \<and> of_int ?t * step < v + step" by (simp only: split: if_split)
  with s show ?thesis unfolding snap down by blast
qed

theorem snapping_witness:
  "\<bar>snapToStep 6.18 0.5 - 6.18\<bar> \<le> 0.5 / 2 \<and> - 6.18 \<le> snapDownToStep (- 6.18) 0.5"
  using snapping [of "0.5" "6.18"] snapping [of "0.5" "- 6.18"] by simp

end
