(* ===== verification/Logic_Utils.thy ===== *)
theory Logic_Utils
  imports MB_Values
begin

text \<open>
  \<open>src/ivp/src/lib_logic/LogicUtils.cpp\<close>: the scanner of logic conditions. \<open>parseRelation\<close> splits a
  condition at its top-level relation; the parentheses routines decide what is top-level, and the
  \<open>isValid\<close> routines what may stand on either side of a comparison. Also \<open>strFieldMatch\<close>, the
  comparison behind \<open>==\<close>. A read before the start of a string is \<open>None\<close>.
\<close>

section \<open>Parentheses\<close>

text \<open>The loop returns at the first closing parenthesis that is one too many.\<close>

fun depth_loop :: "string \<Rightarrow> int \<Rightarrow> bool" where
  "depth_loop [] depth \<longleftrightarrow> depth = 0"
| "depth_loop (c # cs) depth \<longleftrightarrow>
     (let depth = (if c = CHR ''('' then depth + 1 else depth);
          depth = (if c = CHR '')'' then depth - 1 else depth)
      in if depth < 0 then False else depth_loop cs depth)"

definition legalParens :: "string \<Rightarrow> bool" where
  "legalParens gstr = depth_loop gstr 0"

definition globalParens :: "string \<Rightarrow> bool" where
  "globalParens str =
     (let str = stripBlankEnds str in
      if \<not> legalParens str then False
      else let len = length str in
        if len < 2 then False
        else if str ! 0 \<noteq> CHR ''('' \<or> str ! (len - 1) \<noteq> CHR '')'' then False
        else legalParens (drop 1 (take (len - 1) str)))"

definition globalNotParens :: "string \<Rightarrow> bool" where
  "globalNotParens str =
     (let str = stripBlankEnds str in
      if length str < 3 then False
      else if str ! 0 = CHR ''!'' then if globalParens (c_str (drop 1 str)) then True else False
      else False)"

text \<open>
  The loop asks \<open>globalParens\<close>, which looks at the string without its blank ends, and then takes one
  character off each end of the string itself.
\<close>

function prune_loop :: "string \<Rightarrow> string" where
  "prune_loop gstr =
     (if globalParens gstr then prune_loop (drop 1 (take (length gstr - 1) gstr)) else gstr)"
  by pat_completeness auto

lemma stripBlankEnds_Nil [simp]: "stripBlankEnds [] = []"
  by (simp add: stripBlankEnds_def)

lemma globalParens_Nil: "\<not> globalParens []"
  by (simp add: globalParens_def)

termination prune_loop
proof (relation "measure length")
  fix gstr assume "globalParens gstr"
  then have "gstr \<noteq> []" using globalParens_Nil by auto
  then show "(drop 1 (take (length gstr - 1) gstr), gstr) \<in> measure length" by (cases gstr) auto
qed simp

declare prune_loop.simps [simp del]

definition pruneParens :: "string \<Rightarrow> string" where
  "pruneParens gstr = prune_loop (stripBlankEnds gstr)"

section \<open>Relations\<close>

text \<open>\<open>strncasecmp\<close> and \<open>strncmp\<close> of null-terminated strings are 0.\<close>

definition same_nocase :: "string \<Rightarrow> string \<Rightarrow> nat \<Rightarrow> bool" where
  "same_nocase a b n \<longleftrightarrow> map c_tolower (take n a) = map c_tolower (take n b)"

text \<open>The comparisons in the order in which they are tried.\<close>

definition comparisons :: "string list" where
  "comparisons = [''=='', ''='', ''!='', ''>='', ''<='', ''>'', ''<'']"

text \<open>The relation that starts at index \<open>i\<close>, and how many characters from there belong to it.\<close>

definition relation_at :: "string \<Rightarrow> nat \<Rightarrow> (string \<times> nat) option" where
  "relation_at str i =
     (let len = length str; here = drop i str in
      if len - i \<ge> 3 \<and> i \<noteq> 0 \<and> same_nocase '' OR '' (drop (i - 1) str) 4 then Some (''or'', 2)
      else if len - i \<ge> 4 \<and> i \<noteq> 0 \<and> same_nocase '' AND '' (drop (i - 1) str) 4
           then Some (''and'', 3)
      else case find (\<lambda>op. len - i \<ge> length op \<and> strncmp_eq op here (length op)) comparisons of
             Some op \<Rightarrow> Some (op, length op) | None \<Rightarrow> None)"

text \<open>The first relation outside all parentheses: its index, name and width.\<close>

fun relation_loop :: "string \<Rightarrow> nat list \<Rightarrow> int \<Rightarrow> (nat \<times> string \<times> nat) option" where
  "relation_loop str [] depth = None"
| "relation_loop str (i # is) depth =
     (let depth = (if str ! i = CHR ''('' then depth + 1 else depth);
          depth = (if str ! i = CHR '')'' then depth - 1 else depth)
      in case (if depth = 0 then relation_at str i else None) of
           Some (rel, width) \<Rightarrow> Some (i, rel, width)
         | None \<Rightarrow> relation_loop str is depth)"

text \<open>Blanks are put around all parentheses first; the strings looked for are not empty.\<close>

definition spaced :: "string \<Rightarrow> string" where
  "spaced gstr =
     (let gstr = findReplace_chr gstr TAB (CHR '' '');
          gstr = the (findReplace gstr '')'' '') '');
          gstr = the (findReplace gstr ''('' '' ('');
          gstr = the (findReplace gstr ''$ ('' ''$('')
      in stripBlankEnds gstr)"

definition parseRelation :: "string \<Rightarrow> string list" where
  "parseRelation gstr =
     (let gstr = spaced gstr in
      if \<not> legalParens gstr then []
      else let gstr = pruneParens gstr in
        if char_at gstr 0 = Some (CHR ''!'') \<and> globalParens (drop 1 gstr) then [''not'', drop 1 gstr]
        else case relation_loop gstr [0..<length gstr] 0 of
          Some (i, rel, width) \<Rightarrow> [rel, stripBlankEnds (take i gstr), stripBlankEnds (drop (i + width) gstr)]
        | None \<Rightarrow> [])"

section \<open>Variables and literals\<close>

definition logic_char :: "char \<Rightarrow> bool" where
  "logic_char c \<longleftrightarrow> c = QUOTE \<or> c = CHR ''>'' \<or> c = CHR ''<'' \<or> c = CHR ''='' \<or> c = CHR ''!'' \<or>
     c = CHR '')'' \<or> c = CHR ''(''"

definition strcasecmp_eq :: "string \<Rightarrow> string \<Rightarrow> bool" where
  "strcasecmp_eq a b \<longleftrightarrow> map c_tolower a = map c_tolower b"

definition isValidVariable :: "string \<Rightarrow> bool" where
  "isValidVariable str =
     (let str = stripBlankEnds str in
      if length str = 0 then False
      else if list_ex logic_char str then False
      else if strcasecmp_eq ''OR'' str then False
      else if strcasecmp_eq ''AND'' str then False
      else True)"

definition isValidLiteral :: "string \<Rightarrow> bool" where
  "isValidLiteral str =
     (let str = stripBlankEnds str; len = length str in
      if len = 0 then False
      else if len = 1 then \<not> logic_char (str ! 0)
      else if strcasecmp_eq ''OR'' str then False
      else if strcasecmp_eq ''AND'' str then False
      else let str = (if str ! 0 = QUOTE \<and> str ! (len - 1) = QUOTE then drop 1 (take (len - 1) str) else str)
           in \<not> list_ex logic_char str)"

definition isValidRightVariable :: "string \<Rightarrow> bool" where
  "isValidRightVariable str =
     (let str = stripBlankEnds str; len = length str in
      if len < 3 then False
      else if str ! 0 \<noteq> CHR ''$'' then False
      else if \<not> globalParens (drop 1 str) then False
      else isValidVariable (drop 2 (take (len - 1) str)))"

text \<open>The last opening bracket is looked for; the last character of an empty string is out of range.\<close>

definition last_bracket :: "string \<Rightarrow> nat option" where
  "last_bracket str = find (\<lambda>i. str ! i = CHR ''['') (rev [0..<length str])"

definition isConditionalParamString :: "string \<Rightarrow> string \<Rightarrow> bool option" where
  "isConditionalParamString giv_str com_str =
     (let str = stripBlankEnds (if com_str = '''' then giv_str else stripComment giv_str com_str);
          len = length str
      in if len = 0 then None
         else if str ! (len - 1) \<noteq> CHR '']'' then Some False
         else if last_bracket str = None then Some False
         else Some True)"

section \<open>Matching fields\<close>

text \<open>The inner loop moves the index of the long vector by 1, then 2, then 3 and so on.\<close>

definition field_step :: "string list \<Rightarrow> string list \<Rightarrow> nat \<times> bool \<Rightarrow> nat \<Rightarrow> nat \<times> bool" where
  "field_step short long s i =
     (case s of (j, possible_match) \<Rightarrow>
        let j = j + i in (j, if j \<ge> length long \<or> short ! i \<noteq> long ! j then False else possible_match))"

lemma field_step_grows: "j \<le> fst (foldl (field_step short long) (j, b) is)"
  by (induction "is" arbitrary: j b) (auto simp: field_step_def Let_def intro: le_trans [OF le_add1])

lemma field_step_le: "(j', b') = foldl (field_step short long) (j, b) is \<Longrightarrow> j \<le> j'"
  using field_step_grows by (metis fst_conv)

function field_loop :: "string list \<Rightarrow> string list \<Rightarrow> nat \<Rightarrow> bool" where
  "field_loop short long j =
     (if j < length long
      then if short ! 0 = long ! j
           then case foldl (field_step short long) (j, True) [1..<length short] of
                  (j', possible_match) \<Rightarrow> if possible_match then True else field_loop short long (j' + 1)
           else field_loop short long (j + 1)
      else False)"
  by pat_completeness auto
termination
  by (relation "measure (\<lambda>(short, long, j). length long - j)")
    (auto dest: field_step_le simp del: upt_Suc intro!: diff_less_mono2 le_imp_less_Suc)

declare field_loop.simps [simp del]

definition strFieldMatch :: "string \<Rightarrow> string \<Rightarrow> char \<Rightarrow> bool" where
  "strFieldMatch str1 str2 separator =
     (if \<not> strContains str1 str2 \<and> \<not> strContains str2 str1 then False
      else let svector1 = parseString str1 separator; svector2 = parseString str2 separator
           in if length svector1 = 0 \<or> length svector2 = 0 then False
              else let svector1 = map stripBlankEnds svector1; svector2 = map stripBlankEnds svector2
                   in if length svector1 < length svector2 then field_loop svector1 svector2 0
                      else field_loop svector2 svector1 0)"

section \<open>The parts of a condition are smaller\<close>

definition vis :: "string \<Rightarrow> nat" where
  "vis s = length (text_of s)"

lemma text_of_Cons: "text_of (c # s) = (if back_blank c then text_of s else c # text_of s)"
  by (simp add: text_of_def)

lemma vis_append: "vis (a @ b) = vis a + vis b"
  by (simp add: vis_def)

lemma vis_take: "vis (take n s) \<le> vis s"
  by (metis append_take_drop_id le_add1 vis_append)

lemma vis_drop: "vis (drop n s) \<le> vis s"
  by (metis append_take_drop_id le_add2 vis_append)

lemma vis_c_str: "vis (c_str s) \<le> vis s"
  unfolding c_str_def by (metis takeWhile_eq_take vis_take)

lemma vis_strip: "vis (stripBlankEnds s) \<le> vis s"
  using vis_c_str [of s] by (simp add: stripBlankEnds_trimmed vis_def)

lemma text_of_replaced: "text_of r = text_of f \<Longrightarrow> text_of (replaced f r s) = text_of s"
proof (induction f r s rule: replaced.induct)
  case (1 f r s)
  show ?case
  proof (cases "f \<noteq> [] \<and> take (length f) s = f")
    case True
    then have "text_of (replaced f r s) = text_of f @ text_of (drop (length f) s)"
      using 1 by (subst replaced.simps) simp
    also have "\<dots> = text_of (take (length f) s @ drop (length f) s)" using True by (simp only: text_of_simps)
    finally show ?thesis by simp
  next
    case False
    then show ?thesis using 1 by (subst replaced.simps) (auto simp: text_of_Cons split: list.split)
  qed
qed


lemma text_of_tabs: "text_of (findReplace_chr s TAB (CHR '' '')) = text_of s"
  by (induction s) (auto simp: findReplace_chr_def text_of_Cons back_blank_def)

lemma vis_spaced: "vis (spaced s) \<le> vis s"
proof -
  have b: "text_of '') '' = text_of '')''" "text_of '' ('' = text_of ''(''" "text_of ''$('' = text_of ''$ (''"
    by (simp_all add: text_of_def back_blank_def)
  let ?g = "replaced ''$ ('' ''$('' (replaced ''('' '' ('' (replaced '')'' '') '' (findReplace_chr s TAB (CHR '' ''))))"
  have "spaced s = stripBlankEnds ?g" by (simp add: spaced_def Let_def findReplace_replaced)
  moreover have "vis ?g = vis s" by (simp add: vis_def text_of_replaced b text_of_tabs)
  ultimately show ?thesis using vis_strip [of ?g] by simp
qed

lemma vis_prune: "vis (prune_loop s) \<le> vis s"
proof (induction s rule: prune_loop.induct)
  case (1 s)
  then show ?case using vis_drop [of 1 "take (length s - 1) s"] vis_take [of "length s - 1" s]
    by (subst prune_loop.simps) auto
qed

lemma vis_pruneParens: "vis (pruneParens s) \<le> vis s"
  unfolding pruneParens_def using vis_prune vis_strip le_trans by blast

lemma same_nocase_char:
  assumes "same_nocase a s 4" "length a \<ge> 4" "k < 4"
  shows "k < length s" "c_tolower (s ! k) = c_tolower (a ! k)"
proof -
  have m: "map c_tolower (take 4 a) = map c_tolower (take 4 s)" using assms(1) by (simp add: same_nocase_def)
  from arg_cong [OF this, of length] assms(2,3) show k: "k < length s" by simp
  from arg_cong [OF m, of "\<lambda>x. x ! k"] assms(2,3) k show "c_tolower (s ! k) = c_tolower (a ! k)" by simp
qed

lemma c_tolower_visible: "back_blank c \<Longrightarrow> c_tolower c = c"
  by (auto simp: back_blank_def c_tolower_def)

lemma relation_at_Some:
  assumes "relation_at str i = Some (rel, w)"
  shows "i < length str" "0 < w" "\<not> back_blank (str ! i)" "rel \<in> {''or'', ''and''} \<union> set comparisons"
proof -
  let ?op = "\<lambda>op. strncmp_eq op (drop i str) (length op)"
  have op: "i < length str \<and> str ! i = hd op" if "?op op" "op \<noteq> []" for op
  proof -
    have "op = take (length op) (drop i str)" using that(1) by (simp add: strncmp_eq_def)
    then have "drop i str \<noteq> []" "hd op = hd (drop i str)" using that(2) by (auto, metis hd_take length_greater_0_conv)
    then show ?thesis by (simp add: hd_drop_conv_nth)
  qed
  have word: "i < length str \<and> \<not> back_blank (str ! i)"
    if "i \<noteq> 0" "same_nocase a (drop (i - 1) str) 4" "length a \<ge> 4" "c_tolower (a ! 1) \<in> {CHR ''o'', CHR ''a''}" for a
  proof -
    note n = same_nocase_char [OF that(2,3), of 1]
    have "i - 1 + 1 = i" using that(1) by simp
    with n have "i < length str" "c_tolower (str ! i) = c_tolower (a ! 1)" by auto
    moreover have "\<not> back_blank (c_tolower (a ! 1))" using that(4) by (auto simp: back_blank_def)
    ultimately show ?thesis using c_tolower_visible [of "str ! i"] by auto
  qed
  have lo: "c_tolower (CHR ''O'') = CHR ''o''" "c_tolower (CHR ''A'') = CHR ''a''" by code_simp+
  have cases: "(rel = ''or'' \<and> w = 2 \<and> i \<noteq> 0 \<and> same_nocase '' OR '' (drop (i - 1) str) 4) \<or>
    (rel = ''and'' \<and> w = 3 \<and> i \<noteq> 0 \<and> same_nocase '' AND '' (drop (i - 1) str) 4) \<or>
    (rel \<in> set comparisons \<and> w = length rel \<and> ?op rel)"
    using assms unfolding relation_at_def Let_def
    by (auto simp: find_Some_iff in_set_conv_nth split: if_splits option.splits)
  have "\<not> back_blank (hd rel)" if "rel \<in> set comparisons" using that by (auto simp: comparisons_def back_blank_def)
  moreover have "rel \<noteq> []" if "rel \<in> set comparisons" using that by (auto simp: comparisons_def)
  ultimately have all: "i < length str \<and> 0 < w \<and> \<not> back_blank (str ! i)"
    using cases op [of rel] word [of "'' OR ''"] word [of "'' AND ''"] lo by auto
  then show "i < length str" "0 < w" "\<not> back_blank (str ! i)" by simp_all
  show "rel \<in> {''or'', ''and''} \<union> set comparisons" using cases by auto
qed

lemma relation_loop_Some: "relation_loop str is depth = Some (i, rel, w) \<Longrightarrow> relation_at str i = Some (rel, w)"
proof (induction "is" arbitrary: depth)
  case (Cons j js)
  let ?d = "if str ! j = CHR '')'' then (if str ! j = CHR ''('' then depth + 1 else depth) - 1
    else (if str ! j = CHR ''('' then depth + 1 else depth)"
  let ?r = "if ?d = 0 then relation_at str j else None"
  have e: "relation_loop str (j # js) depth =
      (case ?r of Some (rel, w) \<Rightarrow> Some (j, rel, w) | None \<Rightarrow> relation_loop str js ?d)"
    by (simp only: relation_loop.simps Let_def)
  show ?case
  proof (cases ?r)
    case None
    then show ?thesis using Cons.prems Cons.IH [of ?d] unfolding e by (simp only: option.case)
  next
    case (Some p)
    then have "p = (rel, w) \<and> j = i" using Cons.prems unfolding e by (cases p) (simp only: option.case prod.case, simp)
    moreover have "(if b then X else None) = Some p \<Longrightarrow> X = Some p" for b X by (simp split: if_splits)
    from this [OF Some] have "relation_at str j = Some p" .
    ultimately show ?thesis by simp
  qed
qed simp

lemma vis_around:
  assumes "i < length s" "\<not> back_blank (s ! i)" "0 < w"
  shows "vis (take i s) < vis s" "vis (drop (i + w) s) < vis s"
proof -
  have s: "s = take i s @ s ! i # drop (Suc i) s" using id_take_nth_drop [OF assms(1)] .
  have v: "vis s = vis (take i s) + (1 + vis (drop (Suc i) s))"
    by (subst s) (simp only: vis_append, simp add: vis_def text_of_Cons assms(2))
  then show "vis (take i s) < vis s" by simp
  have "drop (i + w) s = drop (w - 1) (drop (Suc i) s)" using assms(3) by (cases w) (simp_all add: add.commute)
  then have "vis (drop (i + w) s) \<le> vis (drop (Suc i) s)" by (simp only: vis_drop)
  with v show "vis (drop (i + w) s) < vis s" by simp
qed

lemma char_at_0: "char_at s 0 = Some c \<longleftrightarrow> (s = [] \<and> c = NUL) \<or> (s \<noteq> [] \<and> hd s = c)"
  by (cases s) (auto simp: char_at_def)

text \<open>What \<open>parseRelation\<close> returns: nothing, a negation, or a relation with its sides; the parts hold
  fewer visible characters than the condition.\<close>

lemma parseRelation_parts:
  obtains "parseRelation s = []"
  | u where "parseRelation s = [''not'', u]" "vis u < vis s"
  | rel l r where "parseRelation s = [rel, l, r]" "rel \<in> {''or'', ''and''} \<union> set comparisons" "vis l < vis s" "vis r < vis s"
proof -
  let ?g = "pruneParens (spaced s)"
  have g: "vis ?g \<le> vis s" using vis_pruneParens vis_spaced le_trans by blast
  show thesis
  proof (cases "legalParens (spaced s)")
    case False
    then show thesis by (intro that(1)) (simp add: parseRelation_def Let_def)
  next
    case legal: True
    show thesis
    proof (cases "char_at ?g 0 = Some (CHR ''!'') \<and> globalParens (drop 1 ?g)")
      case True
      then obtain u where u: "?g = CHR ''!'' # u" by (cases ?g) (auto simp: char_at_0)
      then have "vis ?g = Suc (vis u)" by (simp add: vis_def text_of_Cons back_blank_def)
      moreover have "parseRelation s = [''not'', u]" using True legal u by (simp add: parseRelation_def Let_def)
      ultimately show thesis using g that(2) by simp
    next
      case False
      show thesis
      proof (cases "relation_loop ?g [0..<length ?g] 0")
        case None
        with False legal show thesis by (intro that(1)) (simp only: parseRelation_def Let_def, simp)
      next
        case (Some p)
        obtain i rel w where p: "p = (i, rel, w)" by (metis prod_cases3)
        note r = relation_at_Some [OF relation_loop_Some [OF Some [unfolded p]]]
        note v = vis_around [OF r(1,3,2)]
        have "parseRelation s = [rel, stripBlankEnds (take i ?g), stripBlankEnds (drop (i + w) ?g)]"
          using False legal Some p by (simp only: parseRelation_def Let_def) simp
        moreover have "vis (stripBlankEnds (take i ?g)) < vis s" "vis (stripBlankEnds (drop (i + w) ?g)) < vis s"
          using v vis_strip g by (meson le_less_trans less_le_trans)+
        ultimately show thesis using that(3) r(4) by blast
      qed
    qed
  qed
qed

end
