(* ===== verification/Parse_Node.thy ===== *)
theory Parse_Node
  imports Logic_Utils
begin

text \<open>
  \<open>src/ivp/src/lib_logic/ParseNode.cpp\<close> and \<open>LogicCondition.cpp\<close>: the tree of a logic condition, how it
  is parsed, checked, filled with values and evaluated. A null pointer to a node is \<open>Null\<close>; a node
  owns its children, so the pointers form a tree. Evaluation is \<open>None\<close> when \<open>isQuoted\<close> reads past the
  end of a value.
\<close>

section \<open>Nodes\<close>

datatype parse_node = Null
  | Node (m_raw_string: string) (m_relation: string) (m_left_node: parse_node) (m_right_node: parse_node)
      (m_string_val: string) (m_double_val: real) (m_string_set: bool) (m_double_set: bool)
  where "m_raw_string Null = ''''" | "m_relation Null = ''''" | "m_left_node Null = Null" | "m_right_node Null = Null"
  | "m_string_val Null = ''''" | "m_double_val Null = 0" | "m_string_set Null = False" | "m_double_set Null = False"

definition ParseNode_new :: "string \<Rightarrow> parse_node" where
  "ParseNode_new raw_string = Node raw_string '''' Null Null '''' 0 False False"

primrec node_copy :: "parse_node \<Rightarrow> parse_node" where
  "node_copy Null = Null"
| "node_copy (Node raw rel l r sv dv ss ds) = Node raw rel (node_copy l) (node_copy r) sv dv ss ds"

primrec recursiveGetVarNames :: "parse_node \<Rightarrow> string list" where
  "recursiveGetVarNames Null = []"
| "recursiveGetVarNames (Node raw rel l r sv dv ss ds) =
     (let rvector = [];
          rvector = (if l \<noteq> Null then mergeVectors rvector (recursiveGetVarNames l) else rvector);
          rvector = (if r \<noteq> Null then mergeVectors rvector (recursiveGetVarNames r) else rvector);
          rvector = (if rel = ''variable'' then rvector @ [raw] else rvector)
      in removeDuplicates rvector)"

text \<open>A node that holds a double refuses a string, and one that holds a string refuses a double.\<close>

primrec recursiveSetVarVal_s :: "string \<Rightarrow> string \<Rightarrow> parse_node \<Rightarrow> parse_node" where
  "recursiveSetVarVal_s varname varval Null = Null"
| "recursiveSetVarVal_s varname varval (Node raw rel l r sv dv ss ds) =
     (if rel = ''variable''
      then if raw = varname \<and> \<not> ds then Node raw rel l r varval dv True ds else Node raw rel l r sv dv ss ds
      else Node raw rel (recursiveSetVarVal_s varname varval l) (recursiveSetVarVal_s varname varval r) sv dv ss ds)"

primrec recursiveSetVarVal_d :: "string \<Rightarrow> real \<Rightarrow> parse_node \<Rightarrow> parse_node" where
  "recursiveSetVarVal_d varname varval Null = Null"
| "recursiveSetVarVal_d varname varval (Node raw rel l r sv dv ss ds) =
     (if rel = ''variable''
      then if raw = varname \<and> \<not> ss then Node raw rel l r sv varval ss True else Node raw rel l r sv dv ss ds
      else Node raw rel (recursiveSetVarVal_d varname varval l) (recursiveSetVarVal_d varname varval r) sv dv ss ds)"

primrec recursiveClearVarVal :: "parse_node \<Rightarrow> parse_node" where
  "recursiveClearVarVal Null = Null"
| "recursiveClearVarVal (Node raw rel l r sv dv ss ds) =
     (if rel = ''variable'' then Node raw rel l r '''' 0 False False
      else Node raw rel (recursiveClearVarVal l) (recursiveClearVarVal r) sv dv ss ds)"

section \<open>Comparing values\<close>

definition evaluate_ss :: "string \<Rightarrow> string \<Rightarrow> string \<Rightarrow> bool option" where
  "evaluate_ss relation left right =
     isQuoted left \<bind> (\<lambda>q. let left = (if q then stripQuotes left else left) in
     isQuoted right \<bind> (\<lambda>q. let right = (if q then stripQuotes right else right) in
       Some (if relation = ''='' then left = right
             else if relation = ''=='' then strFieldMatch left right (CHR '':'')
             else if relation = ''!='' then left \<noteq> right
             else if relation = ''<'' then left < right
             else if relation = ''<='' then left \<le> right
             else if relation = ''>'' then left > right
             else if relation = ''>='' then left \<ge> right
             else False)))"

definition evaluate_dd :: "string \<Rightarrow> real \<Rightarrow> real \<Rightarrow> bool" where
  "evaluate_dd relation left right =
     (if relation = ''='' \<or> relation = ''=='' then left = right
      else if relation = ''!='' then left \<noteq> right
      else if relation = ''<'' then left < right
      else if relation = ''<='' then left \<le> right
      else if relation = ''>'' then left > right
      else if relation = ''>='' then left \<ge> right
      else False)"

definition evaluate_sd :: "string \<Rightarrow> string \<Rightarrow> real \<Rightarrow> bool option" where
  "evaluate_sd relation left right =
     isQuoted left \<bind> (\<lambda>q. let left = (if q then stripQuotes left else left) in
       if \<not> isNumber left True then Some False else Some (evaluate_dd relation (atof left) right))"

definition evaluate_ds :: "string \<Rightarrow> real \<Rightarrow> string \<Rightarrow> bool option" where
  "evaluate_ds relation left right =
     isQuoted right \<bind> (\<lambda>q. let right = (if q then stripQuotes right else right) in
       if \<not> isNumber right True then Some False else Some (evaluate_dd relation left (atof right)))"

text \<open>The type and value of a side: \<open>type_left\<close> with \<open>string_left\<close> and \<open>double_left\<close>, and so on.\<close>

datatype side_value = Unset | Str string | Num real

definition left_value :: "parse_node \<Rightarrow> side_value" where
  "left_value n = (if m_string_set n then Str (m_string_val n)
     else if m_double_set n then Num (m_double_val n) else Unset)"

definition right_value :: "parse_node \<Rightarrow> side_value" where
  "right_value n = (if m_relation n = ''string'' then Str (m_raw_string n)
     else if m_relation n = ''double'' then Num (atof (m_raw_string n))
     else if m_relation n = ''variable''
     then if m_string_set n then Str (m_string_val n)
          else if m_double_set n then Num (m_double_val n) else Unset
     else Unset)"

definition evaluate :: "string \<Rightarrow> side_value \<Rightarrow> side_value \<Rightarrow> bool option" where
  "evaluate relation left right = (case (left, right) of
       (Str l, Str r) \<Rightarrow> evaluate_ss relation l r
     | (Str l, Num r) \<Rightarrow> evaluate_sd relation l r
     | (Num l, Str r) \<Rightarrow> evaluate_ds relation l r
     | (Num l, Num r) \<Rightarrow> Some (evaluate_dd relation l r)
     | _ \<Rightarrow> Some False)"

text \<open>Both sides of \<open>and\<close> and \<open>or\<close> are evaluated.\<close>

primrec recursiveEvaluate :: "parse_node \<Rightarrow> bool option" where
  "recursiveEvaluate Null = Some False"
| "recursiveEvaluate (Node raw rel l r sv dv ss ds) =
     (if rel = ''not''
      then if l = Null then Some False else recursiveEvaluate l \<bind> (\<lambda>b. Some (\<not> b))
      else if l = Null \<or> r = Null then Some False
      else if rel = ''or''
      then recursiveEvaluate l \<bind> (\<lambda>result_left. recursiveEvaluate r \<bind> (\<lambda>result_right. Some (result_left \<or> result_right)))
      else if rel = ''and''
      then recursiveEvaluate l \<bind> (\<lambda>result_left. recursiveEvaluate r \<bind> (\<lambda>result_right. Some (result_left \<and> result_right)))
      else evaluate rel (left_value l) (right_value r))"

section \<open>Parsing and checking\<close>

text \<open>
  A leaf becomes a variable on the left, and on the right a variable, a number or a literal; the
  argument says on which side the node stands. The result of \<open>&\<close> is that of both checks.
\<close>

primrec recursiveSyntaxCheck :: "parse_node \<Rightarrow> nat \<Rightarrow> bool \<times> parse_node" where
  "recursiveSyntaxCheck Null side = (False, Null)"
| "recursiveSyntaxCheck (Node raw rel l r sv dv ss ds) side =
     (if l = Null \<and> r = Null
      then if side = 0 then (False, Node raw ''leaf'' l r sv dv ss ds)
           else if side = 1
           then if isValidVariable raw then (True, Node raw ''variable'' l r sv dv ss ds)
                else (False, Node raw ''leaf'' l r sv dv ss ds)
           else if side = 2
           then if isValidRightVariable raw
                then let raw = stripBlankEnds raw; len = length raw
                     in (True, Node (drop 2 (take (len - 1) raw)) ''variable'' l r sv dv ss ds)
                else if isNumber raw True then (True, Node raw ''double'' l r sv dv ss ds)
                else if isValidLiteral raw then (True, Node raw ''string'' l r sv dv ss ds)
                else (False, Node raw ''leaf'' l r sv dv ss ds)
           else (False, Node raw ''leaf'' l r sv dv ss ds)
      else if l \<noteq> Null \<and> r = Null
      then if rel \<noteq> ''not'' then (False, Node raw rel l r sv dv ss ds)
           else case recursiveSyntaxCheck l 0 of (ok, l) \<Rightarrow> (ok, Node raw rel l r sv dv ss ds)
      else if l \<noteq> Null \<and> r \<noteq> Null
      then case recursiveSyntaxCheck l (if rel = ''or'' \<or> rel = ''and'' then 0 else 1) of (ok1, l) \<Rightarrow>
           (case recursiveSyntaxCheck r (if rel = ''or'' \<or> rel = ''and'' then 0 else 2) of (ok2, r) \<Rightarrow>
             (ok1 \<and> ok2, Node raw rel l r sv dv ss ds))
      else (False, Node raw rel l r sv dv ss ds))"

lemma parseRelation_smaller:
  "parseRelation s = [a, b] \<Longrightarrow> a = ''not'' \<and> vis b < vis s"
  "parseRelation s = [rel, b, c] \<Longrightarrow> rel \<in> {''or'', ''and''} \<union> set comparisons \<and> vis b < vis s \<and> vis c < vis s"
  by (rule parseRelation_parts [of s]; simp)+

text \<open>
  What the recursive calls return is ignored, and they allow double equals by the default of the
  argument. The node is a fresh one, as both callers make it, so parsing takes its string.
\<close>

function recursiveParse :: "string \<Rightarrow> bool \<Rightarrow> bool \<times> parse_node" where
  "recursiveParse raw allow_double_equals =
     (case parseRelation raw of
        [a, b] \<Rightarrow>
          (True, Node raw ''not'' (snd (recursiveParse b True)) Null '''' 0 False False)
      | [rel, b, c] \<Rightarrow>
          if (rel = ''and'' \<or> rel = ''or'') \<and>
             ((\<not> globalParens b \<and> \<not> globalNotParens b) \<or> (\<not> globalParens c \<and> \<not> globalNotParens c))
          then (False, Node raw rel Null Null '''' 0 False False)
          else if rel = ''=='' \<and> \<not> allow_double_equals
          then (False, Node raw rel Null Null '''' 0 False False)
          else (True, Node raw rel (snd (recursiveParse b True)) (snd (recursiveParse c True)) '''' 0 False False)
      | _ \<Rightarrow> (True, ParseNode_new raw))"
  by pat_completeness auto

termination
  by (relation "measure (\<lambda>(s, b). vis s)") (auto dest: parseRelation_smaller)

declare recursiveParse.simps [simp del]

section \<open>Conditions\<close>

record logic_condition =
  m_node :: parse_node
  m_allow_dblequals :: bool

definition LogicCondition_new :: logic_condition where
  "LogicCondition_new = \<lparr>m_node = Null, m_allow_dblequals = True\<rparr>"

definition LogicCondition_copy :: "logic_condition \<Rightarrow> logic_condition" where
  "LogicCondition_copy b =
     \<lparr>m_node = (if m_node b \<noteq> Null then node_copy (m_node b) else Null), m_allow_dblequals = True\<rparr>"

definition LogicCondition_assign :: "logic_condition \<Rightarrow> logic_condition \<Rightarrow> logic_condition" where
  "LogicCondition_assign lc right =
     lc\<lparr>m_node := if m_node right \<noteq> Null then node_copy (m_node right) else Null\<rparr>"

definition getVarNames :: "logic_condition \<Rightarrow> string list" where
  "getVarNames lc = (if m_node lc \<noteq> Null then recursiveGetVarNames (m_node lc) else [])"

definition setCondition :: "string \<Rightarrow> logic_condition \<Rightarrow> bool \<times> logic_condition" where
  "setCondition str lc =
     (let (ok_parse, n) = recursiveParse str (m_allow_dblequals lc)
      in if \<not> ok_parse then (False, lc\<lparr>m_node := Null\<rparr>)
         else let (ok_syntax, n) = recursiveSyntaxCheck n 0
              in if \<not> ok_syntax then (False, lc\<lparr>m_node := Null\<rparr>) else (True, lc\<lparr>m_node := n\<rparr>))"

definition eval :: "logic_condition \<Rightarrow> bool option" where
  "eval lc = (if m_node lc \<noteq> Null then recursiveEvaluate (m_node lc) else Some False)"

definition setAllowDoubleEquals :: "bool \<Rightarrow> logic_condition \<Rightarrow> logic_condition" where
  "setAllowDoubleEquals v lc = lc\<lparr>m_allow_dblequals := v\<rparr>"

definition getRawCondition :: "logic_condition \<Rightarrow> string" where
  "getRawCondition lc = (if m_node lc \<noteq> Null then m_raw_string (m_node lc) else '''')"

definition clearVarVals :: "logic_condition \<Rightarrow> logic_condition" where
  "clearVarVals lc = (if m_node lc \<noteq> Null then lc\<lparr>m_node := recursiveClearVarVal (m_node lc)\<rparr> else lc)"

definition setVarVal_s :: "string \<Rightarrow> string \<Rightarrow> logic_condition \<Rightarrow> logic_condition" where
  "setVarVal_s var val lc = (if m_node lc \<noteq> Null then lc\<lparr>m_node := recursiveSetVarVal_s var val (m_node lc)\<rparr> else lc)"

definition setVarVal_d :: "string \<Rightarrow> real \<Rightarrow> logic_condition \<Rightarrow> logic_condition" where
  "setVarVal_d var val lc = (if m_node lc \<noteq> Null then lc\<lparr>m_node := recursiveSetVarVal_d var val (m_node lc)\<rparr> else lc)"

section \<open>What an accepted condition is\<close>

text \<open>
  The abstract conditions. A side of a comparison is a variable, a number or a literal; the syntax
  check also lets a whole condition stand there, \<open>Junk\<close>, which has no value.
\<close>

datatype operand = Var string | Const side_value | Junk
datatype cond = CNot cond | CAnd cond cond | COr cond cond | CRel string operand operand

fun operand_value :: "(string \<Rightarrow> side_value) \<Rightarrow> operand \<Rightarrow> side_value" where
  "operand_value env (Var v) = env v"
| "operand_value env (Const x) = x"
| "operand_value env Junk = Unset"

text \<open>The truth of a condition under an assignment of values to variables.\<close>

fun holds :: "(string \<Rightarrow> side_value) \<Rightarrow> cond \<Rightarrow> bool option" where
  "holds env (CNot c) = holds env c \<bind> (\<lambda>b. Some (\<not> b))"
| "holds env (CAnd c d) = holds env c \<bind> (\<lambda>a. holds env d \<bind> (\<lambda>b. Some (a \<and> b)))"
| "holds env (COr c d) = holds env c \<bind> (\<lambda>a. holds env d \<bind> (\<lambda>b. Some (a \<or> b)))"
| "holds env (CRel rel a b) = evaluate rel (operand_value env a) (operand_value env b)"

definition leaf :: "parse_node \<Rightarrow> bool" where
  "leaf n \<longleftrightarrow> n \<noteq> Null \<and> m_left_node n = Null \<and> m_right_node n = Null"

definition operand_of :: "parse_node \<Rightarrow> operand" where
  "operand_of n = (if m_relation n = ''variable'' then Var (m_raw_string n)
     else if m_relation n = ''string'' then Const (Str (m_raw_string n))
     else if m_relation n = ''double'' then Const (Num (atof (m_raw_string n))) else Junk)"

primrec cond_of :: "parse_node \<Rightarrow> cond" where
  "cond_of Null = undefined"
| "cond_of (Node raw rel l r sv dv ss ds) =
     (if rel = ''not'' then CNot (cond_of l)
      else if rel = ''and'' then CAnd (cond_of l) (cond_of r)
      else if rel = ''or'' then COr (cond_of l) (cond_of r)
      else CRel rel (operand_of l) (operand_of r))"

text \<open>
  A well-formed tree: evaluation never comes to a leaf. Only variables carry values, and never two.
\<close>

primrec wf_cond :: "nat \<Rightarrow> parse_node \<Rightarrow> bool" where
  "wf_cond side Null = False"
| "wf_cond side (Node raw rel l r sv dv ss ds) =
     (if l = Null \<and> r = Null
      then (side = 1 \<and> rel = ''variable'' \<or> side = 2 \<and> rel \<in> {''variable'', ''double'', ''string''}) \<and>
           (rel \<noteq> ''variable'' \<longrightarrow> \<not> ss \<and> \<not> ds) \<and> \<not> (ss \<and> ds)
      else \<not> ss \<and> \<not> ds \<and>
        (rel = ''not'' \<and> wf_cond 0 l \<and> r = Null \<or>
         rel \<in> {''and'', ''or''} \<and> wf_cond 0 l \<and> wf_cond 0 r \<or>
         rel \<in> set comparisons \<and> wf_cond 1 l \<and> wf_cond 2 r))"

lemma comparisons_words: "rel \<in> set comparisons \<Longrightarrow>
   rel \<notin> {''not'', ''and'', ''or'', ''variable'', ''double'', ''string'', ''leaf''}"
  by (auto simp: comparisons_def)

lemma comparisons_simps [simp]: "''not'' \<notin> set comparisons" "''and'' \<notin> set comparisons" "''or'' \<notin> set comparisons"
  "''variable'' \<notin> set comparisons" "''double'' \<notin> set comparisons" "''string'' \<notin> set comparisons"
  by (simp_all add: comparisons_def)

lemma wf_cond_Null: "wf_cond side n \<Longrightarrow> n \<noteq> Null"
  by (cases n) auto

text \<open>What parsing leaves, before the check: a leaf without children and values, or a relation.\<close>

primrec shape :: "parse_node \<Rightarrow> bool" where
  "shape Null = False"
| "shape (Node raw rel l r sv dv ss ds) =
     (\<not> ss \<and> \<not> ds \<and> (l = Null \<and> r = Null \<or> rel = ''not'' \<and> shape l \<and> r = Null \<or>
        rel \<in> {''and'', ''or''} \<union> set comparisons \<and> shape l \<and> shape r))"

lemma shape_Null: "shape n \<Longrightarrow> n \<noteq> Null"
  by (cases n) auto

lemma recursiveParse_shape: "shape (snd (recursiveParse s b))"
proof (induction s b rule: recursiveParse.induct)
  case (1 raw b)
  show ?case
  proof (cases rule: parseRelation_parts [of raw])
    case 1
    then show ?thesis by (subst recursiveParse.simps) (simp add: ParseNode_new_def)
  next
    case (2 u)
    then show ?thesis using "1.IH"(1) [of "''not''" "[u]" u "[]"] by (subst recursiveParse.simps) simp
  next
    case (3 rel l r)
    then show ?thesis using "1.IH"(2,3) [of rel "[l, r]" l "[r]" r "[]"]
      by (subst recursiveParse.simps) auto
  qed
qed

lemma recursiveSyntaxCheck_wf:
  "shape n \<Longrightarrow> recursiveSyntaxCheck n side = (True, n') \<Longrightarrow> wf_cond side n' \<and> (\<not> leaf n \<longrightarrow> \<not> leaf n')"
proof (induction n arbitrary: side n')
  case (Node raw rel l r sv dv ss ds)
  consider (leaf) "l = Null" "r = Null" | (one) "l \<noteq> Null" "r = Null" | (two) "l \<noteq> Null" "r \<noteq> Null"
    using Node.prems(1) shape_Null by auto
  then show ?case
  proof cases
    case leaf
    then show ?thesis using Node.prems by (auto simp: Let_def leaf_def split: if_splits)
  next
    case one
    with Node.prems obtain l' where l': "recursiveSyntaxCheck l 0 = (True, l')" "n' = Node raw rel l' r sv dv ss ds" "rel = ''not''" "shape l"
      by (auto split: if_splits prod.splits dest: comparisons_words shape_Null)
    have "wf_cond 0 l'" using Node.IH(1) [OF l'(4,1)] by simp
    then show ?thesis using l'(2,3) one Node.prems(1) wf_cond_Null by (auto simp: leaf_def)
  next
    case two
    let ?sl = "if rel = ''or'' \<or> rel = ''and'' then 0 else 1 :: nat" and ?sr = "if rel = ''or'' \<or> rel = ''and'' then 0 else 2 :: nat"
    from two Node.prems obtain l' r' where lr: "recursiveSyntaxCheck l ?sl = (True, l')" "recursiveSyntaxCheck r ?sr = (True, r')"
      "n' = Node raw rel l' r' sv dv ss ds" by (auto split: prod.splits)
    have s: "shape l" "shape r" "rel \<in> {''and'', ''or''} \<union> set comparisons" "\<not> ss" "\<not> ds" using Node.prems(1) two by auto
    have "wf_cond ?sl l'" "wf_cond ?sr r'" using Node.IH(1) [OF s(1) lr(1)] Node.IH(2) [OF s(2) lr(2)] by simp_all
    moreover have "l' \<noteq> Null" using \<open>wf_cond ?sl l'\<close> by (rule wf_cond_Null)
    ultimately show ?thesis using lr(3) s(3-5) by (auto simp: leaf_def split: if_splits)
  qed
qed simp

text \<open>Every condition that \<open>setCondition\<close> accepts is a well-formed tree, a rejected one leaves none.\<close>

lemma setCondition_wf: "wf_cond 0 (m_node (snd (setCondition s lc))) \<or>
    \<not> fst (setCondition s lc) \<and> m_node (snd (setCondition s lc)) = Null"
  using recursiveParse_shape [of s "m_allow_dblequals lc"] recursiveSyntaxCheck_wf
  by (auto simp: setCondition_def Let_def split: prod.splits)

section \<open>Evaluation\<close>

text \<open>All variables of a tree have the values an assignment gives them.\<close>

primrec valued :: "(string \<Rightarrow> side_value) \<Rightarrow> parse_node \<Rightarrow> bool" where
  "valued env Null = True"
| "valued env (Node raw rel l r sv dv ss ds) =
     (if rel = ''variable'' then left_value (Node raw rel l r sv dv ss ds) = env raw
      else valued env l \<and> valued env r)"

lemma wf_cond_sides:
  assumes "wf_cond side n" "side \<noteq> 0"
  obtains raw rel sv dv ss ds where "n = Node raw rel Null Null sv dv ss ds" "rel = ''variable''" "\<not> (ss \<and> ds)"
  | raw rel sv dv where "n = Node raw rel Null Null sv dv False False" "rel = ''double'' \<or> rel = ''string''" "side = 2"
  | raw rel l r sv dv where "n = Node raw rel l r sv dv False False" "l \<noteq> Null"
      "rel \<notin> {''variable'', ''double'', ''string''}"
proof (cases n)
  case (Node raw rel l r sv dv ss ds)
  show thesis
  proof (cases "l = Null \<and> r = Null")
    case True
    then show thesis using assms that(1,2) Node by (cases "rel = ''variable''") auto
  next
    case False
    then have "l \<noteq> Null" "\<not> ss" "\<not> ds" "rel \<notin> {''variable'', ''double'', ''string''}"
      using assms wf_cond_Null Node by auto
    then show thesis using that(3) Node by auto
  qed
qed (use assms in simp)

lemma left_value_operand:
  assumes "wf_cond 1 n" "valued env n"
  shows "left_value n = operand_value env (operand_of n)"
  using assms(1) by (rule wf_cond_sides) (use assms(2) in \<open>auto simp: operand_of_def left_value_def\<close>)

lemma right_value_operand:
  assumes "wf_cond 2 n" "valued env n"
  shows "right_value n = operand_value env (operand_of n)"
  using assms(1) by (rule wf_cond_sides) (use assms(2) in \<open>auto simp: operand_of_def left_value_def right_value_def\<close>)

lemma recursiveEvaluate_holds:
  "wf_cond 0 n \<Longrightarrow> valued env n \<Longrightarrow> recursiveEvaluate n = holds env (cond_of n)"
proof (induction n)
  case (Node raw rel l r sv dv ss ds)
  from Node.prems consider (n) "rel = ''not''" "wf_cond 0 l" | (b) "rel = ''and'' \<or> rel = ''or''" "wf_cond 0 l" "wf_cond 0 r"
    | (r) "rel \<in> set comparisons" "wf_cond 1 l" "wf_cond 2 r" by (auto split: if_splits)
  then show ?case
  proof cases
    case n
    then show ?thesis using Node.IH(1) Node.prems wf_cond_Null [OF n(2)] by auto
  next
    case b
    then show ?thesis using Node.IH Node.prems wf_cond_Null [OF b(2)] wf_cond_Null [OF b(3)] by auto
  next
    case r
    have v: "valued env l" "valued env r" using Node.prems(2) comparisons_words [OF r(1)] by auto
    show ?thesis
      using comparisons_words [OF r(1)] wf_cond_Null [OF r(2)] wf_cond_Null [OF r(3)]
        left_value_operand [OF r(2) v(1)] right_value_operand [OF r(3) v(2)] by auto
  qed
qed simp

text \<open>The effect on the values of a variable: the first type it was given stays.\<close>

definition learn_s :: "string \<Rightarrow> side_value \<Rightarrow> side_value" where
  "learn_s s v = (case v of Num x \<Rightarrow> Num x | _ \<Rightarrow> Str s)"

definition learn_d :: "real \<Rightarrow> side_value \<Rightarrow> side_value" where
  "learn_d d v = (case v of Str x \<Rightarrow> Str x | _ \<Rightarrow> Num d)"

lemma setVarVal_Null [simp]:
  "recursiveSetVarVal_s v s n = Null \<longleftrightarrow> n = Null" "recursiveSetVarVal_d v d n = Null \<longleftrightarrow> n = Null"
  by (cases n; simp)+

lemma setVarVal_wf:
  "wf_cond side n \<Longrightarrow> wf_cond side (recursiveSetVarVal_s v s n) \<and> cond_of (recursiveSetVarVal_s v s n) = cond_of n \<and>
     operand_of (recursiveSetVarVal_s v s n) = operand_of n"
  "wf_cond side n \<Longrightarrow> wf_cond side (recursiveSetVarVal_d v d n) \<and> cond_of (recursiveSetVarVal_d v d n) = cond_of n \<and>
     operand_of (recursiveSetVarVal_d v d n) = operand_of n"
proof -
  have "wf_cond side n \<Longrightarrow> (wf_cond side (recursiveSetVarVal_s v s n) \<and> cond_of (recursiveSetVarVal_s v s n) = cond_of n \<and>
       operand_of (recursiveSetVarVal_s v s n) = operand_of n) \<and>
     (wf_cond side (recursiveSetVarVal_d v d n) \<and> cond_of (recursiveSetVarVal_d v d n) = cond_of n \<and>
       operand_of (recursiveSetVarVal_d v d n) = operand_of n)"
  proof (induction n arbitrary: side)
    case (Node raw rel l r sv dv ss ds)
    show ?case
    proof (cases "l = Null \<and> r = Null")
      case True
      then show ?thesis using Node.prems by (auto simp: operand_of_def)
    next
      case False
      from Node.prems False consider (n) "rel = ''not''" "wf_cond 0 l" "r = Null"
        | (b) "rel = ''and'' \<or> rel = ''or''" "wf_cond 0 l" "wf_cond 0 r" | (r) "rel \<in> set comparisons" "wf_cond 1 l" "wf_cond 2 r"
        by auto
      then show ?thesis
      proof cases
        case n
        then show ?thesis using Node.IH(1) [OF n(2)] Node.prems False by (simp add: operand_of_def)
      next
        case b
        then show ?thesis using Node.IH(1) [OF b(2)] Node.IH(2) [OF b(3)] Node.prems False wf_cond_Null [OF b(2)]
          by (auto simp: operand_of_def)
      next
        case r
        have "rel \<noteq> ''variable''" "rel \<noteq> ''not''" "rel \<noteq> ''and''" "rel \<noteq> ''or''" using r(1) by auto
        then show ?thesis using Node.IH(1) [OF r(2)] Node.IH(2) [OF r(3)] Node.prems False r wf_cond_Null [OF r(2)]
          by (simp add: operand_of_def)
      qed
    qed
  qed simp
  then show "wf_cond side n \<Longrightarrow> wf_cond side (recursiveSetVarVal_s v s n) \<and> cond_of (recursiveSetVarVal_s v s n) = cond_of n \<and>
     operand_of (recursiveSetVarVal_s v s n) = operand_of n"
    "wf_cond side n \<Longrightarrow> wf_cond side (recursiveSetVarVal_d v d n) \<and> cond_of (recursiveSetVarVal_d v d n) = cond_of n \<and>
     operand_of (recursiveSetVarVal_d v d n) = operand_of n" by blast+
qed

lemma setVarVal_valued:
  "wf_cond side n \<Longrightarrow> valued env n \<Longrightarrow> valued (env(v := learn_s s (env v))) (recursiveSetVarVal_s v s n)"
  "wf_cond side n \<Longrightarrow> valued env n \<Longrightarrow> valued (env(v := learn_d d (env v))) (recursiveSetVarVal_d v d n)"
proof -
  have "wf_cond side n \<Longrightarrow> valued env n \<Longrightarrow> valued (env(v := learn_s s (env v))) (recursiveSetVarVal_s v s n) \<and>
      valued (env(v := learn_d d (env v))) (recursiveSetVarVal_d v d n)"
  proof (induction n arbitrary: side)
    case (Node raw rel l r sv dv ss ds)
    show ?case
    proof (cases "rel = ''variable''")
      case True
      then have "env raw = left_value (Node raw rel l r sv dv ss ds)" "\<not> (ss \<and> ds)"
        using Node.prems by (auto dest: comparisons_words split: if_splits)
      then show ?thesis using True by (auto simp: left_value_def learn_s_def learn_d_def)
    next
      case False
      from Node.prems(1) False have "l = Null \<and> r = Null \<or> (\<exists>s1 s2. wf_cond s1 l \<and> (r = Null \<or> wf_cond s2 r))"
        by (auto split: if_splits)
      then show ?thesis using Node.IH Node.prems(2) False by auto
    qed
  qed simp
  then show "wf_cond side n \<Longrightarrow> valued env n \<Longrightarrow> valued (env(v := learn_s s (env v))) (recursiveSetVarVal_s v s n)"
    "wf_cond side n \<Longrightarrow> valued env n \<Longrightarrow> valued (env(v := learn_d d (env v))) (recursiveSetVarVal_d v d n)" by simp_all
qed

lemma fresh_valued: "shape n \<Longrightarrow> recursiveSyntaxCheck n side = (ok, n') \<Longrightarrow> valued (\<lambda>_. Unset) n'"
proof (induction n arbitrary: side n' ok)
  case (Node raw rel l r sv dv ss ds)
  then have "\<not> ss" "\<not> ds" by auto
  then show ?case using Node
    by (auto simp: Let_def left_value_def split: if_splits prod.splits)
qed auto

text \<open>The names of the variables, without repetition.\<close>

primrec var_names :: "parse_node \<Rightarrow> string set" where
  "var_names Null = {}"
| "var_names (Node raw rel l r sv dv ss ds) =
     var_names l \<union> var_names r \<union> (if rel = ''variable'' then {raw} else {})"

lemma removeDuplicates_facts: "set (removeDuplicates xs) = set xs" "distinct (removeDuplicates xs)"
proof -
  have "set (removeDuplicates xs) = set xs \<and> distinct (removeDuplicates xs)"
    by (induction xs rule: rev_induct) (auto simp: removeDuplicates_def vectorContains_def list_ex_iff)
  then show "set (removeDuplicates xs) = set xs" "distinct (removeDuplicates xs)" by simp_all
qed

lemma mergeVectors_append: "mergeVectors xs ys = xs @ ys"
  unfolding mergeVectors_def by (induction ys arbitrary: xs) auto

lemma recursiveGetVarNames_names:
  "set (recursiveGetVarNames n) = var_names n" "distinct (recursiveGetVarNames n)"
proof -
  show "set (recursiveGetVarNames n) = var_names n"
    by (induction n) (auto simp: Let_def removeDuplicates_facts mergeVectors_append)
  show "distinct (recursiveGetVarNames n)" by (cases n) (auto simp: Let_def removeDuplicates_facts)
qed

lemma valued_cong: "valued env n \<Longrightarrow> \<forall>v\<in>var_names n. env v = env' v \<Longrightarrow> valued env' n"
  by (induction n) (auto simp: left_value_def split: if_splits)

lemma holds_cong: "\<forall>v\<in>var_names n. env v = env' v \<Longrightarrow> wf_cond 0 n \<Longrightarrow> holds env (cond_of n) = holds env' (cond_of n)"
proof (induction n)
  case (Node raw rel l r sv dv ss ds)
  have o: "operand_value env (operand_of m) = operand_value env' (operand_of m)" if "\<forall>v\<in>var_names m. env v = env' v" for m
    using that by (cases m) (auto simp: operand_of_def)
  have v: "\<forall>v\<in>var_names l. env v = env' v" "\<forall>v\<in>var_names r. env v = env' v" using Node.prems(1) by auto
  from Node.prems(2) consider (n) "rel = ''not''" "wf_cond 0 l" | (b) "rel = ''and'' \<or> rel = ''or''" "wf_cond 0 l" "wf_cond 0 r"
    | (r) "rel \<in> set comparisons" by (auto split: if_splits)
  then show ?case
  proof cases
    case r
    then have "rel \<noteq> ''not''" "rel \<noteq> ''and''" "rel \<noteq> ''or''" by auto
    then show ?thesis using o [OF v(1)] o [OF v(2)] by simp
  qed (use Node.IH v in auto)
qed simp

end
