(* ===== verification/Info_Buffer.thy ===== *)
theory Info_Buffer
  imports C_Strings
begin

text \<open>
  \<open>src/ivp/src/lib_logic/InfoBuffer.cpp\<close>: the buffer of variables that logic conditions and
  behaviors look up. A \<open>std::map\<close> is a map; one for the strings, one for the doubles, two for the
  times and two for the values since the last call of \<open>clearDeltaVectors\<close>. A result flag is the
  second component of a result.
\<close>

record infobuffer =
  smap :: "string \<Rightarrow> string option"
  dmap :: "string \<Rightarrow> real option"
  tmap :: "string \<Rightarrow> real option"
  mtmap :: "string \<Rightarrow> real option"
  vsmap :: "string \<Rightarrow> string list option"
  vdmap :: "string \<Rightarrow> real list option"
  m_curr_time_utc :: real

definition InfoBuffer_new :: infobuffer where
  "InfoBuffer_new = \<lparr>smap = Map.empty, dmap = Map.empty, tmap = Map.empty, mtmap = Map.empty,
     vsmap = Map.empty, vdmap = Map.empty, m_curr_time_utc = 0\<rparr>"

section \<open>Queries\<close>

definition dQuery :: "infobuffer \<Rightarrow> string \<Rightarrow> real \<times> bool" where
  "dQuery ib var = (case dmap ib var of Some v \<Rightarrow> (v, True) | None \<Rightarrow> (0, False))"

definition sQuery :: "infobuffer \<Rightarrow> string \<Rightarrow> string \<times> bool" where
  "sQuery ib var = (case smap ib var of Some v \<Rightarrow> (v, True) | None \<Rightarrow> ('''', False))"

definition tQuery :: "infobuffer \<Rightarrow> string \<Rightarrow> bool \<Rightarrow> real" where
  "tQuery ib var elapsed =
     (case tmap ib var of Some t \<Rightarrow> if elapsed then m_curr_time_utc ib - t else t | None \<Rightarrow> - 1)"

definition mtQuery :: "infobuffer \<Rightarrow> string \<Rightarrow> bool \<Rightarrow> real" where
  "mtQuery ib var elapsed =
     (case mtmap ib var of Some t \<Rightarrow> if elapsed then m_curr_time_utc ib - t else t | None \<Rightarrow> - 1)"

definition sQueryDeltas :: "infobuffer \<Rightarrow> string \<Rightarrow> string list \<times> bool" where
  "sQueryDeltas ib var = (case vsmap ib var of Some v \<Rightarrow> (v, True) | None \<Rightarrow> ([], False))"

definition dQueryDeltas :: "infobuffer \<Rightarrow> string \<Rightarrow> real list \<times> bool" where
  "dQueryDeltas ib var = (case vdmap ib var of Some v \<Rightarrow> (v, True) | None \<Rightarrow> ([], False))"

definition isKnown :: "infobuffer \<Rightarrow> string \<Rightarrow> bool" where
  "isKnown ib varname = (case tmap ib varname of Some t \<Rightarrow> True | None \<Rightarrow> False)"

section \<open>Updates\<close>

text \<open>\<open>push_back\<close> on a vector that \<open>operator[]\<close> may have to make.\<close>

definition pushed :: "('k \<Rightarrow> 'v list option) \<Rightarrow> 'k \<Rightarrow> 'v \<Rightarrow> 'k \<Rightarrow> 'v list option" where
  "pushed m k v = m(k \<mapsto> (case m k of Some vs \<Rightarrow> vs | None \<Rightarrow> []) @ [v])"

definition setValue_d :: "infobuffer \<Rightarrow> string \<Rightarrow> real \<Rightarrow> real \<Rightarrow> infobuffer" where
  "setValue_d ib var val msg_time =
     (let ib = ib\<lparr>dmap := (dmap ib)(var \<mapsto> val)\<rparr>;
          ib = ib\<lparr>tmap := (tmap ib)(var \<mapsto> m_curr_time_utc ib)\<rparr>;
          msg_time = (if msg_time = 0 then m_curr_time_utc ib else msg_time);
          ib = ib\<lparr>mtmap := (mtmap ib)(var \<mapsto> msg_time)\<rparr>
      in ib\<lparr>vdmap := pushed (vdmap ib) var val\<rparr>)"

definition setValue_s :: "infobuffer \<Rightarrow> string \<Rightarrow> string \<Rightarrow> real \<Rightarrow> infobuffer" where
  "setValue_s ib var val msg_time =
     (let ib = ib\<lparr>smap := (smap ib)(var \<mapsto> val)\<rparr>;
          ib = ib\<lparr>tmap := (tmap ib)(var \<mapsto> m_curr_time_utc ib)\<rparr>;
          msg_time = (if msg_time = 0 then m_curr_time_utc ib else msg_time);
          ib = ib\<lparr>mtmap := (mtmap ib)(var \<mapsto> msg_time)\<rparr>
      in ib\<lparr>vsmap := pushed (vsmap ib) var val\<rparr>)"

definition clearDeltaVectors :: "infobuffer \<Rightarrow> infobuffer" where
  "clearDeltaVectors ib = ib\<lparr>vsmap := Map.empty, vdmap := Map.empty\<rparr>"

definition setCurrTime :: "infobuffer \<Rightarrow> real \<Rightarrow> infobuffer" where
  "setCurrTime ib t = ib\<lparr>m_curr_time_utc := t\<rparr>"

section \<open>The contract of a store of values\<close>

text \<open>
  What a client of one of the two stores relies on: a query answers what was last put in, an update
  of one variable leaves the others, and the values since the last clearing come back in order.
\<close>

locale value_store =
  fixes inv :: "'b \<Rightarrow> bool" and put :: "'b \<Rightarrow> 'k \<Rightarrow> 'v \<Rightarrow> 'b" and get :: "'b \<Rightarrow> 'k \<Rightarrow> 'v option"
    and deltas :: "'b \<Rightarrow> 'k \<Rightarrow> 'v list" and clear :: "'b \<Rightarrow> 'b"
  assumes put_inv: "inv b \<Longrightarrow> inv (put b k v)" and clear_inv: "inv b \<Longrightarrow> inv (clear b)"
    and get_put: "inv b \<Longrightarrow> get (put b k v) k' = (if k' = k then Some v else get b k')"
    and get_clear: "inv b \<Longrightarrow> get (clear b) k' = get b k'"
    and deltas_put: "inv b \<Longrightarrow> deltas (put b k v) k' = (if k' = k then deltas b k' @ [v] else deltas b k')"
    and deltas_clear: "inv b \<Longrightarrow> deltas (clear b) k' = []"
begin

definition puts :: "'b \<Rightarrow> ('k \<times> 'v) list \<Rightarrow> 'b" where
  "puts b kvs = foldl (\<lambda>b (k, v). put b k v) b kvs"

lemma puts_inv: "inv b \<Longrightarrow> inv (puts b kvs)"
  unfolding puts_def by (induction kvs arbitrary: b) (auto simp: put_inv)

lemma get_puts: "inv b \<Longrightarrow> get (puts b kvs) k = (case map_of (rev kvs) k of Some v \<Rightarrow> Some v | None \<Rightarrow> get b k)"
proof (induction kvs rule: rev_induct)
  case (snoc kv kvs)
  then show ?case using puts_inv [OF snoc.prems, of kvs] by (cases kv) (simp add: puts_def get_put)
qed (simp add: puts_def)

lemma deltas_puts: "inv b \<Longrightarrow> deltas (puts b kvs) k = deltas b k @ map snd (filter (\<lambda>p. fst p = k) kvs)"
proof (induction kvs rule: rev_induct)
  case (snoc kv kvs)
  then show ?case using puts_inv [OF snoc.prems, of kvs] by (cases kv) (auto simp: puts_def deltas_put)
qed (simp add: puts_def)

text \<open>After a clearing only what is put in then comes back, while the last values stay.\<close>

lemma round: "inv b \<Longrightarrow> deltas (puts (clear b) kvs) k = map snd (filter (\<lambda>p. fst p = k) kvs) \<and>
   get (puts (clear b) kvs) k = (case map_of (rev kvs) k of Some v \<Rightarrow> Some v | None \<Rightarrow> get b k)"
  using deltas_puts [OF clear_inv] get_puts [OF clear_inv] by (simp add: deltas_clear get_clear split: option.split)

end

text \<open>The two stores of the buffer keep it in step: a variable is known, and has both times, exactly
  when one of the stores has it.\<close>

definition ib_inv :: "infobuffer \<Rightarrow> bool" where
  "ib_inv ib \<longleftrightarrow> dom (tmap ib) = dom (smap ib) \<union> dom (dmap ib) \<and> dom (mtmap ib) = dom (tmap ib) \<and>
     dom (vsmap ib) \<subseteq> dom (smap ib) \<and> dom (vdmap ib) \<subseteq> dom (dmap ib)"

lemma ib_inv_new: "ib_inv InfoBuffer_new"
  by (simp add: ib_inv_def InfoBuffer_new_def)

lemma ib_inv_set:
  "ib_inv ib \<Longrightarrow> ib_inv (setValue_s ib var s t)" "ib_inv ib \<Longrightarrow> ib_inv (setValue_d ib var d t)"
  by (auto simp: ib_inv_def setValue_s_def setValue_d_def pushed_def Let_def)

definition put_s :: "infobuffer \<Rightarrow> string \<Rightarrow> string \<Rightarrow> infobuffer" where
  "put_s ib var val = setValue_s ib var val 0"

definition put_d :: "infobuffer \<Rightarrow> string \<Rightarrow> real \<Rightarrow> infobuffer" where
  "put_d ib var val = setValue_d ib var val 0"

definition get_s :: "infobuffer \<Rightarrow> string \<Rightarrow> string option" where
  "get_s ib var = (case sQuery ib var of (v, ok) \<Rightarrow> if ok then Some v else None)"

definition get_d :: "infobuffer \<Rightarrow> string \<Rightarrow> real option" where
  "get_d ib var = (case dQuery ib var of (v, ok) \<Rightarrow> if ok then Some v else None)"

lemma get_s_smap: "get_s ib = smap ib" and get_d_dmap: "get_d ib = dmap ib"
  by (auto simp: get_s_def get_d_def sQuery_def dQuery_def fun_eq_iff split: option.split)

interpretation ss: value_store ib_inv put_s get_s "\<lambda>ib var. fst (sQueryDeltas ib var)" clearDeltaVectors
  by unfold_locales
    (auto simp: get_s_smap put_s_def ib_inv_set setValue_s_def clearDeltaVectors_def sQueryDeltas_def pushed_def Let_def
       ib_inv_def split: option.split)

interpretation ds: value_store ib_inv put_d get_d "\<lambda>ib var. fst (dQueryDeltas ib var)" clearDeltaVectors
  by unfold_locales
    (auto simp: get_d_dmap put_d_def ib_inv_set setValue_d_def clearDeltaVectors_def dQueryDeltas_def pushed_def Let_def
       ib_inv_def split: option.split)

text \<open>C28: One round of updates after \<open>clearDeltaVectors\<close>: the deltas of a variable are the strings posted to
  it in this round, in order, and a query answers the last one, or the value of an earlier round.
  The buffer stays in step, so that what is posted is known.\<close>

theorem delta_round:
  assumes "ib_inv ib"
  shows "let ib' = foldl (\<lambda>ib (var, s). setValue_s ib var s 0) (clearDeltaVectors ib) posts in
    ib_inv ib' \<and>
    fst (sQueryDeltas ib' var) = map snd (filter (\<lambda>p. fst p = var) posts) \<and>
    sQuery ib' var = (case map_of (rev posts) var of Some s \<Rightarrow> (s, True) | None \<Rightarrow> sQuery ib var) \<and>
    isKnown ib' var = (var \<in> fst ` set posts \<or> isKnown ib var)"
proof -
  let ?ib = "foldl (\<lambda>ib (var, s). setValue_s ib var s 0) (clearDeltaVectors ib) posts"
  have p: "?ib = ss.puts (clearDeltaVectors ib) posts" by (simp add: ss.puts_def put_s_def)
  note r = ss.round [OF assms, of posts var, folded p]
  have i: "ib_inv ?ib" unfolding p by (rule ss.puts_inv [OF ss.clear_inv [OF assms]])
  have "sQuery ?ib var = (case map_of (rev posts) var of Some s \<Rightarrow> (s, True) | None \<Rightarrow> sQuery ib var)"
    using r by (auto simp: get_s_smap sQuery_def split: option.splits)
  moreover have "isKnown ?ib var \<longleftrightarrow> var \<in> fst ` set posts \<or> isKnown ib var"
  proof -
    have "tmap (foldl (\<lambda>ib (var, s). setValue_s ib var s 0) jb posts) var \<noteq> None \<longleftrightarrow>
        var \<in> fst ` set posts \<or> tmap jb var \<noteq> None" for jb
      by (induction posts rule: rev_induct) (auto simp: setValue_s_def Let_def)
    moreover have "isKnown jb v \<longleftrightarrow> tmap jb v \<noteq> None" for jb v by (simp add: isKnown_def split: option.split)
    ultimately have "isKnown ?ib var \<longleftrightarrow> var \<in> fst ` set posts \<or> isKnown (clearDeltaVectors ib) var" by metis
    then show ?thesis by (simp add: clearDeltaVectors_def isKnown_def)
  qed
  ultimately show ?thesis using i r unfolding Let_def by blast
qed

theorem delta_round_witness:
  "fst (sQueryDeltas (foldl (\<lambda>ib (var, s). setValue_s ib var s 0) (clearDeltaVectors InfoBuffer_new)
      [(''A'', ''x''), (''B'', ''y''), (''A'', ''z'')]) ''A'') = [''x'', ''z'']"
  using delta_round [OF ib_inv_new, of "[(''A'', ''x''), (''B'', ''y''), (''A'', ''z'')]" "''A''"]
  by (simp add: Let_def)

end
