(* ===== verification/Logic_Buffer.thy ===== *)
theory Logic_Buffer
  imports Parse_Node Info_Buffer
begin

text \<open>
  \<open>src/ivp/src/lib_logic/LogicBuffer.cpp\<close>, conditions checked against a buffer of values, and
  \<open>ConditionalParam.cpp\<close>, a parameter with a condition behind it. The buffer pointer is made by
  the constructor and never null. What goes to the console is not modelled.
\<close>

section \<open>The buffer of conditions\<close>

record logic_buffer =
  m_logic_conditions :: "logic_condition list"
  m_info_buffer :: infobuffer

definition LogicBuffer_new :: logic_buffer where
  "LogicBuffer_new = \<lparr>m_logic_conditions = [], m_info_buffer = InfoBuffer_new\<rparr>"

definition addNewCondition :: "string \<Rightarrow> logic_buffer \<Rightarrow> bool \<times> logic_buffer" where
  "addNewCondition str_value lb =
     (let (ok, new_condition) = setCondition str_value LogicCondition_new
      in (ok, if ok then lb\<lparr>m_logic_conditions := m_logic_conditions lb @ [LogicCondition_copy new_condition]\<rparr> else lb))"

definition updateInfoBuffer_s :: "string \<Rightarrow> string \<Rightarrow> logic_buffer \<Rightarrow> logic_buffer" where
  "updateInfoBuffer_s moosvar value lb = lb\<lparr>m_info_buffer := setValue_s (m_info_buffer lb) moosvar value 0\<rparr>"

definition updateInfoBuffer_d :: "string \<Rightarrow> real \<Rightarrow> logic_buffer \<Rightarrow> logic_buffer" where
  "updateInfoBuffer_d moosvar value lb = lb\<lparr>m_info_buffer := setValue_d (m_info_buffer lb) moosvar value 0\<rparr>"

definition getAllVars :: "logic_buffer \<Rightarrow> string list" where
  "getAllVars lb =
     removeDuplicates (foldl (\<lambda>all_vars lc. mergeVectors all_vars (getVarNames lc)) [] (m_logic_conditions lb))"

text \<open>One variable in phase 2: its string, then its double, to all conditions.\<close>

definition propagate :: "infobuffer \<Rightarrow> logic_condition list \<Rightarrow> string \<Rightarrow> logic_condition list" where
  "propagate ib conds varname =
     (let (s_result, ok_s) = sQuery ib varname; (d_result, ok_d) = dQuery ib varname;
          conds = (if ok_s then map (setVarVal_s varname s_result) conds else conds)
      in if ok_d then map (setVarVal_d varname d_result) conds else conds)"

text \<open>Phase 3 stops at the first condition that is not satisfied.\<close>

fun all_satisfied :: "logic_condition list \<Rightarrow> bool option" where
  "all_satisfied [] = Some True"
| "all_satisfied (c # cs) = eval c \<bind> (\<lambda>satisfied. if \<not> satisfied then Some False else all_satisfied cs)"

definition checkConditions :: "logic_buffer \<Rightarrow> (bool \<times> logic_buffer) option" where
  "checkConditions lb =
     (let all_vars = removeDuplicates (foldl (\<lambda>all_vars lc. mergeVectors all_vars (getVarNames lc)) [] (m_logic_conditions lb));
          conds = foldl (propagate (m_info_buffer lb)) (m_logic_conditions lb) all_vars
      in all_satisfied conds \<bind> (\<lambda>r. Some (r, lb\<lparr>m_logic_conditions := conds\<rparr>)))"

section \<open>Conditional parameters\<close>

record conditional_param =
  m_condition :: logic_condition
  m_parameter :: string
  m_param_val :: string
  m_comment_header :: string
  cp_ok :: bool

definition ConditionalParam_new :: conditional_param where
  "ConditionalParam_new = \<lparr>m_condition = LogicCondition_new, m_parameter = '''', m_param_val = '''',
     m_comment_header = ''//'', cp_ok = False\<rparr>"

text \<open>\<open>assign(str, from, count)\<close> takes what there is.\<close>

definition substr :: "string \<Rightarrow> nat \<Rightarrow> nat \<Rightarrow> string" where
  "substr str from n = take n (drop from str)"

definition setFromString :: "string \<Rightarrow> conditional_param \<Rightarrow> (bool \<times> conditional_param) option" where
  "setFromString giv_str cp =
     (let str = stripBlankEnds (if m_comment_header cp = '''' then giv_str else stripComment giv_str (m_comment_header cp));
          len = length str
      in if len = 0 then None
         else if str ! (len - 1) \<noteq> CHR '']'' then Some (False, cp)
         else case last_bracket str of None \<Rightarrow> Some (False, cp)
           | Some pos \<Rightarrow>
               if pos = 0 then Some (False, cp)
               else let param_str = stripBlankEnds (substr str 0 (pos - 1)); plen = length param_str
                    in case chr_find param_str (CHR ''='') of None \<Rightarrow> Some (False, cp)
                      | Some eqpos \<Rightarrow>
                          if eqpos = 0 \<or> eqpos = len - 1 then Some (False, cp)
                          else Some (True, cp\<lparr>m_parameter := stripBlankEnds (substr param_str 0 (eqpos - 1)),
                                 m_param_val := stripBlankEnds (substr param_str (eqpos + 1) (plen - 1)), cp_ok := True\<rparr>))"

definition setFromString2 :: "string \<Rightarrow> string \<Rightarrow> conditional_param \<Rightarrow> (bool \<times> conditional_param) option" where
  "setFromString2 param_str value_str cp =
     (let str = stripBlankEnds (if m_comment_header cp = '''' then value_str else stripComment value_str (m_comment_header cp));
          len = length str
      in if len = 0 then None
         else if str ! (len - 1) \<noteq> CHR '']'' then Some (False, cp)
         else case last_bracket str of None \<Rightarrow> Some (False, cp)
           | Some pos \<Rightarrow>
               if pos = 0 then Some (False, cp)
               else Some (True, cp\<lparr>m_parameter := stripBlankEnds param_str,
                      m_param_val := stripBlankEnds (substr str 0 (pos - 1)),
                      m_condition := snd (setCondition (substr str (pos + 1) (len - 2)) (m_condition cp)),
                      cp_ok := True\<rparr>))"

section \<open>Checking the conditions\<close>

text \<open>What a variable is worth after the values of a buffer have been propagated.\<close>

definition learned :: "infobuffer \<Rightarrow> string \<Rightarrow> side_value \<Rightarrow> side_value" where
  "learned ib v x =
     (let x = (case smap ib v of Some s \<Rightarrow> learn_s s x | None \<Rightarrow> x)
      in case dmap ib v of Some d \<Rightarrow> learn_d d x | None \<Rightarrow> x)"

definition logic_ok :: "(string \<Rightarrow> side_value) \<Rightarrow> logic_condition \<Rightarrow> bool" where
  "logic_ok env lc \<longleftrightarrow> wf_cond 0 (m_node lc) \<and> valued env (m_node lc)"

text \<open>The value of a list of tests with an early exit.\<close>

fun first_fails :: "bool option list \<Rightarrow> bool option" where
  "first_fails [] = Some True"
| "first_fails (x # xs) = x \<bind> (\<lambda>b. if \<not> b then Some False else first_fails xs)"

definition condition_of :: "logic_condition \<Rightarrow> cond" where
  "condition_of lc = cond_of (m_node lc)"

lemma logic_ok_node: "logic_ok env lc \<Longrightarrow> m_node lc \<noteq> Null"
  using wf_cond_Null by (auto simp: logic_ok_def)

lemma all_satisfied_holds:
  "\<forall>c\<in>set cs. logic_ok env c \<Longrightarrow> all_satisfied cs = first_fails (map (\<lambda>c. holds env (condition_of c)) cs)"
proof (induction cs)
  case (Cons c cs)
  have "eval c = holds env (condition_of c)"
    using Cons.prems logic_ok_node recursiveEvaluate_holds by (auto simp: eval_def condition_of_def logic_ok_def)
  with Cons show ?case by (auto split: Option.bind_splits)
qed simp

definition step_cond :: "infobuffer \<Rightarrow> string \<Rightarrow> logic_condition \<Rightarrow> logic_condition" where
  "step_cond ib v c =
     (let c = (case smap ib v of Some s \<Rightarrow> setVarVal_s v s c | None \<Rightarrow> c)
      in case dmap ib v of Some d \<Rightarrow> setVarVal_d v d c | None \<Rightarrow> c)"

lemma propagate_map: "propagate ib cs v = map (step_cond ib v) cs"
proof -
  have "step_cond ib v = (\<lambda>c. let c = (case smap ib v of Some s \<Rightarrow> setVarVal_s v s c | None \<Rightarrow> c)
      in case dmap ib v of Some d \<Rightarrow> setVarVal_d v d c | None \<Rightarrow> c)" by (simp add: fun_eq_iff step_cond_def)
  then show ?thesis by (auto simp: propagate_def sQuery_def dQuery_def split: option.split)
qed

lemma setVarVal_logic_ok:
  assumes "logic_ok env c"
  shows "logic_ok (env(v := learn_s s (env v))) (setVarVal_s v s c) \<and> condition_of (setVarVal_s v s c) = condition_of c"
    "logic_ok (env(v := learn_d d (env v))) (setVarVal_d v d c) \<and> condition_of (setVarVal_d v d c) = condition_of c"
proof -
  have n: "m_node c \<noteq> Null" using logic_ok_node [OF assms] .
  have w: "wf_cond 0 (m_node c)" "valued env (m_node c)" using assms by (simp_all add: logic_ok_def)
  show "logic_ok (env(v := learn_s s (env v))) (setVarVal_s v s c) \<and> condition_of (setVarVal_s v s c) = condition_of c"
    using setVarVal_wf(1) [OF w(1)] setVarVal_valued(1) [OF w] n by (simp add: logic_ok_def setVarVal_s_def condition_of_def)
  show "logic_ok (env(v := learn_d d (env v))) (setVarVal_d v d c) \<and> condition_of (setVarVal_d v d c) = condition_of c"
    using setVarVal_wf(2) [OF w(1)] setVarVal_valued(2) [OF w] n by (simp add: logic_ok_def setVarVal_d_def condition_of_def)
qed

lemma step_cond_ok:
  assumes "logic_ok env c"
  shows "logic_ok (env(v := learned ib v (env v))) (step_cond ib v c) \<and> condition_of (step_cond ib v c) = condition_of c"
proof -
  define c1 where "c1 = (case smap ib v of Some s \<Rightarrow> setVarVal_s v s c | None \<Rightarrow> c)"
  define e1 where "e1 = env(v := (case smap ib v of Some s \<Rightarrow> learn_s s (env v) | None \<Rightarrow> env v))"
  have 1: "logic_ok e1 c1 \<and> condition_of c1 = condition_of c"
    using assms setVarVal_logic_ok(1) [OF assms, of v] by (cases "smap ib v") (simp_all add: c1_def e1_def)
  have "step_cond ib v c = (case dmap ib v of Some d \<Rightarrow> setVarVal_d v d c1 | None \<Rightarrow> c1)"
    "env(v := learned ib v (env v)) = e1(v := (case dmap ib v of Some d \<Rightarrow> learn_d d (e1 v) | None \<Rightarrow> e1 v))"
    by (cases "smap ib v"; cases "dmap ib v"; simp add: step_cond_def c1_def e1_def learned_def Let_def)+
  then show ?thesis using 1 setVarVal_logic_ok(2) [of e1 c1 v] by (cases "dmap ib v") simp_all
qed

lemma steps_ok:
  "logic_ok env c \<Longrightarrow> distinct vs \<Longrightarrow>
   logic_ok (\<lambda>v. if v \<in> set vs then learned ib v (env v) else env v) (foldl (\<lambda>c v. step_cond ib v c) c vs) \<and>
   condition_of (foldl (\<lambda>c v. step_cond ib v c) c vs) = condition_of c"
proof (induction vs rule: rev_induct)
  case (snoc v vs)
  let ?env = "\<lambda>v. if v \<in> set vs then learned ib v (env v) else env v"
  let ?c = "foldl (\<lambda>c v. step_cond ib v c) c vs"
  have "logic_ok ?env ?c \<and> condition_of ?c = condition_of c" using snoc by simp
  with step_cond_ok [of ?env ?c v ib] have s: "logic_ok (?env(v := learned ib v (?env v))) (step_cond ib v ?c) \<and>
      condition_of (step_cond ib v ?c) = condition_of c" by simp
  have "?env(v := learned ib v (?env v)) = (\<lambda>w. if w \<in> set (vs @ [v]) then learned ib w (env w) else env w)"
    using snoc.prems(2) by (auto simp: fun_eq_iff)
  with s show ?case by simp
qed simp

lemma foldl_propagate: "foldl (propagate ib) cs vs = map (\<lambda>c. foldl (\<lambda>c v. step_cond ib v c) c vs) cs"
  by (induction vs rule: rev_induct) (simp_all add: propagate_map)

lemma step_cond_names:
  "m_node c \<noteq> Null \<Longrightarrow> m_node (step_cond ib v c) \<noteq> Null \<and> var_names (m_node (step_cond ib v c)) = var_names (m_node c)"
proof -
  have n: "var_names (recursiveSetVarVal_s v s n) = var_names n" "var_names (recursiveSetVarVal_d v d n) = var_names n" for v s d n
    by (induction n) auto
  show "m_node c \<noteq> Null \<Longrightarrow> m_node (step_cond ib v c) \<noteq> Null \<and> var_names (m_node (step_cond ib v c)) = var_names (m_node c)"
    by (auto simp: step_cond_def setVarVal_s_def setVarVal_d_def Let_def n split: option.split)
qed

lemma set_all_vars:
  "set (foldl (\<lambda>all_vars lc. mergeVectors all_vars (getVarNames lc)) vs cs) = set vs \<union> (\<Union>c\<in>set cs. var_names (m_node c))"
  by (induction cs arbitrary: vs) (auto simp: mergeVectors_append getVarNames_def recursiveGetVarNames_names)

text \<open>After the values of all variables of a condition have been passed to it.\<close>

lemma all_learned:
  assumes "logic_ok env c" "distinct vs" "var_names (m_node c) \<subseteq> set vs"
  shows "logic_ok (\<lambda>v. learned ib v (env v)) (foldl (\<lambda>c v. step_cond ib v c) c vs) \<and>
    condition_of (foldl (\<lambda>c v. step_cond ib v c) c vs) = condition_of c"
proof -
  define c' where "c' = foldl (\<lambda>c v. step_cond ib v c) c vs"
  let ?e = "\<lambda>v. if v \<in> set vs then learned ib v (env v) else env v"
  have names: "m_node c \<noteq> Null \<Longrightarrow> m_node (foldl (\<lambda>c v. step_cond ib v c) c vs) \<noteq> Null \<and>
      var_names (m_node (foldl (\<lambda>c v. step_cond ib v c) c vs)) = var_names (m_node c)" for vs c
    by (induction vs rule: rev_induct) (auto simp: step_cond_names)
  have s: "logic_ok ?e c'" "condition_of c' = condition_of c" using steps_ok [OF assms(1,2)] by (simp_all add: c'_def)
  have "var_names (m_node c') \<subseteq> set vs" using names [OF logic_ok_node [OF assms(1)]] assms(3) by (auto simp: c'_def)
  then have "\<forall>v\<in>var_names (m_node c'). ?e v = learned ib v (env v)" by auto
  from valued_cong [OF _ this] s(1) have "logic_ok (\<lambda>v. learned ib v (env v)) c'" by (simp add: logic_ok_def)
  with s(2) show ?thesis by (simp add: c'_def)
qed

lemma checkConditions_ok:
  assumes "\<forall>c\<in>set (m_logic_conditions lb). logic_ok env c"
  defines "env' \<equiv> \<lambda>v. learned (m_info_buffer lb) v (env v)"
  obtains cs where "map condition_of cs = map condition_of (m_logic_conditions lb)" "\<forall>c\<in>set cs. logic_ok env' c"
    "checkConditions lb = map_option (\<lambda>r. (r, lb\<lparr>m_logic_conditions := cs\<rparr>))
       (first_fails (map (\<lambda>c. holds env' (condition_of c)) (m_logic_conditions lb)))"
proof -
  let ?vs = "removeDuplicates (foldl (\<lambda>all_vars lc. mergeVectors all_vars (getVarNames lc)) [] (m_logic_conditions lb))"
  let ?go = "\<lambda>c. foldl (\<lambda>c v. step_cond (m_info_buffer lb) v c) c ?vs"
  let ?cs = "map ?go (m_logic_conditions lb)"
  have vs: "distinct ?vs" "set ?vs = (\<Union>c\<in>set (m_logic_conditions lb). var_names (m_node c))"
    using set_all_vars [of "[]"] by (simp_all add: removeDuplicates_facts)
  have one: "logic_ok env' (?go c) \<and> condition_of (?go c) = condition_of c" if c: "c \<in> set (m_logic_conditions lb)" for c
    using all_learned [of env c ?vs "m_info_buffer lb"] assms(1) c vs by (auto simp: env'_def)
  have m: "map condition_of ?cs = map condition_of (m_logic_conditions lb)" "\<forall>c\<in>set ?cs. logic_ok env' c"
    using one by simp_all
  have "map (\<lambda>c. holds env' (condition_of c)) ?cs = map (\<lambda>c. holds env' (condition_of c)) (m_logic_conditions lb)"
    using one by simp
  then have "all_satisfied ?cs = first_fails (map (\<lambda>c. holds env' (condition_of c)) (m_logic_conditions lb))"
    using all_satisfied_holds [OF m(2)] by (simp only:)
  then have "checkConditions lb = map_option (\<lambda>r. (r, lb\<lparr>m_logic_conditions := ?cs\<rparr>))
       (first_fails (map (\<lambda>c. holds env' (condition_of c)) (m_logic_conditions lb)))"
    by (cases "first_fails (map (\<lambda>c. holds env' (condition_of c)) (m_logic_conditions lb))")
      (simp_all add: checkConditions_def Let_def foldl_propagate del: map_map)
  with m show thesis using that by blast
qed

lemma setCondition_ok:
  "if fst (setCondition s lc) then logic_ok (\<lambda>_. Unset) (snd (setCondition s lc)) else m_node (snd (setCondition s lc)) = Null"
  using setCondition_wf [of s lc] recursiveParse_shape [of s "m_allow_dblequals lc"] fresh_valued
  by (auto simp: setCondition_def logic_ok_def Let_def split: prod.splits)

lemma node_copy_id [simp]: "node_copy n = n"
  by (induction n) auto

section \<open>Properties\<close>

text \<open>C21: A condition is accepted as a well-formed tree without values, in which evaluation comes to no leaf,
  and the text of it is kept; a rejected one leaves no tree, and nothing is added to the buffer.\<close>

theorem accepted_conditions:
  "(if fst (setCondition s lc)
    then wf_cond 0 (m_node (snd (setCondition s lc))) \<and> valued (\<lambda>_. Unset) (m_node (snd (setCondition s lc)))
    else m_node (snd (setCondition s lc)) = Null \<and> eval (snd (setCondition s lc)) = Some False) \<and>
   (case addNewCondition s lb of (ok, lb') \<Rightarrow> m_info_buffer lb' = m_info_buffer lb \<and>
      m_logic_conditions lb' = m_logic_conditions lb @ (if ok then [snd (setCondition s LogicCondition_new)] else []))"
proof -
  have "LogicCondition_copy (snd (setCondition s LogicCondition_new)) = snd (setCondition s LogicCondition_new)"
    by (cases "snd (setCondition s LogicCondition_new)")
      (auto simp: LogicCondition_copy_def setCondition_def LogicCondition_new_def Let_def split: prod.splits if_splits)
  then show ?thesis using setCondition_ok [of s lc]
    by (auto simp: logic_ok_def eval_def addNewCondition_def Let_def split: prod.splits if_splits)
qed

text \<open>C4: \<open>checkConditions\<close> computes the truth of all conditions, up to the first that fails, under what the
  buffer has for the variables: a string or a double, where a variable keeps the type it first had
  and prefers a string when both are new. The conditions stay what they were.\<close>

theorem checkConditions_meaning:
  assumes "\<forall>c\<in>set (m_logic_conditions lb). wf_cond 0 (m_node c) \<and> valued env (m_node c)"
  shows "\<exists>cs env'. checkConditions lb = map_option (\<lambda>r. (r, lb\<lparr>m_logic_conditions := cs\<rparr>))
       (first_fails (map (\<lambda>c. holds env' (cond_of (m_node c))) (m_logic_conditions lb))) \<and>
     (\<forall>v. env' v = (case (env v, smap (m_info_buffer lb) v, dmap (m_info_buffer lb) v) of
         (Num x, _, None) \<Rightarrow> Num x | (Num x, _, Some d) \<Rightarrow> Num d
       | (Str t, None, _) \<Rightarrow> Str t | (Str t, Some s, _) \<Rightarrow> Str s
       | (Unset, Some s, _) \<Rightarrow> Str s | (Unset, None, Some d) \<Rightarrow> Num d | (Unset, None, None) \<Rightarrow> Unset)) \<and>
     map (\<lambda>c. cond_of (m_node c)) cs = map (\<lambda>c. cond_of (m_node c)) (m_logic_conditions lb) \<and>
     (\<forall>c\<in>set cs. wf_cond 0 (m_node c) \<and> valued env' (m_node c))"
proof -
  have ok: "\<forall>c\<in>set (m_logic_conditions lb). logic_ok env c" using assms by (simp add: logic_ok_def)
  obtain cs where "map condition_of cs = map condition_of (m_logic_conditions lb)"
    "\<forall>c\<in>set cs. logic_ok (\<lambda>v. learned (m_info_buffer lb) v (env v)) c"
    "checkConditions lb = map_option (\<lambda>r. (r, lb\<lparr>m_logic_conditions := cs\<rparr>))
       (first_fails (map (\<lambda>c. holds (\<lambda>v. learned (m_info_buffer lb) v (env v)) (condition_of c)) (m_logic_conditions lb)))"
    by (rule checkConditions_ok [OF ok])
  moreover have "learned ib v x = (case (x, smap ib v, dmap ib v) of
         (Num x, _, None) \<Rightarrow> Num x | (Num x, _, Some d) \<Rightarrow> Num d
       | (Str t, None, _) \<Rightarrow> Str t | (Str t, Some s, _) \<Rightarrow> Str s
       | (Unset, Some s, _) \<Rightarrow> Str s | (Unset, None, Some d) \<Rightarrow> Num d | (Unset, None, None) \<Rightarrow> Unset)" for ib v x
    by (auto simp: learned_def learn_s_def learn_d_def split: option.split side_value.split)
  ultimately show ?thesis
    by (intro exI [of _ cs] exI [of _ "\<lambda>v. learned (m_info_buffer lb) v (env v)"])
      (simp add: logic_ok_def condition_of_def [abs_def])
qed

definition ex_logic :: logic_buffer where
  "ex_logic = updateInfoBuffer_s ''M'' ''go'' (updateInfoBuffer_d ''S'' 2
     (snd (addNewCondition ''(M=go) and (S>1)'' LogicBuffer_new)))"

theorem checkConditions_meaning_witness:
  "\<exists>lb'. checkConditions ex_logic = Some (True, lb')"
proof -
  let ?n = "Node ''(M=go) and (S>1)'' ''and''
      (Node ''(M=go)'' ''='' (Node ''M'' ''variable'' Null Null '''' 0 False False)
        (Node ''go'' ''string'' Null Null '''' 0 False False) '''' 0 False False)
      (Node ''(S>1)'' ''>'' (Node ''S'' ''variable'' Null Null '''' 0 False False)
        (Node ''1'' ''double'' Null Null '''' 0 False False) '''' 0 False False) '''' 0 False False"
  have "setCondition ''(M=go) and (S>1)'' LogicCondition_new = (True, \<lparr>m_node = ?n, m_allow_dblequals = True\<rparr>)"
    by code_simp
  then have "addNewCondition ''(M=go) and (S>1)'' LogicBuffer_new =
      (True, LogicBuffer_new\<lparr>m_logic_conditions := [\<lparr>m_node = ?n, m_allow_dblequals = True\<rparr>]\<rparr>)"
    by (simp add: addNewCondition_def LogicCondition_copy_def LogicBuffer_new_def del: node_copy.simps)
  then have c: "m_logic_conditions ex_logic = [\<lparr>m_node = ?n, m_allow_dblequals = True\<rparr>]"
    by (simp add: ex_logic_def updateInfoBuffer_s_def updateInfoBuffer_d_def)
  have s: "smap (m_info_buffer ex_logic) ''M'' = Some ''go''" "smap (m_info_buffer ex_logic) ''S'' = None"
    "dmap (m_info_buffer ex_logic) ''S'' = Some 2"
    by (simp_all add: ex_logic_def updateInfoBuffer_s_def updateInfoBuffer_d_def setValue_s_def setValue_d_def
        Let_def addNewCondition_def LogicBuffer_new_def InfoBuffer_new_def case_prod_beta)
  have "\<forall>c\<in>set (m_logic_conditions ex_logic). wf_cond 0 (m_node c) \<and> valued (\<lambda>_. Unset) (m_node c)"
    unfolding c by (simp add: comparisons_def left_value_def)
  from checkConditions_meaning [OF this] obtain cs env' where
    e: "checkConditions ex_logic = map_option (\<lambda>r. (r, ex_logic\<lparr>m_logic_conditions := cs\<rparr>))
       (first_fails (map (\<lambda>c. holds env' (cond_of (m_node c))) (m_logic_conditions ex_logic)))"
    "\<forall>v. env' v = (case (Unset, smap (m_info_buffer ex_logic) v, dmap (m_info_buffer ex_logic) v) of
         (Num x, _, None) \<Rightarrow> Num x | (Num x, _, Some d) \<Rightarrow> Num d
       | (Str t, None, _) \<Rightarrow> Str t | (Str t, Some s, _) \<Rightarrow> Str s
       | (Unset, Some s, _) \<Rightarrow> Str s | (Unset, None, Some d) \<Rightarrow> Num d | (Unset, None, None) \<Rightarrow> Unset)" by blast
  have v: "env' ''M'' = Str ''go''" "env' ''S'' = Num 2" using e(2) s by simp_all
  have "evaluate_ss ''='' ''go'' ''go'' = Some True" "atof ''1'' = 1" by code_simp+
  then have "holds env' (cond_of ?n) = Some True" using v
    by (simp add: operand_of_def evaluate_def evaluate_dd_def)
  then show ?thesis using e(1) unfolding c by simp
qed

text \<open>Conditions that are not judged as they read. A blank inside doubled parentheses makes
  \<open>pruneParens\<close> cut off the wrong characters, and the condition is rejected; a comparison of a
  comparison is accepted and never holds; and \<open>==\<close>, when it is not allowed, still is inside a
  negation.\<close>

theorem misjudged_conditions:
  "\<not> fst (setCondition ''( (A=1))'' LogicCondition_new) \<and> fst (setCondition ''((A=1))'' LogicCondition_new) \<and>
   fst (setCondition ''A=1=B'' LogicCondition_new) \<and>
   holds env (cond_of (m_node (snd (setCondition ''A=1=B'' LogicCondition_new)))) = Some False \<and>
   \<not> fst (setCondition ''A==1'' (setAllowDoubleEquals False LogicCondition_new)) \<and>
   fst (setCondition ''!(A==1)'' (setAllowDoubleEquals False LogicCondition_new))"
proof -
  have ab: "setCondition ''A=1=B'' LogicCondition_new = (True, \<lparr>m_node = Node ''A=1=B'' ''=''
      (Node ''A'' ''variable'' Null Null '''' 0 False False)
      (Node ''1=B'' ''='' (Node ''1'' ''variable'' Null Null '''' 0 False False)
        (Node ''B'' ''string'' Null Null '''' 0 False False) '''' 0 False False) '''' 0 False False,
      m_allow_dblequals = True\<rparr>)" by code_simp
  moreover have "evaluate ''='' x Unset = Some False" for x by (cases x) (simp_all add: evaluate_def)
  ultimately have "fst (setCondition ''A=1=B'' LogicCondition_new)"
    "holds env (cond_of (m_node (snd (setCondition ''A=1=B'' LogicCondition_new)))) = Some False"
    by (simp_all add: operand_of_def)
  moreover have "\<not> fst (setCondition ''( (A=1))'' LogicCondition_new)" by code_simp
  moreover have "fst (setCondition ''((A=1))'' LogicCondition_new)" by code_simp
  moreover have "\<not> fst (setCondition ''A==1'' (setAllowDoubleEquals False LogicCondition_new))" by code_simp
  moreover have "fst (setCondition ''!(A==1)'' (setAllowDoubleEquals False LogicCondition_new))" by code_simp
  ultimately show ?thesis by blast
qed

text \<open>A conditional parameter keeps the closing bracket in its condition, and drops the character before
  the opening one and, in the other form, before the equals sign, where no condition is set at all.\<close>

theorem conditional_param_cuts:
  "\<exists>a b. setFromString2 ''speed'' ''1.5[MODE = go]'' ConditionalParam_new = Some (True, a) \<and>
     m_param_val a = ''1.'' \<and> getRawCondition (m_condition a) = ''MODE = go]'' \<and>
   setFromString ''speed=1.5 [MODE = go]'' ConditionalParam_new = Some (True, b) \<and>
     m_parameter b = ''spee'' \<and> m_param_val b = ''1.5'' \<and> m_node (m_condition b) = Null"
proof -
  let ?n = "Node ''MODE = go]'' ''='' (Node ''MODE'' ''variable'' Null Null '''' 0 False False)
     (Node ''go]'' ''string'' Null Null '''' 0 False False) '''' 0 False False"
  have "setFromString2 ''speed'' ''1.5[MODE = go]'' ConditionalParam_new =
      Some (True, \<lparr>m_condition = \<lparr>m_node = ?n, m_allow_dblequals = True\<rparr>, m_parameter = ''speed'',
        m_param_val = ''1.'', m_comment_header = ''//'', cp_ok = True\<rparr>)" by code_simp
  moreover have "setFromString ''speed=1.5 [MODE = go]'' ConditionalParam_new =
      Some (True, \<lparr>m_condition = \<lparr>m_node = Null, m_allow_dblequals = True\<rparr>, m_parameter = ''spee'',
        m_param_val = ''1.5'', m_comment_header = ''//'', cp_ok = True\<rparr>)" by code_simp
  ultimately show ?thesis by (simp add: getRawCondition_def)
qed

text \<open>\<open>strFieldMatch\<close> with a single field on the short side finds it among the fields of the other side,
  up to blanks; but three fields do not match themselves, since the index runs ahead by 1, 2, ...,
  and a failed start is not taken back.\<close>

theorem strFieldMatch_fields:
  assumes "parseString str2 sep = [f]" "strContains str1 str2 \<or> strContains str2 str1" "parseString str1 sep \<noteq> []"
  shows "strFieldMatch str1 str2 sep = (stripBlankEnds f \<in> stripBlankEnds ` set (parseString str1 sep)) \<and>
    \<not> strFieldMatch ''a:b:c'' ''a:b:c'' (CHR '':'') \<and> \<not> strFieldMatch ''a:b'' ''a:a:b'' (CHR '':'')"
proof -
  have loop: "field_loop [g] long j = (g \<in> set (drop j long))" for g long j
  proof (induction "length long - j" arbitrary: j)
    case 0
    then show ?case by (subst field_loop.simps) simp
  next
    case (Suc n)
    then have j: "j < length long" by simp
    have "field_loop [g] long (j + 1) = (g \<in> set (drop (j + 1) long))" using Suc by simp
    then show ?case using j by (subst field_loop.simps) (auto simp: Cons_nth_drop_Suc [symmetric])
  qed
  have "strFieldMatch str1 str2 sep = field_loop [stripBlankEnds f] (map stripBlankEnds (parseString str1 sep)) 0"
    using assms by (cases "parseString str1 sep") (auto simp: strFieldMatch_def)
  moreover have "\<not> strFieldMatch ''a:b:c'' ''a:b:c'' (CHR '':'')" by code_simp
  moreover have "\<not> strFieldMatch ''a:b'' ''a:a:b'' (CHR '':'')" by code_simp
  ultimately show ?thesis by (simp add: loop)
qed

theorem strFieldMatch_fields_witness:
  "strFieldMatch ''alpha:bravo:charlie'' ''charlie'' (CHR '':'') \<and>
    \<not> strFieldMatch ''a:b:c'' ''a:b:c'' (CHR '':'') \<and> \<not> strFieldMatch ''a:b'' ''a:a:b'' (CHR '':'')"
proof -
  have "parseString ''charlie'' (CHR '':'') = [''charlie'']" "strContains ''alpha:bravo:charlie'' ''charlie''"
    "parseString ''alpha:bravo:charlie'' (CHR '':'') = [''alpha'', ''bravo'', ''charlie'']" by code_simp+
  with strFieldMatch_fields [of "''charlie''" "CHR '':''" "''charlie''" "''alpha:bravo:charlie''"] show ?thesis by simp
qed

end
