(* ===== verification/Var_Data_Pair.thy ===== *)
theory Var_Data_Pair
  imports MB_Values
begin

text \<open>
  \<open>VarDataPair\<close> (\<open>src/ivp/src/lib_mbutil/VarDataPair.h\<close>, \<open>VarDataPair.cpp\<close>): a variable with a string or
  a number for it, the unit of everything the helm posts. The constructor with a hint leaves
  \<open>m_is_string\<close> unset when the hint is not "auto", and the test for quotes may read past the end of its
  argument; both are \<open>None\<close>.
\<close>

record var_data_pair =
  m_var :: string
  m_sdata :: string
  m_ddata :: real
  m_is_string :: bool
  m_is_quoted :: bool
  m_key :: string
  m_ptype :: string

definition VarDataPair_new :: var_data_pair where
  "VarDataPair_new = \<lparr>m_var = '''', m_sdata = '''', m_ddata = 0, m_is_string = False, m_is_quoted = False,
     m_key = '''', m_ptype = ''''\<rparr>"

definition VarDataPair_d :: "string \<Rightarrow> real \<Rightarrow> var_data_pair" where
  "VarDataPair_d var ddata = \<lparr>m_var = stripBlankEnds var, m_sdata = '''', m_ddata = ddata, m_is_string = False,
     m_is_quoted = False, m_key = '''', m_ptype = ''''\<rparr>"

definition VarDataPair_s :: "string \<Rightarrow> string \<Rightarrow> var_data_pair option" where
  "VarDataPair_s var sdata =
     isQuoted sdata \<bind> (\<lambda>quoted.
       Some \<lparr>m_var = stripBlankEnds var, m_sdata = stripBlankEnds sdata, m_ddata = 0, m_is_string = True,
         m_is_quoted = quoted, m_key = '''', m_ptype = ''''\<rparr>)"

definition VarDataPair_hint :: "string \<Rightarrow> string \<Rightarrow> string \<Rightarrow> var_data_pair option" where
  "VarDataPair_hint var sdata hint =
     (let p = VarDataPair_new\<lparr>m_var := stripBlankEnds var\<rparr>; data = stripBlankEnds sdata
      in if hint \<noteq> ''auto'' then None
         else if isNumber data True then Some (p\<lparr>m_ddata := atof data, m_is_string := False\<rparr>)
         else isQuoted data \<bind> (\<lambda>quoted.
           Some ((if quoted then p\<lparr>m_sdata := stripQuotes data, m_is_quoted := True\<rparr> else p\<lparr>m_sdata := data\<rparr>)
             \<lparr>m_is_string := True\<rparr>)))"

definition set_key :: "string \<Rightarrow> var_data_pair \<Rightarrow> var_data_pair" where
  "set_key s p = p\<lparr>m_key := s\<rparr>"

definition set_sdata :: "string \<Rightarrow> var_data_pair \<Rightarrow> var_data_pair" where
  "set_sdata s p = p\<lparr>m_sdata := s, m_is_string := True\<rparr>"

definition set_ddata :: "real \<Rightarrow> var_data_pair \<Rightarrow> var_data_pair" where
  "set_ddata v p = p\<lparr>m_ddata := v, m_is_string := False\<rparr>"

definition getPrintable :: "var_data_pair \<Rightarrow> string" where
  "getPrintable p =
     m_var p @ ''='' @
     (if m_is_string p
      then if isNumber (m_sdata p) True then [QUOTE] @ m_sdata p @ [QUOTE] else m_sdata p
      else dstringCompact (doubleToString (m_ddata p) 4))"

section \<open>Maps that are iterated\<close>

text \<open>A \<open>std::map\<close> whose order matters is the list of its pairs in the order of the keys.\<close>

fun put :: "string \<Rightarrow> 'v \<Rightarrow> (string \<times> 'v) list \<Rightarrow> (string \<times> 'v) list" where
  "put k v [] = [(k, v)]"
| "put k v ((l, w) # xs) = (if k < l then (k, v) # (l, w) # xs else if k = l then (k, v) # xs else (l, w) # put k v xs)"

lemma map_of_put [simp]: "map_of (put k v xs) = (map_of xs)(k \<mapsto> v)"
  by (induction k v xs rule: put.induct) (auto simp: fun_eq_iff)

lemma set_put: "set (map fst (put k v xs)) = insert k (set (map fst xs))"
  by (induction k v xs rule: put.induct) auto

lemma sorted_put: "sorted_wrt (<) (map fst xs) \<Longrightarrow> sorted_wrt (<) (map fst (put k v xs))"
proof (induction k v xs rule: put.induct)
  case (2 k v l w xs)
  have "set (map fst (put k v xs)) = insert k (set (map fst xs))" by (rule set_put)
  with 2 show ?case by (auto simp: not_less less_le)
qed simp

section \<open>Quotes\<close>

text \<open>A string that is already trimmed is tested inside its ends; so is one that does not begin with a quote.\<close>

lemma isQuoted_trimmed: "isQuoted (stripBlankEnds s) = Some (stripBlankEnds s \<noteq> '''' \<and> hd (stripBlankEnds s) = QUOTE \<and>
    last (stripBlankEnds s) = QUOTE)"
proof -
  let ?t = "stripBlankEnds s"
  have "NUL \<notin> set (trimmed (c_str s))" using set_trimmed NUL_notin_c_str by blast
  then have t: "stripBlankEnds ?t = ?t" by (simp add: stripBlankEnds_trimmed trimmed_idem)
  show ?thesis
  proof (cases ?t)
    case Nil
    have "stripBlankEnds '''' = ''''" by code_simp
    with Nil show ?thesis by (simp add: isQuoted_def enclosed_def char_at_def)
  next
    case (Cons c cs)
    then show ?thesis using t
      by (auto simp: isQuoted_def enclosed_def char_at_def last_conv_nth Let_def split: if_splits)
  qed
qed

lemma isQuoted_plain: "c \<noteq> QUOTE \<Longrightarrow> \<not> front_blank c \<Longrightarrow> isQuoted (c # s) = Some False"
proof -
  assume c: "c \<noteq> QUOTE" "\<not> front_blank c"
  have "char_at (stripBlankEnds (c # s)) 0 \<noteq> Some QUOTE"
  proof (cases "c = NUL")
    case True
    then have "stripBlankEnds (c # s) = ''''" by (simp add: stripBlankEnds_trimmed c_str_def trimmed_def)
    then show ?thesis by (simp add: char_at_def)
  next
    case False
    let ?r = "dropWhile back_blank (rev (c # c_str s))"
    have s: "stripBlankEnds (c # s) = rev ?r"
      using False c(2) by (simp add: stripBlankEnds_trimmed c_str_def trimmed_def)
    show ?thesis
    proof (cases ?r rule: rev_cases)
      case Nil
      then show ?thesis unfolding s by (simp add: char_at_def)
    next
      case (snoc r d)
      have "rev (c # c_str s) = takeWhile back_blank (rev (c # c_str s)) @ r @ [d]" using snoc takeWhile_dropWhile_id by metis
      then have "last (rev (c # c_str s)) = d" by (metis append_is_Nil_conv last_appendR last_snoc not_Cons_self2)
      then have "d = c" by simp
      then show ?thesis unfolding s using snoc c(1) by (simp add: char_at_def)
    qed
  qed
  then show ?thesis by (auto simp: isQuoted_def enclosed_def Let_def)
qed

lemma VarDataPair_hint_total: "\<exists>p. VarDataPair_hint var sdata ''auto'' = Some p \<and> m_var p = stripBlankEnds var"
  by (simp add: VarDataPair_hint_def isQuoted_trimmed Let_def VarDataPair_new_def)

end
