(* ===== verification/Mode_Set.thy ===== *)
theory Mode_Set
  imports Logic_Buffer Var_Data_Pair
begin

text \<open>
  \<open>src/ivp/src/lib_helmivp/ModeEntry.h\<close>, \<open>ModeEntry.cpp\<close>, \<open>ModeSet.h\<close> and \<open>ModeSet.cpp\<close>: declarations of modes
  ("set MODE = ACTIVE when these conditions hold, else INACTIVE"), evaluated in order in every round of the
  helm. The buffer of values belongs to the helm: it is an argument, \<open>None\<close> for the null pointer, and
  a result. What goes to the console is not modelled.
\<close>

section \<open>An entry\<close>

record mode_entry =
  m_mode_var :: string
  m_mode_val :: string
  m_mode_val_else :: string
  m_mode_prefix :: string
  me_logic_conditions :: "logic_condition list"
  m_modevar_conditions :: "bool list"

definition ModeEntry_new :: mode_entry where
  "ModeEntry_new = \<lparr>m_mode_var = '''', m_mode_val = '''', m_mode_val_else = '''', m_mode_prefix = '''',
     me_logic_conditions = [], m_modevar_conditions = []\<rparr>"

definition entry_setVarVal_s :: "string \<Rightarrow> string \<Rightarrow> mode_entry \<Rightarrow> mode_entry" where
  "entry_setVarVal_s var val e = e\<lparr>me_logic_conditions := map (setVarVal_s var val) (me_logic_conditions e)\<rparr>"

definition entry_setVarVal_d :: "string \<Rightarrow> real \<Rightarrow> mode_entry \<Rightarrow> mode_entry" where
  "entry_setVarVal_d var val e = e\<lparr>me_logic_conditions := map (setVarVal_d var val) (me_logic_conditions e)\<rparr>"

text \<open>The loops of \<open>evalConditions\<close> and \<open>evalModeVarConditions\<close>: a condition is not looked at when the result is false.\<close>

fun eval_loop :: "bool \<Rightarrow> (logic_condition \<times> bool) list \<Rightarrow> bool option" where
  "eval_loop result [] = Some result"
| "eval_loop result ((c, wanted) # cs) =
     (if wanted \<and> result then eval c \<bind> (\<lambda>b. eval_loop b cs) else eval_loop result cs)"

definition evalConditions :: "mode_entry \<Rightarrow> bool option" where
  "evalConditions e = eval_loop True (map (\<lambda>c. (c, True)) (me_logic_conditions e))"

definition evalModeVarConditions :: "mode_entry \<Rightarrow> bool option" where
  "evalModeVarConditions e = eval_loop True (zip (me_logic_conditions e) (m_modevar_conditions e))"

definition setHead :: "string \<Rightarrow> string \<Rightarrow> mode_entry \<Rightarrow> bool \<times> mode_entry" where
  "setHead mode_var mode_val e =
     (if strContains_chr mode_var (CHR '' '') \<or> strContains_chr mode_var TAB then (False, e)
      else (True, e\<lparr>m_mode_var := mode_var, m_mode_val := mode_val\<rparr>))"

text \<open>One pass of the loop that looks for the prefix.\<close>

definition prefix_step :: "mode_entry \<Rightarrow> nat \<Rightarrow> mode_entry" where
  "prefix_step e i =
     (let raw = getRawCondition (LogicCondition_copy (me_logic_conditions e ! i)); (left, raw) = biteString raw (CHR ''='');
          left = stripBlankEnds left; right = stripBlankEnds raw
      in if left = m_mode_var e \<and> right \<noteq> '''' \<and> m_mode_prefix e = ''''
         then e\<lparr>m_mode_prefix := right, m_modevar_conditions := (m_modevar_conditions e)[i := True]\<rparr> else e)"

definition addCondition :: "string \<Rightarrow> mode_entry \<Rightarrow> bool \<times> mode_entry" where
  "addCondition condition e =
     (let condition = stripBlankEnds condition;
          (ok_condition, logic_condition) = setCondition condition (setAllowDoubleEquals False LogicCondition_new)
      in if \<not> ok_condition then (False, e)
         else let e = e\<lparr>me_logic_conditions := me_logic_conditions e @ [LogicCondition_copy logic_condition],
                      m_modevar_conditions := m_modevar_conditions e @ [False]\<rparr>
              in (True, foldl prefix_step e [0..<length (me_logic_conditions e)]))"

definition setElseValue :: "string \<Rightarrow> mode_entry \<Rightarrow> bool \<times> mode_entry" where
  "setElseValue else_val e =
     (if length (parseString else_val (CHR '' '')) \<noteq> 1 then (False, e) else (True, e\<lparr>m_mode_val_else := else_val\<rparr>))"

definition entry_getConditionVars :: "mode_entry \<Rightarrow> string list" where
  "entry_getConditionVars e =
     removeDuplicates (foldl (\<lambda>return_vector c. mergeVectors return_vector (getVarNames c)) [] (me_logic_conditions e))"

definition getModeParent :: "mode_entry \<Rightarrow> string" where
  "getModeParent e =
     (let svector = parseString (m_mode_prefix e) (CHR '':'')
      in if length svector > 0 then svector ! (length svector - 1) else '''')"

definition entry_clear :: "mode_entry \<Rightarrow> mode_entry" where
  "entry_clear e = e\<lparr>m_mode_var := '''', m_mode_val := '''', m_mode_val_else := '''', m_mode_prefix := '''',
     me_logic_conditions := [], m_modevar_conditions := []\<rparr>"

definition clearConditionVarVals :: "mode_entry \<Rightarrow> mode_entry" where
  "clearConditionVarVals e = e\<lparr>me_logic_conditions := map clearVarVals (me_logic_conditions e)\<rparr>"

text \<open>\<open>at(i)\<close> throws when there is no flag for a condition.\<close>

definition entry_getNonModeLogicConditions :: "mode_entry \<Rightarrow> logic_condition list option" where
  "entry_getNonModeLogicConditions e =
     (if length (m_modevar_conditions e) < length (me_logic_conditions e) then None
      else Some [LogicCondition_copy c. (c, b) \<leftarrow> zip (me_logic_conditions e) (m_modevar_conditions e), \<not> b])"

section \<open>The set\<close>

record mode_set =
  m_entries :: "mode_entry list"
  m_mode_var_data_pairs :: "var_data_pair list"

definition ModeSet_new :: mode_set where
  "ModeSet_new = \<lparr>m_entries = [], m_mode_var_data_pairs = []\<rparr>"

definition addEntry :: "mode_entry \<Rightarrow> mode_set \<Rightarrow> mode_set" where
  "addEntry entry ms =
     ms\<lparr>m_entries := m_entries ms @ [entry\<lparr>me_logic_conditions := map LogicCondition_copy (me_logic_conditions entry)\<rparr>]\<rparr>"

definition getConditionVars :: "mode_set \<Rightarrow> string list" where
  "getConditionVars ms =
     removeDuplicates (foldl (\<lambda>union_vector e. mergeVectors union_vector (entry_getConditionVars e)) [] (m_entries ms))"

text \<open>One variable, to all entries.\<close>

definition consult_var :: "infobuffer \<Rightarrow> mode_entry list \<Rightarrow> string \<Rightarrow> mode_entry list" where
  "consult_var ib entries varname =
     (let (s_result, ok_s) = sQuery ib varname; (d_result, ok_d) = dQuery ib varname;
          entries = (if ok_s then map (entry_setVarVal_s varname s_result) entries else entries)
      in if ok_d then map (entry_setVarVal_d varname d_result) entries else entries)"

definition consultFromInfoBuffer :: "infobuffer option \<Rightarrow> mode_set \<Rightarrow> mode_set option" where
  "consultFromInfoBuffer info_buffer ms =
     (let all_vars = getConditionVars ms
      in case info_buffer of None \<Rightarrow> if all_vars = [] then Some ms else None
         | Some ib \<Rightarrow> Some (ms\<lparr>m_entries := foldl (consult_var ib) (m_entries ms) all_vars\<rparr>))"

definition updateInfoBuffer :: "infobuffer option \<Rightarrow> mode_set \<Rightarrow> infobuffer option" where
  "updateInfoBuffer info_buffer ms =
     map_option (\<lambda>ib. foldl (\<lambda>ib pair.
         if m_is_string pair then setValue_s ib (m_var pair) (m_sdata pair) 0 else setValue_d ib (m_var pair) (m_ddata pair) 0)
       ib (m_mode_var_data_pairs ms)) info_buffer"

text \<open>The loop over the entries; the value of one of them goes to the conditions of all.\<close>

fun evaluate_loop :: "nat list \<Rightarrow> mode_entry list \<Rightarrow> (string \<times> string) list \<Rightarrow>
    (mode_entry list \<times> (string \<times> string) list) option" where
  "evaluate_loop [] entries var_val_map = Some (entries, var_val_map)"
| "evaluate_loop (i # is) entries var_val_map =
     (let e = entries ! i; varname = m_mode_var e; prefix = m_mode_prefix e
      in evalConditions e \<bind> (\<lambda>result.
         (if result then Some (m_mode_val e)
          else evalModeVarConditions e \<bind> (\<lambda>b. Some (if b then m_mode_val_else e else ''''))) \<bind> (\<lambda>varvalue.
         if varvalue \<noteq> ''''
         then let varvalue = (if prefix \<noteq> '''' then prefix @ '':'' @ varvalue else varvalue)
              in evaluate_loop is (map (entry_setVarVal_s varname varvalue) entries) (put varname varvalue var_val_map)
         else evaluate_loop is entries var_val_map)))"

text \<open>The pairs made of the collected values, up to the first that is \<open>None\<close>.\<close>

fun mode_pairs :: "(string \<times> string) list \<Rightarrow> var_data_pair list option" where
  "mode_pairs [] = Some []"
| "mode_pairs ((varname, varvalue) # ps) =
     VarDataPair_hint varname varvalue ''auto'' \<bind> (\<lambda>pair.
     mode_pairs ps \<bind> (\<lambda>pairs. Some (set_key ''mode_set'' pair # pairs)))"

definition evaluate_modes :: "infobuffer option \<Rightarrow> mode_set \<Rightarrow> (mode_set \<times> infobuffer option) option" where
  "evaluate_modes info_buffer ms =
     consultFromInfoBuffer info_buffer (ms\<lparr>m_mode_var_data_pairs := []\<rparr>) \<bind> (\<lambda>ms.
     evaluate_loop [0..<length (m_entries ms)] (m_entries ms) [] \<bind> (\<lambda>(entries, var_val_map).
     mode_pairs var_val_map \<bind> (\<lambda>pairs.
     let ms = ms\<lparr>m_entries := entries, m_mode_var_data_pairs := pairs\<rparr>
     in Some (ms, updateInfoBuffer info_buffer ms))))"

text \<open>\<open>insert\<close> keeps the entry a key has.\<close>

fun getNonModeLogicConditions :: "mode_entry list \<Rightarrow> (string \<times> logic_condition list) list \<Rightarrow>
    (string \<times> logic_condition list) list option" where
  "getNonModeLogicConditions [] logic_conds = Some logic_conds"
| "getNonModeLogicConditions (e # es) logic_conds =
     entry_getNonModeLogicConditions e \<bind> (\<lambda>cs.
     getNonModeLogicConditions es
       (if map_of logic_conds (m_mode_val e) = None then put (m_mode_val e) cs logic_conds else logic_conds))"

definition getModeSummary :: "mode_set \<Rightarrow> string" where
  "getModeSummary ms =
     foldl (\<lambda>result pair.
       let varvalue = (if m_is_string pair then m_sdata pair else dstringCompact (doubleToString (m_ddata pair) 5));
           result = (if result \<noteq> '''' then result @ ''#'' else result)
       in result @ m_var pair @ ''@'' @ varvalue) '''' (m_mode_var_data_pairs ms)"

definition describe_step :: "string \<times> string \<Rightarrow> nat \<times> mode_entry \<Rightarrow> string \<times> string" where
  "describe_step s ie =
     (let (return_value, curr_mode_varname) = s; (i, e) = ie;
          return_value = (if i > 0 then return_value @ ''#'' else return_value);
          (return_value, curr_mode_varname) =
            (if m_mode_var e \<noteq> curr_mode_varname then (return_value @ m_mode_var e @ ''#'', m_mode_var e)
             else (return_value, curr_mode_varname));
          child = m_mode_val e;
          parent = (if getModeParent e = '''' then ''---'' else getModeParent e);
          return_value = return_value @ parent @ '','' @ child
      in (if m_mode_val_else e \<noteq> '''' then return_value @ ''#'' @ parent @ '','' @ m_mode_val_else e else return_value,
          curr_mode_varname))"

definition getStringDescription :: "mode_set \<Rightarrow> string" where
  "getStringDescription ms =
     fst (foldl describe_step ('''', '''') (zip [0..<length (m_entries ms)] (m_entries ms)))"

section \<open>What a round of evaluation computes\<close>

text \<open>Entries as they were declared: everything but the values their conditions have learned.\<close>

definition declared :: "mode_entry \<Rightarrow> string \<times> string \<times> string \<times> string \<times> cond list \<times> bool list" where
  "declared e = (m_mode_var e, m_mode_val e, m_mode_val_else e, m_mode_prefix e,
     map condition_of (me_logic_conditions e), m_modevar_conditions e)"

definition entry_ok :: "(string \<Rightarrow> side_value) \<Rightarrow> mode_entry \<Rightarrow> bool" where
  "entry_ok env e \<longleftrightarrow> (\<forall>c\<in>set (me_logic_conditions e). logic_ok env c) \<and>
     length (m_modevar_conditions e) = length (me_logic_conditions e)"

text \<open>The value an entry gives its variable under an environment; the empty string for none.\<close>

definition entry_value :: "(string \<Rightarrow> side_value) \<Rightarrow> mode_entry \<Rightarrow> string option" where
  "entry_value env e =
     first_fails (map (\<lambda>c. holds env (condition_of c)) (me_logic_conditions e)) \<bind> (\<lambda>all.
     (if all then Some (m_mode_val e)
      else first_fails (map (\<lambda>(c, b). holds env (condition_of c))
             (filter snd (zip (me_logic_conditions e) (m_modevar_conditions e)))) \<bind> (\<lambda>parent.
           Some (if parent then m_mode_val_else e else ''''))) \<bind> (\<lambda>v.
     Some (if v = '''' \<or> m_mode_prefix e = '''' then v else m_mode_prefix e @ '':'' @ v)))"

text \<open>The entries one after the other, each under what the ones before it have set.\<close>

fun mode_run :: "mode_entry list \<Rightarrow> (string \<Rightarrow> side_value) \<Rightarrow> (string \<times> string) list \<Rightarrow>
    ((string \<Rightarrow> side_value) \<times> (string \<times> string) list) option" where
  "mode_run [] env posted = Some (env, posted)"
| "mode_run (e # es) env posted =
     entry_value env e \<bind> (\<lambda>v.
     if v = '''' then mode_run es env posted
     else mode_run es (env(m_mode_var e := learn_s v (env (m_mode_var e)))) (put (m_mode_var e) v posted))"

lemma eval_loop_holds:
  "\<forall>(c, b)\<in>set cs. logic_ok env c \<Longrightarrow>
   eval_loop True cs = first_fails (map (\<lambda>(c, b). holds env (condition_of c)) (filter snd cs))"
proof (induction cs)
  case (Cons cb cs)
  obtain c b where cb: "cb = (c, b)" by (cases cb)
  have off: "eval_loop False xs = Some False" for xs by (induction xs) auto
  have "eval c = holds env (condition_of c)"
    using Cons.prems logic_ok_node recursiveEvaluate_holds by (auto simp: cb eval_def condition_of_def logic_ok_def)
  with Cons show ?case by (auto simp: cb off split: Option.bind_splits)
qed simp

lemma entry_value_code:
  assumes "entry_ok env e"
  shows "entry_value env e = evalConditions e \<bind> (\<lambda>all.
     (if all then Some (m_mode_val e)
      else evalModeVarConditions e \<bind> (\<lambda>b. Some (if b then m_mode_val_else e else ''''))) \<bind> (\<lambda>v.
     Some (if v = '''' \<or> m_mode_prefix e = '''' then v else m_mode_prefix e @ '':'' @ v)))"
proof -
  have a: "evalConditions e = first_fails (map (\<lambda>c. holds env (condition_of c)) (me_logic_conditions e))"
    using assms eval_loop_holds [of "map (\<lambda>c. (c, True)) (me_logic_conditions e)" env]
    by (simp add: evalConditions_def entry_ok_def o_def)
  have b: "evalModeVarConditions e = first_fails (map (\<lambda>(c, b). holds env (condition_of c))
             (filter snd (zip (me_logic_conditions e) (m_modevar_conditions e))))"
    unfolding evalModeVarConditions_def using assms
    by (intro eval_loop_holds) (auto simp: entry_ok_def dest: set_zip_leftD)
  show ?thesis unfolding entry_value_def a b ..
qed

lemma declared_value:
  assumes "declared e = declared e'"
  shows "entry_value env e = entry_value env e'"
proof -
  let ?h = "\<lambda>e. map (holds env) (map condition_of (me_logic_conditions e))"
  have h: "map (\<lambda>c. holds env (condition_of c)) (me_logic_conditions e) = ?h e" for e by simp
  have p: "map (\<lambda>(c, b). holds env (condition_of c)) (filter snd (zip cs bs)) =
      map (holds env \<circ> fst) (filter snd (zip (map condition_of cs) bs))" for cs :: "logic_condition list" and bs
    by (induction cs bs rule: list_induct2') auto
  have "m_mode_val e = m_mode_val e'" "m_mode_val_else e = m_mode_val_else e'" "m_mode_prefix e = m_mode_prefix e'"
    "map condition_of (me_logic_conditions e) = map condition_of (me_logic_conditions e')"
    "m_modevar_conditions e = m_modevar_conditions e'" using assms by (simp_all add: declared_def)
  then show ?thesis unfolding entry_value_def p h by (simp only:)
qed

lemma declared_run: "map declared es = map declared es' \<Longrightarrow> mode_run es env posted = mode_run es' env posted"
proof (induction es arbitrary: es' env posted)
  case (Cons e es)
  then obtain e' es'' where es'1: "es' = e' # es''" by (cases es') auto
  with Cons.prems have es': "es' = e' # es''" "declared e = declared e'" "map declared es = map declared es''" by simp_all
  have "m_mode_var e = m_mode_var e'" using es'(2) by (simp add: declared_def)
  moreover have "entry_value env e = entry_value env e'" by (rule declared_value [OF es'(2)])
  moreover have "mode_run es = mode_run es''" using Cons.IH [OF es'(3)] by (simp add: fun_eq_iff)
  ultimately show ?case unfolding es'(1) mode_run.simps by (simp only:)
qed simp

lemma entry_set_ok:
  assumes "entry_ok env e"
  shows "entry_ok (env(v := learn_s s (env v))) (entry_setVarVal_s v s e)" "declared (entry_setVarVal_s v s e) = declared e"
  using assms setVarVal_logic_ok(1) [of env _ v s]
  by (auto simp: entry_ok_def declared_def entry_setVarVal_s_def)

lemma evaluate_loop_run:
  "\<forall>e\<in>set es. entry_ok env e \<Longrightarrow> set is \<subseteq> {..<length es} \<Longrightarrow>
   (case mode_run (map (nth es) is) env posted of
      None \<Rightarrow> evaluate_loop is es posted = None
    | Some (env', posted') \<Rightarrow> (\<exists>es'. evaluate_loop is es posted = Some (es', posted') \<and>
        map declared es' = map declared es \<and> (\<forall>e\<in>set es'. entry_ok env' e)))"
proof (induction "is" arbitrary: es env posted)
  case (Cons i "is")
  let ?e = "es ! i"
  have i: "i < length es" and e: "entry_ok env ?e" using Cons.prems by auto
  have step: "evaluate_loop (i # is) es posted = entry_value env ?e \<bind> (\<lambda>v.
      if v = '''' then evaluate_loop is es posted
      else evaluate_loop is (map (entry_setVarVal_s (m_mode_var ?e) v) es) (put (m_mode_var ?e) v posted))"
    unfolding entry_value_code [OF e]
    by (auto simp: Let_def split: Option.bind_splits if_splits)
  show ?case
  proof (cases "entry_value env ?e")
    case None
    then show ?thesis unfolding step by simp
  next
    case (Some v)
    show ?thesis
    proof (cases "v = ''''")
      case True
      then have "mode_run (map (nth es) (i # is)) env posted = mode_run (map (nth es) is) env posted"
        "evaluate_loop (i # is) es posted = evaluate_loop is es posted" using Some step by simp_all
      then show ?thesis using Cons.IH [of es env posted] Cons.prems by (simp only:) simp
    next
      case False
      let ?es = "map (entry_setVarVal_s (m_mode_var ?e) v) es"
      let ?env = "env(m_mode_var ?e := learn_s v (env (m_mode_var ?e)))"
      have ok: "\<forall>e\<in>set ?es. entry_ok ?env e" and d: "map declared ?es = map declared es"
        using Cons.prems(1) entry_set_ok by auto
      have run: "mode_run (map (nth ?es) is) env1 p = mode_run (map (nth es) is) env1 p" for env1 p
      proof (rule declared_run, rule nth_equalityI)
        fix k assume "k < length (map declared (map (nth ?es) is))"
        then have "is ! k < length es" using Cons.prems(2) nth_mem by fastforce
        then show "map declared (map (nth ?es) is) ! k = map declared (map (nth es) is) ! k"
          using entry_set_ok(2) [of env "es ! (is ! k)"] Cons.prems(1) \<open>k < _\<close> by simp
      qed simp
      have a: "evaluate_loop (i # is) es posted = evaluate_loop is ?es (put (m_mode_var ?e) v posted)"
        using Some False step by simp
      have b: "mode_run (map (nth es) (i # is)) env posted = mode_run (map (nth ?es) is) ?env (put (m_mode_var ?e) v posted)"
        unfolding run using Some False by (simp del: fun_upd_apply)
      have l: "set is \<subseteq> {..<length ?es}" using Cons.prems(2) by simp
      show ?thesis using Cons.IH [OF ok l, of "put (m_mode_var ?e) v posted"] unfolding a b d .
    qed
  qed
qed simp

section \<open>Consulting the buffer\<close>

lemma consult_var_map:
  "consult_var ib es v = map (\<lambda>e. e\<lparr>me_logic_conditions := map (step_cond ib v) (me_logic_conditions e)\<rparr>) es"
proof -
  have "step_cond ib v = (\<lambda>c. let c = (case smap ib v of Some s \<Rightarrow> setVarVal_s v s c | None \<Rightarrow> c)
      in case dmap ib v of Some d \<Rightarrow> setVarVal_d v d c | None \<Rightarrow> c)" by (simp add: fun_eq_iff step_cond_def)
  then show ?thesis
    by (auto simp: consult_var_def sQuery_def dQuery_def entry_setVarVal_s_def entry_setVarVal_d_def split: option.split)
qed

lemma foldl_consult: "foldl (consult_var ib) es vs =
    map (\<lambda>e. e\<lparr>me_logic_conditions := map (\<lambda>c. foldl (\<lambda>c v. step_cond ib v c) c vs) (me_logic_conditions e)\<rparr>) es"
  by (induction vs rule: rev_induct) (simp_all add: consult_var_map)

lemma set_entry_vars: "set (entry_getConditionVars e) = (\<Union>c\<in>set (me_logic_conditions e). var_names (m_node c))"
  using set_all_vars [of "[]" "me_logic_conditions e"] by (simp add: entry_getConditionVars_def removeDuplicates_facts)

lemma set_condition_vars: "distinct (getConditionVars ms) \<and>
    set (getConditionVars ms) = (\<Union>e\<in>set (m_entries ms). \<Union>c\<in>set (me_logic_conditions e). var_names (m_node c))"
proof -
  have "set (foldl (\<lambda>vs e. mergeVectors vs (entry_getConditionVars e)) ws es) =
      set ws \<union> (\<Union>e\<in>set es. \<Union>c\<in>set (me_logic_conditions e). var_names (m_node c))" for ws es
    by (induction es arbitrary: ws) (simp_all add: mergeVectors_append set_entry_vars Un_assoc)
  then show ?thesis by (simp add: getConditionVars_def removeDuplicates_facts)
qed

lemma consult_ok:
  assumes "\<forall>e\<in>set (m_entries ms). entry_ok env e"
  obtains es where "consultFromInfoBuffer (Some ib) ms = Some (ms\<lparr>m_entries := es\<rparr>)"
    "map declared es = map declared (m_entries ms)" "\<forall>e\<in>set es. entry_ok (\<lambda>v. learned ib v (env v)) e"
proof -
  let ?vs = "getConditionVars ms" and ?env' = "\<lambda>v. learned ib v (env v)"
  let ?go = "\<lambda>c. foldl (\<lambda>c v. step_cond ib v c) c ?vs"
  let ?ge = "\<lambda>e. e\<lparr>me_logic_conditions := map ?go (me_logic_conditions e)\<rparr>"
  note vs = set_condition_vars [of ms]
  have one: "logic_ok ?env' (?go c) \<and> condition_of (?go c) = condition_of c"
    if c: "e \<in> set (m_entries ms)" "c \<in> set (me_logic_conditions e)" for c e
    using all_learned [of env c ?vs ib] assms c vs by (auto simp: entry_ok_def)
  have "declared (?ge e) = declared e \<and> entry_ok ?env' (?ge e)" if "e \<in> set (m_entries ms)" for e
    using one [OF that] assms that by (auto simp: declared_def entry_ok_def)
  then show thesis
    by (intro that [of "map ?ge (m_entries ms)"]) (simp_all add: consultFromInfoBuffer_def foldl_consult)
qed

section \<open>A round\<close>

lemma mode_pairs_map: "\<exists>pairs. mode_pairs ps = Some pairs \<and>
    map Some pairs = map (\<lambda>(k, v). map_option (set_key ''mode_set'') (VarDataPair_hint k v ''auto'')) ps"
proof (induction ps)
  case (Cons kv ps)
  obtain k v where kv: "kv = (k, v)" by (cases kv)
  from VarDataPair_hint_total [of k v] obtain p where p: "VarDataPair_hint k v ''auto'' = Some p" by blast
  from Cons obtain pairs where "mode_pairs ps = Some pairs"
    "map Some pairs = map (\<lambda>(k, v). map_option (set_key ''mode_set'') (VarDataPair_hint k v ''auto'')) ps" by blast
  then show ?case by (simp add: kv p)
qed simp

lemma updates_elsewhere: "\<forall>p\<in>set pairs. m_var p \<noteq> v \<Longrightarrow>
    updateInfoBuffer (Some ib) (ms\<lparr>m_mode_var_data_pairs := pairs\<rparr>) = Some ib' \<Longrightarrow>
    sQuery ib' v = sQuery ib v \<and> dQuery ib' v = dQuery ib v"
proof -
  have "\<forall>p\<in>set pairs. m_var p \<noteq> v \<Longrightarrow> ib' = foldl (\<lambda>ib pair.
         if m_is_string pair then setValue_s ib (m_var pair) (m_sdata pair) 0 else setValue_d ib (m_var pair) (m_ddata pair) 0)
       ib pairs \<Longrightarrow> sQuery ib' v = sQuery ib v \<and> dQuery ib' v = dQuery ib v"
    by (induction pairs arbitrary: ib) (auto simp: setValue_s_def setValue_d_def sQuery_def dQuery_def Let_def)
  then show "\<forall>p\<in>set pairs. m_var p \<noteq> v \<Longrightarrow>
    updateInfoBuffer (Some ib) (ms\<lparr>m_mode_var_data_pairs := pairs\<rparr>) = Some ib' \<Longrightarrow>
    sQuery ib' v = sQuery ib v \<and> dQuery ib' v = dQuery ib v" by (simp add: updateInfoBuffer_def)
qed

lemma fresh_condition: "fst (setCondition s lc) \<Longrightarrow> logic_ok (\<lambda>_. Unset) (snd (setCondition s lc))"
  using setCondition_ok [of s lc] by simp

lemma copy_ok [simp]: "logic_ok env (LogicCondition_copy c) = logic_ok env c"
    "condition_of (LogicCondition_copy c) = condition_of c"
  by (simp_all add: LogicCondition_copy_def logic_ok_def condition_of_def)

lemma entry_ok_addCondition:
  assumes "entry_ok (\<lambda>_. Unset) e"
  shows "entry_ok (\<lambda>_. Unset) (snd (addCondition s e))"
proof -
  have step: "entry_ok (\<lambda>_. Unset) e \<Longrightarrow> entry_ok (\<lambda>_. Unset) (prefix_step e i)" for e i
    by (simp add: prefix_step_def entry_ok_def Let_def case_prod_beta)
  have "entry_ok (\<lambda>_. Unset) e \<Longrightarrow> entry_ok (\<lambda>_. Unset) (foldl prefix_step e is)" for e "is"
    by (induction "is" arbitrary: e) (auto simp: step)
  moreover define new where "new = setCondition (stripBlankEnds s) (setAllowDoubleEquals False LogicCondition_new)"
  moreover define e' where "e' = e\<lparr>me_logic_conditions := me_logic_conditions e @ [LogicCondition_copy (snd new)],
      m_modevar_conditions := m_modevar_conditions e @ [False]\<rparr>"
  moreover have "fst new \<Longrightarrow> entry_ok (\<lambda>_. Unset) e'"
    using assms fresh_condition by (auto simp: new_def e'_def entry_ok_def)
  moreover have "addCondition s e = (if \<not> fst new then (False, e)
      else (True, foldl prefix_step e' [0..<length (me_logic_conditions e')]))"
    by (simp add: addCondition_def new_def e'_def case_prod_beta Let_def del: upt_Suc)
  ultimately show ?thesis using assms by (simp del: upt_Suc)
qed

definition ex_modes :: mode_set where
  "ex_modes =
     (let head = (\<lambda>val. snd (setHead ''M'' val ModeEntry_new)); add = (\<lambda>s e. snd (addCondition s e));
          active = snd (setElseValue ''I'' (add ''D=t'' (head ''A'')));
          survey = add ''R=f'' (add ''M=A'' (head ''S''))
      in addEntry survey (addEntry active ModeSet_new))"

definition ex_values :: infobuffer where
  "ex_values = setValue_s (setValue_s InfoBuffer_new ''D'' ''t'' 0) ''R'' ''f'' 0"

lemma ex_modes_ok: "\<forall>e\<in>set (m_entries ex_modes). entry_ok (\<lambda>_. Unset) e"
proof -
  have "entry_ok (\<lambda>_. Unset) (snd (setHead v w ModeEntry_new))" for v w
    by (simp add: setHead_def ModeEntry_new_def entry_ok_def)
  moreover have "entry_ok (\<lambda>_. Unset) e \<Longrightarrow> entry_ok (\<lambda>_. Unset) (snd (setElseValue v e))" for v e
    by (simp add: setElseValue_def entry_ok_def)
  moreover have "entry_ok (\<lambda>_. Unset) e \<Longrightarrow>
      entry_ok (\<lambda>_. Unset) (e\<lparr>me_logic_conditions := map LogicCondition_copy (me_logic_conditions e)\<rparr>)" for e
    by (simp add: entry_ok_def)
  ultimately show ?thesis
    by (simp add: ex_modes_def addEntry_def ModeSet_new_def entry_ok_addCondition Let_def)
qed



end
