(* ===== verification/IvP_Box.thy ===== *)
theory IvP_Box
  imports IvP_Prelude
begin

text \<open>
  \<open>IvPBox\<close> (\<open>ivp/src/lib_ivpcore/IvPBox.h\<close>, \<open>IvPBox.cpp\<close>): one piece of a piecewise defined
  function, an integer hyperrectangle with a bound type (inclusive or exclusive) at each end
  and an interior function of degree 0, 1 or 2. The arrays keep the layout of the code: the
  low and the high end of dimension \<open>d\<close> are entries \<open>2 * d\<close> and \<open>2 * d + 1\<close> of \<open>m_pts\<close> and
  \<open>m_bds\<close>, the constant of the interior function is the last entry of \<open>m_wts\<close>. An array is a
  list of exactly its allocated length (\<open>wf_box\<close>), so an index past the end is an unspecified
  entry, as it is in the code.
\<close>

section \<open>State\<close>

record ivpbox =
  m_dim :: nat
  m_degree :: nat
  m_pts :: "int list"
  m_bds :: "bool list"
  m_wts :: "real list"
  m_of :: int
  m_markval :: bool

definition pt :: "ivpbox \<Rightarrow> nat \<Rightarrow> nat \<Rightarrow> int" where
  "pt b d e = m_pts b ! (d * 2 + e)"

definition bd :: "ivpbox \<Rightarrow> nat \<Rightarrow> nat \<Rightarrow> bool" where
  "bd b d e = m_bds b ! (d * 2 + e)"

definition wt :: "ivpbox \<Rightarrow> nat \<Rightarrow> real" where
  "wt b i = m_wts b ! i"

definition set_pt :: "nat \<Rightarrow> nat \<Rightarrow> int \<Rightarrow> ivpbox \<Rightarrow> ivpbox" where
  "set_pt d e v b = b\<lparr>m_pts := (m_pts b)[d * 2 + e := v]\<rparr>"

definition set_bd :: "nat \<Rightarrow> nat \<Rightarrow> bool \<Rightarrow> ivpbox \<Rightarrow> ivpbox" where
  "set_bd d e v b = b\<lparr>m_bds := (m_bds b)[d * 2 + e := v]\<rparr>"

definition set_wt :: "nat \<Rightarrow> real \<Rightarrow> ivpbox \<Rightarrow> ivpbox" where
  "set_wt i v b = b\<lparr>m_wts := (m_wts b)[i := v]\<rparr>"

definition setPTS :: "nat \<Rightarrow> int \<Rightarrow> int \<Rightarrow> ivpbox \<Rightarrow> ivpbox" where
  "setPTS d l h b = set_pt d 1 h (set_pt d 0 l b)"

definition setBDS :: "nat \<Rightarrow> bool \<Rightarrow> bool \<Rightarrow> ivpbox \<Rightarrow> ivpbox" where
  "setBDS d l h b = set_bd d 1 h (set_bd d 0 l b)"

definition getWtc :: "ivpbox \<Rightarrow> nat" where
  "getWtc b = m_degree b * m_dim b + 1"

definition null_box :: "ivpbox \<Rightarrow> bool" where
  "null_box b \<longleftrightarrow> m_dim b = 0"

section \<open>Construction and copying\<close>

text \<open>The constructor stores its \<open>int\<close> arguments in 16 bit unsigned fields.\<close>

definition IvPBox_new :: "int \<Rightarrow> int \<Rightarrow> ivpbox" where
  "IvPBox_new g_dim g_degree =
     (let dim = nat (g_dim mod 2 ^ 16); degree = nat (g_degree mod 2 ^ 16)
      in if 0 < dim
         then \<lparr>m_dim = dim, m_degree = degree,
               m_pts = replicate (dim * 2) 0, m_bds = replicate (dim * 2) True,
               m_wts = replicate (degree * dim + 1) 0, m_of = 0, m_markval = False\<rparr>
         else \<lparr>m_dim = dim, m_degree = degree, m_pts = [], m_bds = [], m_wts = [],
               m_of = 0, m_markval = False\<rparr>)"

text \<open>The copy constructor allocates fresh arrays and copies every entry.\<close>

definition IvPBox_copy_new :: "ivpbox \<Rightarrow> ivpbox" where
  "IvPBox_copy_new b =
     (if 0 < m_dim b
      then \<lparr>m_dim = m_dim b, m_degree = m_degree b,
            m_pts = map (\<lambda>i. m_pts b ! i) [0..<m_dim b * 2],
            m_bds = map (\<lambda>i. m_bds b ! i) [0..<m_dim b * 2],
            m_wts = map (\<lambda>i. m_wts b ! i) [0..<m_degree b * m_dim b + 1],
            m_of = m_of b, m_markval = m_markval b\<rparr>
      else \<lparr>m_dim = m_dim b, m_degree = m_degree b, m_pts = [], m_bds = [], m_wts = [],
            m_of = m_of b, m_markval = m_markval b\<rparr>)"

text \<open>
  Assignment of a different box reuses the arrays where the sizes agree. A null \<open>m_wts\<close>
  pointer is the empty list; fresh arrays are overwritten by the loops that follow.
\<close>

definition box_assign :: "ivpbox \<Rightarrow> ivpbox \<Rightarrow> ivpbox" where
  "box_assign b right =
     (let wtc = m_degree right * m_dim right + 1;
          pts0 = (if m_dim b \<noteq> m_dim right then replicate (m_dim right * 2) 0 else m_pts b);
          bds0 = (if m_dim b \<noteq> m_dim right then replicate (m_dim right * 2) False else m_bds b);
          wts0 = (if m_dim b \<noteq> m_dim right \<or> m_degree b \<noteq> m_degree right
                  then (if 0 < m_dim right then replicate wtc 0 else []) else m_wts b);
          pts1 = foldl (\<lambda>xs i. xs[i := m_pts right ! i]) pts0 [0..<m_dim right * 2];
          bds1 = foldl (\<lambda>xs i. xs[i := m_bds right ! i]) bds0 [0..<m_dim right * 2];
          wts1 = (if wts0 \<noteq> [] then foldl (\<lambda>xs i. xs[i := m_wts right ! i]) wts0 [0..<wtc]
                  else wts0)
      in \<lparr>m_dim = m_dim right, m_degree = m_degree right, m_pts = pts1, m_bds = bds1,
          m_wts = wts1, m_of = m_of right, m_markval = m_markval right\<rparr>)"

text \<open>
  \<open>copy(const IvPBox*)\<close> asserts that dimension and degree agree; it writes at least one
  weight, so two null boxes (whose \<open>m_wts\<close> is the null pointer) crash.
\<close>

definition copy_from :: "ivpbox \<Rightarrow> ivpbox \<Rightarrow> ivpbox option" where
  "copy_from b g =
     (if m_dim g = m_dim b \<and> m_degree g = m_degree b \<and> m_wts b \<noteq> [] \<and> m_wts g \<noteq> []
      then let b1 = foldl (\<lambda>r d. setBDS d (bd g d 0) (bd g d 1)
                                   (setPTS d (pt g d 0) (pt g d 1) r)) b [0..<m_dim b];
               b2 = foldl (\<lambda>r i. set_wt i (wt g i) r) b1 [0..<getWtc b]
           in Some (b2\<lparr>m_of := m_of g, m_markval := m_markval g\<rparr>)
      else None)"

definition box_copy :: "ivpbox \<Rightarrow> ivpbox option" where
  "box_copy b = copy_from (IvPBox_new (int (m_dim b)) (int (m_degree b))) b"

section \<open>Weights\<close>

definition setWT :: "real \<Rightarrow> ivpbox \<Rightarrow> ivpbox" where
  "setWT w b = set_wt (getWtc b - 1) w (foldl (\<lambda>r i. set_wt i 0 r) b [0..<getWtc b - 1])"

definition scaleWT :: "real \<Rightarrow> ivpbox \<Rightarrow> ivpbox" where
  "scaleWT amount b = foldl (\<lambda>r i. set_wt i (wt r i * amount) r) b [0..<getWtc b]"

definition moveIntercept :: "real \<Rightarrow> ivpbox \<Rightarrow> ivpbox" where
  "moveIntercept v b = set_wt (getWtc b - 1) (wt b (getWtc b - 1) + v) b"

section \<open>The interior function: bounds and values\<close>

text \<open>
  The candidate points of one dimension for degree 2, as the three functions below collect
  them. The code computes the stationary point from \<open>m_wts[2*d]\<close>; where \<open>m_wts[d]\<close> is zero
  the IEEE quotient is infinite or NaN and neither comparison can make the chain hold.
\<close>

definition c_pts :: "ivpbox \<Rightarrow> nat \<Rightarrow> int list" where
  "c_pts b d =
     (let lo = pt b d 0; hi = pt b d 1; dx = - wt b (2 * d) / (2 * wt b d)
      in if wt b d \<noteq> 0 \<and> dx > of_int lo \<and> dx < of_int hi
         then [lo, hi, \<lfloor>dx\<rfloor>, \<lceil>dx\<rceil>] else [lo, hi])"

definition quad_val :: "ivpbox \<Rightarrow> nat \<Rightarrow> int \<Rightarrow> real" where
  "quad_val b d p = wt b d * of_int p * of_int p + wt b (d + m_dim b) * of_int p"

text \<open>The loop over the candidates: the first one starts, a better one replaces.\<close>

definition high_pt :: "ivpbox \<Rightarrow> nat \<Rightarrow> int" where
  "high_pt b d = run_best (>) (quad_val b d) (hd (c_pts b d)) (tl (c_pts b d))"

definition low_pt :: "ivpbox \<Rightarrow> nat \<Rightarrow> int" where
  "low_pt b d = run_best (<) (quad_val b d) (hd (c_pts b d)) (tl (c_pts b d))"

definition maxVal :: "ivpbox \<Rightarrow> real" where
  "maxVal b =
     (let limit = m_degree b * m_dim b; retval = wt b limit
      in if m_degree b = 0 then retval
         else if m_degree b = 1 then
           foldl (\<lambda>r d. r + (if wt b d < 0 then wt b d * of_int (pt b d 0)
                             else wt b d * of_int (pt b d 1))) retval [0..<limit]
         else if m_degree b = 2 then
           foldl (\<lambda>r d. r + quad_val b d (high_pt b d)) retval [0..<m_dim b]
         else 0)"

definition minVal :: "ivpbox \<Rightarrow> real" where
  "minVal b =
     (let limit = m_degree b * m_dim b; retval = wt b limit
      in if m_degree b = 0 then retval
         else if m_degree b = 1 then
           foldl (\<lambda>r d. r + (if wt b d < 0 then wt b d * of_int (pt b d 1)
                             else wt b d * of_int (pt b d 0))) retval [0..<limit]
         else if m_degree b = 2 then
           foldl (\<lambda>r d. r + quad_val b d (low_pt b d)) retval [0..<m_dim b]
         else 0)"

section \<open>Intersection and point boxes\<close>

text \<open>The two loops return early; the first compares the ends, the second the bound types.\<close>

definition box_intersect :: "ivpbox \<Rightarrow> ivpbox \<Rightarrow> bool" where
  "box_intersect b g \<longleftrightarrow>
     list_all (\<lambda>d. \<not> pt b d 0 > pt g d 1 \<and> \<not> pt b d 1 < pt g d 0) [0..<m_dim b] \<and>
     list_all (\<lambda>d. \<not> (pt b d 0 = pt g d 1 \<and> (\<not> bd b d 0 \<or> \<not> bd g d 1)) \<and>
                   \<not> (pt b d 1 = pt g d 0 \<and> (\<not> bd b d 1 \<or> \<not> bd g d 0))) [0..<m_dim b]"

definition isPtBox :: "ivpbox \<Rightarrow> bool" where
  "isPtBox b \<longleftrightarrow> 0 < m_dim b \<and>
     list_all (\<lambda>d. if pt b d 0 \<noteq> pt b d 1
                   then pt b d 1 - pt b d 0 = 1 \<and> \<not> (bd b d 0 \<or> bd b d 1)
                   else bd b d 0 \<and> bd b d 1) [0..<m_dim b]"

text \<open>\<open>ptVal\<close> asserts that the argument is a point box of this dimension inside this box.\<close>

definition ptVal :: "ivpbox \<Rightarrow> ivpbox \<Rightarrow> real option" where
  "ptVal b g =
     (if m_dim g = m_dim b \<and> isPtBox g \<and> box_intersect g b
      then Some (if m_degree b = 0 then wt b 0
                 else if m_degree b = 1 then
                   foldl (\<lambda>r d. r + wt b d * of_int (pt g d 0)) (wt b (m_dim b)) [0..<m_dim b]
                 else if m_degree b = 2 then
                   foldl (\<lambda>r d. r + (wt b d * of_int (pt g d 0) * of_int (pt g d 0)
                                     + wt b (d + m_dim b) * of_int (pt g d 0)))
                         (wt b (m_dim b * 2)) [0..<m_dim b]
                 else 0)
      else None)"

text \<open>The coordinate that \<open>maxPt\<close> chooses in dimension \<open>d\<close>, by degree.\<close>

definition maxPt_coord :: "ivpbox \<Rightarrow> nat \<Rightarrow> int" where
  "maxPt_coord b d =
     (if m_degree b = 0 then (pt b d 1 - pt b d 0) sdiv 2 + pt b d 0
      else if m_degree b = 1 then (if wt b d < 0 then pt b d 0 else pt b d 1)
      else high_pt b d)"

definition maxPt_into :: "ivpbox \<Rightarrow> ivpbox \<Rightarrow> ivpbox" where
  "maxPt_into b g =
     (if m_dim b \<noteq> m_dim g \<or> 2 < m_degree b then g
      else foldl (\<lambda>r d. setBDS d True True (setPTS d (maxPt_coord b d) (maxPt_coord b d) r))
                 g [0..<m_dim b])"

definition maxPt :: "ivpbox \<Rightarrow> ivpbox" where
  "maxPt b = maxPt_into b (IvPBox_new (int (m_dim b)) (int (m_degree b)))"

text \<open>
  The box common to both, written into \<open>rbox\<close> (a fresh box when the pointer is null). Each
  end is three \<open>if\<close>s in a row, whose conditions exclude each other.
\<close>

definition isect_low :: "ivpbox \<Rightarrow> ivpbox \<Rightarrow> nat \<Rightarrow> ivpbox \<Rightarrow> ivpbox" where
  "isect_low b g d r =
     (let r1 = (if pt b d 0 > pt g d 0 then set_bd d 0 (bd b d 0) (set_pt d 0 (pt b d 0) r) else r);
          r2 = (if pt b d 0 < pt g d 0 then set_bd d 0 (bd g d 0) (set_pt d 0 (pt g d 0) r1) else r1)
      in if pt b d 0 = pt g d 0
         then set_bd d 0 (if \<not> bd b d 0 \<or> \<not> bd g d 0 then False else True)
                (set_pt d 0 (pt g d 0) r2)
         else r2)"

definition isect_high :: "ivpbox \<Rightarrow> ivpbox \<Rightarrow> nat \<Rightarrow> ivpbox \<Rightarrow> ivpbox" where
  "isect_high b g d r =
     (let r1 = (if pt b d 1 < pt g d 1 then set_bd d 1 (bd b d 1) (set_pt d 1 (pt b d 1) r) else r);
          r2 = (if pt b d 1 > pt g d 1 then set_bd d 1 (bd g d 1) (set_pt d 1 (pt g d 1) r1) else r1)
      in if pt b d 1 = pt g d 1
         then set_bd d 1 (if \<not> bd b d 1 \<or> \<not> bd g d 1 then False else True)
                (set_pt d 1 (pt g d 1) r2)
         else r2)"

definition intersect_into :: "ivpbox \<Rightarrow> ivpbox \<Rightarrow> ivpbox option \<Rightarrow> bool \<times> ivpbox option" where
  "intersect_into b g rbox =
     (if \<not> box_intersect b g then (False, rbox)
      else let r0 = (case rbox of None \<Rightarrow> IvPBox_new (int (m_dim b)) (int (m_degree b))
                     | Some r \<Rightarrow> r);
               r1 = foldl (\<lambda>r d. isect_high b g d (isect_low b g d r)) r0 [0..<m_dim b];
               r2 = foldl (\<lambda>r i. set_wt i (wt b i + wt g i) r) r1 [0..<getWtc b]
           in (True, Some r2))"

section \<open>Moving a box to a larger domain\<close>

text \<open>
  \<open>edgeMap\<close> gives the new place of each old dimension. For a degree above 0 the new weight
  array has \<open>m_dim + newEdges + 1\<close> entries, whatever the degree.
\<close>

definition box_transDomain :: "int \<Rightarrow> nat list \<Rightarrow> ivpbox \<Rightarrow> ivpbox option" where
  "box_transDomain newEdges edgeMap b =
     (if newEdges < 0 then None
      else let newDim = m_dim b + nat newEdges;
               pts = foldl (\<lambda>xs i. xs[edgeMap ! i * 2 := m_pts b ! (i * 2),
                                      edgeMap ! i * 2 + 1 := m_pts b ! (i * 2 + 1)])
                           (replicate (newDim * 2) 0) [0..<m_dim b];
               bds = foldl (\<lambda>xs i. xs[edgeMap ! i * 2 := m_bds b ! (i * 2),
                                      edgeMap ! i * 2 + 1 := m_bds b ! (i * 2 + 1)])
                           (replicate (newDim * 2) True) [0..<m_dim b];
               newWtc = m_dim b + nat newEdges + 1;
               wts = (if m_degree b \<noteq> 0
                      then (foldl (\<lambda>xs i. xs[edgeMap ! i := m_wts b ! i])
                                  (replicate newWtc 0) [0..<m_dim b])
                             [newWtc - 1 := m_wts b ! m_dim b]
                      else m_wts b)
           in Some (b\<lparr>m_dim := newDim, m_pts := pts, m_bds := bds, m_wts := wts\<rparr>))"

section \<open>What a box denotes\<close>

text \<open>
  A point of the domain gives an integer for each dimension. \<open>in_box\<close> reads the bound types,
  \<open>ival\<close> is the interior function, \<open>point_box\<close> is the point box of the code for a point.
\<close>

definition in_box :: "ivpbox \<Rightarrow> (nat \<Rightarrow> int) \<Rightarrow> bool" where
  "in_box b p \<longleftrightarrow>
     (\<forall>d<m_dim b. (pt b d 0 < p d \<or> pt b d 0 = p d \<and> bd b d 0) \<and>
                   (p d < pt b d 1 \<or> p d = pt b d 1 \<and> bd b d 1))"

definition in_closure :: "ivpbox \<Rightarrow> (nat \<Rightarrow> int) \<Rightarrow> bool" where
  "in_closure b p \<longleftrightarrow> (\<forall>d<m_dim b. pt b d 0 \<le> p d \<and> p d \<le> pt b d 1)"

definition ival :: "ivpbox \<Rightarrow> (nat \<Rightarrow> int) \<Rightarrow> real" where
  "ival b p =
     (if m_degree b = 0 then wt b 0
      else if m_degree b = 1 then wt b (m_dim b) + (\<Sum>d<m_dim b. wt b d * of_int (p d))
      else if m_degree b = 2 then wt b (m_dim b * 2) + (\<Sum>d<m_dim b. quad_val b d (p d))
      else 0)"

definition wf_box :: "ivpbox \<Rightarrow> bool" where
  "wf_box b \<longleftrightarrow> length (m_pts b) = m_dim b * 2 \<and> length (m_bds b) = m_dim b * 2 \<and>
     m_dim b < 2 ^ 16 \<and> m_degree b < 2 ^ 16 \<and>
     length (m_wts b) = (if m_dim b = 0 then 0 else getWtc b)"

definition inclusive :: "ivpbox \<Rightarrow> bool" where
  "inclusive b \<longleftrightarrow> (\<forall>d<m_dim b. bd b d 0 \<and> bd b d 1)"

definition ordered_box :: "ivpbox \<Rightarrow> bool" where
  "ordered_box b \<longleftrightarrow> (\<forall>d<m_dim b. pt b d 0 \<le> pt b d 1)"

definition point_box :: "nat \<Rightarrow> nat \<Rightarrow> (nat \<Rightarrow> int) \<Rightarrow> ivpbox" where
  "point_box n degree p =
     foldl (\<lambda>r d. setBDS d True True (setPTS d (p d) (p d) r))
       (IvPBox_new (int n) (int degree)) [0..<n]"

section \<open>Field access\<close>

lemma index_eq_iff: "e < 2 \<Longrightarrow> e' < 2 \<Longrightarrow> d * 2 + e = d' * 2 + e' \<longleftrightarrow> d = d' \<and> e = (e'::nat)"
  by presburger

lemma index_less: "d < n \<Longrightarrow> e < 2 \<Longrightarrow> d * 2 + e < n * (2::nat)"
  by presburger

lemma set_fields [box_simps]:
  "m_dim (set_pt d e v b) = m_dim b" "m_degree (set_pt d e v b) = m_degree b"
  "m_wts (set_pt d e v b) = m_wts b" "m_bds (set_pt d e v b) = m_bds b"
  "m_of (set_pt d e v b) = m_of b" "m_markval (set_pt d e v b) = m_markval b"
  "m_dim (set_bd d e w b) = m_dim b" "m_degree (set_bd d e w b) = m_degree b"
  "m_wts (set_bd d e w b) = m_wts b" "m_pts (set_bd d e w b) = m_pts b"
  "m_of (set_bd d e w b) = m_of b" "m_markval (set_bd d e w b) = m_markval b"
  "m_dim (set_wt i x b) = m_dim b" "m_degree (set_wt i x b) = m_degree b"
  "m_pts (set_wt i x b) = m_pts b" "m_bds (set_wt i x b) = m_bds b"
  "m_of (set_wt i x b) = m_of b" "m_markval (set_wt i x b) = m_markval b"
  "length (m_pts (set_pt d e v b)) = length (m_pts b)"
  "length (m_bds (set_bd d e w b)) = length (m_bds b)"
  "length (m_wts (set_wt i x b)) = length (m_wts b)"
  by (simp_all add: set_pt_def set_bd_def set_wt_def)

lemma getWtc_set [box_simps]:
  "getWtc (set_pt d e v b) = getWtc b" "getWtc (set_bd d e w b) = getWtc b"
  "getWtc (set_wt i x b) = getWtc b"
  by (simp_all add: getWtc_def box_simps)

lemma wf_set [box_simps]:
  "wf_box (set_pt d e v b) = wf_box b" "wf_box (set_bd d e w b) = wf_box b"
  "wf_box (set_wt i x b) = wf_box b"
  by (simp_all add: wf_box_def box_simps)

lemma read_set_other [box_simps]:
  "pt (set_bd d e w b) d' e' = pt b d' e'" "bd (set_pt d e v b) d' e' = bd b d' e'"
  "pt (set_wt i x b) d' e' = pt b d' e'" "bd (set_wt i x b) d' e' = bd b d' e'"
  "wt (set_pt d e v b) j = wt b j" "wt (set_bd d e w b) j = wt b j"
  by (simp_all add: pt_def bd_def wt_def box_simps)

lemma pt_set_pt [box_simps]:
  "wf_box b \<Longrightarrow> d < m_dim b \<Longrightarrow> e < 2 \<Longrightarrow> e' < 2 \<Longrightarrow>
   pt (set_pt d e v b) d' e' = (if d' = d \<and> e' = e then v else pt b d' e')"
  using index_less [of d "m_dim b" e] index_eq_iff [of e e' d d']
  by (auto simp: pt_def set_pt_def wf_box_def nth_list_update)

lemma bd_set_bd [box_simps]:
  "wf_box b \<Longrightarrow> d < m_dim b \<Longrightarrow> e < 2 \<Longrightarrow> e' < 2 \<Longrightarrow>
   bd (set_bd d e v b) d' e' = (if d' = d \<and> e' = e then v else bd b d' e')"
  using index_less [of d "m_dim b" e] index_eq_iff [of e e' d d']
  by (auto simp: bd_def set_bd_def wf_box_def nth_list_update)

text \<open>The two ends of a dimension with their types, and loops that set one dimension a step.\<close>

definition ends :: "ivpbox \<Rightarrow> nat \<Rightarrow> int \<times> int \<times> bool \<times> bool" where
  "ends b d = (pt b d 0, pt b d 1, bd b d 0, bd b d 1)"

definition same_shape :: "ivpbox \<Rightarrow> ivpbox \<Rightarrow> bool" where
  "same_shape r b \<longleftrightarrow> m_dim r = m_dim b \<and> m_degree r = m_degree b \<and> wf_box r \<and>
     m_wts r = m_wts b \<and> m_of r = m_of b \<and> m_markval r = m_markval b"

lemma same_shape_refl: "wf_box b \<Longrightarrow> same_shape b b"
  by (simp add: same_shape_def)

lemma same_shapeD: "same_shape r b \<Longrightarrow> wf_box r" "same_shape r b \<Longrightarrow> m_dim r = m_dim b"
  by (simp_all add: same_shape_def)

lemma foldl_dims:
  assumes "wf_box r0" "n \<le> m_dim r0"
    and step: "\<And>d r. d < n \<Longrightarrow> same_shape r r0 \<Longrightarrow>
      same_shape (F d r) r0 \<and> ends (F d r) d = V d \<and> (\<forall>d'. d' \<noteq> d \<longrightarrow> ends (F d r) d' = ends r d')"
  shows "same_shape (foldl (\<lambda>r d. F d r) r0 [0..<n]) r0 \<and>
    (\<forall>d. ends (foldl (\<lambda>r d. F d r) r0 [0..<n]) d = (if d < n then V d else ends r0 d))"
  using assms(2) step
proof (induction n)
  case 0
  then show ?case by (simp add: same_shape_refl assms(1))
next
  case (Suc n)
  let ?r = "foldl (\<lambda>r d. F d r) r0 [0..<n]"
  from Suc have IH: "same_shape ?r r0" "\<forall>d. ends ?r d = (if d < n then V d else ends r0 d)"
    by auto
  from Suc.prems(2) [of n ?r] IH(1)
  have "same_shape (F n ?r) r0" "ends (F n ?r) n = V n"
    "\<forall>d'. d' \<noteq> n \<longrightarrow> ends (F n ?r) d' = ends ?r d'" by auto
  with IH(2) show ?case by (auto simp: less_Suc_eq)
qed

lemma foldl_dims_update:
  assumes "wf_box r0" "n \<le> m_dim r0"
    and step: "\<And>d r. d < n \<Longrightarrow> same_shape r r0 \<Longrightarrow>
      same_shape (F d r) r0 \<and> ends (F d r) d = V d (ends r d) \<and> (\<forall>d'. d' \<noteq> d \<longrightarrow> ends (F d r) d' = ends r d')"
  shows "same_shape (foldl (\<lambda>r d. F d r) r0 [0..<n]) r0 \<and>
    (\<forall>d. ends (foldl (\<lambda>r d. F d r) r0 [0..<n]) d = (if d < n then V d (ends r0 d) else ends r0 d))"
  using assms(2) step
proof (induction n)
  case 0
  then show ?case by (simp add: same_shape_refl assms(1))
next
  case (Suc n)
  let ?r = "foldl (\<lambda>r d. F d r) r0 [0..<n]"
  from Suc have IH: "same_shape ?r r0" "\<forall>d. ends ?r d = (if d < n then V d (ends r0 d) else ends r0 d)"
    by auto
  from Suc.prems(2) [of n ?r] IH(1)
  have "same_shape (F n ?r) r0" "ends (F n ?r) n = V n (ends ?r n)"
    "\<forall>d'. d' \<noteq> n \<longrightarrow> ends (F n ?r) d' = ends ?r d'" by auto
  with IH(2) show ?case by (auto simp: less_Suc_eq)
qed

lemma ends_eq_iff: "ends b d = ends g d' \<longleftrightarrow> pt b d 0 = pt g d' 0 \<and> pt b d 1 = pt g d' 1 \<and>
    bd b d 0 = bd g d' 0 \<and> bd b d 1 = bd g d' 1"
  by (simp add: ends_def)

lemma foldl_set_wt:
  "foldl (\<lambda>r i. set_wt i (f i) r) b is = b\<lparr>m_wts := foldl (\<lambda>xs i. xs[i := f i]) (m_wts b) is\<rparr>"
  by (induction "is" arbitrary: b) (auto simp: set_wt_def)

lemma set_wts_loop: "length (m_wts r) = n \<Longrightarrow>
    foldl (\<lambda>r i. set_wt i (f i) r) r [0..<n] = r\<lparr>m_wts := map f [0..<n]\<rparr>"
  by (simp add: foldl_set_wt foldl_list_update_map)

section \<open>Construction and copying\<close>

lemma wf_new [simp, intro]: "wf_box (IvPBox_new d g)"
  by (auto simp: IvPBox_new_def wf_box_def getWtc_def Let_def nat_less_iff)

lemma new_fields [simp]:
  "m_dim (IvPBox_new d g) = nat (d mod 2 ^ 16)" "m_degree (IvPBox_new d g) = nat (g mod 2 ^ 16)"
  by (simp_all add: IvPBox_new_def Let_def)

lemma new_dim [simp]: "n < 2 ^ 16 \<Longrightarrow> nat (int n mod 2 ^ 16) = n"
  by simp

lemma new_inclusive: "inclusive (IvPBox_new d g)"
  by (auto simp: inclusive_def bd_def IvPBox_new_def Let_def)

lemma all_less_Suc2: "(\<forall>i<n * 2. P i) \<longleftrightarrow> (\<forall>d<n. P (d * 2 + 0) \<and> P (d * 2 + Suc 0))" for n :: nat
proof
  assume R: "\<forall>d<n. P (d * 2 + 0) \<and> P (d * 2 + Suc 0)"
  show "\<forall>i<n * 2. P i"
  proof (intro allI impI)
    fix i assume "i < n * 2"
    then have "i div 2 < n" by auto
    with R have "P (i div 2 * 2 + 0)" "P (i div 2 * 2 + Suc 0)" by blast+
    moreover have "i = i div 2 * 2 + 0 \<or> i = i div 2 * 2 + Suc 0" by presburger
    ultimately show "P i" by metis
  qed
qed auto

lemma pts_eqI:
  assumes "wf_box b" "wf_box g" "m_dim b = m_dim g"
    and e: "\<And>d. d < m_dim b \<Longrightarrow> ends b d = ends g d"
  shows "m_pts b = m_pts g" "m_bds b = m_bds g"
proof -
  have "\<forall>i<m_dim g * 2. m_pts b ! i = m_pts g ! i"
    unfolding all_less_Suc2 using e assms(3) by (auto simp: ends_def pt_def)
  then show "m_pts b = m_pts g" using assms(1-3) by (intro nth_equalityI) (auto simp: wf_box_def)
  have "\<forall>i<m_dim g * 2. m_bds b ! i = m_bds g ! i"
    unfolding all_less_Suc2 using e assms(3) by (auto simp: ends_def bd_def)
  then show "m_bds b = m_bds g" using assms(1-3) by (intro nth_equalityI) (auto simp: wf_box_def)
qed

lemma ends_setPTS: "wf_box r \<Longrightarrow> d < m_dim r \<Longrightarrow>
    ends (setPTS d l h r) d' = (if d' = d then (l, h, bd r d 0, bd r d 1) else ends r d')"
  by (simp add: setPTS_def ends_def box_simps)

lemma ends_setBDS: "wf_box r \<Longrightarrow> d < m_dim r \<Longrightarrow>
    ends (setBDS d l h r) d' = (if d' = d then (pt r d 0, pt r d 1, l, h) else ends r d')"
  by (simp add: setBDS_def ends_def box_simps)

lemma same_shape_set [intro]: "same_shape r b \<Longrightarrow> same_shape (setPTS d l h r) b"
  "same_shape r b \<Longrightarrow> same_shape (setBDS d u v r) b"
  by (simp_all add: same_shape_def setPTS_def setBDS_def box_simps)

lemma set_ends: "same_shape r b \<Longrightarrow> d < m_dim b \<Longrightarrow>
    ends (setBDS d u v (setPTS d l h r)) d' = (if d' = d then (l, h, u, v) else ends r d')"
  by (auto simp: same_shape_def ends_def setBDS_def setPTS_def box_simps)

theorem copy_from_eq:
  assumes "wf_box b" "wf_box g" "0 < m_dim b" "m_dim g = m_dim b" "m_degree g = m_degree b"
  shows "copy_from b g = Some g"
proof -
  let ?F = "\<lambda>r d. setBDS d (bd g d 0) (bd g d 1) (setPTS d (pt g d 0) (pt g d 1) r)"
  let ?b1 = "foldl ?F b [0..<m_dim b]"
  have "same_shape ?b1 b \<and> (\<forall>d. ends ?b1 d = (if d < m_dim b then ends g d else ends b d))"
    by (rule foldl_dims) (auto simp: assms(1) set_ends, auto simp: ends_def)
  then have b1: "same_shape ?b1 b" "\<forall>d<m_dim b. ends ?b1 d = ends g d" by auto
  have pts: "m_pts ?b1 = m_pts g" "m_bds ?b1 = m_bds g"
    using b1 assms by (auto intro!: pts_eqI simp: same_shape_def)
  have len: "length (m_wts b) = getWtc b" "length (m_wts g) = getWtc b"
    using assms by (auto simp: wf_box_def getWtc_def)
  have "map (\<lambda>i. wt g i) [0..<getWtc b] = m_wts g"
    using len by (intro nth_equalityI) (auto simp: wt_def)
  then have "foldl (\<lambda>r i. set_wt i (wt g i) r) ?b1 [0..<getWtc b] = ?b1\<lparr>m_wts := m_wts g\<rparr>"
    using b1(1) len set_wts_loop [of ?b1 "getWtc b" "wt g"] by (simp add: same_shape_def)
  then show ?thesis
    using assms pts b1(1) len by (auto simp: copy_from_def same_shape_def Let_def getWtc_def)
qed

lemma box_copy_eq: "wf_box b \<Longrightarrow> 0 < m_dim b \<Longrightarrow> box_copy b = Some b"
  unfolding box_copy_def by (rule copy_from_eq [OF wf_new]) (simp_all add: wf_box_def)

lemma map_nth_upto: "length xs = n \<Longrightarrow> map (\<lambda>i. xs ! i) [0..<n] = xs"
  by (auto intro: nth_equalityI)

lemma copy_new_eq: "wf_box b \<Longrightarrow> IvPBox_copy_new b = b"
  by (cases b) (auto simp: IvPBox_copy_new_def wf_box_def getWtc_def map_nth_upto simp del: upt_Suc)

lemma overwrite: "length xs = n \<Longrightarrow> length ys = n \<Longrightarrow>
    foldl (\<lambda>xs i. xs[i := ys ! i]) xs [0..<n] = ys"
  by (simp add: foldl_list_update_map map_nth_upto)

theorem box_assign_eq:
  assumes "wf_box b" "wf_box right"
  shows "box_assign b right = right"
proof -
  define wtc where "wtc = m_degree right * m_dim right + 1"
  define w where "w = (if m_dim b \<noteq> m_dim right \<or> m_degree b \<noteq> m_degree right
            then (if 0 < m_dim right then replicate wtc 0 else []) else m_wts b)"
  have w: "length w = length (m_wts right)"
    using assms by (auto simp: wf_box_def getWtc_def w_def wtc_def)
  have wr: "m_wts right = [] \<or> length (m_wts right) = wtc"
    using assms(2) by (auto simp: wf_box_def getWtc_def wtc_def)
  have "(if w \<noteq> [] then foldl (\<lambda>xs i. xs[i := m_wts right ! i]) w [0..<wtc] else w) = m_wts right"
    using wr w overwrite [of w wtc "m_wts right"] by auto
  moreover have "foldl (\<lambda>xs i. xs[i := m_pts right ! i])
      (if m_dim b \<noteq> m_dim right then replicate (m_dim right * 2) 0 else m_pts b)
      [0..<m_dim right * 2] = m_pts right"
    using assms by (intro overwrite) (auto simp: wf_box_def)
  moreover have "foldl (\<lambda>xs i. xs[i := m_bds right ! i])
      (if m_dim b \<noteq> m_dim right then replicate (m_dim right * 2) False else m_bds b)
      [0..<m_dim right * 2] = m_bds right"
    using assms by (intro overwrite) (auto simp: wf_box_def)
  ultimately have "box_assign b right = \<lparr>m_dim = m_dim right, m_degree = m_degree right,
      m_pts = m_pts right, m_bds = m_bds right, m_wts = m_wts right, m_of = m_of right,
      m_markval = m_markval right\<rparr>"
    unfolding box_assign_def Let_def w_def wtc_def by (simp only: )
  then show ?thesis by simp
qed

section \<open>Points and the point box\<close>

lemma point_box_facts:
  assumes "n < 2 ^ 16" "deg < 2 ^ 16"
  shows "wf_box (point_box n deg p)" "m_dim (point_box n deg p) = n"
    "m_degree (point_box n deg p) = deg"
    "d < n \<Longrightarrow> ends (point_box n deg p) d = (p d, p d, True, True)"
proof -
  let ?b = "IvPBox_new (int n) (int deg)"
  have "same_shape (point_box n deg p) ?b \<and> (\<forall>d. ends (point_box n deg p) d =
      (if d < n then (p d, p d, True, True) else ends ?b d))"
    unfolding point_box_def by (rule foldl_dims) (use assms in \<open>auto simp: set_ends\<close>)
  then show "wf_box (point_box n deg p)" "m_dim (point_box n deg p) = n"
    "m_degree (point_box n deg p) = deg"
    "d < n \<Longrightarrow> ends (point_box n deg p) d = (p d, p d, True, True)"
    using assms by (auto simp: same_shape_def)
qed

lemma point_box_ends: "n < 2 ^ 16 \<Longrightarrow> deg < 2 ^ 16 \<Longrightarrow> d < n \<Longrightarrow>
    pt (point_box n deg p) d 0 = p d \<and> pt (point_box n deg p) d 1 = p d \<and>
    bd (point_box n deg p) d 0 \<and> bd (point_box n deg p) d 1"
  using point_box_facts(4) [of n deg d p] by (simp add: ends_def)

text \<open>
  A pointlike box: inclusive and one point wide. \<open>isPtBox\<close> accepts these, and beside them
  only boxes with an open unit interval, which hold no integer point.
\<close>

definition at_point :: "ivpbox \<Rightarrow> (nat \<Rightarrow> int) \<Rightarrow> bool" where
  "at_point g p \<longleftrightarrow> (\<forall>d<m_dim g. ends g d = (p d, p d, True, True))"

lemma at_point_ends: "at_point g p \<Longrightarrow> d < m_dim g \<Longrightarrow>
    pt g d 0 = p d \<and> pt g d (Suc 0) = p d \<and> bd g d 0 \<and> bd g d (Suc 0)"
  by (simp add: at_point_def ends_def)

lemma at_point_box: "n < 2 ^ 16 \<Longrightarrow> deg < 2 ^ 16 \<Longrightarrow> at_point (point_box n deg p) p"
  by (simp add: at_point_def point_box_facts)

lemma at_point_isPtBox: "at_point g p \<Longrightarrow> 0 < m_dim g \<Longrightarrow> isPtBox g"
  by (auto simp: isPtBox_def list_all_upt at_point_ends)

theorem isPtBox_iff_at_point:
  "(\<exists>p. in_box g p) \<Longrightarrow> isPtBox g \<longleftrightarrow> 0 < m_dim g \<and> at_point g (\<lambda>d. pt g d 0)"
proof -
  assume "\<exists>p. in_box g p"
  then obtain p where p: "in_box g p" ..
  have "pt g d 0 = pt g d 1" if "isPtBox g" "d < m_dim g" for d
  proof (rule ccontr)
    assume ne: "pt g d 0 \<noteq> pt g d 1"
    from that have "if pt g d 0 \<noteq> pt g d 1 then pt g d 1 - pt g d 0 = 1 \<and> \<not> (bd g d 0 \<or> bd g d 1)
      else bd g d 0 \<and> bd g d 1" unfolding isPtBox_def list_all_upt by blast
    with ne have "pt g d 1 - pt g d 0 = 1" "\<not> bd g d 0" "\<not> bd g d 1" by simp_all
    moreover from p that(2) have "(pt g d 0 < p d \<or> pt g d 0 = p d \<and> bd g d 0)"
      "(p d < pt g d 1 \<or> p d = pt g d 1 \<and> bd g d 1)" by (auto simp: in_box_def)
    ultimately show False by linarith
  qed
  then have eq: "ends g d = (pt g d 0, pt g d 0, True, True)" if "isPtBox g" "d < m_dim g" for d
  proof -
    have "if pt g d 0 \<noteq> pt g d 1 then pt g d 1 - pt g d 0 = 1 \<and> \<not> (bd g d 0 \<or> bd g d 1)
      else bd g d 0 \<and> bd g d 1" using that unfolding isPtBox_def list_all_upt by blast
    with \<open>\<And>d. isPtBox g \<Longrightarrow> d < m_dim g \<Longrightarrow> pt g d 0 = pt g d 1\<close> [OF that]
    show ?thesis by (simp add: ends_def)
  qed
  then have "isPtBox g \<Longrightarrow> at_point g (\<lambda>d. pt g d 0)" by (simp add: at_point_def)
  moreover have "isPtBox g \<Longrightarrow> 0 < m_dim g" by (simp add: isPtBox_def)
  ultimately show ?thesis using at_point_isPtBox by blast
qed

section \<open>Intersection\<close>

lemma in_box_closure: "in_box b p \<Longrightarrow> in_closure b p"
  by (force simp: in_box_def in_closure_def)

lemma inclusive_in_box: "inclusive b \<Longrightarrow> in_box b p \<longleftrightarrow> in_closure b p"
  by (force simp: in_box_def in_closure_def inclusive_def)

theorem box_intersect_complete:
  assumes "in_box b p" "in_box g p" "m_dim g = m_dim b"
  shows "box_intersect b g"
proof -
  have "(pt b d 0 < p d \<or> pt b d 0 = p d \<and> bd b d 0) \<and> (p d < pt b d 1 \<or> p d = pt b d 1 \<and> bd b d 1) \<and>
     (pt g d 0 < p d \<or> pt g d 0 = p d \<and> bd g d 0) \<and> (p d < pt g d 1 \<or> p d = pt g d 1 \<and> bd g d 1)"
    if "d < m_dim b" for d
    using assms that by (auto simp: in_box_def)
  then show ?thesis
    unfolding box_intersect_def list_all_upt by force
qed

theorem box_intersect_sound:
  assumes "box_intersect b g" "inclusive b" "inclusive g" "ordered_box b" "ordered_box g"
    "m_dim g = m_dim b"
  shows "in_box b (\<lambda>d. max (pt b d 0) (pt g d 0)) \<and> in_box g (\<lambda>d. max (pt b d 0) (pt g d 0))"
  using assms by (auto simp: inclusive_in_box in_closure_def box_intersect_def list_all_upt
      ordered_box_def not_less)

lemma box_intersect_sym: "m_dim g = m_dim b \<Longrightarrow> box_intersect b g = box_intersect g b"
  unfolding box_intersect_def list_all_upt by auto

lemma box_intersect_point:
  "at_point g p \<Longrightarrow> m_dim g = m_dim b \<Longrightarrow> box_intersect g b \<longleftrightarrow> in_box b p"
  unfolding box_intersect_def list_all_upt in_box_def
  by (force simp: at_point_ends)

definition isect_ends :: "ivpbox \<Rightarrow> ivpbox \<Rightarrow> nat \<Rightarrow> int \<times> int \<times> bool \<times> bool" where
  "isect_ends b g d =
     (max (pt b d 0) (pt g d 0), min (pt b d 1) (pt g d 1),
      (pt b d 0 \<ge> pt g d 0 \<longrightarrow> bd b d 0) \<and> (pt b d 0 \<le> pt g d 0 \<longrightarrow> bd g d 0),
      (pt b d 1 \<le> pt g d 1 \<longrightarrow> bd b d 1) \<and> (pt b d 1 \<ge> pt g d 1 \<longrightarrow> bd g d 1))"

lemma isect_low_ends: "wf_box r \<Longrightarrow> d < m_dim r \<Longrightarrow>
    ends (isect_low b g d r) d' =
      (if d' = d then (fst (isect_ends b g d), pt r d 1, fst (snd (snd (isect_ends b g d))), bd r d 1)
       else ends r d')"
  by (rule linorder_cases [of "pt b d 0" "pt g d 0"])
    (auto simp: isect_low_def isect_ends_def ends_def box_simps Let_def)

lemma isect_high_ends: "wf_box r \<Longrightarrow> d < m_dim r \<Longrightarrow>
    ends (isect_high b g d r) d' =
      (if d' = d then (pt r d 0, fst (snd (isect_ends b g d)), bd r d 0, snd (snd (snd (isect_ends b g d))))
       else ends r d')"
  by (rule linorder_cases [of "pt b d 1" "pt g d 1"])
    (auto simp: isect_high_def isect_ends_def ends_def box_simps Let_def)

lemma same_shape_isect: "same_shape r r0 \<Longrightarrow> same_shape (isect_low b g d r) r0"
  "same_shape r r0 \<Longrightarrow> same_shape (isect_high b g d r) r0"
  by (auto simp: same_shape_def isect_low_def isect_high_def box_simps Let_def)

lemma isect_both_ends: "wf_box r \<Longrightarrow> d < m_dim r \<Longrightarrow>
    ends (isect_high b g d (isect_low b g d r)) d' = (if d' = d then isect_ends b g d else ends r d')"
  using same_shape_isect(1) [of r r b g d] isect_low_ends [of r d b g d]
  by (auto simp: same_shape_refl same_shape_def isect_high_ends isect_low_ends ends_def [of "isect_low b g d r" d]
      isect_ends_def)

text \<open>
  What \<open>intersect(gbox, rbox)\<close> leaves in \<open>rbox\<close>: the ends common to both and the summed
  weights, with the old \<open>m_of\<close> and mark.
\<close>

lemma intersect_into_Some:
  assumes "wf_box b" "wf_box g" "wf_box r" "0 < m_dim b" "m_dim g = m_dim b" "m_dim r = m_dim b"
    "m_degree g = m_degree b" "m_degree r = m_degree b" "box_intersect b g"
  obtains r' where "intersect_into b g (Some r) = (True, Some r')" "wf_box r'"
    "m_dim r' = m_dim b" "m_degree r' = m_degree b" "m_of r' = m_of r"
    "\<forall>d<m_dim b. ends r' d = isect_ends b g d"
    "m_wts r' = map (\<lambda>i. wt b i + wt g i) [0..<getWtc b]"
proof -
  let ?F = "\<lambda>r d. isect_high b g d (isect_low b g d r)"
  let ?r1 = "foldl ?F r [0..<m_dim b]"
  have "same_shape ?r1 r \<and> (\<forall>d. ends ?r1 d = (if d < m_dim b then isect_ends b g d else ends r d))"
    by (rule foldl_dims) (simp_all add: assms same_shape_isect isect_both_ends same_shapeD)
  then have r1: "same_shape ?r1 r" "\<forall>d<m_dim b. ends ?r1 d = isect_ends b g d" by auto
  let ?ws = "map (\<lambda>i. wt b i + wt g i) [0..<getWtc b]"
  have wts: "foldl (\<lambda>r i. set_wt i (wt b i + wt g i) r) ?r1 [0..<getWtc b] = ?r1\<lparr>m_wts := ?ws\<rparr>"
    by (rule set_wts_loop) (use r1(1) assms in \<open>simp add: same_shape_def wf_box_def getWtc_def\<close>)
  have "ends (?r1\<lparr>m_wts := ?ws\<rparr>) d = ends ?r1 d" for d
    by (simp add: ends_def pt_def bd_def)
  moreover have "wf_box (?r1\<lparr>m_wts := ?ws\<rparr>)"
    using r1(1) assms by (auto simp: same_shape_def wf_box_def getWtc_def)
  ultimately show ?thesis
    using that [of "?r1\<lparr>m_wts := ?ws\<rparr>"] r1 assms
    by (simp add: intersect_into_def wts Let_def same_shape_def)
qed

lemma intersect_into_None: "intersect_into b g None =
    (if box_intersect b g
     then intersect_into b g (Some (IvPBox_new (int (m_dim b)) (int (m_degree b)))) else (False, None))"
  by (simp add: intersect_into_def Let_def)

lemma in_box_ends: "in_box b p \<longleftrightarrow> (\<forall>d<m_dim b. case ends b d of (l, h, lb, hb) \<Rightarrow>
    (l < p d \<or> l = p d \<and> lb) \<and> (p d < h \<or> p d = h \<and> hb))"
  by (simp add: in_box_def ends_def)

lemma isect_ends_point: "(case isect_ends b g d of (l, h, lb, hb) \<Rightarrow>
    (l < p d \<or> l = p d \<and> lb) \<and> (p d < h \<or> p d = h \<and> hb)) \<longleftrightarrow>
    (case ends b d of (l, h, lb, hb) \<Rightarrow> (l < p d \<or> l = p d \<and> lb) \<and> (p d < h \<or> p d = h \<and> hb)) \<and>
    (case ends g d of (l, h, lb, hb) \<Rightarrow> (l < p d \<or> l = p d \<and> lb) \<and> (p d < h \<or> p d = h \<and> hb))"
  unfolding isect_ends_def ends_def max_def min_def by (simp, linarith)

lemma in_box_isect:
  assumes "m_dim r = m_dim b" "m_dim g = m_dim b" "\<forall>d<m_dim b. ends r d = isect_ends b g d"
  shows "in_box r p \<longleftrightarrow> in_box b p \<and> in_box g p"
  unfolding in_box_ends using assms isect_ends_point [where b = b and g = g and p = p] by auto

lemma ival_isect:
  assumes "0 < m_dim b" "m_dim r = m_dim b" "m_dim g = m_dim b" "m_degree r = m_degree b"
    "m_degree g = m_degree b" "m_wts r = map (\<lambda>i. wt b i + wt g i) [0..<getWtc b]"
  shows "ival r p = ival b p + ival g p"
proof -
  have "wt r i = wt b i + wt g i" if "i < getWtc b" for i
    using assms(6) that by (simp add: wt_def)
  then show ?thesis using assms
    by (auto simp: ival_def getWtc_def quad_val_def sum.distrib [symmetric] algebra_simps intro!: sum.cong)
qed

section \<open>Values and bounds\<close>

lemma ptVal_point:
  assumes "at_point g p" "m_dim g = m_dim b" "in_box b p" "0 < m_dim b"
  shows "ptVal b g = Some (ival b p)"
proof -
  have "box_intersect g b" "isPtBox g"
    using assms by (auto simp: box_intersect_point intro: at_point_isPtBox)
  moreover have e: "d < m_dim b \<Longrightarrow> pt g d 0 = p d" for d
    using assms(1,2) at_point_ends by simp
  moreover have "(\<Sum>d<m_dim b. wt b d * of_int (pt g d 0)) = (\<Sum>d<m_dim b. wt b d * of_int (p d))"
    "(\<Sum>d<m_dim b. wt b d * of_int (pt g d 0) * of_int (pt g d 0) + wt b (d + m_dim b) * of_int (pt g d 0))
     = (\<Sum>d<m_dim b. quad_val b d (p d))"
    by (auto intro!: sum.cong simp: e quad_val_def)
  ultimately show ?thesis
    using assms(2) by (simp add: ptVal_def ival_def foldl_add_sum)
qed

lemma maxVal_eq: "maxVal b =
    (if m_degree b = 0 then wt b 0
     else if m_degree b = 1 then wt b (m_dim b) + (\<Sum>d<m_dim b. wt b d * of_int (maxPt_coord b d))
     else if m_degree b = 2 then wt b (2 * m_dim b) + (\<Sum>d<m_dim b. quad_val b d (maxPt_coord b d))
     else 0)"
  unfolding maxVal_def Let_def foldl_add_sum
  by (auto intro!: sum.cong simp: maxPt_coord_def)

lemma minVal_eq: "minVal b =
    (if m_degree b = 0 then wt b 0
     else if m_degree b = 1 then
       wt b (m_dim b) + (\<Sum>d<m_dim b. wt b d * of_int (if wt b d < 0 then pt b d 1 else pt b d 0))
     else if m_degree b = 2 then wt b (2 * m_dim b) + (\<Sum>d<m_dim b. quad_val b d (low_pt b d))
     else 0)"
  unfolding minVal_def Let_def foldl_add_sum by (auto intro!: sum.cong)

theorem maxVal_upper:
  assumes "m_degree b \<le> 1" "in_closure b p"
  shows "ival b p \<le> maxVal b"
proof -
  have "wt b d * of_int (p d) \<le> wt b d * of_int (if wt b d < 0 then pt b d 0 else pt b d 1)"
    if "d < m_dim b" for d
    using assms(2) that by (auto simp: in_closure_def mult_left_mono mult_left_mono_neg)
  then show ?thesis
    using assms(1) by (auto simp: ival_def maxVal_eq maxPt_coord_def le_Suc_eq intro!: sum_mono)
qed

theorem minVal_lower:
  assumes "m_degree b \<le> 1" "in_closure b p"
  shows "minVal b \<le> ival b p"
proof -
  have "wt b d * of_int (if wt b d < 0 then pt b d 1 else pt b d 0) \<le> wt b d * of_int (p d)"
    if "d < m_dim b" for d
    using assms(2) that by (auto simp: in_closure_def mult_left_mono mult_left_mono_neg)
  then show ?thesis
    using assms(1) by (auto simp: ival_def minVal_eq le_Suc_eq intro!: sum_mono)
qed

text \<open>The candidates of degree 2 lie in the box, so its best candidate does.\<close>

lemma c_pts_in: "pt b d 0 \<le> pt b d 1 \<Longrightarrow> x \<in> set (c_pts b d) \<Longrightarrow> pt b d 0 \<le> x \<and> x \<le> pt b d 1"
  by (auto simp: c_pts_def Let_def le_floor_iff floor_le_iff ceiling_le_iff le_ceiling_iff
      split: if_splits)

lemma c_pts_nonempty: "set (c_pts b d) = insert (hd (c_pts b d)) (set (tl (c_pts b d)))"
  by (simp add: c_pts_def Let_def)

lemma high_pt_in: "high_pt b d \<in> set (c_pts b d)"
  unfolding high_pt_def by (metis c_pts_nonempty run_best_in)

lemma low_pt_in: "low_pt b d \<in> set (c_pts b d)"
  unfolding low_pt_def by (metis c_pts_nonempty run_best_in)

lemma ends_in_c_pts: "pt b d 0 \<in> set (c_pts b d)" "pt b d 1 \<in> set (c_pts b d)"
  by (simp_all add: c_pts_def Let_def)

lemma high_pt_best: "x \<in> set (c_pts b d) \<Longrightarrow> quad_val b d x \<le> quad_val b d (high_pt b d)"
  unfolding high_pt_def using run_best_greater [of x "hd (c_pts b d)" "tl (c_pts b d)" "quad_val b d"]
  by (simp add: c_pts_nonempty [symmetric])

lemma half_between: "(l::int) \<le> h \<Longrightarrow> l \<le> (h - l) sdiv 2 + l \<and> (h - l) sdiv 2 + l \<le> h"
  using sdiv_nonneg [of "h - l" 2] by simp

theorem maxPt_coord_in:
  assumes "m_degree b \<le> 2" "ordered_box b"
  shows "in_closure b (maxPt_coord b)"
  unfolding in_closure_def
proof (intro allI impI)
  fix d assume "d < m_dim b"
  then have o: "pt b d 0 \<le> pt b d 1" using assms(2) by (simp add: ordered_box_def)
  then show "pt b d 0 \<le> maxPt_coord b d \<and> maxPt_coord b d \<le> pt b d 1"
    using half_between [OF o] c_pts_in [OF o high_pt_in] by (auto simp: maxPt_coord_def)
qed

theorem ival_maxPt: "m_degree b \<le> 2 \<Longrightarrow> ival b (maxPt_coord b) = maxVal b"
  by (auto simp: maxVal_eq ival_def mult.commute)

lemma maxPt_into_facts:
  assumes "wf_box g" "m_dim g = m_dim b" "m_degree b \<le> 2"
  shows "same_shape (maxPt_into b g) g" "at_point (maxPt_into b g) (maxPt_coord b)"
proof -
  let ?F = "\<lambda>r d. setBDS d True True (setPTS d (maxPt_coord b d) (maxPt_coord b d) r)"
  have "maxPt_into b g = foldl ?F g [0..<m_dim b]"
    using assms by (simp add: maxPt_into_def)
  moreover have "same_shape (foldl ?F g [0..<m_dim b]) g \<and> (\<forall>d. ends (foldl ?F g [0..<m_dim b]) d =
      (if d < m_dim b then (maxPt_coord b d, maxPt_coord b d, True, True) else ends g d))"
    by (rule foldl_dims) (use assms in \<open>auto simp: set_ends\<close>)
  ultimately show "same_shape (maxPt_into b g) g" "at_point (maxPt_into b g) (maxPt_coord b)"
    using assms by (auto simp: at_point_def same_shape_def)
qed

text \<open>The point that \<open>maxPt\<close> returns lies in the box and has the value \<open>maxVal\<close>.\<close>

theorem maxPt_attains:
  assumes "wf_box b" "0 < m_dim b" "m_degree b \<le> 2" "ordered_box b" "inclusive b"
  shows "ptVal b (maxPt b) = Some (maxVal b)"
proof -
  let ?new = "IvPBox_new (int (m_dim b)) (int (m_degree b))"
  have "m_dim ?new = m_dim b" using assms(1) by (simp add: wf_box_def)
  then have "at_point (maxPt b) (maxPt_coord b)" "m_dim (maxPt b) = m_dim b"
    unfolding maxPt_def using maxPt_into_facts [of ?new b] assms by (auto simp: same_shape_def)
  then show ?thesis
    using ptVal_point [of "maxPt b" "maxPt_coord b" b] assms maxPt_coord_in ival_maxPt
    by (simp add: inclusive_in_box)
qed

section \<open>Scaling and moving the interior function\<close>

lemma foldl_scale: "foldl (\<lambda>xs i. xs[i := xs ! i * a]) xs [0..<n]
    = map (\<lambda>w. w * a) (take n xs) @ drop n (xs :: real list)" if "n \<le> length xs"
  using that
proof (induction n)
  case (Suc n)
  then have "foldl (\<lambda>xs i. xs[i := xs ! i * a]) xs [0..<n]
      = map (\<lambda>w. w * a) (take n xs) @ drop n xs" by simp
  moreover have "drop n xs = xs ! n # drop (Suc n) xs" using Suc.prems by (simp add: Cons_nth_drop_Suc)
  moreover have "take (Suc n) xs = take n xs @ [xs ! n]" using Suc.prems by (simp add: take_Suc_conv_app_nth)
  ultimately show ?case using Suc.prems by (simp add: nth_append list_update_append)
qed simp

lemma foldl_scaleWT: "foldl (\<lambda>r i. set_wt i (wt r i * a) r) b is
    = b\<lparr>m_wts := foldl (\<lambda>xs i. xs[i := xs ! i * a]) (m_wts b) is\<rparr>"
  by (induction "is" arbitrary: b) (auto simp: set_wt_def wt_def)

lemma scaleWT_eq: "wf_box b \<Longrightarrow> 0 < m_dim b \<Longrightarrow> scaleWT a b = b\<lparr>m_wts := map (\<lambda>w. w * a) (m_wts b)\<rparr>"
  unfolding scaleWT_def foldl_scaleWT by (simp add: foldl_scale wf_box_def)

lemma moveIntercept_eq: "moveIntercept v b =
    b\<lparr>m_wts := (m_wts b)[m_degree b * m_dim b := m_wts b ! (m_degree b * m_dim b) + v]\<rparr>"
  by (simp add: moveIntercept_def set_wt_def wt_def getWtc_def)

text \<open>Boxes that differ in their weights only.\<close>

definition same_region :: "ivpbox \<Rightarrow> ivpbox \<Rightarrow> bool" where
  "same_region r b \<longleftrightarrow> m_dim r = m_dim b \<and> m_degree r = m_degree b \<and> m_pts r = m_pts b \<and>
     m_bds r = m_bds b \<and> length (m_wts r) = length (m_wts b) \<and> m_of r = m_of b"

lemma same_region_facts:
  assumes "same_region r b"
  shows "wf_box r = wf_box b" "in_box r = in_box b" "in_closure r = in_closure b"
    "inclusive r = inclusive b" "ordered_box r = ordered_box b" "pt r = pt b" "bd r = bd b"
    "m_dim r = m_dim b" "m_degree r = m_degree b" "box_intersect g r = box_intersect g b"
    "box_intersect r g = box_intersect b g"
proof -
  have [simp]: "pt r = pt b" "bd r = bd b" using assms
    by (simp_all add: same_region_def fun_eq_iff pt_def bd_def)
  show "wf_box r = wf_box b" "in_box r = in_box b" "in_closure r = in_closure b"
    "inclusive r = inclusive b" "ordered_box r = ordered_box b" "pt r = pt b" "bd r = bd b"
    "m_dim r = m_dim b" "m_degree r = m_degree b" "box_intersect g r = box_intersect g b"
    "box_intersect r g = box_intersect b g"
    using assms by (auto simp: same_region_def wf_box_def getWtc_def fun_eq_iff in_box_def
        in_closure_def inclusive_def ordered_box_def box_intersect_def)
qed

lemma same_region_refl [simp]: "same_region b b"
  by (simp add: same_region_def)

lemma same_region_trans: "same_region a b \<Longrightarrow> same_region b c \<Longrightarrow> same_region a c"
  by (simp add: same_region_def)

lemma same_region_scaleWT: "wf_box b \<Longrightarrow> 0 < m_dim b \<Longrightarrow> same_region (scaleWT a b) b"
  by (simp add: scaleWT_eq same_region_def)

lemma same_region_moveIntercept: "same_region (moveIntercept v b) b"
  by (simp add: moveIntercept_eq same_region_def)

lemma scaleWT_ival:
  assumes "wf_box b" "0 < m_dim b"
  shows "ival (scaleWT a b) p = ival b p * a"
proof -
  have w: "i < getWtc b \<Longrightarrow> wt (scaleWT a b) i = wt b i * a" for i
    using assms by (simp add: scaleWT_eq wt_def wf_box_def)
  show ?thesis using assms same_region_facts(8,9) [OF same_region_scaleWT [OF assms, of a]]
    by (auto simp: ival_def w getWtc_def quad_val_def sum_distrib_left algebra_simps intro!: sum.cong)
qed

lemma moveIntercept_ival:
  assumes "wf_box b" "0 < m_dim b" "m_degree b \<le> 2"
  shows "ival (moveIntercept v b) p = ival b p + v"
proof -
  have w: "i < getWtc b \<Longrightarrow> wt (moveIntercept v b) i =
      (if i = m_degree b * m_dim b then wt b i + v else wt b i)" for i
    using assms by (auto simp: moveIntercept_eq wt_def wf_box_def nth_list_update)
  show ?thesis using assms same_region_facts(8,9) [OF same_region_moveIntercept [of v b]]
    by (auto simp: ival_def w getWtc_def quad_val_def mult.commute le_Suc_eq numeral_2_eq_2 intro!: sum.cong)
qed

section \<open>Moving a box to a larger domain\<close>

text \<open>The edge map of a domain translation names different dimensions of the new domain.\<close>

definition edge_map_ok :: "nat list \<Rightarrow> nat \<Rightarrow> nat \<Rightarrow> bool" where
  "edge_map_ok em n newDim \<longleftrightarrow> length em = n \<and> distinct em \<and> (\<forall>i\<in>set em. i < newDim)"

lemma edge_map_dim: "edge_map_ok em n newDim \<Longrightarrow> n \<le> newDim"
proof -
  assume "edge_map_ok em n newDim"
  then have "card (set em) = n" "set em \<subseteq> {..<newDim}"
    by (auto simp: edge_map_ok_def distinct_card)
  then show ?thesis using card_mono [of "{..<newDim}" "set em"] by simp
qed

lemma pairs_loop_nth:
  assumes "distinct em" "n \<le> length em" "\<forall>i\<in>set em. i < k" "length xs = k * 2" "e < 2"
  shows "j < n \<Longrightarrow> foldl (\<lambda>xs i. xs[em ! i * 2 := f i, em ! i * 2 + 1 := g i]) xs [0..<n] !
      (em ! j * 2 + e) = (if e = 0 then f j else g j)"
    "d < k \<Longrightarrow> d \<notin> set (take n em) \<Longrightarrow>
      foldl (\<lambda>xs i. xs[em ! i * 2 := f i, em ! i * 2 + 1 := g i]) xs [0..<n] ! (d * 2 + e) =
      xs ! (d * 2 + e)"
  using assms(2)
proof (induction n)
  case (Suc n)
  let ?L = "foldl (\<lambda>xs i. xs[em ! i * 2 := f i, em ! i * 2 + 1 := g i]) xs [0..<n]"
  have L: "length ?L = k * 2" by (simp add: length_foldl_keep assms(4))
  have step: "d < k \<Longrightarrow> ?L[em ! n * 2 := f n, em ! n * 2 + 1 := g n] ! (d * 2 + e) =
      (if d = em ! n then (if e = 0 then f n else g n) else ?L ! (d * 2 + e))" for d
    using assms(4,5) index_eq_iff [of e 0 d "em ! n"] index_eq_iff [of e 1 d "em ! n"]
      index_less [of d k e] L by (auto simp: nth_list_update less_2_cases_iff)
  { case 1
    have "em ! j < k" "em ! j = em ! n \<longleftrightarrow> j = n"
      using 1 assms(1,3) nth_eq_iff_index_eq [of em j n] by auto
    then show ?case using Suc.IH(1) 1 step [of "em ! j"] by (auto simp: less_Suc_eq)
  next
    case 2
    then show ?case using Suc.IH(2) step [of d] by (auto simp: take_Suc_conv_app_nth)
  }
qed simp_all

lemma single_loop_nth:
  assumes "distinct em" "n \<le> length em" "\<forall>i\<in>set em. i < length xs"
  shows "j < n \<Longrightarrow> foldl (\<lambda>xs i. xs[em ! i := f i]) xs [0..<n] ! (em ! j) = f j"
    "d \<notin> set (take n em) \<Longrightarrow> foldl (\<lambda>xs i. xs[em ! i := f i]) xs [0..<n] ! d = xs ! d"
  using assms(2)
proof (induction n)
  case (Suc n)
  have L: "length (foldl (\<lambda>xs i. xs[em ! i := f i]) xs [0..<n]) = length xs"
    by (simp add: length_foldl_keep)
  { case 1
    have "em ! n = em ! j \<longleftrightarrow> j = n" using 1 assms(1) nth_eq_iff_index_eq [of em n j] by auto
    then show ?case using Suc.IH(1) 1 L assms(3) by (auto simp: nth_list_update less_Suc_eq)
  next
    case 2
    then show ?case using Suc.IH(2) by (auto simp: take_Suc_conv_app_nth)
  }
qed simp_all

lemma box_transDomain_Some:
  assumes "wf_box b" "edge_map_ok em (m_dim b) newDim" "newDim < 2 ^ 16"
  obtains r where "box_transDomain (int newDim - int (m_dim b)) em b = Some r"
    "m_dim r = newDim" "m_degree r = m_degree b" "m_of r = m_of b"
    "length (m_pts r) = newDim * 2" "length (m_bds r) = newDim * 2"
    "\<forall>i<m_dim b. ends r (em ! i) = ends b i"
    "\<forall>d<newDim. d \<notin> set em \<longrightarrow> ends r d = (0, 0, True, True)"
    "m_degree b = 0 \<longrightarrow> m_wts r = m_wts b"
    "m_degree b \<noteq> 0 \<longrightarrow> length (m_wts r) = newDim + 1 \<and> wt r newDim = wt b (m_dim b) \<and>
       (\<forall>i<m_dim b. wt r (em ! i) = wt b i) \<and> (\<forall>d<newDim. d \<notin> set em \<longrightarrow> wt r d = 0)"
proof -
  have le: "m_dim b \<le> newDim" using edge_map_dim assms(2) .
  have em: "distinct em" "m_dim b \<le> length em" "\<forall>i\<in>set em. i < newDim" "take (m_dim b) em = em"
    using assms(2) by (auto simp: edge_map_ok_def)
  let ?e = "int newDim - int (m_dim b)"
  obtain r where r: "box_transDomain ?e em b = Some r" "m_dim r = newDim"
    using le by (simp add: box_transDomain_def Let_def nat_diff_distrib)
  note d = r(1) [unfolded box_transDomain_def Let_def]
  have n: "m_dim b + nat ?e = newDim" using le by simp
  have pts: "m_pts r = foldl (\<lambda>xs i. xs[em ! i * 2 := m_pts b ! (i * 2), em ! i * 2 + 1 := m_pts b ! (i * 2 + 1)])
      (replicate (newDim * 2) 0) [0..<m_dim b]"
    and bds: "m_bds r = foldl (\<lambda>xs i. xs[em ! i * 2 := m_bds b ! (i * 2), em ! i * 2 + 1 := m_bds b ! (i * 2 + 1)])
      (replicate (newDim * 2) True) [0..<m_dim b]"
    and wts: "m_wts r = (if m_degree b \<noteq> 0 then (foldl (\<lambda>xs i. xs[em ! i := m_wts b ! i])
        (replicate (newDim + 1) 0) [0..<m_dim b]) [newDim := m_wts b ! m_dim b] else m_wts b)"
    using d le by (auto simp: n)
  have old: "ends r (em ! i) = ends b i" if "i < m_dim b" for i
    using that pairs_loop_nth(1) [OF em(1-3), of "replicate (newDim * 2) (0::int)" 0 i]
      pairs_loop_nth(1) [OF em(1-3), of "replicate (newDim * 2) (0::int)" 1 i]
      pairs_loop_nth(1) [OF em(1-3), of "replicate (newDim * 2) True" 0 i]
      pairs_loop_nth(1) [OF em(1-3), of "replicate (newDim * 2) True" 1 i]
    by (simp add: ends_def pt_def bd_def pts bds)
  have new: "ends r d = (0, 0, True, True)" if "d < newDim" "d \<notin> set em" for d
    using that index_less [of d newDim 0] index_less [of d newDim 1] em(4)
      pairs_loop_nth(2) [OF em(1-3), of "replicate (newDim * 2) (0::int)" 0 d]
      pairs_loop_nth(2) [OF em(1-3), of "replicate (newDim * 2) (0::int)" 1 d]
      pairs_loop_nth(2) [OF em(1-3), of "replicate (newDim * 2) True" 0 d]
      pairs_loop_nth(2) [OF em(1-3), of "replicate (newDim * 2) True" 1 d]
    by (simp add: ends_def pt_def bd_def pts bds)
  have em': "\<forall>i\<in>set em. i < length (replicate (newDim + 1) (0::real))" using em(3) by auto
  have w: "length (m_wts r) = newDim + 1 \<and> wt r newDim = wt b (m_dim b) \<and>
       (\<forall>i<m_dim b. wt r (em ! i) = wt b i) \<and> (\<forall>d<newDim. d \<notin> set em \<longrightarrow> wt r d = 0)" if "m_degree b \<noteq> 0"
  proof -
    let ?L = "foldl (\<lambda>xs i. xs[em ! i := m_wts b ! i]) (replicate (newDim + 1) 0) [0..<m_dim b]"
    have len: "length ?L = newDim + 1" by (subst length_foldl_keep) simp_all
    have ws: "m_wts r = ?L[newDim := m_wts b ! m_dim b]" using that wts by simp
    have "?L[newDim := m_wts b ! m_dim b] ! (em ! i) = m_wts b ! i" if "i < m_dim b" for i
    proof -
      have "em ! i < newDim" using that em by simp
      then show ?thesis using single_loop_nth(1) [OF em(1,2) em' that, of "\<lambda>i. m_wts b ! i"] by simp
    qed
    moreover have "?L[newDim := m_wts b ! m_dim b] ! d = 0" if "d < newDim" "d \<notin> set em" for d
      using single_loop_nth(2) [OF em(1,2) em', of d "\<lambda>i. m_wts b ! i"] that em(4) nth_replicate [of d "newDim + 1" 0]
      by simp
    ultimately show ?thesis using len by (simp add: wt_def ws)
  qed
  have "m_degree r = m_degree b" "m_of r = m_of b" using d le by auto
  moreover have "length (m_pts r) = newDim * 2" "length (m_bds r) = newDim * 2"
    unfolding pts bds by (simp_all add: length_foldl_keep)
  ultimately show ?thesis
    by (rule that [OF r]) (use old new w wts in auto)
qed

text \<open>For degree 0 and 1 the moved box is well formed and means the cylinder over the old one.\<close>

lemma ends_transport: "ends r d' = ends b d \<Longrightarrow>
   (pt r d' 0 = pt b d 0) \<and> (pt r d' 1 = pt b d 1) \<and> (bd r d' 0 = bd b d 0) \<and> (bd r d' 1 = bd b d 1)"
  by (simp add: ends_def)

lemma sum_edges:
  fixes f g :: "nat \<Rightarrow> real"
  assumes "edge_map_ok em n newDim" "\<And>i. i < n \<Longrightarrow> f (em ! i) = g i"
    "\<And>d. d < newDim \<Longrightarrow> d \<notin> set em \<Longrightarrow> f d = 0"
  shows "(\<Sum>d<newDim. f d) = (\<Sum>i<n. g i)"
proof -
  have em: "length em = n" "distinct em" "set em \<subseteq> {..<newDim}"
    using assms(1) by (auto simp: edge_map_ok_def)
  have "(\<Sum>d<newDim. f d) = (\<Sum>d\<in>set em. f d)"
    by (rule sum.mono_neutral_right) (use em assms(3) in auto)
  also have "\<dots> = (\<Sum>i<length em. f (em ! i))"
    by (rule sum.reindex_bij_betw [symmetric, OF bij_betw_nth]) (use em in auto)
  finally show ?thesis using em(1) assms(2) by simp
qed

lemma ival_transDomain:
  assumes "box_transDomain (int newDim - int (m_dim b)) em b = Some r"
    "wf_box b" "edge_map_ok em (m_dim b) newDim" "newDim < 2 ^ 16" "0 < m_dim b" "m_degree b \<le> 1"
  shows "wf_box r" "ival r p = ival b (\<lambda>i. p (em ! i))"
proof -
  obtain r' where r': "box_transDomain (int newDim - int (m_dim b)) em b = Some r'"
    "m_dim r' = newDim" "m_degree r' = m_degree b"
    "length (m_pts r') = newDim * 2" "length (m_bds r') = newDim * 2"
    "m_degree b = 0 \<longrightarrow> m_wts r' = m_wts b"
    "m_degree b \<noteq> 0 \<longrightarrow> length (m_wts r') = newDim + 1 \<and> wt r' newDim = wt b (m_dim b) \<and>
       (\<forall>i<m_dim b. wt r' (em ! i) = wt b i) \<and> (\<forall>d<newDim. d \<notin> set em \<longrightarrow> wt r' d = 0)"
    using box_transDomain_Some [OF assms(2-4)] by metis
  have [simp]: "r' = r" using r'(1) assms(1) by simp
  note r = r'(2-) [simplified]
  show "wf_box r" using r assms edge_map_dim [OF assms(3)]
    by (auto simp: wf_box_def getWtc_def le_Suc_eq)
  have "(\<Sum>d<newDim. wt r d * of_int (p d)) = (\<Sum>i<m_dim b. wt b i * of_int (p (em ! i)))"
    if "m_degree b = 1"
    by (rule sum_edges [OF assms(3)]) (use r that in auto)
  then show "ival r p = ival b (\<lambda>i. p (em ! i))"
    using assms(6) r by (auto simp: ival_def wt_def le_Suc_eq)
qed

section \<open>Properties\<close>

text \<open>C25: For a closed box with an interior function of degree 0 or 1, \<open>minVal\<close> and \<open>maxVal\<close>
  bound the function on the box, and \<open>ptVal\<close> at the point that \<open>maxPt\<close> returns is \<open>maxVal\<close>.\<close>

theorem maxVal_is_maximum:
  assumes "wf_box b" "0 < m_dim b" "m_degree b \<le> 1" "ordered_box b" "inclusive b"
  shows "ptVal b (maxPt b) = Some (maxVal b) \<and>
    (\<forall>p. in_box b p \<longrightarrow> minVal b \<le> ival b p \<and> ival b p \<le> maxVal b)"
  using maxPt_attains [of b] maxVal_upper [of b] minVal_lower [of b] in_box_closure [of b] assms by auto

definition ex_box :: "int \<Rightarrow> int \<Rightarrow> real \<Rightarrow> real \<Rightarrow> ivpbox" where
  "ex_box l h slope icept = \<lparr>m_dim = 1, m_degree = 1, m_pts = [l, h], m_bds = [True, True],
     m_wts = [slope, icept], m_of = 0, m_markval = False\<rparr>"

lemma ex_box_facts:
  "wf_box (ex_box l h s i)" "m_dim (ex_box l h s i) = 1" "m_degree (ex_box l h s i) = 1"
  "inclusive (ex_box l h s i)" "ordered_box (ex_box l h s i) = (l \<le> h)"
  "in_box (ex_box l h s i) x = (l \<le> x 0 \<and> x 0 \<le> h)" "ival (ex_box l h s i) x = i + s * of_int (x 0)"
  "pt (ex_box l h s i) 0 0 = l" "pt (ex_box l h s i) 0 1 = h"
  by (auto simp: ex_box_def wf_box_def getWtc_def inclusive_def bd_def ordered_box_def pt_def in_box_def
      ival_def wt_def)

theorem maxVal_is_maximum_witness:
  "ptVal (ex_box 2 7 3 1) (maxPt (ex_box 2 7 3 1)) = Some (maxVal (ex_box 2 7 3 1)) \<and>
    minVal (ex_box 2 7 3 1) \<le> 13 \<and> 13 \<le> maxVal (ex_box 2 7 3 1)"
  using maxVal_is_maximum [of "ex_box 2 7 3 1"]
  by (simp add: ex_box_facts) (drule conjunct2, drule spec [where x = "\<lambda>_. 4"], simp)

text \<open>C26: Intersecting two boxes of the same shape into a third leaves the box of the common
  points there, with the sum of the interior functions; the call reports success, and for closed
  boxes it succeeds exactly when the boxes share a point.\<close>

theorem intersect_is_sum:
  assumes "wf_box b" "wf_box g" "wf_box r" "0 < m_dim b" "m_dim g = m_dim b" "m_dim r = m_dim b"
    "m_degree g = m_degree b" "m_degree r = m_degree b"
  shows "(box_intersect b g \<longrightarrow> (\<exists>r'. intersect_into b g (Some r) = (True, Some r') \<and> wf_box r' \<and>
      m_degree r' = m_degree b \<and> (\<forall>p. in_box r' p \<longleftrightarrow> in_box b p \<and> in_box g p) \<and>
      (\<forall>p. ival r' p = ival b p + ival g p))) \<and>
    (\<not> box_intersect b g \<longrightarrow> intersect_into b g (Some r) = (False, Some r)) \<and>
    (inclusive b \<and> inclusive g \<and> ordered_box b \<and> ordered_box g \<longrightarrow>
      (box_intersect b g \<longleftrightarrow> (\<exists>p. in_box b p \<and> in_box g p)))"
proof (intro conjI impI)
  assume i: "box_intersect b g"
  obtain r' where r: "intersect_into b g (Some r) = (True, Some r')" "wf_box r'"
    "m_dim r' = m_dim b" "m_degree r' = m_degree b" "m_of r' = m_of r"
    "\<forall>d<m_dim b. ends r' d = isect_ends b g d"
    "m_wts r' = map (\<lambda>i. wt b i + wt g i) [0..<getWtc b]"
    by (rule intersect_into_Some [OF assms i])
  with in_box_isect [OF r(3) assms(5) r(6)] ival_isect [OF assms(4) r(3) assms(5) r(4) assms(7) r(7)]
  show "\<exists>r'. intersect_into b g (Some r) = (True, Some r') \<and> wf_box r' \<and>
      m_degree r' = m_degree b \<and> (\<forall>p. in_box r' p \<longleftrightarrow> in_box b p \<and> in_box g p) \<and>
      (\<forall>p. ival r' p = ival b p + ival g p)" by blast
next
  assume "inclusive b \<and> inclusive g \<and> ordered_box b \<and> ordered_box g"
  with box_intersect_sound [of b g] box_intersect_complete [of b _ g] assms(5)
  show "box_intersect b g \<longleftrightarrow> (\<exists>p. in_box b p \<and> in_box g p)" by blast
qed (simp add: intersect_into_def)

theorem intersect_is_sum_witness:
  "\<exists>r'. intersect_into (ex_box 0 5 1 0) (ex_box 3 9 2 1) (Some (ex_box 0 0 0 0)) = (True, Some r') \<and> wf_box r' \<and>
      m_degree r' = 1 \<and> (\<forall>p. in_box r' p \<longleftrightarrow> 3 \<le> p 0 \<and> p 0 \<le> 5) \<and> (\<forall>p. ival r' p = 1 + 3 * of_int (p 0))"
proof -
  have "box_intersect (ex_box 0 5 1 0) (ex_box 3 9 2 1)"
    by (simp add: box_intersect_def list_all_upt ex_box_def pt_def bd_def)
  with intersect_is_sum [of "ex_box 0 5 1 0" "ex_box 3 9 2 1" "ex_box 0 0 0 0"] obtain r' where
    "intersect_into (ex_box 0 5 1 0) (ex_box 3 9 2 1) (Some (ex_box 0 0 0 0)) = (True, Some r')" "wf_box r'"
    "m_degree r' = 1" "\<forall>p. in_box r' p \<longleftrightarrow> in_box (ex_box 0 5 1 0) p \<and> in_box (ex_box 3 9 2 1) p"
    "\<forall>p. ival r' p = ival (ex_box 0 5 1 0) p + ival (ex_box 3 9 2 1) p" by (auto simp: ex_box_facts)
  then show ?thesis by (intro exI [of _ r']) (auto simp: ex_box_facts)
qed

text \<open>The copy constructor, \<open>copy()\<close>, \<open>copy(const IvPBox*)\<close> into a box of the same shape and
  assignment all reproduce the box they are given.\<close>

theorem copies_agree:
  assumes "wf_box b" "wf_box g" "0 < m_dim b"
  shows "IvPBox_copy_new b = b \<and> box_copy b = Some b \<and> box_assign g b = b \<and>
    (m_dim g = m_dim b \<and> m_degree g = m_degree b \<longrightarrow> copy_from g b = Some b)"
  using assms by (auto simp: copy_new_eq box_copy_eq box_assign_eq copy_from_eq)

theorem copies_agree_witness:
  "IvPBox_copy_new (ex_box 1 2 3 4) = ex_box 1 2 3 4 \<and> box_copy (ex_box 1 2 3 4) = Some (ex_box 1 2 3 4) \<and>
    box_assign (ex_box 0 0 0 0) (ex_box 1 2 3 4) = ex_box 1 2 3 4 \<and>
    copy_from (ex_box 0 0 0 0) (ex_box 1 2 3 4) = Some (ex_box 1 2 3 4)"
  using copies_agree [of "ex_box 1 2 3 4" "ex_box 0 0 0 0"] by (simp add: ex_box_facts)

definition ex_parabola :: ivpbox where
  "ex_parabola = \<lparr>m_dim = 1, m_degree = 2, m_pts = [0, 10], m_bds = [True, True],
     m_wts = [-1, 10, 0], m_of = 0, m_markval = False\<rparr>"

text \<open>For degree 2 the stationary point is computed with the wrong weight: on
  \<open>f(p) = 10 p - p^2\<close> over 0 to 10 \<open>maxVal\<close> is 0 and \<open>maxPt\<close> is 0, while the value at 5 is 25.\<close>

theorem degree2_maximum_missed:
  "maxVal ex_parabola = 0 \<and> ptVal ex_parabola (maxPt ex_parabola) = Some 0 \<and>
   ptVal ex_parabola (point_box 1 2 (\<lambda>_. 5)) = Some 25"
proof -
  have c: "c_pts ex_parabola 0 = [0, 10]"
    by (simp add: c_pts_def ex_parabola_def pt_def wt_def Let_def)
  have h: "high_pt ex_parabola 0 = 0"
    by (simp add: high_pt_def c quad_val_def) (simp add: ex_parabola_def wt_def)
  have m: "maxVal ex_parabola = 0"
    by (simp add: maxVal_eq maxPt_coord_def ex_parabola_def [THEN arg_cong [where f = m_degree]]
        ex_parabola_def [THEN arg_cong [where f = m_dim]] h quad_val_def)
      (simp add: ex_parabola_def wt_def)
  have wf: "wf_box ex_parabola" "0 < m_dim ex_parabola" "m_degree ex_parabola \<le> 2" "ordered_box ex_parabola"
    "inclusive ex_parabola"
    by (simp_all add: ex_parabola_def wf_box_def getWtc_def ordered_box_def pt_def inclusive_def bd_def)
  have "in_box ex_parabola (\<lambda>_. 5)" by (simp add: ex_parabola_def in_box_def pt_def bd_def)
  then have "ptVal ex_parabola (point_box 1 2 (\<lambda>_. 5)) = Some (ival ex_parabola (\<lambda>_. 5))"
    by (intro ptVal_point) (simp_all add: at_point_box point_box_facts wf(2), simp add: ex_parabola_def)
  also have "ival ex_parabola (\<lambda>_. 5) = 25" by (simp add: ival_def quad_val_def wt_def ex_parabola_def)
  finally show ?thesis using maxPt_attains [OF wf] m by simp
qed

end
