(* ===== verification/IvP_Domain.thy ===== *)
theory IvP_Domain
  imports IvP_Prelude
begin

text \<open>
  \<open>IvPDomain\<close> (\<open>ivp/src/lib_ivpcore/IvPDomain.h\<close>, \<open>IvPDomain.cpp\<close>): the named discrete
  variables a decision is made over. The five parallel vectors of the code are five lists;
  \<open>valid_domain\<close> says how they agree, and every operation that adds a variable keeps it. The
  overloaded members carry a suffix: \<open>_i\<close> looks up by index, \<open>_s\<close> by variable name.
\<close>

record ivpdomain =
  m_dname :: "string list"
  m_dlow :: "real list"
  m_dhigh :: "real list"
  m_ddelta :: "real list"
  m_dpoints :: "nat list"

definition empty_domain :: ivpdomain where
  "empty_domain = \<lparr>m_dname = [], m_dlow = [], m_dhigh = [], m_ddelta = [], m_dpoints = []\<rparr>"

definition dom_size :: "ivpdomain \<Rightarrow> nat" where
  "dom_size D = length (m_dname D)"

text \<open>Unchecked vector accesses; an index past the end is unspecified, as in the code.\<close>

definition getVarLow_i :: "ivpdomain \<Rightarrow> nat \<Rightarrow> real" where
  "getVarLow_i D i = m_dlow D ! i"

definition getVarHigh_i :: "ivpdomain \<Rightarrow> nat \<Rightarrow> real" where
  "getVarHigh_i D i = m_dhigh D ! i"

definition getVarDelta_i :: "ivpdomain \<Rightarrow> nat \<Rightarrow> real" where
  "getVarDelta_i D i = m_ddelta D ! i"

text \<open>The loop returns the first index with the name, or \<open>-1\<close>.\<close>

fun index_loop :: "string list \<Rightarrow> string \<Rightarrow> int \<Rightarrow> int" where
  "index_loop [] g_name i = -1"
| "index_loop (n # ns) g_name i = (if n = g_name then i else index_loop ns g_name (i + 1))"

definition getIndex :: "ivpdomain \<Rightarrow> string \<Rightarrow> int" where
  "getIndex D g_name = index_loop (m_dname D) g_name 0"

definition hasDomain :: "ivpdomain \<Rightarrow> string \<Rightarrow> bool" where
  "hasDomain D g_name \<longleftrightarrow> list_ex (\<lambda>n. n = g_name) (m_dname D)"

definition hasOnlyDomain :: "ivpdomain \<Rightarrow> string \<Rightarrow> string \<Rightarrow> bool" where
  "hasOnlyDomain D var1 var2 =
     (case foldl (\<lambda>(has_var1, has_var2, has_others) n.
              if n = var1 then (True, has_var2, has_others)
              else if n = var2 then (has_var1, True, has_others)
              else (has_var1, has_var2, True)) (False, False, False) (m_dname D) of
        (has_var1, has_var2, has_others) \<Rightarrow>
          if \<not> has_var1 then False
          else if var2 \<noteq> [] \<and> \<not> has_var2 then False
          else if has_others then False
          else True)"

definition addDomain :: "string \<Rightarrow> real \<Rightarrow> real \<Rightarrow> nat \<Rightarrow> ivpdomain \<Rightarrow> bool \<times> ivpdomain" where
  "addDomain g_name g_low g_high g_points D =
     (if hasDomain D g_name \<or> g_low > g_high \<or> g_points < 1 then (False, D)
      else if g_points = 1 \<and> g_high \<noteq> g_low then (False, D)
      else (True, \<lparr>m_dname = m_dname D @ [g_name], m_dlow = m_dlow D @ [g_low],
                   m_dhigh = m_dhigh D @ [g_high],
                   m_ddelta = m_ddelta D @
                     [if 1 < g_points then (g_high - g_low) / (of_nat g_points - 1) else 0],
                   m_dpoints = m_dpoints D @ [g_points]\<rparr>))"

definition getVarPoints_i :: "ivpdomain \<Rightarrow> nat \<Rightarrow> nat" where
  "getVarPoints_i D i = (if i < length (m_dname D) then m_dpoints D ! i else 0)"

definition getVarPoints_s :: "ivpdomain \<Rightarrow> string \<Rightarrow> nat" where
  "getVarPoints_s D str =
     (let index = getIndex D str
      in if index < 0 then 0
         else if nat index \<ge> length (m_dpoints D) then 0 else m_dpoints D ! nat index)"

definition getVarLow_s :: "ivpdomain \<Rightarrow> string \<Rightarrow> real" where
  "getVarLow_s D str =
     (let index = getIndex D str
      in if index < 0 then 0
         else if nat index \<ge> length (m_dlow D) then 0 else m_dlow D ! nat index)"

definition getVarHigh_s :: "ivpdomain \<Rightarrow> string \<Rightarrow> real" where
  "getVarHigh_s D str =
     (let index = getIndex D str
      in if index < 0 then 0
         else if nat index \<ge> length (m_dhigh D) then 0 else m_dhigh D ! nat index)"

definition getVarDelta_s :: "ivpdomain \<Rightarrow> string \<Rightarrow> real" where
  "getVarDelta_s D str =
     (let index = getIndex D str
      in if index < 0 then 0
         else if nat index \<ge> length (m_ddelta D) then 0 else m_ddelta D ! nat index)"

definition getVarName :: "ivpdomain \<Rightarrow> nat \<Rightarrow> string" where
  "getVarName D i = (if i \<ge> length (m_dname D) then [] else m_dname D ! i)"

text \<open>The second \<open>addDomain\<close> copies one variable out of another domain.\<close>

definition addDomain_from :: "ivpdomain \<Rightarrow> string \<Rightarrow> ivpdomain \<Rightarrow> bool \<times> ivpdomain" where
  "addDomain_from g_domain g_name D =
     (if \<not> hasDomain g_domain g_name then (False, D)
      else let index = nat (getIndex g_domain g_name)
           in addDomain g_name (getVarLow_i g_domain index) (getVarHigh_i g_domain index)
                (getVarPoints_i g_domain index) D)"

text \<open>\<open>operator==\<close> compares names, ends and sizes in order and stops at the first difference.\<close>

definition dom_eq :: "ivpdomain \<Rightarrow> ivpdomain \<Rightarrow> bool" where
  "dom_eq D right \<longleftrightarrow>
     length (m_dname D) = dom_size right \<and>
     list_all (\<lambda>i. m_dname D ! i = getVarName right i \<and> m_dlow D ! i = getVarLow_i right i \<and>
                   m_dhigh D ! i = getVarHigh_i right i \<and>
                   m_dpoints D ! i = getVarPoints_i right i) [0..<length (m_dname D)]"

definition dom_clear :: "ivpdomain \<Rightarrow> ivpdomain" where
  "dom_clear D = \<lparr>m_dname = [], m_dlow = [], m_dhigh = [], m_ddelta = [], m_dpoints = []\<rparr>"

definition getTotalPts :: "ivpdomain \<Rightarrow> real" where
  "getTotalPts D = foldl (\<lambda>t i. t * of_nat (m_dpoints D ! i)) 1 [0..<length (m_dname D)]"

text \<open>The value of a variable \<open>j\<close> steps into the domain; the first form reports an error.\<close>

definition getVal_ok :: "ivpdomain \<Rightarrow> nat \<Rightarrow> nat \<Rightarrow> real option" where
  "getVal_ok D i j =
     (if i < length (m_dlow D) \<and> j < m_dpoints D ! i
      then Some (m_dlow D ! i + m_ddelta D ! i * of_nat j) else None)"

definition getVal :: "ivpdomain \<Rightarrow> nat \<Rightarrow> nat \<Rightarrow> real" where
  "getVal D d j =
     (if d < length (m_dlow D) \<and> j < m_dpoints D ! d
      then m_dlow D ! d + m_ddelta D ! d * of_nat j else 0)"

text \<open>A missing name gives \<open>-1\<close>, which as an \<open>unsigned int\<close> is \<open>2 ^ 32 - 1\<close>.\<close>

definition getVal_s :: "ivpdomain \<Rightarrow> string \<Rightarrow> nat \<Rightarrow> real option" where
  "getVal_s D str j = getVal_ok D (nat (getIndex D str mod 2 ^ 32)) j"

definition getDiscreteVal :: "ivpdomain \<Rightarrow> nat \<Rightarrow> real \<Rightarrow> int \<Rightarrow> int" where
  "getDiscreteVal D index val snaptype =
     (if snaptype < 0 \<or> snaptype > 2 then 0
      else if val \<le> m_dlow D ! index then 0
      else if val \<ge> m_dhigh D ! index then int (m_dpoints D ! index) - 1
      else if snaptype = 0 then c_trunc ((val - m_dlow D ! index) / m_ddelta D ! index)
      else let val' = (if snaptype = 2 then val - m_ddelta D ! index / 2 else val);
               dval = (val' - m_dlow D ! index) / m_ddelta D ! index;
               ival = c_trunc dval
           in if dval > of_int ival then ival + 1 else ival)"

section \<open>The invariant\<close>

definition valid_var :: "real \<Rightarrow> real \<Rightarrow> real \<Rightarrow> nat \<Rightarrow> bool" where
  "valid_var low high delta points \<longleftrightarrow>
     low \<le> high \<and> 1 \<le> points \<and> (points = 1 \<longrightarrow> high = low) \<and>
     delta * (of_nat points - 1) = high - low"

definition valid_domain :: "ivpdomain \<Rightarrow> bool" where
  "valid_domain D \<longleftrightarrow>
     length (m_dlow D) = length (m_dname D) \<and> length (m_dhigh D) = length (m_dname D) \<and>
     length (m_ddelta D) = length (m_dname D) \<and> length (m_dpoints D) = length (m_dname D) \<and>
     distinct (m_dname D) \<and>
     (\<forall>i<length (m_dname D). valid_var (m_dlow D ! i) (m_dhigh D ! i) (m_ddelta D ! i) (m_dpoints D ! i))"

lemma valid_empty: "valid_domain empty_domain" "valid_domain (dom_clear D)"
  by (simp_all add: valid_domain_def empty_domain_def dom_clear_def)

lemma hasDomain_iff: "hasDomain D n \<longleftrightarrow> n \<in> set (m_dname D)"
  by (auto simp: hasDomain_def list_ex_iff)

lemma addDomain_valid: "valid_domain D \<Longrightarrow> valid_domain (snd (addDomain n lo hi k D))"
  by (auto simp: addDomain_def valid_domain_def valid_var_def hasDomain_iff nth_append less_Suc_eq)

lemma addDomain_from_valid: "valid_domain D \<Longrightarrow> valid_domain (snd (addDomain_from E n D))"
  by (simp add: addDomain_from_def addDomain_valid Let_def)

lemma index_loop_range: "index_loop ns n i = -1 \<or> (i \<le> index_loop ns n i \<and>
    index_loop ns n i < i + int (length ns) \<and> ns ! nat (index_loop ns n i - i) = n)" if "0 \<le> i"
  using that
proof (induction ns n i rule: index_loop.induct)
  case (2 m ns n i)
  show ?case
  proof (cases "m = n \<or> index_loop ns n (i + 1) = -1")
    case False
    let ?k = "index_loop ns n (i + 1)"
    from False 2 have k: "i + 1 \<le> ?k" "?k < i + 1 + int (length ns)" "ns ! nat (?k - (i + 1)) = n" by auto
    moreover have "nat (?k - i) = Suc (nat (?k - (i + 1)))" using k(1) by linarith
    ultimately show ?thesis using False by simp
  qed auto
qed simp

lemma index_loop_absent: "0 \<le> i \<Longrightarrow> index_loop ns n i = -1 \<longleftrightarrow> n \<notin> set ns"
  by (induction ns n i rule: index_loop.induct) auto

lemma getIndex_present: "hasDomain D n \<Longrightarrow>
   0 \<le> getIndex D n \<and> nat (getIndex D n) < length (m_dname D) \<and> m_dname D ! nat (getIndex D n) = n"
  using index_loop_range [of 0 "m_dname D" n] index_loop_absent [of 0 "m_dname D" n]
  by (auto simp: getIndex_def hasDomain_iff)

lemma getIndex_absent: "\<not> hasDomain D n \<longleftrightarrow> getIndex D n = -1"
  using index_loop_absent [of 0 "m_dname D" n] by (simp add: getIndex_def hasDomain_iff)

lemma getIndex_name: "valid_domain D \<Longrightarrow> i < dom_size D \<Longrightarrow> getIndex D (getVarName D i) = int i"
proof -
  assume "valid_domain D" "i < dom_size D"
  then have d: "distinct (m_dname D)" "i < length (m_dname D)" "hasDomain D (m_dname D ! i)"
    by (auto simp: valid_domain_def dom_size_def hasDomain_iff)
  from getIndex_present [OF d(3)] d(1,2)
  have "nat (getIndex D (m_dname D ! i)) = i" "0 \<le> getIndex D (m_dname D ! i)"
    by (auto simp: nth_eq_iff_index_eq)
  then show ?thesis using d(2) by (simp add: getVarName_def)
qed

text \<open>\<open>hasOnlyDomain\<close> as a set equation, when both names are given and differ, or only one is.\<close>

lemma only_loop:
  "foldl (\<lambda>(a, b, c) n. if n = v then (True, b, c) else if n = w then (a, True, c) else (a, b, True))
     (a, b, c) ns =
   (a \<or> v \<in> set ns, b \<or> (w \<in> set ns \<and> w \<noteq> v), c \<or> (\<exists>n\<in>set ns. n \<noteq> v \<and> n \<noteq> w))"
  by (induction ns arbitrary: a b c) auto

lemma hasOnlyDomain_iff: "v \<noteq> w \<Longrightarrow> w \<noteq> [] \<Longrightarrow> hasOnlyDomain D v w \<longleftrightarrow> set (m_dname D) = {v, w}"
  by (auto simp: hasOnlyDomain_def only_loop)

section \<open>Values and discrete points\<close>

lemma valid_delta_pos: "valid_var lo hi de k \<Longrightarrow> lo < hi \<Longrightarrow> 0 < de \<and> 1 < k"
proof -
  assume v: "valid_var lo hi de k" and lt: "lo < hi"
  from v lt have k: "1 < k" by (auto simp: valid_var_def le_less)
  from v have "de * (of_nat k - 1) = hi - lo" by (simp add: valid_var_def)
  with lt have "0 < de * (of_nat k - 1)" by simp
  with k show ?thesis by (simp add: zero_less_mult_iff)
qed

lemma getVal_range:
  assumes "valid_domain D" "i < dom_size D" "j < m_dpoints D ! i"
  shows "m_dlow D ! i \<le> getVal D i j \<and> getVal D i j \<le> m_dhigh D ! i"
proof -
  have v: "valid_var (m_dlow D ! i) (m_dhigh D ! i) (m_ddelta D ! i) (m_dpoints D ! i)"
    "i < length (m_dlow D)" using assms(1,2) by (auto simp: valid_domain_def dom_size_def)
  have j: "of_nat j \<le> (of_nat (m_dpoints D ! i) - 1 :: real)" using assms(3) by linarith
  show ?thesis
  proof (cases "m_dlow D ! i < m_dhigh D ! i")
    case True
    then have "0 < m_ddelta D ! i" using valid_delta_pos v(1) by blast
    then have "m_ddelta D ! i * of_nat j \<le> m_ddelta D ! i * (of_nat (m_dpoints D ! i) - 1)"
      using j by (simp add: mult_left_mono)
    with v \<open>0 < m_ddelta D ! i\<close> assms(3) show ?thesis by (simp add: getVal_def valid_var_def)
  next
    case False
    then have "m_dlow D ! i = m_dhigh D ! i" using v(1) by (simp add: valid_var_def)
    moreover from this v(1) have "m_ddelta D ! i * (of_nat (m_dpoints D ! i) - 1) = 0"
      by (simp add: valid_var_def)
    then have "m_ddelta D ! i = 0 \<or> j = 0" using assms(3) j by auto
    ultimately show ?thesis using v(2) assms(3) by (auto simp: getVal_def)
  qed
qed

lemma ceiling_by_trunc: "(if x > of_int (c_trunc x) then c_trunc x + 1 else c_trunc x) = \<lceil>x\<rceil>"
  by (auto simp: c_trunc_def ceiling_altdef not_less) linarith+

text \<open>The result for a value strictly inside the range, in terms of the number of steps.\<close>

lemma getDiscreteVal_inside:
  assumes "m_dlow D ! i < val" "val < m_dhigh D ! i" "0 < m_ddelta D ! i"
  shows "getDiscreteVal D i val 0 = \<lfloor>(val - m_dlow D ! i) / m_ddelta D ! i\<rfloor>"
    "getDiscreteVal D i val 1 = \<lceil>(val - m_dlow D ! i) / m_ddelta D ! i\<rceil>"
    "getDiscreteVal D i val 2 = \<lceil>(val - m_dlow D ! i) / m_ddelta D ! i - 1 / 2\<rceil>"
proof -
  have q: "(val - m_ddelta D ! i / 2 - m_dlow D ! i) / m_ddelta D ! i
      = (val - m_dlow D ! i) / m_ddelta D ! i - 1 / 2"
    using assms(3) by (simp add: field_simps)
  show "getDiscreteVal D i val 0 = \<lfloor>(val - m_dlow D ! i) / m_ddelta D ! i\<rfloor>"
    using assms by (simp add: getDiscreteVal_def c_trunc_nonneg)
  show "getDiscreteVal D i val 1 = \<lceil>(val - m_dlow D ! i) / m_ddelta D ! i\<rceil>"
    using assms ceiling_by_trunc by (simp add: getDiscreteVal_def Let_def)
  show "getDiscreteVal D i val 2 = \<lceil>(val - m_dlow D ! i) / m_ddelta D ! i - 1 / 2\<rceil>"
    using assms by (simp add: getDiscreteVal_def Let_def q ceiling_by_trunc)
qed

lemma steps_range:
  assumes "valid_domain D" "i < dom_size D" "m_dlow D ! i < val" "val < m_dhigh D ! i"
  shows "0 < m_ddelta D ! i" "0 < (val - m_dlow D ! i) / m_ddelta D ! i"
    "(val - m_dlow D ! i) / m_ddelta D ! i < of_nat (m_dpoints D ! i) - 1"
proof -
  have v: "valid_var (m_dlow D ! i) (m_dhigh D ! i) (m_ddelta D ! i) (m_dpoints D ! i)"
    using assms(1,2) by (auto simp: valid_domain_def dom_size_def)
  show p: "0 < m_ddelta D ! i" using valid_delta_pos [OF v] assms(3,4) by linarith
  then show "0 < (val - m_dlow D ! i) / m_ddelta D ! i" using assms(3) by simp
  have "val - m_dlow D ! i < m_ddelta D ! i * (of_nat (m_dpoints D ! i) - 1)"
    using assms(4) v by (simp add: valid_var_def)
  then show "(val - m_dlow D ! i) / m_ddelta D ! i < of_nat (m_dpoints D ! i) - 1"
    using p by (simp add: field_simps)
qed

lemma snap_cases: "0 \<le> s \<Longrightarrow> s \<le> 2 \<Longrightarrow> s = 0 \<or> s = 1 \<or> s = (2::int)"
  by linarith

lemma getDiscreteVal_bounds:
  assumes "valid_domain D" "i < dom_size D"
  shows "0 \<le> getDiscreteVal D i val s \<and> getDiscreteVal D i val s < int (m_dpoints D ! i)"
proof (cases "m_dlow D ! i < val \<and> val < m_dhigh D ! i \<and> 0 \<le> s \<and> s \<le> 2")
  case True
  note st = steps_range [OF assms, of val]
  let ?x = "(val - m_dlow D ! i) / m_ddelta D ! i"
  have x: "0 < ?x" "?x < of_int (int (m_dpoints D ! i) - 1)" using st True by auto
  have "0 \<le> \<lfloor>?x\<rfloor> \<and> \<lfloor>?x\<rfloor> < int (m_dpoints D ! i)"
    "0 \<le> \<lceil>?x\<rceil> \<and> \<lceil>?x\<rceil> < int (m_dpoints D ! i)"
    "0 \<le> \<lceil>?x - 1 / 2\<rceil> \<and> \<lceil>?x - 1 / 2\<rceil> < int (m_dpoints D ! i)"
    using x by linarith+
  then have all: "\<forall>s\<in>{0, 1, 2}. 0 \<le> getDiscreteVal D i val s \<and>
      getDiscreteVal D i val s < int (m_dpoints D ! i)"
    using getDiscreteVal_inside [of D i val] st(1) True by (metis insertE singletonD)
  have "s \<in> {0, 1, 2}" using True by auto
  with all show ?thesis by blast
next
  case False
  moreover have "valid_var (m_dlow D ! i) (m_dhigh D ! i) (m_ddelta D ! i) (m_dpoints D ! i)"
    using assms by (auto simp: valid_domain_def dom_size_def)
  ultimately show ?thesis by (auto simp: getDiscreteVal_def valid_var_def not_less)
qed

lemma getDiscreteVal_getVal:
  assumes "valid_domain D" "i < dom_size D" "j < m_dpoints D ! i" "0 \<le> s" "s \<le> 2"
    "m_dlow D ! i < m_dhigh D ! i"
  shows "getDiscreteVal D i (getVal D i j) s = int j"
proof -
  have v: "valid_var (m_dlow D ! i) (m_dhigh D ! i) (m_ddelta D ! i) (m_dpoints D ! i)"
    "i < length (m_dlow D)" using assms(1,2) by (auto simp: valid_domain_def dom_size_def)
  then have p: "0 < m_ddelta D ! i" using valid_delta_pos assms(6) by blast
  let ?val = "m_dlow D ! i + m_ddelta D ! i * of_nat j"
  have val: "getVal D i j = ?val" using assms(3) v by (simp add: getVal_def)
  consider "j = 0" | "j = m_dpoints D ! i - 1" "j \<noteq> 0" | "0 < j" "j < m_dpoints D ! i - 1"
    using assms(3) by linarith
  then show ?thesis
  proof cases
    case 1
    then have "?val \<le> m_dlow D ! i" by simp
    then show ?thesis using 1 unfolding val getDiscreteVal_def by simp
  next
    case 2
    then have "?val = m_dhigh D ! i" using v(1) assms(3) by (simp add: valid_var_def of_nat_diff)
    moreover have "int (m_dpoints D ! i) - 1 = int j" using 2 assms(3) by linarith
    ultimately show ?thesis using assms(4-6) unfolding val by (simp add: getDiscreteVal_def)
  next
    case 3
    then have "of_nat j < (of_nat (m_dpoints D ! i) - 1 :: real)" by linarith
    then have "m_ddelta D ! i * of_nat j < m_ddelta D ! i * (of_nat (m_dpoints D ! i) - 1)"
      using p by (rule mult_strict_left_mono)
    moreover have "m_ddelta D ! i * (of_nat (m_dpoints D ! i) - 1) = m_dhigh D ! i - m_dlow D ! i"
      using v(1) by (simp add: valid_var_def)
    ultimately have "m_dlow D ! i < ?val" "?val < m_dhigh D ! i" using 3 p by auto
    moreover have "(?val - m_dlow D ! i) / m_ddelta D ! i = of_int (int j)" using p by simp
    moreover have "\<lceil>of_int (int j) - 1 / 2 :: real\<rceil> = int j" by linarith
    ultimately show ?thesis
      using getDiscreteVal_inside [of D i ?val] p snap_cases [OF assms(4,5)] val by auto
  qed
qed

text \<open>
  Snapping a value of the range: down to the last point not above it, up to the first point
  not below it, and to a point at most half a step away.
\<close>

lemma getVal_steps:
  assumes "valid_domain D" "i < dom_size D" "0 \<le> k" "k < int (m_dpoints D ! i)"
  shows "getVal D i (nat k) = m_dlow D ! i + m_ddelta D ! i * of_int k"
  using assms by (auto simp: getVal_def valid_domain_def dom_size_def of_nat_nat)

lemma getDiscreteVal_snap:
  assumes "valid_domain D" "i < dom_size D" "m_dlow D ! i \<le> val" "val \<le> m_dhigh D ! i"
  shows "getVal D i (nat (getDiscreteVal D i val 0)) \<le> val \<and>
    val \<le> getVal D i (nat (getDiscreteVal D i val 1)) \<and>
    \<bar>getVal D i (nat (getDiscreteVal D i val 2)) - val\<bar> \<le> \<bar>m_ddelta D ! i\<bar> / 2"
proof -
  have v: "valid_var (m_dlow D ! i) (m_dhigh D ! i) (m_ddelta D ! i) (m_dpoints D ! i)"
    using assms(1,2) by (auto simp: valid_domain_def dom_size_def)
  note gv = getVal_steps [OF assms(1,2)] and gb = getDiscreteVal_bounds [OF assms(1,2)]
  consider "val = m_dlow D ! i" | "m_dlow D ! i < val" "val = m_dhigh D ! i"
    | "m_dlow D ! i < val" "val < m_dhigh D ! i" using assms(3,4) by linarith
  then show ?thesis
  proof cases
    case 1
    then have "getDiscreteVal D i val s = 0" for s by (simp add: getDiscreteVal_def)
    then show ?thesis using 1 gv [of 0] v by (simp add: valid_var_def)
  next
    case 2
    then have "0 \<le> s \<Longrightarrow> s \<le> 2 \<Longrightarrow> getDiscreteVal D i val s = int (m_dpoints D ! i) - 1" for s
      by (simp add: getDiscreteVal_def)
    then show ?thesis using 2 gv [of "int (m_dpoints D ! i) - 1"] v by (simp add: valid_var_def)
  next
    case 3
    define x where "x = (val - m_dlow D ! i) / m_ddelta D ! i"
    let ?de = "m_ddelta D ! i" and ?g = "\<lambda>s. getDiscreteVal D i val s"
    have p: "0 < ?de" and val: "val = m_dlow D ! i + ?de * x"
      using steps_range(1) [OF assms(1,2) 3] by (simp_all add: x_def)
    have ins: "?g 0 = \<lfloor>x\<rfloor>" "?g 1 = \<lceil>x\<rceil>" "?g 2 = \<lceil>x - 1 / 2\<rceil>"
      using getDiscreteVal_inside [OF 3 p] by (simp_all add: x_def)
    have g: "getVal D i (nat (?g s)) = m_dlow D ! i + ?de * of_int (?g s)" for s
      using gv gb by blast
    have lo: "?de * of_int \<lfloor>x\<rfloor> \<le> ?de * x" and hi: "?de * x \<le> ?de * of_int \<lceil>x\<rceil>"
      using p by (simp_all add: mult_left_mono)
    have "- (1 / 2) \<le> of_int \<lceil>x - 1 / 2\<rceil> - x" "of_int \<lceil>x - 1 / 2\<rceil> - x \<le> 1 / 2" by linarith+
    then have "?de * - (1 / 2) \<le> ?de * (of_int \<lceil>x - 1 / 2\<rceil> - x)"
      "?de * (of_int \<lceil>x - 1 / 2\<rceil> - x) \<le> ?de * (1 / 2)"
      using p by (intro mult_left_mono; simp)+
    then have near: "- (?de / 2) \<le> ?de * of_int \<lceil>x - 1 / 2\<rceil> - ?de * x"
      "?de * of_int \<lceil>x - 1 / 2\<rceil> - ?de * x \<le> ?de / 2"
      by (simp_all add: right_diff_distrib)
    show ?thesis
      unfolding g unfolding ins using val p lo hi near by (intro conjI) linarith+
  qed
qed

section \<open>Equality\<close>

lemma dom_eq_iff:
  assumes "valid_domain D" "valid_domain E"
  shows "dom_eq D E \<longleftrightarrow> m_dname D = m_dname E \<and> m_dlow D = m_dlow E \<and> m_dhigh D = m_dhigh E \<and>
    m_dpoints D = m_dpoints E"
proof (cases "length (m_dname D) = length (m_dname E)")
  case False
  then show ?thesis by (auto simp: dom_eq_def dom_size_def)
next
  case True
  let ?n = "length (m_dname D)"
  have eq: "xs = ys \<longleftrightarrow> (\<forall>i<?n. xs ! i = ys ! i)" if "length xs = ?n" "length ys = ?n"
    for xs ys :: "'a list" using that by (auto intro: nth_equalityI)
  have "dom_eq D E \<longleftrightarrow> (\<forall>i<?n. m_dname D ! i = m_dname E ! i) \<and> (\<forall>i<?n. m_dlow D ! i = m_dlow E ! i) \<and>
      (\<forall>i<?n. m_dhigh D ! i = m_dhigh E ! i) \<and> (\<forall>i<?n. m_dpoints D ! i = m_dpoints E ! i)"
    using True unfolding dom_eq_def list_all_upt dom_size_def getVarName_def getVarLow_i_def
      getVarHigh_i_def getVarPoints_i_def by auto
  also have "\<dots> \<longleftrightarrow> m_dname D = m_dname E \<and> m_dlow D = m_dlow E \<and> m_dhigh D = m_dhigh E \<and>
    m_dpoints D = m_dpoints E"
    using assms True unfolding valid_domain_def by (metis eq)
  finally show ?thesis .
qed

section \<open>Properties\<close>

definition ex_dom :: ivpdomain where
  "ex_dom = snd (addDomain ''speed'' 0 5 11 (snd (addDomain ''course'' 0 359 360 empty_domain)))"

lemma valid_ex_dom: "valid_domain ex_dom"
  unfolding ex_dom_def by (intro addDomain_valid valid_empty)

lemma ex_dom_facts: "dom_size ex_dom = 2" "m_dname ex_dom = [''course'', ''speed'']"
  "m_dlow ex_dom = [0, 0]" "m_dhigh ex_dom = [359, 5]" "m_dpoints ex_dom = [360, 11]"
  by (simp_all add: ex_dom_def addDomain_def hasDomain_def empty_domain_def dom_size_def)

text \<open>Snapping a value inside the range of a variable to a domain point: type 0 gives the
  point at or below, type 1 the point at or above, type 2 one at most half a step away; and the
  index is always inside the domain, for any value and type.\<close>

theorem discrete_value_snaps:
  assumes "valid_domain D" "i < dom_size D"
  shows "(m_dlow D ! i \<le> val \<and> val \<le> m_dhigh D ! i \<longrightarrow>
      getVal D i (nat (getDiscreteVal D i val 0)) \<le> val \<and>
      val \<le> getVal D i (nat (getDiscreteVal D i val 1)) \<and>
      \<bar>getVal D i (nat (getDiscreteVal D i val 2)) - val\<bar> \<le> \<bar>m_ddelta D ! i\<bar> / 2) \<and>
    0 \<le> getDiscreteVal D i val s \<and> getDiscreteVal D i val s < int (m_dpoints D ! i)"
  using getDiscreteVal_snap [OF assms, of val] getDiscreteVal_bounds [OF assms, of val s] by blast

theorem discrete_value_snaps_witness:
  "getVal ex_dom 1 (nat (getDiscreteVal ex_dom 1 1.3 0)) \<le> 1.3 \<and>
   1.3 \<le> getVal ex_dom 1 (nat (getDiscreteVal ex_dom 1 1.3 1)) \<and>
   \<bar>getVal ex_dom 1 (nat (getDiscreteVal ex_dom 1 1.3 2)) - 1.3\<bar> \<le> \<bar>m_ddelta ex_dom ! 1\<bar> / 2 \<and>
   0 \<le> getDiscreteVal ex_dom 1 1.3 2 \<and> getDiscreteVal ex_dom 1 1.3 2 < 11"
  using discrete_value_snaps [OF valid_ex_dom, of 1 "1.3" 2] by (simp add: ex_dom_facts)

text \<open>The value of a domain point snaps back to that point, whatever the snap type.\<close>

theorem discrete_value_roundtrip:
  assumes "valid_domain D" "i < dom_size D" "j < m_dpoints D ! i" "0 \<le> s" "s \<le> 2"
    "m_dlow D ! i < m_dhigh D ! i"
  shows "getDiscreteVal D i (getVal D i j) s = int j"
  by (rule getDiscreteVal_getVal [OF assms])

theorem discrete_value_roundtrip_witness: "getDiscreteVal ex_dom 0 (getVal ex_dom 0 90) 2 = int 90"
  by (rule discrete_value_roundtrip) (simp_all add: valid_ex_dom ex_dom_facts)

text \<open>\<open>addDomain\<close> keeps a domain valid; when it accepts a variable, the name is found at the
  new last index with its range and points, and it accepts exactly a new name with an ordered
  range and a number of points that fits it.\<close>

theorem addDomain_registers:
  assumes "valid_domain D"
  shows "valid_domain (snd (addDomain n lo hi k D)) \<and>
    (fst (addDomain n lo hi k D) \<longleftrightarrow> n \<notin> set (m_dname D) \<and> lo \<le> hi \<and> 1 \<le> k \<and> (k = 1 \<longrightarrow> hi = lo)) \<and>
    (fst (addDomain n lo hi k D) \<longrightarrow>
       getIndex (snd (addDomain n lo hi k D)) n = int (dom_size D) \<and>
       getVarPoints_s (snd (addDomain n lo hi k D)) n = k \<and>
       getVarLow_s (snd (addDomain n lo hi k D)) n = lo \<and> getVarHigh_s (snd (addDomain n lo hi k D)) n = hi) \<and>
    (\<not> fst (addDomain n lo hi k D) \<longrightarrow> snd (addDomain n lo hi k D) = D)"
proof -
  let ?D = "snd (addDomain n lo hi k D)"
  have v: "valid_domain ?D" by (rule addDomain_valid [OF assms])
  have acc: "fst (addDomain n lo hi k D) \<longleftrightarrow> n \<notin> set (m_dname D) \<and> lo \<le> hi \<and> 1 \<le> k \<and> (k = 1 \<longrightarrow> hi = lo)"
    by (auto simp: addDomain_def hasDomain_iff)
  have same: "\<not> fst (addDomain n lo hi k D) \<longrightarrow> ?D = D" by (auto simp: addDomain_def)
  have reg: "getIndex ?D n = int (dom_size D) \<and> getVarPoints_s ?D n = k \<and> getVarLow_s ?D n = lo \<and>
      getVarHigh_s ?D n = hi" if a: "fst (addDomain n lo hi k D)"
  proof -
    have f: "m_dname ?D = m_dname D @ [n]" "m_dlow ?D = m_dlow D @ [lo]" "m_dhigh ?D = m_dhigh D @ [hi]"
      "m_dpoints ?D = m_dpoints D @ [k]" using a by (auto simp: addDomain_def split: if_splits)
    have l: "length (m_dlow D) = length (m_dname D)" "length (m_dhigh D) = length (m_dname D)"
      "length (m_dpoints D) = length (m_dname D)" using assms by (simp_all add: valid_domain_def)
    have "getIndex ?D n = int (dom_size D)"
      using getIndex_name [OF v, of "dom_size D"] f(1) by (simp add: dom_size_def getVarName_def)
    with f l show ?thesis
      by (simp add: getVarPoints_s_def getVarLow_s_def getVarHigh_s_def Let_def dom_size_def nth_append)
  qed
  show ?thesis using v acc same reg by blast
qed

theorem addDomain_registers_witness:
  "valid_domain (snd (addDomain ''depth'' 0 10 2 ex_dom)) \<and> fst (addDomain ''depth'' 0 10 2 ex_dom) \<and>
    getIndex (snd (addDomain ''depth'' 0 10 2 ex_dom)) ''depth'' = 2 \<and>
    getVarPoints_s (snd (addDomain ''depth'' 0 10 2 ex_dom)) ''depth'' = 2 \<and>
    getVarHigh_s (snd (addDomain ''depth'' 0 10 2 ex_dom)) ''depth'' = 10"
  using addDomain_registers [OF valid_ex_dom, of "''depth''" 0 10 2] by (simp add: ex_dom_facts)

end
