(* ===== verification/Box_Set.thy ===== *)
theory Box_Set
  imports IvP_Prelude
begin

text \<open>
  \<open>BoxSet\<close> and \<open>BoxSetNode\<close> (\<open>ivp/src/lib_ivpcore/BoxSetNode.h\<close>, \<open>BoxSet.h\<close>, \<open>BoxSet.cpp\<close>):
  a doubly linked list of nodes that point to boxes. The list is modelled on an explicit
  heap: a node is a cell with two node pointers and a box pointer, the null pointer is
  \<open>None\<close>, and following a null or a deleted pointer makes the operation \<open>None\<close>. A box pointer
  is a number; the mark that \<open>removeDups\<close> writes into the boxes is a map from box pointers.

  \<open>rep\<close> says that a \<open>BoxSet\<close> is a well linked list of nodes, \<open>bs_boxes\<close> is the sequence of
  boxes it holds, and each operation is shown to act on that sequence as its comment says,
  without following a bad pointer. The locale \<open>box_sequence\<close> is the part of this contract
  the grid uses.
\<close>

section \<open>Nodes, heap and set\<close>

record bsnode =
  m_prev :: "nat option"
  m_next :: "nat option"
  m_box :: nat

record node_heap =
  cells :: "nat \<Rightarrow> bsnode option"
  next_addr :: nat

record boxset =
  m_head :: "nat option"
  m_tail :: "nat option"
  m_size :: int

datatype list_end = FIRST | LAST

text \<open>\<open>new\<close> returns an address that was never used; \<open>delete\<close> frees the cell.\<close>

definition new_node :: "nat \<Rightarrow> node_heap \<Rightarrow> nat \<times> node_heap" where
  "new_node b h = (next_addr h,
     h\<lparr>cells := (cells h)(next_addr h \<mapsto> \<lparr>m_prev = None, m_next = None, m_box = b\<rparr>),
       next_addr := next_addr h + 1\<rparr>)"

definition delete_node :: "nat \<Rightarrow> node_heap \<Rightarrow> node_heap" where
  "delete_node p h = h\<lparr>cells := (cells h)(p := None)\<rparr>"

definition set_next :: "nat \<Rightarrow> nat option \<Rightarrow> node_heap \<Rightarrow> node_heap option" where
  "set_next p v h = (case cells h p of None \<Rightarrow> None
     | Some n \<Rightarrow> Some (h\<lparr>cells := (cells h)(p \<mapsto> n\<lparr>m_next := v\<rparr>)\<rparr>))"

definition set_prev :: "nat \<Rightarrow> nat option \<Rightarrow> node_heap \<Rightarrow> node_heap option" where
  "set_prev p v h = (case cells h p of None \<Rightarrow> None
     | Some n \<Rightarrow> Some (h\<lparr>cells := (cells h)(p \<mapsto> n\<lparr>m_prev := v\<rparr>)\<rparr>))"

section \<open>Operations\<close>

definition BoxSet_new :: boxset where
  "BoxSet_new = \<lparr>m_head = None, m_tail = None, m_size = 0\<rparr>"

text \<open>
  Both loops that free the nodes delete a cell in every round, so they make at most
  \<open>next_addr\<close> rounds; \<open>next_addr + 1\<close> units of fuel never run out.
\<close>

fun free_loop :: "nat \<Rightarrow> nat option \<Rightarrow> node_heap \<Rightarrow> node_heap option" where
  "free_loop fuel None h = Some h"
| "free_loop 0 (Some p) h = None"
| "free_loop (Suc fuel) (Some p) h =
     (case cells h p of None \<Rightarrow> None
      | Some n \<Rightarrow> free_loop fuel (m_next n) (delete_node p h))"

definition makeEmpty :: "node_heap \<Rightarrow> boxset \<Rightarrow> (node_heap \<times> boxset) option" where
  "makeEmpty h bs =
     free_loop (next_addr h + 1) (m_head bs) h \<bind>
     (\<lambda>h'. Some (h', bs\<lparr>m_head := None, m_tail := None, m_size := 0\<rparr>))"

text \<open>\<open>makeEmptyAndDeleteBoxes\<close> also returns the boxes it deleted, in order.\<close>

fun free_boxes_loop :: "nat \<Rightarrow> nat option \<Rightarrow> node_heap \<Rightarrow> nat list \<Rightarrow> (node_heap \<times> nat list) option" where
  "free_boxes_loop fuel None h deleted = Some (h, deleted)"
| "free_boxes_loop 0 (Some p) h deleted = None"
| "free_boxes_loop (Suc fuel) (Some p) h deleted =
     (case cells h p of None \<Rightarrow> None
      | Some n \<Rightarrow> free_boxes_loop fuel (m_next n) (delete_node p h) (deleted @ [m_box n]))"

definition makeEmptyAndDeleteBoxes ::
  "node_heap \<Rightarrow> boxset \<Rightarrow> (node_heap \<times> boxset \<times> nat list) option" where
  "makeEmptyAndDeleteBoxes h bs =
     free_boxes_loop (next_addr h + 1) (m_head bs) h [] \<bind>
     (\<lambda>(h', deleted). Some (h', bs\<lparr>m_head := None, m_tail := None, m_size := 0\<rparr>, deleted))"

definition addBSN :: "nat \<Rightarrow> list_end \<Rightarrow> node_heap \<Rightarrow> boxset \<Rightarrow> (node_heap \<times> boxset) option" where
  "addBSN node e h bs =
     (if e = FIRST then do {
        h1 \<leftarrow> (case m_head bs of None \<Rightarrow> Some h | Some q \<Rightarrow> set_prev q (Some node) h);
        h2 \<leftarrow> set_prev node None h1;
        h3 \<leftarrow> set_next node (m_head bs) h2;
        Some (h3, bs\<lparr>m_head := Some node,
                     m_tail := (if m_tail bs = None then Some node else m_tail bs),
                     m_size := m_size bs + 1\<rparr>)
      } else do {
        h1 \<leftarrow> (case m_tail bs of None \<Rightarrow> Some h | Some q \<Rightarrow> set_next q (Some node) h);
        h2 \<leftarrow> set_prev node (m_tail bs) h1;
        h3 \<leftarrow> set_next node None h2;
        Some (h3, bs\<lparr>m_tail := Some node,
                     m_head := (if m_head bs = None then Some node else m_head bs),
                     m_size := m_size bs + 1\<rparr>)
      })"

definition addBox :: "nat \<Rightarrow> list_end \<Rightarrow> node_heap \<Rightarrow> boxset \<Rightarrow> (node_heap \<times> boxset) option" where
  "addBox b e h bs =
     (case new_node b h of (bsn, h') \<Rightarrow>
        if e = FIRST then addBSN bsn FIRST h' bs else addBSN bsn LAST h' bs)"

definition retBSN :: "list_end \<Rightarrow> boxset \<Rightarrow> nat option" where
  "retBSN e bs = (if e = FIRST then m_head bs else m_tail bs)"

definition remBSN_end ::
  "list_end \<Rightarrow> node_heap \<Rightarrow> boxset \<Rightarrow> (nat option \<times> node_heap \<times> boxset) option" where
  "remBSN_end e h bs =
     (if e = FIRST then
        (case m_head bs of None \<Rightarrow> Some (None, h, bs)
         | Some ret \<Rightarrow> do {
             n \<leftarrow> cells h ret;
             (h1, tail) \<leftarrow> (case m_next n of None \<Rightarrow> Some (h, None)
                | Some q \<Rightarrow> set_prev q None h \<bind> (\<lambda>h'. Some (h', m_tail bs)));
             h2 \<leftarrow> set_next ret None h1;
             Some (Some ret, h2, bs\<lparr>m_head := m_next n, m_tail := tail, m_size := m_size bs - 1\<rparr>)
           })
      else
        (case m_tail bs of None \<Rightarrow> Some (None, h, bs)
         | Some ret \<Rightarrow> do {
             n \<leftarrow> cells h ret;
             (h1, head) \<leftarrow> (case m_prev n of None \<Rightarrow> Some (h, None)
                | Some q \<Rightarrow> set_next q None h \<bind> (\<lambda>h'. Some (h', m_head bs)));
             h2 \<leftarrow> set_prev ret None h1;
             Some (Some ret, h2, bs\<lparr>m_tail := m_prev n, m_head := head, m_size := m_size bs - 1\<rparr>)
           }))"

definition remBSN :: "nat \<Rightarrow> node_heap \<Rightarrow> boxset \<Rightarrow> (node_heap \<times> boxset) option" where
  "remBSN bsn h bs =
     (if Some bsn = m_head bs then remBSN_end FIRST h bs \<bind> (\<lambda>(r, h', bs'). Some (h', bs'))
      else if Some bsn = m_tail bs then remBSN_end LAST h bs \<bind> (\<lambda>(r, h', bs'). Some (h', bs'))
      else do {
        n \<leftarrow> cells h bsn;
        p \<leftarrow> m_prev n;
        h1 \<leftarrow> set_next p (m_next n) h;
        n' \<leftarrow> cells h1 bsn;
        q \<leftarrow> m_next n';
        h2 \<leftarrow> set_prev q (m_prev n') h1;
        Some (h2, bs\<lparr>m_size := m_size bs - 1\<rparr>)
      })"

text \<open>\<open>merge\<close> returns this set and the given one.\<close>

definition merge :: "node_heap \<Rightarrow> boxset \<Rightarrow> boxset \<Rightarrow> (node_heap \<times> boxset \<times> boxset) option" where
  "merge h this bs =
     (let this1 = this\<lparr>m_size := m_size this + m_size bs\<rparr>; bs1 = bs\<lparr>m_size := 0\<rparr>
      in case m_head this of
           None \<Rightarrow> Some (h, this1\<lparr>m_head := m_head bs, m_tail := m_tail bs\<rparr>,
                            bs1\<lparr>m_tail := None, m_head := None\<rparr>)
         | Some _ \<Rightarrow>
             (case m_head bs of
                None \<Rightarrow> Some (h, this1, bs1)
              | Some bh \<Rightarrow> do {
                  t \<leftarrow> m_tail this;
                  h1 \<leftarrow> set_next t (Some bh) h;
                  h2 \<leftarrow> set_prev bh (Some t) h1;
                  Some (h2, this1\<lparr>m_tail := m_tail bs\<rparr>, bs1\<lparr>m_tail := None, m_head := None\<rparr>)
                }))"

text \<open>
  The remaining loops follow \<open>m_next\<close> without deleting the cell they stand on. On a well linked
  list they visit each node once, so \<open>next_addr + 1\<close> units of fuel are enough (proved below);
  on a cyclic list the code does not return and the model is \<open>None\<close>.
\<close>

fun mergeCopy_loop :: "nat \<Rightarrow> nat option \<Rightarrow> node_heap \<Rightarrow> boxset \<Rightarrow> (node_heap \<times> boxset) option" where
  "mergeCopy_loop fuel None h this = Some (h, this)"
| "mergeCopy_loop 0 (Some c) h this = None"
| "mergeCopy_loop (Suc fuel) (Some c) h this = do {
     n \<leftarrow> cells h c;
     (case new_node (m_box n) h of (new, h1) \<Rightarrow> do {
        (h2, this') \<leftarrow>
          (case m_head this of
             None \<Rightarrow> Some (h1, this\<lparr>m_size := m_size this + 1, m_head := Some new, m_tail := Some new\<rparr>)
           | Some _ \<Rightarrow> do {
               t \<leftarrow> m_tail this;
               h1' \<leftarrow> set_next t (Some new) h1;
               h1'' \<leftarrow> set_prev new (Some t) h1';
               Some (h1'', this\<lparr>m_size := m_size this + 1, m_tail := Some new\<rparr>)
             });
        n' \<leftarrow> cells h2 c;
        mergeCopy_loop fuel (m_next n') h2 this'
      })
   }"

definition mergeCopy :: "node_heap \<Rightarrow> boxset \<Rightarrow> boxset \<Rightarrow> (node_heap \<times> boxset) option" where
  "mergeCopy h this bs =
     (if m_size bs = 0 then Some (h, this)
      else mergeCopy_loop (next_addr h + 1) (retBSN FIRST bs) h this)"

fun clear_marks :: "nat \<Rightarrow> nat option \<Rightarrow> node_heap \<Rightarrow> (nat \<Rightarrow> bool) \<Rightarrow> (nat \<Rightarrow> bool) option" where
  "clear_marks fuel None h mk = Some mk"
| "clear_marks 0 (Some p) h mk = None"
| "clear_marks (Suc fuel) (Some p) h mk =
     (case cells h p of None \<Rightarrow> None
      | Some n \<Rightarrow> clear_marks fuel (m_next n) h (mk(m_box n := False)))"

fun dups_loop :: "nat \<Rightarrow> nat option \<Rightarrow> node_heap \<Rightarrow> boxset \<Rightarrow> (nat \<Rightarrow> bool) \<Rightarrow>
    (node_heap \<times> boxset \<times> (nat \<Rightarrow> bool)) option" where
  "dups_loop fuel None h bs mk = Some (h, bs, mk)"
| "dups_loop 0 (Some p) h bs mk = None"
| "dups_loop (Suc fuel) (Some p) h bs mk = do {
     n \<leftarrow> cells h p;
     (h', bs') \<leftarrow> (if mk (m_box n)
        then remBSN p h bs \<bind> (\<lambda>(h1, bs1). Some (delete_node p h1, bs1))
        else Some (h, bs));
     dups_loop fuel (m_next n) h' bs' (mk(m_box n := True))
   }"

definition removeDups :: "node_heap \<Rightarrow> boxset \<Rightarrow> (nat \<Rightarrow> bool) \<Rightarrow>
    (node_heap \<times> boxset \<times> (nat \<Rightarrow> bool)) option" where
  "removeDups h bs mk =
     clear_marks (next_addr h + 1) (m_head bs) h mk \<bind>
     (\<lambda>mk'. dups_loop (next_addr h + 1) (m_head bs) h bs mk')"

section \<open>Well linked lists\<close>

text \<open>
  \<open>seg h p xs q\<close>: the nodes \<open>xs\<close> are linked in this order, the first one's \<open>m_prev\<close> is \<open>p\<close>
  and the last one's \<open>m_next\<close> is \<open>q\<close>.
\<close>

definition first :: "nat list \<Rightarrow> nat option \<Rightarrow> nat option" where
  "first xs q = (case xs of [] \<Rightarrow> q | y # _ \<Rightarrow> Some y)"

definition lastp :: "nat option \<Rightarrow> nat list \<Rightarrow> nat option" where
  "lastp p xs = (if xs = [] then p else Some (last xs))"

lemma first_simps [simp]: "first [] q = q" "first (y # ys) q = Some y" "first (xs @ ys) q = first xs (first ys q)"
  by (simp_all add: first_def split: list.splits)

lemma lastp_simps [simp]: "lastp p [] = p" "lastp p (x # xs) = lastp (Some x) xs"
  "lastp p (xs @ ys) = lastp (lastp p xs) ys"
  by (simp_all add: lastp_def)

lemma first_ne: "xs \<noteq> [] \<Longrightarrow> first xs q = Some (hd xs)"
  by (cases xs) auto

lemma lastp_ne: "xs \<noteq> [] \<Longrightarrow> lastp p xs = Some (last xs)"
  by (simp add: lastp_def)

fun seg :: "node_heap \<Rightarrow> nat option \<Rightarrow> nat list \<Rightarrow> nat option \<Rightarrow> bool" where
  "seg h p [] q \<longleftrightarrow> True"
| "seg h p (x # xs) q \<longleftrightarrow>
     (\<exists>n. cells h x = Some n \<and> m_prev n = p \<and> m_next n = first xs q \<and> seg h (Some x) xs q)"

lemma seg_append [simp]: "seg h p (xs @ ys) q \<longleftrightarrow> seg h p xs (first ys q) \<and> seg h (lastp p xs) ys q"
  by (induction xs arbitrary: p) auto

lemma seg_frame: "\<forall>x\<in>set xs. cells h x = cells h' x \<Longrightarrow> seg h p xs q = seg h' p xs q"
  by (induction xs arbitrary: p) auto

lemma seg_cell: "seg h p xs q \<Longrightarrow> x \<in> set xs \<Longrightarrow> \<exists>n. cells h x = Some n"
  by (induction xs arbitrary: p) auto

text \<open>A change of links only, in the nodes of \<open>S\<close>.\<close>

definition relink :: "node_heap \<Rightarrow> node_heap \<Rightarrow> nat set \<Rightarrow> bool" where
  "relink h h' S \<longleftrightarrow> next_addr h' = next_addr h \<and>
     (\<forall>y. map_option m_box (cells h' y) = map_option m_box (cells h y)) \<and>
     (\<forall>y. y \<notin> S \<longrightarrow> cells h' y = cells h y)"

lemma relink_refl [simp]: "relink h h S"
  by (simp add: relink_def)

lemma relink_trans: "relink h h1 S \<Longrightarrow> relink h1 h2 T \<Longrightarrow> S \<union> T \<subseteq> U \<Longrightarrow> relink h h2 U"
  unfolding relink_def by (metis UnI1 UnI2 subset_iff)

lemma relink_mono: "relink h h1 S \<Longrightarrow> S \<subseteq> U \<Longrightarrow> relink h h1 U"
  by (auto simp: relink_def)

lemma relink_seg: "relink h h' S \<Longrightarrow> S \<inter> set xs = {} \<Longrightarrow> seg h p xs q \<Longrightarrow> seg h' p xs q"
proof -
  assume "relink h h' S" "S \<inter> set xs = {}" "seg h p xs q"
  then have "\<forall>x\<in>set xs. cells h x = cells h' x" by (simp add: relink_def disjoint_iff) metis
  then show "seg h' p xs q" using seg_frame \<open>seg h p xs q\<close> by blast
qed

lemma relink_dom: "relink h h' S \<Longrightarrow> cells h' x = None \<longleftrightarrow> cells h x = None"
  by (metis relink_def option.map_disc_iff)

lemma set_prev_first:
  assumes "seg h p (x # xs) q" "x \<notin> set xs"
  obtains h' where "set_prev x v h = Some h'" "seg h' v (x # xs) q" "relink h h' {x}"
proof -
  from assms obtain n where n: "cells h x = Some n" "m_next n = first xs q" "seg h (Some x) xs q" by auto
  let ?h = "h\<lparr>cells := (cells h)(x \<mapsto> n\<lparr>m_prev := v\<rparr>)\<rparr>"
  have "seg ?h (Some x) xs q" using n(3) seg_frame [of xs ?h h] assms(2) by auto
  then show ?thesis using that [of ?h] n by (simp add: set_prev_def relink_def)
qed

lemma set_next_last:
  assumes "seg h p (xs @ [t]) q" "t \<notin> set xs"
  obtains h' where "set_next t v h = Some h'" "seg h' p (xs @ [t]) v" "relink h h' {t}"
proof -
  from assms obtain n where n: "cells h t = Some n" "m_prev n = lastp p xs" "seg h p xs (Some t)" by auto
  let ?h = "h\<lparr>cells := (cells h)(t \<mapsto> n\<lparr>m_next := v\<rparr>)\<rparr>"
  have "seg ?h p xs (Some t)" using n(3) seg_frame [of xs ?h h] assms(2) by auto
  then show ?thesis using that [of ?h] n by (simp add: set_next_def relink_def)
qed

text \<open>A node on its own is a segment, so its links can be set.\<close>

lemma seg_single: "cells h x = Some n \<Longrightarrow> seg h (m_prev n) [x] (m_next n)"
  by simp

lemma link_single:
  assumes "cells h x = Some n"
  obtains h1 h2 where "set_prev x p h = Some h1" "set_next x q h1 = Some h2" "seg h2 p [x] q"
    "relink h h2 {x}"
proof -
  obtain h1 where h1: "set_prev x p h = Some h1" "seg h1 p [x] (m_next n)" "relink h h1 {x}"
    using set_prev_first [OF seg_single [OF assms]] by auto
  obtain h2 where h2: "set_next x q h1 = Some h2" "seg h2 p [x] q" "relink h1 h2 {x}"
    using set_next_last [of h1 p "[]" x "m_next n" q] h1(2) by auto
  show ?thesis
    by (rule that [OF h1(1) h2(1,2) relink_trans [OF h1(3) h2(3)]]) simp
qed

definition heap_ok :: "node_heap \<Rightarrow> bool" where
  "heap_ok h \<longleftrightarrow> (\<forall>x. cells h x \<noteq> None \<longrightarrow> x < next_addr h)"

definition rep :: "node_heap \<Rightarrow> boxset \<Rightarrow> nat list \<Rightarrow> bool" where
  "rep h bs xs \<longleftrightarrow> distinct xs \<and> seg h None xs None \<and> m_head bs = first xs None \<and>
     m_tail bs = lastp None xs \<and> m_size bs = int (length xs) \<and> heap_ok h"

definition bs_boxes :: "node_heap \<Rightarrow> nat list \<Rightarrow> nat list" where
  "bs_boxes h xs = map (\<lambda>x. m_box (the (cells h x))) xs"

lemma heap_ok_relink: "relink h h' S \<Longrightarrow> heap_ok h \<Longrightarrow> heap_ok h'"
  using relink_dom [of h h' S] by (simp add: heap_ok_def relink_def)

lemma relink_box: "relink h h' S \<Longrightarrow> cells h x = Some n \<Longrightarrow> \<exists>n'. cells h' x = Some n' \<and> m_box n' = m_box n"
proof -
  assume "relink h h' S" "cells h x = Some n"
  then have "map_option m_box (cells h' x) = Some (m_box n)" by (simp add: relink_def)
  then show ?thesis by auto
qed

lemma bs_boxes_relink: "relink h h' S \<Longrightarrow> (\<And>x. x \<in> set xs \<Longrightarrow> cells h x \<noteq> None) \<Longrightarrow>
   bs_boxes h' xs = bs_boxes h xs"
  using relink_box [of h h' S] by (auto simp: bs_boxes_def) (metis option.sel)

lemma seg_boxes_relink: "relink h h' S \<Longrightarrow> seg h p xs q \<Longrightarrow> bs_boxes h' xs = bs_boxes h xs"
  using seg_cell [of h p xs q] by (intro bs_boxes_relink) auto

lemma bs_boxes_simps [simp]: "bs_boxes h [] = []" "bs_boxes h (xs @ ys) = bs_boxes h xs @ bs_boxes h ys"
  "length (bs_boxes h xs) = length xs"
  by (simp_all add: bs_boxes_def)

lemma rep_new: "heap_ok h \<Longrightarrow> rep h BoxSet_new []"
  by (simp add: rep_def BoxSet_new_def)

lemma rep_bound: "rep h bs xs \<Longrightarrow> set xs \<subseteq> {..<next_addr h} \<and> length xs \<le> next_addr h"
proof -
  assume r: "rep h bs xs"
  have "set xs \<subseteq> {..<next_addr h}" using r seg_cell unfolding rep_def heap_ok_def by (force)
  moreover from this have "card (set xs) \<le> card {..<next_addr h}" by (intro card_mono) auto
  ultimately show ?thesis using r by (simp add: rep_def distinct_card)
qed

section \<open>Adding a node\<close>

lemma addBSN_FIRST:
  assumes "rep h bs xs" "cells h node = Some n" "node \<notin> set xs"
  obtains h' bs' where "addBSN node FIRST h bs = Some (h', bs')" "rep h' bs' (node # xs)"
    "relink h h' (set (node # xs))"
proof -
  obtain h1 where h1: "(case m_head bs of None \<Rightarrow> Some h | Some q \<Rightarrow> set_prev q (Some node) h) = Some h1"
    "seg h1 (Some node) xs None" "relink h h1 (set xs)"
  proof (cases xs)
    case Nil
    then show ?thesis using that [of h] assms(1) by (simp add: rep_def)
  next
    case (Cons y ys)
    then have "seg h None (y # ys) None" "y \<notin> set ys" "m_head bs = Some y"
      using assms(1) by (auto simp: rep_def)
    then show ?thesis using that set_prev_first [of h None y ys None "Some node"] Cons
      by (metis insert_subset list.simps(15) option.simps(5) relink_mono empty_subsetI insertI1)
  qed
  from h1(3) assms(2) obtain n1 where "cells h1 node = Some n1" using relink_box by blast
  then obtain h2 h3 where h3: "set_prev node None h1 = Some h2" "set_next node (m_head bs) h2 = Some h3"
    "seg h3 None [node] (m_head bs)" "relink h1 h3 {node}" using link_single by metis
  let ?bs = "bs\<lparr>m_head := Some node, m_tail := (if m_tail bs = None then Some node else m_tail bs),
    m_size := m_size bs + 1\<rparr>"
  have "seg h3 (Some node) xs None" using relink_seg [OF h3(4) _ h1(2)] assms(3) by simp
  moreover have rl: "relink h h3 (set (node # xs))"
    by (rule relink_trans [OF h1(3) h3(4)]) auto
  moreover have "heap_ok h3" using heap_ok_relink [OF rl] assms(1) by (simp add: rep_def)
  ultimately have "rep h3 ?bs (node # xs)"
    using assms(1,3) h3(3) by (auto simp: rep_def lastp_def)
  then show ?thesis using that [of h3 ?bs] h1(1) h3 rl by (simp add: addBSN_def)
qed

lemma addBSN_LAST:
  assumes "rep h bs xs" "cells h node = Some n" "node \<notin> set xs"
  obtains h' bs' where "addBSN node LAST h bs = Some (h', bs')" "rep h' bs' (xs @ [node])"
    "relink h h' (set (xs @ [node]))"
proof -
  obtain h1 where h1: "(case m_tail bs of None \<Rightarrow> Some h | Some q \<Rightarrow> set_next q (Some node) h) = Some h1"
    "seg h1 None xs (Some node)" "relink h h1 (set xs)"
  proof (cases xs rule: rev_cases)
    case Nil
    then show ?thesis using that [of h] assms(1) by (simp add: rep_def)
  next
    case (snoc ys y)
    then have "seg h None (ys @ [y]) None" "y \<notin> set ys" "m_tail bs = Some y"
      using assms(1) by (auto simp: rep_def)
    then show ?thesis using that set_next_last [of h None ys y None "Some node"] snoc relink_mono [of _ _ "{y}" "set xs"]
      by (metis in_set_conv_decomp option.simps(5) empty_subsetI insert_subset)
  qed
  from h1(3) assms(2) obtain n1 where "cells h1 node = Some n1" using relink_box by blast
  then obtain h2 h3 where h3: "set_prev node (m_tail bs) h1 = Some h2" "set_next node None h2 = Some h3"
    "seg h3 (m_tail bs) [node] None" "relink h1 h3 {node}" using link_single by metis
  let ?bs = "bs\<lparr>m_tail := Some node, m_head := (if m_head bs = None then Some node else m_head bs),
    m_size := m_size bs + 1\<rparr>"
  have "seg h3 None xs (Some node)" using relink_seg [OF h3(4) _ h1(2)] assms(3) by simp
  moreover have rl: "relink h h3 (set (xs @ [node]))"
    by (rule relink_trans [OF h1(3) h3(4)]) auto
  moreover have "heap_ok h3" using heap_ok_relink [OF rl] assms(1) by (simp add: rep_def)
  ultimately have "rep h3 ?bs (xs @ [node])"
    using assms(1,3) h3(3) by (cases xs) (auto simp: rep_def)
  then show ?thesis using that [of h3 ?bs] h1(1) h3 rl by (simp add: addBSN_def)
qed

lemma new_node_facts:
  assumes "heap_ok h" "new_node b h = (p, h')"
  shows "cells h' p = Some \<lparr>m_prev = None, m_next = None, m_box = b\<rparr>" "heap_ok h'" "p = next_addr h"
    "next_addr h' = next_addr h + 1" "\<And>x. x \<noteq> p \<Longrightarrow> cells h' x = cells h x"
  using assms by (auto simp: new_node_def heap_ok_def less_Suc_eq)

text \<open>Other lists of the heap: a set of nodes that an operation leaves alone.\<close>

definition keeps :: "node_heap \<Rightarrow> node_heap \<Rightarrow> nat set \<Rightarrow> bool" where
  "keeps h h' K \<longleftrightarrow> (\<forall>x\<in>K. cells h' x = cells h x) \<and> next_addr h \<le> next_addr h' \<and>
     (heap_ok h \<longrightarrow> heap_ok h')"

lemma rep_keeps: "rep h bs xs \<Longrightarrow> keeps h h' (set xs) \<Longrightarrow> rep h' bs xs \<and> bs_boxes h' xs = bs_boxes h xs"
  using seg_frame [of xs h h' None None] by (auto simp: rep_def keeps_def bs_boxes_def)

lemma rep_new_node:
  assumes "rep h bs xs" "new_node b h = (p, h1)"
  shows "rep h1 bs xs" "bs_boxes h1 xs = bs_boxes h xs" "p \<notin> set xs"
    "cells h1 p = Some \<lparr>m_prev = None, m_next = None, m_box = b\<rparr>"
proof -
  have ok: "heap_ok h" using assms(1) by (simp add: rep_def)
  note n = new_node_facts [OF ok assms(2)]
  show p: "p \<notin> set xs" using rep_bound [OF assms(1)] n(3) by auto
  then have "keeps h h1 (set xs)" using n(2-5) by (auto simp: keeps_def) metis
  with assms(1) show "rep h1 bs xs" "bs_boxes h1 xs = bs_boxes h xs" using rep_keeps by blast+
  show "cells h1 p = Some \<lparr>m_prev = None, m_next = None, m_box = b\<rparr>" by (rule n(1))
qed

lemma addBox_rep:
  assumes "rep h bs xs"
  obtains h' bs' p where "addBox b e h bs = Some (h', bs')" "p = next_addr h"
    "rep h' bs' (if e = FIRST then p # xs else xs @ [p])"
    "bs_boxes h' (if e = FIRST then p # xs else xs @ [p]) =
      (if e = FIRST then b # bs_boxes h xs else bs_boxes h xs @ [b])"
    "\<And>K. K \<inter> set xs = {} \<Longrightarrow> K \<subseteq> {..<next_addr h} \<Longrightarrow> keeps h h' K"
proof -
  obtain p h1 where new: "new_node b h = (p, h1)" by fastforce
  have ok: "heap_ok h" using assms by (simp add: rep_def)
  note n = rep_new_node [OF assms new] and nf = new_node_facts [OF ok new]
  let ?ys = "if e = FIRST then p # xs else xs @ [p]"
  obtain h' bs' where r: "addBSN p e h1 bs = Some (h', bs')" "rep h' bs' ?ys" "relink h1 h' (set ?ys)"
  proof (cases e)
    case FIRST
    then show ?thesis using that addBSN_FIRST [OF n(1,4,3)] by auto
  next
    case LAST
    then show ?thesis using that addBSN_LAST [OF n(1,4,3)] by auto
  qed
  have "bs_boxes h' ?ys = bs_boxes h1 ?ys"
    using r(3) n(1,4) seg_cell [of h1 None xs None] by (intro bs_boxes_relink) (auto simp: rep_def split: if_splits)
  then have "bs_boxes h' ?ys = (if e = FIRST then b # bs_boxes h xs else bs_boxes h xs @ [b])"
    using n(2,4) by (auto simp: bs_boxes_def)
  moreover have "keeps h h' K" if "K \<inter> set xs = {}" "K \<subseteq> {..<next_addr h}" for K
  proof -
    have "cells h' x = cells h x" if "x \<in> K" for x
    proof -
      have "x \<noteq> p" "x \<notin> set xs" using that \<open>K \<inter> set xs = {}\<close> \<open>K \<subseteq> _\<close> nf(3) by auto
      then show ?thesis using r(3) nf(5) by (auto simp: relink_def)
    qed
    then show ?thesis using r(3) nf(4) heap_ok_relink [OF r(3) nf(2)] by (auto simp: keeps_def relink_def)
  qed
  moreover have "addBox b e h bs = addBSN p e h1 bs"
    by (cases e) (simp_all add: addBox_def new)
  ultimately show ?thesis using that r(1,2) nf(3) by simp
qed

section \<open>Removing a node\<close>

lemma heap_ok_rep: "rep h bs xs \<Longrightarrow> heap_ok h"
  by (simp add: rep_def)

lemma remBSN_FIRST:
  assumes "rep h bs (x # ys)"
  obtains h' bs' where "remBSN_end FIRST h bs = Some (Some x, h', bs')" "rep h' bs' ys"
    "relink h h' (set (x # ys))"
proof -
  from assms obtain n where n: "cells h x = Some n" "m_next n = first ys None" "seg h (Some x) ys None"
    by (auto simp: rep_def)
  obtain h1 where h1: "(case m_next n of None \<Rightarrow> Some (h, None)
      | Some q \<Rightarrow> set_prev q None h \<bind> (\<lambda>h'. Some (h', m_tail bs))) = Some (h1, lastp None ys)"
    "seg h1 None ys None" "relink h h1 (set ys)"
  proof (cases ys)
    case Nil
    then show ?thesis using that [of h] n by simp
  next
    case (Cons y zs)
    then have "seg h (Some x) (y # zs) None" "y \<notin> set zs" using assms n by (auto simp: rep_def)
    then obtain h1 where "set_prev y None h = Some h1" "seg h1 None (y # zs) None" "relink h h1 {y}"
      using set_prev_first by metis
    then show ?thesis using that [of h1] Cons n(2) assms relink_mono [of h h1 "{y}" "set ys"]
      by (simp add: rep_def)
  qed
  obtain n1 where n1: "cells h1 x = Some n1" using relink_box [OF h1(3) n(1)] by blast
  obtain h2 where h2: "set_next x None h1 = Some h2" "relink h1 h2 {x}"
    using set_next_last [of h1 "m_prev n1" "[]" x "m_next n1" None] n1 by auto
  have rl: "relink h h2 (set (x # ys))" by (rule relink_trans [OF h1(3) h2(2)]) auto
  have "seg h2 None ys None" using relink_seg [OF h2(2) _ h1(2)] assms by (simp add: rep_def)
  then have "rep h2 (bs\<lparr>m_head := m_next n, m_tail := lastp None ys, m_size := m_size bs - 1\<rparr>) ys"
    using assms heap_ok_relink [OF rl] n(2) by (auto simp: rep_def)
  moreover have "m_head bs = Some x" using assms by (simp add: rep_def)
  then have "remBSN_end FIRST h bs = Some (Some x, h2,
      bs\<lparr>m_head := m_next n, m_tail := lastp None ys, m_size := m_size bs - 1\<rparr>)"
    using h1(1) h2(1) n(1) by (simp add: remBSN_end_def)
  ultimately show ?thesis using that rl by blast
qed

lemma remBSN_LAST:
  assumes "rep h bs (ys @ [x])"
  obtains h' bs' where "remBSN_end LAST h bs = Some (Some x, h', bs')" "rep h' bs' ys"
    "relink h h' (set (ys @ [x]))"
proof -
  from assms obtain n where n: "cells h x = Some n" "m_prev n = lastp None ys" "seg h None ys (Some x)"
    by (auto simp: rep_def)
  obtain h1 where h1: "(case m_prev n of None \<Rightarrow> Some (h, None)
      | Some q \<Rightarrow> set_next q None h \<bind> (\<lambda>h'. Some (h', m_head bs))) = Some (h1, first ys None)"
    "seg h1 None ys None" "relink h h1 (set ys)"
  proof (cases ys rule: rev_cases)
    case Nil
    then show ?thesis using that [of h] n by simp
  next
    case (snoc zs y)
    then have "seg h None (zs @ [y]) (Some x)" "y \<notin> set zs" using assms n by (auto simp: rep_def)
    then obtain h1 where "set_next y None h = Some h1" "seg h1 None (zs @ [y]) None" "relink h h1 {y}"
      using set_next_last by metis
    moreover have "m_head bs = first ys None" using assms snoc by (cases zs) (auto simp: rep_def)
    ultimately show ?thesis using that [of h1] snoc n(2) assms relink_mono [of h h1 "{y}" "set ys"]
      by simp
  qed
  obtain n1 where n1: "cells h1 x = Some n1" using relink_box [OF h1(3) n(1)] by blast
  obtain h2 where h2: "set_prev x None h1 = Some h2" "relink h1 h2 {x}"
    using set_prev_first [of h1 "m_prev n1" x "[]" "m_next n1" None] n1 by auto
  have rl: "relink h h2 (set (ys @ [x]))" by (rule relink_trans [OF h1(3) h2(2)]) auto
  have "seg h2 None ys None" using relink_seg [OF h2(2) _ h1(2)] assms by (simp add: rep_def)
  then have "rep h2 (bs\<lparr>m_tail := m_prev n, m_head := first ys None, m_size := m_size bs - 1\<rparr>) ys"
    using assms heap_ok_relink [OF rl] n(2) by (auto simp: rep_def)
  moreover have "m_tail bs = Some x" using assms by (simp add: rep_def)
  then have "remBSN_end LAST h bs = Some (Some x, h2,
      bs\<lparr>m_tail := m_prev n, m_head := first ys None, m_size := m_size bs - 1\<rparr>)"
    using h1(1) h2(1) n(1) by (simp add: remBSN_end_def)
  ultimately show ?thesis using that rl by blast
qed

text \<open>\<open>remBSN(BoxSetNode*)\<close> unlinks a node anywhere in the list.\<close>

lemma remBSN_rep:
  assumes "rep h bs (as @ x # ys)"
  obtains h' bs' where "remBSN x h bs = Some (h', bs')" "rep h' bs' (as @ ys)"
    "relink h h' (set (as @ x # ys))"
proof (cases "as = [] \<or> ys = []")
  case True
  show ?thesis
  proof (cases "as = []")
    case True
    then obtain h' bs' where "remBSN_end FIRST h bs = Some (Some x, h', bs')" "rep h' bs' ys"
      "relink h h' (set (x # ys))" using remBSN_FIRST assms by (metis append_Nil)
    moreover have "m_head bs = Some x" using assms True by (simp add: rep_def)
    ultimately show ?thesis using that True by (simp add: remBSN_def)
  next
    case False
    then have ys: "ys = []" using True by simp
    then obtain h' bs' where "remBSN_end LAST h bs = Some (Some x, h', bs')" "rep h' bs' as"
      "relink h h' (set (as @ [x]))" using remBSN_LAST assms by metis
    moreover have "m_tail bs = Some x" "m_head bs \<noteq> Some x"
      using assms False ys by (auto simp: rep_def first_ne)
    ultimately show ?thesis using that ys by (simp add: remBSN_def)
  qed
next
  case False
  then obtain as' a y ys' where as: "as = as' @ [a]" "ys = y # ys'"
    by (metis neq_Nil_conv rev_exhaust)
  from assms as have d: "distinct (as' @ [a] @ x # y # ys')" by (simp add: rep_def)
  from assms as obtain n where n: "cells h x = Some n" "m_prev n = Some a" "m_next n = Some y"
    by (auto simp: rep_def)
  have sg: "seg h None (as' @ [a]) (Some x)" "seg h (Some x) (y # ys') None"
    using assms as by (auto simp: rep_def)
  have "a \<notin> set as'" using d by auto
  with sg(1) obtain h1 where h1: "set_next a (Some y) h = Some h1" "seg h1 None (as' @ [a]) (Some y)"
    "relink h h1 {a}" by (rule set_next_last)
  have "seg h1 (Some x) (y # ys') None"
    by (rule relink_seg [OF h1(3) _ sg(2)]) (use d in auto)
  moreover have "y \<notin> set ys'" using d by simp
  ultimately obtain h2 where h2: "set_prev y (Some a) h1 = Some h2" "seg h2 (Some a) (y # ys') None"
    "relink h1 h2 {y}" by (rule set_prev_first)
  have n1: "cells h1 x = Some n" using h1(3) n(1) d by (auto simp: relink_def)
  have rl: "relink h h2 (set (as @ x # ys))"
    by (rule relink_trans [OF h1(3) h2(3)]) (auto simp: as)
  have s1: "seg h2 None as (Some y)" unfolding as
    by (rule relink_seg [OF h2(3) _ h1(2)]) (use d in auto)
  have s2: "seg h2 None (as @ ys) None" using s1 h2(2) as by simp
  have hd: "m_head bs = first as None" "first as None \<noteq> Some x"
    using assms as(1) d by (cases as'; simp add: rep_def)+
  have "x \<notin> set ys" "ys \<noteq> []" using d as by auto
  then have tl: "m_tail bs = Some (last ys)" "last ys \<noteq> x"
    using assms last_in_set [of ys] by (auto simp: rep_def lastp_def)
  let ?bs = "bs\<lparr>m_size := m_size bs - 1\<rparr>"
  have "remBSN x h bs = Some (h2, ?bs)"
    using hd tl n n1 h1(1) h2(1) by (simp add: remBSN_def)
  moreover have "rep h2 ?bs (as @ ys)"
    using assms s2 hd tl heap_ok_relink [OF rl] as by (auto simp: rep_def lastp_def)
  ultimately show ?thesis using that rl by blast
qed

section \<open>Emptying, merging and copying\<close>

lemma free_loop_seg: "distinct xs \<Longrightarrow> seg h p xs None \<Longrightarrow> length xs \<le> fuel \<Longrightarrow>
   \<exists>h'. free_loop fuel (first xs None) h = Some h' \<and> next_addr h' = next_addr h \<and>
     (\<forall>x. cells h' x = (if x \<in> set xs then None else cells h x))"
proof (induction xs arbitrary: h p fuel)
  case (Cons x xs)
  from Cons.prems obtain n where n: "cells h x = Some n" "m_next n = first xs None" "seg h (Some x) xs None"
    by auto
  let ?h = "delete_node x h"
  have "seg ?h (Some x) xs None"
    using n(3) Cons.prems(1) seg_frame [of xs h ?h] by (auto simp: delete_node_def)
  moreover from Cons.prems(3) obtain k where k: "fuel = Suc k" "length xs \<le> k" by (cases fuel) auto
  ultimately obtain h' where "free_loop k (first xs None) ?h = Some h'" "next_addr h' = next_addr ?h"
    "\<forall>y. cells h' y = (if y \<in> set xs then None else cells ?h y)"
    using Cons.IH [of ?h "Some x" k] Cons.prems(1) by auto
  then show ?case using n k Cons.prems(1) by (auto simp: delete_node_def)
qed simp

lemma makeEmpty_rep:
  assumes "rep h bs xs"
  obtains h' bs' where "makeEmpty h bs = Some (h', bs')" "rep h' bs' []"
    "\<forall>x. cells h' x = (if x \<in> set xs then None else cells h x)"
proof -
  have "distinct xs" "seg h None xs None" "m_head bs = first xs None" using assms by (auto simp: rep_def)
  moreover have "length xs \<le> next_addr h + 1" using rep_bound [OF assms] by simp
  ultimately obtain h' where h': "free_loop (next_addr h + 1) (m_head bs) h = Some h'"
    "next_addr h' = next_addr h" "\<forall>x. cells h' x = (if x \<in> set xs then None else cells h x)"
    using free_loop_seg by metis
  have "rep h' (bs\<lparr>m_head := None, m_tail := None, m_size := 0\<rparr>) []"
    using h' assms by (auto simp: rep_def heap_ok_def split: if_splits)
  then show ?thesis using that h' by (simp add: makeEmpty_def)
qed

lemma free_boxes_loop_seg: "distinct xs \<Longrightarrow> seg h p xs None \<Longrightarrow> length xs \<le> fuel \<Longrightarrow>
   \<exists>h'. free_boxes_loop fuel (first xs None) h del = Some (h', del @ bs_boxes h xs) \<and>
     next_addr h' = next_addr h \<and> (\<forall>x. cells h' x = (if x \<in> set xs then None else cells h x))"
proof (induction xs arbitrary: h p fuel del)
  case (Cons x xs)
  from Cons.prems obtain n where n: "cells h x = Some n" "m_next n = first xs None" "seg h (Some x) xs None"
    by auto
  let ?h = "delete_node x h"
  have fr: "\<forall>y\<in>set xs. cells h y = cells ?h y" using Cons.prems(1) by (auto simp: delete_node_def)
  have "seg ?h (Some x) xs None" using n(3) seg_frame [OF fr] by auto
  moreover from Cons.prems(3) obtain k where k: "fuel = Suc k" "length xs \<le> k" by (cases fuel) auto
  ultimately obtain h' where
    "free_boxes_loop k (first xs None) ?h (del @ [m_box n]) = Some (h', (del @ [m_box n]) @ bs_boxes ?h xs)"
    "next_addr h' = next_addr ?h" "\<forall>y. cells h' y = (if y \<in> set xs then None else cells ?h y)"
    using Cons.IH [of ?h "Some x" k "del @ [m_box n]"] Cons.prems(1) by auto
  moreover have "bs_boxes ?h xs = bs_boxes h xs" using fr by (simp add: bs_boxes_def)
  ultimately show ?case using n k Cons.prems(1) by (auto simp: delete_node_def bs_boxes_def)
qed simp

lemma makeEmptyAndDeleteBoxes_rep:
  assumes "rep h bs xs"
  obtains h' bs' where "makeEmptyAndDeleteBoxes h bs = Some (h', bs', bs_boxes h xs)" "rep h' bs' []"
proof -
  have "distinct xs" "seg h None xs None" "m_head bs = first xs None" using assms by (auto simp: rep_def)
  moreover have "length xs \<le> next_addr h + 1" using rep_bound [OF assms] by simp
  ultimately obtain h' where h': "free_boxes_loop (next_addr h + 1) (m_head bs) h [] = Some (h', bs_boxes h xs)"
    "next_addr h' = next_addr h" "\<forall>x. cells h' x = (if x \<in> set xs then None else cells h x)"
    using free_boxes_loop_seg [of xs h None "next_addr h + 1" "[]"] by auto
  have "rep h' (bs\<lparr>m_head := None, m_tail := None, m_size := 0\<rparr>) []"
    using h' assms by (auto simp: rep_def heap_ok_def split: if_splits)
  then show ?thesis using that h' by (simp add: makeEmptyAndDeleteBoxes_def)
qed

lemma merge_rep:
  assumes "rep h this xs" "rep h bs ys" "set xs \<inter> set ys = {}"
  obtains h' this' bs' where "merge h this bs = Some (h', this', bs')" "rep h' this' (xs @ ys)"
    "rep h' bs' []" "bs_boxes h' (xs @ ys) = bs_boxes h xs @ bs_boxes h ys"
proof (cases "xs = [] \<or> ys = []")
  case True
  then show ?thesis
    using that assms by (cases "xs = []") (auto simp: merge_def rep_def Let_def first_ne lastp_def)
next
  case False
  then obtain xs' t y ys' where xs: "xs = xs' @ [t]" and ys: "ys = y # ys'"
    by (metis neq_Nil_conv rev_exhaust)
  have sx: "seg h None (xs' @ [t]) None" "t \<notin> set xs'" and sy: "seg h None (y # ys') None" "y \<notin> set ys'"
    using assms xs ys by (auto simp: rep_def)
  obtain h1 where h1: "set_next t (Some y) h = Some h1" "seg h1 None (xs' @ [t]) (Some y)" "relink h h1 {t}"
    by (rule set_next_last [OF sx])
  have "seg h1 None (y # ys') None"
    by (rule relink_seg [OF h1(3) _ sy(1)]) (use assms(3) xs ys in auto)
  then obtain h2 where h2: "set_prev y (Some t) h1 = Some h2" "seg h2 (Some t) (y # ys') None" "relink h1 h2 {y}"
    using sy(2) by (rule set_prev_first)
  have "seg h2 None (xs' @ [t]) (Some y)"
    by (rule relink_seg [OF h2(3) _ h1(2)]) (use assms(3) xs ys in auto)
  then have sg: "seg h2 None (xs @ ys) None" using h2(2) xs ys by simp
  have rl: "relink h h2 {t, y}" by (rule relink_trans [OF h1(3) h2(3)]) auto
  have ok: "heap_ok h2" using heap_ok_relink [OF rl] assms(1) by (simp add: rep_def)
  let ?ths = "this\<lparr>m_size := m_size this + m_size bs, m_tail := m_tail bs\<rparr>"
  let ?bs = "bs\<lparr>m_size := 0, m_tail := None, m_head := None\<rparr>"
  have "m_head this = Some (hd xs)" using assms(1) False first_ne [of xs None] by (simp add: rep_def)
  moreover have "m_tail this = Some t" "m_head bs = Some y" using assms xs ys by (auto simp: rep_def)
  ultimately have "merge h this bs = Some (h2, ?ths, ?bs)"
    using h1(1) h2(1) by (simp add: merge_def Let_def)
  moreover have "rep h2 ?ths (xs @ ys)" using assms sg ok xs ys by (auto simp: rep_def)
  moreover have "rep h2 ?bs []" using ok by (simp add: rep_def)
  moreover have "bs_boxes h2 (xs @ ys) = bs_boxes h xs @ bs_boxes h ys"
    using seg_boxes_relink [OF rl] assms by (auto simp: rep_def)
  ultimately show ?thesis using that by blast
qed

text \<open>One round of \<open>mergeCopy\<close> appends a new node; it leaves the other lists alone.\<close>

definition copy_round :: "nat \<Rightarrow> node_heap \<Rightarrow> boxset \<Rightarrow> (node_heap \<times> boxset) option" where
  "copy_round b h this = (case new_node b h of (new, h1) \<Rightarrow>
     (case m_head this of
        None \<Rightarrow> Some (h1, this\<lparr>m_size := m_size this + 1, m_head := Some new, m_tail := Some new\<rparr>)
      | Some _ \<Rightarrow> do {
          t \<leftarrow> m_tail this;
          h1' \<leftarrow> set_next t (Some new) h1;
          h1'' \<leftarrow> set_prev new (Some t) h1';
          Some (h1'', this\<lparr>m_size := m_size this + 1, m_tail := Some new\<rparr>)
        }))"

lemma mergeCopy_loop_round:
  "mergeCopy_loop (Suc fuel) (Some c) h this = do {
     n \<leftarrow> cells h c;
     (h2, this') \<leftarrow> copy_round (m_box n) h this;
     n' \<leftarrow> cells h2 c;
     mergeCopy_loop fuel (m_next n') h2 this' }"
  by (cases "cells h c") (simp_all add: copy_round_def split: prod.splits)

lemma copy_round_rep:
  assumes "rep h this xs"
  obtains h' this' where "copy_round b h this = Some (h', this')" "rep h' this' (xs @ [next_addr h])"
    "bs_boxes h' (xs @ [next_addr h]) = bs_boxes h xs @ [b]"
    "\<And>K. K \<inter> set xs = {} \<Longrightarrow> K \<subseteq> {..<next_addr h} \<Longrightarrow> keeps h h' K"
proof -
  obtain new h1 where new: "new_node b h = (new, h1)" by fastforce
  have ok: "heap_ok h" using assms by (simp add: rep_def)
  note n = rep_new_node [OF assms new] and nf = new_node_facts [OF ok new]
  have k1: "keeps h h1 K" if "K \<subseteq> {..<next_addr h}" for K
    using that nf by (auto simp: keeps_def)
  show ?thesis
  proof (cases xs rule: rev_cases)
    case Nil
    let ?ths = "this\<lparr>m_size := m_size this + 1, m_head := Some new, m_tail := Some new\<rparr>"
    have "copy_round b h this = Some (h1, ?ths)" "rep h1 ?ths (xs @ [next_addr h])"
      using assms Nil n nf(2,3) by (auto simp: copy_round_def new rep_def)
    then show ?thesis using that [of h1 ?ths] Nil n(4) nf(3) k1 by (simp add: bs_boxes_def)
  next
    case (snoc xs' t)
    have sx: "seg h1 None (xs' @ [t]) None" "t \<notin> set xs'" using n(1) snoc by (auto simp: rep_def)
    obtain h2 where h2: "set_next t (Some new) h1 = Some h2" "seg h2 None (xs' @ [t]) (Some new)"
      "relink h1 h2 {t}" by (rule set_next_last [OF sx])
    have "cells h2 new = cells h1 new" using h2(3) n(3) snoc by (auto simp: relink_def)
    then have "seg h2 None [new] None" using n(4) by simp
    then obtain h3 where h3: "set_prev new (Some t) h2 = Some h3" "seg h3 (Some t) [new] None"
      "relink h2 h3 {new}" by (rule set_prev_first) simp_all
    have "seg h3 None (xs' @ [t]) (Some new)"
      by (rule relink_seg [OF h3(3) _ h2(2)]) (use n(3) snoc in auto)
    then have sg: "seg h3 None (xs @ [new]) None" using h3(2) snoc by simp
    have rl: "relink h1 h3 (set (xs @ [new]))"
      by (rule relink_trans [OF h2(3) h3(3)]) (auto simp: snoc)
    let ?ths = "this\<lparr>m_size := m_size this + 1, m_tail := Some new\<rparr>"
    have m: "m_head this \<noteq> None" "m_tail this = Some t"
      using assms snoc first_ne [of xs None] by (auto simp: rep_def)
    then have "copy_round b h this = Some (h3, ?ths)"
      using h2(1) h3(1) by (auto simp: copy_round_def new)
    moreover have "rep h3 ?ths (xs @ [next_addr h])"
      using sg assms n(3) nf(3) heap_ok_relink [OF rl nf(2)] snoc by (auto simp: rep_def)
    moreover have "bs_boxes h3 (xs @ [next_addr h]) = bs_boxes h xs @ [b]"
      using bs_boxes_relink [OF rl, of "xs @ [new]"] n(2,4) nf(3) seg_cell [of h1 None xs None] n(1)
      by (auto simp: rep_def bs_boxes_def)
    moreover have "keeps h h3 K" if "K \<inter> set xs = {}" "K \<subseteq> {..<next_addr h}" for K
    proof -
      have "x \<notin> set (xs @ [new])" if "x \<in> K" for x
        using that \<open>K \<inter> set xs = {}\<close> \<open>K \<subseteq> _\<close> nf(3) by auto
      then have "\<forall>x\<in>K. cells h3 x = cells h1 x" using rl unfolding relink_def by blast
      then show ?thesis
        using k1 [OF that(2)] heap_ok_relink [OF rl] rl by (auto simp: keeps_def relink_def)
    qed
    ultimately show ?thesis using that by blast
  qed
qed

lemma mergeCopy_loop_rep:
  assumes "rep h this xs" "seg h p ys None" "set ys \<inter> set xs = {}" "set ys \<subseteq> {..<next_addr h}"
    "length ys \<le> fuel"
  shows "\<exists>h' this' zs. mergeCopy_loop fuel (first ys None) h this = Some (h', this') \<and>
     rep h' this' (xs @ zs) \<and> bs_boxes h' (xs @ zs) = bs_boxes h xs @ bs_boxes h ys \<and>
     (\<forall>K. K \<inter> set xs = {} \<longrightarrow> K \<subseteq> {..<next_addr h} \<longrightarrow> keeps h h' K)"
  using assms
proof (induction ys arbitrary: h this xs p fuel)
  case Nil
  then show ?case by (auto simp: keeps_def intro!: exI [of _ "[]"])
next
  case (Cons y ys)
  from Cons.prems(2) obtain n where n: "cells h y = Some n" "m_next n = first ys None" "seg h (Some y) ys None"
    by auto
  from Cons.prems(5) obtain k where k: "fuel = Suc k" "length ys \<le> k" by (cases fuel) auto
  obtain h2 this2 where r: "copy_round (m_box n) h this = Some (h2, this2)"
    "rep h2 this2 (xs @ [next_addr h])" "bs_boxes h2 (xs @ [next_addr h]) = bs_boxes h xs @ [m_box n]"
    "\<And>K. K \<inter> set xs = {} \<Longrightarrow> K \<subseteq> {..<next_addr h} \<Longrightarrow> keeps h h2 K"
    using copy_round_rep [OF Cons.prems(1)] by metis
  have kp: "keeps h h2 (set (y # ys))" by (rule r(4)) (use Cons.prems(3,4) in auto)
  then have same: "cells h2 y = Some n" "\<forall>x\<in>set ys. cells h x = cells h2 x" "next_addr h \<le> next_addr h2"
    using n(1) by (auto simp: keeps_def)
  have "seg h2 (Some y) ys None" using n(3) seg_frame [OF same(2)] by simp
  moreover have "set ys \<inter> set (xs @ [next_addr h]) = {}" "set ys \<subseteq> {..<next_addr h2}"
    using Cons.prems(3,4) same(3) by auto
  ultimately have "\<exists>h' this' zs. mergeCopy_loop k (first ys None) h2 this2 = Some (h', this') \<and>
     rep h' this' ((xs @ [next_addr h]) @ zs) \<and>
     bs_boxes h' ((xs @ [next_addr h]) @ zs) = bs_boxes h2 (xs @ [next_addr h]) @ bs_boxes h2 ys \<and>
     (\<forall>K. K \<inter> set (xs @ [next_addr h]) = {} \<longrightarrow> K \<subseteq> {..<next_addr h2} \<longrightarrow> keeps h2 h' K)"
    by (rule Cons.IH [OF r(2) _ _ _ k(2)])
  then obtain h' this' zs where
    IH: "mergeCopy_loop k (first ys None) h2 this2 = Some (h', this')"
     "rep h' this' ((xs @ [next_addr h]) @ zs)"
     "bs_boxes h' ((xs @ [next_addr h]) @ zs) = bs_boxes h2 (xs @ [next_addr h]) @ bs_boxes h2 ys"
     "\<forall>K. K \<inter> set (xs @ [next_addr h]) = {} \<longrightarrow> K \<subseteq> {..<next_addr h2} \<longrightarrow> keeps h2 h' K"
    by (elim exE conjE)
  have "bs_boxes h2 ys = bs_boxes h ys" using same(2) by (simp add: bs_boxes_def)
  then have bx: "bs_boxes h' (xs @ (next_addr h # zs)) = bs_boxes h xs @ bs_boxes h (y # ys)"
    using IH(3) r(3) n(1) by (simp add: bs_boxes_def)
  have "keeps h h' K" if "K \<inter> set xs = {}" "K \<subseteq> {..<next_addr h}" for K
  proof -
    have "K \<inter> set (xs @ [next_addr h]) = {}" "K \<subseteq> {..<next_addr h2}"
      using that same(3) by (auto simp: subset_iff)
    then have "keeps h2 h' K" using IH(4) by blast
    then show ?thesis using r(4) [OF that] by (auto simp: keeps_def)
  qed
  then show ?case using IH(1,2) bx k(1) r(1) n(1,2) same(1)
    by (intro exI [of _ h'] exI [of _ this'] exI [of _ "next_addr h # zs"]) (simp add: mergeCopy_loop_round del: mergeCopy_loop.simps)
qed

lemma mergeCopy_rep:
  assumes "rep h this xs" "rep h bs ys" "set xs \<inter> set ys = {}"
  shows "\<exists>h' this' zs. mergeCopy h this bs = Some (h', this') \<and> rep h' this' (xs @ zs) \<and>
     bs_boxes h' (xs @ zs) = bs_boxes h xs @ bs_boxes h ys \<and> rep h' bs ys \<and>
     bs_boxes h' ys = bs_boxes h ys"
proof (cases "ys = []")
  case True
  then show ?thesis using assms by (auto simp: mergeCopy_def rep_def intro!: exI [of _ "[]"])
next
  case False
  have b: "set ys \<subseteq> {..<next_addr h}" "length ys \<le> next_addr h + 1"
    using rep_bound [OF assms(2)] by auto
  have "seg h None ys None" "m_head bs = first ys None" "m_size bs \<noteq> 0"
    using assms(2) False by (auto simp: rep_def)
  then obtain h' this' zs where r: "mergeCopy h this bs = Some (h', this')"
     "rep h' this' (xs @ zs)" "bs_boxes h' (xs @ zs) = bs_boxes h xs @ bs_boxes h ys"
     "\<forall>K. K \<inter> set xs = {} \<longrightarrow> K \<subseteq> {..<next_addr h} \<longrightarrow> keeps h h' K"
    using mergeCopy_loop_rep [OF assms(1) _ _ b, of None] assms(3)
    by (auto simp: mergeCopy_def retBSN_def Int_commute)
  then have "keeps h h' (set ys)" using b(1) assms(3) by (simp add: Int_commute)
  with r rep_keeps [OF assms(2)] show ?thesis by blast
qed

section \<open>Removing duplicates\<close>

text \<open>The specification: keep the first occurrence of every box, in order.\<close>

fun keep_first :: "nat set \<Rightarrow> nat list \<Rightarrow> nat list" where
  "keep_first seen [] = []"
| "keep_first seen (b # bs) =
     (if b \<in> seen then keep_first seen bs else b # keep_first (insert b seen) bs)"

lemma set_keep_first [simp]: "set (keep_first seen bs) = set bs - seen"
  by (induction seen bs rule: keep_first.induct) auto

lemma distinct_keep_first [simp]: "distinct (keep_first seen bs)"
  by (induction seen bs rule: keep_first.induct) auto

lemma keep_first_distinct: "distinct bs \<Longrightarrow> set bs \<inter> seen = {} \<Longrightarrow> keep_first seen bs = bs"
  by (induction seen bs rule: keep_first.induct) auto

lemma clear_marks_seg: "seg h p xs None \<Longrightarrow> length xs \<le> fuel \<Longrightarrow>
   \<exists>mk'. clear_marks fuel (first xs None) h mk = Some mk' \<and>
     (\<forall>b. mk' b = (mk b \<and> b \<notin> set (bs_boxes h xs)))"
proof (induction xs arbitrary: p fuel mk)
  case (Cons x xs)
  from Cons.prems obtain n where n: "cells h x = Some n" "m_next n = first xs None" "seg h (Some x) xs None"
    by auto
  from Cons.prems(2) obtain k where k: "fuel = Suc k" "length xs \<le> k" by (cases fuel) auto
  from Cons.IH [OF n(3) k(2)] obtain mk' where
    "clear_marks k (first xs None) h (mk(m_box n := False)) = Some mk'"
    "\<forall>b. mk' b = ((mk(m_box n := False)) b \<and> b \<notin> set (bs_boxes h xs))" by blast
  then show ?case using n k by (auto simp: bs_boxes_def split: if_splits)
qed (simp add: bs_boxes_def)

lemma dups_loop_rep:
  assumes "rep h bs (done @ xs)" "length xs \<le> fuel"
    "\<forall>b\<in>set (bs_boxes h xs). mk b \<longleftrightarrow> b \<in> seen"
  shows "\<exists>h' bs' mk' zs. dups_loop fuel (first xs None) h bs mk = Some (h', bs', mk') \<and>
    rep h' bs' (done @ zs) \<and> bs_boxes h' (done @ zs) = bs_boxes h done @ keep_first seen (bs_boxes h xs)"
  using assms
proof (induction xs arbitrary: h bs mk "done" seen fuel)
  case Nil
  then show ?case by (auto intro!: exI [of _ "[]"])
next
  case (Cons x xs)
  from Cons.prems(1) obtain n where n: "cells h x = Some n" "m_next n = first xs None"
    by (auto simp: rep_def)
  from Cons.prems(2) obtain k where k: "fuel = Suc k" "length xs \<le> k" by (cases fuel) auto
  have mk: "mk (m_box n) \<longleftrightarrow> m_box n \<in> seen" using Cons.prems(3) n by (simp add: bs_boxes_def)
  let ?mk = "mk(m_box n := True)"
  have d: "x \<notin> set done" "x \<notin> set xs" using Cons.prems(1) by (auto simp: rep_def)
  have bx: "bs_boxes h (x # xs) = m_box n # bs_boxes h xs" using n by (simp add: bs_boxes_def)
  show ?case
  proof (cases "m_box n \<in> seen")
    case True
    obtain h1 bs1 where r: "remBSN x h bs = Some (h1, bs1)" "rep h1 bs1 (done @ xs)"
      "relink h h1 (set (done @ x # xs))" using remBSN_rep [OF Cons.prems(1)] by metis
    let ?h = "delete_node x h1"
    have "keeps h1 ?h (set (done @ xs))" using d by (auto simp: keeps_def delete_node_def heap_ok_def)
    then have r2: "rep ?h bs1 (done @ xs)" "bs_boxes ?h (done @ xs) = bs_boxes h1 (done @ xs)"
      using rep_keeps [OF r(2)] by blast+
    have "bs_boxes h1 (done @ xs) = bs_boxes h (done @ xs)"
      using Cons.prems(1) seg_cell [of h None "done @ x # xs" None]
      by (intro bs_boxes_relink [OF r(3)]) (auto simp: rep_def)
    then have b: "bs_boxes ?h done = bs_boxes h done" "bs_boxes ?h xs = bs_boxes h xs"
      using r2(2) by (auto simp: append_eq_append_conv)
    have "\<forall>b\<in>set (bs_boxes ?h xs). ?mk b \<longleftrightarrow> b \<in> seen"
      using Cons.prems(3) True b bx by auto
    then have "\<exists>h' bs' mk' zs. dups_loop k (first xs None) ?h bs1 ?mk = Some (h', bs', mk') \<and>
        rep h' bs' (done @ zs) \<and> bs_boxes h' (done @ zs) = bs_boxes h done @ keep_first seen (bs_boxes h xs)"
      using Cons.IH [OF r2(1) k(2), of ?mk seen] unfolding b by blast
    then obtain h' bs' mk' zs where
      "dups_loop k (first xs None) ?h bs1 ?mk = Some (h', bs', mk')" "rep h' bs' (done @ zs)"
      "bs_boxes h' (done @ zs) = bs_boxes h done @ keep_first seen (bs_boxes h xs)" by (elim exE conjE)
    then show ?thesis using k n mk True r(1) bx by auto
  next
    case False
    have "\<forall>b\<in>set (bs_boxes h xs). ?mk b \<longleftrightarrow> b \<in> insert (m_box n) seen"
      using Cons.prems(3) bx by auto
    moreover have "rep h bs ((done @ [x]) @ xs)" using Cons.prems(1) by simp
    ultimately obtain h' bs' mk' zs where
      "dups_loop k (first xs None) h bs ?mk = Some (h', bs', mk')" "rep h' bs' ((done @ [x]) @ zs)"
      "bs_boxes h' ((done @ [x]) @ zs) = bs_boxes h (done @ [x]) @ keep_first (insert (m_box n) seen) (bs_boxes h xs)"
      using Cons.IH [of h bs "done @ [x]" k ?mk "insert (m_box n) seen"] k(2) by blast
    then show ?thesis using k n mk False bx
      by (intro exI [of _ h'] exI [of _ bs'] exI [of _ mk'] exI [of _ "x # zs"]) (auto simp: bs_boxes_def)
  qed
qed

lemma removeDups_rep:
  assumes "rep h bs xs"
  obtains h' bs' mk' zs where "removeDups h bs mk = Some (h', bs', mk')" "rep h' bs' zs"
    "bs_boxes h' zs = keep_first {} (bs_boxes h xs)"
proof -
  have sg: "seg h None xs None" "m_head bs = first xs None" using assms by (auto simp: rep_def)
  have len: "length xs \<le> next_addr h + 1" using rep_bound [OF assms] by simp
  obtain mk1 where mk1: "clear_marks (next_addr h + 1) (m_head bs) h mk = Some mk1"
    "\<forall>b. mk1 b = (mk b \<and> b \<notin> set (bs_boxes h xs))"
    using clear_marks_seg [OF sg(1) len, of mk] sg(2) by auto
  obtain h' bs' mk' zs where "dups_loop (next_addr h + 1) (first xs None) h bs mk1 = Some (h', bs', mk')"
    "rep h' bs' ([] @ zs)" "bs_boxes h' ([] @ zs) = bs_boxes h [] @ keep_first {} (bs_boxes h xs)"
    using dups_loop_rep [of h bs "[]" xs "next_addr h + 1" mk1 "{}"] assms len mk1(2) by auto
  then show ?thesis using that mk1(1) sg(2) by (simp add: removeDups_def)
qed

section \<open>The interface the grid relies on\<close>

text \<open>
  A sequence of boxes with the four operations the grid calls. \<open>seq\<close> reads the boxes in order;
  the laws are what the comments of \<open>BoxSet\<close> promise.
\<close>

locale box_sequence =
  fixes inv :: "'s \<Rightarrow> bool"
    and seq :: "'s \<Rightarrow> nat list"
    and empty_set :: "'s \<Rightarrow> 's"
    and add_last :: "nat \<Rightarrow> 's \<Rightarrow> 's option"
    and drop_dups :: "'s \<Rightarrow> 's option"
  assumes empty_law: "inv s \<Longrightarrow> inv (empty_set s) \<and> seq (empty_set s) = []"
    and add_last_law: "inv s \<Longrightarrow> \<exists>s'. add_last b s = Some s' \<and> inv s' \<and> seq s' = seq s @ [b]"
    and drop_dups_law: "inv s \<Longrightarrow> \<exists>s'. drop_dups s = Some s' \<and> inv s' \<and>
      seq s' = keep_first {} (seq s)"
begin

text \<open>Adding boxes in a loop, all of them or those that pass a test.\<close>

lemma add_all: "inv s \<Longrightarrow> \<exists>s'. foldM (\<lambda>s b. add_last b s) s bs = Some s' \<and> inv s' \<and> seq s' = seq s @ bs"
proof (induction bs arbitrary: s)
  case (Cons b bs)
  from add_last_law [OF Cons.prems] obtain s1 where
    s1: "add_last b s = Some s1" "inv s1" "seq s1 = seq s @ [b]" by blast
  from Cons.IH [OF s1(2)] obtain s' where
    "foldM (\<lambda>s b. add_last b s) s1 bs = Some s'" "inv s'" "seq s' = seq s1 @ bs" by blast
  with s1 show ?case by simp
qed simp

lemma add_filtered: "inv s \<Longrightarrow>
   \<exists>s'. foldM (\<lambda>s b. if P b then add_last b s else Some s) s bs = Some s' \<and> inv s' \<and>
     seq s' = seq s @ [b \<leftarrow> bs. P b]"
proof (induction bs arbitrary: s)
  case (Cons b bs)
  obtain s1 where s1: "(if P b then add_last b s else Some s) = Some s1" "inv s1"
    "seq s1 = seq s @ (if P b then [b] else [])"
    using add_last_law [OF Cons.prems, of b] Cons.prems by (cases "P b") auto
  from Cons.IH [OF s1(2)] obtain s' where
    "foldM (\<lambda>s b. if P b then add_last b s else Some s) s1 bs = Some s'" "inv s'"
    "seq s' = seq s1 @ [b \<leftarrow> bs. P b]" by blast
  with s1 show ?case by simp
qed simp

text \<open>Collecting and then removing duplicates gives a list without repetition, same boxes.\<close>

lemma collect_distinct: "inv s \<Longrightarrow>
   \<exists>s'. foldM (\<lambda>s b. if P b then add_last b s else Some s) (empty_set s) bs \<bind> drop_dups = Some s' \<and>
     inv s' \<and> distinct (seq s') \<and> set (seq s') = {b \<in> set bs. P b} \<and> seq s' = keep_first {} [b \<leftarrow> bs. P b]"
proof -
  assume "inv s"
  then have "inv (empty_set s)" "seq (empty_set s) = []" using empty_law by blast+
  with add_filtered [of "empty_set s" P bs] obtain s1 where
    "foldM (\<lambda>s b. if P b then add_last b s else Some s) (empty_set s) bs = Some s1" "inv s1"
    "seq s1 = [b \<leftarrow> bs. P b]" by auto
  with drop_dups_law [of s1] show ?thesis by auto
qed

end

text \<open>
  The code's lists satisfy the contract. A state is a heap and a set on it; \<open>seq\<close> follows the
  \<open>m_next\<close> pointers from the head. The temporary set of \<open>getBS\<close> is a new \<open>BoxSet\<close>.
\<close>

fun nodes_from :: "nat \<Rightarrow> nat option \<Rightarrow> node_heap \<Rightarrow> nat list" where
  "nodes_from fuel None h = []"
| "nodes_from 0 (Some p) h = []"
| "nodes_from (Suc fuel) (Some p) h =
     (case cells h p of None \<Rightarrow> [] | Some n \<Rightarrow> p # nodes_from fuel (m_next n) h)"

lemma nodes_from_seg: "seg h p xs None \<Longrightarrow> length xs \<le> fuel \<Longrightarrow> nodes_from fuel (first xs None) h = xs"
proof (induction xs arbitrary: p fuel)
  case (Cons x xs)
  then obtain k where "fuel = Suc k" by (cases fuel) auto
  with Cons show ?case by auto
qed simp

type_synonym list_state = "node_heap \<times> boxset"

definition ls_inv :: "list_state \<Rightarrow> bool" where
  "ls_inv s \<longleftrightarrow> (\<exists>xs. rep (fst s) (snd s) xs)"

definition ls_seq :: "list_state \<Rightarrow> nat list" where
  "ls_seq s = bs_boxes (fst s) (nodes_from (next_addr (fst s)) (m_head (snd s)) (fst s))"

lemma ls_seq_rep: "rep h bs xs \<Longrightarrow> ls_seq (h, bs) = bs_boxes h xs"
  using rep_bound [of h bs xs] nodes_from_seg [of h None xs "next_addr h"]
  by (simp add: ls_seq_def rep_def)

definition ls_add :: "list_end \<Rightarrow> nat \<Rightarrow> list_state \<Rightarrow> list_state option" where
  "ls_add e b s = addBox b e (fst s) (snd s)"

definition ls_drop_dups :: "list_state \<Rightarrow> list_state option" where
  "ls_drop_dups s = removeDups (fst s) (snd s) (\<lambda>_. False) \<bind> (\<lambda>(h, bs, mk). Some (h, bs))"

interpretation ls: box_sequence ls_inv ls_seq "\<lambda>s. (fst s, BoxSet_new)" "ls_add LAST" ls_drop_dups
proof (unfold_locales, goal_cases)
  case (1 s)
  then have "rep (fst s) BoxSet_new []" unfolding ls_inv_def using rep_new heap_ok_rep by blast
  then show ?case using ls_seq_rep [of "fst s" BoxSet_new "[]"] by (auto simp: ls_inv_def)
next
  case (2 s b)
  then obtain xs where xs: "rep (fst s) (snd s) xs" by (auto simp: ls_inv_def)
  obtain h' bs' p where r: "addBox b LAST (fst s) (snd s) = Some (h', bs')" "rep h' bs' (xs @ [p])"
    "bs_boxes h' (xs @ [p]) = bs_boxes (fst s) xs @ [b]"
    by (rule addBox_rep [OF xs, of b LAST]) simp
  then show ?case using ls_seq_rep [OF xs] ls_seq_rep [OF r(2)] by (auto simp: ls_add_def ls_inv_def)
next
  case (3 s)
  then obtain xs where xs: "rep (fst s) (snd s) xs" by (auto simp: ls_inv_def)
  obtain h' bs' mk' zs where r: "removeDups (fst s) (snd s) (\<lambda>_. False) = Some (h', bs', mk')"
    "rep h' bs' zs" "bs_boxes h' zs = keep_first {} (bs_boxes (fst s) xs)"
    by (rule removeDups_rep [OF xs])
  then show ?case using ls_seq_rep [OF xs] ls_seq_rep [OF r(2)] by (auto simp: ls_drop_dups_def ls_inv_def)
qed

section \<open>Properties\<close>

definition ex_list :: "(node_heap \<times> boxset) option" where
  "ex_list = addBox 7 LAST \<lparr>cells = (\<lambda>_. None), next_addr = 0\<rparr> BoxSet_new \<bind> (\<lambda>(h, bs).
     addBox 5 LAST h bs \<bind> (\<lambda>(h, bs). addBox 7 FIRST h bs))"

definition ex_heap :: node_heap where "ex_heap = fst (the ex_list)"
definition ex_set :: boxset where "ex_set = snd (the ex_list)"

lemma ex_list_rep: "rep ex_heap ex_set [2, 0, 1]" "bs_boxes ex_heap [2, 0, 1] = [7, 7, 5]"
  by (auto simp: ex_heap_def ex_set_def ex_list_def addBox_def new_node_def addBSN_def BoxSet_new_def
      set_prev_def set_next_def rep_def first_def lastp_def heap_ok_def bs_boxes_def)

text \<open>The doubly linked list behaves as a sequence: on a well linked list \<open>addBox\<close> adds a node
  for the box at the chosen end, \<open>remBSN\<close> unlinks the node it is given and nothing else, and
  \<open>makeEmptyAndDeleteBoxes\<close> deletes every box once; none of them follows a bad pointer.\<close>

theorem list_operations:
  assumes "rep h bs (xs @ x # ys)"
  shows "(\<exists>h' bs' p. addBox b e h bs = Some (h', bs') \<and>
      rep h' bs' (if e = FIRST then p # xs @ x # ys else xs @ x # ys @ [p]) \<and>
      bs_boxes h' (if e = FIRST then p # xs @ x # ys else xs @ x # ys @ [p]) =
        (if e = FIRST then b # bs_boxes h (xs @ x # ys) else bs_boxes h (xs @ x # ys) @ [b])) \<and>
    (\<exists>h' bs'. remBSN x h bs = Some (h', bs') \<and> rep h' bs' (xs @ ys) \<and>
      bs_boxes h' (xs @ ys) = bs_boxes h (xs @ ys)) \<and>
    (\<exists>h' bs'. makeEmptyAndDeleteBoxes h bs = Some (h', bs', bs_boxes h (xs @ x # ys)) \<and> rep h' bs' [])"
proof (intro conjI)
  obtain h' bs' p where "addBox b e h bs = Some (h', bs')" "p = next_addr h"
    "rep h' bs' (if e = FIRST then p # (xs @ x # ys) else (xs @ x # ys) @ [p])"
    "bs_boxes h' (if e = FIRST then p # (xs @ x # ys) else (xs @ x # ys) @ [p]) =
      (if e = FIRST then b # bs_boxes h (xs @ x # ys) else bs_boxes h (xs @ x # ys) @ [b])"
    by (rule addBox_rep [OF assms, where b = b and e = e])
  then show "\<exists>h' bs' p. addBox b e h bs = Some (h', bs') \<and>
      rep h' bs' (if e = FIRST then p # xs @ x # ys else xs @ x # ys @ [p]) \<and>
      bs_boxes h' (if e = FIRST then p # xs @ x # ys else xs @ x # ys @ [p]) =
        (if e = FIRST then b # bs_boxes h (xs @ x # ys) else bs_boxes h (xs @ x # ys) @ [b])"
    by (intro exI [of _ h'] exI [of _ bs'] exI [of _ p]) (cases e; simp)
next
  obtain h' bs' where r: "remBSN x h bs = Some (h', bs')" "rep h' bs' (xs @ ys)" "relink h h' (set (xs @ x # ys))"
    by (rule remBSN_rep [OF assms])
  have "bs_boxes h' (xs @ ys) = bs_boxes h (xs @ ys)"
    using assms seg_cell [of h None "xs @ x # ys" None]
    by (intro bs_boxes_relink [OF r(3)]) (auto simp: rep_def)
  with r(1,2) show "\<exists>h' bs'. remBSN x h bs = Some (h', bs') \<and> rep h' bs' (xs @ ys) \<and>
      bs_boxes h' (xs @ ys) = bs_boxes h (xs @ ys)" by blast
next
  obtain h' bs' where "makeEmptyAndDeleteBoxes h bs = Some (h', bs', bs_boxes h (xs @ x # ys))" "rep h' bs' []"
    by (rule makeEmptyAndDeleteBoxes_rep [OF assms])
  then show "\<exists>h' bs'. makeEmptyAndDeleteBoxes h bs = Some (h', bs', bs_boxes h (xs @ x # ys)) \<and> rep h' bs' []"
    by blast
qed

theorem list_operations_witness:
  "(\<exists>h' bs' p. addBox 9 LAST ex_heap ex_set = Some (h', bs') \<and>
      rep h' bs' (if LAST = FIRST then p # [2] @ 0 # [1] else [2] @ 0 # [1] @ [p]) \<and>
      bs_boxes h' (if LAST = FIRST then p # [2] @ 0 # [1] else [2] @ 0 # [1] @ [p]) =
        (if LAST = FIRST then 9 # bs_boxes ex_heap ([2] @ 0 # [1]) else bs_boxes ex_heap ([2] @ 0 # [1]) @ [9])) \<and>
    (\<exists>h' bs'. remBSN 0 ex_heap ex_set = Some (h', bs') \<and> rep h' bs' ([2] @ [1]) \<and>
      bs_boxes h' ([2] @ [1]) = bs_boxes ex_heap ([2] @ [1])) \<and>
    (\<exists>h' bs'. makeEmptyAndDeleteBoxes ex_heap ex_set = Some (h', bs', bs_boxes ex_heap ([2] @ 0 # [1])) \<and>
      rep h' bs' [])"
  by (rule list_operations) (use ex_list_rep(1) in simp)

text \<open>\<open>removeDups\<close> ends, follows no bad pointer, and leaves the first node of every box, in
  the order they had: no box twice and none lost, whatever the marks were before.\<close>

theorem removeDups_distinct:
  assumes "rep h bs xs"
  shows "\<exists>h' bs' mk' zs. removeDups h bs mk = Some (h', bs', mk') \<and> rep h' bs' zs \<and>
    bs_boxes h' zs = keep_first {} (bs_boxes h xs) \<and> distinct (bs_boxes h' zs) \<and>
    set (bs_boxes h' zs) = set (bs_boxes h xs)"
proof -
  obtain h' bs' mk' zs where "removeDups h bs mk = Some (h', bs', mk')" "rep h' bs' zs"
    "bs_boxes h' zs = keep_first {} (bs_boxes h xs)" by (rule removeDups_rep [OF assms])
  then show ?thesis by auto
qed

theorem removeDups_distinct_witness:
  "\<exists>h' bs' mk' zs. removeDups ex_heap ex_set (\<lambda>_. True) = Some (h', bs', mk') \<and> rep h' bs' zs \<and>
    bs_boxes h' zs = keep_first {} (bs_boxes ex_heap [2, 0, 1]) \<and> distinct (bs_boxes h' zs) \<and>
    set (bs_boxes h' zs) = set (bs_boxes ex_heap [2, 0, 1])"
  by (rule removeDups_distinct [OF ex_list_rep(1)])

text \<open>\<open>merge\<close> moves all nodes of one set behind those of another and leaves it empty, and
  \<open>mergeCopy\<close> adds new nodes for its boxes and leaves it as it was.\<close>

theorem merging:
  assumes "rep h this xs" "rep h bs ys" "set xs \<inter> set ys = {}"
  shows "(\<exists>h' this' bs'. merge h this bs = Some (h', this', bs') \<and> rep h' this' (xs @ ys) \<and> rep h' bs' [] \<and>
      bs_boxes h' (xs @ ys) = bs_boxes h xs @ bs_boxes h ys) \<and>
    (\<exists>h' this' zs. mergeCopy h this bs = Some (h', this') \<and> rep h' this' (xs @ zs) \<and>
      bs_boxes h' (xs @ zs) = bs_boxes h xs @ bs_boxes h ys \<and> rep h' bs ys \<and> bs_boxes h' ys = bs_boxes h ys)"
proof -
  obtain h' this' bs' where "merge h this bs = Some (h', this', bs')" "rep h' this' (xs @ ys)"
    "rep h' bs' []" "bs_boxes h' (xs @ ys) = bs_boxes h xs @ bs_boxes h ys" by (rule merge_rep [OF assms])
  with mergeCopy_rep [OF assms] show ?thesis by blast
qed

theorem merging_witness:
  "(\<exists>h' this' bs'. merge ex_heap BoxSet_new ex_set = Some (h', this', bs') \<and> rep h' this' ([] @ [2, 0, 1]) \<and>
      rep h' bs' [] \<and> bs_boxes h' ([] @ [2, 0, 1]) = bs_boxes ex_heap [] @ bs_boxes ex_heap [2, 0, 1]) \<and>
    (\<exists>h' this' zs. mergeCopy ex_heap BoxSet_new ex_set = Some (h', this') \<and> rep h' this' ([] @ zs) \<and>
      bs_boxes h' ([] @ zs) = bs_boxes ex_heap [] @ bs_boxes ex_heap [2, 0, 1] \<and> rep h' ex_set [2, 0, 1] \<and>
      bs_boxes h' [2, 0, 1] = bs_boxes ex_heap [2, 0, 1])"
  by (rule merging) (use ex_list_rep(1) in \<open>auto simp: rep_def BoxSet_new_def\<close>)

end
