(* ===== verification/IvP_Grid.thy ===== *)
theory IvP_Grid
  imports IvP_Box IvP_Domain Box_Set
begin

text \<open>
  The grid index over the boxes of a piecewise function: \<open>IvPGrid.h\<close> and \<open>IvPGrid.cpp\<close> of
  \<open>src/ivp/src/lib_ivpcore\<close>. The domain is cut into rectangular cells; each cell keeps the set
  of boxes that reach into it and an upper bound on their values. A query box visits the cells
  it reaches into.

  A box pointer is a number and \<open>box_store\<close> gives the box it points to; the boxes belong to the
  piecewise function, the grid holds pointers. The set of a cell is the list of its pointers in
  order: \<open>Box_Set\<close> shows that the linked lists of the code behave as these lists, and the
  section on the collecting loop below applies it. The scratch arrays \<open>IX_BOX\<close> and
  \<open>IX_BOX_BOUND\<close>, which every operation sets with \<open>setIXBOX\<close> before it reads them, are values
  passed from one function to the next. \<open>grid\<close> is \<open>None\<close> for the null pointer it is when no
  boxes are kept; to follow it is \<open>None\<close> again.
\<close>

section \<open>The grid and its construction\<close>

type_synonym box_ptr = nat
type_synonym box_store = "box_ptr \<Rightarrow> ivpbox"

record ivpgrid =
  g_dim :: nat
  gridUB :: "real list"
  gridUBFresh :: "bool list"
  g_grid :: "box_ptr list list option"
  GELS_PER_DIM :: "int list"
  PTS_PER_GEL :: "int list"
  DIM_WT :: "int list"
  DOMAIN_LOW :: "int list"
  DOMAIN_HIGH :: "int list"
  DOMAIN_SIZE :: "int list"
  boxFlag :: bool
  total_grids :: int
  dup_flag :: bool
  g_maxpt :: ivpbox
  g_maxval :: real
  g_empty :: bool

text \<open>Arrays that the constructor leaves unwritten are filled with zeros here.\<close>

definition IvPGrid_new :: "ivpdomain \<Rightarrow> bool \<Rightarrow> ivpgrid" where
  "IvPGrid_new gdomain gboxFlag =
     (let dim = dom_size gdomain;
          low = map (\<lambda>i. 0) [0..<dim];
          high = map (\<lambda>i. int (getVarPoints_i gdomain i) - 1) [0..<dim]
      in \<lparr>g_dim = dim, gridUB = [], gridUBFresh = [], g_grid = None,
          GELS_PER_DIM = replicate dim 0, PTS_PER_GEL = replicate dim 0, DIM_WT = replicate dim 0,
          DOMAIN_LOW = low, DOMAIN_HIGH = high,
          DOMAIN_SIZE = map (\<lambda>i. 1 + high ! i - low ! i) [0..<dim],
          boxFlag = gboxFlag, total_grids = 1, dup_flag = False,
          g_maxpt = box_assign (IvPBox_new 0 1) (IvPBox_new (int dim) 1),
          g_maxval = 0, g_empty = True\<rparr>)"

text \<open>
  The number of points per cell is at least two and at most the points of the domain; a
  domain without points makes the division fail. The weights of the dimensions turn a cell's
  coordinates into its index.
\<close>

definition clip_pts :: "int \<Rightarrow> int \<Rightarrow> int" where
  "clip_pts sz p = (let p1 = (if p < 2 then 2 else p) in if p1 > sz then sz else p1)"

definition gels_of :: "int \<Rightarrow> int \<Rightarrow> int" where
  "gels_of sz p = sz sdiv p + (if sz smod p \<noteq> 0 then 1 else 0)"

definition initialize :: "ivpbox \<Rightarrow> ivpgrid \<Rightarrow> ivpgrid option" where
  "initialize gelbox g =
     (if m_dim gelbox \<noteq> g_dim g then None
      else let dims = [0..<g_dim g];
               ppg = map (\<lambda>i. clip_pts (DOMAIN_SIZE g ! i) (pt gelbox i 1 + 1)) dims
           in if \<not> list_all (\<lambda>p. p \<noteq> 0) ppg then None
              else let gels = map (\<lambda>i. gels_of (DOMAIN_SIZE g ! i) (ppg ! i)) dims;
                       tg = foldl (\<lambda>t i. t * gels ! i) (total_grids g) dims;
                       wts = foldl (\<lambda>ws d. ws[d := ws ! (d - 1) * gels ! (d - 1)])
                               ((DIM_WT g)[0 := 1]) [1..<g_dim g]
                   in Some (g\<lparr>PTS_PER_GEL := ppg, GELS_PER_DIM := gels, total_grids := tg,
                       DIM_WT := wts,
                       g_grid := (if boxFlag g then Some (replicate (nat tg) []) else g_grid g),
                       gridUB := replicate (nat tg) 0,
                       gridUBFresh := replicate (nat tg) True\<rparr>))"

section \<open>Visiting the cells of a box\<close>

definition setIXBOX :: "ivpgrid \<Rightarrow> ivpbox \<Rightarrow> (int \<times> int) list" where
  "setIXBOX g b =
     map (\<lambda>d. let low = (if bd b d 0 then max 0 (pt b d 0 - DOMAIN_LOW g ! d)
                         else max 0 (1 + pt b d 0 - DOMAIN_LOW g ! d));
                  high = min (DOMAIN_HIGH g ! d - DOMAIN_LOW g ! d) (pt b d 1 - DOMAIN_LOW g ! d)
              in (low sdiv PTS_PER_GEL g ! d, high sdiv PTS_PER_GEL g ! d)) [0..<g_dim g]"

text \<open>
  One step from the coordinates \<open>ix\<close> to the next: the loop runs from the last dimension down
  and stops at the first one it can lower, after putting those behind it back to the top.
\<close>

fun next_loop :: "nat \<Rightarrow> (int \<times> int) list \<Rightarrow> int list \<Rightarrow> int list \<times> bool" where
  "next_loop 0 bnd ix = (ix, False)"
| "next_loop (Suc d) bnd ix =
     (if ix ! d > fst (bnd ! d) then (ix[d := ix ! d - 1], True)
      else next_loop d bnd (if d \<noteq> 0 then ix[d := snd (bnd ! d)] else ix))"

definition moveToNextGrid :: "(int \<times> int) list \<Rightarrow> int list \<Rightarrow> int list \<times> bool" where
  "moveToNextGrid bnd ix = next_loop (length bnd) bnd ix"

text \<open>The steps go down in the lexicographic order of the distances to the lower bounds.\<close>

definition gaps :: "(int \<times> int) list \<Rightarrow> int list \<Rightarrow> nat list" where
  "gaps bnd ix = map (\<lambda>d. nat (ix ! d - fst (bnd ! d))) [0..<length bnd]"

lemma next_loop_length: "length (fst (next_loop d bnd ix)) = length ix"
  by (induction d bnd ix rule: next_loop.induct) auto

lemma next_loop_gaps:
  "snd (next_loop d bnd ix) \<Longrightarrow> d \<le> length bnd \<Longrightarrow> length ix = length bnd \<Longrightarrow>
   \<exists>e<d. fst (next_loop d bnd ix) ! e = ix ! e - 1 \<and> fst (bnd ! e) < ix ! e \<and>
     (\<forall>c<e. fst (next_loop d bnd ix) ! c = ix ! c)"
proof (induction d bnd ix rule: next_loop.induct)
  case (2 d bnd ix)
  show ?case
  proof (cases "ix ! d > fst (bnd ! d)")
    case False
    define jx where "jx = (if d \<noteq> 0 then ix[d := snd (bnd ! d)] else ix)"
    have eq: "next_loop (Suc d) bnd ix = next_loop d bnd jx" using False by (simp add: jx_def)
    have "length jx = length bnd" using "2.prems"(3) by (simp add: jx_def)
    then obtain e where e: "e < d" "fst (next_loop d bnd jx) ! e = jx ! e - 1"
      "fst (bnd ! e) < jx ! e" "\<forall>c<e. fst (next_loop d bnd jx) ! c = jx ! c"
      using "2.IH" [OF False] "2.prems"(1,2) unfolding eq jx_def [symmetric] by (auto simp: Suc_le_eq)
    moreover have "c \<le> e \<Longrightarrow> jx ! c = ix ! c" for c using e(1) by (simp add: jx_def)
    ultimately show ?thesis unfolding eq by (intro exI [of _ e]) auto
  qed (use "2.prems" in auto)
qed simp

lemma next_gaps_lex:
  assumes "snd (moveToNextGrid bnd ix)" "length ix = length bnd"
  shows "(gaps bnd (fst (moveToNextGrid bnd ix)), gaps bnd ix) \<in> lenlex less_than"
proof -
  from next_loop_gaps [of "length bnd" bnd ix] assms obtain e where
    e: "e < length bnd" "fst (moveToNextGrid bnd ix) ! e = ix ! e - 1" "fst (bnd ! e) < ix ! e"
    "\<forall>c<e. fst (moveToNextGrid bnd ix) ! c = ix ! c" by (auto simp: moveToNextGrid_def)
  have "gaps bnd (fst (moveToNextGrid bnd ix)) ! e < gaps bnd ix ! e"
    using e by (simp add: gaps_def)
  moreover have "take e (gaps bnd (fst (moveToNextGrid bnd ix))) = take e (gaps bnd ix)"
    using e by (intro nth_equalityI) (auto simp: gaps_def)
  ultimately show ?thesis using e(1)
    by (auto simp: lenlex_conv lexord_lex lexord_take_index_conv gaps_def intro!: exI [of _ e])
qed

text \<open>
  The values \<open>IX_BOX\<close> takes in a loop \<open>while(moreGrids) \<dots> moreGrids = moveToNextGrid()\<close>. Lists
  of the wrong length do not occur; they end the loop.
\<close>

function grid_walk :: "(int \<times> int) list \<Rightarrow> int list \<Rightarrow> int list list" where
  "grid_walk bnd ix =
     (if length ix \<noteq> length bnd then [ix]
      else ix # (case moveToNextGrid bnd ix of
                   (ix', moreGrids) \<Rightarrow> if moreGrids then grid_walk bnd ix' else []))"
  by pat_completeness auto

termination
  apply (relation "inv_image (lenlex less_than) (\<lambda>(bnd, ix). gaps bnd ix)")
  subgoal by (intro wf_inv_image wf_lenlex wf_less_than)
  subgoal for bnd ix using next_gaps_lex [of bnd ix] by (metis case_prod_conv fst_conv in_inv_image snd_conv)
  done

declare grid_walk.simps [simp del]

definition ix_of :: "ivpgrid \<Rightarrow> int list \<Rightarrow> int" where
  "ix_of g ix = foldl (\<lambda>k d. k + ix ! d * DIM_WT g ! d) 0 (rev [0..<g_dim g])"

definition cells_of :: "ivpgrid \<Rightarrow> ivpbox \<Rightarrow> nat list" where
  "cells_of g b =
     map (\<lambda>ix. nat (ix_of g ix)) (grid_walk (setIXBOX g b) (map snd (setIXBOX g b)))"

section \<open>The operations\<close>

text \<open>The body of the loop of \<open>addBox\<close> for the cell with index \<open>ix\<close>.\<close>

definition add_cell :: "box_ptr \<Rightarrow> real \<Rightarrow> bool \<Rightarrow> bool \<Rightarrow> ivpgrid \<Rightarrow> nat \<Rightarrow> ivpgrid option" where
  "add_cell p b_maxval BX UB g ix =
     (if BX then (case g_grid g of None \<Rightarrow> None
                  | Some gr \<Rightarrow> Some (g\<lparr>g_grid := Some (gr[ix := gr ! ix @ [p]]), g_empty := False\<rparr>))
      else Some g) \<bind>
     (\<lambda>g1. Some (if UB
        then g1\<lparr>gridUB := (gridUB g1)[ix := (if gridUBFresh g1 ! ix then b_maxval
                                            else max (gridUB g1 ! ix) b_maxval)],
                gridUBFresh := (gridUBFresh g1)[ix := False]\<rparr>
        else g1))"

definition grid_addBox :: "box_store \<Rightarrow> box_ptr \<Rightarrow> bool \<Rightarrow> bool \<Rightarrow> ivpgrid \<Rightarrow> ivpgrid option" where
  "grid_addBox st p BX UB g =
     (let b = st p; b_maxval = maxVal b;
          g1 = (if g_empty g \<or> b_maxval > g_maxval g
                then g\<lparr>g_maxpt := maxPt_into b (g_maxpt g), g_maxval := b_maxval\<rparr> else g);
          cells = cells_of g b
      in foldM (add_cell p b_maxval BX UB) g1 cells \<bind>
         (\<lambda>g2. Some (if length cells > 1 then g2\<lparr>dup_flag := True\<rparr> else g2)))"

text \<open>\<open>remBox\<close> compares pointers, and removes every node that carries the box.\<close>

definition remBox :: "box_store \<Rightarrow> box_ptr \<Rightarrow> ivpgrid \<Rightarrow> ivpgrid option" where
  "remBox st p g =
     foldM (\<lambda>g ix. case g_grid g of None \<Rightarrow> None
              | Some gr \<Rightarrow> Some (g\<lparr>g_grid := Some (gr[ix := [r \<leftarrow> gr ! ix. r \<noteq> p]])\<rparr>))
       g (cells_of g (st p))"

definition grid_getBS :: "box_store \<Rightarrow> ivpgrid \<Rightarrow> ivpbox \<Rightarrow> bool \<Rightarrow> box_ptr list option" where
  "grid_getBS st g b int_check =
     (case g_grid g of None \<Rightarrow> None
      | Some gr \<Rightarrow>
         let retBS = foldl (\<lambda>s ix. if int_check
                 then foldl (\<lambda>s p. if box_intersect b (st p) then s @ [p] else s) s (gr ! ix)
                 else s @ gr ! ix) [] (cells_of g b)
         in Some (if dup_flag g then keep_first {} retBS else retBS))"

definition getBS_Thresh :: "box_store \<Rightarrow> ivpgrid \<Rightarrow> ivpbox \<Rightarrow> real \<Rightarrow> box_ptr list option" where
  "getBS_Thresh st g qbox thresh =
     (case g_grid g of None \<Rightarrow> None
      | Some gr \<Rightarrow>
         let retBS = foldl (\<lambda>s ix.
                 foldl (\<lambda>s p. if maxVal (st p) < thresh \<and> box_intersect qbox (st p) then s @ [p]
                              else s) s (gr ! ix)) [] (cells_of g qbox)
         in Some (if dup_flag g then keep_first {} retBS else retBS))"

text \<open>
  The bound over the cells of a box. The first cell overrides the initial value even when that
  is larger; a fresh first cell leaves the initial value in place.
\<close>

definition bound_step :: "ivpgrid \<Rightarrow> real \<times> bool \<Rightarrow> nat \<Rightarrow> real \<times> bool" where
  "bound_step g s ix =
     (case s of (result, firstGrid) \<Rightarrow>
        (if \<not> gridUBFresh g ! ix \<and> (firstGrid \<or> gridUB g ! ix > result)
         then gridUB g ! ix else result, False))"

definition getCheapBound :: "ivpgrid \<Rightarrow> ivpbox \<Rightarrow> real" where
  "getCheapBound g qbox = fst (foldl (bound_step g) (-99999, True) (cells_of g qbox))"

text \<open>
  The bound over the whole grid, for a null query: the loop starts at index 1 and does not
  clear \<open>firstGrid\<close>.
\<close>

definition getCheapBound_all :: "ivpgrid \<Rightarrow> real" where
  "getCheapBound_all g =
     foldl (\<lambda>result ix. if \<not> gridUBFresh g ! ix \<and> (True \<or> gridUB g ! ix > result)
                        then gridUB g ! ix else result) (-99999) [1..<nat (total_grids g)]"

definition scaleBounds :: "real \<Rightarrow> ivpgrid \<Rightarrow> ivpgrid" where
  "scaleBounds amount g =
     foldl (\<lambda>g ix. if \<not> gridUBFresh g ! ix
                   then g\<lparr>gridUB := (gridUB g)[ix := gridUB g ! ix * amount]\<rparr> else g)
       g [0..<nat (total_grids g)]"

definition moveBounds :: "real \<Rightarrow> ivpgrid \<Rightarrow> ivpgrid" where
  "moveBounds amount g =
     foldl (\<lambda>g ix. if \<not> gridUBFresh g ! ix
                   then g\<lparr>gridUB := (gridUB g)[ix := gridUB g ! ix + amount]\<rparr> else g)
       g [0..<nat (total_grids g)]"

definition calcBoxesPerGEL :: "ivpgrid \<Rightarrow> real option" where
  "calcBoxesPerGEL g =
     (case g_grid g of None \<Rightarrow> None
      | Some gr \<Rightarrow> Some (foldl (\<lambda>t i. t + of_nat (length (gr ! i))) 0 [0..<nat (total_grids g)]
                        / of_int (total_grids g)))"

definition grid_ok :: "box_store \<Rightarrow> ivpgrid \<Rightarrow> bool option" where
  "grid_ok st g =
     (case g_grid g of None \<Rightarrow> None
      | Some gr \<Rightarrow> Some (list_all (\<lambda>i. list_all (\<lambda>p. m_dim (st p) = g_dim g) (gr ! i))
                        [0..<nat (total_grids g)]))"

section \<open>The loop visits every combination of coordinates once\<close>

text \<open>
  The specification: in every dimension the coordinates run from the upper bound down to the
  lower one (the upper one only, when the bounds are crossed), the last dimension fastest.
\<close>

definition span :: "int \<times> int \<Rightarrow> int list" where
  "span b = (if fst b < snd b then rev [fst b..snd b] else [snd b])"

fun all_cells :: "(int \<times> int) list \<Rightarrow> int list list" where
  "all_cells [] = [[]]"
| "all_cells (b # bnd) = concat (map (\<lambda>j. map (Cons j) (all_cells bnd)) (span b))"

text \<open>The step by recursion from the front; and the code's loop with the first dimension reset too.\<close>

fun step_cell :: "(int \<times> int) list \<Rightarrow> int list \<Rightarrow> int list option" where
  "step_cell (b # bnd) (i # ix) =
     (case step_cell bnd ix of Some jx \<Rightarrow> Some (i # jx)
      | None \<Rightarrow> if i > fst b then Some ((i - 1) # map snd bnd) else None)"
| "step_cell bnd ix = None"

fun next_all :: "nat \<Rightarrow> (int \<times> int) list \<Rightarrow> int list \<Rightarrow> int list \<times> bool" where
  "next_all 0 bnd ix = (ix, False)"
| "next_all (Suc d) bnd ix =
     (if ix ! d > fst (bnd ! d) then (ix[d := ix ! d - 1], True)
      else next_all d bnd (ix[d := snd (bnd ! d)]))"

lemma next_loop_Cons: "next_loop (Suc d) (b # bnd) (i # ix) =
    (case next_all d bnd ix of (jx, moreGrids) \<Rightarrow>
       if moreGrids then (i # jx, True) else if i > fst b then ((i - 1) # jx, True) else (i # jx, False))"
  by (induction d arbitrary: ix) auto

lemma next_all_Cons: "next_all (Suc d) (b # bnd) (i # ix) =
    (case next_all d bnd ix of (jx, moreGrids) \<Rightarrow>
       if moreGrids then (i # jx, True) else if i > fst b then ((i - 1) # jx, True)
       else (snd b # jx, False))"
proof (induction d arbitrary: ix)
  case (Suc d)
  then show ?case by (simp del: next_all.simps(2) add: next_all.simps(2) [of "Suc d"]
        next_all.simps(2) [of d bnd])
qed simp

lemma next_all_step: "length ix = length bnd \<Longrightarrow>
    next_all (length bnd) bnd ix =
    (case step_cell bnd ix of Some jx \<Rightarrow> (jx, True) | None \<Rightarrow> (map snd bnd, False))"
proof (induction bnd ix rule: step_cell.induct)
  case (1 b bnd i ix)
  then have "next_all (length bnd) bnd ix =
    (case step_cell bnd ix of Some jx \<Rightarrow> (jx, True) | None \<Rightarrow> (map snd bnd, False))" by simp
  then show ?case by (auto simp: next_all_Cons simp del: next_all.simps split: option.splits)
qed auto

lemma moveToNextGrid_step:
  assumes "length ix = length bnd"
  shows "snd (moveToNextGrid bnd ix) \<longleftrightarrow> step_cell bnd ix \<noteq> None"
    "step_cell bnd ix = Some jx \<Longrightarrow> fst (moveToNextGrid bnd ix) = jx"
proof -
  have "snd (moveToNextGrid bnd ix) = (step_cell bnd ix \<noteq> None) \<and>
     (\<forall>jx. step_cell bnd ix = Some jx \<longrightarrow> fst (moveToNextGrid bnd ix) = jx)"
  proof (cases bnd)
    case (Cons b bs)
    with assms obtain i js where ix: "ix = i # js" "length js = length bs" by (cases ix) auto
    show ?thesis unfolding moveToNextGrid_def Cons ix(1) length_Cons next_loop_Cons
        next_all_step [OF ix(2)] by (auto split: option.splits)
  qed (use assms in \<open>simp add: moveToNextGrid_def\<close>)
  then show "snd (moveToNextGrid bnd ix) \<longleftrightarrow> step_cell bnd ix \<noteq> None"
    "step_cell bnd ix = Some jx \<Longrightarrow> fst (moveToNextGrid bnd ix) = jx" by auto
qed

lemma step_cell_length: "length ix = length bnd \<Longrightarrow> step_cell bnd ix = Some jx \<Longrightarrow> length jx = length bnd"
  by (induction bnd ix arbitrary: jx rule: step_cell.induct) (auto split: option.splits if_splits)

lemma grid_walk_step: "length ix = length bnd \<Longrightarrow>
    grid_walk bnd ix = ix # (case step_cell bnd ix of None \<Rightarrow> [] | Some jx \<Rightarrow> grid_walk bnd jx)"
  using moveToNextGrid_step [of ix bnd] grid_walk.simps [of bnd ix]
  by (auto split: option.splits prod.splits)

lemma grid_walk_Cons: "length ix = length bnd \<Longrightarrow>
    grid_walk (b # bnd) (i # ix) = map (Cons i) (grid_walk bnd ix) @
      (if i > fst b then grid_walk (b # bnd) ((i - 1) # map snd bnd) else [])"
proof (induction bnd ix rule: grid_walk.induct)
  case (1 bnd ix)
  show ?case
  proof (cases "step_cell bnd ix")
    case None
    with 1 show ?thesis
      by (simp add: grid_walk_step [of "i # ix" "b # bnd"] grid_walk_step [of ix bnd])
  next
    case (Some jx)
    then have "moveToNextGrid bnd ix = (jx, True)" "length jx = length bnd"
      using moveToNextGrid_step(1) [of ix bnd] moveToNextGrid_step(2) [of ix bnd jx] "1.prems" step_cell_length [of ix bnd jx]
      by (auto simp: prod_eq_iff)
    then have "grid_walk (b # bnd) (i # jx) = map (Cons i) (grid_walk bnd jx) @
      (if i > fst b then grid_walk (b # bnd) ((i - 1) # map snd bnd) else [])"
      using "1.IH" "1.prems" by simp
    with Some "1.prems" show ?thesis
      by (simp add: grid_walk_step [of "i # ix" "b # bnd"] grid_walk_step [of ix bnd])
  qed
qed

lemma rev_upto_step: "l < (i::int) \<Longrightarrow> rev [l..i] = i # rev [l..i - 1]"
  by (simp add: upto_rec2)

lemma span_step: "span (l, i) = i # (if l < i then span (l, i - 1) else [])"
  by (cases "l = i - 1") (auto simp: span_def rev_upto_step)

lemma grid_walk_head: "grid_walk bnd (map snd bnd) = all_cells bnd \<Longrightarrow>
    grid_walk (b # bnd) (i # map snd bnd) = concat (map (\<lambda>j. map (Cons j) (all_cells bnd)) (span (fst b, i)))"
proof (induction "nat (i - fst b)" arbitrary: i)
  case (Suc n)
  then have "fst b < i" "n = nat (i - 1 - fst b)" by auto
  with Suc show ?case by (simp add: grid_walk_Cons [of "map snd bnd" bnd] span_step [of "fst b" i])
next
  case 0
  then show ?case by (simp add: grid_walk_Cons [of "map snd bnd" bnd] span_step [of "fst b" i])
qed

theorem grid_walk_all: "grid_walk bnd (map snd bnd) = all_cells bnd"
proof (induction bnd)
  case Nil
  then show ?case by (simp add: grid_walk_step)
next
  case (Cons b bnd)
  then show ?case using grid_walk_head [of bnd b "snd b"] by simp
qed

lemma set_span: "i \<in> set (span b) \<longleftrightarrow> (fst b \<le> i \<or> i = snd b) \<and> i \<le> snd b"
  by (auto simp: span_def)

lemma set_all_cells: "ix \<in> set (all_cells bnd) \<longleftrightarrow> list_all2 (\<lambda>i b. i \<in> set (span b)) ix bnd"
  by (induction bnd arbitrary: ix) (auto simp: list_all2_Cons2)

lemma distinct_span: "distinct (span b)"
  by (simp add: span_def)

lemma distinct_all_cells: "distinct (all_cells bnd)"
proof (induction bnd)
  case (Cons b bnd)
  have "distinct (concat (map (\<lambda>j. map (Cons j) (all_cells bnd)) js))" if "distinct js" for js
    using that by (induction js) (auto simp: distinct_map Cons.IH)
  then show ?case using distinct_span [of b] by simp
qed simp

lemma all_cells_nonempty: "all_cells bnd \<noteq> []"
  by (induction bnd) (auto simp: span_def)

section \<open>Cell indices: a mixed radix number\<close>

fun radix :: "int list \<Rightarrow> int list \<Rightarrow> int" where
  "radix (k # ks) (i # ix) = i + k * radix ks ix"
| "radix ks ix = 0"

lemma radix_range: "list_all2 (\<lambda>i k. 0 \<le> i \<and> i < k) ix ks \<Longrightarrow> 0 \<le> radix ks ix \<and> radix ks ix < prod_list ks"
proof (induction ks ix rule: radix.induct)
  case (1 k ks i ix)
  then have b: "0 \<le> i" "i < k" "0 \<le> radix ks ix" "radix ks ix + 1 \<le> prod_list ks" by auto
  from b(1,2,4) have "k * (radix ks ix + 1) \<le> k * prod_list ks" by (intro mult_left_mono) auto
  with b show ?case by (simp add: algebra_simps)
qed auto

lemma radix_inj: "list_all2 (\<lambda>i k. 0 \<le> i \<and> i < k) ix ks \<Longrightarrow> list_all2 (\<lambda>i k. 0 \<le> i \<and> i < k) jx ks \<Longrightarrow>
    radix ks ix = radix ks jx \<Longrightarrow> ix = jx"
proof (induction ks ix arbitrary: jx rule: radix.induct)
  case (1 k ks i ix)
  then obtain j js where j: "jx = j # js" "0 \<le> j" "j < k" "0 \<le> i" "i < k"
    by (auto simp: list_all2_Cons2)
  with 1 have e: "i + k * radix ks ix = j + k * radix ks js" by simp
  then have "(i + k * radix ks ix) mod k = (j + k * radix ks js) mod k" by simp
  with j have "i = j" by simp
  with e j have "radix ks ix = radix ks js" by simp
  with 1 j \<open>i = j\<close> show ?case by simp
qed auto

lemma radix_sum: "length ix = length ks \<Longrightarrow>
    radix ks ix = (\<Sum>d<length ks. ix ! d * prod_list (take d ks))"
proof (induction ks ix rule: radix.induct)
  case (1 k ks i ix)
  then have "radix ks ix = (\<Sum>d<length ks. ix ! d * prod_list (take d ks))" by simp
  then show ?case by (simp add: sum.lessThan_Suc_shift sum_distrib_left algebra_simps del: sum.lessThan_Suc)
qed auto

lemma foldl_rev_sum: "foldl (\<lambda>k d. k + f d) (a::int) (rev [0..<n]) = a + (\<Sum>d<n. f d)"
  by (induction n arbitrary: a) auto

section \<open>Well-formed grids\<close>

definition wf_grid :: "ivpgrid \<Rightarrow> bool" where
  "wf_grid g \<longleftrightarrow>
     length (GELS_PER_DIM g) = g_dim g \<and>
     (\<forall>d<g_dim g. 0 < PTS_PER_GEL g ! d \<and> DOMAIN_LOW g ! d = 0 \<and> 0 \<le> DOMAIN_HIGH g ! d \<and>
        DOMAIN_HIGH g ! d div PTS_PER_GEL g ! d < GELS_PER_DIM g ! d \<and>
        DIM_WT g ! d = prod_list (take d (GELS_PER_DIM g))) \<and>
     total_grids g = prod_list (GELS_PER_DIM g) \<and>
     length (gridUB g) = nat (total_grids g) \<and> length (gridUBFresh g) = nat (total_grids g) \<and>
     (boxFlag g \<longrightarrow> (\<exists>gr. g_grid g = Some gr \<and> length gr = nat (total_grids g)))"

lemma gels_of_bound: "0 < p \<Longrightarrow> 1 \<le> sz \<Longrightarrow> (sz - 1) div p < gels_of sz p \<and> 0 < gels_of sz p"
proof -
  assume p: "0 < (p::int)" "1 \<le> sz"
  then have g: "gels_of sz p = sz div p + (if sz mod p \<noteq> 0 then 1 else 0)"
    by (auto simp: gels_of_def sdiv_nonneg signed_modulo_int_def minus_div_mult_eq_mod)
  have mono: "(sz - 1) div p \<le> sz div p" using p by (simp add: zdiv_mono1)
  have "(sz - 1) div p < gels_of sz p"
  proof (cases "sz mod p = 0")
    case True
    then have "sz = p * (sz div p)" by auto
    then have "sz - 1 < p * (sz div p)" by linarith
    moreover have "p * ((sz - 1) div p) \<le> sz - 1" using p pos_mod_sign [of p "sz - 1"]
      by (simp add: minus_mod_eq_mult_div [symmetric] del: pos_mod_sign)
    ultimately have "p * ((sz - 1) div p) < p * (sz div p)" by linarith
    then have "(sz - 1) div p < sz div p" using p by (simp add: mult_less_cancel_left_pos)
    with g True show ?thesis by simp
  qed (use g mono in simp)
  moreover have "0 \<le> (sz - 1) div p" using p by (simp add: pos_imp_zdiv_nonneg_iff)
  ultimately show ?thesis by linarith
qed

lemma clip_pts_pos: "1 \<le> sz \<Longrightarrow> 0 < clip_pts sz p \<and> clip_pts sz p \<le> sz"
  by (auto simp: clip_pts_def Let_def)

lemma dim_wts_loop: "j < n \<Longrightarrow> n \<le> length ws \<Longrightarrow> length gels = length ws \<Longrightarrow>
    foldl (\<lambda>ws d. ws[d := ws ! (d - 1) * gels ! (d - 1)]) (ws[0 := 1]) [1..<n] ! j =
    (prod_list (take j gels) :: int)"
proof (induction n arbitrary: j)
  case (Suc n)
  have L: "length (foldl (\<lambda>ws d. ws[d := ws ! (d - 1) * gels ! (d - 1)]) xs [1..<n]) = length xs"
    for xs :: "int list" by (rule length_foldl_keep) simp
  show ?case
  proof (cases "n = 0")
    case True
    with Suc.prems show ?thesis by (cases ws) auto
  next
    case False
    then have up: "[1..<Suc n] = [1..<n] @ [n]" by simp
    have "take n gels = take (n - 1) gels @ [gels ! (n - 1)]"
      using take_Suc_conv_app_nth [of "n - 1" gels] False Suc.prems by simp
    with Suc False show ?thesis unfolding up foldl_append by (auto simp: nth_list_update L [simplified] less_Suc_eq)
  qed
qed simp

lemma foldl_prod: "foldl (\<lambda>t i. t * xs ! i) (a::int) [0..<n] = a * prod_list (take n xs)" if "n \<le> length xs"
  using that by (induction n) (auto simp: take_Suc_conv_app_nth algebra_simps)

text \<open>A grid over a domain with points in every dimension is built for any gel box of its dimension.\<close>

lemma initialize_wf:
  assumes "m_dim gelbox = dom_size D" "\<forall>i<dom_size D. 1 \<le> getVarPoints_i D i"
  obtains g where "initialize gelbox (IvPGrid_new D flag) = Some g" "wf_grid g" "g_dim g = dom_size D"
    "boxFlag g = flag" "g_empty g" "\<not> dup_flag g"
    "\<forall>d<dom_size D. DOMAIN_HIGH g ! d = int (getVarPoints_i D d) - 1"
    "\<forall>ix<nat (total_grids g). gridUBFresh g ! ix"
    "g_grid g = (if flag then Some (replicate (nat (total_grids g)) []) else None)"
    "g_maxpt g = box_assign (IvPBox_new 0 1) (IvPBox_new (int (dom_size D)) 1)" "g_maxval g = 0"
proof -
  let ?n = "dom_size D" and ?g = "IvPGrid_new D flag"
  define ppg where "ppg = map (\<lambda>i. clip_pts (DOMAIN_SIZE ?g ! i) (pt gelbox i 1 + 1)) [0..<?n]"
  define gels where "gels = map (\<lambda>i. gels_of (DOMAIN_SIZE ?g ! i) (ppg ! i)) [0..<?n]"
  define wts where "wts = foldl (\<lambda>ws d. ws[d := ws ! (d - 1) * gels ! (d - 1)])
                               ((DIM_WT ?g)[0 := 1]) [1..<?n]"
  have f: "g_dim ?g = ?n" "DIM_WT ?g = replicate ?n 0" "total_grids ?g = 1" "boxFlag ?g = flag"
    "DOMAIN_LOW ?g = map (\<lambda>i. 0) [0..<?n]" "g_empty ?g" "\<not> dup_flag ?g" "g_grid ?g = None" "g_maxval ?g = 0"
    "g_maxpt ?g = box_assign (IvPBox_new 0 1) (IvPBox_new (int ?n) 1)"
    "DOMAIN_HIGH ?g = map (\<lambda>i. int (getVarPoints_i D i) - 1) [0..<?n]"
    "DOMAIN_SIZE ?g = map (\<lambda>i. int (getVarPoints_i D i)) [0..<?n]"
    by (auto simp: IvPGrid_new_def Let_def)
  have sz: "d < ?n \<Longrightarrow> 1 \<le> DOMAIN_SIZE ?g ! d" for d using assms(2) f by force
  have p: "d < ?n \<Longrightarrow> 0 < ppg ! d" for d using clip_pts_pos sz by (simp add: ppg_def)
  have gl: "length gels = ?n" "take ?n gels = gels" "length ppg = ?n" by (simp_all add: gels_def ppg_def)
  have tg: "foldl (\<lambda>t i. t * gels ! i) 1 [0..<?n] = prod_list gels" using foldl_prod [of ?n gels 1] gl by simp
  have w: "wts ! d = prod_list (take d gels)" if "d < ?n" for d
    using dim_wts_loop [of d ?n "DIM_WT ?g" gels] that f gl by (simp add: wts_def)
  have nz: "list_all (\<lambda>p. p \<noteq> 0) ppg"
    using p gl(3) by (fastforce simp: list_all_iff in_set_conv_nth)
  define g where "g = ?g\<lparr>PTS_PER_GEL := ppg, GELS_PER_DIM := gels, total_grids := prod_list gels,
                       DIM_WT := wts,
                       g_grid := (if flag then Some (replicate (nat (prod_list gels)) []) else None),
                       gridUB := replicate (nat (prod_list gels)) 0,
                       gridUBFresh := replicate (nat (prod_list gels)) True\<rparr>"
  have "initialize gelbox ?g = Some g"
    unfolding initialize_def Let_def f(1,3,4,8) ppg_def [symmetric] gels_def [symmetric]
      wts_def [symmetric] tg using assms(1) nz by (simp add: g_def)
  moreover have "wf_grid g"
    unfolding wf_grid_def
    using gl w p gels_of_bound f assms(2) by (auto simp: g_def gels_def Suc_le_eq)
  ultimately show ?thesis using that [of g] f by (simp add: g_def)
qed

section \<open>Which cells a box reaches\<close>

text \<open>All that the indices need of a box: its upper ends are not below the domain.\<close>

definition reaches_up :: "ivpgrid \<Rightarrow> ivpbox \<Rightarrow> bool" where
  "reaches_up g b \<longleftrightarrow> (\<forall>d<g_dim g. 0 \<le> pt b d 1)"

definition in_domain :: "ivpgrid \<Rightarrow> (nat \<Rightarrow> int) \<Rightarrow> bool" where
  "in_domain g p \<longleftrightarrow> (\<forall>d<g_dim g. 0 \<le> p d \<and> p d \<le> DOMAIN_HIGH g ! d)"

text \<open>The cell of a domain point.\<close>

definition home :: "ivpgrid \<Rightarrow> (nat \<Rightarrow> int) \<Rightarrow> int list" where
  "home g p = map (\<lambda>d. p d div PTS_PER_GEL g ! d) [0..<g_dim g]"

lemma length_setIXBOX [simp]: "length (setIXBOX g b) = g_dim g"
  by (simp add: setIXBOX_def)

lemma setIXBOX_nth: "wf_grid g \<Longrightarrow> reaches_up g b \<Longrightarrow> d < g_dim g \<Longrightarrow>
    setIXBOX g b ! d =
    ((if bd b d 0 then max 0 (pt b d 0) else max 0 (1 + pt b d 0)) div PTS_PER_GEL g ! d,
     min (DOMAIN_HIGH g ! d) (pt b d 1) div PTS_PER_GEL g ! d)"
  by (auto simp: setIXBOX_def Let_def wf_grid_def reaches_up_def sdiv_nonneg)

lemma cell_coordinates:
  assumes "wf_grid g" "reaches_up g b" "ix \<in> set (all_cells (setIXBOX g b))"
  shows "list_all2 (\<lambda>i k. 0 \<le> i \<and> i < k) ix (GELS_PER_DIM g)"
proof -
  have L: "length ix = g_dim g" "length (GELS_PER_DIM g) = g_dim g"
    using assms(1,3) by (auto simp: set_all_cells wf_grid_def dest: list_all2_lengthD)
  moreover have "0 \<le> ix ! d \<and> ix ! d < GELS_PER_DIM g ! d" if d: "d < g_dim g" for d
  proof -
    let ?b = "setIXBOX g b ! d" and ?p = "PTS_PER_GEL g ! d"
    have "ix ! d \<in> set (span ?b)"
      using assms(3) d L by (auto simp: set_all_cells list_all2_conv_all_nth)
    then have i: "(fst ?b \<le> ix ! d \<or> ix ! d = snd ?b) \<and> ix ! d \<le> snd ?b" by (simp add: set_span)
    have p: "0 < ?p" "DOMAIN_HIGH g ! d div ?p < GELS_PER_DIM g ! d" "0 \<le> DOMAIN_HIGH g ! d" "0 \<le> pt b d 1"
      using assms(1,2) d by (auto simp: wf_grid_def reaches_up_def)
    have "0 \<le> fst ?b" "0 \<le> snd ?b"
      using p setIXBOX_nth [OF assms(1,2) d] by (auto simp: pos_imp_zdiv_nonneg_iff)
    moreover have "snd ?b \<le> DOMAIN_HIGH g ! d div ?p"
      using p setIXBOX_nth [OF assms(1,2) d] by (simp add: zdiv_mono1)
    ultimately show ?thesis using i p(2) by linarith
  qed
  ultimately show ?thesis by (simp add: list_all2_conv_all_nth)
qed

lemma ix_of_radix:
  assumes "wf_grid g" "length ix = g_dim g"
  shows "ix_of g ix = radix (GELS_PER_DIM g) ix"
proof -
  have "ix_of g ix = (\<Sum>d<g_dim g. ix ! d * DIM_WT g ! d)" by (simp add: ix_of_def foldl_rev_sum)
  also have "\<dots> = (\<Sum>d<length (GELS_PER_DIM g). ix ! d * prod_list (take d (GELS_PER_DIM g)))"
    using assms(1) by (intro sum.cong) (auto simp: wf_grid_def)
  also have "\<dots> = radix (GELS_PER_DIM g) ix"
    using assms by (intro radix_sum [symmetric]) (simp add: wf_grid_def)
  finally show ?thesis .
qed

lemma cells_of_eq: "cells_of g b = map (\<lambda>ix. nat (ix_of g ix)) (all_cells (setIXBOX g b))"
  by (simp add: cells_of_def grid_walk_all)

lemma cell_index:
  assumes "wf_grid g" "list_all2 (\<lambda>i k. 0 \<le> i \<and> i < k) ix (GELS_PER_DIM g)"
  shows "0 \<le> ix_of g ix \<and> ix_of g ix < total_grids g"
  using assms radix_range [OF assms(2)] ix_of_radix [OF assms(1), of ix] list_all2_lengthD [OF assms(2)]
  by (simp add: wf_grid_def)

theorem cells_in_range: "wf_grid g \<Longrightarrow> reaches_up g b \<Longrightarrow> k \<in> set (cells_of g b) \<Longrightarrow> k < nat (total_grids g)"
  using cell_coordinates [of g b] cell_index [of g] by (fastforce simp: cells_of_eq)

theorem distinct_cells_of: "wf_grid g \<Longrightarrow> reaches_up g b \<Longrightarrow> distinct (cells_of g b)"
proof -
  assume g: "wf_grid g" "reaches_up g b"
  have "inj_on (\<lambda>ix. nat (ix_of g ix)) (set (all_cells (setIXBOX g b)))"
  proof (rule inj_onI)
    fix ix jx
    assume m: "ix \<in> set (all_cells (setIXBOX g b))" "jx \<in> set (all_cells (setIXBOX g b))"
      "nat (ix_of g ix) = nat (ix_of g jx)"
    note c = cell_coordinates [OF g m(1)] cell_coordinates [OF g m(2)]
    have "length (GELS_PER_DIM g) = g_dim g" using g(1) by (simp add: wf_grid_def)
    then have "radix (GELS_PER_DIM g) ix = radix (GELS_PER_DIM g) jx"
      using m(3) radix_range [OF c(1)] radix_range [OF c(2)] ix_of_radix [OF g(1)] c
      by (auto dest!: list_all2_lengthD)
    then show "ix = jx" by (rule radix_inj [OF c])
  qed
  then show ?thesis by (simp add: cells_of_eq distinct_map distinct_all_cells)
qed

text \<open>The cell of a point is visited by every box that covers the point.\<close>

theorem home_visited:
  assumes "wf_grid g" "m_dim b = g_dim g" "in_box b p" "in_domain g p"
  shows "nat (ix_of g (home g p)) \<in> set (cells_of g b)"
proof -
  have r: "reaches_up g b"
    using assms by (fastforce simp: reaches_up_def in_box_def in_domain_def)
  have "p d div PTS_PER_GEL g ! d \<in> set (span (setIXBOX g b ! d))" if d: "d < g_dim g" for d
  proof -
    have "0 < PTS_PER_GEL g ! d" "0 \<le> p d" "p d \<le> DOMAIN_HIGH g ! d"
      "pt b d 0 < p d \<or> pt b d 0 = p d \<and> bd b d 0" "p d < pt b d 1 \<or> p d = pt b d 1 \<and> bd b d 1"
      using assms d by (auto simp: wf_grid_def in_domain_def in_box_def)
    then show ?thesis unfolding set_span setIXBOX_nth [OF assms(1) r d]
      by (auto intro!: zdiv_mono1)
  qed
  then have "home g p \<in> set (all_cells (setIXBOX g b))"
    by (simp add: set_all_cells list_all2_conv_all_nth home_def)
  then show ?thesis by (auto simp: cells_of_eq)
qed

section \<open>Adding boxes\<close>

text \<open>Two grids with the same cut of the domain: indices and cells agree.\<close>

definition same_cut :: "ivpgrid \<Rightarrow> ivpgrid \<Rightarrow> bool" where
  "same_cut g h \<longleftrightarrow> g_dim g = g_dim h \<and> GELS_PER_DIM g = GELS_PER_DIM h \<and>
     PTS_PER_GEL g = PTS_PER_GEL h \<and> DIM_WT g = DIM_WT h \<and> DOMAIN_LOW g = DOMAIN_LOW h \<and>
     DOMAIN_HIGH g = DOMAIN_HIGH h \<and> DOMAIN_SIZE g = DOMAIN_SIZE h \<and>
     total_grids g = total_grids h \<and> boxFlag g = boxFlag h"

lemma same_cut_refl [simp]: "same_cut g g"
  by (simp add: same_cut_def)

lemma same_cut_trans: "same_cut f g \<Longrightarrow> same_cut g h \<Longrightarrow> same_cut f h"
  by (simp add: same_cut_def)

lemma same_cut_facts:
  assumes "same_cut g h"
  shows "cells_of g b = cells_of h b" "reaches_up g b = reaches_up h b" "in_domain g p = in_domain h p"
    "home g p = home h p" "ix_of g ix = ix_of h ix" "g_dim g = g_dim h" "total_grids g = total_grids h"
    "setIXBOX g b = setIXBOX h b" "DOMAIN_HIGH g = DOMAIN_HIGH h" "boxFlag g = boxFlag h"
proof -
  have [simp]: "setIXBOX g b = setIXBOX h b" "ix_of g = ix_of h"
    using assms by (auto simp: same_cut_def setIXBOX_def ix_of_def)
  show "cells_of g b = cells_of h b" by (simp add: cells_of_def)
qed (use assms in \<open>auto simp: same_cut_def reaches_up_def in_domain_def home_def setIXBOX_def ix_of_def\<close>)

text \<open>What the loop of \<open>addBox\<close> does to a cell it visits, and to the others.\<close>

lemma add_cells:
  assumes "g_grid g = Some gr" "distinct cs" "length gr = n" "length (gridUB g) = n"
    "length (gridUBFresh g) = n" "\<forall>ix\<in>set cs. ix < n"
  obtains gr' ub fr e where
    "foldM (add_cell p v BX UB) g cs =
       Some (g\<lparr>g_grid := Some gr', g_empty := e, gridUB := ub, gridUBFresh := fr\<rparr>)"
    "length gr' = n" "length ub = n" "length fr = n" "e = (g_empty g \<and> (BX \<longrightarrow> cs = []))"
    "\<forall>ix<n. gr' ! ix = gr ! ix @ (if BX \<and> ix \<in> set cs then [p] else [])"
    "\<forall>ix<n. ub ! ix = (if UB \<and> ix \<in> set cs then
        (if gridUBFresh g ! ix then v else max (gridUB g ! ix) v) else gridUB g ! ix)"
    "\<forall>ix<n. fr ! ix = (gridUBFresh g ! ix \<and> \<not> (UB \<and> ix \<in> set cs))"
  using assms
proof (induction cs arbitrary: g gr thesis)
  case Nil
  show ?case by (rule Nil.prems(1) [where gr' = gr and e = "g_empty g" and ub = "gridUB g" and fr = "gridUBFresh g"]) (use Nil.prems in auto)
next
  case (Cons c cs)
  define gr1 where "gr1 = (if BX then gr[c := gr ! c @ [p]] else gr)"
  define ub1 where "ub1 = (if UB then (gridUB g)[c := (if gridUBFresh g ! c then v
                                            else max (gridUB g ! c) v)] else gridUB g)"
  define fr1 where "fr1 = (if UB then (gridUBFresh g)[c := False] else gridUBFresh g)"
  define g1 where "g1 = g\<lparr>g_grid := Some gr1, g_empty := (g_empty g \<and> \<not> BX), gridUB := ub1,
    gridUBFresh := fr1\<rparr>"
  have s: "add_cell p v BX UB g c = Some g1"
    using Cons.prems(2) by (cases g) (auto simp: add_cell_def g1_def gr1_def ub1_def fr1_def)
  have g1: "g_grid g1 = Some gr1" "gridUB g1 = ub1" "gridUBFresh g1 = fr1" "g_empty g1 = (g_empty g \<and> \<not> BX)"
    "length gr1 = n" "length ub1 = n" "length fr1 = n" "\<forall>ix\<in>set cs. ix < n" "distinct cs"
    using Cons.prems by (auto simp: g1_def gr1_def ub1_def fr1_def)
  obtain gr' ub fr e where r:
    "foldM (add_cell p v BX UB) g1 cs =
       Some (g1\<lparr>g_grid := Some gr', g_empty := e, gridUB := ub, gridUBFresh := fr\<rparr>)"
    "length gr' = n" "length ub = n" "length fr = n" "e = (g_empty g1 \<and> (BX \<longrightarrow> cs = []))"
    "\<forall>ix<n. gr' ! ix = gr1 ! ix @ (if BX \<and> ix \<in> set cs then [p] else [])"
    "\<forall>ix<n. ub ! ix = (if UB \<and> ix \<in> set cs then
        (if gridUBFresh g1 ! ix then v else max (gridUB g1 ! ix) v) else gridUB g1 ! ix)"
    "\<forall>ix<n. fr ! ix = (gridUBFresh g1 ! ix \<and> \<not> (UB \<and> ix \<in> set cs))"
    by (rule Cons.IH [of g1 gr1]) (assumption, (rule g1 | simp only: g1)+)
  have c: "c < n" "c \<notin> set cs" using Cons.prems(3,7) by auto
  show ?case
  proof (rule Cons.prems(1) [where gr' = gr' and e = e and ub = ub and fr = fr])
    show "foldM (add_cell p v BX UB) g (c # cs) =
       Some (g\<lparr>g_grid := Some gr', g_empty := e, gridUB := ub, gridUBFresh := fr\<rparr>)"
      using s r(1) by (simp add: g1_def)
    show "\<forall>ix<n. gr' ! ix = gr ! ix @ (if BX \<and> ix \<in> set (c # cs) then [p] else [])"
      using r(6) c Cons.prems(4) by (auto simp: gr1_def nth_list_update)
    show "\<forall>ix<n. ub ! ix = (if UB \<and> ix \<in> set (c # cs) then
        (if gridUBFresh g ! ix then v else max (gridUB g ! ix) v) else gridUB g ! ix)"
      using r(7) c Cons.prems(5,6) unfolding g1 by (auto simp: ub1_def fr1_def nth_list_update)
    show "\<forall>ix<n. fr ! ix = (gridUBFresh g ! ix \<and> \<not> (UB \<and> ix \<in> set (c # cs)))"
      using r(8) c Cons.prems(6) unfolding g1 by (auto simp: fr1_def nth_list_update)
  qed (use r(2-5) g1(4) in auto)
qed

text \<open>
  The contents of the grid: every cell holds, once each, the boxes of \<open>ps\<close> that reach it;
  without the duplicate flag no box is in two cells.
\<close>

definition indexed :: "box_store \<Rightarrow> box_ptr set \<Rightarrow> ivpgrid \<Rightarrow> bool" where
  "indexed st ps g \<longleftrightarrow> wf_grid g \<and> boxFlag g \<and> (\<forall>p\<in>ps. reaches_up g (st p)) \<and>
     (\<forall>ix<nat (total_grids g). distinct (the (g_grid g) ! ix) \<and>
        set (the (g_grid g) ! ix) = {p \<in> ps. ix \<in> set (cells_of g (st p))}) \<and>
     (\<not> dup_flag g \<longrightarrow> (\<forall>p\<in>ps. length (cells_of g (st p)) = 1))"

text \<open>The bounds of the cells are above the boxes that reach them.\<close>

definition bounded :: "box_store \<Rightarrow> box_ptr set \<Rightarrow> ivpgrid \<Rightarrow> bool" where
  "bounded st ps g \<longleftrightarrow>
     (\<forall>p\<in>ps. \<forall>ix\<in>set (cells_of g (st p)). \<not> gridUBFresh g ! ix \<and> maxVal (st p) \<le> gridUB g ! ix)"

lemma cells_of_nonempty: "cells_of g b \<noteq> []"
  by (simp add: cells_of_eq all_cells_nonempty)

lemma indexed_wf: "indexed st ps g \<Longrightarrow> wf_grid g"
  by (simp add: indexed_def)

lemma indexed_grid: "indexed st ps g \<Longrightarrow> \<exists>gr. g_grid g = Some gr \<and> length gr = nat (total_grids g)"
  by (auto simp: indexed_def wf_grid_def)

theorem addBox_indexed:
  assumes "indexed st ps g" "bounded st ps g" "p \<notin> ps" "reaches_up g (st p)"
  obtains g' where "grid_addBox st p True True g = Some g'" "indexed st (insert p ps) g'"
    "bounded st (insert p ps) g'" "same_cut g' g" "\<not> g_empty g'"
    "g_maxval g' = (if g_empty g \<or> maxVal (st p) > g_maxval g then maxVal (st p) else g_maxval g)"
    "g_maxpt g' = (if g_empty g \<or> maxVal (st p) > g_maxval g then maxPt_into (st p) (g_maxpt g) else g_maxpt g)"
proof -
  let ?g1 = "if g_empty g \<or> maxVal (st p) > g_maxval g
             then g\<lparr>g_maxpt := maxPt_into (st p) (g_maxpt g), g_maxval := maxVal (st p)\<rparr> else g"
  let ?n = "nat (total_grids g)" and ?c = "cells_of g (st p)"
  obtain gr where gr: "g_grid g = Some gr" "length gr = ?n" using indexed_grid [OF assms(1)] by blast
  have wf: "wf_grid g" by (rule indexed_wf [OF assms(1)])
  have f: "g_grid ?g1 = Some gr" "gridUB ?g1 = gridUB g" "gridUBFresh ?g1 = gridUBFresh g"
    "g_empty ?g1 = g_empty g" using gr by auto
  have L: "length (gridUB ?g1) = ?n" "length (gridUBFresh ?g1) = ?n"
    using wf by (simp_all add: f wf_grid_def)
  have inr: "\<forall>ix\<in>set ?c. ix < ?n" using cells_in_range [OF wf assms(4)] by blast
  obtain gr' ub fr e where r: "foldM (add_cell p (maxVal (st p)) True True) ?g1 ?c =
       Some (?g1\<lparr>g_grid := Some gr', g_empty := e, gridUB := ub, gridUBFresh := fr\<rparr>)"
    "length gr' = ?n" "length ub = ?n" "length fr = ?n" "e = (g_empty ?g1 \<and> (True \<longrightarrow> ?c = []))"
    "\<forall>ix<?n. gr' ! ix = gr ! ix @ (if True \<and> ix \<in> set ?c then [p] else [])"
    "\<forall>ix<?n. ub ! ix = (if True \<and> ix \<in> set ?c then
        (if gridUBFresh ?g1 ! ix then maxVal (st p) else max (gridUB ?g1 ! ix) (maxVal (st p)))
        else gridUB ?g1 ! ix)"
    "\<forall>ix<?n. fr ! ix = (gridUBFresh ?g1 ! ix \<and> \<not> (True \<and> ix \<in> set ?c))"
    by (rule add_cells [OF f(1) distinct_cells_of [OF wf assms(4)] gr(2) L inr])
  define g2 where "g2 = ?g1\<lparr>g_grid := Some gr', g_empty := e, gridUB := ub, gridUBFresh := fr\<rparr>"
  define g' where "g' = (if length ?c > 1 then g2\<lparr>dup_flag := True\<rparr> else g2)"
  have run: "grid_addBox st p True True g = Some g'"
    unfolding grid_addBox_def Let_def r(1) by (simp add: g'_def g2_def)
  have cut: "same_cut g' g" by (simp add: same_cut_def g'_def g2_def)
  have e: "\<not> e" using r(5) cells_of_nonempty by simp
  have fields: "g_grid g' = Some gr'" "gridUB g' = ub" "gridUBFresh g' = fr" "g_empty g' = e"
    "dup_flag g' = (dup_flag g \<or> length ?c > 1)" "g_maxval g' = g_maxval ?g1" "g_maxpt g' = g_maxpt ?g1"
    by (simp_all add: g'_def g2_def)
  note cf = same_cut_facts [OF cut]
  have wf': "wf_grid g'"
    using wf r(2-4) cut unfolding wf_grid_def same_cut_def fields by auto
  have "indexed st (insert p ps) g'"
    unfolding indexed_def
  proof (intro conjI allI impI)
    fix ix assume ix: "ix < nat (total_grids g')"
    have old: "distinct (gr ! ix)" "set (gr ! ix) = {p \<in> ps. ix \<in> set (cells_of g (st p))}"
      using assms(1) ix gr by (auto simp: indexed_def cf)
    show "distinct (the (g_grid g') ! ix)" "set (the (g_grid g') ! ix) =
        {q \<in> insert p ps. ix \<in> set (cells_of g' (st q))}"
      using r(6) ix old assms(3) by (auto simp: fields cf)
  next
    show "\<not> dup_flag g' \<Longrightarrow> \<forall>q\<in>insert p ps. length (cells_of g' (st q)) = 1"
      using assms(1) cells_of_nonempty [of g "st p"]
      by (auto simp: indexed_def fields cf not_less le_Suc_eq)
  qed (use wf' assms(1,4) in \<open>auto simp: indexed_def cf\<close>)
  moreover have "bounded st (insert p ps) g'"
    unfolding bounded_def
  proof (intro ballI)
    fix q ix assume q: "q \<in> insert p ps" "ix \<in> set (cells_of g' (st q))"
    have "reaches_up g (st q)" using q(1) assms(1,4) by (auto simp: indexed_def)
    then have ix: "ix < ?n" using q(2) cells_in_range [OF wf] by (simp add: cf)
    show "\<not> gridUBFresh g' ! ix \<and> maxVal (st q) \<le> gridUB g' ! ix"
      using q ix r(7,8) assms(2) unfolding fields cf bounded_def f by fastforce
  qed
  ultimately show ?thesis using that [OF run] cut e by (simp add: fields)
qed

section \<open>Queries\<close>

lemma collect_cell: "foldl (\<lambda>s p. if P p then s @ [p] else s) s ps = s @ [p \<leftarrow> ps. P p]"
  by (induction ps arbitrary: s) auto

lemma collect_cells: "foldl (\<lambda>s ix. foldl (\<lambda>s p. if P p then s @ [p] else s) s (f ix)) s cs =
    s @ concat (map (\<lambda>ix. [p \<leftarrow> f ix. P p]) cs)"
  by (induction cs arbitrary: s) (auto simp: collect_cell)

lemma collect_all: "foldl (\<lambda>s ix. s @ f ix) s cs = s @ concat (map f cs)"
  by (induction cs arbitrary: s) auto

text \<open>Two boxes that reach into a common cell.\<close>

definition meet :: "ivpgrid \<Rightarrow> ivpbox \<Rightarrow> ivpbox \<Rightarrow> bool" where
  "meet g q b \<longleftrightarrow> set (cells_of g q) \<inter> set (cells_of g b) \<noteq> {}"

lemma meet_point:
  assumes "wf_grid g" "in_domain g x" "in_box q x" "in_box b x" "m_dim q = g_dim g" "m_dim b = g_dim g"
  shows "meet g q b"
  using home_visited [OF assms(1,5,3,2)] home_visited [OF assms(1,6,4,2)] by (auto simp: meet_def)

lemma cells_content:
  assumes "indexed st ps g" "reaches_up g q" "g_grid g = Some gr"
  shows "(\<Union>ix\<in>set (cells_of g q). set [p \<leftarrow> gr ! ix. P p]) = {p \<in> ps. meet g q (st p) \<and> P p}"
    "\<not> dup_flag g \<Longrightarrow> distinct (concat (map (\<lambda>ix. [p \<leftarrow> gr ! ix. P p]) (cells_of g q)))"
proof -
  have wf: "wf_grid g" by (rule indexed_wf [OF assms(1)])
  have c: "distinct (gr ! ix)" "set (gr ! ix) = {p \<in> ps. ix \<in> set (cells_of g (st p))}"
    if "ix \<in> set (cells_of g q)" for ix
    using assms(1,3) cells_in_range [OF wf assms(2) that] by (auto simp: indexed_def)
  then show "(\<Union>ix\<in>set (cells_of g q). set [p \<leftarrow> gr ! ix. P p]) = {p \<in> ps. meet g q (st p) \<and> P p}"
    by (auto simp: meet_def)
  assume "\<not> dup_flag g"
  then have one: "\<forall>p\<in>ps. length (cells_of g (st p)) = 1" using assms(1) by (simp add: indexed_def)
  have "distinct (concat (map (\<lambda>ix. [p \<leftarrow> gr ! ix. P p]) cs))"
    if "set cs \<subseteq> set (cells_of g q)" "distinct cs" for cs
    using that
  proof (induction cs)
    case (Cons k cs)
    have "p \<notin> set (gr ! j)" if "p \<in> set (gr ! k)" "j \<in> set cs" for p j
    proof
      assume "p \<in> set (gr ! j)"
      with that c [of j] c [of k] Cons.prems have "p \<in> ps" "j \<in> set (cells_of g (st p))"
        "k \<in> set (cells_of g (st p))" "j \<noteq> k" by auto
      with one show False by (fastforce simp: length_Suc_conv)
    qed
    with Cons c [of k] show ?case by auto
  qed simp
  then show "distinct (concat (map (\<lambda>ix. [p \<leftarrow> gr ! ix. P p]) (cells_of g q)))"
    using distinct_cells_of [OF wf assms(2)] by blast
qed

lemma finish_query:
  assumes "set xs = A" "\<not> dup \<longrightarrow> distinct xs"
  shows "set (if dup then keep_first {} xs else xs) = A" "distinct (if dup then keep_first {} xs else xs)"
  using assms by simp_all

theorem getBS_result:
  assumes "indexed st ps g" "reaches_up g q"
  obtains r where "grid_getBS st g q check = Some r" "distinct r"
    "set r = {p \<in> ps. meet g q (st p) \<and> (check \<longrightarrow> box_intersect q (st p))}"
proof -
  obtain gr where gr: "g_grid g = Some gr" using indexed_grid [OF assms(1)] by blast
  let ?P = "\<lambda>p. check \<longrightarrow> box_intersect q (st p)"
  let ?xs = "concat (map (\<lambda>ix. [p \<leftarrow> gr ! ix. ?P p]) (cells_of g q))"
  have eq: "grid_getBS st g q check = Some (if dup_flag g then keep_first {} ?xs else ?xs)"
    using gr by (cases check) (simp_all add: grid_getBS_def Let_def collect_cells collect_all)
  have "set ?xs = {p \<in> ps. meet g q (st p) \<and> ?P p}"
    using cells_content(1) [OF assms gr, of ?P] by auto
  then show ?thesis
    using that [OF eq] finish_query [of ?xs _ "dup_flag g"] cells_content(2) [OF assms gr, of ?P] by blast
qed

theorem getBS_Thresh_result:
  assumes "indexed st ps g" "reaches_up g q"
  obtains r where "getBS_Thresh st g q thresh = Some r" "distinct r"
    "set r = {p \<in> ps. meet g q (st p) \<and> maxVal (st p) < thresh \<and> box_intersect q (st p)}"
proof -
  obtain gr where gr: "g_grid g = Some gr" using indexed_grid [OF assms(1)] by blast
  let ?P = "\<lambda>p. maxVal (st p) < thresh \<and> box_intersect q (st p)"
  let ?xs = "concat (map (\<lambda>ix. [p \<leftarrow> gr ! ix. ?P p]) (cells_of g q))"
  have eq: "getBS_Thresh st g q thresh = Some (if dup_flag g then keep_first {} ?xs else ?xs)"
    using gr by (simp add: getBS_Thresh_def Let_def collect_cells)
  have "set ?xs = {p \<in> ps. meet g q (st p) \<and> ?P p}"
    using cells_content(1) [OF assms gr, of ?P] by auto
  then show ?thesis
    using that [OF eq] finish_query [of ?xs _ "dup_flag g"] cells_content(2) [OF assms gr, of ?P] by blast
qed

text \<open>Removing a box takes it out of every cell.\<close>

lemma remove_cells:
  assumes "g_grid g = Some gr" "\<forall>ix\<in>set cs. ix < length gr"
  obtains gr' where "foldM (\<lambda>g ix. case g_grid g of None \<Rightarrow> None
              | Some gr \<Rightarrow> Some (g\<lparr>g_grid := Some (gr[ix := [r \<leftarrow> gr ! ix. r \<noteq> p]])\<rparr>)) g cs =
      Some (g\<lparr>g_grid := Some gr'\<rparr>)" "length gr' = length gr"
    "\<forall>ix<length gr. gr' ! ix = (if ix \<in> set cs then [r \<leftarrow> gr ! ix. r \<noteq> p] else gr ! ix)"
  using assms
proof (induction cs arbitrary: g gr thesis)
  case Nil
  show ?case by (rule Nil.prems(1) [of gr]) (use Nil.prems in auto)
next
  case (Cons c cs)
  let ?gr1 = "gr[c := [r \<leftarrow> gr ! c. r \<noteq> p]]"
  obtain gr' where r: "foldM (\<lambda>g ix. case g_grid g of None \<Rightarrow> None
              | Some gr \<Rightarrow> Some (g\<lparr>g_grid := Some (gr[ix := [r \<leftarrow> gr ! ix. r \<noteq> p]])\<rparr>))
        (g\<lparr>g_grid := Some ?gr1\<rparr>) cs = Some (g\<lparr>g_grid := Some ?gr1, g_grid := Some gr'\<rparr>)"
    "length gr' = length ?gr1"
    "\<forall>ix<length ?gr1. gr' ! ix = (if ix \<in> set cs then [r \<leftarrow> ?gr1 ! ix. r \<noteq> p] else ?gr1 ! ix)"
    by (rule Cons.IH [of "g\<lparr>g_grid := Some ?gr1\<rparr>" ?gr1]) (use Cons.prems in auto)
  show ?case
    by (rule Cons.prems(1) [of gr']) (use r Cons.prems in \<open>auto simp: nth_list_update\<close>)
qed

theorem remBox_indexed:
  assumes "indexed st ps g" "bounded st ps g" "reaches_up g (st p)"
  obtains g' where "remBox st p g = Some g'" "indexed st (ps - {p}) g'" "bounded st (ps - {p}) g'"
    "same_cut g' g"
proof -
  let ?n = "nat (total_grids g)"
  obtain gr where gr: "g_grid g = Some gr" "length gr = ?n" using indexed_grid [OF assms(1)] by blast
  have wf: "wf_grid g" by (rule indexed_wf [OF assms(1)])
  have inr: "\<forall>ix\<in>set (cells_of g (st p)). ix < length gr"
    using cells_in_range [OF wf assms(3)] gr(2) by auto
  obtain gr' where r: "remBox st p g = Some (g\<lparr>g_grid := Some gr'\<rparr>)" "length gr' = length gr"
    "\<forall>ix<length gr. gr' ! ix = (if ix \<in> set (cells_of g (st p)) then [r \<leftarrow> gr ! ix. r \<noteq> p] else gr ! ix)"
    unfolding remBox_def by (rule remove_cells [OF gr(1) inr])
  define g' where "g' = g\<lparr>g_grid := Some gr'\<rparr>"
  have cut: "same_cut g' g" by (simp add: same_cut_def g'_def)
  note cf = same_cut_facts [OF cut]
  have wf': "wf_grid g'" using wf r(2) gr by (auto simp: wf_grid_def g'_def)
  have "indexed st (ps - {p}) g'"
    unfolding indexed_def
  proof (intro conjI allI impI)
    fix ix assume ix: "ix < nat (total_grids g')"
    have old: "distinct (gr ! ix)" "set (gr ! ix) = {p \<in> ps. ix \<in> set (cells_of g (st p))}"
      using assms(1) ix gr by (auto simp: indexed_def cf)
    show "distinct (the (g_grid g') ! ix)" "set (the (g_grid g') ! ix) =
        {q \<in> ps - {p}. ix \<in> set (cells_of g' (st q))}"
      using r(3) ix old gr(2) by (auto simp: g'_def cf [unfolded g'_def])
  qed (use wf' assms(1) in \<open>auto simp: indexed_def cf, auto simp: g'_def\<close>)
  moreover have "bounded st (ps - {p}) g'"
    using assms(2) by (auto simp: bounded_def cf) (auto simp: g'_def)
  ultimately show ?thesis using that r(1) cut by (simp add: g'_def)
qed

section \<open>Upper bounds\<close>

lemma bound_fold: "r \<le> fst (foldl (bound_step g) (r, False) cs) \<and>
    (\<forall>ix\<in>set cs. \<not> gridUBFresh g ! ix \<longrightarrow> gridUB g ! ix \<le> fst (foldl (bound_step g) (r, False) cs))"
proof (induction cs arbitrary: r)
  case (Cons c cs)
  obtain r1 where r1: "bound_step g (r, False) c = (r1, False)" "r \<le> r1"
    "\<not> gridUBFresh g ! c \<longrightarrow> gridUB g ! c \<le> r1" by (auto simp: bound_step_def)
  with Cons.IH [of r1] show ?case by (auto intro: order.trans)
qed simp

lemma getCheapBound_cell:
  assumes "ix \<in> set (cells_of g q)" "\<not> gridUBFresh g ! ix"
  shows "gridUB g ! ix \<le> getCheapBound g q"
proof -
  obtain c cs where c: "cells_of g q = c # cs" using assms(1) by (cases "cells_of g q") auto
  obtain r1 where r1: "bound_step g (-99999, True) c = (r1, False)"
    "\<not> gridUBFresh g ! c \<longrightarrow> gridUB g ! c \<le> r1" by (auto simp: bound_step_def)
  show ?thesis using bound_fold [of r1 g cs] r1 assms unfolding getCheapBound_def c by auto
qed

theorem getCheapBound_upper:
  assumes "bounded st ps g" "p \<in> ps" "meet g q (st p)"
  shows "maxVal (st p) \<le> getCheapBound g q"
proof -
  from assms(3) obtain ix where ix: "ix \<in> set (cells_of g q)" "ix \<in> set (cells_of g (st p))"
    by (auto simp: meet_def)
  with assms(1,2) have "\<not> gridUBFresh g ! ix" "maxVal (st p) \<le> gridUB g ! ix" by (auto simp: bounded_def)
  with getCheapBound_cell [OF ix(1)] show ?thesis by simp
qed

text \<open>Scaling and moving all bounds.\<close>

lemma update_bounds: "n \<le> length (gridUB g) \<Longrightarrow>
    foldl (\<lambda>g ix. if \<not> gridUBFresh g ! ix
             then g\<lparr>gridUB := (gridUB g)[ix := f (gridUB g ! ix)]\<rparr> else g) g [0..<n] =
    g\<lparr>gridUB := map (\<lambda>ix. if ix < n \<and> \<not> gridUBFresh g ! ix then f (gridUB g ! ix) else gridUB g ! ix)
                [0..<length (gridUB g)]\<rparr>"
proof (induction n)
  case 0
  then show ?case by (cases g) (simp add: map_nth)
next
  case (Suc n)
  let ?m = "\<lambda>n. map (\<lambda>ix. if ix < n \<and> \<not> gridUBFresh g ! ix then f (gridUB g ! ix) else gridUB g ! ix)
                [0..<length (gridUB g)]"
  have "?m (Suc n) = (if gridUBFresh g ! n then ?m n else (?m n)[n := f (?m n ! n)])"
    using Suc.prems by (intro nth_equalityI) (auto simp: nth_list_update less_Suc_eq)
  with Suc show ?case by simp
qed

lemma scaleBounds_eq: "wf_grid g \<Longrightarrow> scaleBounds a g =
    g\<lparr>gridUB := map (\<lambda>ix. if \<not> gridUBFresh g ! ix then gridUB g ! ix * a else gridUB g ! ix)
                [0..<length (gridUB g)]\<rparr>"
  using update_bounds [of "nat (total_grids g)" g "\<lambda>x. x * a"]
  by (auto simp: scaleBounds_def wf_grid_def intro!: arg_cong [where f = "\<lambda>u. gridUB_update (\<lambda>_. u) g"])

lemma moveBounds_eq: "wf_grid g \<Longrightarrow> moveBounds a g =
    g\<lparr>gridUB := map (\<lambda>ix. if \<not> gridUBFresh g ! ix then gridUB g ! ix + a else gridUB g ! ix)
                [0..<length (gridUB g)]\<rparr>"
  using update_bounds [of "nat (total_grids g)" g "\<lambda>x. x + a"]
  by (auto simp: moveBounds_def wf_grid_def intro!: arg_cong [where f = "\<lambda>u. gridUB_update (\<lambda>_. u) g"])

lemma same_region_cells: "same_region r b \<Longrightarrow> cells_of g r = cells_of g b"
  "same_region r b \<Longrightarrow> reaches_up g r = reaches_up g b"
proof -
  assume r: "same_region r b"
  show "cells_of g r = cells_of g b" "reaches_up g r = reaches_up g b"
    unfolding cells_of_def setIXBOX_def reaches_up_def same_region_facts(6,7) [OF r] by (rule refl)+
qed

text \<open>The index survives a change of the weights; the bounds have to follow.\<close>

lemma indexed_same_region:
  assumes "indexed st ps g" "\<And>p. p \<in> ps \<Longrightarrow> same_region (st' p) (st p)" "same_cut g' g" "wf_grid g'"
    "g_grid g' = g_grid g" "dup_flag g' = dup_flag g"
  shows "indexed st' ps g'"
  using assms(1) same_region_cells [OF assms(2)] assms(4-6) same_cut_facts [OF assms(3)]
  by (auto simp: indexed_def)

lemma change_bounds:
  assumes "indexed st ps g" "bounded st ps g" "\<And>p. p \<in> ps \<Longrightarrow> same_region (st' p) (st p)"
    and f: "\<And>p u. p \<in> ps \<Longrightarrow> maxVal (st p) \<le> u \<Longrightarrow> maxVal (st' p) \<le> f u"
    and g': "g' = g\<lparr>gridUB := map (\<lambda>ix. if \<not> gridUBFresh g ! ix then f (gridUB g ! ix) else gridUB g ! ix)
                [0..<length (gridUB g)]\<rparr>"
  shows "indexed st' ps g'" "bounded st' ps g'" "same_cut g' g"
proof -
  have wf: "wf_grid g" by (rule indexed_wf [OF assms(1)])
  show cut: "same_cut g' g" by (simp add: g' same_cut_def)
  have wf': "wf_grid g'" using wf unfolding wf_grid_def g' by auto
  show "indexed st' ps g'" by (rule indexed_same_region [OF assms(1,3) cut wf']) (simp_all add: g')
  show "bounded st' ps g'"
    unfolding bounded_def
  proof (intro ballI)
    fix p ix assume p: "p \<in> ps" "ix \<in> set (cells_of g' (st' p))"
    then have ix: "ix \<in> set (cells_of g (st p))"
      using same_region_cells(1) [OF assms(3)] same_cut_facts(1) [OF cut] by simp
    have "ix < length (gridUB g)"
      using cells_in_range [OF wf _ ix] assms(1) p(1) wf by (auto simp: indexed_def wf_grid_def)
    with assms(2) p(1) ix f show "\<not> gridUBFresh g' ! ix \<and> maxVal (st' p) \<le> gridUB g' ! ix"
      by (simp add: g' bounded_def)
  qed
qed

section \<open>Scaled and moved boxes\<close>

lemma wt_scaleWT: "wf_box b \<Longrightarrow> 0 < m_dim b \<Longrightarrow> i < getWtc b \<Longrightarrow> wt (scaleWT a b) i = wt b i * a"
  by (simp add: scaleWT_eq wt_def wf_box_def)

lemma wt_moveIntercept: "wf_box b \<Longrightarrow> 0 < m_dim b \<Longrightarrow> i < getWtc b \<Longrightarrow>
    wt (moveIntercept v b) i = (if i = m_degree b * m_dim b then wt b i + v else wt b i)"
  by (auto simp: moveIntercept_eq wt_def wf_box_def nth_list_update)

lemma maxVal_scaleWT:
  assumes "wf_box b" "0 < m_dim b" "m_degree b \<le> 1" "0 \<le> a"
  shows "maxVal (scaleWT a b) = maxVal b * a" "minVal (scaleWT a b) = minVal b * a"
proof -
  note sr = same_region_facts(6,8,9) [OF same_region_scaleWT [OF assms(1,2), of a]]
  have w: "i < getWtc b \<Longrightarrow> wt (scaleWT a b) i = wt b i * a" for i by (rule wt_scaleWT [OF assms(1,2)])
  have d: "m_degree b = 0 \<or> m_degree b = 1" using assms(3) by linarith
  have x: "wt b d * a * c (if wt b d * a < 0 then l else h) = wt b d * c (if wt b d < 0 then l else h) * a"
    for d l h and c :: "int \<Rightarrow> real"
    using assms(4) by (auto simp: mult_less_0_iff not_less zero_le_mult_iff)
  from d show "maxVal (scaleWT a b) = maxVal b * a"
    by (elim disjE) (auto simp: maxVal_eq sr w getWtc_def maxPt_coord_def distrib_right sum_distrib_right x
        intro!: sum.cong)
  from d show "minVal (scaleWT a b) = minVal b * a"
    by (elim disjE) (auto simp: minVal_eq sr w getWtc_def distrib_right sum_distrib_right x
        intro!: sum.cong)
qed

lemma maxVal_moveIntercept:
  assumes "wf_box b" "0 < m_dim b" "m_degree b \<le> 1"
  shows "maxVal (moveIntercept v b) = maxVal b + v" "minVal (moveIntercept v b) = minVal b + v"
proof -
  note sr = same_region_facts(6,8,9) [OF same_region_moveIntercept [of v b]]
  note w = wt_moveIntercept [OF assms(1,2)]
  have d: "m_degree b = 0 \<or> m_degree b = 1" using assms(3) by linarith
  from d show "maxVal (moveIntercept v b) = maxVal b + v"
    by (elim disjE) (auto simp: maxVal_eq sr w getWtc_def maxPt_coord_def intro!: sum.cong)
  from d show "minVal (moveIntercept v b) = minVal b + v"
    by (elim disjE) (auto simp: minVal_eq sr w getWtc_def intro!: sum.cong)
qed

theorem scaleBounds_bounded:
  assumes "indexed st ps g" "bounded st ps g" "0 \<le> a"
    "\<And>p. p \<in> ps \<Longrightarrow> wf_box (st p) \<and> 0 < m_dim (st p) \<and> m_degree (st p) \<le> 1"
    "\<And>p. p \<in> ps \<Longrightarrow> st' p = scaleWT a (st p)"
  shows "indexed st' ps (scaleBounds a g)" "bounded st' ps (scaleBounds a g)" "same_cut (scaleBounds a g) g"
proof -
  have s: "\<And>p. p \<in> ps \<Longrightarrow> same_region (st' p) (st p)" using assms(4,5) by (simp add: same_region_scaleWT)
  have f: "\<And>p u. p \<in> ps \<Longrightarrow> maxVal (st p) \<le> u \<Longrightarrow> maxVal (st' p) \<le> u * a"
    using assms(3-5) by (simp add: maxVal_scaleWT mult_right_mono)
  note c = change_bounds [where f = "\<lambda>u. u * a", OF assms(1,2) s f scaleBounds_eq [OF indexed_wf [OF assms(1)], of a]]
  show "indexed st' ps (scaleBounds a g)" "bounded st' ps (scaleBounds a g)" "same_cut (scaleBounds a g) g"
    by (rule c, assumption+)+
qed

theorem moveBounds_bounded:
  assumes "indexed st ps g" "bounded st ps g"
    "\<And>p. p \<in> ps \<Longrightarrow> wf_box (st p) \<and> 0 < m_dim (st p) \<and> m_degree (st p) \<le> 1"
    "\<And>p. p \<in> ps \<Longrightarrow> st' p = moveIntercept a (st p)"
  shows "indexed st' ps (moveBounds a g)" "bounded st' ps (moveBounds a g)" "same_cut (moveBounds a g) g"
proof -
  have s: "\<And>p. p \<in> ps \<Longrightarrow> same_region (st' p) (st p)" using assms(4) by (simp add: same_region_moveIntercept)
  have f: "\<And>p u. p \<in> ps \<Longrightarrow> maxVal (st p) \<le> u \<Longrightarrow> maxVal (st' p) \<le> u + a"
    using assms(3,4) by (simp add: maxVal_moveIntercept)
  note c = change_bounds [where f = "\<lambda>u. u + a", OF assms(1,2) s f moveBounds_eq [OF indexed_wf [OF assms(1)], of a]]
  show "indexed st' ps (moveBounds a g)" "bounded st' ps (moveBounds a g)" "same_cut (moveBounds a g) g"
    by (rule c, assumption+)+
qed

section \<open>The same query over linked lists\<close>

text \<open>
  \<open>getBS\<close> as the code runs it, on the nodes of \<open>Box_Set\<close>: the boxes found are added to the end
  of a new \<open>BoxSet\<close>, whose duplicates are removed when the grid has put a box in two cells. It
  returns the list of the model above.
\<close>

definition heap_getBS :: "box_store \<Rightarrow> ivpgrid \<Rightarrow> ivpbox \<Rightarrow> list_state \<Rightarrow> list_state option" where
  "heap_getBS st g b s =
     (case g_grid g of None \<Rightarrow> None
      | Some gr \<Rightarrow>
         foldM (\<lambda>s p. if box_intersect b (st p) then ls_add LAST p s else Some s)
           (fst s, BoxSet_new) (concat (map (\<lambda>ix. gr ! ix) (cells_of g b))) \<bind>
         (\<lambda>s. if dup_flag g then ls_drop_dups s else Some s))"

lemma heap_getBS_refines:
  assumes "ls_inv s" "grid_getBS st g b True = Some r"
  shows "\<exists>s'. heap_getBS st g b s = Some s' \<and> ls_inv s' \<and> ls_seq s' = r"
proof -
  from assms(2) obtain gr where gr: "g_grid g = Some gr" by (auto simp: grid_getBS_def split: option.splits)
  let ?P = "\<lambda>p. box_intersect b (st p)" and ?ps = "concat (map (\<lambda>ix. gr ! ix) (cells_of g b))"
  have r: "r = (if dup_flag g then keep_first {} [p \<leftarrow> ?ps. ?P p] else [p \<leftarrow> ?ps. ?P p])"
    using assms(2) gr by (auto simp: grid_getBS_def Let_def collect_cells filter_concat comp_def)
  show ?thesis
  proof (cases "dup_flag g")
    case True
    with ls.collect_distinct [OF assms(1), of ?P ?ps] gr r show ?thesis by (auto simp: heap_getBS_def)
  next
    case False
    have "ls_inv (fst s, BoxSet_new)" "ls_seq (fst s, BoxSet_new) = []" using ls.empty_law [OF assms(1)] by auto
    with ls.add_filtered [of "(fst s, BoxSet_new)" ?P ?ps] False gr r show ?thesis
      by (auto simp: heap_getBS_def)
  qed
qed

section \<open>Properties\<close>

text \<open>A grid over ten points in two cells, and two pieces, the second one in both cells.\<close>

definition ex_line :: ivpdomain where
  "ex_line = snd (addDomain ''x'' 0 9 10 empty_domain)"

lemma ex_line_facts: "valid_domain ex_line" "dom_size ex_line = 1" "getVarPoints_i ex_line 0 = 10"
  "m_dname ex_line = [''x'']" "m_dlow ex_line = [0]" "m_ddelta ex_line = [1]" "m_dpoints ex_line = [10]"
  unfolding ex_line_def
  by (intro addDomain_valid valid_empty,
      simp_all add: addDomain_def hasDomain_def empty_domain_def dom_size_def getVarPoints_i_def)

definition ex_boxes :: box_store where
  "ex_boxes p = (if p = 0 then ex_box 0 4 1 0 else ex_box 3 9 (-1) 9)"

definition ex_grid0 :: ivpgrid where
  "ex_grid0 = the (initialize (ex_box 0 4 0 0) (IvPGrid_new ex_line True))"

definition ex_grid1 :: ivpgrid where
  "ex_grid1 = the (grid_addBox ex_boxes 0 True True ex_grid0)"

definition ex_grid :: ivpgrid where
  "ex_grid = the (grid_addBox ex_boxes 1 True True ex_grid1)"

lemma empty_grid: "indexed st {} ex_grid0" "bounded st {} ex_grid0" "g_dim ex_grid0 = 1" "DOMAIN_HIGH ex_grid0 ! 0 = 9"
proof -
  obtain g where g: "initialize (ex_box 0 4 0 0) (IvPGrid_new ex_line True) = Some g" "wf_grid g"
    "g_dim g = dom_size ex_line" "boxFlag g = True" "g_empty g" "\<not> dup_flag g"
    "\<forall>d<dom_size ex_line. DOMAIN_HIGH g ! d = int (getVarPoints_i ex_line d) - 1"
    "\<forall>ix<nat (total_grids g). gridUBFresh g ! ix"
    "g_grid g = (if True then Some (replicate (nat (total_grids g)) []) else None)"
    by (rule initialize_wf [of "ex_box 0 4 0 0" ex_line True]) (simp_all add: ex_box_facts ex_line_facts)
  have "ex_grid0 = g" unfolding ex_grid0_def g(1) by simp
  with g show "indexed st {} ex_grid0" "bounded st {} ex_grid0" "g_dim ex_grid0 = 1" "DOMAIN_HIGH ex_grid0 ! 0 = 9"
    by (simp_all add: indexed_def bounded_def ex_line_facts)
qed

lemma ex_reaches: "g_dim g = 1 \<Longrightarrow> reaches_up g (ex_boxes p)"
  by (simp add: reaches_up_def ex_boxes_def ex_box_def pt_def)

lemma ex_grid_ok: "indexed ex_boxes {0} ex_grid1" "bounded ex_boxes {0} ex_grid1" "g_dim ex_grid1 = 1"
  "indexed ex_boxes {0, 1} ex_grid" "bounded ex_boxes {0, 1} ex_grid" "g_dim ex_grid = 1" "DOMAIN_HIGH ex_grid ! 0 = 9"
proof -
  obtain g where g: "grid_addBox ex_boxes 0 True True ex_grid0 = Some g" "indexed ex_boxes (insert 0 {}) g"
    "bounded ex_boxes (insert 0 {}) g" "same_cut g ex_grid0"
    by (rule addBox_indexed [OF empty_grid(1,2) _ ex_reaches [OF empty_grid(3)], of 0]) simp
  have e: "ex_grid1 = g" unfolding ex_grid1_def g(1) by simp
  have d: "g_dim g = 1" "DOMAIN_HIGH g ! 0 = 9" using same_cut_facts(6,9) [OF g(4)] empty_grid by simp_all
  show 1: "indexed ex_boxes {0} ex_grid1" "bounded ex_boxes {0} ex_grid1" "g_dim ex_grid1 = 1" using e g d by auto
  obtain h where h: "grid_addBox ex_boxes 1 True True ex_grid1 = Some h" "indexed ex_boxes (insert 1 {0}) h"
    "bounded ex_boxes (insert 1 {0}) h" "same_cut h ex_grid1"
    by (rule addBox_indexed [OF 1(1,2) _ ex_reaches [OF 1(3)], of 1]) simp
  have "ex_grid = h" unfolding ex_grid_def h(1) by simp
  with h e d same_cut_facts(6,9) [OF h(4)] show "indexed ex_boxes {0, 1} ex_grid" "bounded ex_boxes {0, 1} ex_grid"
    "g_dim ex_grid = 1" "DOMAIN_HIGH ex_grid ! 0 = 9" by (simp_all add: insert_commute)
qed

text \<open>The odometer of \<open>moveToNextGrid\<close>, started at the upper corner, ends and visits every
  cell between the bounds once, the last index first.\<close>

theorem odometer_enumerates:
  "grid_walk bnd (map snd bnd) = all_cells bnd \<and> distinct (all_cells bnd) \<and>
   set (all_cells bnd) = {ix. list_all2 (\<lambda>i b. i = snd b \<or> (fst b \<le> i \<and> i \<le> snd b)) ix bnd}"
proof (intro conjI)
  have "ix \<in> set (all_cells bnd) \<longleftrightarrow> list_all2 (\<lambda>i b. i = snd b \<or> (fst b \<le> i \<and> i \<le> snd b)) ix bnd" for ix
    unfolding set_all_cells set_span by (rule list.rel_cong) auto
  then show "set (all_cells bnd) = {ix. list_all2 (\<lambda>i b. i = snd b \<or> (fst b \<le> i \<and> i \<le> snd b)) ix bnd}" by blast
qed (simp_all add: grid_walk_all distinct_all_cells)

text \<open>The cells the code computes for a box that does not lie below the domain are indices
  into the grid array, none of them twice, and the cell of every point of the box inside the
  domain is among them.\<close>

theorem cells_cover_box:
  assumes "wf_grid g" "reaches_up g b" "m_dim b = g_dim g"
  shows "distinct (cells_of g b) \<and> set (cells_of g b) \<subseteq> {..<length (gridUB g)} \<and>
    (\<forall>p. in_box b p \<and> in_domain g p \<longrightarrow> nat (ix_of g (home g p)) \<in> set (cells_of g b))"
  using distinct_cells_of [OF assms(1,2)] cells_in_range [OF assms(1,2)] home_visited [OF assms(1,3)] assms(1)
  by (auto simp: wf_grid_def)

theorem cells_cover_box_witness:
  "distinct (cells_of ex_grid (ex_boxes 1)) \<and> set (cells_of ex_grid (ex_boxes 1)) \<subseteq> {..<length (gridUB ex_grid)} \<and>
   nat (ix_of ex_grid (home ex_grid (\<lambda>_. 7))) \<in> set (cells_of ex_grid (ex_boxes 1))"
proof -
  have "in_box (ex_boxes 1) (\<lambda>_. 7)" "in_domain ex_grid (\<lambda>_. 7)" "m_dim (ex_boxes 1) = g_dim ex_grid"
    by (simp_all add: ex_boxes_def ex_box_facts in_domain_def ex_grid_ok)
  then show ?thesis
    using cells_cover_box [OF indexed_wf [OF ex_grid_ok(4)] ex_reaches [OF ex_grid_ok(6)], of 1] by blast
qed

text \<open>C22: \<open>addBox\<close> on a grid that indexes the boxes \<open>ps\<close> makes it index one more, with the bound of
  every cell of a box at least the box's largest value; the largest point and value kept by the
  grid are those of the best box seen.\<close>

theorem addBox_keeps_index:
  assumes "indexed st ps g" "bounded st ps g" "p \<notin> ps" "reaches_up g (st p)"
  shows "\<exists>g'. grid_addBox st p True True g = Some g' \<and> indexed st (insert p ps) g' \<and>
    bounded st (insert p ps) g' \<and> \<not> g_empty g' \<and>
    g_maxval g' = (if g_empty g \<or> maxVal (st p) > g_maxval g then maxVal (st p) else g_maxval g)"
  using addBox_indexed [OF assms] by metis

theorem addBox_keeps_index_witness:
  "\<exists>g'. grid_addBox ex_boxes 1 True True ex_grid1 = Some g' \<and> indexed ex_boxes (insert 1 {0}) g' \<and>
    bounded ex_boxes (insert 1 {0}) g' \<and> \<not> g_empty g' \<and>
    g_maxval g' = (if g_empty ex_grid1 \<or> maxVal (ex_boxes 1) > g_maxval ex_grid1 then maxVal (ex_boxes 1)
                   else g_maxval ex_grid1)"
  by (rule addBox_keeps_index) (simp_all add: ex_grid_ok(1,2) ex_reaches [OF ex_grid_ok(3)])

text \<open>\<open>remBox\<close> makes the grid index all boxes but one; the bounds of the others still hold.\<close>

theorem remBox_keeps_index:
  assumes "indexed st ps g" "bounded st ps g" "reaches_up g (st p)"
  shows "\<exists>g'. remBox st p g = Some g' \<and> indexed st (ps - {p}) g' \<and> bounded st (ps - {p}) g'"
  using remBox_indexed [OF assms] by metis

theorem remBox_keeps_index_witness:
  "\<exists>g'. remBox ex_boxes 0 ex_grid = Some g' \<and> indexed ex_boxes ({0, 1} - {0}) g' \<and>
     bounded ex_boxes ({0, 1} - {0}) g'"
  by (rule remBox_keeps_index [OF ex_grid_ok(4,5)]) (rule ex_reaches [OF ex_grid_ok(6)])

text \<open>C20: \<open>getBS\<close> returns no box twice; with the intersection check every box it returns
  intersects the query, and every indexed box that shares a domain point with the query is
  returned. \<open>getBS_Thresh\<close> returns those of them whose largest value is below the threshold.\<close>

theorem query_finds_sharing_boxes:
  assumes "indexed st ps g" "reaches_up g q" "m_dim q = g_dim g" "\<forall>p\<in>ps. m_dim (st p) = g_dim g"
  shows "\<exists>r rt. grid_getBS st g q True = Some r \<and> getBS_Thresh st g q thresh = Some rt \<and>
    distinct r \<and> distinct rt \<and> set r \<subseteq> {p \<in> ps. box_intersect q (st p)} \<and>
    (\<forall>p x. p \<in> ps \<and> in_domain g x \<and> in_box q x \<and> in_box (st p) x \<longrightarrow> p \<in> set r) \<and>
    set rt = {p \<in> set r. maxVal (st p) < thresh}"
proof -
  obtain r where r: "grid_getBS st g q True = Some r" "distinct r"
    "set r = {p \<in> ps. meet g q (st p) \<and> (True \<longrightarrow> box_intersect q (st p))}" by (rule getBS_result [OF assms(1,2)])
  obtain rt where rt: "getBS_Thresh st g q thresh = Some rt" "distinct rt"
    "set rt = {p \<in> ps. meet g q (st p) \<and> maxVal (st p) < thresh \<and> box_intersect q (st p)}"
    by (rule getBS_Thresh_result [OF assms(1,2)])
  have "p \<in> set r" if "p \<in> ps" "in_domain g x" "in_box q x" "in_box (st p) x" for p x
    using meet_point [OF indexed_wf [OF assms(1)] that(2-4)] box_intersect_complete [of q x "st p"] that assms(3,4) r(3)
    by simp
  with r rt show ?thesis by (intro exI [of _ r] exI [of _ rt]) auto
qed

theorem query_finds_sharing_boxes_witness:
  "\<exists>r rt. grid_getBS ex_boxes ex_grid (ex_box 2 3 0 0) True = Some r \<and>
    getBS_Thresh ex_boxes ex_grid (ex_box 2 3 0 0) 5 = Some rt \<and>
    distinct r \<and> distinct rt \<and> set r \<subseteq> {p \<in> {0, 1}. box_intersect (ex_box 2 3 0 0) (ex_boxes p)} \<and>
    (\<forall>p x. p \<in> {0, 1} \<and> in_domain ex_grid x \<and> in_box (ex_box 2 3 0 0) x \<and> in_box (ex_boxes p) x \<longrightarrow> p \<in> set r) \<and>
    set rt = {p \<in> set r. maxVal (ex_boxes p) < 5}"
  by (rule query_finds_sharing_boxes [OF ex_grid_ok(4)])
    (simp_all add: ex_grid_ok reaches_up_def ex_box_def pt_def ex_boxes_def)

text \<open>C19: \<open>getCheapBound\<close> of a query is at least the largest value of every indexed box that
  shares a domain point with it.\<close>

theorem cheap_bound_holds:
  assumes "indexed st ps g" "bounded st ps g" "p \<in> ps" "in_domain g x" "in_box q x" "in_box (st p) x"
    "m_dim q = g_dim g" "m_dim (st p) = g_dim g"
  shows "maxVal (st p) \<le> getCheapBound g q"
  by (rule getCheapBound_upper [OF assms(2,3) meet_point [OF indexed_wf [OF assms(1)] assms(4-8)]])

theorem cheap_bound_holds_witness: "maxVal (ex_boxes 1) \<le> getCheapBound ex_grid (ex_box 2 3 0 0)"
  by (rule cheap_bound_holds [OF ex_grid_ok(4,5), where x = "\<lambda>_. 3"])
    (simp_all add: ex_grid_ok in_domain_def ex_box_facts ex_boxes_def)



text \<open>Without a query box \<open>getCheapBound\<close> skips the first cell and never takes note that it has
  a first bound: it returns the bound of the last filled cell, which need not be the largest.\<close>

theorem whole_grid_bound_is_last:
  "getCheapBound_all g =
     (case rev [ix \<leftarrow> [1..<nat (total_grids g)]. \<not> gridUBFresh g ! ix] of [] \<Rightarrow> -99999 | ix # _ \<Rightarrow> gridUB g ! ix)"
proof -
  have "foldl (\<lambda>result ix. if \<not> gridUBFresh g ! ix \<and> (True \<or> gridUB g ! ix > result) then gridUB g ! ix else result)
      a is = (case rev [ix \<leftarrow> is. \<not> gridUBFresh g ! ix] of [] \<Rightarrow> a | ix # _ \<Rightarrow> gridUB g ! ix)" for a "is"
    by (induction "is" rule: rev_induct) auto
  then show ?thesis by (simp add: getCheapBound_all_def)
qed

end
