(* ===== verification/PD_Map.thy ===== *)
theory PD_Map
  imports IvP_Grid
begin

text \<open>
  Piecewise defined functions: \<open>PDMap.h\<close> and \<open>PDMap.cpp\<close> of \<open>src/ivp/src/lib_ivpcore\<close>. A map owns
  the boxes that its array points to; \<open>pd_store\<close> holds them and \<open>pd_next\<close> is the next free
  pointer. A null entry of the array is \<open>None\<close>, and to call a method on it is \<open>None\<close> in the
  result. The grid, once built, holds pointers to the same boxes.
\<close>

section \<open>The map and its operations\<close>

record pdmap =
  pd_domain :: ivpdomain
  m_boxes :: "box_ptr option list"
  m_boxCount :: nat
  pd_degree :: nat
  m_gelbox :: ivpbox
  m_grid :: "ivpgrid option"
  pd_store :: box_store
  pd_next :: box_ptr

definition pd_dim :: "pdmap \<Rightarrow> nat" where
  "pd_dim pd = dom_size (pd_domain pd)"

text \<open>The box spans the domain in every dimension: the default gel box, and the universe.\<close>

definition spanning_box :: "ivpdomain \<Rightarrow> int \<Rightarrow> ivpbox" where
  "spanning_box D degree =
     foldl (\<lambda>b d. setPTS d 0 (int (getVarPoints_i D d) - 1) b)
       (IvPBox_new (int (dom_size D)) degree) [0..<dom_size D]"

definition PDMap_new :: "nat \<Rightarrow> ivpdomain \<Rightarrow> int \<Rightarrow> pdmap option" where
  "PDMap_new g_boxCount g_domain g_degree =
     (if g_degree < 0 then None
      else Some \<lparr>pd_domain = g_domain, m_boxes = replicate g_boxCount None, m_boxCount = g_boxCount,
                 pd_degree = nat g_degree, m_gelbox = spanning_box g_domain 1, m_grid = None,
                 pd_store = (\<lambda>_. IvPBox_new 0 1), pd_next = 0\<rparr>)"

text \<open>A call \<open>m_boxes[i]->f()\<close> follows the pointer of the entry.\<close>

definition box_at :: "pdmap \<Rightarrow> nat \<Rightarrow> box_ptr option" where
  "box_at pd i = m_boxes pd ! i"

definition bx_new :: "nat \<Rightarrow> ivpbox \<Rightarrow> pdmap \<Rightarrow> pdmap" where
  "bx_new i b pd =
     pd\<lparr>m_boxes := (m_boxes pd)[i := Some (pd_next pd)],
        pd_store := (pd_store pd)(pd_next pd := b), pd_next := pd_next pd + 1\<rparr>"

text \<open>Building the grid and adding all boxes, as the copy constructor and \<open>updateGrid\<close> do.\<close>

definition fill_grid :: "bool \<Rightarrow> bool \<Rightarrow> pdmap \<Rightarrow> ivpgrid option" where
  "fill_grid BX UB pd =
     initialize (m_gelbox pd) (IvPGrid_new (pd_domain pd) BX) \<bind>
     (\<lambda>g. foldM (\<lambda>g i. box_at pd i \<bind> (\<lambda>p. grid_addBox (pd_store pd) p BX UB g)) g
            [0..<m_boxCount pd])"

definition PDMap_copy :: "pdmap \<Rightarrow> pdmap option" where
  "PDMap_copy pdmap =
     foldM (\<lambda>pd i. box_at pdmap i \<bind> (\<lambda>p. box_copy (pd_store pdmap p) \<bind>
             (\<lambda>b. Some (bx_new i b pd))))
       \<lparr>pd_domain = pd_domain pdmap, m_boxes = replicate (m_boxCount pdmap) None,
        m_boxCount = m_boxCount pdmap, pd_degree = pd_degree pdmap, m_gelbox = m_gelbox pdmap,
        m_grid = None, pd_store = (\<lambda>_. IvPBox_new 0 1), pd_next = 0\<rparr> [0..<m_boxCount pdmap] \<bind>
     (\<lambda>pd. fill_grid True True pd \<bind> (\<lambda>g. Some (pd\<lparr>m_grid := Some g\<rparr>)))"

definition getIX :: "pdmap \<Rightarrow> ivpbox \<Rightarrow> int option" where
  "getIX pd gbox =
     (case m_grid pd of None \<Rightarrow> None
      | Some g \<Rightarrow> grid_getBS (pd_store pd) g gbox True \<bind>
          (\<lambda>bs. case bs of [] \<Rightarrow> None | p # _ \<Rightarrow> Some (m_of (pd_store pd p))))"

text \<open>Changing every box in place.\<close>

definition on_boxes :: "(ivpbox \<Rightarrow> ivpbox option) \<Rightarrow> pdmap \<Rightarrow> pdmap option" where
  "on_boxes f pd =
     foldM (\<lambda>pd i. box_at pd i \<bind> (\<lambda>p. f (pd_store pd p) \<bind>
             (\<lambda>b. Some (pd\<lparr>pd_store := (pd_store pd)(p := b)\<rparr>)))) pd [0..<m_boxCount pd]"

definition applyWeight :: "real \<Rightarrow> pdmap \<Rightarrow> pdmap option" where
  "applyWeight weight pd =
     on_boxes (\<lambda>b. Some (scaleWT weight b)) pd \<bind>
     (\<lambda>pd. Some (pd\<lparr>m_grid := map_option (scaleBounds weight) (m_grid pd)\<rparr>))"

definition applyScalar :: "real \<Rightarrow> pdmap \<Rightarrow> pdmap option" where
  "applyScalar scalar_val pd =
     on_boxes (\<lambda>b. Some (moveIntercept scalar_val b)) pd \<bind>
     (\<lambda>pd. Some (pd\<lparr>m_grid := map_option (moveBounds scalar_val) (m_grid pd)\<rparr>))"

text \<open>The loops that keep the smallest and the largest value of all boxes.\<close>

definition getMinWT :: "pdmap \<Rightarrow> real option" where
  "getMinWT pd =
     (if m_boxCount pd = 0 then Some 0
      else box_at pd 0 \<bind> (\<lambda>p0. foldM (\<lambda>minWeight i. box_at pd i \<bind>
             (\<lambda>p. let lowVal = minVal (pd_store pd p)
                  in Some (if lowVal < minWeight then lowVal else minWeight)))
           (minVal (pd_store pd p0)) [1..<m_boxCount pd]))"

definition getMaxWT :: "pdmap \<Rightarrow> real option" where
  "getMaxWT pd =
     (if m_boxCount pd = 0 then Some 0
      else box_at pd 0 \<bind> (\<lambda>p0. foldM (\<lambda>maxWeight i. box_at pd i \<bind>
             (\<lambda>p. let highVal = maxVal (pd_store pd p)
                  in Some (if highVal > maxWeight then highVal else maxWeight)))
           (maxVal (pd_store pd p0)) [1..<m_boxCount pd]))"

definition normalize :: "real \<Rightarrow> real \<Rightarrow> pdmap \<Rightarrow> pdmap option" where
  "normalize target_base target_range pd =
     getMinWT pd \<bind> (\<lambda>existing_base. getMaxWT pd \<bind> (\<lambda>existing_max.
       let existing_range = existing_max - existing_base
       in if existing_range \<le> 0 then Some pd
          else applyScalar (target_base - existing_base) pd \<bind>
               applyWeight (target_range / existing_range)))"

text \<open>Without a grid every box is tried; \<open>addBox\<close> puts a box first by default.\<close>

definition pd_getBS :: "pdmap \<Rightarrow> ivpbox \<Rightarrow> box_ptr list option" where
  "pd_getBS pd qbox =
     (case m_grid pd of Some g \<Rightarrow> grid_getBS (pd_store pd) g qbox True
      | None \<Rightarrow> foldM (\<lambda>bs i. box_at pd i \<bind>
            (\<lambda>p. Some (if box_intersect qbox (pd_store pd p) then p # bs else bs)))
          [] [0..<m_boxCount pd])"

definition getUniverse :: "pdmap \<Rightarrow> ivpbox" where
  "getUniverse pd = spanning_box (pd_domain pd) (int (pd_degree pd))"

section \<open>Gel boxes and the grid\<close>

definition setGelBox :: "ivpbox \<Rightarrow> pdmap \<Rightarrow> pdmap option" where
  "setGelBox b pd =
     (if dom_size (pd_domain pd) = m_dim b \<and>
         list_all (\<lambda>d. pt b d 0 \<le> pt b d 1 \<and> 0 \<le> pt b d 0 \<and>
                       pt b d 1 \<le> int (getVarPoints_i (pd_domain pd) d) - 1) [0..<m_dim b]
      then Some (pd\<lparr>m_gelbox := b\<rparr>) else None)"

text \<open>The loop \<open>while(gels <= maxGels)\<close>; \<open>gels\<close> is always \<open>gpe ^ dim\<close>.\<close>

function gpe_loop :: "nat \<Rightarrow> nat \<Rightarrow> nat \<Rightarrow> nat" where
  "gpe_loop ndim maxGels gpe =
     (if ndim = 0 then gpe
      else if gpe ^ ndim \<le> maxGels then gpe_loop ndim maxGels (gpe + 1) else gpe)"
  by pat_completeness auto

termination
proof (relation "measure (\<lambda>(d, mx, gpe). mx + 1 - gpe)", goal_cases)
  case (2 d mx gpe)
  then have "gpe \<le> gpe ^ d" by (cases gpe) (auto intro: self_le_power)
  with 2 show ?case by auto
qed simp

declare gpe_loop.simps [simp del]

definition max_gels :: "nat \<Rightarrow> nat \<Rightarrow> nat" where
  "max_gels count ndim =
     (let m = count div 4; m1 = (if m < 2 ^ ndim then 2 ^ ndim else m)
      in if m1 > 40000 then 40000 else m1)"

definition gel_size :: "nat \<Rightarrow> nat \<Rightarrow> nat" where
  "gel_size varsize gpe =
     (let gelsze = varsize div gpe + (if varsize mod gpe \<noteq> 0 then 1 else 0)
      in if varsize < gelsze then varsize else gelsze)"

definition setGelBox_default :: "pdmap \<Rightarrow> pdmap" where
  "setGelBox_default pd =
     (let ndim = dom_size (pd_domain pd)
      in if ndim < 1 then pd
         else let gpe = gpe_loop ndim (max_gels (m_boxCount pd) ndim) 1
              in pd\<lparr>m_gelbox := foldl (\<lambda>b d. let gelsze = int (gel_size (getVarPoints_i (pd_domain pd) d) gpe)
                                       in setPTS d gelsze gelsze b)
                        (IvPBox_new (int ndim) 0) [0..<ndim]\<rparr>)"

definition updateGrid :: "bool \<Rightarrow> bool \<Rightarrow> pdmap \<Rightarrow> pdmap option" where
  "updateGrid BX UB pd =
     (let pd1 = (if m_dim (m_gelbox pd) = 0 then setGelBox_default pd else pd)
      in fill_grid BX UB pd1 \<bind> (\<lambda>g. Some (pd1\<lparr>m_grid := Some g\<rparr>)))"

section \<open>Evaluation at a point\<close>

definition eval_scan :: "pdmap \<Rightarrow> ivpbox \<Rightarrow> nat list \<Rightarrow> (real \<times> bool) option" where
  "eval_scan pd gbox is =
     foldr (\<lambda>i rest. box_at pd i \<bind>
         (\<lambda>p. if box_intersect gbox (pd_store pd p)
              then ptVal (pd_store pd p) gbox \<bind> (\<lambda>v. Some (v, True)) else rest))
       is (Some (0, False))"

text \<open>
  The argument \<open>covered\<close> is the flag on entry and the second component the flag on return. With
  several boxes in the result the loop counts those that hold the point; each time it evaluates
  the first box of the list.
\<close>

definition evalPoint :: "pdmap \<Rightarrow> ivpbox \<Rightarrow> bool \<Rightarrow> (real \<times> bool) option" where
  "evalPoint pd gbox covered =
     (if m_boxCount pd = 0 then Some (0, covered)
      else if \<not> isPtBox gbox then Some (0, False)
      else case m_grid pd of
        None \<Rightarrow> eval_scan pd gbox [0..<m_boxCount pd]
      | Some g \<Rightarrow> grid_getBS (pd_store pd) g gbox True \<bind>
          (\<lambda>bs. case bs of [] \<Rightarrow> Some (0, False)
             | p # ps \<Rightarrow>
                 if ps \<noteq> []
                 then foldM (\<lambda>(numHits, retVal) q.
                        if box_intersect gbox (pd_store pd q)
                        then ptVal (pd_store pd p) gbox \<bind> (\<lambda>v. Some (numHits + 1, v))
                        else Some (numHits, retVal)) (0::nat, 0) bs \<bind>
                      (\<lambda>(numHits, retVal). Some (if numHits \<noteq> 1 then (0, False) else (retVal, True)))
                 else ptVal (pd_store pd p) gbox \<bind> (\<lambda>v. Some (v, True))))"

section \<open>Changing the array and the domain\<close>

definition growBoxArray :: "nat \<Rightarrow> pdmap \<Rightarrow> pdmap" where
  "growBoxArray amt pd =
     pd\<lparr>m_boxes := map (\<lambda>i. m_boxes pd ! i) [0..<m_boxCount pd] @ replicate amt None\<rparr>"

definition growBoxCount :: "nat \<Rightarrow> pdmap \<Rightarrow> pdmap" where
  "growBoxCount i pd = pd\<lparr>m_boxCount := m_boxCount pd + i\<rparr>"

definition pd_transDomain :: "ivpdomain \<Rightarrow> nat list \<Rightarrow> pdmap \<Rightarrow> pdmap option" where
  "pd_transDomain gdomain newPlacement pd =
     (let oldDim = dom_size (pd_domain pd); newDim = dom_size gdomain;
          edges = int newDim - int oldDim
      in box_transDomain edges newPlacement (m_gelbox pd) \<bind> (\<lambda>gelbox.
         on_boxes (box_transDomain edges newPlacement) (pd\<lparr>m_gelbox := gelbox\<rparr>) \<bind> (\<lambda>pd1.
         let setFlag = foldl (\<lambda>fs i. fs[newPlacement ! i := False]) (replicate newDim True) [0..<oldDim];
             fill = (\<lambda>b. foldl (\<lambda>b i. if setFlag ! i
                        then setPTS i 0 (int (getVarPoints_i gdomain i) - 1) b else b) b [0..<newDim])
         in on_boxes (\<lambda>b. Some (fill b)) (pd1\<lparr>m_gelbox := fill (m_gelbox pd1)\<rparr>) \<bind> (\<lambda>pd2.
            if \<not> list_all (\<lambda>i. newPlacement ! i < newDim) [0..<oldDim] then None
            else let pd3 = pd2\<lparr>pd_domain := gdomain\<rparr>
                 in if m_grid pd3 \<noteq> None then updateGrid True True pd3 else Some pd3))))"

definition removeNULLs :: "pdmap \<Rightarrow> pdmap option" where
  "removeNULLs pd =
     (let bs = map (\<lambda>i. m_boxes pd ! i) [0..<m_boxCount pd];
          nullCount = length [b \<leftarrow> bs. b = None]
      in if nullCount = 0 then Some pd
         else updateGrid True True
           (pd\<lparr>m_boxes := [b \<leftarrow> bs. b \<noteq> None], m_boxCount := m_boxCount pd - nullCount\<rparr>))"

section \<open>Well-formed maps\<close>

definition ptrs :: "pdmap \<Rightarrow> box_ptr list" where
  "ptrs pd = map (\<lambda>i. the (m_boxes pd ! i)) [0..<m_boxCount pd]"

definition pieces :: "pdmap \<Rightarrow> ivpbox list" where
  "pieces pd = map (pd_store pd) (ptrs pd)"

definition good_piece :: "ivpdomain \<Rightarrow> nat \<Rightarrow> ivpbox \<Rightarrow> bool" where
  "good_piece D deg b \<longleftrightarrow> wf_box b \<and> m_dim b = dom_size D \<and> m_degree b = deg \<and>
     (\<forall>d<dom_size D. 0 \<le> pt b d 0 \<and> pt b d 0 \<le> pt b d 1 \<and> pt b d 1 \<le> int (getVarPoints_i D d) - 1)"

definition good_domain :: "ivpdomain \<Rightarrow> bool" where
  "good_domain D \<longleftrightarrow> valid_domain D \<and> 0 < dom_size D \<and> dom_size D < 2 ^ 16"

text \<open>The array is filled with distinct pointers.\<close>

definition filled :: "pdmap \<Rightarrow> bool" where
  "filled pd \<longleftrightarrow> m_boxCount pd \<le> length (m_boxes pd) \<and>
     (\<forall>i<m_boxCount pd. m_boxes pd ! i \<noteq> None \<and> the (m_boxes pd ! i) < pd_next pd) \<and>
     distinct (ptrs pd)"

definition grid_for :: "ivpdomain \<Rightarrow> box_store \<Rightarrow> box_ptr set \<Rightarrow> ivpgrid \<Rightarrow> bool" where
  "grid_for D st ps g \<longleftrightarrow> indexed st ps g \<and> bounded st ps g \<and> g_dim g = dom_size D \<and>
     (\<forall>d<dom_size D. DOMAIN_HIGH g ! d = int (getVarPoints_i D d) - 1)"

definition wf_pdmap :: "pdmap \<Rightarrow> bool" where
  "wf_pdmap pd \<longleftrightarrow> good_domain (pd_domain pd) \<and> pd_degree pd \<le> 1 \<and> filled pd \<and>
     (\<forall>b\<in>set (pieces pd). good_piece (pd_domain pd) (pd_degree pd) b) \<and>
     wf_box (m_gelbox pd) \<and> m_dim (m_gelbox pd) = dom_size (pd_domain pd) \<and> m_degree (m_gelbox pd) \<le> 1 \<and>
     (\<forall>g. m_grid pd = Some g \<longrightarrow> grid_for (pd_domain pd) (pd_store pd) (set (ptrs pd)) g)"

lemma wf_pdmapD:
  assumes "wf_pdmap pd"
  shows "good_domain (pd_domain pd)" "pd_degree pd \<le> 1" "filled pd"
    "b \<in> set (pieces pd) \<Longrightarrow> good_piece (pd_domain pd) (pd_degree pd) b"
    "wf_box (m_gelbox pd)" "m_dim (m_gelbox pd) = dom_size (pd_domain pd)" "m_degree (m_gelbox pd) \<le> 1"
    "m_grid pd = Some g \<Longrightarrow> grid_for (pd_domain pd) (pd_store pd) (set (ptrs pd)) g"
  using assms by (auto simp: wf_pdmap_def)

lemma good_domain_points: "good_domain D \<Longrightarrow> i < dom_size D \<Longrightarrow> 1 \<le> getVarPoints_i D i"
  by (auto simp: good_domain_def valid_domain_def valid_var_def getVarPoints_i_def dom_size_def)

lemma good_pieceD:
  assumes "good_piece D deg b" "good_domain D"
  shows "wf_box b" "0 < m_dim b" "m_dim b = dom_size D" "m_degree b = deg" "ordered_box b"
  using assms by (auto simp: good_piece_def good_domain_def ordered_box_def)

lemma length_ptrs [simp]: "length (ptrs pd) = m_boxCount pd"
  by (simp add: ptrs_def)

lemma length_pieces [simp]: "length (pieces pd) = m_boxCount pd"
  by (simp add: pieces_def)

lemma box_at_ptrs: "filled pd \<Longrightarrow> i < m_boxCount pd \<Longrightarrow> box_at pd i = Some (ptrs pd ! i)"
  by (auto simp: box_at_def filled_def ptrs_def)

lemma pieces_nth: "i < m_boxCount pd \<Longrightarrow> pieces pd ! i = pd_store pd (ptrs pd ! i)"
  by (simp add: pieces_def)

lemma ptrs_update [simp]:
  "ptrs (pd\<lparr>pd_store := st\<rparr>) = ptrs pd" "ptrs (pd\<lparr>m_grid := g\<rparr>) = ptrs pd"
  "ptrs (pd\<lparr>m_gelbox := gb\<rparr>) = ptrs pd" "ptrs (pd\<lparr>pd_domain := D\<rparr>) = ptrs pd"
  by (simp_all add: ptrs_def)

lemma filled_update [simp]:
  "filled (pd\<lparr>pd_store := st\<rparr>) = filled pd" "filled (pd\<lparr>m_grid := g\<rparr>) = filled pd"
  "filled (pd\<lparr>m_gelbox := gb\<rparr>) = filled pd" "filled (pd\<lparr>pd_domain := D\<rparr>) = filled pd"
  by (simp_all add: filled_def)

lemma pieces_update [simp]:
  "pieces (pd\<lparr>m_grid := g\<rparr>) = pieces pd" "pieces (pd\<lparr>m_gelbox := gb\<rparr>) = pieces pd"
  "pieces (pd\<lparr>pd_domain := D\<rparr>) = pieces pd"
  "pieces (pd\<lparr>pd_store := st\<rparr>) = map st (ptrs pd)"
  by (simp_all add: pieces_def)

section \<open>Loops over the boxes\<close>

lemma on_boxes_prefix:
  assumes "filled pd" "n \<le> m_boxCount pd" "\<And>p. p \<in> set (ptrs pd) \<Longrightarrow> f (pd_store pd p) = Some (h (pd_store pd p))"
  shows "foldM (\<lambda>pd i. box_at pd i \<bind> (\<lambda>p. f (pd_store pd p) \<bind>
             (\<lambda>b. Some (pd\<lparr>pd_store := (pd_store pd)(p := b)\<rparr>)))) pd [0..<n] =
    Some (pd\<lparr>pd_store := (\<lambda>p. if p \<in> set (take n (ptrs pd)) then h (pd_store pd p) else pd_store pd p)\<rparr>)"
  using assms(2)
proof (induction n)
  case 0
  then show ?case by simp
next
  case (Suc n)
  let ?st = "\<lambda>n p. if p \<in> set (take n (ptrs pd)) then h (pd_store pd p) else pd_store pd p"
  let ?p = "ptrs pd ! n"
  have n: "n < length (ptrs pd)" using Suc.prems by simp
  have d: "distinct (ptrs pd)" using assms(1) by (simp add: filled_def)
  have fresh: "?p \<notin> set (take n (ptrs pd))"
    using d n by (auto simp: in_set_conv_nth nth_eq_iff_index_eq)
  have "(?st n)(?p := h (pd_store pd ?p)) = ?st (Suc n)"
    using fresh n by (auto simp: take_Suc_conv_app_nth fun_eq_iff)
  moreover have "box_at (pd\<lparr>pd_store := ?st n\<rparr>) n = Some ?p"
    using box_at_ptrs [of "pd\<lparr>pd_store := ?st n\<rparr>" n] assms(1) n by simp
  moreover have "f (pd_store pd ?p) = Some (h (pd_store pd ?p))" using assms(3) n by simp
  ultimately show ?case using Suc fresh by (simp add: foldM_append del: fun_upd_apply)
qed

lemma on_boxes_Some:
  assumes "filled pd" "\<And>p. p \<in> set (ptrs pd) \<Longrightarrow> f (pd_store pd p) = Some (h (pd_store pd p))"
  shows "on_boxes f pd =
    Some (pd\<lparr>pd_store := (\<lambda>p. if p \<in> set (ptrs pd) then h (pd_store pd p) else pd_store pd p)\<rparr>)"
  using on_boxes_prefix [OF assms(1) order.refl, of f h] assms(2) by (simp add: on_boxes_def)

lemma on_boxes_run:
  assumes "filled pd" "pd_store pd = st" "ptrs pd = ps" "\<And>p. p \<in> set ps \<Longrightarrow> f (st p) = Some (h (st p))"
  shows "on_boxes f pd = Some (pd\<lparr>pd_store := (\<lambda>p. if p \<in> set ps then h (st p) else st p)\<rparr>)"
  using on_boxes_Some [OF assms(1), of f h, unfolded assms(2,3)] assms(4) by blast

lemma pieces_on_boxes:
  "pieces (pd\<lparr>pd_store := (\<lambda>p. if p \<in> set (ptrs pd) then h (pd_store pd p) else pd_store pd p)\<rparr>) =
   map h (pieces pd)"
  by (simp add: pieces_def)

text \<open>Filling a grid: it indexes the boxes of the array.\<close>

lemma fill_prefix:
  assumes "filled pd" "n \<le> m_boxCount pd" "indexed (pd_store pd) {} g0" "bounded (pd_store pd) {} g0"
    "\<And>p. p \<in> set (ptrs pd) \<Longrightarrow> reaches_up g0 (pd_store pd p)"
  obtains g where "foldM (\<lambda>g i. box_at pd i \<bind> (\<lambda>p. grid_addBox (pd_store pd) p True True g)) g0 [0..<n] = Some g"
    "indexed (pd_store pd) (set (take n (ptrs pd))) g" "bounded (pd_store pd) (set (take n (ptrs pd))) g"
    "same_cut g g0"
  using assms(2)
proof (induction n arbitrary: thesis)
  case 0
  then show ?case using assms(3,4) by simp
next
  case (Suc n)
  let ?p = "ptrs pd ! n"
  obtain g where g: "foldM (\<lambda>g i. box_at pd i \<bind> (\<lambda>p. grid_addBox (pd_store pd) p True True g)) g0 [0..<n] = Some g"
    "indexed (pd_store pd) (set (take n (ptrs pd))) g" "bounded (pd_store pd) (set (take n (ptrs pd))) g"
    "same_cut g g0" using Suc.IH Suc.prems(2) by auto
  have n: "n < length (ptrs pd)" using Suc.prems(2) by simp
  have fresh: "?p \<notin> set (take n (ptrs pd))"
    using assms(1) n by (auto simp: filled_def in_set_conv_nth nth_eq_iff_index_eq)
  have "reaches_up g (pd_store pd ?p)" using assms(5) n same_cut_facts(2) [OF g(4)] by simp
  from addBox_indexed [OF g(2,3) fresh this] obtain g' where g':
    "grid_addBox (pd_store pd) ?p True True g = Some g'"
    "indexed (pd_store pd) (insert ?p (set (take n (ptrs pd)))) g'"
    "bounded (pd_store pd) (insert ?p (set (take n (ptrs pd)))) g'" "same_cut g' g" by metis
  have "insert ?p (set (take n (ptrs pd))) = set (take (Suc n) (ptrs pd))"
    using n by (simp add: take_Suc_conv_app_nth)
  with Suc.prems(1) [of g'] g g' box_at_ptrs [OF assms(1), of n] n same_cut_trans show ?case
    by (simp add: foldM_append)
qed

lemma good_piece_reaches: "good_piece D deg b \<Longrightarrow> g_dim g = dom_size D \<Longrightarrow> reaches_up g b"
  by (fastforce simp: good_piece_def reaches_up_def)

theorem fill_grid_for:
  assumes "filled pd" "good_domain (pd_domain pd)" "m_dim (m_gelbox pd) = dom_size (pd_domain pd)"
    "\<forall>b\<in>set (pieces pd). good_piece (pd_domain pd) (pd_degree pd) b"
  obtains g where "fill_grid True True pd = Some g"
    "grid_for (pd_domain pd) (pd_store pd) (set (ptrs pd)) g"
proof -
  have pts: "\<forall>i<dom_size (pd_domain pd). 1 \<le> getVarPoints_i (pd_domain pd) i"
    using good_domain_points [OF assms(2)] by blast
  obtain g0 where g0: "initialize (m_gelbox pd) (IvPGrid_new (pd_domain pd) True) = Some g0" "wf_grid g0"
    "g_dim g0 = dom_size (pd_domain pd)" "boxFlag g0"
    "\<forall>d<dom_size (pd_domain pd). DOMAIN_HIGH g0 ! d = int (getVarPoints_i (pd_domain pd) d) - 1"
    "g_grid g0 = Some (replicate (nat (total_grids g0)) [])"
    using initialize_wf [OF assms(3) pts, of True] by (metis (full_types))
  have i0: "indexed (pd_store pd) {} g0" "bounded (pd_store pd) {} g0"
    using g0 by (auto simp: indexed_def bounded_def)
  have r: "p \<in> set (ptrs pd) \<Longrightarrow> reaches_up g0 (pd_store pd p)" for p
    using assms(4) g0(3) by (auto simp: pieces_def intro: good_piece_reaches)
  obtain g where g: "foldM (\<lambda>g i. box_at pd i \<bind> (\<lambda>p. grid_addBox (pd_store pd) p True True g)) g0
      [0..<m_boxCount pd] = Some g"
    "indexed (pd_store pd) (set (take (m_boxCount pd) (ptrs pd))) g"
    "bounded (pd_store pd) (set (take (m_boxCount pd) (ptrs pd))) g" "same_cut g g0"
    by (rule fill_prefix [OF assms(1) order.refl i0 r])
  show ?thesis
  proof (rule that)
    show "fill_grid True True pd = Some g" using g0(1) g(1) by (simp add: fill_grid_def)
    show "grid_for (pd_domain pd) (pd_store pd) (set (ptrs pd)) g"
      using g(2,3) g0(3,5) same_cut_facts [OF g(4)] by (simp add: grid_for_def)
  qed
qed

section \<open>Rebuilding the grid, weights and normalisation\<close>

definition wf_core :: "pdmap \<Rightarrow> bool" where
  "wf_core pd \<longleftrightarrow> wf_pdmap (pd\<lparr>m_grid := None\<rparr>)"

lemma wf_core: "wf_pdmap pd \<Longrightarrow> wf_core pd"
  by (simp add: wf_core_def wf_pdmap_def)

lemma wf_coreD:
  assumes "wf_core pd"
  shows "good_domain (pd_domain pd)" "pd_degree pd \<le> 1" "filled pd"
    "\<forall>b\<in>set (pieces pd). good_piece (pd_domain pd) (pd_degree pd) b"
    "wf_box (m_gelbox pd)" "m_dim (m_gelbox pd) = dom_size (pd_domain pd)" "m_degree (m_gelbox pd) \<le> 1"
  using assms by (simp_all add: wf_core_def wf_pdmap_def)

lemma wf_pdmap_split: "wf_pdmap pd \<longleftrightarrow> wf_core pd \<and>
    (\<forall>g. m_grid pd = Some g \<longrightarrow> grid_for (pd_domain pd) (pd_store pd) (set (ptrs pd)) g)"
  by (auto simp: wf_core_def wf_pdmap_def)

text \<open>Two maps that differ in their grids only.\<close>

definition same_but_grid :: "pdmap \<Rightarrow> pdmap \<Rightarrow> bool" where
  "same_but_grid p q \<longleftrightarrow> p\<lparr>m_grid := None\<rparr> = q\<lparr>m_grid := None\<rparr>"

lemma same_but_gridD:
  assumes "same_but_grid p q"
  shows "pieces p = pieces q" "ptrs p = ptrs q" "pd_domain p = pd_domain q" "pd_store p = pd_store q"
    "m_boxCount p = m_boxCount q" "pd_degree p = pd_degree q" "m_boxes p = m_boxes q" "m_gelbox p = m_gelbox q"
    "pd_next p = pd_next q"
proof -
  have e: "p = q\<lparr>m_grid := m_grid p\<rparr>"
    using assms unfolding same_but_grid_def by (metis pdmap.surjective pdmap.update_convs(6) old.unit.exhaust)
  show "pieces p = pieces q" "ptrs p = ptrs q" "pd_domain p = pd_domain q" "pd_store p = pd_store q"
    "m_boxCount p = m_boxCount q" "pd_degree p = pd_degree q" "m_boxes p = m_boxes q" "m_gelbox p = m_gelbox q"
    "pd_next p = pd_next q"
    by (subst e, simp)+
qed

theorem updateGrid_wf:
  assumes "wf_core pd"
  obtains pd' where "updateGrid True True pd = Some pd'" "wf_pdmap pd'" "same_but_grid pd' pd" "m_grid pd' \<noteq> None"
proof -
  note w = wf_coreD [OF assms]
  have nz: "m_dim (m_gelbox pd) \<noteq> 0" using w(1,6) by (simp add: good_domain_def)
  obtain g where g: "fill_grid True True pd = Some g"
    "grid_for (pd_domain pd) (pd_store pd) (set (ptrs pd)) g"
    by (rule fill_grid_for [OF w(3,1,6,4)])
  have wf: "wf_pdmap (pd\<lparr>m_grid := Some g\<rparr>)" using assms g(2) by (simp add: wf_core_def wf_pdmap_def)
  show ?thesis
    by (rule that [of "pd\<lparr>m_grid := Some g\<rparr>"]) (use nz g(1) wf in \<open>simp_all add: updateGrid_def same_but_grid_def\<close>)
qed

text \<open>Changing the weights of all boxes, and the bounds of the grid with them.\<close>

lemma good_piece_same_region: "same_region r b \<Longrightarrow> good_piece D deg r = good_piece D deg b"
  using same_region_facts(1,6,8,9) [of r b] by (simp add: good_piece_def)

lemma reweight:
  assumes "wf_pdmap pd" "\<And>b. b \<in> set (pieces pd) \<Longrightarrow> same_region (h b) b"
    and grid: "\<And>g st. m_grid pd = Some g \<Longrightarrow> (\<And>p. p \<in> set (ptrs pd) \<Longrightarrow> st p = h (pd_store pd p)) \<Longrightarrow>
      grid_for (pd_domain pd) st (set (ptrs pd)) (k g)"
    and op: "F pd = on_boxes (\<lambda>b. Some (h b)) pd \<bind>
      (\<lambda>pd. Some (pd\<lparr>m_grid := map_option k (m_grid pd)\<rparr>))"
  obtains pd' where "F pd = Some pd'" "wf_pdmap pd'" "pieces pd' = map h (pieces pd)"
    "pd_domain pd' = pd_domain pd" "pd_degree pd' = pd_degree pd" "m_boxCount pd' = m_boxCount pd"
    "ptrs pd' = ptrs pd" "m_grid pd' = map_option k (m_grid pd)"
proof -
  note w = wf_pdmapD [OF assms(1)]
  let ?st = "\<lambda>p. if p \<in> set (ptrs pd) then h (pd_store pd p) else pd_store pd p"
  have o: "on_boxes (\<lambda>b. Some (h b)) pd = Some (pd\<lparr>pd_store := ?st\<rparr>)"
    by (rule on_boxes_Some [OF w(3)]) simp
  let ?pd = "pd\<lparr>pd_store := ?st, m_grid := map_option k (m_grid pd)\<rparr>"
  have pc: "pieces ?pd = map h (pieces pd)" by (simp add: pieces_def)
  have "\<forall>b\<in>set (pieces ?pd). good_piece (pd_domain pd) (pd_degree pd) b"
    unfolding pc using w(4) by (auto simp: good_piece_same_region [OF assms(2)])
  moreover have "grid_for (pd_domain pd) ?st (set (ptrs pd)) g'" if "map_option k (m_grid pd) = Some g'" for g'
    using that grid [of _ ?st] by auto
  ultimately have "wf_pdmap ?pd" using w by (simp add: wf_pdmap_def)
  then show ?thesis using that [of ?pd] o pc by (simp add: op pieces_def)
qed

theorem applyWeight_wf:
  assumes "wf_pdmap pd" "0 \<le> w"
  obtains pd' where "applyWeight w pd = Some pd'" "wf_pdmap pd'" "pieces pd' = map (scaleWT w) (pieces pd)"
    "pd_domain pd' = pd_domain pd" "pd_degree pd' = pd_degree pd" "m_boxCount pd' = m_boxCount pd"
    "ptrs pd' = ptrs pd" "m_grid pd' = map_option (scaleBounds w) (m_grid pd)"
proof (rule reweight [OF assms(1), of "scaleWT w" "scaleBounds w" "applyWeight w"])
  note w = wf_pdmapD [OF assms(1)]
  have gp: "p \<in> set (ptrs pd) \<Longrightarrow> good_piece (pd_domain pd) (pd_degree pd) (pd_store pd p)" for p
    using w(4) by (simp add: pieces_def)
  note gd = good_pieceD [OF gp w(1)]
  show "b \<in> set (pieces pd) \<Longrightarrow> same_region (scaleWT w b) b" for b
    using good_pieceD [OF w(4) w(1)] by (simp add: same_region_scaleWT)
  fix g st assume g: "m_grid pd = Some g" "\<And>p. p \<in> set (ptrs pd) \<Longrightarrow> st p = scaleWT w (pd_store pd p)"
  have i: "indexed (pd_store pd) (set (ptrs pd)) g" "bounded (pd_store pd) (set (ptrs pd)) g"
    using w(8) [OF g(1)] by (auto simp: grid_for_def)
  have gd': "wf_box (pd_store pd p) \<and> 0 < m_dim (pd_store pd p) \<and> m_degree (pd_store pd p) \<le> 1"
    if "p \<in> set (ptrs pd)" for p using gd [OF that] w(2) by simp
  note s = scaleBounds_bounded [OF i assms(2) gd' g(2)]
  show "grid_for (pd_domain pd) st (set (ptrs pd)) (scaleBounds w g)"
    using w(8) [OF g(1)] s same_cut_facts(6,9) [OF s(3)] by (simp add: grid_for_def)
qed (use that in \<open>simp_all add: applyWeight_def\<close>)

theorem applyScalar_wf:
  assumes "wf_pdmap pd"
  obtains pd' where "applyScalar v pd = Some pd'" "wf_pdmap pd'" "pieces pd' = map (moveIntercept v) (pieces pd)"
    "pd_domain pd' = pd_domain pd" "pd_degree pd' = pd_degree pd" "m_boxCount pd' = m_boxCount pd"
    "ptrs pd' = ptrs pd" "m_grid pd' = map_option (moveBounds v) (m_grid pd)"
proof (rule reweight [OF assms, of "moveIntercept v" "moveBounds v" "applyScalar v"])
  note w = wf_pdmapD [OF assms]
  have gp: "p \<in> set (ptrs pd) \<Longrightarrow> good_piece (pd_domain pd) (pd_degree pd) (pd_store pd p)" for p
    using w(4) by (simp add: pieces_def)
  note gd = good_pieceD [OF gp w(1)]
  show "b \<in> set (pieces pd) \<Longrightarrow> same_region (moveIntercept v b) b" for b
    by (rule same_region_moveIntercept)
  fix g st assume g: "m_grid pd = Some g" "\<And>p. p \<in> set (ptrs pd) \<Longrightarrow> st p = moveIntercept v (pd_store pd p)"
  have i: "indexed (pd_store pd) (set (ptrs pd)) g" "bounded (pd_store pd) (set (ptrs pd)) g"
    using w(8) [OF g(1)] by (auto simp: grid_for_def)
  have gd': "wf_box (pd_store pd p) \<and> 0 < m_dim (pd_store pd p) \<and> m_degree (pd_store pd p) \<le> 1"
    if "p \<in> set (ptrs pd)" for p using gd [OF that] w(2) by simp
  note s = moveBounds_bounded [OF i gd' g(2)]
  show "grid_for (pd_domain pd) st (set (ptrs pd)) (moveBounds v g)"
    using w(8) [OF g(1)] s same_cut_facts(6,9) [OF s(3)] by (simp add: grid_for_def)
qed (use that in \<open>simp_all add: applyScalar_def\<close>)

text \<open>The loops for the extreme values compute the minimum and maximum over the pieces.\<close>

lemma fold_at_pieces:
  assumes "filled pd" "n \<le> m_boxCount pd"
  shows "foldM (\<lambda>m i. box_at pd i \<bind> (\<lambda>p. Some (F m (pd_store pd p)))) a [k..<n] =
    Some (foldl F a (drop k (take n (pieces pd))))"
proof -
  have "foldM (\<lambda>m i. box_at pd i \<bind> (\<lambda>p. Some (F m (pd_store pd p)))) a [k..<n] =
     Some (foldl (\<lambda>m i. F m (pieces pd ! i)) a [k..<n])"
    by (rule foldM_total) (use assms in \<open>simp add: box_at_ptrs pieces_nth\<close>)
  also have "foldl (\<lambda>m i. F m (pieces pd ! i)) a [k..<n] = foldl F a (map (\<lambda>i. pieces pd ! i) [k..<n])"
    by (simp add: foldl_map)
  also have "map (\<lambda>i. pieces pd ! i) [k..<n] = drop k (take n (pieces pd))"
    using assms(2) by (intro nth_equalityI) auto
  finally show ?thesis .
qed

lemma foldl_min: "foldl (\<lambda>m b. if f b < m then f b else m) (a::real) bs = Min (insert a (f ` set bs))"
proof (induction bs arbitrary: a)
  case (Cons b bs)
  have "Min (insert (min a (f b)) (f ` set bs)) = Min (insert a (insert (f b) (f ` set bs)))"
    by (cases "bs = []") (auto simp: min.assoc Min_insert)
  moreover have "(if f b < a then f b else a) = min a (f b)" by auto
  ultimately show ?case by (simp only: foldl_Cons Cons.IH list.set image_insert)
qed simp

lemma foldl_max: "foldl (\<lambda>m b. if f b > m then f b else m) (a::real) bs = Max (insert a (f ` set bs))"
proof (induction bs arbitrary: a)
  case (Cons b bs)
  have "Max (insert (max a (f b)) (f ` set bs)) = Max (insert a (insert (f b) (f ` set bs)))"
    by (cases "bs = []") (auto simp: max.assoc Max_insert)
  moreover have "(if f b > a then f b else a) = max a (f b)" by auto
  ultimately show ?case by (simp only: foldl_Cons Cons.IH list.set image_insert)
qed simp

theorem getMinMaxWT:
  assumes "filled pd" "0 < m_boxCount pd"
  shows "getMinWT pd = Some (Min (minVal ` set (pieces pd)))" "getMaxWT pd = Some (Max (maxVal ` set (pieces pd)))"
proof -
  obtain b bs where pc: "pieces pd = b # bs" using assms(2) length_pieces [of pd] by (cases "pieces pd") auto
  have b: "box_at pd 0 = Some (ptrs pd ! 0)" "pd_store pd (ptrs pd ! 0) = b"
    using box_at_ptrs [OF assms] pieces_nth [OF assms(2)] pc by auto
  have bs: "drop 1 (take (m_boxCount pd) (pieces pd)) = bs" using length_pieces [of pd] pc by simp
  show "getMinWT pd = Some (Min (minVal ` set (pieces pd)))"
    using fold_at_pieces [OF assms(1) order.refl, of "\<lambda>m b. if minVal b < m then minVal b else m" "minVal b" 1]
      assms(2) b bs pc foldl_min [of minVal "minVal b" bs] by (simp add: getMinWT_def Let_def)
  show "getMaxWT pd = Some (Max (maxVal ` set (pieces pd)))"
    using fold_at_pieces [OF assms(1) order.refl, of "\<lambda>m b. if maxVal b > m then maxVal b else m" "maxVal b" 1]
      assms(2) b bs pc foldl_max [of maxVal "maxVal b" bs] by (simp add: getMaxWT_def Let_def)
qed

text \<open>
  \<open>normalize\<close> moves the smallest value to \<open>target_base\<close> first and scales afterwards, so every
  value \<open>v\<close> becomes \<open>(v + target_base - min) * target_range / (max - min)\<close>.
\<close>

definition norm_value :: "real \<Rightarrow> real \<Rightarrow> real \<Rightarrow> real \<Rightarrow> real \<Rightarrow> real" where
  "norm_value mn mx tb tr v = (v + (tb - mn)) * (tr / (mx - mn))"

theorem normalize_wf:
  assumes "wf_pdmap pd" "0 < m_boxCount pd" "0 \<le> tr"
    "getMinWT pd = Some mn" "getMaxWT pd = Some mx" "mn < mx"
  obtains pd' where "normalize tb tr pd = Some pd'" "wf_pdmap pd'"
    "pd_domain pd' = pd_domain pd" "pd_degree pd' = pd_degree pd" "m_boxCount pd' = m_boxCount pd"
    "ptrs pd' = ptrs pd" "(m_grid pd' = None) = (m_grid pd = None)"
    "pieces pd' = map (\<lambda>b. scaleWT (tr / (mx - mn)) (moveIntercept (tb - mn) b)) (pieces pd)"
proof -
  let ?r = "tr / (mx - mn)"
  obtain pd1 where p1: "applyScalar (tb - mn) pd = Some pd1" "wf_pdmap pd1"
    "pieces pd1 = map (moveIntercept (tb - mn)) (pieces pd)" "pd_domain pd1 = pd_domain pd"
    "pd_degree pd1 = pd_degree pd" "m_boxCount pd1 = m_boxCount pd" "ptrs pd1 = ptrs pd"
    "m_grid pd1 = map_option (moveBounds (tb - mn)) (m_grid pd)"
    by (rule applyScalar_wf [OF assms(1)])
  have "0 \<le> ?r" using assms(3,6) by simp
  from applyWeight_wf [OF p1(2) this] obtain pd2 where p2: "applyWeight ?r pd1 = Some pd2" "wf_pdmap pd2"
    "pieces pd2 = map (scaleWT ?r) (pieces pd1)" "pd_domain pd2 = pd_domain pd1"
    "pd_degree pd2 = pd_degree pd1" "m_boxCount pd2 = m_boxCount pd1" "ptrs pd2 = ptrs pd1"
    "m_grid pd2 = map_option (scaleBounds ?r) (m_grid pd1)" by blast
  have n: "normalize tb tr pd = Some pd2"
    using assms(4-6) p1(1) p2(1) by (simp add: normalize_def Let_def)
  show ?thesis
    by (rule that [OF n p2(2)]) (simp_all add: p1(3-8) p2(3-8) comp_def)
qed

lemma normalized_piece:
  fixes tb :: real
  assumes "good_piece D deg b" "good_domain D" "deg \<le> 1" "0 \<le> tr" "mn < mx"
  defines "b' \<equiv> scaleWT (tr / (mx - mn)) (moveIntercept (tb - mn) b)"
  shows "ival b' x = norm_value mn mx tb tr (ival b x)" "maxVal b' = norm_value mn mx tb tr (maxVal b)"
    "minVal b' = norm_value mn mx tb tr (minVal b)" "in_box b' x = in_box b x" "good_piece D deg b'"
proof -
  note g = good_pieceD [OF assms(1,2)]
  let ?m = "moveIntercept (tb - mn) b"
  have sm: "same_region ?m b" by (rule same_region_moveIntercept)
  have m: "wf_box ?m" "0 < m_dim ?m" "m_degree ?m \<le> 1" "m_degree b \<le> 1" "0 \<le> tr / (mx - mn)"
    using g assms(3-5) same_region_facts(1,8,9) [OF sm] by auto
  have sb: "same_region b' b"
    unfolding b'_def using same_region_trans [OF same_region_scaleWT [OF m(1,2)] sm] .
  show "ival b' x = norm_value mn mx tb tr (ival b x)"
    unfolding b'_def scaleWT_ival [OF m(1,2)] using g m(4) by (simp add: moveIntercept_ival norm_value_def)
  show "maxVal b' = norm_value mn mx tb tr (maxVal b)" "minVal b' = norm_value mn mx tb tr (minVal b)"
    unfolding b'_def maxVal_scaleWT [OF m(1-3,5)] using maxVal_moveIntercept [OF g(1,2) m(4), of "tb - mn"]
    by (simp_all add: norm_value_def)
  show "in_box b' x = in_box b x" using same_region_facts(2) [OF sb] by simp
  show "good_piece D deg b'" using assms(1) good_piece_same_region [OF sb] by simp
qed

lemma norm_value_mono: "0 \<le> tr \<Longrightarrow> mn < mx \<Longrightarrow> mono (norm_value mn mx tb tr)"
  by (auto simp: norm_value_def mono_def intro!: mult_right_mono divide_right_mono)

theorem normalize_range:
  assumes "wf_pdmap pd" "0 < m_boxCount pd" "0 \<le> tr"
    "getMinWT pd = Some mn" "getMaxWT pd = Some mx" "mn < mx" "normalize tb tr pd = Some pd'"
  shows "getMinWT pd' = Some (norm_value mn mx tb tr mn)" "getMaxWT pd' = Some (norm_value mn mx tb tr mx)"
proof -
  note w = wf_pdmapD [OF assms(1)]
  obtain pd2 where n: "normalize tb tr pd = Some pd2" "wf_pdmap pd2" "m_boxCount pd2 = m_boxCount pd"
    "pieces pd2 = map (\<lambda>b. scaleWT (tr / (mx - mn)) (moveIntercept (tb - mn) b)) (pieces pd)"
    using normalize_wf [OF assms(1-6), of tb] by metis
  have e: "pd2 = pd'" using n(1) assms(7) by simp
  note np = normalized_piece(2,3) [OF w(4) w(1,2) assms(3,6), of _ tb]
  let ?f = "norm_value mn mx tb tr"
  have mono: "mono ?f" by (rule norm_value_mono [OF assms(3,6)])
  have ne: "pieces pd \<noteq> []" using assms(2) length_pieces [of pd] by force
  have mm: "mn = Min (minVal ` set (pieces pd))" "mx = Max (maxVal ` set (pieces pd))"
    using getMinMaxWT [OF w(3) assms(2)] assms(4,5) by simp_all
  have "minVal ` set (pieces pd') = ?f ` minVal ` set (pieces pd)"
    "maxVal ` set (pieces pd') = ?f ` maxVal ` set (pieces pd)"
    unfolding e [symmetric] n(4) using np by (simp_all add: image_image cong: image_cong_simp)
  then show "getMinWT pd' = Some (?f mn)" "getMaxWT pd' = Some (?f mx)"
    using getMinMaxWT [of pd'] wf_pdmapD(3) [OF n(2)] n(3) assms(2) ne mono
    unfolding e mm by (simp_all add: mono_Min_commute mono_Max_commute)
qed

section \<open>Queries and evaluation\<close>

definition in_dom :: "ivpdomain \<Rightarrow> (nat \<Rightarrow> int) \<Rightarrow> bool" where
  "in_dom D x \<longleftrightarrow> (\<forall>d<dom_size D. 0 \<le> x d \<and> x d \<le> int (getVarPoints_i D d) - 1)"

lemma grid_for_in_domain: "grid_for D st ps g \<Longrightarrow> in_domain g x = in_dom D x"
  by (simp add: grid_for_def in_domain_def in_dom_def)

lemma good_piece_in_dom: "good_piece D deg b \<Longrightarrow> in_closure b x \<Longrightarrow> in_dom D x"
  by (fastforce simp: good_piece_def in_closure_def in_dom_def)

text \<open>The boxes found for a query include every piece that shares a point with it.\<close>

lemma scan_boxes: "foldM (\<lambda>bs i. Some (if P i then f i # bs else bs)) bs is = Some (rev (map f [i \<leftarrow> is. P i]) @ bs)"
  by (induction "is" arbitrary: bs) auto

theorem pd_getBS_result:
  assumes "wf_pdmap pd" "m_dim q = dom_size (pd_domain pd)" "\<forall>d<m_dim q. 0 \<le> pt q d 1"
  obtains r where "pd_getBS pd q = Some r" "distinct r" "set r \<subseteq> {p \<in> set (ptrs pd). box_intersect q (pd_store pd p)}"
    "\<And>p x. p \<in> set (ptrs pd) \<Longrightarrow> in_box q x \<Longrightarrow> in_box (pd_store pd p) x \<Longrightarrow> p \<in> set r"
proof (cases "m_grid pd")
  case None
  note w = wf_pdmapD [OF assms(1)]
  let ?P = "\<lambda>i. box_intersect q (pd_store pd (ptrs pd ! i))"
  let ?r = "rev (map (\<lambda>i. ptrs pd ! i) [i \<leftarrow> [0..<m_boxCount pd]. ?P i])"
  have eq: "foldM f [] [0..<m_boxCount pd] = foldM (\<lambda>bs i. Some (if ?P i then ptrs pd ! i # bs else bs)) [] [0..<m_boxCount pd]"
    if "\<And>bs i. i < m_boxCount pd \<Longrightarrow> f bs i = Some (if ?P i then ptrs pd ! i # bs else bs)" for f
    using that foldM_total [of "[0..<m_boxCount pd]" f "\<lambda>bs i. if ?P i then ptrs pd ! i # bs else bs" "[]"]
      foldM_total [of "[0..<m_boxCount pd]" "\<lambda>bs i. Some (if ?P i then ptrs pd ! i # bs else bs)" "\<lambda>bs i. if ?P i then ptrs pd ! i # bs else bs" "[]"]
    by simp
  have r: "pd_getBS pd q = Some ?r"
    unfolding pd_getBS_def using None
    by (simp add: eq box_at_ptrs [OF w(3)] scan_boxes)
  have d: "distinct (ptrs pd)" using w(3) by (simp add: filled_def)
  show ?thesis
  proof (rule that [OF r])
    show "distinct ?r" using d by (auto simp: distinct_map inj_on_def nth_eq_iff_index_eq)
    show "set ?r \<subseteq> {p \<in> set (ptrs pd). box_intersect q (pd_store pd p)}" by auto
    fix p x assume p: "p \<in> set (ptrs pd)" "in_box q x" "in_box (pd_store pd p) x"
    then obtain i where i: "i < m_boxCount pd" "p = ptrs pd ! i" by (auto simp: in_set_conv_nth)
    have "good_piece (pd_domain pd) (pd_degree pd) (pd_store pd p)" using w(4) p(1) by (simp add: pieces_def)
    then have "box_intersect q (pd_store pd p)"
      using box_intersect_complete [OF p(2,3)] assms(2) by (simp add: good_piece_def)
    with i show "p \<in> set ?r" by auto
  qed
next
  case (Some g)
  note w = wf_pdmapD [OF assms(1)]
  have gf: "grid_for (pd_domain pd) (pd_store pd) (set (ptrs pd)) g" by (rule w(8) [OF Some])
  then have i: "indexed (pd_store pd) (set (ptrs pd)) g" "g_dim g = dom_size (pd_domain pd)"
    by (simp_all add: grid_for_def)
  have "reaches_up g q" using assms(2,3) i(2) by (simp add: reaches_up_def)
  from getBS_result [OF i(1) this, of True] obtain r where r: "grid_getBS (pd_store pd) g q True = Some r" "distinct r"
    "set r = {p \<in> set (ptrs pd). meet g q (pd_store pd p) \<and> (True \<longrightarrow> box_intersect q (pd_store pd p))}" by blast
  show ?thesis
  proof (rule that [OF _ r(2)])
    show "pd_getBS pd q = Some r" using Some r(1) by (simp add: pd_getBS_def)
    show "set r \<subseteq> {p \<in> set (ptrs pd). box_intersect q (pd_store pd p)}" using r(3) by auto
    fix p x assume p: "p \<in> set (ptrs pd)" "in_box q x" "in_box (pd_store pd p) x"
    have gp: "good_piece (pd_domain pd) (pd_degree pd) (pd_store pd p)" using w(4) p(1) by (simp add: pieces_def)
    have "in_domain g x" using good_piece_in_dom [OF gp in_box_closure [OF p(3)]] grid_for_in_domain [OF gf] by simp
    with gp p assms(2) i show "p \<in> set r"
      unfolding r(3) using box_intersect_complete [OF p(2,3)] meet_point [OF indexed_wf [OF i(1)]]
      by (auto simp: good_piece_def)
  qed
qed

text \<open>
  \<open>evalPoint\<close> for a point box at \<open>x\<close>. The pieces that cover \<open>x\<close> decide: none, exactly one, or
  several; only in the last case does the grid matter.
\<close>

definition hits :: "pdmap \<Rightarrow> (nat \<Rightarrow> int) \<Rightarrow> box_ptr list" where
  "hits pd x = [p \<leftarrow> ptrs pd. in_box (pd_store pd p) x]"

lemma eval_scan_hits:
  assumes "wf_pdmap pd" "at_point gbox x" "m_dim gbox = dom_size (pd_domain pd)" "set is \<subseteq> {..<m_boxCount pd}"
  shows "eval_scan pd gbox is =
     (case [i \<leftarrow> is. in_box (pd_store pd (ptrs pd ! i)) x] of [] \<Rightarrow> Some (0, False)
      | i # _ \<Rightarrow> Some (ival (pd_store pd (ptrs pd ! i)) x, True))"
  using assms(4)
proof (induction "is")
  case Nil
  then show ?case by (simp add: eval_scan_def)
next
  case (Cons i "is")
  note w = wf_pdmapD [OF assms(1)]
  let ?b = "pd_store pd (ptrs pd ! i)"
  have i: "i < m_boxCount pd" using Cons.prems by simp
  then have g: "good_piece (pd_domain pd) (pd_degree pd) ?b" using w(4) by (simp add: pieces_def)
  note gd = good_pieceD [OF g w(1)]
  have "box_intersect gbox ?b = in_box ?b x"
    using box_intersect_point [OF assms(2)] assms(3) gd(3) by simp
  moreover have "in_box ?b x \<Longrightarrow> ptVal ?b gbox = Some (ival ?b x)"
    using ptVal_point [OF assms(2)] assms(3) gd(2,3) by simp
  ultimately show ?case using Cons box_at_ptrs [OF w(3) i] by (simp add: eval_scan_def)
qed

lemma filter_index: "map (\<lambda>i. xs ! i) [i \<leftarrow> [0..<length xs]. P (xs ! i)] = [x \<leftarrow> xs. P x]"
proof -
  have "map (\<lambda>i. xs ! i) [i \<leftarrow> [0..<length xs]. P (xs ! i)] = [x \<leftarrow> map (\<lambda>i. xs ! i) [0..<length xs]. P x]"
    by (simp add: filter_map comp_def)
  then show ?thesis by (simp add: map_nth)
qed

theorem evalPoint_no_grid:
  assumes "wf_pdmap pd" "at_point gbox x" "m_dim gbox = dom_size (pd_domain pd)" "0 < m_boxCount pd"
    "m_grid pd = None"
  shows "evalPoint pd gbox c =
    (case hits pd x of [] \<Rightarrow> Some (0, False) | p # _ \<Rightarrow> Some (ival (pd_store pd p) x, True))"
proof -
  have pt: "isPtBox gbox"
    using at_point_isPtBox [OF assms(2)] assms(3) wf_pdmapD(1) [OF assms(1)] by (simp add: good_domain_def)
  have "hits pd x = map (\<lambda>i. ptrs pd ! i) [i \<leftarrow> [0..<m_boxCount pd]. in_box (pd_store pd (ptrs pd ! i)) x]"
    using filter_index [of "ptrs pd" "\<lambda>p. in_box (pd_store pd p) x"] by (simp add: hits_def)
  then show ?thesis
    using pt assms(4,5) eval_scan_hits [OF assms(1-3), of "[0..<m_boxCount pd]"]
    by (simp add: evalPoint_def lessThan_atLeast0 split: list.splits)
qed

lemma eval_hits_loop:
  assumes "\<forall>q\<in>set qs. P q" "e = Some v"
  shows "foldM (\<lambda>(numHits, retVal) q. if P q then e \<bind> (\<lambda>v. Some (numHits + 1, v))
            else Some (numHits, retVal)) (n, r) qs =
    Some (n + length qs, if qs = [] then r else v)"
  using assms by (induction qs arbitrary: n r) auto

theorem evalPoint_grid:
  assumes "wf_pdmap pd" "at_point gbox x" "m_dim gbox = dom_size (pd_domain pd)" "0 < m_boxCount pd"
    "m_grid pd \<noteq> None" "in_dom (pd_domain pd) x"
  shows "evalPoint pd gbox c =
    (case hits pd x of [p] \<Rightarrow> Some (ival (pd_store pd p) x, True) | _ \<Rightarrow> Some (0, False))"
proof -
  note w = wf_pdmapD [OF assms(1)]
  obtain g where g: "m_grid pd = Some g" using assms(5) by auto
  have n: "0 < m_dim gbox" using w(1) assms(3) by (simp add: good_domain_def)
  have pt: "isPtBox gbox" by (rule at_point_isPtBox [OF assms(2) n])
  have up: "\<forall>d<m_dim gbox. 0 \<le> pt gbox d 1"
    using assms(2,3,6) by (auto simp: at_point_ends in_dom_def)
  obtain r where r: "pd_getBS pd gbox = Some r" "distinct r"
    "set r \<subseteq> {p \<in> set (ptrs pd). box_intersect gbox (pd_store pd p)}"
    "\<And>p y. p \<in> set (ptrs pd) \<Longrightarrow> in_box gbox y \<Longrightarrow> in_box (pd_store pd p) y \<Longrightarrow> p \<in> set r"
    using pd_getBS_result [OF assms(1,3) up] by blast
  have gp: "good_piece (pd_domain pd) (pd_degree pd) (pd_store pd p)" if "p \<in> set (ptrs pd)" for p
    using w(4) that by (simp add: pieces_def)
  have bi: "box_intersect gbox (pd_store pd p) = in_box (pd_store pd p) x" if "p \<in> set (ptrs pd)" for p
    using box_intersect_point [OF assms(2)] assms(3) good_pieceD(3) [OF gp [OF that] w(1)] by simp
  have "in_box gbox x" using assms(2) by (auto simp: in_box_def at_point_ends)
  then have sr: "set r = set (hits pd x)" using r(3,4) bi by (auto simp: hits_def)
  have val: "ptVal (pd_store pd p) gbox = Some (ival (pd_store pd p) x)" if "p \<in> set r" for p
    using that sr ptVal_point [OF assms(2), of "pd_store pd p"] assms(3) gp
      good_pieceD(2,3) [OF gp w(1)] by (auto simp: hits_def)
  have d: "distinct (hits pd x)" using w(3) by (simp add: hits_def filled_def)
  have len: "length r = length (hits pd x)"
    using sr r(2) d distinct_card by metis
  have gb: "grid_getBS (pd_store pd) g gbox True = Some r" using r(1) g by (simp add: pd_getBS_def)
  consider "hits pd x = []" | p where "hits pd x = [p]" | p q ps where "hits pd x = p # q # ps"
    by (metis list.exhaust)
  then show ?thesis
  proof cases
    case 1
    with len show ?thesis using pt assms(4) g gb by (simp add: evalPoint_def)
  next
    case 2
    with len sr have "r = [p]" by (cases r) auto
    with 2 val [of p] show ?thesis using pt assms(4) g gb by (simp add: evalPoint_def)
  next
    case 3
    with len obtain p' q' rs where rs: "r = p' # q' # rs" by (auto simp: length_Suc_conv)
    have "\<forall>q\<in>set r. box_intersect gbox (pd_store pd q)" using r(3) by auto
    from eval_hits_loop [OF this val [of p'], of 0 0] rs 3
    show ?thesis using pt assms(4) g gb by (simp add: evalPoint_def del: foldM.simps)
  qed
qed

text \<open>What a caller can rely on, with or without a grid.\<close>

corollary evalPoint_sound:
  assumes "wf_pdmap pd" "at_point gbox x" "m_dim gbox = dom_size (pd_domain pd)" "0 < m_boxCount pd"
    "in_dom (pd_domain pd) x"
  obtains v cov where "evalPoint pd gbox c = Some (v, cov)"
    "cov \<Longrightarrow> \<exists>b\<in>set (pieces pd). in_box b x \<and> v = ival b x"
proof -
  have h: "p \<in> set (hits pd x) \<Longrightarrow> pd_store pd p \<in> set (pieces pd) \<and> in_box (pd_store pd p) x" for p
    by (auto simp: hits_def pieces_def)
  show ?thesis
  proof (cases "m_grid pd")
    case None
    show ?thesis using that evalPoint_no_grid [OF assms(1-4) None, of c] h by (cases "hits pd x") auto
  next
    case (Some g)
    then have "m_grid pd \<noteq> None" by simp
    from that evalPoint_grid [OF assms(1-4) this assms(5), of c] h show ?thesis
      by (cases "hits pd x") (auto split: list.splits)
  qed
qed

section \<open>Copying and compacting the array\<close>

lemma copy_prefix:
  assumes "wf_pdmap pd" "n \<le> m_boxCount pd"
    "base = \<lparr>pd_domain = pd_domain pd, m_boxes = replicate (m_boxCount pd) None,
        m_boxCount = m_boxCount pd, pd_degree = pd_degree pd, m_gelbox = m_gelbox pd,
        m_grid = None, pd_store = (\<lambda>_. IvPBox_new 0 1), pd_next = 0\<rparr>"
  shows "foldM (\<lambda>pd' i. box_at pd i \<bind> (\<lambda>p. box_copy (pd_store pd p) \<bind>
             (\<lambda>b. Some (bx_new i b pd')))) base [0..<n] =
    Some (base\<lparr>m_boxes := map (\<lambda>i. if i < n then Some i else None) [0..<m_boxCount pd],
      pd_store := (\<lambda>p. if p < n then pieces pd ! p else IvPBox_new 0 1), pd_next := n\<rparr>)"
  using assms(2)
proof (induction n)
  case 0
  show ?case by (simp add: assms(3) map_replicate_const)
next
  case (Suc n)
  note w = wf_pdmapD [OF assms(1)]
  have n: "n < m_boxCount pd" using Suc.prems by simp
  let ?b = "pd_store pd (ptrs pd ! n)"
  have "good_piece (pd_domain pd) (pd_degree pd) ?b" using w(4) n by (simp add: pieces_def)
  from good_pieceD [OF this w(1)] have c: "box_copy ?b = Some ?b" by (simp add: box_copy_eq)
  have m: "(map (\<lambda>i. if i < n then Some i else None) [0..<m_boxCount pd])[n := Some n] =
     map (\<lambda>i. if i < Suc n then Some i else None) [0..<m_boxCount pd]"
    using n by (intro nth_equalityI) (auto simp: nth_list_update)
  have st: "(\<lambda>p. if p < n then pieces pd ! p else IvPBox_new 0 1)(n := ?b) =
      (\<lambda>p. if p < Suc n then pieces pd ! p else IvPBox_new 0 1)"
    using pieces_nth [OF n] by (auto simp: fun_eq_iff less_Suc_eq)
  show ?case using Suc box_at_ptrs [OF w(3) n] c m st
    by (simp add: foldM_append bx_new_def del: fun_upd_apply)
qed

theorem PDMap_copy_wf:
  assumes "wf_pdmap pd"
  obtains pd' where "PDMap_copy pd = Some pd'" "wf_pdmap pd'" "pieces pd' = pieces pd"
    "pd_domain pd' = pd_domain pd" "pd_degree pd' = pd_degree pd" "m_gelbox pd' = m_gelbox pd" "m_grid pd' \<noteq> None"
proof -
  note w = wf_pdmapD [OF assms]
  let ?n = "m_boxCount pd"
  define pd1 where "pd1 = \<lparr>pd_domain = pd_domain pd, m_boxes = map (\<lambda>i. if i < ?n then Some i else None) [0..<?n],
        m_boxCount = ?n, pd_degree = pd_degree pd, m_gelbox = m_gelbox pd, m_grid = None,
        pd_store = (\<lambda>p. if p < ?n then pieces pd ! p else IvPBox_new 0 1), pd_next = ?n\<rparr>"
  have pt: "ptrs pd1 = [0..<?n]" by (auto simp: ptrs_def pd1_def intro!: nth_equalityI)
  have pc: "pieces pd1 = pieces pd"
    unfolding pieces_def pt by (auto simp: pd1_def pieces_def intro!: nth_equalityI)
  have fl: "filled pd1" unfolding filled_def pt by (simp add: pd1_def)
  have dom: "pd_domain pd1 = pd_domain pd" "pd_degree pd1 = pd_degree pd" "m_gelbox pd1 = m_gelbox pd"
    "m_grid pd1 = None" by (simp_all add: pd1_def)
  have core: "wf_core pd1" using w fl pc dom by (simp add: wf_core_def wf_pdmap_def)
  from fill_grid_for [OF fl] obtain g where g: "fill_grid True True pd1 = Some g"
    "grid_for (pd_domain pd1) (pd_store pd1) (set (ptrs pd1)) g"
    using wf_coreD [OF core] by metis
  have "wf_pdmap (pd1\<lparr>m_grid := Some g\<rparr>)" using core g(2) by (simp add: wf_core_def wf_pdmap_def)
  moreover have "PDMap_copy pd = Some (pd1\<lparr>m_grid := Some g\<rparr>)"
    using copy_prefix [OF assms order.refl refl] g(1) by (simp add: PDMap_copy_def pd1_def)
  ultimately show ?thesis using that pc dom by simp
qed

lemma live_pointers: "map the [b \<leftarrow> bs. b \<noteq> None] = [p. Some p \<leftarrow> bs]"
  by (induction bs) auto

theorem removeNULLs_wf:
  assumes "m_boxCount pd \<le> length (m_boxes pd)" "None \<in> set (take (m_boxCount pd) (m_boxes pd))"
    "live = [p. Some p \<leftarrow> take (m_boxCount pd) (m_boxes pd)]" "distinct live" "\<forall>p\<in>set live. p < pd_next pd"
    "good_domain (pd_domain pd)" "pd_degree pd \<le> 1" "wf_box (m_gelbox pd)"
    "m_dim (m_gelbox pd) = dom_size (pd_domain pd)" "m_degree (m_gelbox pd) \<le> 1"
    "\<forall>p\<in>set live. good_piece (pd_domain pd) (pd_degree pd) (pd_store pd p)"
  obtains pd' where "removeNULLs pd = Some pd'" "wf_pdmap pd'" "ptrs pd' = live" "m_boxCount pd' = length live"
    "pd_store pd' = pd_store pd" "pd_domain pd' = pd_domain pd" "m_grid pd' \<noteq> None"
proof -
  let ?bs = "take (m_boxCount pd) (m_boxes pd)"
  have bs: "map (\<lambda>i. m_boxes pd ! i) [0..<m_boxCount pd] = ?bs"
    using assms(1) by (intro nth_equalityI) auto
  have cnt: "length [b \<leftarrow> ?bs. b = None] \<noteq> 0" using assms(2) by (auto simp: filter_empty_conv)
  have len: "m_boxCount pd - length [b \<leftarrow> ?bs. b = None] = length [b \<leftarrow> ?bs. b \<noteq> None]"
    using sum_length_filter_compl [of "\<lambda>b. b = None" ?bs] assms(1) by simp
  define pd1 where "pd1 = pd\<lparr>m_boxes := [b \<leftarrow> ?bs. b \<noteq> None], m_boxCount := length [b \<leftarrow> ?bs. b \<noteq> None]\<rparr>"
  have pt: "ptrs pd1 = live"
    unfolding assms(3) live_pointers [symmetric] by (auto simp: ptrs_def pd1_def intro!: nth_equalityI)
  have some: "i < length [b \<leftarrow> ?bs. b \<noteq> None] \<Longrightarrow> [b \<leftarrow> ?bs. b \<noteq> None] ! i \<noteq> None" for i
    using nth_mem [of i "[b \<leftarrow> ?bs. b \<noteq> None]"] by (auto simp del: nth_mem)
  have "the ([b \<leftarrow> ?bs. b \<noteq> None] ! i) < pd_next pd" if "i < length [b \<leftarrow> ?bs. b \<noteq> None]" for i
    using assms(5) nth_mem [of i "map the [b \<leftarrow> ?bs. b \<noteq> None]"] that
    unfolding assms(3) live_pointers [symmetric] by (metis length_map nth_map)
  with some have fl: "filled pd1" unfolding filled_def pt using assms(4) by (simp add: pd1_def)
  have "\<forall>b\<in>set (pieces pd1). good_piece (pd_domain pd1) (pd_degree pd1) b"
    unfolding pieces_def pt using assms(11) by (simp add: pd1_def)
  moreover have "filled (pd1\<lparr>m_grid := None\<rparr>)" "pieces (pd1\<lparr>m_grid := None\<rparr>) = pieces pd1"
    using fl by simp_all
  moreover have "pd_domain pd1 = pd_domain pd" "pd_degree pd1 = pd_degree pd" "m_gelbox pd1 = m_gelbox pd"
    by (simp_all add: pd1_def)
  ultimately have core: "wf_core pd1"
    using assms(6-10) unfolding wf_core_def wf_pdmap_def by simp
  obtain pd' where p: "updateGrid True True pd1 = Some pd'" "wf_pdmap pd'" "same_but_grid pd' pd1" "m_grid pd' \<noteq> None"
    by (rule updateGrid_wf [OF core])
  note sb = same_but_gridD [OF p(3)]
  have "removeNULLs pd = Some pd'"
    using cnt p(1) by (simp add: removeNULLs_def Let_def bs len pd1_def)
  moreover have "ptrs pd' = live" using sb(2) pt by simp
  moreover from this have "m_boxCount pd' = length live" using length_ptrs [of pd'] by simp
  moreover have "pd_store pd' = pd_store pd" "pd_domain pd' = pd_domain pd" using sb(3,4) by (simp_all add: pd1_def)
  ultimately show ?thesis using that p(2,4) by blast
qed

section \<open>Gel boxes\<close>

lemma gpe_loop_least: "0 < n \<Longrightarrow> gpe \<le> gpe_loop n mx gpe \<and> mx < gpe_loop n mx gpe ^ n \<and>
    (\<forall>k. gpe \<le> k \<and> k < gpe_loop n mx gpe \<longrightarrow> k ^ n \<le> mx)"
proof (induction n mx gpe rule: gpe_loop.induct)
  case (1 n mx gpe)
  show ?case
  proof (cases "gpe ^ n \<le> mx")
    case True
    then have "gpe_loop n mx gpe = gpe_loop n mx (gpe + 1)" using 1 by (simp add: gpe_loop.simps [of n mx gpe])
    moreover have "k = gpe \<or> gpe + 1 \<le> k" if "gpe \<le> k" for k using that by linarith
    ultimately show ?thesis using 1 True by (metis Suc_eq_plus1 Suc_leD not_gr0)
  next
    case False
    with "1.prems" show ?thesis by (simp add: gpe_loop.simps [of n mx gpe])
  qed
qed

lemma setGelBox_default_wf:
  assumes "good_domain (pd_domain pd)"
  defines "gb \<equiv> m_gelbox (setGelBox_default pd)"
    and "gpe \<equiv> gpe_loop (dom_size (pd_domain pd)) (max_gels (m_boxCount pd) (dom_size (pd_domain pd))) 1"
  shows "wf_box gb" "m_dim gb = dom_size (pd_domain pd)" "m_degree gb = 0"
    "\<forall>d<dom_size (pd_domain pd). ends gb d =
       (int (gel_size (getVarPoints_i (pd_domain pd) d) gpe), int (gel_size (getVarPoints_i (pd_domain pd) d) gpe),
        True, True)"
proof -
  let ?n = "dom_size (pd_domain pd)"
  let ?g = "\<lambda>d. int (gel_size (getVarPoints_i (pd_domain pd) d) gpe)"
  let ?new = "IvPBox_new (int ?n) 0"
  have n: "0 < ?n" "?n < 2 ^ 16" using assms(1) by (simp_all add: good_domain_def)
  have gb: "gb = foldl (\<lambda>b d. setPTS d (?g d) (?g d) b) ?new [0..<?n]"
    using n(1) by (simp add: gb_def setGelBox_default_def Let_def gpe_def)
  have m: "m_dim ?new = ?n" using n(2) by simp
  have nb: "d < ?n \<Longrightarrow> bd ?new d 0 \<and> bd ?new d 1" for d
    using new_inclusive [of "int ?n" 0] m by (simp add: inclusive_def)
  have "same_shape (foldl (\<lambda>b d. setPTS d (?g d) (?g d) b) ?new [0..<?n]) ?new \<and>
    (\<forall>d. ends (foldl (\<lambda>b d. setPTS d (?g d) (?g d) b) ?new [0..<?n]) d =
      (if d < ?n then (\<lambda>(l, h, u, v). (?g d, ?g d, u, v)) (ends ?new d) else ends ?new d))"
    by (rule foldl_dims_update) (use m in \<open>auto simp: ends_setPTS same_shapeD, auto simp: ends_def\<close>)
  with nb have "same_shape (foldl (\<lambda>b d. setPTS d (?g d) (?g d) b) ?new [0..<?n]) ?new \<and>
    (\<forall>d. d < ?n \<longrightarrow> ends (foldl (\<lambda>b d. setPTS d (?g d) (?g d) b) ?new [0..<?n]) d = (?g d, ?g d, True, True))"
    by (simp add: ends_def)
  then show "wf_box gb" "m_dim gb = dom_size (pd_domain pd)" "m_degree gb = 0"
    "\<forall>d<dom_size (pd_domain pd). ends gb d = (?g d, ?g d, True, True)"
    unfolding gb using m by (auto simp: same_shape_def)
qed

section \<open>Moving a map to another domain\<close>

text \<open>One box: its old dimensions go to their new places, a new dimension gets the full range.\<close>

definition fill_new :: "ivpdomain \<Rightarrow> bool list \<Rightarrow> ivpbox \<Rightarrow> ivpbox" where
  "fill_new D setFlag b =
     foldl (\<lambda>b i. if setFlag ! i then setPTS i 0 (int (getVarPoints_i D i) - 1) b else b) b [0..<dom_size D]"

lemma flags_loop: "edge_map_ok em n newDim \<Longrightarrow> i < newDim \<Longrightarrow>
    foldl (\<lambda>fs i. fs[em ! i := False]) (replicate newDim True) [0..<n] ! i \<longleftrightarrow> i \<notin> set em"
proof -
  assume em: "edge_map_ok em n newDim" "i < newDim"
  then have e: "distinct em" "n \<le> length em" "\<forall>i\<in>set em. i < length (replicate newDim True)" "take n em = em"
    by (auto simp: edge_map_ok_def)
  show ?thesis
  proof (cases "i \<in> set em")
    case True
    then obtain j where "j < n" "em ! j = i" using em by (auto simp: in_set_conv_nth edge_map_ok_def)
    with single_loop_nth(1) [OF e(1-3), where f = "\<lambda>_. False"] True show ?thesis by auto
  next
    case False
    with single_loop_nth(2) [OF e(1-3), of i "\<lambda>_. False"] e(4) em(2) show ?thesis by simp
  qed
qed

lemma fill_new_ends:
  assumes "wf_box b" "m_dim b = dom_size D"
  shows "same_shape (fill_new D fl b) b" "d < dom_size D \<Longrightarrow> ends (fill_new D fl b) d =
    (if fl ! d then (0, int (getVarPoints_i D d) - 1, bd b d 0, bd b d 1) else ends b d)"
proof -
  let ?V = "\<lambda>d e. if fl ! d then (0, int (getVarPoints_i D d) - 1, snd (snd e)) else e"
  have "same_shape (fill_new D fl b) b \<and>
    (\<forall>d. ends (fill_new D fl b) d = (if d < dom_size D then ?V d (ends b d) else ends b d))"
    unfolding fill_new_def
    by (rule foldl_dims_update) (use assms in \<open>auto simp: ends_setPTS same_shapeD, auto simp: ends_def\<close>)
  then show "same_shape (fill_new D fl b) b" "d < dom_size D \<Longrightarrow> ends (fill_new D fl b) d =
    (if fl ! d then (0, int (getVarPoints_i D d) - 1, bd b d 0, bd b d 1) else ends b d)"
    by (auto simp: ends_def)
qed

lemma ival_same_shape: "same_shape r b \<Longrightarrow> ival r x = ival b x"
  by (simp add: same_shape_def ival_def wt_def quad_val_def)

lemma trans_piece:
  assumes "wf_box b" "0 < m_dim b" "m_degree b \<le> 1" "edge_map_ok em (m_dim b) (dom_size E)" "good_domain E"
    and fl: "\<forall>i<dom_size E. fl ! i \<longleftrightarrow> i \<notin> set em"
  obtains r where "box_transDomain (int (dom_size E) - int (m_dim b)) em b = Some r" "wf_box r"
    "wf_box (fill_new E fl r)" "m_dim (fill_new E fl r) = dom_size E" "m_degree (fill_new E fl r) = m_degree b"
    "\<forall>i<m_dim b. ends (fill_new E fl r) (em ! i) = ends b i"
    "\<forall>d<dom_size E. d \<notin> set em \<longrightarrow> ends (fill_new E fl r) d = (0, int (getVarPoints_i E d) - 1, True, True)"
    "\<forall>x. ival (fill_new E fl r) x = ival b (\<lambda>i. x (em ! i))"
proof -
  have n: "dom_size E < 2 ^ 16" using assms(5) by (simp add: good_domain_def)
  obtain r where r: "box_transDomain (int (dom_size E) - int (m_dim b)) em b = Some r"
    "m_dim r = dom_size E" "m_degree r = m_degree b" "\<forall>i<m_dim b. ends r (em ! i) = ends b i"
    "\<forall>d<dom_size E. d \<notin> set em \<longrightarrow> ends r d = (0, 0, True, True)"
    by (rule box_transDomain_Some [OF assms(1,4) n])
  note iv = ival_transDomain [OF r(1) assms(1,4) n assms(2,3)]
  note f = fill_new_ends [where fl = fl, OF iv(1) r(2)]
  have em: "i < m_dim b \<Longrightarrow> em ! i < dom_size E \<and> em ! i \<in> set em" for i
    using assms(4) nth_mem [of i em] by (auto simp: edge_map_ok_def)
  show ?thesis
  proof (rule that [OF r(1) iv(1)])
    show "wf_box (fill_new E fl r)" "m_dim (fill_new E fl r) = dom_size E"
      "m_degree (fill_new E fl r) = m_degree b" using f(1) r(2,3) by (simp_all add: same_shape_def)
    show "\<forall>i<m_dim b. ends (fill_new E fl r) (em ! i) = ends b i"
      using f(2) r(4) em fl by simp
    show "\<forall>d<dom_size E. d \<notin> set em \<longrightarrow> ends (fill_new E fl r) d = (0, int (getVarPoints_i E d) - 1, True, True)"
    proof (intro allI impI)
      fix d assume d: "d < dom_size E" "d \<notin> set em"
      with r(5) have "ends r d = (0, 0, True, True)" by blast
      with f(2) [OF d(1)] fl d show "ends (fill_new E fl r) d = (0, int (getVarPoints_i E d) - 1, True, True)"
        by (simp add: ends_def)
    qed
    show "\<forall>x. ival (fill_new E fl r) x = ival b (\<lambda>i. x (em ! i))"
      using ival_same_shape [OF f(1)] iv(2) by simp
  qed
qed

lemma in_box_trans:
  assumes "edge_map_ok em (m_dim b) n" "m_dim r = n" "\<forall>i<m_dim b. ends r (em ! i) = ends b i"
    "\<forall>d<n. d \<notin> set em \<longrightarrow> ends r d = (0, hi d, True, True)"
  shows "in_box r x \<longleftrightarrow> in_box b (\<lambda>i. x (em ! i)) \<and> (\<forall>d<n. d \<notin> set em \<longrightarrow> 0 \<le> x d \<and> x d \<le> hi d)"
proof -
  let ?I = "\<lambda>e p. case e of (l, h, lb, hb) \<Rightarrow> (l < p \<or> l = p \<and> lb) \<and> (p < (h::int) \<or> p = h \<and> hb)"
  have len: "length em = m_dim b" "\<forall>i\<in>set em. i < n" using assms(1) by (auto simp: edge_map_ok_def)
  have split: "(\<forall>d<n. Q d) \<longleftrightarrow> (\<forall>d\<in>set em. Q d) \<and> (\<forall>d<n. d \<notin> set em \<longrightarrow> Q d)" for Q
    using len(2) by blast
  have "in_box r x \<longleftrightarrow> (\<forall>d\<in>set em. ?I (ends r d) (x d)) \<and> (\<forall>d<n. d \<notin> set em \<longrightarrow> ?I (ends r d) (x d))"
    unfolding in_box_ends assms(2) by (rule split)
  also have "(\<forall>d\<in>set em. ?I (ends r d) (x d)) \<longleftrightarrow> (\<forall>i<m_dim b. ?I (ends r (em ! i)) (x (em ! i)))"
    using len(1) by (simp add: all_set_conv_all_nth)
  also have "\<dots> \<longleftrightarrow> (\<forall>i<m_dim b. ?I (ends b i) (x (em ! i)))" using assms(3) by simp
  also have "(\<forall>d<n. d \<notin> set em \<longrightarrow> ?I (ends r d) (x d)) \<longleftrightarrow> (\<forall>d<n. d \<notin> set em \<longrightarrow> 0 \<le> x d \<and> x d \<le> hi d)"
    using assms(4) by (simp add: le_less)
  finally show ?thesis unfolding in_box_ends .
qed

text \<open>The new domain has at least the points of the old one in each mapped dimension.\<close>

definition fits :: "ivpdomain \<Rightarrow> ivpdomain \<Rightarrow> nat list \<Rightarrow> bool" where
  "fits D E em \<longleftrightarrow> (\<forall>i<dom_size D. getVarPoints_i D i \<le> getVarPoints_i E (em ! i))"

lemma trans_good:
  assumes "good_piece D deg b" "good_domain D" "fits D E em" "edge_map_ok em (dom_size D) (dom_size E)" "good_domain E"
    "wf_box r" "m_dim r = dom_size E" "m_degree r = deg" "\<forall>i<m_dim b. ends r (em ! i) = ends b i"
    "\<forall>d<dom_size E. d \<notin> set em \<longrightarrow> ends r d = (0, int (getVarPoints_i E d) - 1, True, True)"
  shows "good_piece E deg r"
proof -
  have "0 \<le> pt r d 0 \<and> pt r d 0 \<le> pt r d 1 \<and> pt r d 1 \<le> int (getVarPoints_i E d) - 1" if d: "d < dom_size E" for d
  proof (cases "d \<in> set em")
    case True
    then obtain i where i: "i < dom_size D" "d = em ! i" using assms(4) by (auto simp: in_set_conv_nth edge_map_ok_def)
    with assms(1,9) have "ends r d = ends b i" by (simp add: good_piece_def)
    moreover have "0 \<le> pt b i 0" "pt b i 0 \<le> pt b i 1" "pt b i 1 \<le> int (getVarPoints_i D i) - 1"
      using assms(1) i(1) by (simp_all add: good_piece_def)
    moreover have "getVarPoints_i D i \<le> getVarPoints_i E d" using assms(3) i by (simp add: fits_def)
    ultimately show ?thesis unfolding ends_eq_iff by linarith
  next
    case False
    with d assms(10) have "ends r d = (0, int (getVarPoints_i E d) - 1, True, True)" by blast
    with good_domain_points [OF assms(5) d] show ?thesis by (simp add: ends_def)
  qed
  with assms(6-8) show ?thesis by (simp add: good_piece_def)
qed

theorem pd_transDomain_wf:
  assumes "wf_pdmap pd" "good_domain E" "edge_map_ok em (dom_size (pd_domain pd)) (dom_size E)"
    "fits (pd_domain pd) E em"
  obtains pd' where "pd_transDomain E em pd = Some pd'" "wf_pdmap pd'" "pd_domain pd' = E"
    "m_boxCount pd' = m_boxCount pd" "pd_degree pd' = pd_degree pd" "(m_grid pd' = None) = (m_grid pd = None)"
    "\<forall>i<m_boxCount pd. \<forall>x. ival (pieces pd' ! i) x = ival (pieces pd ! i) (\<lambda>j. x (em ! j)) \<and>
       (in_box (pieces pd' ! i) x \<longleftrightarrow> in_box (pieces pd ! i) (\<lambda>j. x (em ! j)) \<and>
         (\<forall>d<dom_size E. d \<notin> set em \<longrightarrow> 0 \<le> x d \<and> x d \<le> int (getVarPoints_i E d) - 1))"
    "\<forall>i<m_boxCount pd. inclusive (pieces pd ! i) \<longrightarrow> inclusive (pieces pd' ! i)"
proof -
  note w = wf_pdmapD [OF assms(1)]
  let ?n = "dom_size (pd_domain pd)" and ?m = "dom_size E"
  define fl where "fl = foldl (\<lambda>fs i. fs[em ! i := False]) (replicate ?m True) [0..<?n]"
  have fl: "\<forall>i<?m. fl ! i \<longleftrightarrow> i \<notin> set em" using flags_loop [OF assms(3)] by (simp add: fl_def)
  define tb where "tb b = the (box_transDomain (int ?m - int ?n) em b)" for b
  define h where "h b = fill_new E fl (tb b)" for b
  have T: "box_transDomain (int ?m - int ?n) em b = Some (tb b) \<and> wf_box (tb b) \<and> wf_box (h b) \<and> m_dim (h b) = ?m \<and>
      m_degree (h b) = m_degree b \<and> (\<forall>i<m_dim b. ends (h b) (em ! i) = ends b i) \<and>
      (\<forall>d<?m. d \<notin> set em \<longrightarrow> ends (h b) d = (0, int (getVarPoints_i E d) - 1, True, True)) \<and>
      (\<forall>x. ival (h b) x = ival b (\<lambda>i. x (em ! i)))"
    if b: "wf_box b" "m_dim b = ?n" "m_degree b \<le> 1" for b
  proof -
    have n: "0 < m_dim b" using b(2) w(1) by (simp add: good_domain_def)
    show ?thesis unfolding h_def
      by (rule trans_piece [OF b(1) n b(3) assms(3) [folded b(2)] assms(2) fl]) (simp add: tb_def b(2))
  qed
  have gp: "p \<in> set (ptrs pd) \<Longrightarrow> good_piece (pd_domain pd) (pd_degree pd) (pd_store pd p)" for p
    using w(4) by (simp add: pieces_def)
  have Tp: "b \<in> set (pieces pd) \<Longrightarrow> wf_box b \<and> m_dim b = ?n \<and> m_degree b \<le> 1 \<and> m_degree b = pd_degree pd" for b
    using w(2,4) by (auto simp: good_piece_def)
  note Tg = T [OF w(5-7)]
  let ?st1 = "\<lambda>p. if p \<in> set (ptrs pd) then tb (pd_store pd p) else pd_store pd p"
  let ?st2 = "\<lambda>p. if p \<in> set (ptrs pd) then fill_new E fl (?st1 p) else ?st1 p"
  have t1: "p \<in> set (ptrs pd) \<Longrightarrow> box_transDomain (int ?m - int ?n) em (pd_store pd p) = Some (tb (pd_store pd p))" for p
    using T [of "pd_store pd p"] gp [of p] w(2) by (simp add: good_piece_def)
  have o1: "on_boxes (box_transDomain (int ?m - int ?n) em) (pd\<lparr>m_gelbox := tb (m_gelbox pd)\<rparr>) =
      Some (pd\<lparr>m_gelbox := tb (m_gelbox pd), pd_store := ?st1\<rparr>)"
    by (rule on_boxes_run) (use w(3) t1 in simp_all)
  have o2: "on_boxes (\<lambda>b. Some (fill_new E fl b)) (pd\<lparr>pd_store := ?st1, m_gelbox := h (m_gelbox pd)\<rparr>) =
      Some (pd\<lparr>m_gelbox := h (m_gelbox pd), pd_store := ?st2\<rparr>)"
    using on_boxes_run [of "pd\<lparr>pd_store := ?st1, m_gelbox := h (m_gelbox pd)\<rparr>" ?st1 "ptrs pd"
        "\<lambda>b. Some (fill_new E fl b)" "fill_new E fl"] w(3) by simp
  define pd3 where "pd3 = pd\<lparr>m_gelbox := h (m_gelbox pd), pd_store := ?st2, pd_domain := E\<rparr>"
  have f3: "pd_domain pd3 = E" "m_gelbox pd3 = h (m_gelbox pd)" "pd_degree pd3 = pd_degree pd"
    "m_boxCount pd3 = m_boxCount pd" "ptrs pd3 = ptrs pd" "filled pd3" "m_grid pd3 = m_grid pd"
    "pieces pd3 = map h (pieces pd)"
    using w(3) by (simp_all add: pd3_def pieces_def h_def)
  have pc3: "\<forall>b\<in>set (pieces pd3). good_piece E (pd_degree pd) b"
  proof
    fix r assume "r \<in> set (pieces pd3)"
    then obtain b where b: "b \<in> set (pieces pd)" "r = h b" by (auto simp: f3(8))
    note q = Tp [OF b(1)]
    have t: "wf_box (h b) \<and> m_dim (h b) = ?m \<and> m_degree (h b) = pd_degree pd \<and>
      (\<forall>i<m_dim b. ends (h b) (em ! i) = ends b i) \<and>
      (\<forall>d<?m. d \<notin> set em \<longrightarrow> ends (h b) d = (0, int (getVarPoints_i E d) - 1, True, True))"
      using T [of b] q by simp
    show "good_piece E (pd_degree pd) r"
      unfolding b(2) by (rule trans_good [OF w(4) [OF b(1)] w(1) assms(4,3,2)]) (use t in blast)+
  qed
  have core: "wf_core pd3" unfolding wf_core_def wf_pdmap_def using f3 pc3 Tg w(2,7) assms(2) by simp
  have all: "list_all (\<lambda>i. em ! i < ?m) [0..<?n]"
    using assms(3) by (auto simp: list_all_upt edge_map_ok_def)
  have run: "pd_transDomain E em pd = (if m_grid pd3 \<noteq> None then updateGrid True True pd3 else Some pd3)"
    using Tg o1 o2 all
    by (simp add: pd_transDomain_def Let_def fl_def [symmetric] fill_new_def [symmetric] h_def pd3_def)
  have sem: "\<forall>i<m_boxCount pd. \<forall>x. ival (pieces pd3 ! i) x = ival (pieces pd ! i) (\<lambda>j. x (em ! j)) \<and>
       (in_box (pieces pd3 ! i) x \<longleftrightarrow> in_box (pieces pd ! i) (\<lambda>j. x (em ! j)) \<and>
         (\<forall>d<?m. d \<notin> set em \<longrightarrow> 0 \<le> x d \<and> x d \<le> int (getVarPoints_i E d) - 1))"
  proof (intro allI impI)
    fix i x assume i: "i < m_boxCount pd"
    let ?b = "pieces pd ! i"
    have b: "wf_box ?b" "m_dim ?b = ?n" "m_degree ?b \<le> 1" using Tp [OF nth_mem [of i "pieces pd"]] i by simp_all
    note t = T [OF b]
    have e: "pieces pd3 ! i = h ?b" using i by (simp add: f3(8))
    show "ival (pieces pd3 ! i) x = ival ?b (\<lambda>j. x (em ! j)) \<and>
       (in_box (pieces pd3 ! i) x \<longleftrightarrow> in_box ?b (\<lambda>j. x (em ! j)) \<and>
         (\<forall>d<?m. d \<notin> set em \<longrightarrow> 0 \<le> x d \<and> x d \<le> int (getVarPoints_i E d) - 1))"
      unfolding e using t in_box_trans [OF assms(3) [folded b(2)], of "h ?b" "\<lambda>d. int (getVarPoints_i E d) - 1" x] by simp
  qed
  have incl: "\<forall>i<m_boxCount pd. inclusive (pieces pd ! i) \<longrightarrow> inclusive (pieces pd3 ! i)"
  proof (intro allI impI)
    fix i assume i: "i < m_boxCount pd" "inclusive (pieces pd ! i)"
    let ?b = "pieces pd ! i"
    have b: "wf_box ?b" "m_dim ?b = ?n" "m_degree ?b \<le> 1" using Tp [OF nth_mem [of i "pieces pd"]] i by simp_all
    note t = T [OF b]
    have "bd (h ?b) d 0 \<and> bd (h ?b) d 1" if d: "d < ?m" for d
    proof (cases "d \<in> set em")
      case True
      then obtain j where j: "j < ?n" "d = em ! j" using assms(3) by (auto simp: in_set_conv_nth edge_map_ok_def)
      then have "ends (h ?b) d = ends ?b j" using t b(2) by simp
      with i(2) j b(2) show ?thesis by (simp add: ends_def inclusive_def)
    next
      case False
      with t d have "ends (h ?b) d = (0, int (getVarPoints_i E d) - 1, True, True)" by blast
      then show ?thesis by (simp add: ends_def)
    qed
    with t i show "inclusive (pieces pd3 ! i)" by (simp add: f3(8) inclusive_def)
  qed
  show ?thesis
  proof (cases "m_grid pd = None")
    case True
    with core f3(7) have "wf_pdmap pd3" by (simp add: wf_pdmap_split)
    with that [of pd3] run True f3 sem incl show ?thesis by simp
  next
    case False
    obtain pd' where p: "updateGrid True True pd3 = Some pd'" "wf_pdmap pd'" "same_but_grid pd' pd3" "m_grid pd' \<noteq> None"
      by (rule updateGrid_wf [OF core])
    show ?thesis
      by (rule that [of pd'], unfold same_but_gridD [OF p(3)]) (use run False p(1,2,4) f3 sem incl in \<open>simp_all, auto\<close>)
  qed
qed

section \<open>The interface the solver relies on\<close>

text \<open>
  To the solver a function is a set of pieces with a query, which finds at least the pieces
  that share a point with the box asked for, and a bound on the values of those pieces. \<open>probe\<close>
  says which boxes may be asked.
\<close>

locale piece_index =
  fixes ok :: "'f \<Rightarrow> bool"
    and probe :: "'f \<Rightarrow> ivpbox \<Rightarrow> bool"
    and piece :: "'f \<Rightarrow> box_ptr \<Rightarrow> ivpbox"
    and members :: "'f \<Rightarrow> box_ptr set"
    and query :: "'f \<Rightarrow> ivpbox \<Rightarrow> box_ptr list option"
    and bound :: "'f \<Rightarrow> ivpbox \<Rightarrow> real option"
  assumes query_law: "ok f \<Longrightarrow> probe f q \<Longrightarrow> \<exists>r. query f q = Some r \<and> set r \<subseteq> members f \<and>
      (\<forall>p\<in>members f. \<forall>x. in_box q x \<longrightarrow> in_box (piece f p) x \<longrightarrow> p \<in> set r)"
    and bound_law: "ok f \<Longrightarrow> probe f q \<Longrightarrow> \<exists>u. bound f q = Some u \<and>
      (\<forall>p\<in>members f. \<forall>x. in_box q x \<longrightarrow> in_box (piece f p) x \<longrightarrow> ival (piece f p) x \<le> u)"
begin

text \<open>Bounds of several functions add up to a bound of the sum, for any choice of pieces.\<close>

lemma total_bound:
  assumes "\<forall>f\<in>set fs. ok f \<and> probe f q"
  shows "\<exists>t. foldM (\<lambda>b f. bound f q \<bind> (\<lambda>u. Some (b + u))) a fs = Some t \<and>
    (\<forall>ps x. in_box q x \<longrightarrow> list_all2 (\<lambda>p f. p \<in> members f \<and> in_box (piece f p) x) ps fs \<longrightarrow>
       a + sum_list (map2 (\<lambda>p f. ival (piece f p) x) ps fs) \<le> t)"
  using assms
proof (induction fs arbitrary: a)
  case (Cons f fs)
  then obtain u where u: "bound f q = Some u"
    "\<forall>p\<in>members f. \<forall>x. in_box q x \<longrightarrow> in_box (piece f p) x \<longrightarrow> ival (piece f p) x \<le> u"
    using bound_law [of f q] by auto
  from Cons obtain t where t: "foldM (\<lambda>b f. bound f q \<bind> (\<lambda>u. Some (b + u))) (a + u) fs = Some t"
    "\<forall>ps x. in_box q x \<longrightarrow> list_all2 (\<lambda>p f. p \<in> members f \<and> in_box (piece f p) x) ps fs \<longrightarrow>
       a + u + sum_list (map2 (\<lambda>p f. ival (piece f p) x) ps fs) \<le> t" by fastforce
  have "a + sum_list (map2 (\<lambda>p f. ival (piece f p) x) ps (f # fs)) \<le> t"
    if h: "in_box q x" "list_all2 (\<lambda>p f. p \<in> members f \<and> in_box (piece f p) x) ps (f # fs)" for ps x
  proof -
    obtain p qs where p: "ps = p # qs" "p \<in> members f" "in_box (piece f p) x"
      "list_all2 (\<lambda>p f. p \<in> members f \<and> in_box (piece f p) x) qs fs"
      using h(2) by (auto simp: list_all2_Cons2)
    with t(2) u(2) h(1) have "a + u + sum_list (map2 (\<lambda>p f. ival (piece f p) x) qs fs) \<le> t"
      "ival (piece f p) x \<le> u" by blast+
    then show ?thesis by (simp add: p(1))
  qed
  with u(1) t(1) show ?case by auto
qed simp

end

definition pd_bound :: "pdmap \<Rightarrow> ivpbox \<Rightarrow> real option" where
  "pd_bound pd q = map_option (\<lambda>g. getCheapBound g q) (m_grid pd)"

definition pd_probe :: "pdmap \<Rightarrow> ivpbox \<Rightarrow> bool" where
  "pd_probe pd q \<longleftrightarrow> m_dim q = dom_size (pd_domain pd) \<and> (\<forall>d<m_dim q. 0 \<le> pt q d 1)"

text \<open>A well-formed map with a grid provides it.\<close>

interpretation pm: piece_index "\<lambda>pd. wf_pdmap pd \<and> m_grid pd \<noteq> None" pd_probe pd_store
  "\<lambda>pd. set (ptrs pd)" pd_getBS pd_bound
proof (unfold_locales, goal_cases)
  case (1 pd q)
  then have q: "m_dim q = dom_size (pd_domain pd)" "\<forall>d<m_dim q. 0 \<le> pt q d 1" "wf_pdmap pd"
    by (simp_all add: pd_probe_def)
  show ?case
  proof (rule pd_getBS_result [OF q(3,1,2)])
    fix r assume r: "pd_getBS pd q = Some r"
      "set r \<subseteq> {p \<in> set (ptrs pd). box_intersect q (pd_store pd p)}"
      "\<And>p x. p \<in> set (ptrs pd) \<Longrightarrow> in_box q x \<Longrightarrow> in_box (pd_store pd p) x \<Longrightarrow> p \<in> set r"
    show "\<exists>r. pd_getBS pd q = Some r \<and> set r \<subseteq> set (ptrs pd) \<and>
      (\<forall>p\<in>set (ptrs pd). \<forall>x. in_box q x \<longrightarrow> in_box (pd_store pd p) x \<longrightarrow> p \<in> set r)"
      by (intro exI [of _ r] conjI ballI allI impI) (use r in auto)
  qed
next
  case (2 pd q)
  then obtain g where g: "m_grid pd = Some g" by auto
  from 2 have wf: "wf_pdmap pd" and q: "m_dim q = dom_size (pd_domain pd)" by (simp_all add: pd_probe_def)
  note w = wf_pdmapD [OF wf]
  have gf: "grid_for (pd_domain pd) (pd_store pd) (set (ptrs pd)) g" by (rule w(8) [OF g])
  then have i: "indexed (pd_store pd) (set (ptrs pd)) g" "bounded (pd_store pd) (set (ptrs pd)) g"
    "g_dim g = dom_size (pd_domain pd)" by (simp_all add: grid_for_def)
  have "ival (pd_store pd p) x \<le> getCheapBound g q"
    if p: "p \<in> set (ptrs pd)" "in_box q x" "in_box (pd_store pd p) x" for p x
  proof -
    have gp: "good_piece (pd_domain pd) (pd_degree pd) (pd_store pd p)" using w(4) p(1) by (simp add: pieces_def)
    have "in_domain g x" using good_piece_in_dom [OF gp in_box_closure [OF p(3)]] grid_for_in_domain [OF gf] by simp
    with gp p q i(3) have "meet g q (pd_store pd p)"
      using meet_point [OF indexed_wf [OF i(1)]] by (simp add: good_piece_def)
    from getCheapBound_upper [OF i(2) p(1) this]
    have "maxVal (pd_store pd p) \<le> getCheapBound g q" .
    moreover have "ival (pd_store pd p) x \<le> maxVal (pd_store pd p)"
      using maxVal_upper [OF _ in_box_closure [OF p(3)]] gp w(2) by (simp add: good_piece_def)
    ultimately show ?thesis by linarith
  qed
  then show ?case using g by (simp add: pd_bound_def)
qed

lemma spanning_box_facts:
  assumes "dom_size D < 2 ^ 16" "deg < 2 ^ 16"
  shows "wf_box (spanning_box D (int deg))" "m_dim (spanning_box D (int deg)) = dom_size D"
    "m_degree (spanning_box D (int deg)) = deg"
proof -
  let ?b = "IvPBox_new (int (dom_size D)) (int deg)"
  have b: "m_dim ?b = dom_size D" "m_degree ?b = deg" using assms by simp_all
  have "same_shape (spanning_box D (int deg)) ?b"
    unfolding spanning_box_def
    by (rule foldl_dims_update [where V = "\<lambda>d (l, h, u, v). (0, int (getVarPoints_i D d) - 1, u, v)", THEN conjunct1])
      (use b in \<open>auto simp: ends_setPTS same_shapeD, auto simp: ends_def\<close>)
  with b show "wf_box (spanning_box D (int deg))" "m_dim (spanning_box D (int deg)) = dom_size D"
    "m_degree (spanning_box D (int deg)) = deg" by (simp_all add: same_shape_def)
qed

section \<open>Properties\<close>

text \<open>A map of two pieces over ten points, without a grid.\<close>

definition ex_pd :: "ivpbox \<Rightarrow> ivpbox \<Rightarrow> pdmap" where
  "ex_pd a b = \<lparr>pd_domain = ex_line, m_boxes = [Some 0, Some 1], m_boxCount = 2, pd_degree = 1,
     m_gelbox = ex_box 0 4 0 0, m_grid = None, pd_store = (\<lambda>p. if p = 0 then a else b), pd_next = 2\<rparr>"

lemma ex_pd_facts [simp]:
  "pd_domain (ex_pd a b) = ex_line" "m_boxCount (ex_pd a b) = 2" "m_grid (ex_pd a b) = None"
  "ptrs (ex_pd a b) = [0, 1]" "pieces (ex_pd a b) = [a, b]" "pd_degree (ex_pd a b) = 1"
  "pd_store (ex_pd a b) p = (if p = 0 then a else b)" "dom_size ex_line = 1"
  by (simp_all add: ex_pd_def ptrs_def pieces_def ex_line_facts numeral_2_eq_2)

lemma good_ex_box: "0 \<le> l \<Longrightarrow> l \<le> h \<Longrightarrow> h \<le> 9 \<Longrightarrow> good_piece ex_line 1 (ex_box l h s i)"
  by (simp add: good_piece_def ex_box_facts(1-3,8,9) ex_line_facts(3) del: One_nat_def)

lemma wf_ex_pd: "good_piece ex_line 1 a \<Longrightarrow> good_piece ex_line 1 b \<Longrightarrow> wf_pdmap (ex_pd a b)"
  unfolding wf_pdmap_def
  by (simp add: good_domain_def ex_line_facts(1) filled_def ex_box_facts(1-3))
    (simp add: ex_pd_def ex_box_facts(1-3) less_2_cases_iff)

text \<open>The point 3 of the example.\<close>

lemma ex_point: "at_point (ex_box k k s i) (\<lambda>_. k)"
  by (simp add: at_point_def ends_def ex_box_def bd_def pt_def)

lemma in_ex_line: "in_dom ex_line x = (0 \<le> x 0 \<and> x 0 \<le> 9)"
  by (simp add: in_dom_def ex_line_facts(3))

lemma hits_pieces: "map (pd_store pd) (hits pd x) = [b \<leftarrow> pieces pd. in_box b x]"
  by (simp add: hits_def pieces_def filter_map comp_def)



text \<open>\<open>normalize\<close> maps the range of the values onto an interval of the width asked for, affinely
  and without moving a piece; since it shifts before it scales, the new minimum is the base asked for
  times the scale, and equals the base only when one of them is trivial.\<close>

theorem normalize_effect:
  assumes "wf_pdmap pd" "0 < m_boxCount pd" "0 \<le> tr" "getMinWT pd = Some mn" "getMaxWT pd = Some mx" "mn < mx"
  shows "\<exists>pd'. normalize tb tr pd = Some pd' \<and> wf_pdmap pd' \<and>
    getMinWT pd' = Some (tb * (tr / (mx - mn))) \<and> getMaxWT pd' = Some (tb * (tr / (mx - mn)) + tr) \<and>
    list_all2 (\<lambda>b b'. (\<forall>x. in_box b' x = in_box b x) \<and>
      (\<forall>x. ival b' x = (ival b x + (tb - mn)) * (tr / (mx - mn)))) (pieces pd) (pieces pd')"
proof -
  obtain pd' where n: "normalize tb tr pd = Some pd'" "wf_pdmap pd'"
    "pd_domain pd' = pd_domain pd" "pd_degree pd' = pd_degree pd" "m_boxCount pd' = m_boxCount pd"
    "ptrs pd' = ptrs pd" "(m_grid pd' = None) = (m_grid pd = None)"
    "pieces pd' = map (\<lambda>b. scaleWT (tr / (mx - mn)) (moveIntercept (tb - mn) b)) (pieces pd)"
    by (rule normalize_wf [OF assms])
  have mm: "getMinWT pd' = Some (norm_value mn mx tb tr mn)" "getMaxWT pd' = Some (norm_value mn mx tb tr mx)"
    by (rule normalize_range [OF assms n(1)])+
  have "(mx + (tb - mn)) * k = tb * k + (mx - mn) * k" for k
    by (simp add: algebra_simps)
  from this [of "tr / (mx - mn)"] have e: "norm_value mn mx tb tr mn = tb * (tr / (mx - mn))"
    "norm_value mn mx tb tr mx = tb * (tr / (mx - mn)) + tr"
    using assms(6) by (simp_all add: norm_value_def)
  have w: "good_domain (pd_domain pd)" "pd_degree pd \<le> 1" using wf_pdmapD [OF assms(1)] by auto
  have "list_all2 (\<lambda>b b'. (\<forall>x. in_box b' x = in_box b x) \<and>
      (\<forall>x. ival b' x = (ival b x + (tb - mn)) * (tr / (mx - mn)))) (pieces pd) (pieces pd')"
    unfolding n(8) list_all2_map2 list.rel_refl_strong
    by (rule list_all2_same [THEN iffD2])
      (use normalized_piece(1,4) [OF wf_pdmapD(4) [OF assms(1)] w assms(3,6)] in \<open>simp add: norm_value_def\<close>)
  with n(1,2) mm e show ?thesis by simp
qed

theorem normalize_effect_witness:
  "\<exists>pd'. normalize 0 100 (ex_pd (ex_box 0 4 1 0) (ex_box 5 9 (-1) 9)) = Some pd' \<and> wf_pdmap pd' \<and>
    getMinWT pd' = Some (0 * (100 / (4 - 0))) \<and> getMaxWT pd' = Some (0 * (100 / (4 - 0)) + 100) \<and>
    list_all2 (\<lambda>b b'. (\<forall>x. in_box b' x = in_box b x) \<and>
      (\<forall>x. ival b' x = (ival b x + (0 - 0)) * (100 / (4 - 0))))
      (pieces (ex_pd (ex_box 0 4 1 0) (ex_box 5 9 (-1) 9))) (pieces pd')"
proof (rule normalize_effect)
  let ?pd = "ex_pd (ex_box 0 4 1 0) (ex_box 5 9 (-1) 9)"
  show w: "wf_pdmap ?pd" by (intro wf_ex_pd good_ex_box) simp_all
  have v: "minVal (ex_box 0 4 1 0) = 0" "maxVal (ex_box 0 4 1 0) = 4" "minVal (ex_box 5 9 (-1) 9) = 0"
    "maxVal (ex_box 5 9 (-1) 9) = 4" by (simp_all add: minVal_def maxVal_def ex_box_def pt_def wt_def)
  show "getMinWT ?pd = Some 0" "getMaxWT ?pd = Some 4"
    using getMinMaxWT [OF wf_pdmapD(3) [OF w]] by (simp_all add: v)
qed simp_all

text \<open>\<open>applyWeight\<close> scales every piece and the bounds of the grid with it, so that the map stays
  well formed: no bound falls below a piece it stands for.\<close>

theorem applyWeight_effect:
  assumes "wf_pdmap pd" "0 \<le> w"
  shows "\<exists>pd'. applyWeight w pd = Some pd' \<and> wf_pdmap pd' \<and> pieces pd' = map (scaleWT w) (pieces pd) \<and>
    (\<forall>g q p x. m_grid pd' = Some g \<and> p \<in> set (ptrs pd') \<and> in_dom (pd_domain pd) x \<and> in_box q x \<and>
       in_box (pd_store pd' p) x \<and> m_dim q = g_dim g \<longrightarrow> maxVal (pd_store pd' p) \<le> getCheapBound g q)"
proof -
  obtain pd' where a: "applyWeight w pd = Some pd'" "wf_pdmap pd'" "pieces pd' = map (scaleWT w) (pieces pd)"
    "pd_domain pd' = pd_domain pd" by (rule applyWeight_wf [OF assms])
  have "maxVal (pd_store pd' p) \<le> getCheapBound g q"
    if h: "m_grid pd' = Some g" "p \<in> set (ptrs pd')" "in_dom (pd_domain pd) x" "in_box q x"
      "in_box (pd_store pd' p) x" "m_dim q = g_dim g" for g q p x
  proof -
    have g: "grid_for (pd_domain pd') (pd_store pd') (set (ptrs pd')) g" by (rule wf_pdmapD(8) [OF a(2) h(1)])
    then have i: "indexed (pd_store pd') (set (ptrs pd')) g" "bounded (pd_store pd') (set (ptrs pd')) g"
      "g_dim g = dom_size (pd_domain pd')" by (simp_all add: grid_for_def)
    have "m_dim (pd_store pd' p) = g_dim g"
      using wf_pdmapD(4) [OF a(2), of "pd_store pd' p"] h(2) i(3) by (simp add: pieces_def good_piece_def)
    moreover have "in_domain g x" using grid_for_in_domain [OF g] h(3) a(4) by simp
    ultimately show ?thesis using getCheapBound_upper [OF i(2) h(2)] meet_point [OF indexed_wf [OF i(1)]] h by blast
  qed
  with a show ?thesis by blast
qed

theorem applyWeight_effect_witness:
  "\<exists>pd'. applyWeight 2 (ex_pd (ex_box 0 4 1 0) (ex_box 5 9 (-1) 9)) = Some pd' \<and> wf_pdmap pd' \<and>
    pieces pd' = map (scaleWT 2) (pieces (ex_pd (ex_box 0 4 1 0) (ex_box 5 9 (-1) 9))) \<and>
    (\<forall>g q p x. m_grid pd' = Some g \<and> p \<in> set (ptrs pd') \<and>
       in_dom (pd_domain (ex_pd (ex_box 0 4 1 0) (ex_box 5 9 (-1) 9))) x \<and> in_box q x \<and>
       in_box (pd_store pd' p) x \<and> m_dim q = g_dim g \<longrightarrow> maxVal (pd_store pd' p) \<le> getCheapBound g q)"
  by (rule applyWeight_effect) (intro wf_ex_pd good_ex_box, simp_all)

text \<open>\<open>getBS\<close>, with or without a grid, returns no piece twice, only pieces that intersect the
  query, and every piece that shares a point with it.\<close>

theorem pieces_query:
  assumes "wf_pdmap pd" "m_dim q = dom_size (pd_domain pd)" "\<forall>d<m_dim q. 0 \<le> pt q d 1"
  shows "\<exists>r. pd_getBS pd q = Some r \<and> distinct r \<and>
    set r \<subseteq> {p \<in> set (ptrs pd). box_intersect q (pd_store pd p)} \<and>
    (\<forall>p x. p \<in> set (ptrs pd) \<and> in_box q x \<and> in_box (pd_store pd p) x \<longrightarrow> p \<in> set r)"
  using pd_getBS_result [OF assms] by metis

theorem pieces_query_witness:
  "\<exists>r. pd_getBS (ex_pd (ex_box 0 4 1 0) (ex_box 5 9 (-1) 9)) (ex_box 3 6 0 0) = Some r \<and> distinct r \<and>
    set r \<subseteq> {p \<in> {0, 1}. box_intersect (ex_box 3 6 0 0) (if p = 0 then ex_box 0 4 1 0 else ex_box 5 9 (-1) 9)} \<and>
    (\<forall>p x. p \<in> {0, 1} \<and> in_box (ex_box 3 6 0 0) x \<and>
      in_box (if p = 0 then ex_box 0 4 1 0 else ex_box 5 9 (-1) 9) x \<longrightarrow> p \<in> set r)"
proof -
  have "wf_pdmap (ex_pd (ex_box 0 4 1 0) (ex_box 5 9 (-1) 9))" by (intro wf_ex_pd good_ex_box) simp_all
  from pieces_query [OF this, of "ex_box 3 6 0 0"] show ?thesis
    by (simp add: ex_box_facts(2,9) del: One_nat_def split del: if_split)
qed

text \<open>The copy constructor makes a map with the same pieces in the same order, in boxes of its
  own, and with a grid that indexes them.\<close>

theorem copy_same_pieces:
  assumes "wf_pdmap pd"
  shows "\<exists>pd'. PDMap_copy pd = Some pd' \<and> wf_pdmap pd' \<and> pieces pd' = pieces pd \<and>
    pd_domain pd' = pd_domain pd \<and> pd_degree pd' = pd_degree pd \<and> m_gelbox pd' = m_gelbox pd \<and> m_grid pd' \<noteq> None"
  using PDMap_copy_wf [OF assms] by metis

theorem copy_same_pieces_witness:
  "\<exists>pd'. PDMap_copy (ex_pd (ex_box 0 4 1 0) (ex_box 5 9 (-1) 9)) = Some pd' \<and> wf_pdmap pd' \<and>
    pieces pd' = pieces (ex_pd (ex_box 0 4 1 0) (ex_box 5 9 (-1) 9)) \<and>
    pd_domain pd' = pd_domain (ex_pd (ex_box 0 4 1 0) (ex_box 5 9 (-1) 9)) \<and>
    pd_degree pd' = pd_degree (ex_pd (ex_box 0 4 1 0) (ex_box 5 9 (-1) 9)) \<and>
    m_gelbox pd' = m_gelbox (ex_pd (ex_box 0 4 1 0) (ex_box 5 9 (-1) 9)) \<and> m_grid pd' \<noteq> None"
  by (rule copy_same_pieces) (intro wf_ex_pd good_ex_box, simp_all)

text \<open>The default gel box: the loop over the number of cells per edge ends with the least number
  whose cells in all dimensions exceed the limit, and every edge of the gel box is the number of
  points of the variable divided by it, rounded up.\<close>

theorem default_gelbox:
  assumes "good_domain (pd_domain pd)"
  defines "n \<equiv> dom_size (pd_domain pd)" and "mx \<equiv> max_gels (m_boxCount pd) (dom_size (pd_domain pd))"
  defines "gpe \<equiv> gpe_loop n mx 1"
  shows "mx < gpe ^ n \<and> (\<forall>k. 1 \<le> k \<and> k < gpe \<longrightarrow> k ^ n \<le> mx) \<and> mx \<le> 40000 \<and>
    wf_box (m_gelbox (setGelBox_default pd)) \<and>
    (\<forall>d<n. pt (m_gelbox (setGelBox_default pd)) d 1 = int (gel_size (getVarPoints_i (pd_domain pd) d) gpe) \<and>
       gel_size (getVarPoints_i (pd_domain pd) d) gpe = (getVarPoints_i (pd_domain pd) d + gpe - 1) div gpe)"
proof -
  have n: "0 < n" using assms by (simp add: good_domain_def)
  have l: "1 \<le> gpe" "mx < gpe ^ n" "\<forall>k. 1 \<le> k \<and> k < gpe \<longrightarrow> k ^ n \<le> mx"
    using gpe_loop_least [OF n, of 1 mx] by (simp_all add: gpe_def)
  have sz: "gel_size v gpe = (v + gpe - 1) div gpe" for v
  proof -
    have m: "v mod gpe < gpe" using l(1) by simp
    have "v + gpe - 1 = (v div gpe) * gpe + (v mod gpe + gpe - 1)"
      using div_mult_mod_eq [of v gpe] l(1) by linarith
    also have "\<dots> div gpe = v div gpe + (v mod gpe + gpe - 1) div gpe"
      by (rule div_mult_self3) (use l(1) in simp)
    also have "(v mod gpe + gpe - 1) div gpe = (if v mod gpe \<noteq> 0 then 1 else 0)"
    proof (cases "v mod gpe = 0")
      case False
      have "(r + gpe - 1) div gpe = 1" if "0 < r" "r < gpe" for r using that by (intro div_nat_eqI) simp_all
      with False m have "(v mod gpe + gpe - 1) div gpe = 1" by blast
      with False show ?thesis by simp
    qed (use l(1) in simp)
    finally have e: "(v + gpe - 1) div gpe = v div gpe + (if v mod gpe \<noteq> 0 then 1 else 0)" .
    have "(v + gpe - 1) div gpe \<le> v"
    proof (cases "v = 0")
      case False
      then have "v + gpe - 1 \<le> v * gpe" using l(1) by (cases v; cases gpe) auto
      then have "(v + gpe - 1) div gpe \<le> v * gpe div gpe" by (rule div_le_mono)
      with l(1) show ?thesis by simp
    qed (use l(1) in simp)
    with e show ?thesis by (simp add: gel_size_def Let_def)
  qed
  note w = setGelBox_default_wf [OF assms(1), folded n_def, folded mx_def [folded n_def], folded gpe_def]
  have "pt (m_gelbox (setGelBox_default pd)) d 1 = int (gel_size (getVarPoints_i (pd_domain pd) d) gpe)" if "d < n" for d
    using w(4) that by (auto simp: ends_def)
  moreover have "mx \<le> 40000" by (simp add: mx_def max_gels_def Let_def)
  ultimately show ?thesis using l w(1) sz by simp
qed

theorem default_gelbox_witness:
  "max_gels 2 1 < gpe_loop 1 (max_gels 2 1) 1 ^ 1 \<and>
   wf_box (m_gelbox (setGelBox_default (ex_pd (ex_box 0 4 1 0) (ex_box 5 9 (-1) 9)))) \<and>
   pt (m_gelbox (setGelBox_default (ex_pd (ex_box 0 4 1 0) (ex_box 5 9 (-1) 9)))) 0 1 =
     int (gel_size 10 (gpe_loop 1 (max_gels 2 1) 1))"
proof -
  have "good_domain (pd_domain (ex_pd (ex_box 0 4 1 0) (ex_box 5 9 (-1) 9)))"
    by (simp add: good_domain_def ex_line_facts)
  from default_gelbox [OF this] show ?thesis by (simp add: ex_line_facts(3) del: One_nat_def)
qed

text \<open>\<open>removeNULLs\<close> on an array in which some pieces have been deleted keeps the others in
  their order and builds a grid that indexes exactly these.\<close>

theorem removeNULLs_keeps_live:
  assumes "m_boxCount pd \<le> length (m_boxes pd)" "None \<in> set (take (m_boxCount pd) (m_boxes pd))"
    "live = [p. Some p \<leftarrow> take (m_boxCount pd) (m_boxes pd)]" "distinct live" "\<forall>p\<in>set live. p < pd_next pd"
    "good_domain (pd_domain pd)" "pd_degree pd \<le> 1" "wf_box (m_gelbox pd)"
    "m_dim (m_gelbox pd) = dom_size (pd_domain pd)" "m_degree (m_gelbox pd) \<le> 1"
    "\<forall>p\<in>set live. good_piece (pd_domain pd) (pd_degree pd) (pd_store pd p)"
  shows "\<exists>pd'. removeNULLs pd = Some pd' \<and> wf_pdmap pd' \<and> ptrs pd' = live \<and> m_boxCount pd' = length live \<and>
    pd_store pd' = pd_store pd \<and> m_grid pd' \<noteq> None"
  using removeNULLs_wf [OF assms] by metis

theorem removeNULLs_keeps_live_witness:
  "\<exists>pd'. removeNULLs ((ex_pd (ex_box 0 4 1 0) (ex_box 5 9 (-1) 9))\<lparr>m_boxes := [None, Some 1]\<rparr>) = Some pd' \<and>
    wf_pdmap pd' \<and> ptrs pd' = [1] \<and> m_boxCount pd' = length [1 :: nat] \<and>
    pd_store pd' = pd_store ((ex_pd (ex_box 0 4 1 0) (ex_box 5 9 (-1) 9))\<lparr>m_boxes := [None, Some 1]\<rparr>) \<and>
    m_grid pd' \<noteq> None"
  by (rule removeNULLs_keeps_live)
    (simp_all add: ex_pd_def good_domain_def ex_line_facts(1,2) ex_box_facts(1-3) good_ex_box del: One_nat_def)

text \<open>C24: \<open>transDomain\<close> moves a map to a larger domain that holds its variables at the places
  \<open>em\<close>, with at least as many points: every piece keeps its value as a function of its own variables,
  and extends over the whole range of the new ones.\<close>

theorem transDomain_extends:
  assumes "wf_pdmap pd" "good_domain E" "edge_map_ok em (dom_size (pd_domain pd)) (dom_size E)"
    "fits (pd_domain pd) E em"
  shows "\<exists>pd'. pd_transDomain E em pd = Some pd' \<and> wf_pdmap pd' \<and> pd_domain pd' = E \<and>
    m_boxCount pd' = m_boxCount pd \<and>
    (\<forall>i<m_boxCount pd. \<forall>x. ival (pieces pd' ! i) x = ival (pieces pd ! i) (\<lambda>j. x (em ! j)) \<and>
       (in_box (pieces pd' ! i) x \<longleftrightarrow> in_box (pieces pd ! i) (\<lambda>j. x (em ! j)) \<and>
         (\<forall>d<dom_size E. d \<notin> set em \<longrightarrow> 0 \<le> x d \<and> x d \<le> int (getVarPoints_i E d) - 1)))"
proof -
  obtain pd' where "pd_transDomain E em pd = Some pd'" "wf_pdmap pd'" "pd_domain pd' = E"
    "m_boxCount pd' = m_boxCount pd" "pd_degree pd' = pd_degree pd" "(m_grid pd' = None) = (m_grid pd = None)"
    "\<forall>i<m_boxCount pd. \<forall>x. ival (pieces pd' ! i) x = ival (pieces pd ! i) (\<lambda>j. x (em ! j)) \<and>
       (in_box (pieces pd' ! i) x \<longleftrightarrow> in_box (pieces pd ! i) (\<lambda>j. x (em ! j)) \<and>
         (\<forall>d<dom_size E. d \<notin> set em \<longrightarrow> 0 \<le> x d \<and> x d \<le> int (getVarPoints_i E d) - 1))"
    by (rule pd_transDomain_wf [OF assms])
  then show ?thesis by blast
qed

text \<open>The domain of the example with a variable in front of it.\<close>

definition ex_plane :: ivpdomain where
  "ex_plane = snd (addDomain ''x'' 0 9 10 (snd (addDomain ''y'' 0 4 5 empty_domain)))"

lemma ex_plane_facts: "valid_domain ex_plane" "dom_size ex_plane = 2" "getVarPoints_i ex_plane 0 = 5"
  "getVarPoints_i ex_plane 1 = 10" "m_dname ex_plane = [''y'', ''x'']"
  unfolding ex_plane_def
  by (intro addDomain_valid valid_empty,
      simp_all add: addDomain_def hasDomain_def empty_domain_def dom_size_def getVarPoints_i_def)

theorem transDomain_extends_witness:
  "\<exists>pd'. pd_transDomain ex_plane [1] (ex_pd (ex_box 0 4 1 0) (ex_box 5 9 (-1) 9)) = Some pd' \<and> wf_pdmap pd' \<and>
    pd_domain pd' = ex_plane \<and> m_boxCount pd' = 2 \<and> (\<forall>x. ival (pieces pd' ! 1) x = 9 - of_int (x 1))"
proof -
  let ?pd = "ex_pd (ex_box 0 4 1 0) (ex_box 5 9 (-1) 9)"
  have "wf_pdmap ?pd" by (intro wf_ex_pd good_ex_box) simp_all
  moreover have "good_domain ex_plane" by (simp add: good_domain_def ex_plane_facts)
  moreover have "edge_map_ok [1] (dom_size (pd_domain ?pd)) (dom_size ex_plane)"
    by (simp add: edge_map_ok_def ex_plane_facts)
  moreover have "fits (pd_domain ?pd) ex_plane [1]"
    using ex_plane_facts(4) by (simp add: fits_def ex_line_facts)
  ultimately obtain pd' where "pd_transDomain ex_plane [1] ?pd = Some pd'" "wf_pdmap pd'" "pd_domain pd' = ex_plane"
    "m_boxCount pd' = m_boxCount ?pd" "\<forall>i<m_boxCount ?pd. \<forall>x.
      ival (pieces pd' ! i) x = ival (pieces ?pd ! i) (\<lambda>j. x ([1] ! j)) \<and>
      (in_box (pieces pd' ! i) x \<longleftrightarrow> in_box (pieces ?pd ! i) (\<lambda>j. x ([1] ! j)) \<and>
         (\<forall>d<dom_size ex_plane. d \<notin> set [1] \<longrightarrow> 0 \<le> x d \<and> x d \<le> int (getVarPoints_i ex_plane d) - 1))"
    using transDomain_extends [of ?pd ex_plane "[1]"] by blast
  then show ?thesis by (intro exI [of _ pd']) (simp add: ex_box_facts)
qed

end
