(* ===== verification/IvP_Problem.thy ===== *)
theory IvP_Problem
  imports PD_Map "HOL-Library.Multiset"
begin

text \<open>
  Objective functions, \<open>IvPFunction.cpp\<close> of \<open>src/ivp/src/lib_ivpcore\<close>, and the problem that
  collects them, \<open>Problem.cpp\<close> of \<open>src/ivp/src/lib_ivpsolve\<close>. The best solution so far is a
  record of its own, which the search extends with its node boxes. Output to the console,
  which \<open>m_silent\<close> switches, is not modelled.
\<close>

section \<open>Objective functions\<close>

record ivpfunction =
  m_pdmap :: pdmap
  m_pwt :: real
  m_context_string :: string

definition IvPFunction_new :: "pdmap \<Rightarrow> ivpfunction" where
  "IvPFunction_new g_pdmap = \<lparr>m_pdmap = g_pdmap, m_pwt = 10, m_context_string = []\<rparr>"

definition setPWT :: "real \<Rightarrow> ivpfunction \<Rightarrow> ivpfunction" where
  "setPWT g_pwt f = (if g_pwt \<ge> 0 then f\<lparr>m_pwt := g_pwt\<rparr> else f)"

definition setContextStr :: "string \<Rightarrow> ivpfunction \<Rightarrow> ivpfunction" where
  "setContextStr s f = f\<lparr>m_context_string := s\<rparr>"

definition ipf_getVarName :: "ivpfunction \<Rightarrow> nat \<Rightarrow> string" where
  "ipf_getVarName f i = getVarName (pd_domain (m_pdmap f)) i"

definition ipf_transDomain :: "ivpdomain \<Rightarrow> ivpfunction \<Rightarrow> (bool \<times> ivpfunction) option" where
  "ipf_transDomain gdomain f =
     (if dom_eq (pd_domain (m_pdmap f)) gdomain then Some (True, f)
      else let dom_dim = dom_size gdomain; of_dim = pd_dim (m_pdmap f)
           in if of_dim > dom_dim then Some (False, f)
              else let dmap = map (\<lambda>i. getIndex gdomain (ipf_getVarName f i)) [0..<of_dim]
                   in if list_all (\<lambda>k. k \<noteq> -1) dmap
                      then pd_transDomain gdomain (map nat dmap) (m_pdmap f) \<bind>
                           (\<lambda>pd. Some (True, f\<lparr>m_pdmap := pd\<rparr>))
                      else Some (False, f))"

definition ipf_copy :: "ivpfunction \<Rightarrow> ivpfunction option" where
  "ipf_copy f = PDMap_copy (m_pdmap f) \<bind>
     (\<lambda>pd. Some (setContextStr (m_context_string f) (setPWT (m_pwt f) (IvPFunction_new pd))))"

section \<open>The problem\<close>

record best_sol =
  m_maxbox :: "ivpbox option"
  m_maxwt :: real

record problem = best_sol +
  m_ofs :: "ivpfunction list"
  m_ofnum :: nat
  m_epsilon :: real
  m_owner_ofs :: bool
  p_domain :: ivpdomain

text \<open>The constructor leaves \<open>m_maxwt\<close> unwritten; it is read only once \<open>m_maxbox\<close> is set.\<close>

definition Problem_new :: problem where
  "Problem_new = \<lparr>m_maxbox = None, m_maxwt = 0, m_ofs = [], m_ofnum = 0, m_epsilon = 0,
     m_owner_ofs = True, p_domain = empty_domain\<rparr>"

definition setDomain :: "ivpdomain \<Rightarrow> problem \<Rightarrow> problem" where
  "setDomain g_domain pr = pr\<lparr>p_domain := g_domain\<rparr>"

definition setEpsilon :: "real \<Rightarrow> problem \<Rightarrow> problem" where
  "setEpsilon v pr = (if v \<ge> 0 then pr\<lparr>m_epsilon := v\<rparr> else pr)"

text \<open>\<open>clearIPFs\<close> frees the functions and keeps the count.\<close>

definition clearIPFs :: "problem \<Rightarrow> problem" where
  "clearIPFs pr = pr\<lparr>m_ofs := []\<rparr>"

text \<open>Reading \<open>m_ofs[i]\<close> past the functions that exist is \<open>None\<close>.\<close>

definition of_at :: "'a problem_scheme \<Rightarrow> nat \<Rightarrow> ivpfunction option" where
  "of_at pr i = (if i < length (m_ofs pr) then Some (m_ofs pr ! i) else None)"

definition addOF :: "ivpfunction option \<Rightarrow> problem \<Rightarrow> problem option" where
  "addOF gof pr =
     (case gof of None \<Rightarrow> Some pr
      | Some f \<Rightarrow>
         if m_pwt f \<le> 0 then Some pr
         else getMaxWT (m_pdmap f) \<bind> (\<lambda>mx. getMinWT (m_pdmap f) \<bind> (\<lambda>mn.
              (if mx - mn > 100 then normalize 0 100 (m_pdmap f) else Some (m_pdmap f)) \<bind> (\<lambda>pd.
              applyWeight (m_pwt f) pd \<bind> (\<lambda>pd.
              if m_ofnum pr > length (m_ofs pr) then None
              else Some (pr\<lparr>m_ofs := take (m_ofnum pr) (m_ofs pr) @ [f\<lparr>m_pdmap := pd\<rparr>],
                            m_ofnum := m_ofnum pr + 1\<rparr>))))))"

definition universesInSync :: "problem \<Rightarrow> bool option" where
  "universesInSync pr =
     (if m_ofnum pr \<le> 1 then Some True
      else of_at pr 0 \<bind> (\<lambda>f0.
        let n = m_dim (getUniverse (m_pdmap f0))
        in foldr (\<lambda>i rest. of_at pr i \<bind> (\<lambda>f.
             if m_dim (getUniverse (m_pdmap f)) \<noteq> n then Some False
             else if \<not> list_all (\<lambda>d. ipf_getVarName f0 d = ipf_getVarName f d) [0..<n] then Some False
             else rest)) [1..<m_ofnum pr] (Some True)))"

text \<open>The loop stops at the first function that cannot be moved to the domain of the problem.\<close>

fun align_loop :: "nat list \<Rightarrow> bool \<Rightarrow> problem \<Rightarrow> (bool \<times> problem) option" where
  "align_loop [] ok pr = Some (ok, pr)"
| "align_loop (i # is) ok pr =
     of_at pr i \<bind> (\<lambda>f. ipf_transDomain (p_domain pr) f \<bind> (\<lambda>(ok', f').
       let pr' = pr\<lparr>m_ofs := (m_ofs pr)[i := f']\<rparr>
       in if ok' then align_loop is True pr' else Some (False, pr')))"

definition alignOFs :: "problem \<Rightarrow> (bool \<times> problem) option" where
  "alignOFs pr =
     align_loop [0..<m_ofnum pr] False pr \<bind> (\<lambda>(ok, pr').
       if 0 < m_ofnum pr \<and> \<not> ok then Some (False, pr')
       else universesInSync pr' \<bind> (\<lambda>sync. if sync then Some (ok, pr') else None))"

definition getResult :: "'a problem_scheme \<Rightarrow> string \<Rightarrow> real \<times> bool" where
  "getResult pr varname =
     (case m_maxbox pr of None \<Rightarrow> (0, False)
      | Some mb \<Rightarrow>
         let maxpt = maxPt mb; index = getIndex (p_domain pr) varname
         in if index \<ge> 0
            then (case getVal_ok (p_domain pr) (nat index) (nat (pt maxpt (nat index) 0 mod 2 ^ 32)) of
                    Some v \<Rightarrow> (v, True) | None \<Rightarrow> (0, False))
            else (0, False))"

definition getPieceAvg :: "problem \<Rightarrow> real option" where
  "getPieceAvg pr =
     (if m_ofnum pr = 0 then Some 0
      else foldM (\<lambda>t i. of_at pr i \<bind> (\<lambda>f. Some (t + of_nat (m_boxCount (m_pdmap f))))) 0 [0..<m_ofnum pr] \<bind>
           (\<lambda>t. Some (t / of_nat (m_ofnum pr))))"

definition getOF :: "problem \<Rightarrow> int \<Rightarrow> ivpfunction option" where
  "getOF pr ix = (if ix \<ge> 0 \<and> ix < int (m_ofnum pr) then of_at pr (nat ix) else None)"

definition getDim :: "problem \<Rightarrow> nat option" where
  "getDim pr = (if m_ofnum pr = 0 then Some 0 else of_at pr 0 \<bind> (\<lambda>f. Some (pd_dim (m_pdmap f))))"

section \<open>Solutions\<close>

definition newSolution :: "real \<Rightarrow> ivpbox \<Rightarrow> 'a best_sol_scheme \<Rightarrow> 'a best_sol_scheme option" where
  "newSolution newMaxWT newMaxBox s =
     (case m_maxbox s of None \<Rightarrow> box_copy newMaxBox | Some mb \<Rightarrow> copy_from mb newMaxBox) \<bind>
     (\<lambda>mb. Some (s\<lparr>m_maxbox := Some mb, m_maxwt := newMaxWT\<rparr>))"

definition processInitSol :: "ivpbox \<Rightarrow> problem \<Rightarrow> problem option" where
  "processInitSol isolBox pr =
     (if \<not> isPtBox isolBox then Some pr
      else foldM (\<lambda>(weight, covered) i.
             if covered
             then of_at pr i \<bind> (\<lambda>f. evalPoint (m_pdmap f) isolBox covered \<bind>
                    (\<lambda>(v, c). Some (weight + v, c)))
             else Some (weight, covered)) (0, True) [0..<m_ofnum pr] \<bind>
           (\<lambda>(weight, covered).
             if covered \<and> (m_maxbox pr = None \<or> weight > m_maxwt pr + m_epsilon pr)
             then newSolution weight isolBox pr else Some pr))"

text \<open>The largest point of the grid of a function is tried as a first solution.\<close>

definition try_maxpt :: "nat \<Rightarrow> problem \<Rightarrow> problem option" where
  "try_maxpt i pr = of_at pr i \<bind> (\<lambda>f.
     case m_grid (m_pdmap f) of None \<Rightarrow> Some pr
     | Some g \<Rightarrow> if \<not> g_empty g then processInitSol (g_maxpt g) pr else Some pr)"

definition initialSolution1 :: "problem \<Rightarrow> problem option" where
  "initialSolution1 pr =
     (if m_ofnum pr = 0 then Some pr
      else of_at pr 0 \<bind> (\<lambda>f0.
        foldM (\<lambda>(highOF, highPWT) i. of_at pr i \<bind> (\<lambda>f.
                 Some (if m_pwt f > highPWT then (i, m_pwt f) else (highOF, highPWT))))
          (0, m_pwt f0) [1..<m_ofnum pr] \<bind>
        (\<lambda>(highOF, highPWT). try_maxpt highOF pr)))"

definition initialSolution2 :: "problem \<Rightarrow> problem option" where
  "initialSolution2 pr =
     (if m_ofnum pr = 0 then Some pr else foldM (\<lambda>pr i. try_maxpt i pr) pr [1..<m_ofnum pr])"

section \<open>Sorting by priority weight\<close>

text \<open>The inner loop finds the index of the best weight from \<open>i\<close> on; the outer one swaps it in.\<close>

definition best_ix :: "bool \<Rightarrow> ivpfunction list \<Rightarrow> nat \<Rightarrow> nat \<Rightarrow> nat" where
  "best_ix high_to_low fs n i =
     fst (foldl (\<lambda>(ix, pwt) j. let j_pwt = m_pwt (fs ! j)
            in if (if high_to_low then j_pwt > pwt else j_pwt < pwt) then (j, j_pwt) else (ix, pwt))
          (i, m_pwt (fs ! i)) [i + 1..<n])"

definition sortOFs :: "bool \<Rightarrow> problem \<Rightarrow> problem option" where
  "sortOFs high_to_low pr =
     (if m_ofnum pr > length (m_ofs pr) then None
      else Some (pr\<lparr>m_ofs := foldl (\<lambda>fs i. let k = best_ix high_to_low fs (m_ofnum pr) i
                     in if k \<noteq> i then fs[i := fs ! k, k := fs ! i] else fs)
                   (m_ofs pr) [0..<m_ofnum pr]\<rparr>))"

section \<open>Moving a function to another domain\<close>

text \<open>The point that an assignment of values to variable names is in a domain.\<close>

definition by_name :: "ivpdomain \<Rightarrow> (string \<Rightarrow> int) \<Rightarrow> nat \<Rightarrow> int" where
  "by_name D v d = v (getVarName D d)"

definition name_map :: "ivpdomain \<Rightarrow> ivpdomain \<Rightarrow> nat list" where
  "name_map D E = map (\<lambda>i. nat (getIndex E (getVarName D i))) [0..<dom_size D]"

text \<open>All variables of one domain are in the other, with at least as many points.\<close>

definition names_fit :: "ivpdomain \<Rightarrow> ivpdomain \<Rightarrow> bool" where
  "names_fit D E \<longleftrightarrow> (\<forall>n\<in>set (m_dname D). hasDomain E n \<and> getVarPoints_s D n \<le> getVarPoints_s E n)"

lemma name_in_domain: "d < dom_size D \<Longrightarrow> getVarName D d \<in> set (m_dname D)"
  by (simp add: getVarName_def dom_size_def)

lemma names_of_domain: "set (m_dname D) = getVarName D ` {..<dom_size D}"
  by (auto simp: getVarName_def dom_size_def in_set_conv_nth image_iff)

lemma points_by_name: "valid_domain D \<Longrightarrow> d < dom_size D \<Longrightarrow> getVarPoints_s D (getVarName D d) = getVarPoints_i D d"
  using getIndex_name [of D d] by (simp add: getVarPoints_s_def getVarPoints_i_def valid_domain_def dom_size_def)

lemma index_of_name:
  assumes "valid_domain E" "hasDomain E n"
  shows "nat (getIndex E n) < dom_size E" "getVarName E (nat (getIndex E n)) = n" "getIndex E n \<noteq> -1"
  using getIndex_present [OF assms(2)] getIndex_absent [of E n] assms(2) by (simp_all add: dom_size_def getVarName_def)

lemma name_map_ok:
  assumes "valid_domain D" "valid_domain E" "names_fit D E"
  shows "edge_map_ok (name_map D E) (dom_size D) (dom_size E)" "fits D E (name_map D E)"
    "i < dom_size D \<Longrightarrow> getVarName E (name_map D E ! i) = getVarName D i"
    "d < dom_size E \<Longrightarrow> d \<in> set (name_map D E) \<longleftrightarrow> getVarName E d \<in> set (m_dname D)"
proof -
  have h: "hasDomain E (getVarName D i)" "getVarPoints_s D (getVarName D i) \<le> getVarPoints_s E (getVarName D i)"
    if "i < dom_size D" for i using assms(3) name_in_domain [OF that] by (auto simp: names_fit_def)
  note ix = index_of_name [OF assms(2) h(1)]
  show nm: "i < dom_size D \<Longrightarrow> getVarName E (name_map D E ! i) = getVarName D i" for i
    by (simp add: name_map_def ix(2))
  have lt: "i < dom_size D \<Longrightarrow> name_map D E ! i < dom_size E" for i by (simp add: name_map_def ix(1))
  have dist: "distinct (m_dname D)" using assms(1) by (simp add: valid_domain_def)
  have "distinct (map (getVarName E) (name_map D E))"
  proof -
    have "map (getVarName E) (name_map D E) = m_dname D"
      by (rule nth_equalityI) (use nm in \<open>simp_all add: name_map_def getVarName_def dom_size_def\<close>)
    with dist show ?thesis by simp
  qed
  then have "distinct (name_map D E)" by (simp add: distinct_map)
  with lt show "edge_map_ok (name_map D E) (dom_size D) (dom_size E)"
    by (auto simp: edge_map_ok_def name_map_def)
  show "fits D E (name_map D E)"
    unfolding fits_def
  proof (intro allI impI)
    fix i assume i: "i < dom_size D"
    have "getVarPoints_i E (name_map D E ! i) = getVarPoints_s E (getVarName D i)"
      using points_by_name [OF assms(2) lt [OF i]] nm [OF i] by simp
    with h(2) [OF i] points_by_name [OF assms(1) i]
    show "getVarPoints_i D i \<le> getVarPoints_i E (name_map D E ! i)" by simp
  qed
  show "d \<in> set (name_map D E) \<longleftrightarrow> getVarName E d \<in> set (m_dname D)" if d: "d < dom_size E"
  proof
    assume "d \<in> set (name_map D E)"
    then obtain i where "i < dom_size D" "d = name_map D E ! i" by (auto simp: name_map_def)
    with nm name_in_domain show "getVarName E d \<in> set (m_dname D)" by simp
  next
    assume "getVarName E d \<in> set (m_dname D)"
    then obtain i where i: "i < dom_size D" "getVarName D i = getVarName E d" by (auto simp: names_of_domain)
    with getIndex_name [OF assms(2) d] have "name_map D E ! i = d" by (simp add: name_map_def)
    with i(1) show "d \<in> set (name_map D E)" by (auto simp: name_map_def)
  qed
qed

lemma ival_dim_cong: "(\<And>d. d < m_dim b \<Longrightarrow> x d = y d) \<Longrightarrow> ival b x = ival b y"
  by (simp add: ival_def)

lemma in_box_dim_cong: "(\<And>d. d < m_dim b \<Longrightarrow> x d = y d) \<Longrightarrow> in_box b x = in_box b y"
  by (simp add: in_box_def)

text \<open>A piece after the move, seen through the names of its variables.\<close>

definition moved_piece :: "ivpdomain \<Rightarrow> ivpdomain \<Rightarrow> ivpbox \<Rightarrow> ivpbox \<Rightarrow> bool" where
  "moved_piece D E b b' \<longleftrightarrow> (\<forall>v. ival b' (by_name E v) = ival b (by_name D v)) \<and>
     (\<forall>v. in_box b' (by_name E v) \<longleftrightarrow> in_box b (by_name D v) \<and>
       (\<forall>n\<in>set (m_dname E) - set (m_dname D). 0 \<le> v n \<and> v n < int (getVarPoints_s E n))) \<and>
     (inclusive b \<longrightarrow> inclusive b')"

definition moved :: "ivpdomain \<Rightarrow> ivpfunction \<Rightarrow> ivpfunction \<Rightarrow> bool" where
  "moved E f f' \<longleftrightarrow> wf_pdmap (m_pdmap f') \<and> dom_eq (pd_domain (m_pdmap f')) E \<and> m_pwt f' = m_pwt f \<and>
     pd_degree (m_pdmap f') = pd_degree (m_pdmap f) \<and>
     list_all2 (moved_piece (pd_domain (m_pdmap f)) E) (pieces (m_pdmap f)) (pieces (m_pdmap f'))"

lemma moved_same:
  assumes "wf_pdmap (m_pdmap f)" "valid_domain E" "dom_eq (pd_domain (m_pdmap f)) E"
  shows "moved E f f"
proof -
  let ?D = "pd_domain (m_pdmap f)"
  have "valid_domain ?D" using wf_pdmapD(1) [OF assms(1)] by (simp add: good_domain_def)
  from dom_eq_iff [OF this assms(2)] assms(3) have e: "m_dname ?D = m_dname E" by simp
  then have "getVarName ?D d = getVarName E d" for d by (simp add: getVarName_def)
  then have "by_name ?D v d = by_name E v d" for v d by (simp add: by_name_def)
  then have "by_name ?D = by_name E" by blast
  with e have "moved_piece ?D E b b" for b by (simp add: moved_piece_def)
  with assms show ?thesis by (simp add: moved_def list_all2_same)
qed

theorem ipf_transDomain_ok:
  assumes "wf_pdmap (m_pdmap f)" "good_domain E" "names_fit (pd_domain (m_pdmap f)) E"
  obtains f' where "ipf_transDomain E f = Some (True, f')" "moved E f f'"
proof (cases "dom_eq (pd_domain (m_pdmap f)) E")
  case True
  with moved_same assms that [of f] show ?thesis by (simp add: ipf_transDomain_def good_domain_def)
next
  case False
  let ?D = "pd_domain (m_pdmap f)" let ?em = "name_map ?D E"
  have v: "valid_domain ?D" "valid_domain E"
    using wf_pdmapD(1) [OF assms(1)] assms(2) by (simp_all add: good_domain_def)
  note m = name_map_ok [OF v assms(3)]
  obtain pd' where pd: "pd_transDomain E ?em (m_pdmap f) = Some pd'" "wf_pdmap pd'" "pd_domain pd' = E"
    "m_boxCount pd' = m_boxCount (m_pdmap f)" "pd_degree pd' = pd_degree (m_pdmap f)"
    "\<forall>i<m_boxCount (m_pdmap f). \<forall>x. ival (pieces pd' ! i) x = ival (pieces (m_pdmap f) ! i) (\<lambda>j. x (?em ! j)) \<and>
       (in_box (pieces pd' ! i) x \<longleftrightarrow> in_box (pieces (m_pdmap f) ! i) (\<lambda>j. x (?em ! j)) \<and>
         (\<forall>d<dom_size E. d \<notin> set ?em \<longrightarrow> 0 \<le> x d \<and> x d \<le> int (getVarPoints_i E d) - 1))"
    "\<forall>i<m_boxCount (m_pdmap f). inclusive (pieces (m_pdmap f) ! i) \<longrightarrow> inclusive (pieces pd' ! i)"
    by (rule pd_transDomain_wf [OF assms(1,2) m(1,2)])
  have ix: "list_all (\<lambda>k. k \<noteq> -1) (map (\<lambda>i. getIndex E (ipf_getVarName f i)) [0..<pd_dim (m_pdmap f)])"
    using index_of_name(3) [OF v(2)] assms(3) name_in_domain [of _ ?D]
    by (auto simp: list_all_iff pd_dim_def ipf_getVarName_def names_fit_def)
  have nm: "map nat (map (\<lambda>i. getIndex E (ipf_getVarName f i)) [0..<pd_dim (m_pdmap f)]) = ?em"
    by (simp add: name_map_def pd_dim_def ipf_getVarName_def)
  have "\<not> pd_dim (m_pdmap f) > dom_size E" using edge_map_dim [OF m(1)] by (simp add: pd_dim_def)
  then have run: "ipf_transDomain E f = Some (True, f\<lparr>m_pdmap := pd'\<rparr>)"
    unfolding ipf_transDomain_def Let_def nm using False ix pd(1) by (simp only: if_False if_True) simp
  have mv: "moved_piece ?D E (pieces (m_pdmap f) ! i) (pieces pd' ! i)" if i: "i < m_boxCount (m_pdmap f)" for i
  proof -
    have "pieces (m_pdmap f) ! i \<in> set (pieces (m_pdmap f))" using i by simp
    then have dm: "m_dim (pieces (m_pdmap f) ! i) = dom_size ?D"
      using wf_pdmapD(4) [OF assms(1)] by (simp add: good_piece_def)
    have pts: "by_name E w (?em ! j) = by_name ?D w j" if "j < dom_size ?D" for j w
      using m(3) [OF that] by (simp add: by_name_def)
    have c: "ival (pieces (m_pdmap f) ! i) (\<lambda>j. by_name E w (?em ! j)) = ival (pieces (m_pdmap f) ! i) (by_name ?D w)"
      "in_box (pieces (m_pdmap f) ! i) (\<lambda>j. by_name E w (?em ! j)) = in_box (pieces (m_pdmap f) ! i) (by_name ?D w)"
      for w by (rule ival_dim_cong, simp add: dm pts, rule in_box_dim_cong, simp add: dm pts)
    have "(\<forall>d<dom_size E. d \<notin> set ?em \<longrightarrow> 0 \<le> by_name E w d \<and> by_name E w d \<le> int (getVarPoints_i E d) - 1) \<longleftrightarrow>
        (\<forall>n\<in>set (m_dname E) - set (m_dname ?D). 0 \<le> w n \<and> w n < int (getVarPoints_s E n))" for w
    proof -
      have "(\<forall>n\<in>set (m_dname E) - set (m_dname ?D). 0 \<le> w n \<and> w n < int (getVarPoints_s E n)) \<longleftrightarrow>
          (\<forall>d<dom_size E. getVarName E d \<notin> set (m_dname ?D) \<longrightarrow>
             0 \<le> w (getVarName E d) \<and> w (getVarName E d) < int (getVarPoints_s E (getVarName E d)))"
        by (auto simp: names_of_domain [of E])
      with m(4) points_by_name [OF v(2)] show ?thesis by (simp add: by_name_def)
    qed
    with c pd(6,7) i show ?thesis by (simp add: moved_piece_def)
  qed
  have "moved E f (f\<lparr>m_pdmap := pd'\<rparr>)"
    using pd(2-5) mv dom_eq_iff [OF v(2,2)] by (simp add: moved_def list_all2_conv_all_nth)
  with that run show ?thesis by blast
qed

lemma ipf_transDomain_missing:
  assumes "n \<in> set (m_dname (pd_domain (m_pdmap f)))" "\<not> hasDomain E n" "wf_pdmap (m_pdmap f)" "valid_domain E"
  shows "ipf_transDomain E f = Some (False, f)"
proof -
  let ?D = "pd_domain (m_pdmap f)"
  have v: "valid_domain ?D" using wf_pdmapD(1) [OF assms(3)] by (simp add: good_domain_def)
  have ne: "\<not> dom_eq ?D E" using dom_eq_iff [OF v assms(4)] assms(1,2) by (auto simp: hasDomain_iff)
  obtain i where i: "i < dom_size ?D" "getVarName ?D i = n" using assms(1) by (auto simp: names_of_domain)
  then have "\<not> list_all (\<lambda>k. k \<noteq> -1) (map (\<lambda>i. getIndex E (ipf_getVarName f i)) [0..<pd_dim (m_pdmap f)])"
    using getIndex_absent [of E n] assms(2) by (auto simp: list_all_iff pd_dim_def ipf_getVarName_def)
  with ne show ?thesis by (simp add: ipf_transDomain_def Let_def)
qed

section \<open>Aligning all functions\<close>

lemma align_loop_ok:
  assumes "good_domain (p_domain pr)" "distinct is" "set is \<subseteq> {..<length (m_ofs pr)}"
    "\<forall>i\<in>set is. wf_pdmap (m_pdmap (m_ofs pr ! i)) \<and> names_fit (pd_domain (m_pdmap (m_ofs pr ! i))) (p_domain pr)"
  shows "\<exists>fs. align_loop is ok pr = Some (ok \<or> is \<noteq> [], pr\<lparr>m_ofs := fs\<rparr>) \<and> length fs = length (m_ofs pr) \<and>
    (\<forall>i<length fs. if i \<in> set is then moved (p_domain pr) (m_ofs pr ! i) (fs ! i) else fs ! i = m_ofs pr ! i)"
  using assms
proof (induction "is" arbitrary: pr ok)
  case Nil
  then show ?case by (intro exI [of _ "m_ofs pr"]) simp
next
  case (Cons i "is")
  then have i: "i < length (m_ofs pr)" "i \<notin> set is" by auto
  obtain f' where f': "ipf_transDomain (p_domain pr) (m_ofs pr ! i) = Some (True, f')"
    "moved (p_domain pr) (m_ofs pr ! i) f'"
    by (rule ipf_transDomain_ok [of "m_ofs pr ! i" "p_domain pr"]) (use Cons.prems(1,4) in auto)
  let ?pr = "pr\<lparr>m_ofs := (m_ofs pr)[i := f']\<rparr>"
  have j: "j \<in> set is \<Longrightarrow> m_ofs ?pr ! j = m_ofs pr ! j" for j using i(2) by (cases "j = i") simp_all
  have "\<exists>fs. align_loop is True ?pr = Some (True \<or> is \<noteq> [], ?pr\<lparr>m_ofs := fs\<rparr>) \<and> length fs = length (m_ofs ?pr) \<and>
    (\<forall>k<length fs. if k \<in> set is then moved (p_domain ?pr) (m_ofs ?pr ! k) (fs ! k) else fs ! k = m_ofs ?pr ! k)"
    by (rule Cons.IH) (use Cons.prems j in auto)
  then obtain fs where fs: "align_loop is True ?pr = Some (True \<or> is \<noteq> [], ?pr\<lparr>m_ofs := fs\<rparr>)"
    "length fs = length (m_ofs ?pr)"
    "\<forall>k<length fs. if k \<in> set is then moved (p_domain ?pr) (m_ofs ?pr ! k) (fs ! k) else fs ! k = m_ofs ?pr ! k"
    by blast
  have "align_loop (i # is) ok pr = Some (True, pr\<lparr>m_ofs := fs\<rparr>)"
    using i(1) f'(1) fs(1) by (simp add: of_at_def Let_def)
  moreover have "\<forall>k<length fs. if k \<in> set (i # is) then moved (p_domain pr) (m_ofs pr ! k) (fs ! k)
      else fs ! k = m_ofs pr ! k"
  proof (intro allI impI)
    fix k assume k: "k < length fs"
    show "if k \<in> set (i # is) then moved (p_domain pr) (m_ofs pr ! k) (fs ! k) else fs ! k = m_ofs pr ! k"
      using fs(3) [rule_format, OF k] i f'(2) j [of k] fs(2) k by (cases "k = i") (auto split: if_splits)
  qed
  ultimately show ?case using fs(2) by (intro exI [of _ fs]) simp
qed

lemma universes_in_sync:
  assumes "m_ofnum pr = length (m_ofs pr)" "good_domain E"
    "\<forall>f\<in>set (m_ofs pr). wf_pdmap (m_pdmap f) \<and> dom_eq (pd_domain (m_pdmap f)) E"
  shows "universesInSync pr = Some True"
proof (cases "m_ofnum pr \<le> 1")
  case False
  then have z: "0 < length (m_ofs pr)" using assms(1) by linarith
  have vE: "valid_domain E" using assms(2) by (simp add: good_domain_def)
  have nm: "m_dname (pd_domain (m_pdmap f)) = m_dname E" if "f \<in> set (m_ofs pr)" for f
  proof -
    have w: "wf_pdmap (m_pdmap f)" "dom_eq (pd_domain (m_pdmap f)) E" using assms(3) that by auto
    have "valid_domain (pd_domain (m_pdmap f))" using wf_pdmapD(1) [OF w(1)] by (simp add: good_domain_def)
    with w(2) dom_eq_iff [OF _ vE] show ?thesis by simp
  qed
  have un: "m_dim (getUniverse (m_pdmap f)) = dom_size E" if "f \<in> set (m_ofs pr)" for f
  proof -
    have "dom_size (pd_domain (m_pdmap f)) = dom_size E" using nm [OF that] by (simp add: dom_size_def)
    moreover have "pd_degree (m_pdmap f) < 2 ^ 16" using wf_pdmapD(2) [of "m_pdmap f"] assms(3) that by auto
    moreover have "dom_size E < 2 ^ 16" using assms(2) by (simp add: good_domain_def)
    ultimately show ?thesis using spanning_box_facts(2) [of "pd_domain (m_pdmap f)"] by (simp add: getUniverse_def)
  qed
  have vn: "ipf_getVarName f d = getVarName E d" if "f \<in> set (m_ofs pr)" for f d
    using nm [OF that] by (simp add: ipf_getVarName_def getVarName_def)
  let ?f0 = "m_ofs pr ! 0"
  have f0: "?f0 \<in> set (m_ofs pr)" using z by simp
  have at: "i < m_ofnum pr \<Longrightarrow> of_at pr i = Some (m_ofs pr ! i) \<and> m_ofs pr ! i \<in> set (m_ofs pr)" for i
    using assms(1) by (simp add: of_at_def)
  have all: "foldr (\<lambda>i rest. of_at pr i \<bind> (\<lambda>f.
      if m_dim (getUniverse (m_pdmap f)) \<noteq> dom_size E then Some False
      else if \<not> list_all (\<lambda>d. ipf_getVarName ?f0 d = ipf_getVarName f d) [0..<dom_size E] then Some False
      else rest)) is (Some True) = Some True" if "set is \<subseteq> {..<m_ofnum pr}" for "is"
    using that at un vn [OF f0] vn by (induction "is") (auto simp: list_all_iff)
  have loop: "foldr (\<lambda>i rest. of_at pr i \<bind> (\<lambda>f.
      if m_dim (getUniverse (m_pdmap f)) \<noteq> dom_size E then Some False
      else if \<not> list_all (\<lambda>d. ipf_getVarName ?f0 d = ipf_getVarName f d) [0..<dom_size E] then Some False
      else rest)) [1..<m_ofnum pr] (Some True) = Some True" by (rule all) auto
  have "of_at pr 0 = Some ?f0" using at [of 0] False by simp
  then show ?thesis
    unfolding universesInSync_def if_not_P [OF False] Let_def by (simp only: Option.bind.bind_lunit un [OF f0] loop)
qed (simp add: universesInSync_def)

theorem alignOFs_ok:
  assumes "good_domain (p_domain pr)" "m_ofnum pr = length (m_ofs pr)" "0 < m_ofnum pr"
    "\<forall>f\<in>set (m_ofs pr). wf_pdmap (m_pdmap f) \<and> names_fit (pd_domain (m_pdmap f)) (p_domain pr)"
  obtains fs where "alignOFs pr = Some (True, pr\<lparr>m_ofs := fs\<rparr>)" "list_all2 (moved (p_domain pr)) (m_ofs pr) fs"
    "universesInSync (pr\<lparr>m_ofs := fs\<rparr>) = Some True"
proof -
  have q: "distinct [0..<m_ofnum pr]" "set [0..<m_ofnum pr] \<subseteq> {..<length (m_ofs pr)}"
    "\<forall>i\<in>set [0..<m_ofnum pr]. wf_pdmap (m_pdmap (m_ofs pr ! i)) \<and>
       names_fit (pd_domain (m_pdmap (m_ofs pr ! i))) (p_domain pr)" using assms(2,4) by auto
  obtain fs where fs: "align_loop [0..<m_ofnum pr] False pr = Some (False \<or> [0..<m_ofnum pr] \<noteq> [], pr\<lparr>m_ofs := fs\<rparr>)"
    "length fs = length (m_ofs pr)"
    "\<forall>i<length fs. if i \<in> set [0..<m_ofnum pr] then moved (p_domain pr) (m_ofs pr ! i) (fs ! i) else fs ! i = m_ofs pr ! i"
    using align_loop_ok [OF assms(1) q, of False] by blast
  have mv: "list_all2 (moved (p_domain pr)) (m_ofs pr) fs" using fs(2,3) assms(2) by (simp add: list_all2_conv_all_nth)
  have sync: "universesInSync (pr\<lparr>m_ofs := fs\<rparr>) = Some True"
  proof (rule universes_in_sync [OF _ assms(1)])
    show "\<forall>f\<in>set (m_ofs (pr\<lparr>m_ofs := fs\<rparr>)). wf_pdmap (m_pdmap f) \<and> dom_eq (pd_domain (m_pdmap f)) (p_domain pr)"
      using mv fs(2) by (auto simp: list_all2_conv_all_nth moved_def in_set_conv_nth)
  qed (use assms(2) fs(2) in simp)
  have "alignOFs pr = Some (True, pr\<lparr>m_ofs := fs\<rparr>)"
    using fs(1) sync assms(3) by (simp add: alignOFs_def)
  with that mv sync show ?thesis by blast
qed

section \<open>The selection sort\<close>

definition ahead :: "bool \<Rightarrow> ivpfunction \<Rightarrow> ivpfunction \<Rightarrow> bool" where
  "ahead high_to_low f g \<longleftrightarrow> (if high_to_low then m_pwt g \<le> m_pwt f else m_pwt f \<le> m_pwt g)"

lemma ahead_refl [simp]: "ahead hl f f"
  by (simp add: ahead_def)

lemma ahead_trans: "ahead hl f g \<Longrightarrow> ahead hl g h \<Longrightarrow> ahead hl f h"
  by (auto simp: ahead_def split: if_splits)

lemma best_ix_loop:
  assumes "i < n"
  shows "\<exists>k. foldl (\<lambda>(ix, pwt) j. let j_pwt = m_pwt (fs ! j)
            in if (if hl then j_pwt > pwt else j_pwt < pwt) then (j, j_pwt) else (ix, pwt))
          (i, m_pwt (fs ! i)) [i + 1..<n] = (k, m_pwt (fs ! k)) \<and> i \<le> k \<and> k < n \<and>
    (\<forall>j\<in>{i..<n}. ahead hl (fs ! k) (fs ! j))"
  using assms
proof (induction n)
  case (Suc n)
  show ?case
  proof (cases "i = n")
    case True
    then show ?thesis by simp
  next
    case False
    with Suc obtain k where k: "foldl (\<lambda>(ix, pwt) j. let j_pwt = m_pwt (fs ! j)
            in if (if hl then j_pwt > pwt else j_pwt < pwt) then (j, j_pwt) else (ix, pwt))
          (i, m_pwt (fs ! i)) [i + 1..<n] = (k, m_pwt (fs ! k))" "i \<le> k" "k < n"
      "\<forall>j\<in>{i..<n}. ahead hl (fs ! k) (fs ! j)" by auto
    let ?k = "if (if hl then m_pwt (fs ! n) > m_pwt (fs ! k) else m_pwt (fs ! n) < m_pwt (fs ! k)) then n else k"
    have "ahead hl (fs ! ?k) (fs ! j)" if "j \<in> {i..<Suc n}" for j
    proof -
      have "ahead hl (fs ! ?k) (fs ! k)" "ahead hl (fs ! ?k) (fs ! n)" by (auto simp: ahead_def)
      with k(4) that ahead_trans show ?thesis by (cases "j = n") auto
    qed
    moreover have "[i + 1..<Suc n] = [i + 1..<n] @ [n]" using Suc.prems False by simp
    ultimately show ?thesis using k(1-3) by (intro exI [of _ ?k]) (simp add: Let_def)
  qed
qed simp

lemma best_ix_best:
  assumes "i < n"
  shows "i \<le> best_ix hl fs n i" "best_ix hl fs n i < n" "j \<in> {i..<n} \<Longrightarrow> ahead hl (fs ! best_ix hl fs n i) (fs ! j)"
  using best_ix_loop [OF assms, of fs hl] unfolding best_ix_def by auto

definition sort_step :: "bool \<Rightarrow> nat \<Rightarrow> ivpfunction list \<Rightarrow> nat \<Rightarrow> ivpfunction list" where
  "sort_step hl n fs i = (let k = best_ix hl fs n i in if k \<noteq> i then fs[i := fs ! k, k := fs ! i] else fs)"

lemma sort_step_facts:
  fixes hl :: bool
  assumes "i < n" "n \<le> length fs"
  defines "k \<equiv> best_ix hl fs n i" and "fs' \<equiv> sort_step hl n fs i"
  shows "mset fs' = mset fs" "length fs' = length fs" "fs' ! i = fs ! k" "k \<in> {i..<n}"
    "j < length fs \<Longrightarrow> j \<noteq> i \<Longrightarrow> fs' ! j = (if j = k then fs ! i else fs ! j)"
proof -
  have k: "i \<le> k" "k < n" unfolding k_def by (rule best_ix_best [OF assms(1)])+
  then show "k \<in> {i..<n}" by simp
  have e: "fs' = (if k \<noteq> i then fs[i := fs ! k, k := fs ! i] else fs)" by (simp add: fs'_def sort_step_def k_def Let_def)
  with k assms(1,2) show "mset fs' = mset fs" by (simp add: mset_swap)
  from e show "length fs' = length fs" by simp
  from e k assms(1,2) show "fs' ! i = fs ! k" by (cases "k = i") (simp_all add: nth_list_update)
  show "j < length fs \<Longrightarrow> j \<noteq> i \<Longrightarrow> fs' ! j = (if j = k then fs ! i else fs ! j)"
    using e k assms(1,2) by (cases "k = i") (simp_all add: nth_list_update)
qed

lemma sort_loop:
  fixes hl :: bool
  assumes "i \<le> n" "n \<le> length fs"
  defines "fs' \<equiv> foldl (sort_step hl n) fs [0..<i]"
  shows "mset fs' = mset fs \<and> length fs' = length fs \<and> drop n fs' = drop n fs \<and>
    (\<forall>a<i. \<forall>b. a < b \<and> b < n \<longrightarrow> ahead hl (fs' ! a) (fs' ! b))"
  using assms(1) unfolding fs'_def
proof (induction i)
  case (Suc i)
  let ?g = "foldl (sort_step hl n) fs [0..<i]"
  have g: "mset ?g = mset fs" "length ?g = length fs" "drop n ?g = drop n fs"
    "\<forall>a<i. \<forall>b. a < b \<and> b < n \<longrightarrow> ahead hl (?g ! a) (?g ! b)" using Suc by auto
  let ?k = "best_ix hl ?g n i" and ?h = "sort_step hl n ?g i"
  have i: "i < n" "n \<le> length ?g" using Suc.prems assms(2) g(2) by auto
  note f = sort_step_facts [OF i, where hl = hl]
  have dr: "drop n ?h = drop n ?g"
    using f(2,4,5) i by (intro nth_equalityI) auto
  have "ahead hl (?h ! a) (?h ! b)" if ab: "a < Suc i" "a < b" "b < n" for a b
  proof (cases "a = i")
    case True
    have "?h ! b \<in> {?g ! j |j. j \<in> {i..<n}}" using f(5) [of b] ab True i by auto
    with best_ix_best(3) [OF i(1), of _ hl ?g] f(3) True show ?thesis by auto
  next
    case False
    with ab have a: "a < i" by simp
    then have "?h ! a = ?g ! a" using f(4) f(5) [of a] i by auto
    moreover have "\<exists>j. a < j \<and> j < n \<and> ?h ! b = ?g ! j"
    proof (cases "b = i")
      case True
      with f(3,4) a show ?thesis by (intro exI [of _ ?k]) simp
    next
      case False
      have "?h ! b = (if b = ?k then ?g ! i else ?g ! b)" using f(5) [of b] False ab(3) i(2) by simp
      with a ab i(1) show ?thesis by (cases "b = ?k") auto
    qed
    ultimately show ?thesis using g(4) a by auto
  qed
  with f(1,2) dr g show ?case by simp
qed simp

theorem sortOFs_sorts:
  assumes "m_ofnum pr \<le> length (m_ofs pr)"
  obtains fs where "sortOFs hl pr = Some (pr\<lparr>m_ofs := fs\<rparr>)" "mset fs = mset (m_ofs pr)"
    "sorted_wrt (ahead hl) (take (m_ofnum pr) fs)" "drop (m_ofnum pr) fs = drop (m_ofnum pr) (m_ofs pr)"
proof -
  let ?n = "m_ofnum pr" let ?fs = "foldl (sort_step hl ?n) (m_ofs pr) [0..<?n]"
  have l: "mset ?fs = mset (m_ofs pr)" "length ?fs = length (m_ofs pr)" "drop ?n ?fs = drop ?n (m_ofs pr)"
    "\<forall>a<?n. \<forall>b. a < b \<and> b < ?n \<longrightarrow> ahead hl (?fs ! a) (?fs ! b)"
    using sort_loop [OF order.refl assms, where hl = hl] by blast+
  have "sortOFs hl pr = Some (pr\<lparr>m_ofs := ?fs\<rparr>)"
    using assms by (simp add: sortOFs_def sort_step_def [abs_def])
  moreover have "sorted_wrt (ahead hl) (take ?n ?fs)" using l(4) by (simp add: sorted_wrt_iff_nth_less)
  ultimately show ?thesis using that l by blast
qed

section \<open>Adding a function\<close>

text \<open>The factor and the shift that \<open>addOF\<close> applies to the values of a function of weight \<open>w\<close>.\<close>

definition weighed :: "real \<Rightarrow> real \<Rightarrow> real \<Rightarrow> real \<Rightarrow> real" where
  "weighed w mn mx v = w * (if mx - mn > 100 then (v - mn) * (100 / (mx - mn)) else v)"

definition weighed_piece :: "real \<Rightarrow> real \<Rightarrow> real \<Rightarrow> ivpbox \<Rightarrow> ivpbox \<Rightarrow> bool" where
  "weighed_piece w mn mx b b' \<longleftrightarrow> (\<forall>x. in_box b' x = in_box b x) \<and> (\<forall>x. ival b' x = weighed w mn mx (ival b x)) \<and>
     (inclusive b \<longrightarrow> inclusive b')"

lemma weighed_shift:
  assumes "good_piece D deg b" "good_domain D" "deg \<le> 1" "mx - mn > 100"
  shows "weighed_piece w mn mx b (scaleWT w (scaleWT (100 / (mx - mn)) (moveIntercept (0 - mn) b)))"
proof -
  let ?m = "moveIntercept (0 - mn) b" let ?s = "scaleWT (100 / (mx - mn)) ?m"
  have b: "wf_box b" "0 < m_dim b" "m_degree b \<le> 2" using good_pieceD [OF assms(1,2)] assms(3) by simp_all
  note m = same_region_facts [OF same_region_moveIntercept [of "0 - mn" b]]
  have mw: "wf_box ?m" "0 < m_dim ?m" using m b by simp_all
  note sc = same_region_facts [OF same_region_scaleWT [OF mw, of "100 / (mx - mn)"]]
  have sw: "wf_box ?s" "0 < m_dim ?s" using sc mw by simp_all
  note sw' = same_region_facts [OF same_region_scaleWT [OF sw, of w]]
  have "ival (scaleWT w ?s) x = weighed w mn mx (ival b x)" for x
    unfolding scaleWT_ival [OF sw] scaleWT_ival [OF mw] moveIntercept_ival [OF b] weighed_def
    using assms(4) by simp
  then show ?thesis using m(2,4) sc(2,4) sw'(2,4) by (simp add: weighed_piece_def)
qed

lemma weighed_plain:
  assumes "good_piece D deg b" "good_domain D" "deg \<le> 1" "\<not> mx - mn > 100"
  shows "weighed_piece w mn mx b (scaleWT w b)"
proof -
  have b: "wf_box b" "0 < m_dim b" using good_pieceD [OF assms(1,2)] by simp_all
  show ?thesis using assms(4) same_region_facts(2,4) [OF same_region_scaleWT [OF b, of w]]
    by (simp add: weighed_piece_def weighed_def scaleWT_ival [OF b])
qed

theorem addOF_ok:
  assumes "wf_pdmap (m_pdmap f)" "0 < m_boxCount (m_pdmap f)" "0 < m_pwt f" "m_ofnum pr = length (m_ofs pr)"
    "getMinWT (m_pdmap f) = Some mn" "getMaxWT (m_pdmap f) = Some mx"
  obtains pd where "addOF (Some f) pr =
      Some (pr\<lparr>m_ofs := m_ofs pr @ [f\<lparr>m_pdmap := pd\<rparr>], m_ofnum := m_ofnum pr + 1\<rparr>)"
    "wf_pdmap pd" "pd_domain pd = pd_domain (m_pdmap f)" "pd_degree pd = pd_degree (m_pdmap f)"
    "list_all2 (weighed_piece (m_pwt f) mn mx) (pieces (m_pdmap f)) (pieces pd)"
proof -
  let ?p = "m_pdmap f"
  note w = wf_pdmapD [OF assms(1)]
  have gp: "b \<in> set (pieces ?p) \<Longrightarrow> good_piece (pd_domain ?p) (pd_degree ?p) b" for b by (rule w(4))
  obtain pd1 pd where pd: "(if mx - mn > 100 then normalize 0 100 ?p else Some ?p) = Some pd1"
    "applyWeight (m_pwt f) pd1 = Some pd" "wf_pdmap pd" "pd_domain pd = pd_domain ?p" "pd_degree pd = pd_degree ?p"
    "list_all2 (weighed_piece (m_pwt f) mn mx) (pieces ?p) (pieces pd)"
  proof (cases "mx - mn > 100")
    case True
    then have lt: "mn < mx" by simp
    have h: "0 \<le> (100::real)" by simp
    obtain pd1 where n: "normalize 0 100 ?p = Some pd1" "wf_pdmap pd1" "pd_domain pd1 = pd_domain ?p"
      "pd_degree pd1 = pd_degree ?p" "m_boxCount pd1 = m_boxCount ?p" "ptrs pd1 = ptrs ?p"
      "(m_grid pd1 = None) = (m_grid ?p = None)"
      "pieces pd1 = map (\<lambda>b. scaleWT (100 / (mx - mn)) (moveIntercept (0 - mn) b)) (pieces ?p)"
      by (rule normalize_wf [OF assms(1,2) h assms(5,6) lt])
    obtain pd where a: "applyWeight (m_pwt f) pd1 = Some pd" "wf_pdmap pd" "pieces pd = map (scaleWT (m_pwt f)) (pieces pd1)"
      "pd_domain pd = pd_domain pd1" "pd_degree pd = pd_degree pd1"
      by (rule applyWeight_wf [OF n(2), of "m_pwt f"]) (use assms(3) in auto)
    have "list_all2 (weighed_piece (m_pwt f) mn mx) (pieces ?p) (pieces pd)"
      unfolding a(3) n(8) list.map_comp list_all2_map2 list_all2_same
      using weighed_shift [OF gp w(1,2) True] by simp
    with that True n a show ?thesis by simp
  next
    case False
    obtain pd where a: "applyWeight (m_pwt f) ?p = Some pd" "wf_pdmap pd" "pieces pd = map (scaleWT (m_pwt f)) (pieces ?p)"
      "pd_domain pd = pd_domain ?p" "pd_degree pd = pd_degree ?p"
      by (rule applyWeight_wf [OF assms(1), of "m_pwt f"]) (use assms(3) in auto)
    have "list_all2 (weighed_piece (m_pwt f) mn mx) (pieces ?p) (pieces pd)"
      unfolding a(3) list_all2_map2 list_all2_same
      using weighed_plain [OF gp w(1,2) False] by simp
    with that False a show ?thesis by simp
  qed
  have "\<not> m_pwt f \<le> 0" using assms(3) by simp
  then have "addOF (Some f) pr = Some (pr\<lparr>m_ofs := m_ofs pr @ [f\<lparr>m_pdmap := pd\<rparr>], m_ofnum := m_ofnum pr + 1\<rparr>)"
    unfolding addOF_def option.case if_not_P assms(5,6) Option.bind.bind_lunit pd(1,2) using assms(4) by simp
  with that pd show ?thesis by blast
qed

section \<open>Properties\<close>

definition ex_fun :: "ivpbox \<Rightarrow> ivpbox \<Rightarrow> real \<Rightarrow> ivpfunction" where
  "ex_fun a b w = setPWT w (IvPFunction_new (ex_pd a b))"

lemma ex_fun_facts [simp]: "m_pdmap (ex_fun a b w) = ex_pd a b" "0 \<le> w \<Longrightarrow> m_pwt (ex_fun a b w) = w"
  by (simp_all add: ex_fun_def setPWT_def IvPFunction_new_def)

definition ex_problem :: "ivpfunction list \<Rightarrow> problem" where
  "ex_problem fs = (setDomain ex_plane Problem_new)\<lparr>m_ofs := fs, m_ofnum := length fs\<rparr>"

lemma ex_problem_facts [simp]: "m_ofs (ex_problem fs) = fs" "m_ofnum (ex_problem fs) = length fs"
  "p_domain (ex_problem fs) = ex_plane" "m_epsilon (ex_problem fs) = 0" "m_maxbox (ex_problem fs) = None"
  by (simp_all add: ex_problem_def setDomain_def Problem_new_def)

definition ex_hill :: ivpfunction where "ex_hill = ex_fun (ex_box 0 4 1 0) (ex_box 5 9 (-1) 9) 2"
definition ex_slope :: ivpfunction where "ex_slope = ex_fun (ex_box 0 2 40 0) (ex_box 3 9 30 (-30)) 1"

lemma wf_ex_fun: "wf_pdmap (m_pdmap ex_hill)" "wf_pdmap (m_pdmap ex_slope)"
  unfolding ex_hill_def ex_slope_def ex_fun_facts by (intro wf_ex_pd good_ex_box; simp)+

lemma ex_slope_range: "getMinWT (m_pdmap ex_slope) = Some 0" "getMaxWT (m_pdmap ex_slope) = Some 240"
proof -
  have v: "minVal (ex_box 0 2 40 0) = 0" "maxVal (ex_box 0 2 40 0) = 80" "minVal (ex_box 3 9 30 (-30)) = 60"
    "maxVal (ex_box 3 9 30 (-30)) = 240" by (simp_all add: minVal_def maxVal_def ex_box_def pt_def wt_def)
  show "getMinWT (m_pdmap ex_slope) = Some 0" "getMaxWT (m_pdmap ex_slope) = Some 240"
    using getMinMaxWT [OF wf_pdmapD(3) [OF wf_ex_fun(2)]] by (simp_all add: ex_slope_def v)
qed

text \<open>C16: \<open>addOF\<close> ignores a null function and one without a positive weight; any other it appends
  after bringing values that span more than 100 down to 0 to 100 and multiplying them by the weight,
  leaving every piece where it is.\<close>

theorem addOF_effect:
  assumes "wf_pdmap (m_pdmap f)" "0 < m_boxCount (m_pdmap f)" "m_ofnum pr = length (m_ofs pr)"
    "getMinWT (m_pdmap f) = Some mn" "getMaxWT (m_pdmap f) = Some mx"
  shows "addOF None pr = Some pr \<and>
    (if m_pwt f \<le> 0 then addOF (Some f) pr = Some pr
     else \<exists>pd. addOF (Some f) pr = Some (pr\<lparr>m_ofs := m_ofs pr @ [f\<lparr>m_pdmap := pd\<rparr>], m_ofnum := m_ofnum pr + 1\<rparr>) \<and>
       wf_pdmap pd \<and> pd_domain pd = pd_domain (m_pdmap f) \<and>
       list_all2 (\<lambda>b b'. (\<forall>x. in_box b' x = in_box b x) \<and> (\<forall>x. ival b' x =
           m_pwt f * (if mx - mn > 100 then (ival b x - mn) * (100 / (mx - mn)) else ival b x)))
         (pieces (m_pdmap f)) (pieces pd))"
proof (cases "m_pwt f \<le> 0")
  case True
  then show ?thesis by (simp add: addOF_def)
next
  case False
  then have p: "0 < m_pwt f" by simp
  obtain pd where pd: "addOF (Some f) pr = Some (pr\<lparr>m_ofs := m_ofs pr @ [f\<lparr>m_pdmap := pd\<rparr>], m_ofnum := m_ofnum pr + 1\<rparr>)"
    "wf_pdmap pd" "pd_domain pd = pd_domain (m_pdmap f)" "pd_degree pd = pd_degree (m_pdmap f)"
    "list_all2 (weighed_piece (m_pwt f) mn mx) (pieces (m_pdmap f)) (pieces pd)"
    by (rule addOF_ok [OF assms(1,2) p assms(3,4,5)])
  have "list_all2 (\<lambda>b b'. (\<forall>x. in_box b' x = in_box b x) \<and> (\<forall>x. ival b' x =
           m_pwt f * (if mx - mn > 100 then (ival b x - mn) * (100 / (mx - mn)) else ival b x)))
         (pieces (m_pdmap f)) (pieces pd)"
    by (rule list_all2_mono [OF pd(5)]) (simp add: weighed_piece_def weighed_def)
  moreover have "addOF None pr = Some pr" by (simp add: addOF_def)
  ultimately show ?thesis unfolding if_not_P [OF False] using pd(1-3) by blast
qed

theorem addOF_effect_witness:
  "\<exists>pd. addOF (Some ex_slope) (ex_problem [ex_hill]) =
      Some ((ex_problem [ex_hill])\<lparr>m_ofs := [ex_hill, ex_slope\<lparr>m_pdmap := pd\<rparr>], m_ofnum := 2\<rparr>) \<and> wf_pdmap pd"
proof -
  have "0 < m_boxCount (m_pdmap ex_slope)" "m_pwt ex_slope = 1" by (simp_all add: ex_slope_def)
  with addOF_effect [OF wf_ex_fun(2) _ _ ex_slope_range, of "ex_problem [ex_hill]"] show ?thesis
    by (auto simp: numeral_2_eq_2)
qed



text \<open>\<open>sortOFs\<close> orders the functions of the problem by priority weight, up or down as asked; it
  only swaps them, so it is a permutation, and does not touch entries past \<open>m_ofnum\<close>.\<close>

theorem sortOFs_effect:
  assumes "m_ofnum pr \<le> length (m_ofs pr)"
  shows "\<exists>fs. sortOFs hl pr = Some (pr\<lparr>m_ofs := fs\<rparr>) \<and> mset fs = mset (m_ofs pr) \<and>
    sorted_wrt (\<lambda>f g. if hl then m_pwt g \<le> m_pwt f else m_pwt f \<le> m_pwt g) (take (m_ofnum pr) fs) \<and>
    drop (m_ofnum pr) fs = drop (m_ofnum pr) (m_ofs pr)"
proof -
  obtain fs where fs: "sortOFs hl pr = Some (pr\<lparr>m_ofs := fs\<rparr>)" "mset fs = mset (m_ofs pr)"
    "sorted_wrt (ahead hl) (take (m_ofnum pr) fs)" "drop (m_ofnum pr) fs = drop (m_ofnum pr) (m_ofs pr)"
    by (rule sortOFs_sorts [OF assms])
  show ?thesis using fs(1,2,4) fs(3) [unfolded ahead_def [abs_def]] by blast
qed

theorem sortOFs_effect_witness:
  "\<exists>fs. sortOFs False (ex_problem [ex_hill, ex_slope]) = Some ((ex_problem [ex_hill, ex_slope])\<lparr>m_ofs := fs\<rparr>) \<and>
    mset fs = mset [ex_hill, ex_slope] \<and>
    sorted_wrt (\<lambda>f g. if False then m_pwt g \<le> m_pwt f else m_pwt f \<le> m_pwt g) (take 2 fs) \<and> drop 2 fs = []"
  using sortOFs_effect [of "ex_problem [ex_hill, ex_slope]" False] by (simp add: numeral_2_eq_2)

text \<open>\<open>getResult\<close> of a variable of the domain returns the value of the variable at the largest
  point of the best box; of any other name, and before there is a solution, it reports failure.\<close>

theorem getResult_value:
  assumes "valid_domain (p_domain pr)" "d < dom_size (p_domain pr)" "m_maxbox pr = Some mb" "wf_box mb"
    "m_dim mb = dom_size (p_domain pr)" "m_degree mb \<le> 2"
    "0 \<le> maxPt_coord mb d" "maxPt_coord mb d < int (m_dpoints (p_domain pr) ! d)" "m_dpoints (p_domain pr) ! d \<le> 2 ^ 31"
  shows "getResult pr (getVarName (p_domain pr) d) = (getVal (p_domain pr) d (nat (maxPt_coord mb d)), True) \<and>
    (\<forall>n. hasDomain (p_domain pr) n \<or> getResult pr n = (0, False)) \<and>
    getResult (pr\<lparr>m_maxbox := None\<rparr>) (getVarName (p_domain pr) d) = (0, False)"
proof -
  let ?D = "p_domain pr" and ?new = "IvPBox_new (int (m_dim mb)) (int (m_degree mb))"
  have "m_dim ?new = m_dim mb" using assms(4) by (simp add: wf_box_def)
  then have "at_point (maxPt mb) (maxPt_coord mb)" "m_dim (maxPt mb) = m_dim mb"
    unfolding maxPt_def using maxPt_into_facts [of ?new mb] assms by (auto simp: same_shape_def)
  with assms(2,5) have "pt (maxPt mb) d 0 = maxPt_coord mb d" by (simp add: at_point_ends)
  moreover have "maxPt_coord mb d mod 2 ^ 32 = maxPt_coord mb d"
  proof (rule mod_pos_pos_trivial [OF assms(7)])
    have "int (m_dpoints ?D ! d) \<le> 2147483648" using assms(9) by simp
    with assms(8) show "maxPt_coord mb d < 2 ^ 32" by simp
  qed
  moreover have "d < length (m_dlow ?D)" using assms(1,2) by (simp add: valid_domain_def dom_size_def)
  ultimately have "getResult pr (getVarName ?D d) = (getVal ?D d (nat (maxPt_coord mb d)), True)"
    using getIndex_name [OF assms(1,2)] assms(3,7,8)
    by (simp add: getResult_def Let_def getVal_ok_def getVal_def nat_less_iff)
  moreover have "hasDomain ?D n \<or> getResult pr n = (0, False)" for n
    using getIndex_absent [of ?D n] assms(3) by (auto simp: getResult_def)
  ultimately show ?thesis by (simp add: getResult_def)
qed

theorem getResult_value_witness:
  "getResult ((ex_problem [])\<lparr>p_domain := ex_line, m_maxbox := Some (ex_box 0 4 1 0)\<rparr>) ''x'' = (4, True)"
proof -
  have c: "maxPt_coord (ex_box 0 4 1 0) 0 = 4" by (simp add: maxPt_coord_def ex_box_def pt_def wt_def)
  show ?thesis
    using getResult_value [of "(ex_problem [])\<lparr>p_domain := ex_line, m_maxbox := Some (ex_box 0 4 1 0)\<rparr>" 0 "ex_box 0 4 1 0"]
    by (simp add: ex_line_facts c ex_box_facts(1-3) getVarName_def getVal_def)
qed

text \<open>\<open>clearIPFs\<close> frees the functions and keeps their number: adding a function, sorting or
  counting pieces afterwards reads through the null array.\<close>

theorem clearIPFs_leaves_count:
  assumes "0 < m_ofnum pr" "0 < m_pwt f"
  shows "addOF (Some f) (clearIPFs pr) = None \<and> sortOFs hl (clearIPFs pr) = None \<and>
    getPieceAvg (clearIPFs pr) = None \<and> getDim (clearIPFs pr) = None"
proof -
  have u: "[0..<m_ofnum pr] = 0 # [1..<m_ofnum pr]" using assms(1) upt_conv_Cons [of 0 "m_ofnum pr"] by simp
  have "addOF (Some f) (clearIPFs pr) = None"
    using assms by (auto simp: addOF_def clearIPFs_def split: Option.bind_splits)
  then show ?thesis using assms(1)
    by (simp add: sortOFs_def getPieceAvg_def getDim_def clearIPFs_def of_at_def u)
qed

theorem clearIPFs_leaves_count_witness:
  "addOF (Some ex_slope) (clearIPFs (ex_problem [ex_hill])) = None \<and> sortOFs True (clearIPFs (ex_problem [ex_hill])) = None \<and>
    getPieceAvg (clearIPFs (ex_problem [ex_hill])) = None \<and> getDim (clearIPFs (ex_problem [ex_hill])) = None"
  by (rule clearIPFs_leaves_count) (simp_all add: ex_slope_def)

end
