(* ===== verification/IvP_Behavior.thy ===== *)
theory IvP_Behavior
  imports Mode_Set IvP_Problem
begin

text \<open>
  \<open>src/ivp/src/lib_behaviors/IvPBehavior.h\<close> and \<open>IvPBehavior.cpp\<close>, the base class of all behaviors. A derived class
  is an extension of the record. A virtual method that the base class calls is an argument: \<open>virt\<close> for
  \<open>setParam\<close>, \<open>config\<close> for \<open>postConfigStatus\<close>. The buffer of values belongs to the helm and is only read;
  it is an argument too, \<open>None\<close> for the null pointer. A result is \<open>None\<close> where the code reads past the end of a
  string, through the null pointer or converts a number out of range.
\<close>

record ivp_behavior =
  m_us_name :: string
  m_descriptor :: string
  m_contact :: string
  m_behavior_type :: string
  m_duration_status :: string
  m_duration_reset_pending :: bool
  m_build_info :: string
  m_status_info :: string
  m_info_vars :: "string list"
  m_info_vars_no_warning :: "string list"
  bhv_messages :: "var_data_pair list"
  bhv_logic_conditions :: "logic_condition list"
  m_run_flags :: "var_data_pair list"
  m_active_flags :: "var_data_pair list"
  m_inactive_flags :: "var_data_pair list"
  m_end_flags :: "var_data_pair list"
  m_idle_flags :: "var_data_pair list"
  m_starve_vars :: "(string \<times> real) list"
  m_remap_vars :: "string \<Rightarrow> string option"
  bhv_domain :: ivpdomain
  m_priority_wt :: real
  m_update_var :: string
  m_prev_update_str :: string
  m_good_updates :: nat
  m_bad_updates :: nat
  m_update_summary :: string
  m_duration :: real
  m_duration_start_time :: real
  m_duration_started :: bool
  m_duration_reset_var :: string
  m_duration_reset_val :: string
  m_duration_prev_state :: string
  m_duration_reset_timestamp :: real
  m_duration_reset_on_transition :: bool
  m_duration_idle_decay :: bool
  m_duration_running_time :: real
  m_duration_idle_time :: real
  m_duration_prev_timestamp :: real
  m_completed :: bool
  m_perpetual :: bool
  m_filter_level :: int
  m_bhv_state_ok :: bool

definition IvPBehavior_new :: "ivpdomain \<Rightarrow> ivp_behavior" where
  "IvPBehavior_new g_domain = \<lparr>m_us_name = '''', m_descriptor = ''???'', m_contact = '''', m_behavior_type = '''',
     m_duration_status = '''', m_duration_reset_pending = False, m_build_info = '''', m_status_info = '''',
     m_info_vars = [], m_info_vars_no_warning = [], bhv_messages = [], bhv_logic_conditions = [],
     m_run_flags = [], m_active_flags = [], m_inactive_flags = [], m_end_flags = [], m_idle_flags = [],
     m_starve_vars = [], m_remap_vars = Map.empty, bhv_domain = g_domain, m_priority_wt = 100,
     m_update_var = '''', m_prev_update_str = '''', m_good_updates = 0, m_bad_updates = 0, m_update_summary = '''',
     m_duration = - 1, m_duration_start_time = - 1, m_duration_started = False, m_duration_reset_var = '''',
     m_duration_reset_val = '''', m_duration_prev_state = '''', m_duration_reset_timestamp = - 1,
     m_duration_reset_on_transition = False, m_duration_idle_decay = True, m_duration_running_time = 0,
     m_duration_idle_time = 0, m_duration_prev_timestamp = 0, m_completed = False, m_perpetual = False,
     m_filter_level = 0, m_bhv_state_ok = True\<rparr>"

section \<open>Names and weights\<close>

definition setBehaviorName :: "string \<Rightarrow> 'x ivp_behavior_scheme \<Rightarrow> bool \<times> 'x ivp_behavior_scheme" where
  "setBehaviorName bhv_name b =
     (if \<not> isAlphaNum bhv_name ''_-[]()#@+'' then (False, b)
      else (True, b\<lparr>m_descriptor := bhv_name, m_status_info := ''name='' @ bhv_name\<rparr>))"

definition augBehaviorName :: "string \<Rightarrow> 'x ivp_behavior_scheme \<Rightarrow> bool \<times> 'x ivp_behavior_scheme" where
  "augBehaviorName aug_name b =
     (if \<not> isAlphaNum aug_name ''_-[]()#@+'' then (False, b)
      else let b = b\<lparr>m_descriptor := m_descriptor b @ aug_name\<rparr> in (True, b\<lparr>m_status_info := ''name='' @ m_descriptor b\<rparr>))"

definition setPriorityWt :: "real \<Rightarrow> 'x ivp_behavior_scheme \<Rightarrow> 'x ivp_behavior_scheme" where
  "setPriorityWt val b = b\<lparr>m_priority_wt := if val < 0 then 0 else val\<rparr>"

section \<open>Messages\<close>

text \<open>The variable a posting goes to; \<open>None\<close> when it has been mapped to "silent".\<close>

definition remapped :: "string \<Rightarrow> 'x ivp_behavior_scheme \<Rightarrow> string option" where
  "remapped var b =
     (case m_remap_vars b var of Some var \<Rightarrow> if tolower var = ''silent'' then None else Some var | None \<Rightarrow> Some var)"

definition keyed :: "string \<Rightarrow> string \<Rightarrow> 'x ivp_behavior_scheme \<Rightarrow> var_data_pair \<Rightarrow> var_data_pair" where
  "keyed var key b pair = (if tolower key \<noteq> ''repeatable'' then set_key (m_descriptor b @ var @ key) pair else pair)"

definition postMessage_s :: "string \<Rightarrow> string \<Rightarrow> string \<Rightarrow> 'x ivp_behavior_scheme \<Rightarrow> 'x ivp_behavior_scheme option" where
  "postMessage_s var sdata key b =
     (case remapped var b of None \<Rightarrow> Some b
      | Some var \<Rightarrow> VarDataPair_s var sdata \<bind> (\<lambda>pair.
          Some (b\<lparr>bhv_messages := bhv_messages b @ [keyed var key b pair]\<rparr>)))"

definition postMessage_d :: "string \<Rightarrow> real \<Rightarrow> string \<Rightarrow> 'x ivp_behavior_scheme \<Rightarrow> 'x ivp_behavior_scheme" where
  "postMessage_d var ddata key b =
     (case remapped var b of None \<Rightarrow> b
      | Some var \<Rightarrow> b\<lparr>bhv_messages := bhv_messages b @ [keyed var key b (VarDataPair_d var ddata)]\<rparr>)"

definition postBoolMessage :: "string \<Rightarrow> bool \<Rightarrow> string \<Rightarrow> 'x ivp_behavior_scheme \<Rightarrow> 'x ivp_behavior_scheme option" where
  "postBoolMessage var bdata key b = (if bdata then postMessage_s var ''true'' key b else postMessage_s var ''false'' key b)"

definition postIntMessage :: "string \<Rightarrow> real \<Rightarrow> string \<Rightarrow> 'x ivp_behavior_scheme \<Rightarrow> 'x ivp_behavior_scheme option" where
  "postIntMessage var ddata key b =
     (let idata = c_trunc (ddata + 1 / 2)
      in if idata < - (2 ^ 31) \<or> idata \<ge> 2 ^ 31 then None else Some (postMessage_d var (of_int idata) key b))"

definition postRepeatableMessage_s :: "string \<Rightarrow> string \<Rightarrow> 'x ivp_behavior_scheme \<Rightarrow> 'x ivp_behavior_scheme option" where
  "postRepeatableMessage_s var sdata = postMessage_s var sdata ''repeatable''"

definition postRepeatableMessage_d :: "string \<Rightarrow> real \<Rightarrow> 'x ivp_behavior_scheme \<Rightarrow> 'x ivp_behavior_scheme" where
  "postRepeatableMessage_d var ddata = postMessage_d var ddata ''repeatable''"

definition postEMessage :: "string \<Rightarrow> 'x ivp_behavior_scheme \<Rightarrow> 'x ivp_behavior_scheme option" where
  "postEMessage g_emsg b =
     (let g_emsg = (if m_descriptor b \<noteq> '''' then m_descriptor b @ '': '' @ g_emsg else g_emsg)
      in postMessage_s ''BHV_ERROR'' g_emsg ''repeatable'' b \<bind> (\<lambda>b. Some (b\<lparr>m_bhv_state_ok := False\<rparr>)))"

definition postBadConfig :: "string \<Rightarrow> 'x ivp_behavior_scheme \<Rightarrow> 'x ivp_behavior_scheme option" where
  "postBadConfig message b =
     (let message = (if m_descriptor b \<noteq> '''' then m_descriptor b @ '': '' @ message else message)
      in postMessage_s ''BHV_BAD_CONFIG'' message ''repeatable'' b)"

definition postWMessage :: "string \<Rightarrow> 'x ivp_behavior_scheme \<Rightarrow> 'x ivp_behavior_scheme option" where
  "postWMessage g_msg b =
     (if g_msg = '''' then Some b
      else let g_msg = (if m_descriptor b \<noteq> '''' then m_descriptor b @ '': '' @ g_msg else g_msg)
           in postMessage_s ''BHV_WARNING'' g_msg ''repeatable'' b)"

definition statusInfoAdd :: "string \<Rightarrow> string \<Rightarrow> 'x ivp_behavior_scheme \<Rightarrow> 'x ivp_behavior_scheme" where
  "statusInfoAdd param value b = b\<lparr>m_status_info := m_status_info b @ '','' @ param @ ''='' @ value\<rparr>"

definition statusInfoPost :: "'x ivp_behavior_scheme \<Rightarrow> 'x ivp_behavior_scheme option" where
  "statusInfoPost b =
     (let b = statusInfoAdd ''updates'' (m_update_summary b) b
      in postMessage_s ''BHV_STATUS'' (m_status_info b) (m_descriptor b) b \<bind> (\<lambda>b.
         Some (b\<lparr>m_status_info := ''name='' @ m_descriptor b\<rparr>)))"

definition flags_of :: "string \<Rightarrow> 'x ivp_behavior_scheme \<Rightarrow> var_data_pair list" where
  "flags_of str b =
     (if str = ''runflags'' then m_run_flags b
      else if str = ''endflags'' then m_end_flags b
      else if str = ''idleflags'' then m_idle_flags b
      else if str = ''activeflags'' then m_active_flags b
      else if str = ''inactiveflags'' then m_inactive_flags b else [])"

definition expanded :: "string \<Rightarrow> 'x ivp_behavior_scheme \<Rightarrow> string option" where
  "expanded sdata b =
     findReplace sdata ''$[OWNSHIP]'' (m_us_name b) \<bind> (\<lambda>sdata.
     findReplace sdata ''$[BHVNAME]'' (m_descriptor b) \<bind> (\<lambda>sdata.
     findReplace sdata ''$[BHVTYPE]'' (m_behavior_type b) \<bind> (\<lambda>sdata.
     findReplace sdata ''$[CONTACT]'' (m_contact b))))"

definition postFlag :: "bool \<Rightarrow> var_data_pair \<Rightarrow> 'x ivp_behavior_scheme \<Rightarrow> 'x ivp_behavior_scheme option" where
  "postFlag repeated flag b =
     (if m_is_string flag
      then expanded (m_sdata flag) b \<bind> (\<lambda>sdata.
        if repeated then postRepeatableMessage_s (m_var flag) sdata b else postMessage_s (m_var flag) sdata '''' b)
      else Some (if repeated then postRepeatableMessage_d (m_var flag) (m_ddata flag) b
                 else postMessage_d (m_var flag) (m_ddata flag) '''' b))"

fun postFlag_loop :: "bool \<Rightarrow> var_data_pair list \<Rightarrow> 'x ivp_behavior_scheme \<Rightarrow> 'x ivp_behavior_scheme option" where
  "postFlag_loop repeated [] b = Some b"
| "postFlag_loop repeated (flag # flags) b = postFlag repeated flag b \<bind> postFlag_loop repeated flags"

definition postFlags :: "string \<Rightarrow> bool \<Rightarrow> 'x ivp_behavior_scheme \<Rightarrow> 'x ivp_behavior_scheme option" where
  "postFlags str repeatable b = postFlag_loop (str = ''endflags'' \<or> repeatable) (flags_of str b) b"

definition setComplete :: "'x ivp_behavior_scheme \<Rightarrow> 'x ivp_behavior_scheme option" where
  "setComplete b =
     postFlags ''endflags'' False b \<bind> (\<lambda>b. Some (if \<not> m_perpetual b then b\<lparr>m_completed := True\<rparr> else b))"

section \<open>Parameters\<close>

text \<open>What a flag parameter declares; \<open>Some None\<close> when it is refused.\<close>

definition new_flag :: "string \<Rightarrow> var_data_pair option option" where
  "new_flag g_val =
     (let (var, val) = biteStringX g_val (CHR ''='')
      in if strContainsWhite var \<or> val = '''' then Some None
         else VarDataPair_hint var val ''auto'' \<bind> (\<lambda>pair. Some (Some pair)))"

definition add_flag :: "string \<Rightarrow> (var_data_pair \<Rightarrow> 'x ivp_behavior_scheme \<Rightarrow> 'x ivp_behavior_scheme) \<Rightarrow>
    'x ivp_behavior_scheme \<Rightarrow> (bool \<times> 'x ivp_behavior_scheme) option" where
  "add_flag g_val push b =
     new_flag g_val \<bind> (\<lambda>flag. Some (case flag of None \<Rightarrow> (False, b) | Some pair \<Rightarrow> (True, push pair b)))"

definition setParam_condition :: "string \<Rightarrow> 'x ivp_behavior_scheme \<Rightarrow> bool \<times> 'x ivp_behavior_scheme" where
  "setParam_condition g_val b =
     (let (ok, new_condition) = setCondition (findReplace_chr g_val (CHR '','') (CHR ''='')) LogicCondition_new
      in (ok, if ok then b\<lparr>bhv_logic_conditions := bhv_logic_conditions b @ [LogicCondition_copy new_condition]\<rparr> else b))"

definition setParam_nostarve :: "string \<Rightarrow> 'x ivp_behavior_scheme \<Rightarrow> bool \<times> 'x ivp_behavior_scheme" where
  "setParam_nostarve g_val b =
     (let svector = parseString g_val (CHR '',''); vsize = length svector
      in if vsize < 2 then (False, b)
         else let stime = atof (svector ! (vsize - 1))
              in if stime \<le> 0 then (False, b)
                 else (True, b\<lparr>m_starve_vars :=
                        foldl (\<lambda>vars v. put (stripBlankEnds v) stime vars) (m_starve_vars b) (take (vsize - 1) svector)\<rparr>))"

definition setParam_duration :: "string \<Rightarrow> 'x ivp_behavior_scheme \<Rightarrow> bool \<times> 'x ivp_behavior_scheme" where
  "setParam_duration g_val b =
     (let dval = atof g_val; unlimited = (g_val = ''no-time-limit'' \<or> g_val = ''-1'')
      in if (dval < 0 \<or> \<not> isNumber g_val True) \<and> \<not> unlimited then (False, b)
         else (True, b\<lparr>m_duration := if unlimited then - 1 else dval\<rparr>))"

definition setParam :: "(string \<Rightarrow> string \<Rightarrow> 'x ivp_behavior_scheme \<Rightarrow> (bool \<times> 'x ivp_behavior_scheme) option) \<Rightarrow>
    string \<Rightarrow> string \<Rightarrow> 'x ivp_behavior_scheme \<Rightarrow> (bool \<times> 'x ivp_behavior_scheme) option" where
  "setParam virt g_param g_val b =
     (let g_val = stripBlankEnds g_val; g_param = tolower g_param;
          g_param = (if char_at g_param 0 = Some (CHR ''_'') then tl (c_str g_param) else g_param)
      in if g_param = ''us'' then Some (True, b\<lparr>m_us_name := g_val\<rparr>)
         else if g_param = ''pwt'' \<or> g_param = ''priwt'' \<or> g_param = ''priority''
           then let pwt = atof g_val
                in if pwt < 0 \<or> \<not> isNumber g_val True then Some (False, b) else Some (True, b\<lparr>m_priority_wt := pwt\<rparr>)
         else if g_param = ''condition'' then Some (setParam_condition g_val b)
         else if g_param = ''duration_status'' then Some (True, b\<lparr>m_duration_status := g_val\<rparr>)
         else if g_param = ''duration_reset''
           then let (var, val) = biteStringX g_val (CHR ''='')
                in if var = '''' then Some (False, b)
                   else Some (True, b\<lparr>m_duration_reset_var := var, m_duration_reset_val := val\<rparr>)
         else if g_param = ''duration_idle_decay''
           then let (ok, v) = setBooleanOnString (m_duration_idle_decay b) g_val True
                in Some (ok, b\<lparr>m_duration_idle_decay := v\<rparr>)
         else if g_param = ''post_mapping''
           then let (left, right) = biteStringX g_val (CHR '','')
                in if \<not> strContainsWhite left \<and> \<not> strContainsWhite right
                   then Some (True, b\<lparr>m_remap_vars := (m_remap_vars b)(left \<mapsto> right)\<rparr>) else Some (False, b)
         else if g_param = ''runflag'' then add_flag g_val (\<lambda>p b. b\<lparr>m_run_flags := m_run_flags b @ [p]\<rparr>) b
         else if g_param = ''activeflag'' then add_flag g_val (\<lambda>p b. b\<lparr>m_active_flags := m_active_flags b @ [p]\<rparr>) b
         else if g_param = ''inactiveflag'' then add_flag g_val (\<lambda>p b. b\<lparr>m_inactive_flags := m_inactive_flags b @ [p]\<rparr>) b
         else if g_param = ''idleflag'' then add_flag g_val (\<lambda>p b. b\<lparr>m_idle_flags := m_idle_flags b @ [p]\<rparr>) b
         else if g_param = ''endflag'' then add_flag g_val (\<lambda>p b. b\<lparr>m_end_flags := m_end_flags b @ [p]\<rparr>) b
         else if g_param = ''no_starve'' \<or> g_param = ''nostarve'' then Some (setParam_nostarve g_val b)
         else if g_param = ''perpetual'' then Some (True, b\<lparr>m_perpetual := (tolower g_val = ''true'')\<rparr>)
         else if g_param = ''duration'' then Some (setParam_duration g_val b)
         else if g_param = ''build_info''
           then let g_val = tolower g_val
                in if g_val = ''clear'' then Some (True, b\<lparr>m_build_info := ''''\<rparr>)
                   else let info = (if m_build_info b \<noteq> '''' then '' # '' @ m_build_info b else m_build_info b)
                        in Some (True, b\<lparr>m_build_info := g_val @ info\<rparr>)
         else if g_param = ''updates''
           then let b = b\<lparr>m_update_var := g_val\<rparr>
                in Some (True, if m_update_var b \<noteq> '''' then b\<lparr>m_info_vars := m_info_vars b @ [g_val]\<rparr> else b)
         else if g_param = ''precision'' then virt ''build_info'' (''precision='' @ tolower g_val) b
         else Some (False, b))"

text \<open>A behavior that does not override \<open>setParam\<close>; the inner call never gets to a third.\<close>

definition plain_setParam :: "string \<Rightarrow> string \<Rightarrow> 'x ivp_behavior_scheme \<Rightarrow> (bool \<times> 'x ivp_behavior_scheme) option" where
  "plain_setParam = setParam (setParam (\<lambda>_ _ _. None))"


section \<open>Conditions, durations and variables that must not starve\<close>

text \<open>The condition that ends the third phase, in its text; \<open>Some None\<close> when all hold.\<close>

fun failed_condition :: "logic_condition list \<Rightarrow> string option option" where
  "failed_condition [] = Some None"
| "failed_condition (c # cs) =
     eval c \<bind> (\<lambda>satisfied. if \<not> satisfied then Some (Some (getRawCondition c)) else failed_condition cs)"

definition bhv_checkConditions :: "infobuffer option \<Rightarrow> 'x ivp_behavior_scheme \<Rightarrow> (bool \<times> 'x ivp_behavior_scheme) option" where
  "bhv_checkConditions info_buffer b =
     (case info_buffer of None \<Rightarrow> Some (False, b)
      | Some ib \<Rightarrow>
          let all_vars = removeDuplicates (foldl (\<lambda>vars c. mergeVectors vars (getVarNames c)) [] (bhv_logic_conditions b));
              conds = foldl (propagate ib) (bhv_logic_conditions b) all_vars;
              b = b\<lparr>bhv_logic_conditions := conds\<rparr>
          in failed_condition conds \<bind> (\<lambda>r. Some (case r of None \<Rightarrow> (True, b)
             | Some failed \<Rightarrow> (False, statusInfoAdd ''pc'' failed b))))"

definition durationReset :: "'x ivp_behavior_scheme \<Rightarrow> 'x ivp_behavior_scheme" where
  "durationReset b =
     (let b = b\<lparr>m_duration_reset_pending := False, m_duration_started := False, m_duration_start_time := - 1,
            m_duration_idle_time := 0, m_duration_running_time := 0\<rparr>
      in if m_duration_status b \<noteq> '''' then postMessage_d (m_duration_status b) (m_duration b) '''' b else b)"

definition checkForDurationReset :: "infobuffer option \<Rightarrow> 'x ivp_behavior_scheme \<Rightarrow> bool \<times> 'x ivp_behavior_scheme" where
  "checkForDurationReset info_buffer b =
     (case info_buffer of None \<Rightarrow> (False, b)
      | Some ib \<Rightarrow>
          let varname = m_duration_reset_var b; (s_result, ok_s) = sQuery ib varname; (d_result, ok_d) = dQuery ib varname;
              reset_triggered = (ok_s \<and> m_duration_reset_val b = s_result \<or> ok_d \<and> atof (m_duration_reset_val b) = d_result)
          in if \<not> reset_triggered then (False, b)
             else let curr_reset_timestamp = tQuery ib varname False
                  in if m_duration_reset_timestamp b = - 1 \<or> curr_reset_timestamp > m_duration_reset_timestamp b
                     then (True, durationReset (b\<lparr>m_duration_reset_timestamp := curr_reset_timestamp\<rparr>))
                     else (False, b))"

text \<open>What is left goes to the variable of \<open>duration_status\<close>, rounded when it is more than 10.\<close>

definition post_remaining :: "real \<Rightarrow> 'x ivp_behavior_scheme \<Rightarrow> 'x ivp_behavior_scheme option" where
  "post_remaining remaining_time b =
     (let remaining_time = (if remaining_time < 0 then 0 else remaining_time)
      in if m_duration_status b \<noteq> ''''
         then if remaining_time \<le> 10 then Some (postMessage_d (m_duration_status b) remaining_time '''' b)
              else postIntMessage (m_duration_status b) remaining_time '''' b
         else Some b)"

definition durationExceeded :: "infobuffer option \<Rightarrow> 'x ivp_behavior_scheme \<Rightarrow> (bool \<times> 'x ivp_behavior_scheme) option" where
  "durationExceeded info_buffer b =
     (if m_duration b = - 1 then Some (False, b)
      else info_buffer \<bind> (\<lambda>ib.
        let curr_time = m_curr_time_utc ib;
            (elapsed_time, b) =
              (if \<not> m_duration_started b
               then (0, b\<lparr>m_duration_started := True, m_duration_start_time := curr_time, m_duration_idle_time := 0\<rparr>)
               else (curr_time - m_duration_start_time b, b));
            elapsed_time = (if \<not> m_duration_idle_decay b then elapsed_time - m_duration_idle_time b else elapsed_time)
        in post_remaining (m_duration b - elapsed_time) b \<bind> (\<lambda>b.
           Some (elapsed_time \<ge> m_duration b, b))))"

definition postDurationStatus :: "infobuffer option \<Rightarrow> 'x ivp_behavior_scheme \<Rightarrow> 'x ivp_behavior_scheme option" where
  "postDurationStatus info_buffer b =
     (if m_duration_started b then info_buffer \<bind> (\<lambda>ib. Some (m_curr_time_utc ib - m_duration_start_time b)) else Some 0)
     \<bind> (\<lambda>elapsed_time.
     let remaining_time = m_duration b - elapsed_time;
         remaining_time = (if \<not> m_duration_idle_decay b then remaining_time + m_duration_idle_time b else remaining_time)
     in post_remaining remaining_time b)"

definition updateStateDurations :: "infobuffer option \<Rightarrow> string \<Rightarrow> 'x ivp_behavior_scheme \<Rightarrow> 'x ivp_behavior_scheme option" where
  "updateStateDurations info_buffer bhv_state b =
     info_buffer \<bind> (\<lambda>ib.
     let curr_time = m_curr_time_utc ib; delta_time = curr_time - m_duration_prev_timestamp b
     in if m_duration_prev_state b = ''''
        then Some (b\<lparr>m_duration_prev_state := bhv_state, m_duration_prev_timestamp := curr_time\<rparr>)
        else let b = (if bhv_state = ''idle'' then b\<lparr>m_duration_idle_time := m_duration_idle_time b + delta_time\<rparr>
                      else if bhv_state = ''running'' then b\<lparr>m_duration_running_time := m_duration_running_time b + delta_time\<rparr>
                      else b)
             in Some (b\<lparr>m_duration_prev_timestamp := curr_time, m_duration_prev_state := bhv_state\<rparr>))"

text \<open>The first variable, in the order of the names, that is not in the buffer or too old.\<close>

definition starving :: "infobuffer \<Rightarrow> (string \<times> real) list \<Rightarrow> (string \<times> real) option" where
  "starving ib vars = find (\<lambda>(var, stime). let itime = tQuery ib var True in itime = - 1 \<or> itime > stime) vars"

definition checkNoStarve :: "infobuffer option \<Rightarrow> 'x ivp_behavior_scheme \<Rightarrow> bool \<times> 'x ivp_behavior_scheme" where
  "checkNoStarve info_buffer b =
     (case info_buffer of None \<Rightarrow> (False, b)
      | Some ib \<Rightarrow> (case starving ib (m_starve_vars b) of None \<Rightarrow> (True, b)
          | Some (var, stime) \<Rightarrow>
              let msg = ''VarStarve: '' @ var @ ''(stime:'' @ doubleToString stime 5 @
                    '') (itime:'' @ doubleToString (tQuery ib var True) 5 @ '')''
              in (False, statusInfoAdd ''pc'' msg b)))"

definition isRunnable :: "infobuffer option \<Rightarrow> 'x ivp_behavior_scheme \<Rightarrow> (string \<times> 'x ivp_behavior_scheme) option" where
  "isRunnable info_buffer b =
     (if m_completed b then Some (''completed'', b)
      else bhv_checkConditions info_buffer b \<bind> (\<lambda>(ok, b).
        if \<not> ok then Some (''idle'', b)
        else let b = (if m_duration_reset_pending b then durationReset b else b)
          in durationExceeded info_buffer b \<bind> (\<lambda>(exceeded, b).
             (if exceeded
              then setComplete (statusInfoAdd ''pc'' ''completed-byduration'' b) \<bind> (\<lambda>b.
                Some (if m_perpetual b then (False, b\<lparr>m_duration_reset_pending := True\<rparr>) else (True, b)))
              else Some (False, b)) \<bind> (\<lambda>(done, b).
             if done then Some (''completed'', b)
             else if dom_size (bhv_domain b) = 0
               then postEMessage ''Null IvPDomain given to Behavior'' b \<bind> (\<lambda>b.
                 Some (''idle'', statusInfoAdd ''pc'' ''null-domain'' b))
             else let (ok, b) = checkNoStarve info_buffer b
               in Some (if \<not> ok then ''idle'' else ''running'', b)))))"

section \<open>Updates while running\<close>

text \<open>The parameters of one update; a refused one is tried once more with the method of the base class.\<close>

fun update_params :: "(string \<Rightarrow> string \<Rightarrow> 'x ivp_behavior_scheme \<Rightarrow> (bool \<times> 'x ivp_behavior_scheme) option) \<Rightarrow>
    string list \<Rightarrow> bool \<times> string \<Rightarrow> 'x ivp_behavior_scheme \<Rightarrow> ((bool \<times> string) \<times> 'x ivp_behavior_scheme) option" where
  "update_params virt [] r b = Some (r, b)"
| "update_params virt (pair # uvector) (ok_params, bad_params) b =
     (let (param, value) = biteStringX pair (CHR ''='')
      in virt param value b \<bind> (\<lambda>(result, b).
         (if \<not> result then setParam virt param value b else Some (result, b)) \<bind> (\<lambda>(result, b).
         update_params virt uvector
           (if \<not> result then (False, (if bad_params \<noteq> '''' then bad_params @ '','' else bad_params) @ param)
            else (ok_params, bad_params)) b)))"

definition name_mismatch :: "string list \<Rightarrow> 'x ivp_behavior_scheme \<Rightarrow> bool" where
  "name_mismatch uvector b =
     list_ex (\<lambda>pair. case biteStringX pair (CHR ''='') of (param, value) \<Rightarrow> param = ''name'' \<and> value \<noteq> m_descriptor b) uvector"

definition one_update :: "(string \<Rightarrow> string \<Rightarrow> 'x ivp_behavior_scheme \<Rightarrow> (bool \<times> 'x ivp_behavior_scheme) option) \<Rightarrow>
    string \<Rightarrow> bool \<times> 'x ivp_behavior_scheme \<Rightarrow> (bool \<times> 'x ivp_behavior_scheme) option" where
  "one_update virt new_update_str s =
     (let (update_made, b) = s; uvector = parseString new_update_str (CHR ''#'')
      in if \<not> (strContains (tolower new_update_str) ''toggle'' \<or>
                new_update_str \<noteq> '''' \<and> new_update_str \<noteq> m_prev_update_str b) then Some (update_made, b)
         else if name_mismatch uvector b then Some (update_made, b)
         else update_params virt uvector (True, '''') b \<bind> (\<lambda>((ok_params, bad_params), b).
           if \<not> ok_params
           then let b = b\<lparr>m_bad_updates := (m_bad_updates b + 1) mod 2 ^ 32\<rparr>;
                    wmsg = ''Faulty update for behavior: '' @ m_descriptor b @ ''. Bad parameter(s): '' @ bad_params
                in postMessage_s ''BHV_WARNING'' wmsg '''' b \<bind> (\<lambda>b.
                   postMessage_s ''BHV_CONFIG_WARNING'' wmsg '''' b \<bind> (\<lambda>b. Some (update_made, b)))
           else Some (True, b\<lparr>m_good_updates := (m_good_updates b + 1) mod 2 ^ 32, m_prev_update_str := new_update_str\<rparr>)))"

fun update_loop :: "(string \<Rightarrow> string \<Rightarrow> 'x ivp_behavior_scheme \<Rightarrow> (bool \<times> 'x ivp_behavior_scheme) option) \<Rightarrow>
    string list \<Rightarrow> bool \<times> 'x ivp_behavior_scheme \<Rightarrow> (bool \<times> 'x ivp_behavior_scheme) option" where
  "update_loop virt [] s = Some s"
| "update_loop virt (u # us) s = one_update virt u s \<bind> update_loop virt us"

definition getBufferStringVector :: "infobuffer option \<Rightarrow> string \<Rightarrow> string list \<times> bool" where
  "getBufferStringVector info_buffer varname =
     (case info_buffer of None \<Rightarrow> ([], False) | Some ib \<Rightarrow> sQueryDeltas ib varname)"

definition checkUpdates :: "(string \<Rightarrow> string \<Rightarrow> 'x ivp_behavior_scheme \<Rightarrow> (bool \<times> 'x ivp_behavior_scheme) option) \<Rightarrow>
    ('x ivp_behavior_scheme \<Rightarrow> 'x ivp_behavior_scheme option) \<Rightarrow> infobuffer option \<Rightarrow>
    'x ivp_behavior_scheme \<Rightarrow> (bool \<times> 'x ivp_behavior_scheme) option" where
  "checkUpdates virt config info_buffer b =
     (if m_update_var b = '''' then Some (False, b\<lparr>m_update_summary := ''n/a''\<rparr>)
      else update_loop virt (fst (getBufferStringVector info_buffer (m_update_var b))) (False, b) \<bind> (\<lambda>(update_made, b).
        (if update_made then config b else Some b) \<bind> (\<lambda>b.
        Some (update_made, b\<lparr>m_update_summary := uintToString (m_good_updates b) @ ''/'' @
          uintToString ((m_good_updates b + m_bad_updates b) mod 2 ^ 32)\<rparr>))))"

section \<open>Reading the buffer\<close>

definition addInfoVars :: "string \<Rightarrow> string \<Rightarrow> 'x ivp_behavior_scheme \<Rightarrow> 'x ivp_behavior_scheme" where
  "addInfoVars var_string warning b =
     (let warning = tolower warning; no_warning = (warning = ''nowarning'' \<or> warning = ''no_warning'')
      in foldl (\<lambda>b v. let varname = stripBlankEnds v;
             b = (if \<not> vectorContains (m_info_vars b) varname then b\<lparr>m_info_vars := m_info_vars b @ [varname]\<rparr> else b)
           in if \<not> vectorContains (m_info_vars_no_warning b) varname \<and> no_warning
              then b\<lparr>m_info_vars_no_warning := m_info_vars_no_warning b @ [varname]\<rparr> else b)
         b (parseString var_string (CHR '','')))"

definition bhv_getInfoVars :: "'x ivp_behavior_scheme \<Rightarrow> string list" where
  "bhv_getInfoVars b =
     (let svector = foldl (\<lambda>vars c. mergeVectors vars (getVarNames c)) [] (bhv_logic_conditions b);
          svector = (if m_duration_reset_var b \<noteq> '''' then svector @ [m_duration_reset_var b] else svector)
      in removeDuplicates (mergeVectors svector (m_info_vars b)))"

definition getBufferCurrTime :: "infobuffer option \<Rightarrow> real" where
  "getBufferCurrTime info_buffer = (case info_buffer of None \<Rightarrow> 0 | Some ib \<Rightarrow> m_curr_time_utc ib)"

definition getBufferTimeVal :: "infobuffer option \<Rightarrow> string \<Rightarrow> real" where
  "getBufferTimeVal info_buffer varname = (case info_buffer of None \<Rightarrow> 0 | Some ib \<Rightarrow> tQuery ib varname True)"

definition getBufferMsgTimeVal :: "infobuffer option \<Rightarrow> string \<Rightarrow> real" where
  "getBufferMsgTimeVal info_buffer varname = (case info_buffer of None \<Rightarrow> 0 | Some ib \<Rightarrow> mtQuery ib varname True)"

text \<open>A variable that is not found gives a warning unless that has been turned off.\<close>

definition warn_missing :: "bool \<Rightarrow> string \<Rightarrow> string \<Rightarrow> 'x ivp_behavior_scheme \<Rightarrow> 'x ivp_behavior_scheme option" where
  "warn_missing ok varname msg b =
     (if \<not> ok \<and> \<not> vectorContains (m_info_vars_no_warning b) varname then postWMessage (varname @ msg) b else Some b)"

definition getBufferDoubleVal :: "infobuffer option \<Rightarrow> string \<Rightarrow> 'x ivp_behavior_scheme \<Rightarrow>
    ((real \<times> bool) \<times> 'x ivp_behavior_scheme) option" where
  "getBufferDoubleVal info_buffer varname b =
     (case info_buffer of None \<Rightarrow> Some ((0, False), b)
      | Some ib \<Rightarrow>
          let (value, ok) = dQuery ib varname;
              (value, ok) =
                (if \<not> ok
                 then let (sval, result) = sQuery ib varname
                      in if result \<and> isNumber sval True then (atof sval, True) else (value, ok)
                 else (value, ok))
          in warn_missing ok varname '' dbl info not found in helm info_buffer'' b \<bind> (\<lambda>b. Some ((value, ok), b)))"

definition string_value :: "infobuffer \<Rightarrow> string \<Rightarrow> string \<times> bool" where
  "string_value ib varname =
     (let (value, ok) = sQuery ib varname
      in if \<not> ok
         then let (dval, result) = dQuery ib varname in if result then (doubleToString dval 6, True) else (value, ok)
         else (value, ok))"

definition getBufferStringVal_ok :: "infobuffer option \<Rightarrow> string \<Rightarrow> 'x ivp_behavior_scheme \<Rightarrow>
    ((string \<times> bool) \<times> 'x ivp_behavior_scheme) option" where
  "getBufferStringVal_ok info_buffer varname b =
     (case info_buffer of None \<Rightarrow> Some (('''', False), b)
      | Some ib \<Rightarrow> let (value, ok) = string_value ib varname
          in warn_missing ok varname '' str info not found in helm info_buffer'' b \<bind> (\<lambda>b. Some ((value, ok), b)))"

definition getBufferStringVal :: "infobuffer option \<Rightarrow> string \<Rightarrow> 'x ivp_behavior_scheme \<Rightarrow>
    (string \<times> 'x ivp_behavior_scheme) option" where
  "getBufferStringVal info_buffer varname b =
     (case info_buffer of None \<Rightarrow> Some ('''', b)
      | Some ib \<Rightarrow> let (value, ok) = string_value ib varname
          in warn_missing ok varname '' info not found in helm info_buffer'' b \<bind> (\<lambda>b. Some (value, b)))"

definition getBufferDoubleVector :: "infobuffer option \<Rightarrow> string \<Rightarrow> real list \<times> bool" where
  "getBufferDoubleVector info_buffer varname =
     (case info_buffer of None \<Rightarrow> ([], False) | Some ib \<Rightarrow> dQueryDeltas ib varname)"

definition bhv_getStateSpaceVars :: "'x ivp_behavior_scheme \<Rightarrow> string list" where
  "bhv_getStateSpaceVars b =
     foldl (\<lambda>vars c. mergeVectors vars (getVarNames c)) [] (bhv_logic_conditions b) @ map m_var (m_run_flags b) @
     map m_var (m_idle_flags b) @ map m_var (m_end_flags b) @ map m_var (m_active_flags b) @ map m_var (m_inactive_flags b)"

section \<open>The state of a behavior\<close>

text \<open>What the operations keep: a weight and a limit that make sense, a name that is no quote, ordered
  variables with positive times, conditions that can be evaluated.\<close>

definition bhv_inv :: "'x ivp_behavior_scheme \<Rightarrow> bool" where
  "bhv_inv b \<longleftrightarrow> m_priority_wt b \<ge> 0 \<and> (m_duration b = - 1 \<or> m_duration b \<ge> 0) \<and>
     (\<exists>c s. m_descriptor b = c # s \<and> c \<noteq> QUOTE \<and> \<not> front_blank c) \<and>
     sorted_wrt (<) (map fst (m_starve_vars b)) \<and> (\<forall>(v, t)\<in>set (m_starve_vars b). t > 0) \<and>
     (\<forall>c\<in>set (bhv_logic_conditions b). \<exists>env. logic_ok env c) \<and>
     m_good_updates b < 2 ^ 32 \<and> m_bad_updates b < 2 ^ 32"

lemma bhv_inv_new: "bhv_inv (IvPBehavior_new D)"
  by (simp add: bhv_inv_def IvPBehavior_new_def front_blank_def)

lemma add_flag_total:
  "add_flag g push b = Some (False, b) \<or> (\<exists>p. add_flag g push b = Some (True, push p b))"
proof -
  obtain var val where v: "biteStringX g (CHR ''='') = (var, val)" by (cases "biteStringX g (CHR ''='')")
  obtain p where "VarDataPair_hint var val ''auto'' = Some p" using VarDataPair_hint_total by blast
  with v show ?thesis by (auto simp: add_flag_def new_flag_def)
qed

lemma starve_inv:
  "sorted_wrt (<) (map fst m) \<Longrightarrow> \<forall>(v, t)\<in>set m. t > 0 \<Longrightarrow> 0 < (stime :: real) \<Longrightarrow>
   sorted_wrt (<) (map fst (foldl (\<lambda>vars v. put (stripBlankEnds v) stime vars) m vs)) \<and>
   (\<forall>(v, t)\<in>set (foldl (\<lambda>vars v. put (stripBlankEnds v) stime vars) m vs). t > 0)"
proof (induction vs arbitrary: m)
  case (Cons v vs)
  have "set (put k t m) \<subseteq> insert (k, t) (set m)" for k and t :: real
    by (induction k t m rule: put.induct) auto
  then have "\<forall>(v, t)\<in>set (put (stripBlankEnds v) stime m). t > 0" using Cons.prems by fastforce
  from Cons.IH [OF sorted_put [OF Cons.prems(1)] this Cons.prems(3)] show ?case by simp
qed simp

text \<open>The outcome of one parameter: refused and nothing changed, or taken and the invariant kept.\<close>

definition same_core :: "'x ivp_behavior_scheme \<Rightarrow> 'x ivp_behavior_scheme \<Rightarrow> bool" where
  "same_core b b' \<longleftrightarrow> bhv_messages b' = bhv_messages b \<and> m_descriptor b' = m_descriptor b \<and> m_completed b' = m_completed b \<and>
     bhv_domain b' = bhv_domain b \<and> m_good_updates b' = m_good_updates b \<and> m_bad_updates b' = m_bad_updates b"

definition clean_result :: "'x ivp_behavior_scheme \<Rightarrow> (bool \<times> 'x ivp_behavior_scheme) option \<Rightarrow> bool" where
  "clean_result b r \<longleftrightarrow> r = Some (False, b) \<or>
     (\<exists>b'. r = Some (True, b') \<and> (bhv_inv b \<longrightarrow> bhv_inv b') \<and> same_core b b')"

lemma clean_refused: "clean_result b (Some (False, b))"
  by (simp add: clean_result_def)

lemma clean_condition: "clean_result b (Some (setParam_condition g b))"
proof -
  let ?s = "setCondition (findReplace_chr g (CHR '','') (CHR ''='')) LogicCondition_new"
  have "fst ?s \<Longrightarrow> logic_ok (\<lambda>_. Unset) (snd ?s)" by (rule fresh_condition)
  then show ?thesis by (auto simp: clean_result_def same_core_def setParam_condition_def bhv_inv_def Let_def case_prod_beta)
qed

lemma clean_nostarve: "clean_result b (Some (setParam_nostarve g b))"
proof (cases "length (parseString g (CHR '','')) < 2 \<or> atof (parseString g (CHR '','') ! (length (parseString g (CHR '','')) - 1)) \<le> 0")
  case True
  then show ?thesis by (auto simp: clean_result_def setParam_nostarve_def Let_def)
next
  case False
  let ?sv = "parseString g (CHR '','')"
  have "bhv_inv b \<Longrightarrow> sorted_wrt (<) (map fst (foldl (\<lambda>vars v. put (stripBlankEnds v) (atof (?sv ! (length ?sv - 1))) vars)
      (m_starve_vars b) (take (length ?sv - 1) ?sv))) \<and>
    (\<forall>(v, t)\<in>set (foldl (\<lambda>vars v. put (stripBlankEnds v) (atof (?sv ! (length ?sv - 1))) vars)
      (m_starve_vars b) (take (length ?sv - 1) ?sv)). t > 0)"
    using False by (intro starve_inv) (simp_all add: bhv_inv_def)
  then show ?thesis using False by (simp add: clean_result_def same_core_def setParam_nostarve_def Let_def bhv_inv_def)
qed

lemma clean_duration: "clean_result b (Some (setParam_duration g b))"
  by (auto simp: clean_result_def same_core_def setParam_duration_def Let_def bhv_inv_def)

lemma clean_flag:
  "(\<And>p. (bhv_inv b \<longrightarrow> bhv_inv (push p b)) \<and> same_core b (push p b)) \<Longrightarrow>
   clean_result b (add_flag g push b)"
  using add_flag_total [of g push b] unfolding clean_result_def by auto

lemma clean_if: "(c \<Longrightarrow> clean_result b x) \<Longrightarrow> (\<not> c \<Longrightarrow> clean_result b y) \<Longrightarrow> clean_result b (if c then x else y)"
  by simp

lemma clean_let: "(\<And>x y. p = (x, y) \<Longrightarrow> clean_result b (f x y)) \<Longrightarrow> clean_result b (case p of (x, y) \<Rightarrow> f x y)"
  by (cases p) simp

lemma clean_decay:
  "setBooleanOnString (m_duration_idle_decay b) g True = (ok, v) \<Longrightarrow> clean_result b (Some (ok, b\<lparr>m_duration_idle_decay := v\<rparr>))"
  by (auto simp: setBooleanOnString_def clean_result_def bhv_inv_def same_core_def Let_def split: if_splits)

lemma clean_pwt: "\<not> (pwt < 0 \<or> q) \<Longrightarrow> clean_result b (Some (True, b\<lparr>m_priority_wt := pwt\<rparr>))"
  by (simp add: clean_result_def bhv_inv_def same_core_def)


lemma setParam_clean:
  assumes "\<And>v. clean_result b (virt ''build_info'' v b)"
  shows "clean_result b (setParam virt p v b)"
  unfolding setParam_def Let_def
proof (intro clean_if clean_let clean_refused clean_condition clean_nostarve clean_duration clean_flag clean_decay assms)
qed ((assumption | erule clean_pwt | simp (no_asm) add: clean_result_def bhv_inv_def same_core_def)+)

lemma setParam_build: "clean_result b (setParam virt ''build_info'' v b)"
proof -
  have t: "tolower ''build_info'' = ''build_info''" by code_simp
  show ?thesis unfolding setParam_def Let_def t by (simp add: char_at_def clean_result_def bhv_inv_def same_core_def)
qed

lemma plain_clean: "clean_result b (plain_setParam p v b)"
  unfolding plain_setParam_def by (rule setParam_clean) (rule setParam_build)

text \<open>C13: \<open>setParam\<close> returns for any parameter: one that is refused changes nothing, and one that is taken posts
  nothing and keeps the weight at zero or more, the duration at zero or more or unlimited, the starve times
  positive and in order, and every condition one that can be evaluated. So does the constructor.\<close>

theorem setParam_effect:
  "bhv_inv (IvPBehavior_new D) \<and>
   (plain_setParam p v b = Some (False, b) \<or>
    (\<exists>b'. plain_setParam p v b = Some (True, b') \<and> (bhv_inv b \<longrightarrow> bhv_inv b') \<and> same_core b b'))"
  using plain_clean [of b p v] bhv_inv_new by (simp add: clean_result_def)

theorem setParam_effect_witness:
  "\<exists>b'. plain_setParam ''pwt'' ''5'' (IvPBehavior_new empty_domain) = Some (True, b') \<and> bhv_inv b'"
proof -
  have "map_option fst (plain_setParam ''pwt'' ''5'' (IvPBehavior_new empty_domain)) = Some True" by code_simp
  then show ?thesis
    using setParam_effect [of empty_domain "''pwt''" "''5''" "IvPBehavior_new empty_domain"] by auto
qed

section \<open>Updates\<close>

lemma setParam_name: "setParam virt ''name'' v b = Some (False, b)"
proof -
  have t: "tolower ''name'' = ''name''" by code_simp
  show ?thesis unfolding setParam_def Let_def t by (simp add: char_at_def)
qed

lemma plain_name: "plain_setParam ''name'' v b = Some (False, b)"
  by (simp add: plain_setParam_def setParam_name)

lemma same_core_refl [simp]: "same_core b b"
  by (simp add: same_core_def)

text \<open>The parameters of an update: the result is good when none has been refused.\<close>

lemma update_params_plain:
  "\<exists>r b'. update_params plain_setParam uvector (ok, bad) b = Some (r, b') \<and> (bhv_inv b \<longrightarrow> bhv_inv b') \<and>
     same_core b b' \<and> (fst r \<longrightarrow> ok) \<and>
     ((\<exists>pair\<in>set uvector. fst (biteStringX pair (CHR ''='')) = ''name'') \<longrightarrow> \<not> fst r)"
proof (induction uvector arbitrary: ok bad b)
  case (Cons pair uvector)
  obtain p v where pv: "biteStringX pair (CHR ''='') = (p, v)" by (cases "biteStringX pair (CHR ''='')")
  let ?twice = "plain_setParam p v b \<bind> (\<lambda>(result, b). if \<not> result then setParam plain_setParam p v b else Some (result, b))"
  have "\<exists>res b1. ?twice = Some (res, b1) \<and> (bhv_inv b \<longrightarrow> bhv_inv b1) \<and> same_core b b1 \<and> (p = ''name'' \<longrightarrow> \<not> res)"
  proof (cases "p = ''name''")
    case True
    then show ?thesis by (intro exI [of _ False] exI [of _ b]) (simp add: plain_name setParam_name same_core_def)
  next
    case False
    then show ?thesis using plain_clean [of b p v] setParam_clean [of b plain_setParam p v, OF plain_clean]
      unfolding clean_result_def same_core_def by fastforce
  qed
  then obtain res b1 where b1: "?twice = Some (res, b1)" "bhv_inv b \<longrightarrow> bhv_inv b1" "same_core b b1" "p = ''name'' \<longrightarrow> \<not> res" by blast
  let ?bad = "(if bad \<noteq> '''' then bad @ '','' else bad) @ p"
  have e: "update_params plain_setParam (pair # uvector) (ok, bad) b =
      update_params plain_setParam uvector (if \<not> res then (False, ?bad) else (ok, bad)) b1"
    using b1(1) by (cases "plain_setParam p v b") (auto simp: pv split: prod.splits)
  show ?case
  proof (cases res)
    case True
    then show ?thesis using Cons.IH [of ok bad b1] b1 e pv by (auto simp: same_core_def)
  next
    case False
    then show ?thesis using Cons.IH [of False ?bad b1] b1 e by (auto simp: same_core_def)
  qed
qed simp



text \<open>A posting of a text that does not begin with a quote always succeeds.\<close>

lemma post_plain:
  "c \<noteq> QUOTE \<Longrightarrow> \<not> front_blank c \<Longrightarrow> \<exists>ms. postMessage_s var (c # s) key b = Some (b\<lparr>bhv_messages := bhv_messages b @ ms\<rparr>)"
proof (cases "remapped var b")
  case None
  then show ?thesis by (intro exI [of _ "[]"]) (simp add: postMessage_s_def)
qed (auto simp: postMessage_s_def VarDataPair_s_def isQuoted_plain)

lemma one_update_plain:
  assumes "strContains (tolower u) ''toggle'' \<or> u \<noteq> '''' \<and> u \<noteq> m_prev_update_str b" "\<not> name_mismatch (parseString u (CHR ''#'')) b"
    "bhv_inv b"
  shows "\<exists>good b'. one_update plain_setParam u (made, b) = Some (made \<or> good, b') \<and> bhv_inv b' \<and>
     m_descriptor b' = m_descriptor b \<and>
     m_good_updates b' = (m_good_updates b + (if good then 1 else 0)) mod 2 ^ 32 \<and>
     m_bad_updates b' = (m_bad_updates b + (if good then 0 else 1)) mod 2 ^ 32 \<and>
     ((\<exists>pair\<in>set (parseString u (CHR ''#'')). fst (biteStringX pair (CHR ''='')) = ''name'') \<longrightarrow> \<not> good)"
proof -
  let ?uv = "parseString u (CHR ''#'')"
  obtain ok bad b1 where b1: "update_params plain_setParam ?uv (True, '''') b = Some ((ok, bad), b1)" "bhv_inv b1"
    "same_core b b1" "(\<exists>pair\<in>set ?uv. fst (biteStringX pair (CHR ''='')) = ''name'') \<longrightarrow> \<not> ok"
    using update_params_plain [of ?uv True "''''" b] assms(3) by auto
  have c: "m_descriptor b1 = m_descriptor b" "m_good_updates b1 = m_good_updates b" "m_bad_updates b1 = m_bad_updates b"
    "m_good_updates b < 2 ^ 32" "m_bad_updates b < 2 ^ 32" using b1(3) assms(3) by (simp_all add: same_core_def bhv_inv_def)
  have g: "\<not> (\<not> (strContains (tolower u) ''toggle'' \<or> u \<noteq> '''' \<and> u \<noteq> m_prev_update_str b))" using assms(1) by blast
  show ?thesis
  proof (cases ok)
    case True
    let ?b2 = "b1\<lparr>m_good_updates := (m_good_updates b1 + 1) mod 2 ^ 32, m_prev_update_str := u\<rparr>"
    have "one_update plain_setParam u (made, b) = Some (True, ?b2)"
      unfolding one_update_def Let_def case_prod_conv if_not_P [OF g] if_not_P [OF assms(2)] b1(1) by (simp add: True)
    then show ?thesis using True b1(2,4) c by (intro exI [of _ True] exI [of _ ?b2]) (simp add: bhv_inv_def)
  next
    case False
    let ?b2 = "b1\<lparr>m_bad_updates := (m_bad_updates b1 + 1) mod 2 ^ 32\<rparr>"
    let ?msg = "''Faulty update for behavior: '' @ m_descriptor ?b2 @ ''. Bad parameter(s): '' @ bad"
    have m: "?msg = CHR ''F'' # tl ?msg" by simp
    have f: "CHR ''F'' \<noteq> QUOTE" "\<not> front_blank (CHR ''F'')" by (simp_all add: front_blank_def)
    obtain ms where ms: "postMessage_s ''BHV_WARNING'' ?msg '''' ?b2 = Some (?b2\<lparr>bhv_messages := bhv_messages ?b2 @ ms\<rparr>)"
      using post_plain [OF f] m by metis
    let ?b3 = "?b2\<lparr>bhv_messages := bhv_messages ?b2 @ ms\<rparr>"
    obtain ms' where ms': "postMessage_s ''BHV_CONFIG_WARNING'' ?msg '''' ?b3 = Some (?b3\<lparr>bhv_messages := bhv_messages ?b3 @ ms'\<rparr>)"
      using post_plain [OF f] m by metis
    let ?b4 = "?b3\<lparr>bhv_messages := bhv_messages ?b3 @ ms'\<rparr>"
    have "one_update plain_setParam u (made, b) = Some (made, ?b4)"
      unfolding one_update_def Let_def case_prod_conv if_not_P [OF g] if_not_P [OF assms(2)] b1(1) Option.bind.simps
        if_P [OF False] ms ms' ..
    then show ?thesis using False b1(2,4) c by (intro exI [of _ False] exI [of _ ?b4]) (simp add: bhv_inv_def)
  qed
qed


definition named :: "string \<Rightarrow> bool" where
  "named u \<longleftrightarrow> (\<exists>pair\<in>set (parseString u (CHR ''#'')). fst (biteStringX pair (CHR ''='')) = ''name'')"

lemma update_loop_plain:
  "bhv_inv b \<Longrightarrow> \<exists>g k b'. update_loop plain_setParam us (made, b) = Some (made \<or> 0 < g, b') \<and> bhv_inv b' \<and>
     m_descriptor b' = m_descriptor b \<and> m_good_updates b' = (m_good_updates b + g) mod 2 ^ 32 \<and>
     m_bad_updates b' = (m_bad_updates b + k) mod 2 ^ 32 \<and> g + k \<le> length us \<and> ((\<forall>u\<in>set us. named u) \<longrightarrow> g = 0)"
proof (induction us arbitrary: made b)
  case Nil
  then show ?case by (intro exI [of _ 0] exI [of _ b]) (simp add: bhv_inv_def)
next
  case (Cons u us)
  note l = Cons.prems
  show ?case
  proof (cases "(strContains (tolower u) ''toggle'' \<or> u \<noteq> '''' \<and> u \<noteq> m_prev_update_str b) \<and>
      \<not> name_mismatch (parseString u (CHR ''#'')) b")
    case False
    then have "one_update plain_setParam u (made, b) = Some (made, b)" by (auto simp: one_update_def Let_def)
    then show ?thesis using Cons.IH [OF l, of made] by (auto intro: le_SucI)
  next
    case True
    then obtain good b1 where b1: "one_update plain_setParam u (made, b) = Some (made \<or> good, b1)" "bhv_inv b1"
      "m_descriptor b1 = m_descriptor b" "m_good_updates b1 = (m_good_updates b + (if good then 1 else 0)) mod 2 ^ 32"
      "m_bad_updates b1 = (m_bad_updates b + (if good then 0 else 1)) mod 2 ^ 32" "named u \<longrightarrow> \<not> good"
      using one_update_plain [of u b made] l unfolding named_def by blast
    obtain g k b2 where b2: "update_loop plain_setParam us (made \<or> good, b1) = Some ((made \<or> good) \<or> 0 < g, b2)" "bhv_inv b2"
      "m_descriptor b2 = m_descriptor b1" "m_good_updates b2 = (m_good_updates b1 + g) mod 2 ^ 32"
      "m_bad_updates b2 = (m_bad_updates b1 + k) mod 2 ^ 32" "g + k \<le> length us" "(\<forall>u\<in>set us. named u) \<longrightarrow> g = 0"
      using Cons.IH [OF b1(2), of "made \<or> good"] by blast
    let ?g = "g + (if good then 1 else 0)" and ?k = "k + (if good then 0 else 1)"
    have "m_good_updates b2 = (m_good_updates b + ?g) mod 2 ^ 32" "m_bad_updates b2 = (m_bad_updates b + ?k) mod 2 ^ 32"
      unfolding b2(4,5) b1(4,5) mod_add_left_eq by (simp_all only: ac_simps)
    moreover have "update_loop plain_setParam (u # us) (made, b) = Some (made \<or> 0 < ?g, b2)" using b1(1) b2(1) by auto
    moreover have "m_descriptor b2 = m_descriptor b" using b1(3) b2(3) by simp
    moreover have "?g + ?k \<le> length (u # us)" using b2(6) by simp
    moreover have "(\<forall>u\<in>set (u # us). named u) \<longrightarrow> ?g = 0" using b1(6) b2(7) by auto
    ultimately show ?thesis using b2(2) by blast
  qed
qed


lemma checkUpdates_counts:
  assumes "bhv_inv b" "m_update_var b \<noteq> ''''"
  shows "\<exists>g k b'. checkUpdates plain_setParam Some info_buffer b = Some (0 < g, b') \<and> bhv_inv b' \<and>
     m_good_updates b' = (m_good_updates b + g) mod 2 ^ 32 \<and> m_bad_updates b' = (m_bad_updates b + k) mod 2 ^ 32 \<and>
     m_update_summary b' = nat_str (m_good_updates b') @ ''/'' @ nat_str ((m_good_updates b' + m_bad_updates b') mod 2 ^ 32) \<and>
     g + k \<le> length (fst (getBufferStringVector info_buffer (m_update_var b))) \<and>
     ((\<forall>u\<in>set (fst (getBufferStringVector info_buffer (m_update_var b))). named u) \<longrightarrow> g = 0)"
proof -
  let ?us = "fst (getBufferStringVector info_buffer (m_update_var b))"
  obtain g k b1 where b1: "update_loop plain_setParam ?us (False, b) = Some (False \<or> 0 < g, b1)" "bhv_inv b1"
    "m_good_updates b1 = (m_good_updates b + g) mod 2 ^ 32" "m_bad_updates b1 = (m_bad_updates b + k) mod 2 ^ 32"
    "g + k \<le> length ?us" "(\<forall>u\<in>set ?us. named u) \<longrightarrow> g = 0"
    using update_loop_plain [OF assms(1), of ?us False] by blast
  let ?b2 = "b1\<lparr>m_update_summary := nat_str (m_good_updates b1) @ ''/'' @
      nat_str ((m_good_updates b1 + m_bad_updates b1) mod 2 ^ 32)\<rparr>"
  have "checkUpdates plain_setParam Some info_buffer b = Some (0 < g, ?b2)"
    using assms(2) b1(1) by (simp add: checkUpdates_def uintToString_def)
  then show ?thesis using b1 by (intro exI [of _ g] exI [of _ k] exI [of _ ?b2]) (simp add: bhv_inv_def)
qed

section \<open>Conditions\<close>

lemma failed_condition_fails: "failed_condition cs = all_satisfied cs \<bind> (\<lambda>r. Some (if r then None else
    Some (getRawCondition (hd (dropWhile (\<lambda>c. eval c = Some True) cs)))))"
  by (induction cs) (auto split: Option.bind_splits)

lemma bhv_checkConditions_ok:
  fixes ib :: infobuffer
  assumes "\<forall>c\<in>set (bhv_logic_conditions b). logic_ok env c"
  defines "env' \<equiv> \<lambda>v. learned ib v (env v)"
  obtains cs st where "map condition_of cs = map condition_of (bhv_logic_conditions b)" "\<forall>c\<in>set cs. logic_ok env' c"
    "bhv_checkConditions (Some ib) b = map_option (\<lambda>r. (r, b\<lparr>bhv_logic_conditions := cs, m_status_info := st r\<rparr>))
       (first_fails (map (\<lambda>c. holds env' (condition_of c)) (bhv_logic_conditions b)))"
proof -
  let ?lb = "\<lparr>m_logic_conditions = bhv_logic_conditions b, m_info_buffer = ib\<rparr>"
  let ?vs = "removeDuplicates (foldl (\<lambda>vars c. mergeVectors vars (getVarNames c)) [] (bhv_logic_conditions b))"
  let ?cs = "foldl (propagate ib) (bhv_logic_conditions b) ?vs"
  let ?h = "first_fails (map (\<lambda>c. holds env' (condition_of c)) (bhv_logic_conditions b))"
  have vs: "distinct ?vs" "set ?vs = (\<Union>c\<in>set (bhv_logic_conditions b). var_names (m_node c))"
    using set_all_vars [of "[]"] by (simp_all add: removeDuplicates_facts)
  have one: "logic_ok env' (foldl (\<lambda>c v. step_cond ib v c) c ?vs) \<and> condition_of (foldl (\<lambda>c v. step_cond ib v c) c ?vs) = condition_of c"
    if "c \<in> set (bhv_logic_conditions b)" for c
    using all_learned [of env c ?vs ib] assms that vs by (auto simp: env'_def)
  have m: "map condition_of ?cs = map condition_of (bhv_logic_conditions b)" "\<forall>c\<in>set ?cs. logic_ok env' c"
    using one by (simp_all add: foldl_propagate)
  have "map (\<lambda>c. holds env' (condition_of c)) ?cs = map (holds env') (map condition_of ?cs)" by simp
  then have h: "all_satisfied ?cs = ?h" using all_satisfied_holds [OF m(2)] unfolding m(1) by (simp add: o_def)
  let ?st = "\<lambda>r. if r then m_status_info b else m_status_info (statusInfoAdd ''pc''
      (getRawCondition (hd (dropWhile (\<lambda>c. eval c = Some True) ?cs))) b)"
  have "bhv_checkConditions (Some ib) b = map_option (\<lambda>r. (r, b\<lparr>bhv_logic_conditions := ?cs, m_status_info := ?st r\<rparr>)) ?h"
    by (cases ?h) (auto simp: bhv_checkConditions_def Let_def failed_condition_fails h statusInfoAdd_def)
  from m this show thesis by (rule that [where cs = ?cs and st = ?st])
qed


section \<open>Running\<close>

text \<open>The seconds that count toward the duration, once a pending reset has been done.\<close>

definition elapsed :: "infobuffer \<Rightarrow> 'x ivp_behavior_scheme \<Rightarrow> real" where
  "elapsed ib b =
     (if m_duration_started b \<and> \<not> m_duration_reset_pending b
      then m_curr_time_utc ib - m_duration_start_time b - (if m_duration_idle_decay b then 0 else m_duration_idle_time b) else 0)"

definition limit_reached :: "infobuffer \<Rightarrow> 'x ivp_behavior_scheme \<Rightarrow> bool" where
  "limit_reached ib b \<longleftrightarrow> m_duration b \<noteq> - 1 \<and> m_duration b \<le> elapsed ib b"

definition is_starving :: "infobuffer \<Rightarrow> 'x ivp_behavior_scheme \<Rightarrow> bool" where
  "is_starving ib b \<longleftrightarrow> (\<exists>(v, t)\<in>set (m_starve_vars b). tQuery ib v True = - 1 \<or> tQuery ib v True > t)"

definition run_state :: "infobuffer \<Rightarrow> bool \<Rightarrow> 'x ivp_behavior_scheme \<Rightarrow> string" where
  "run_state ib met b =
     (if m_completed b then ''completed''
      else if \<not> met then ''idle''
      else if limit_reached ib b \<and> \<not> m_perpetual b then ''completed''
      else if dom_size (bhv_domain b) = 0 \<or> is_starving ib b then ''idle''
      else ''running'')"

text \<open>A flag whose text can be posted.\<close>

definition flag_ok :: "'x ivp_behavior_scheme \<Rightarrow> var_data_pair \<Rightarrow> bool" where
  "flag_ok b p \<longleftrightarrow> (m_is_string p \<longrightarrow> (\<exists>s. expanded (m_sdata p) b = Some s \<and> isQuoted s \<noteq> None))"

text \<open>Steps that change nothing of the core but the messages.\<close>

abbreviation with_messages :: "'x ivp_behavior_scheme \<Rightarrow> var_data_pair list \<Rightarrow> 'x ivp_behavior_scheme" where
  "with_messages b ms \<equiv> b\<lparr>bhv_messages := bhv_messages b @ ms\<rparr>"

lemma post_d: "\<exists>ms. postMessage_d var d key b = with_messages b ms"
proof (cases "remapped var b")
  case None
  then show ?thesis by (intro exI [of _ "[]"]) (simp add: postMessage_d_def)
qed (auto simp: postMessage_d_def)

lemma post_s: "isQuoted s \<noteq> None \<Longrightarrow> \<exists>ms. postMessage_s var s key b = Some (with_messages b ms)"
proof (cases "remapped var b")
  case None
  then show ?thesis by (intro exI [of _ "[]"]) (simp add: postMessage_s_def)
qed (auto simp: postMessage_s_def VarDataPair_s_def)

lemma flag_ok_messages [simp]: "flag_ok (with_messages b ms) p = flag_ok b p"
  by (simp add: flag_ok_def expanded_def)

lemma postFlag_ok: "flag_ok b p \<Longrightarrow> \<exists>ms. postFlag again p b = Some (with_messages b ms)"
  by (cases "m_is_string p")
    (use post_s in \<open>auto simp: postFlag_def flag_ok_def postRepeatableMessage_s_def postRepeatableMessage_d_def post_d
       split del: if_split intro!: post_s split: if_split\<close>)

lemma postFlag_loop_ok: "\<forall>p\<in>set ps. flag_ok b p \<Longrightarrow> \<exists>ms. postFlag_loop again ps b = Some (with_messages b ms)"
proof (induction ps arbitrary: b)
  case Nil
  show ?case by (intro exI [of _ "[]"]) simp
next
  case (Cons p ps)
  obtain ms where ms: "postFlag again p b = Some (with_messages b ms)" using postFlag_ok Cons.prems by fastforce
  have "\<forall>p\<in>set ps. flag_ok (with_messages b ms) p" using Cons.prems by simp
  from Cons.IH [OF this] ms show ?case by auto
qed

lemma setComplete_ok:
  assumes "\<forall>p\<in>set (m_end_flags b). flag_ok b p"
  shows "\<exists>ms. setComplete b = Some (if m_perpetual b then with_messages b ms else (with_messages b ms)\<lparr>m_completed := True\<rparr>)"
  using postFlag_loop_ok [OF assms, of True] by (auto simp: setComplete_def postFlags_def flags_of_def)

lemma post_remaining_ok:
  assumes "m_duration_status b = '''' \<or> r < 2 ^ 31 - 1"
  shows "\<exists>ms. post_remaining r b = Some (with_messages b ms)"
proof (cases "m_duration_status b = ''''")
  case True
  then show ?thesis by (intro exI [of _ "[]"]) (simp add: post_remaining_def)
next
  case False
  let ?r = "if r < 0 then 0 else r"
  have "c_trunc (?r + 1 / 2) = \<lfloor>?r + 1 / 2\<rfloor>" by (simp add: c_trunc_def)
  moreover have "0 \<le> \<lfloor>?r + 1 / 2\<rfloor>" "\<lfloor>?r + 1 / 2\<rfloor> < 2 ^ 31" using assms False by (auto simp: floor_less_iff)
  ultimately have "\<exists>ms. postIntMessage (m_duration_status b) ?r '''' b = Some (with_messages b ms)"
    using post_d [of "m_duration_status b" "of_int (c_trunc (?r + 1 / 2))" "''''" b] by (simp add: postIntMessage_def Let_def)
  then show ?thesis using False post_d [of "m_duration_status b" ?r "''''" b] by (simp add: post_remaining_def Let_def)
qed

lemma durationReset_ok:
  "\<exists>ms. durationReset b = (with_messages b ms)\<lparr>m_duration_reset_pending := False, m_duration_started := False,
     m_duration_start_time := - 1, m_duration_idle_time := 0, m_duration_running_time := 0\<rparr>"
proof (cases "m_duration_status b = ''''")
  case True
  then show ?thesis by (intro exI [of _ "[]"]) (simp add: durationReset_def)
next
  case False
  let ?b = "b\<lparr>m_duration_reset_pending := False, m_duration_started := False,
     m_duration_start_time := - 1, m_duration_idle_time := 0, m_duration_running_time := 0\<rparr>"
  obtain ms where "postMessage_d (m_duration_status b) (m_duration b) '''' ?b = with_messages ?b ms" using post_d by blast
  with False show ?thesis by (intro exI [of _ ms]) (simp add: durationReset_def Let_def)
qed


lemma durationExceeded_ok:
  assumes "\<not> m_duration_reset_pending b" "m_duration_status b = '''' \<or> m_duration b - elapsed ib b < 2 ^ 31 - 1"
  shows "\<exists>ms s t i. durationExceeded (Some ib) b = Some (limit_reached ib b,
    (with_messages b ms)\<lparr>m_duration_started := s, m_duration_start_time := t, m_duration_idle_time := i\<rparr>)"
proof (cases "m_duration b = - 1")
  case True
  then show ?thesis
    by (intro exI [of _ "[]"] exI [of _ "m_duration_started b"] exI [of _ "m_duration_start_time b"]
        exI [of _ "m_duration_idle_time b"]) (simp add: durationExceeded_def limit_reached_def)
next
  case False
  show ?thesis
  proof (cases "m_duration_started b")
    case True
    then have e: "(if \<not> m_duration_idle_decay b then m_curr_time_utc ib - m_duration_start_time b - m_duration_idle_time b
        else m_curr_time_utc ib - m_duration_start_time b) = elapsed ib b" using assms(1) by (simp add: elapsed_def)
    obtain ms where "post_remaining (m_duration b - elapsed ib b) b = Some (with_messages b ms)"
      using post_remaining_ok [OF assms(2)] by blast
    then have "durationExceeded (Some ib) b = Some (limit_reached ib b, with_messages b ms)"
      using False True by (simp add: durationExceeded_def Let_def e limit_reached_def)
    then show ?thesis
      by (intro exI [of _ ms] exI [of _ "m_duration_started b"] exI [of _ "m_duration_start_time b"]
        exI [of _ "m_duration_idle_time b"]) simp
  next
    case False2: False
    let ?b = "b\<lparr>m_duration_started := True, m_duration_start_time := m_curr_time_utc ib, m_duration_idle_time := 0\<rparr>"
    have e: "elapsed ib b = 0" using False2 by (simp add: elapsed_def)
    obtain ms where "post_remaining (m_duration b) ?b = Some (with_messages ?b ms)"
      using post_remaining_ok [of ?b "m_duration b"] assms(2) e by auto
    then have "durationExceeded (Some ib) b = Some (limit_reached ib b, with_messages ?b ms)"
      using False False2 by (simp add: durationExceeded_def Let_def e limit_reached_def)
    then show ?thesis
      by (intro exI [of _ ms] exI [of _ True] exI [of _ "m_curr_time_utc ib"] exI [of _ 0]) simp
  qed
qed

lemma starving_none: "starving ib (m_starve_vars b) = None \<longleftrightarrow> \<not> is_starving ib b"
  by (auto simp: starving_def is_starving_def find_None_iff Let_def)

lemma checkNoStarve_ok: "\<exists>st. checkNoStarve (Some ib) b = (\<not> is_starving ib b, b\<lparr>m_status_info := st\<rparr>)"
proof (cases "starving ib (m_starve_vars b)")
  case None
  then show ?thesis using starving_none [of ib b] by (intro exI [of _ "m_status_info b"]) (simp add: checkNoStarve_def)
next
  case (Some vt)
  then show ?thesis using starving_none [of ib b] by (cases vt) (auto simp: checkNoStarve_def statusInfoAdd_def Let_def)
qed


text \<open>A behavior whose clock, messages, status and conditions have moved on.\<close>

definition bhv_moved :: "'x ivp_behavior_scheme \<Rightarrow> var_data_pair list \<Rightarrow> string \<Rightarrow> logic_condition list \<Rightarrow> bool \<times> real \<times> real \<times> real \<Rightarrow>
    'x ivp_behavior_scheme" where
  "bhv_moved b ms st cs clock =
     (case clock of (started, start, idle, running) \<Rightarrow>
        b\<lparr>bhv_messages := bhv_messages b @ ms, m_status_info := st, bhv_logic_conditions := cs, m_duration_reset_pending := False,
          m_duration_started := started, m_duration_start_time := start, m_duration_idle_time := idle,
          m_duration_running_time := running\<rparr>)"

lemma bhv_moved_simps [simp]:
  "m_completed (bhv_moved b ms st cs k) = m_completed b" "m_perpetual (bhv_moved b ms st cs k) = m_perpetual b"
  "bhv_domain (bhv_moved b ms st cs k) = bhv_domain b" "m_end_flags (bhv_moved b ms st cs k) = m_end_flags b"
  "m_descriptor (bhv_moved b ms st cs k) = m_descriptor b" "m_duration (bhv_moved b ms st cs k) = m_duration b"
  "m_duration_status (bhv_moved b ms st cs k) = m_duration_status b" "m_bhv_state_ok (bhv_moved b ms st cs k) = m_bhv_state_ok b" "\<not> m_duration_reset_pending (bhv_moved b ms st cs k)"
  "is_starving ib (bhv_moved b ms st cs k) = is_starving ib b" "flag_ok (bhv_moved b ms st cs k) p = flag_ok b p"
  "(bhv_moved b ms st cs k)\<lparr>m_status_info := st'\<rparr> = bhv_moved b ms st' cs k"
  "with_messages (bhv_moved b ms st cs k) ms' = bhv_moved b (ms @ ms') st cs k"
  by (cases k; simp add: bhv_moved_def is_starving_def flag_ok_def expanded_def)+

lemma bhv_moved_status [simp]: "statusInfoAdd p v (bhv_moved b ms st cs k) = bhv_moved b ms (st @ '','' @ p @ ''='' @ v) cs k"
  by (cases k) (simp add: bhv_moved_def statusInfoAdd_def)

lemma bhv_moved_inv: "bhv_inv b \<Longrightarrow> \<forall>c\<in>set cs. logic_ok env c \<Longrightarrow> bhv_inv (bhv_moved b ms st cs k)"
  by (cases k) (auto simp: bhv_moved_def bhv_inv_def)

lemma clock_ready:
  "\<exists>ms k. (if m_duration_reset_pending b then durationReset b else b) = bhv_moved b ms (m_status_info b) (bhv_logic_conditions b) k \<and>
     elapsed ib (bhv_moved b ms (m_status_info b) (bhv_logic_conditions b) k) = elapsed ib b"
proof (cases "m_duration_reset_pending b")
  case True
  obtain ms where "durationReset b = (with_messages b ms)\<lparr>m_duration_reset_pending := False, m_duration_started := False,
     m_duration_start_time := - 1, m_duration_idle_time := 0, m_duration_running_time := 0\<rparr>" using durationReset_ok by blast
  then show ?thesis using True
    by (intro exI [of _ ms] exI [of _ "(False, - 1, 0, 0)"]) (simp add: bhv_moved_def elapsed_def)
next
  case False
  then show ?thesis
    by (intro exI [of _ "[]"] exI [of _ "(m_duration_started b, m_duration_start_time b, m_duration_idle_time b,
        m_duration_running_time b)"]) (simp add: bhv_moved_def elapsed_def)
qed

lemma exceeded_moved:
  assumes "m_duration_status b = '''' \<or> m_duration b - elapsed ib (bhv_moved b ms st cs k) < 2 ^ 31 - 1"
  shows "\<exists>ms' k'. durationExceeded (Some ib) (bhv_moved b ms st cs k) = Some (limit_reached ib (bhv_moved b ms st cs k), bhv_moved b ms' st cs k')"
proof -
  obtain ms1 s t i where "durationExceeded (Some ib) (bhv_moved b ms st cs k) = Some (limit_reached ib (bhv_moved b ms st cs k),
    (with_messages (bhv_moved b ms st cs k) ms1)\<lparr>m_duration_started := s, m_duration_start_time := t, m_duration_idle_time := i\<rparr>)"
    using durationExceeded_ok [of "bhv_moved b ms st cs k" ib] assms by auto
  then show ?thesis
    by (intro exI [of _ "ms @ ms1"] exI [of _ "(s, t, i, snd (snd (snd k)))"]) (cases k, simp add: bhv_moved_def)
qed


lemma isRunnable_ready:
  assumes inv: "bhv_inv b" and nc: "\<not> m_completed b" and ok: "\<forall>c\<in>set cs. logic_ok env c"
    and cond: "bhv_checkConditions (Some ib) b = Some (True, b\<lparr>bhv_logic_conditions := cs, m_status_info := st\<rparr>)"
    and flags: "\<forall>p\<in>set (m_end_flags b). flag_ok b p" and bound: "m_duration_status b = '''' \<or> m_duration b - elapsed ib b < 2 ^ 31 - 1"
  shows "\<exists>b'. isRunnable (Some ib) b = Some (run_state ib True b, b') \<and> bhv_inv b' \<and>
     m_completed b' = (run_state ib True b = ''completed'')"
proof -
  let ?b1 = "b\<lparr>bhv_logic_conditions := cs, m_status_info := st\<rparr>"
  have mv: "bhv_moved ?b1 ms st' cs' k = bhv_moved b ms st' cs' k" for ms st' cs' k by (cases k) (simp add: bhv_moved_def)
  have "elapsed ib ?b1 = elapsed ib b" by (simp add: elapsed_def)
  with clock_ready [of ?b1 ib] mv obtain ms k where
    r: "(if m_duration_reset_pending ?b1 then durationReset ?b1 else ?b1) = bhv_moved b ms st cs k"
    and e: "elapsed ib (bhv_moved b ms st cs k) = elapsed ib b" by auto
  have l: "limit_reached ib (bhv_moved b ms st cs k) = limit_reached ib b" by (simp add: limit_reached_def e)
  obtain ms2 k2 where x: "durationExceeded (Some ib) (bhv_moved b ms st cs k) = Some (limit_reached ib b, bhv_moved b ms2 st cs k2)"
    using exceeded_moved [of b ib ms st cs k] bound unfolding e l by blast
  have start: "isRunnable (Some ib) b =
      (if limit_reached ib b
       then setComplete (statusInfoAdd ''pc'' ''completed-byduration'' (bhv_moved b ms2 st cs k2)) \<bind> (\<lambda>b.
         Some (if m_perpetual b then (False, b\<lparr>m_duration_reset_pending := True\<rparr>) else (True, b)))
       else Some (False, bhv_moved b ms2 st cs k2)) \<bind> (\<lambda>(done, b).
      if done then Some (''completed'', b)
      else if dom_size (bhv_domain b) = 0
        then postEMessage ''Null IvPDomain given to Behavior'' b \<bind> (\<lambda>b. Some (''idle'', statusInfoAdd ''pc'' ''null-domain'' b))
      else let (ok, b) = checkNoStarve (Some ib) b in Some (if \<not> ok then ''idle'' else ''running'', b))"
    unfolding isRunnable_def using nc by (simp add: cond r [simplified] x)
  obtain ms3 where c: "setComplete (statusInfoAdd ''pc'' ''completed-byduration'' (bhv_moved b ms2 st cs k2)) =
      Some (if m_perpetual b then bhv_moved b (ms2 @ ms3) (st @ '',pc=completed-byduration'') cs k2
            else (bhv_moved b (ms2 @ ms3) (st @ '',pc=completed-byduration'') cs k2)\<lparr>m_completed := True\<rparr>)"
    using setComplete_ok [of "bhv_moved b ms2 (st @ '',pc=completed-byduration'') cs k2"] flags
    unfolding bhv_moved_status bhv_moved_simps by auto
  show ?thesis
  proof (cases "limit_reached ib b \<and> \<not> m_perpetual b")
    case True
    have "bhv_inv (bhv_moved b (ms2 @ ms3) (st @ '',pc=completed-byduration'') cs k2)" by (rule bhv_moved_inv [OF inv ok])
    then have "bhv_inv ((bhv_moved b (ms2 @ ms3) (st @ '',pc=completed-byduration'') cs k2)\<lparr>m_completed := True\<rparr>)"
      by (simp add: bhv_inv_def)
    then show ?thesis unfolding start using True nc c by (simp add: run_state_def)
  next
    case False
    obtain b4 where b4: "(if limit_reached ib b
       then setComplete (statusInfoAdd ''pc'' ''completed-byduration'' (bhv_moved b ms2 st cs k2)) \<bind> (\<lambda>b.
         Some (if m_perpetual b then (False, b\<lparr>m_duration_reset_pending := True\<rparr>) else (True, b)))
       else Some (False, bhv_moved b ms2 st cs k2)) = Some (False, b4)"
      and i4: "bhv_inv b4" "m_completed b4 = m_completed b" "bhv_domain b4 = bhv_domain b" "is_starving ib b4 = is_starving ib b"
    proof (cases "limit_reached ib b")
      case True
      have "bhv_inv (bhv_moved b (ms2 @ ms3) (st @ '',pc=completed-byduration'') cs k2)" by (rule bhv_moved_inv [OF inv ok])
      then show ?thesis using True False c
        by (intro that [of "(bhv_moved b (ms2 @ ms3) (st @ '',pc=completed-byduration'') cs k2)\<lparr>m_duration_reset_pending := True\<rparr>"])
          (simp_all add: bhv_inv_def is_starving_def [of ib "_\<lparr>m_duration_reset_pending := True\<rparr>"] is_starving_def [symmetric])
    next
      case F: False
      show ?thesis by (rule that [of "bhv_moved b ms2 st cs k2"]) (simp_all add: F bhv_moved_inv [OF inv ok])
    qed
    obtain ch s where d: "m_descriptor b4 = ch # s" "ch \<noteq> QUOTE" "\<not> front_blank ch" using i4(1) by (auto simp: bhv_inv_def)
    have "\<exists>b5. postEMessage ''Null IvPDomain given to Behavior'' b4 = Some b5 \<and> bhv_inv b5 \<and> m_completed b5 = m_completed b4"
      using post_plain [OF d(2,3), of "''BHV_ERROR''" "s @ '': '' @ ''Null IvPDomain given to Behavior''" "''repeatable''" b4] d(1) i4(1)
      by (auto simp: postEMessage_def bhv_inv_def)
    then obtain b5 where b5: "postEMessage ''Null IvPDomain given to Behavior'' b4 = Some b5" "bhv_inv b5" "m_completed b5 = m_completed b4"
      by blast
    obtain st' where n: "checkNoStarve (Some ib) b4 = (\<not> is_starving ib b, b4\<lparr>m_status_info := st'\<rparr>)"
      using checkNoStarve_ok [of ib b4] i4(4) by auto
    have "bhv_inv (b4\<lparr>m_status_info := st'\<rparr>)" "bhv_inv (statusInfoAdd ''pc'' ''null-domain'' b5)"
      using i4(1) b5(2) by (simp_all add: bhv_inv_def statusInfoAdd_def)
    then show ?thesis unfolding start b4 using False nc i4 b5 n by (auto simp: run_state_def statusInfoAdd_def)
  qed
qed


lemma isRunnable_returns:
  assumes "bhv_inv b" "\<forall>c\<in>set (bhv_logic_conditions b). logic_ok env c"
    "first_fails (map (\<lambda>c. holds (\<lambda>v. learned ib v (env v)) (condition_of c)) (bhv_logic_conditions b)) = Some met"
    "\<forall>p\<in>set (m_end_flags b). flag_ok b p" "m_duration_status b = '''' \<or> m_duration b - elapsed ib b < 2 ^ 31 - 1"
  shows "\<exists>b'. isRunnable (Some ib) b = Some (run_state ib met b, b') \<and> bhv_inv b' \<and>
      m_completed b' = (run_state ib met b = ''completed'')"
proof -
  obtain cs st where cs: "\<forall>c\<in>set cs. logic_ok (\<lambda>v. learned ib v (env v)) c"
    "bhv_checkConditions (Some ib) b = Some (met, b\<lparr>bhv_logic_conditions := cs, m_status_info := st met\<rparr>)"
  proof (rule bhv_checkConditions_ok [OF assms(2), of ib])
    fix cs st
    assume "\<forall>c\<in>set cs. logic_ok (\<lambda>v. learned ib v (env v)) c"
      "bhv_checkConditions (Some ib) b = map_option (\<lambda>r. (r, b\<lparr>bhv_logic_conditions := cs, m_status_info := st r\<rparr>))
       (first_fails (map (\<lambda>c. holds (\<lambda>v. learned ib v (env v)) (condition_of c)) (bhv_logic_conditions b)))"
    then show thesis using that assms(3) by simp
  qed
  show ?thesis
  proof (cases "m_completed b \<or> \<not> met")
    case True
    have "bhv_inv (b\<lparr>bhv_logic_conditions := cs, m_status_info := st met\<rparr>)" using assms(1) cs(1) by (auto simp: bhv_inv_def)
    then show ?thesis using True assms(1) cs(2) by (auto simp: isRunnable_def run_state_def)
  next
    case False
    then show ?thesis using isRunnable_ready [OF assms(1) _ cs(1) _ assms(4,5)] cs(2) by auto
  qed
qed

text \<open>C6: \<open>isRunnable\<close> returns and answers "completed" when the behavior has completed or its duration is
  over (unless it is perpetual), "idle" when a condition fails under what the buffer has, when there is no
  domain or when a variable is missing or too old, and "running" else. It keeps the invariant, and from
  "completed" there is no way back. Without a buffer the answer is "idle".\<close>

theorem isRunnable_state:
  assumes "bhv_inv b" "\<forall>c\<in>set (bhv_logic_conditions b). logic_ok env c"
    "first_fails (map (\<lambda>c. holds (\<lambda>v. learned ib v (env v)) (condition_of c)) (bhv_logic_conditions b)) = Some met"
    "\<forall>p\<in>set (m_end_flags b). flag_ok b p" "m_duration_status b = '''' \<or> m_duration b - elapsed ib b < 2 ^ 31 - 1"
  shows "\<exists>b'. isRunnable (Some ib) b = Some (run_state ib met b, b') \<and> bhv_inv b' \<and>
      m_completed b' = (run_state ib met b = ''completed'') \<and>
    isRunnable None b = Some (if m_completed b then ''completed'' else ''idle'', b)"
proof -
  have none: "isRunnable None b = Some (if m_completed b then ''completed'' else ''idle'', b)"
    by (simp add: isRunnable_def bhv_checkConditions_def)
  from isRunnable_returns [OF assms] none show ?thesis by blast
qed

definition ex_bhv :: ivp_behavior where
  "ex_bhv = (IvPBehavior_new \<lparr>m_dname = [''x''], m_dlow = [0], m_dhigh = [9], m_ddelta = [1], m_dpoints = [10]\<rparr>)
     \<lparr>m_duration := 10, m_duration_started := True, m_duration_start_time := 5, m_starve_vars := [(''NAV'', 3)]\<rparr>"

definition ex_clock :: "real \<Rightarrow> infobuffer" where
  "ex_clock t = setCurrTime (setValue_d (setCurrTime InfoBuffer_new 11) ''NAV'' 7 0) t"

theorem isRunnable_state_witness:
  "(\<exists>b'. isRunnable (Some (ex_clock 12)) ex_bhv = Some (''running'', b') \<and> bhv_inv b') \<and>
   (\<exists>b'. isRunnable (Some (ex_clock 14.5)) ex_bhv = Some (''idle'', b')) \<and>
   (\<exists>b'. isRunnable (Some (ex_clock 15)) ex_bhv = Some (''completed'', b') \<and> m_completed b')"
proof -
  have b: "bhv_inv ex_bhv" "m_end_flags ex_bhv = []" "bhv_logic_conditions ex_bhv = []" "m_duration ex_bhv = 10"
    "\<not> m_completed ex_bhv" "\<not> m_perpetual ex_bhv" "dom_size (bhv_domain ex_bhv) = 1"
    by (simp_all add: ex_bhv_def bhv_inv_def IvPBehavior_new_def front_blank_def dom_size_def)
  have e: "elapsed (ex_clock t) ex_bhv = t - 5" for t
    by (simp add: elapsed_def ex_bhv_def IvPBehavior_new_def ex_clock_def setCurrTime_def)
  have s: "is_starving (ex_clock t) ex_bhv = (t - 11 = - 1 \<or> t - 11 > 3)" for t
    by (simp add: is_starving_def ex_bhv_def IvPBehavior_new_def ex_clock_def tQuery_def setCurrTime_def setValue_d_def
        InfoBuffer_new_def Let_def)
  have r: "\<exists>b'. isRunnable (Some (ex_clock t)) ex_bhv = Some (run_state (ex_clock t) True ex_bhv, b') \<and> bhv_inv b' \<and>
      m_completed b' = (run_state (ex_clock t) True ex_bhv = ''completed'')" if "0 \<le> t" for t
    using isRunnable_state [OF b(1), of "\<lambda>_. Unset" "ex_clock t" True] b that by (auto simp: e)
  have "run_state (ex_clock 12) True ex_bhv = ''running''" "run_state (ex_clock 14.5) True ex_bhv = ''idle''"
    "run_state (ex_clock 15) True ex_bhv = ''completed''"
    using b by (simp_all add: run_state_def limit_reached_def e s)
  then show ?thesis using r [of 12] r [of "14.5"] r [of 15] by auto
qed

section \<open>The clocks\<close>

text \<open>The calls of \<open>updateStateDurations\<close> in rounds at given times.\<close>

fun clock_rounds :: "infobuffer \<Rightarrow> (real \<times> string) list \<Rightarrow> 'x ivp_behavior_scheme \<Rightarrow> 'x ivp_behavior_scheme option" where
  "clock_rounds ib [] b = Some b"
| "clock_rounds ib ((t, state) # rounds) b =
     updateStateDurations (Some (setCurrTime ib t)) state b \<bind> clock_rounds ib rounds"

text \<open>The time spent in a state: from the round before to each round that finds the behavior in it.\<close>

fun spent :: "string \<Rightarrow> real \<Rightarrow> (real \<times> string) list \<Rightarrow> real" where
  "spent s t0 [] = 0"
| "spent s t0 ((t, state) # rounds) = (if state = s then t - t0 else 0) + spent s t rounds"

text \<open>C15: Over rounds of the helm the idle and the running time of a behavior are the sums of the steps that end in
  that state; when it is always found in one of the two, they add up to the time since the first round.\<close>

theorem state_durations:
  assumes "m_duration_prev_state b = ''''" "s0 \<noteq> ''''" "\<forall>(t, s)\<in>set rounds. s \<noteq> ''''"
  shows "\<exists>b'. clock_rounds ib ((t0, s0) # rounds) b = Some b' \<and>
     m_duration_idle_time b' = m_duration_idle_time b + spent ''idle'' t0 rounds \<and>
     m_duration_running_time b' = m_duration_running_time b + spent ''running'' t0 rounds \<and>
     ((\<forall>(t, s)\<in>set rounds. s = ''idle'' \<or> s = ''running'') \<longrightarrow>
        m_duration_idle_time b' + m_duration_running_time b' - (m_duration_idle_time b + m_duration_running_time b) =
        fst (last ((t0, s0) # rounds)) - t0)"
proof -
  have run: "\<exists>b'. clock_rounds ib rounds b = Some b' \<and>
     m_duration_idle_time b' = m_duration_idle_time b + spent ''idle'' (m_duration_prev_timestamp b) rounds \<and>
     m_duration_running_time b' = m_duration_running_time b + spent ''running'' (m_duration_prev_timestamp b) rounds"
    if "m_duration_prev_state b \<noteq> ''''" "\<forall>(t, s)\<in>set rounds. s \<noteq> ''''" for b :: "'a ivp_behavior_scheme" and rounds
    using that
  proof (induction rounds arbitrary: b)
    case (Cons r rounds)
    obtain t s where r: "r = (t, s)" by (cases r)
    obtain b1 where b1: "updateStateDurations (Some (setCurrTime ib t)) s b = Some b1" "m_duration_prev_state b1 = s"
      "m_duration_prev_timestamp b1 = t"
      "m_duration_idle_time b1 = m_duration_idle_time b + (if s = ''idle'' then t - m_duration_prev_timestamp b else 0)"
      "m_duration_running_time b1 = m_duration_running_time b + (if s = ''running'' then t - m_duration_prev_timestamp b else 0)"
      using Cons.prems(1) by (auto simp: updateStateDurations_def setCurrTime_def Let_def)
    obtain b2 where "clock_rounds ib rounds b1 = Some b2"
      "m_duration_idle_time b2 = m_duration_idle_time b1 + spent ''idle'' t rounds"
      "m_duration_running_time b2 = m_duration_running_time b1 + spent ''running'' t rounds"
      using Cons.IH [of b1] Cons.prems(2) b1(2,3) by (auto simp: r)
    with b1 show ?case by (intro exI [of _ b2]) (simp add: r)
  qed simp
  let ?b = "b\<lparr>m_duration_prev_state := s0, m_duration_prev_timestamp := t0\<rparr>"
  have start: "clock_rounds ib ((t0, s0) # rounds) b = clock_rounds ib rounds ?b"
    using assms(1) by (simp add: updateStateDurations_def setCurrTime_def)
  have sum: "(\<forall>(t, s)\<in>set rounds. s = ''idle'' \<or> s = ''running'') \<Longrightarrow>
      spent ''idle'' t0 rounds + spent ''running'' t0 rounds = fst (last ((t0, s0) # rounds)) - t0" for t0 s0
  proof (induction rounds arbitrary: t0 s0)
    case (Cons r rounds)
    obtain t s where r: "r = (t, s)" by (cases r)
    have "spent ''idle'' t rounds + spent ''running'' t rounds = fst (last (r # rounds)) - t"
      unfolding r by (rule Cons.IH) (use Cons.prems in simp)
    moreover have "s = ''idle'' \<or> s = ''running''" using Cons.prems by (simp add: r)
    ultimately show ?case by (auto simp: r)
  qed simp
  have "\<exists>b'. clock_rounds ib rounds ?b = Some b' \<and>
     m_duration_idle_time b' = m_duration_idle_time ?b + spent ''idle'' (m_duration_prev_timestamp ?b) rounds \<and>
     m_duration_running_time b' = m_duration_running_time ?b + spent ''running'' (m_duration_prev_timestamp ?b) rounds"
    by (rule run) (use assms(2,3) in simp_all)
  then obtain b' where b': "clock_rounds ib rounds ?b = Some b'"
     "m_duration_idle_time b' = m_duration_idle_time b + spent ''idle'' t0 rounds"
     "m_duration_running_time b' = m_duration_running_time b + spent ''running'' t0 rounds" by auto
  show ?thesis unfolding start by (intro exI [of _ b']) (use b' sum [of t0 s0] in simp)
qed


theorem state_durations_witness:
  "\<exists>b'. clock_rounds InfoBuffer_new [(10, ''idle''), (12, ''idle''), (15, ''running''), (19, ''running'')] (IvPBehavior_new empty_domain) = Some b' \<and>
     m_duration_idle_time b' = 2 \<and> m_duration_running_time b' = 7"
proof -
  have i: "m_duration_prev_state (IvPBehavior_new empty_domain) = ''''" "m_duration_idle_time (IvPBehavior_new empty_domain) = 0"
    "m_duration_running_time (IvPBehavior_new empty_domain) = 0" by (simp_all add: IvPBehavior_new_def)
  show ?thesis
    using state_durations [of "IvPBehavior_new empty_domain" "''idle''" "[(12, ''idle''), (15, ''running''), (19, ''running'')]" InfoBuffer_new 10]
    by (auto simp: i simp del: clock_rounds.simps)
qed






section \<open>What running leaves alone\<close>

text \<open>The fields that set up a behavior: a step of the helm changes none of them, and the status text only grows
  until it is posted.\<close>

definition same_setup :: "'x ivp_behavior_scheme \<Rightarrow> 'x ivp_behavior_scheme \<Rightarrow> bool" where
  "same_setup b b' \<longleftrightarrow> m_descriptor b' = m_descriptor b \<and> m_us_name b' = m_us_name b \<and> m_contact b' = m_contact b \<and>
     m_behavior_type b' = m_behavior_type b \<and> m_duration_status b' = m_duration_status b \<and> m_update_var b' = m_update_var b \<and>
     m_run_flags b' = m_run_flags b \<and> m_active_flags b' = m_active_flags b \<and> m_inactive_flags b' = m_inactive_flags b \<and>
     m_end_flags b' = m_end_flags b \<and> m_idle_flags b' = m_idle_flags b \<and> m_remap_vars b' = m_remap_vars b \<and>
     m_starve_vars b' = m_starve_vars b \<and> bhv_domain b' = bhv_domain b \<and> m_priority_wt b' = m_priority_wt b \<and>
     m_duration b' = m_duration b \<and> m_perpetual b' = m_perpetual b \<and> m_filter_level b' = m_filter_level b \<and>
     (\<exists>x. m_status_info b' = m_status_info b @ x)"

lemma same_setup_refl [simp]: "same_setup b b"
  by (simp add: same_setup_def)

lemma same_setup_trans [trans]: "same_setup a b \<Longrightarrow> same_setup b c \<Longrightarrow> same_setup a c"
  by (auto simp: same_setup_def)

lemma same_setup_update [simp]:
  "same_setup b (b'\<lparr>bhv_messages := x\<rparr>) = same_setup b b'" "same_setup b (b'\<lparr>m_duration_prev_state := st\<rparr>) = same_setup b b'"
  "same_setup b (b'\<lparr>bhv_logic_conditions := cs\<rparr>) = same_setup b b'" "same_setup b (b'\<lparr>m_completed := c\<rparr>) = same_setup b b'"
  "same_setup b (b'\<lparr>m_duration_reset_pending := c\<rparr>) = same_setup b b'" "same_setup b (b'\<lparr>m_bhv_state_ok := c\<rparr>) = same_setup b b'"
  "same_setup b (b'\<lparr>m_duration_started := c\<rparr>) = same_setup b b'" "same_setup b (b'\<lparr>m_duration_start_time := t\<rparr>) = same_setup b b'"
  "same_setup b (b'\<lparr>m_duration_idle_time := t\<rparr>) = same_setup b b'" "same_setup b (b'\<lparr>m_duration_running_time := t\<rparr>) = same_setup b b'"
  "same_setup b (b'\<lparr>m_duration_prev_timestamp := t\<rparr>) = same_setup b b'"
  "same_setup b (b'\<lparr>m_duration_reset_timestamp := t\<rparr>) = same_setup b b'" "same_setup b (b'\<lparr>m_update_summary := st\<rparr>) = same_setup b b'"
  by (simp_all add: same_setup_def)

lemma post_frame: "postMessage_s var s key b = Some b' \<Longrightarrow> same_setup b b'" "same_setup b (postMessage_d var d key b)"
  by (auto simp: postMessage_s_def postMessage_d_def split: option.splits Option.bind_splits)

lemma postFlag_frame: "postFlag again p b = Some b' \<Longrightarrow> same_setup b b'"
  using post_frame by (auto simp: postFlag_def postRepeatableMessage_s_def postRepeatableMessage_d_def
      split: if_splits Option.bind_splits)

lemma postFlags_frame: "postFlags str again b = Some b' \<Longrightarrow> same_setup b b'"
proof -
  have "postFlag_loop again ps b = Some b' \<Longrightarrow> same_setup b b'" for again ps
  proof (induction ps arbitrary: b)
    case (Cons p ps)
    then obtain b1 where "postFlag again p b = Some b1" "postFlag_loop again ps b1 = Some b'" by (auto split: Option.bind_splits)
    with Cons.IH postFlag_frame same_setup_trans show ?case by blast
  qed simp
  then show "postFlags str again b = Some b' \<Longrightarrow> same_setup b b'" by (auto simp: postFlags_def)
qed

lemma setComplete_frame: "setComplete b = Some b' \<Longrightarrow> same_setup b b'"
  using postFlags_frame by (auto simp: setComplete_def split: Option.bind_splits if_splits)

lemma durationReset_frame [simp]: "same_setup b (durationReset b)"
proof -
  obtain ms where "durationReset b = (with_messages b ms)\<lparr>m_duration_reset_pending := False, m_duration_started := False,
     m_duration_start_time := - 1, m_duration_idle_time := 0, m_duration_running_time := 0\<rparr>" using durationReset_ok by blast
  then show ?thesis by simp
qed

lemma post_remaining_frame: "post_remaining r b = Some b' \<Longrightarrow> same_setup b b'"
  using post_frame by (auto simp: post_remaining_def postIntMessage_def Let_def split: if_splits)

lemma durationExceeded_frame: "durationExceeded ib b = Some (e, b') \<Longrightarrow> same_setup b b'"
  by (auto simp: durationExceeded_def Let_def split: if_splits Option.bind_splits dest!: post_remaining_frame)
    (auto simp: same_setup_def)

lemma postEMessage_frame: "postEMessage msg b = Some b' \<Longrightarrow> same_setup b b'"
  using post_frame by (auto simp: postEMessage_def Let_def split: Option.bind_splits)

lemma statusInfoAdd_frame [simp, intro]: "same_setup a b \<Longrightarrow> same_setup a (statusInfoAdd p v b)"
  by (auto simp: statusInfoAdd_def same_setup_def)

lemma checkConditions_frame: "bhv_checkConditions ib b = Some (ok, b') \<Longrightarrow> same_setup b b'"
  by (auto simp: bhv_checkConditions_def Let_def split: option.splits Option.bind_splits intro!: statusInfoAdd_frame)

lemma checkNoStarve_frame: "checkNoStarve ib b = (ok, b') \<Longrightarrow> same_setup b b'"
  by (auto simp: checkNoStarve_def Let_def split: option.splits)

lemma checkForDurationReset_cases:
  "checkForDurationReset ib b = (r, b') \<Longrightarrow> b' = b \<or> (\<exists>t. b' = durationReset (b\<lparr>m_duration_reset_timestamp := t\<rparr>))"
  unfolding checkForDurationReset_def Let_def by (auto simp only: prod.case prod.inject split: option.splits if_splits prod.splits)

lemma checkForDurationReset_frame: "checkForDurationReset ib b = (r, b') \<Longrightarrow> same_setup b b'"
proof -
  have "same_setup b (durationReset (b\<lparr>m_duration_reset_timestamp := t\<rparr>))" for t
    by (rule same_setup_trans [of b "b\<lparr>m_duration_reset_timestamp := t\<rparr>"]) simp_all
  then show "checkForDurationReset ib b = (r, b') \<Longrightarrow> same_setup b b'" using checkForDurationReset_cases by fastforce
qed

lemma isRunnable_frame: "isRunnable ib b = Some (s, b') \<Longrightarrow> same_setup b b'"
proof -
  assume r: "isRunnable ib b = Some (s, b')"
  show ?thesis
  proof (cases "m_completed b")
    case True
    then show ?thesis using r by (simp add: isRunnable_def)
  next
    case False
    obtain ok b1 where b1: "bhv_checkConditions ib b = Some (ok, b1)" "same_setup b b1"
      using r False checkConditions_frame by (fastforce simp: isRunnable_def split: Option.bind_splits)
    show ?thesis
    proof (cases ok)
      case True
      define b2 where "b2 = (if m_duration_reset_pending b1 then durationReset b1 else b1)"
      have s2: "same_setup b b2" using same_setup_trans [OF b1(2)] durationReset_frame by (auto simp: b2_def b1(2))
      obtain x b3 where b3: "durationExceeded ib b2 = Some (x, b3)" "same_setup b b3"
      proof (cases "durationExceeded ib b2")
        case None
        then show ?thesis using r False b1(1) True by (simp add: isRunnable_def b2_def [symmetric])
      next
        case (Some xb)
        then show ?thesis using durationExceeded_frame same_setup_trans [OF s2] that by (cases xb) blast
      qed
      define part where "part = (if x
              then setComplete (statusInfoAdd ''pc'' ''completed-byduration'' b3) \<bind> (\<lambda>b.
                Some (if m_perpetual b then (False, b\<lparr>m_duration_reset_pending := True\<rparr>) else (True, b)))
              else Some (False, b3))"
      have start: "isRunnable ib b = part \<bind> (\<lambda>(done, b).
             if done then Some (''completed'', b)
             else if dom_size (bhv_domain b) = 0
               then postEMessage ''Null IvPDomain given to Behavior'' b \<bind> (\<lambda>b.
                 Some (''idle'', statusInfoAdd ''pc'' ''null-domain'' b))
             else let (ok, b) = checkNoStarve ib b
               in Some (if \<not> ok then ''idle'' else ''running'', b))"
        using False b1(1) True b3(1) by (simp add: isRunnable_def b2_def [symmetric] part_def)
      obtain d b4 where b4: "part = Some (d, b4)" using r start by (cases part) auto
      have s4: "same_setup b b4"
      proof (cases x)
        case True
        then obtain b5 where b5: "setComplete (statusInfoAdd ''pc'' ''completed-byduration'' b3) = Some b5"
          "b4 = b5 \<or> b4 = b5\<lparr>m_duration_reset_pending := True\<rparr>"
          using b4 by (cases "setComplete (statusInfoAdd ''pc'' ''completed-byduration'' b3)") (auto simp: part_def split: if_splits)
        have "same_setup b (statusInfoAdd ''pc'' ''completed-byduration'' b3)" using b3(2) by simp
        from same_setup_trans [OF this setComplete_frame [OF b5(1)]] show ?thesis using b5(2) by auto
      qed (use b4 b3(2) in \<open>simp add: part_def\<close>)
      have e: "(if d then Some (''completed'', b4)
             else if dom_size (bhv_domain b4) = 0
               then postEMessage ''Null IvPDomain given to Behavior'' b4 \<bind> (\<lambda>b.
                 Some (''idle'', statusInfoAdd ''pc'' ''null-domain'' b))
             else let (ok, b) = checkNoStarve ib b4
               in Some (if \<not> ok then ''idle'' else ''running'', b)) = Some (s, b')"
        using r start b4 by simp
      have "same_setup b4 b'"
      proof (cases d)
        case nd: False
        show ?thesis
        proof (cases "dom_size (bhv_domain b4) = 0")
          case True
          then obtain b5 where "postEMessage ''Null IvPDomain given to Behavior'' b4 = Some b5" "b' = statusInfoAdd ''pc'' ''null-domain'' b5"
            using e nd by (cases "postEMessage ''Null IvPDomain given to Behavior'' b4") simp_all
          then show ?thesis using postEMessage_frame statusInfoAdd_frame by blast
        next
          case False
          obtain ok2 b5 where n: "checkNoStarve ib b4 = (ok2, b5)" by (cases "checkNoStarve ib b4")
          then have "b' = b5" using e nd False by simp
          then show ?thesis using checkNoStarve_frame [OF n] by simp
        qed
      qed (use e in simp)
      with s4 same_setup_trans show ?thesis by blast
    qed (use r False b1 in \<open>simp add: isRunnable_def\<close>)
  qed
qed

end
