(* ===== verification/Behavior_Spec.thy ===== *)
theory Behavior_Spec
  imports IvP_Behavior
begin

text \<open>
  A behavior as it is described in a file: \<open>BehaviorSpec.h\<close> and \<open>BehaviorSpec.cpp\<close> of
  \<open>src/ivp/src/lib_helmivp\<close>. The buffer the specification is connected to is an argument. \<open>print\<close> is not modelled.
\<close>

record behavior_spec =
  m_templating :: string
  m_updates_var :: string
  m_name_prefix :: string
  m_filename :: string
  m_behavior_kind :: string
  m_kind_line_num :: nat
  m_config_lines :: "string list"
  m_config_line_num :: "nat list"
  m_templating_enabled :: bool

text \<open>The constructor leaves the line of the kind unwritten; a populator sets it.\<close>

definition BehaviorSpec_new :: behavior_spec where
  "BehaviorSpec_new = \<lparr>m_templating = ''disallowed'', m_updates_var = '''', m_name_prefix = '''', m_filename = '''',
     m_behavior_kind = '''', m_kind_line_num = 0, m_config_lines = [], m_config_line_num = [], m_templating_enabled = False\<rparr>"

definition setBehaviorKind :: "string \<Rightarrow> nat \<Rightarrow> behavior_spec \<Rightarrow> behavior_spec" where
  "setBehaviorKind kind line_num spec = spec\<lparr>m_behavior_kind := kind, m_kind_line_num := line_num\<rparr>"

definition setTemplatingType :: "string \<Rightarrow> behavior_spec \<Rightarrow> bool \<times> behavior_spec" where
  "setTemplatingType str spec =
     (if str = ''clone'' \<or> str = ''spawn'' then (True, spec\<lparr>m_templating := str, m_templating_enabled := True\<rparr>)
      else if str = ''disallow'' then (True, spec\<lparr>m_templating := str, m_templating_enabled := False\<rparr>)
      else (False, spec))"

definition addBehaviorConfig :: "string \<Rightarrow> nat \<Rightarrow> behavior_spec \<Rightarrow> behavior_spec" where
  "addBehaviorConfig config_line line_num spec =
     (let (left, right) = biteStringX config_line (CHR ''=''); left = tolower left;
          spec = (if left = ''updates'' \<and> \<not> strContainsWhite right then spec\<lparr>m_updates_var := right\<rparr> else spec);
          spec = (if left = ''templating'' then snd (setTemplatingType right spec) else spec);
          spec = (if left = ''name'' then spec\<lparr>m_name_prefix := right\<rparr> else spec)
      in if left \<noteq> ''templating''
         then spec\<lparr>m_config_lines := m_config_lines spec @ [config_line], m_config_line_num := m_config_line_num spec @ [line_num]\<rparr>
         else spec)"

text \<open>The postings to the updates variable that hold the letters of "name".\<close>

definition checkForSpawningStrings :: "infobuffer option \<Rightarrow> behavior_spec \<Rightarrow> string list option" where
  "checkForSpawningStrings info spec =
     (if \<not> m_templating_enabled spec \<or> m_updates_var spec = '''' then Some []
      else info \<bind> (\<lambda>ib. Some (filter (\<lambda>s. strContains s ''name'') (fst (sQueryDeltas ib (m_updates_var spec))))))"

definition spec_clear :: "behavior_spec \<Rightarrow> behavior_spec" where
  "spec_clear spec = spec\<lparr>m_behavior_kind := '''', m_templating := ''disallowed'', m_templating_enabled := False,
     m_updates_var := '''', m_kind_line_num := 0, m_config_line_num := [], m_config_lines := []\<rparr>"

definition getConfigLine :: "nat \<Rightarrow> behavior_spec \<Rightarrow> string" where
  "getConfigLine ix spec = (if ix < length (m_config_lines spec) then m_config_lines spec ! ix else '''')"

definition getConfigLineNum :: "nat \<Rightarrow> behavior_spec \<Rightarrow> nat" where
  "getConfigLineNum ix spec = (if ix < length (m_config_line_num spec) then m_config_line_num spec ! ix else 0)"

section \<open>The lines and their numbers\<close>

text \<open>
  What every operation keeps: a number for every line, templating is on exactly for a clone or a spawn, and no
  line about templating is among the lines for the behavior.
\<close>

definition spec_ok :: "behavior_spec \<Rightarrow> bool" where
  "spec_ok spec \<longleftrightarrow> length (m_config_lines spec) = length (m_config_line_num spec) \<and>
     (m_templating_enabled spec \<longleftrightarrow> m_templating spec = ''clone'' \<or> m_templating spec = ''spawn'') \<and>
     (\<forall>l\<in>set (m_config_lines spec). tolower (fst (biteStringX l (CHR ''=''))) \<noteq> ''templating'')"

lemma spec_ok_new: "spec_ok BehaviorSpec_new" "spec_ok (spec_clear spec)"
  by (simp_all add: spec_ok_def BehaviorSpec_new_def spec_clear_def)

lemma spec_ok_config: "spec_ok spec \<Longrightarrow> spec_ok (addBehaviorConfig line n spec)"
  by (auto simp: spec_ok_def addBehaviorConfig_def setTemplatingType_def Let_def split: prod.split)

lemma spec_config_lines:
  "m_config_lines (foldl (\<lambda>spec (l, n). addBehaviorConfig l n spec) spec ls) =
     m_config_lines spec @ [l \<leftarrow> map fst ls. tolower (fst (biteStringX l (CHR ''=''))) \<noteq> ''templating'']"
proof (induction ls arbitrary: spec)
  case (Cons ln ls)
  obtain l n where [simp]: "ln = (l, n)" by (cases ln)
  obtain x y where "biteStringX l (CHR ''='') = (x, y)" by (cases "biteStringX l (CHR ''='')")
  with Cons show ?case by (simp add: addBehaviorConfig_def setTemplatingType_def Let_def)
qed simp

end
