(* ===== verification/Build_Utils.thy ===== *)
theory Build_Utils
  imports IvP_Domain IvP_Box
begin

text \<open>
  \<open>src/ivp/src/lib_ivpbuild/BuildUtils.cpp\<close>, the part on boxes and domains: cutting boxes, taking
  one box out of another, covering a box with uniform pieces, and choosing the size of the pieces.
  A \<open>BoxSet\<close> is the sequence it represents (theory \<open>Box_Set\<close>): \<open>addBox\<close> puts a box at the front. A
  failed assertion, a division by zero and a loop that does not end are \<open>None\<close>.
\<close>

section \<open>Boxes inside boxes\<close>

definition containedWithinBox :: "ivpbox \<Rightarrow> ivpbox \<Rightarrow> bool option" where
  "containedWithinBox tbox gbox =
     (if m_dim tbox \<noteq> m_dim gbox then None
      else Some (list_all (\<lambda>d.
             if pt tbox d 0 < pt gbox d 0 then False
             else if pt tbox d 1 > pt gbox d 1 then False
             else if pt tbox d 0 = pt gbox d 0 \<and> \<not> bd gbox d 0 \<and> bd tbox d 0 then False
             else if pt tbox d 1 = pt gbox d 1 \<and> \<not> bd gbox d 1 \<and> bd tbox d 1 then False
             else True) [0..<m_dim tbox]))"

text \<open>Both cuts change the old box and return the new one, or a null pointer.\<close>

definition cutBox :: "ivpbox \<Rightarrow> nat \<Rightarrow> (ivpbox \<times> ivpbox option) option" where
  "cutBox oldbox dm =
     (let split_length = pt oldbox dm 1 - pt oldbox dm 0 + 1 in
      if split_length \<le> 1 then Some (oldbox, None)
      else box_copy oldbox \<bind> (\<lambda>newbox.
        let newHigh = pt oldbox dm 0 + (split_length + 1) sdiv 2;
            oldbox = set_pt dm 1 (newHigh - 1) oldbox;
            newbox = set_pt dm 0 newHigh newbox
        in Some (set_bd dm 1 True oldbox, Some (set_bd dm 0 True newbox))))"

definition quarterBox :: "ivpbox \<Rightarrow> nat \<Rightarrow> bool \<Rightarrow> (ivpbox \<times> ivpbox option) option" where
  "quarterBox oldbox dm split_high =
     (let split_length = pt oldbox dm 1 - pt oldbox dm 0 + 1 in
      if split_length \<le> 1 then Some (oldbox, None)
      else box_copy oldbox \<bind> (\<lambda>newbox.
        let (oldbox, newbox) =
              (if split_length = 2
               then (set_pt dm 1 (pt oldbox dm 0) oldbox, set_pt dm 0 (pt newbox dm 1) newbox)
               else let delta = c_trunc (if split_high then of_int split_length * 0.75
                                         else of_int split_length * 0.25);
                        delta = (if delta = 0 then 1 else delta);
                        oldbox = set_pt dm 1 (pt oldbox dm 0 + delta) oldbox
                    in (oldbox, set_pt dm 0 (pt oldbox dm 1 + 1) newbox))
        in Some (set_bd dm 1 True oldbox, Some (set_bd dm 0 True newbox))))"

text \<open>One dimension: what is above the subtracted box, then what is below it.\<close>

definition subtract_step :: "ivpbox \<Rightarrow> ivpbox \<times> ivpbox list \<Rightarrow> nat \<Rightarrow> (ivpbox \<times> ivpbox list) option" where
  "subtract_step sub_box st d =
     (case st of (source_box, boxset) \<Rightarrow>
        (if pt sub_box d 1 < pt source_box d 1
         then box_copy source_box \<bind> (\<lambda>newbox.
                Some (set_pt d 1 (pt sub_box d 1) source_box, set_pt d 0 (pt sub_box d 1 + 1) newbox # boxset))
         else Some (source_box, boxset)) \<bind>
        (\<lambda>(source_box, boxset).
           if pt sub_box d 0 > pt source_box d 0
           then box_copy source_box \<bind> (\<lambda>newbox.
                  Some (set_pt d 0 (pt sub_box d 0) source_box, set_pt d 1 (pt sub_box d 0 - 1) newbox # boxset))
           else Some (source_box, boxset)))"

definition subtractBox :: "ivpbox \<Rightarrow> ivpbox \<Rightarrow> ivpbox list option" where
  "subtractBox orig_box sub_box =
     (if m_dim orig_box \<noteq> m_dim sub_box then Some []
      else containedWithinBox orig_box sub_box \<bind> (\<lambda>inside.
        if inside then Some []
        else if \<not> box_intersect orig_box sub_box then box_copy orig_box \<bind> (\<lambda>b. Some [b])
        else foldM (subtract_step sub_box) (IvPBox_copy_new orig_box, []) [0..<m_dim orig_box] \<bind>
               (\<lambda>(source_box, boxset). Some boxset)))"

text \<open>The calls of \<open>rand()\<close> in the order of the loop.\<close>

definition makeRand :: "(nat \<Rightarrow> nat) \<Rightarrow> ivpbox \<Rightarrow> ivpbox option" where
  "makeRand rand container_box =
     foldM (\<lambda>b d. let low_edge = pt container_box d 0; high_edge = pt container_box d 1;
                      max_size = high_edge - low_edge + 1
                  in if max_size = 0 then None
                     else let b = set_pt d 0 (int (rand d) smod max_size + low_edge) b
                          in Some (set_pt d 1 (pt b d 0) b))
       (IvPBox_copy_new container_box) [0..<m_dim container_box] \<bind>
     (\<lambda>return_box. containedWithinBox return_box container_box \<bind>
        (\<lambda>ok. if ok then Some return_box else None))"

definition makeRand_domain :: "(nat \<Rightarrow> nat) \<Rightarrow> ivpdomain \<Rightarrow> ivpbox option" where
  "makeRand_domain rand domain =
     foldM (\<lambda>b d. if getVarPoints_i domain d = 0 then None
                  else let b = set_pt d 0 (int (rand d mod getVarPoints_i domain d)) b
                       in Some (set_pt d 1 (pt b d 0) b))
       (IvPBox_new (int (dom_size domain)) 0) [0..<dom_size domain]"

section \<open>Domains\<close>

definition intersectDomain :: "ivpdomain \<Rightarrow> ivpdomain \<Rightarrow> bool" where
  "intersectDomain dom1 dom2 = list_ex (\<lambda>i. hasDomain dom1 (getVarName dom2 i)) [0..<dom_size dom1]"

definition unionDomain :: "ivpdomain \<Rightarrow> ivpdomain \<Rightarrow> ivpdomain" where
  "unionDomain dom1 dom2 =
     foldl (\<lambda>D i. snd (addDomain (getVarName dom2 i) (getVarLow_i dom2 i) (getVarHigh_i dom2 i)
                         (getVarPoints_i dom2 i) D))
       dom1 [0..<dom_size dom2]"

definition domainToBox :: "ivpdomain \<Rightarrow> ivpbox" where
  "domainToBox domain =
     foldl (\<lambda>b i. setPTS i 0 (int (getVarPoints_i domain i) - 1) b)
       (IvPBox_new (int (dom_size domain)) 0) [0..<dom_size domain]"

section \<open>Uniform pieces\<close>

text \<open>The lower corner of the next piece: the first dimension that has room moves on, the ones before
  it start again.\<close>

fun distro_next :: "int list \<Rightarrow> int list \<Rightarrow> int list \<Rightarrow> int list \<Rightarrow> int list" where
  "distro_next (u # ulow) (l # low) (h # uhgh) (v # uval) =
     (if u + v \<le> h then (u + v) # ulow else l # distro_next ulow low uhgh uval)"
| "distro_next ulow low uhgh uval = ulow"

definition distro_done :: "int list \<Rightarrow> int list \<Rightarrow> int list \<Rightarrow> bool" where
  "distro_done ulow uhgh uval = list_all (\<lambda>d. ulow ! d + uval ! d > uhgh ! d) [0..<length ulow]"

definition distro_box :: "nat \<Rightarrow> int \<Rightarrow> int list \<Rightarrow> int list \<Rightarrow> int list \<Rightarrow> ivpbox" where
  "distro_box dm degree uhgh uval ulow =
     foldl (\<lambda>b d. setPTS d (ulow ! d) (min (ulow ! d + uval ! d - 1) (uhgh ! d)) b)
       (IvPBox_new (int dm) degree) [0..<dm]"

partial_function (option) distro_loop ::
  "nat \<Rightarrow> int \<Rightarrow> int list \<Rightarrow> int list \<Rightarrow> int list \<Rightarrow> int list \<Rightarrow> ivpbox list \<Rightarrow> ivpbox list option" where
  "distro_loop dm degree low uhgh uval ulow boxset =
     (let boxset = distro_box dm degree uhgh uval ulow # boxset in
      if distro_done ulow uhgh uval then Some boxset
      else distro_loop dm degree low uhgh uval (distro_next ulow low uhgh uval) boxset)"

text \<open>The number of pieces the code computes first and does not use; it divides by every edge.\<close>

definition unifPieces :: "int list \<Rightarrow> int list \<Rightarrow> int list \<Rightarrow> int option" where
  "unifPieces low uhgh uval =
     foldM (\<lambda>n d. if uval ! d = 0 then None
                  else let size = uhgh ! d - low ! d + 1; dimVal = size sdiv (uval ! d);
                           remVal = size smod (uval ! d);
                           dimVal = (if remVal > 0 then dimVal + 1 else dimVal)
                       in Some (n * dimVal)) 1 [0..<length low]"

definition makeUniformDistro :: "ivpbox \<Rightarrow> ivpbox \<Rightarrow> int \<Rightarrow> ivpbox list option" where
  "makeUniformDistro outer_box unif_box degree =
     (let dm = m_dim outer_box in
      if dm \<noteq> m_dim unif_box then Some []
      else let ulow = map (\<lambda>d. pt outer_box d 0) [0..<dm];
               uhgh = map (\<lambda>d. pt outer_box d 1) [0..<dm];
               uval = map (\<lambda>d. pt unif_box d 1 + 1) [0..<dm]
           in unifPieces ulow uhgh uval \<bind> (\<lambda>_. distro_loop dm degree ulow uhgh uval ulow []))"

section \<open>Closed boxes\<close>

text \<open>A closed box has inclusive ends; it holds the points between its ends.\<close>

definition closed_box :: "ivpbox \<Rightarrow> bool" where
  "closed_box b \<longleftrightarrow> wf_box b \<and> inclusive b \<and> 0 < m_dim b"

text \<open>What a box is besides its region.\<close>

definition payload :: "ivpbox \<Rightarrow> nat \<times> nat \<times> real list \<times> int \<times> bool" where
  "payload b = (m_dim b, m_degree b, m_wts b, m_of b, m_markval b)"

lemma payload_set [simp]: "payload (set_pt d e v b) = payload b" "payload (set_bd d e w b) = payload b"
  by (simp_all add: payload_def box_simps)

lemma payload_ival: "payload b = payload c \<Longrightarrow> m_degree b \<le> 2 \<Longrightarrow> ival b x = ival c x"
  by (simp add: payload_def ival_def wt_def quad_val_def)

lemma closed_dim: "closed_box b \<Longrightarrow> 0 < m_dim b" and closed_wf: "closed_box b \<Longrightarrow> wf_box b"
  by (simp_all add: closed_box_def)

lemma closed_set_pt [simp]: "closed_box b \<Longrightarrow> closed_box (set_pt d e v b)"
  by (simp add: closed_box_def box_simps inclusive_def)

lemma closed_set_bd: "closed_box b \<Longrightarrow> d < m_dim b \<Longrightarrow> e < 2 \<Longrightarrow> closed_box (set_bd d e True b)"
  by (auto simp: closed_box_def box_simps inclusive_def)

lemma in_closed: "closed_box b \<Longrightarrow> in_box b x \<longleftrightarrow> (\<forall>d<m_dim b. pt b d 0 \<le> x d \<and> x d \<le> pt b d 1)"
  using inclusive_in_box [of b x] by (simp add: closed_box_def in_closure_def)

lemma pt_set [simp]: "closed_box b \<Longrightarrow> d < m_dim b \<Longrightarrow> e < 2 \<Longrightarrow> e' < 2 \<Longrightarrow>
    pt (set_pt d e v b) k e' = (if k = d \<and> e' = e then v else pt b k e')"
  by (simp add: box_simps closed_wf)

lemma all_capped:
  fixes v :: "'a::order"
  assumes "d < n"
  shows "v \<le> H d \<Longrightarrow> (\<forall>k<n. L k \<le> x k \<and> x k \<le> (if k = d then v else H k)) \<longleftrightarrow>
      (\<forall>k<n. L k \<le> x k \<and> x k \<le> H k) \<and> x d \<le> v"
    "L d \<le> v \<Longrightarrow> (\<forall>k<n. (if k = d then v else L k) \<le> x k \<and> x k \<le> H k) \<longleftrightarrow>
      (\<forall>k<n. L k \<le> x k \<and> x k \<le> H k) \<and> v \<le> x d"
proof -
  assume v: "v \<le> H d"
  have "(if k = d then v else H k) \<le> H k" for k using v by simp
  with assms show "(\<forall>k<n. L k \<le> x k \<and> x k \<le> (if k = d then v else H k)) \<longleftrightarrow>
      (\<forall>k<n. L k \<le> x k \<and> x k \<le> H k) \<and> x d \<le> v"
    by (smt (verit, best) order.trans)
next
  assume v: "L d \<le> v"
  have "L k \<le> (if k = d then v else L k)" for k using v by simp
  with assms show "(\<forall>k<n. (if k = d then v else L k) \<le> x k \<and> x k \<le> H k) \<longleftrightarrow>
      (\<forall>k<n. L k \<le> x k \<and> x k \<le> H k) \<and> v \<le> x d"
    by (smt (verit, best) order.trans)
qed

lemma in_set_high:
  assumes "closed_box b" "d < m_dim b" "v \<le> pt b d 1"
  shows "in_box (set_pt d 1 v b) x \<longleftrightarrow> in_box b x \<and> x d \<le> v"
proof -
  have "in_box (set_pt d 1 v b) x \<longleftrightarrow> (\<forall>k<m_dim b. pt b k 0 \<le> x k \<and> x k \<le> (if k = d then v else pt b k 1))"
    using in_closed [of "set_pt d 1 v b" x] assms(1,2) by (simp add: set_fields)
  also have "\<dots> \<longleftrightarrow> (\<forall>k<m_dim b. pt b k 0 \<le> x k \<and> x k \<le> pt b k 1) \<and> x d \<le> v"
    by (rule all_capped(1) [where H = "\<lambda>k. pt b k 1"]) (use assms(2,3) in auto)
  finally show ?thesis using in_closed [OF assms(1), of x] by blast
qed

lemma in_set_low:
  assumes "closed_box b" "d < m_dim b" "pt b d 0 \<le> v"
  shows "in_box (set_pt d 0 v b) x \<longleftrightarrow> in_box b x \<and> v \<le> x d"
proof -
  have "in_box (set_pt d 0 v b) x \<longleftrightarrow> (\<forall>k<m_dim b. (if k = d then v else pt b k 0) \<le> x k \<and> x k \<le> pt b k 1)"
    using in_closed [of "set_pt d 0 v b" x] assms(1,2) by (simp add: set_fields)
  also have "\<dots> \<longleftrightarrow> (\<forall>k<m_dim b. pt b k 0 \<le> x k \<and> x k \<le> pt b k 1) \<and> v \<le> x d"
    by (rule all_capped(2) [where L = "\<lambda>k. pt b k 0"]) (use assms(2,3) in auto)
  finally show ?thesis using in_closed [OF assms(1), of x] by blast
qed

lemma in_set_bd: "closed_box b \<Longrightarrow> d < m_dim b \<Longrightarrow> e < 2 \<Longrightarrow> in_box (set_bd d e True b) x \<longleftrightarrow> in_box b x"
  using closed_set_bd [of b d e] by (simp add: in_closed box_simps)

lemma copy_closed: "closed_box b \<Longrightarrow> box_copy b = Some b"
  by (simp add: box_copy_eq closed_box_def)

lemma closed_nonempty: "closed_box b \<Longrightarrow> (\<exists>x. in_box b x) \<longleftrightarrow> ordered_box b"
proof
  assume b: "closed_box b" and o: "ordered_box b"
  then have "in_box b (\<lambda>d. pt b d 0)" by (simp add: in_closed ordered_box_def)
  then show "\<exists>x. in_box b x" by blast
qed (force simp: in_closed ordered_box_def)

text \<open>Boxes that share no point and together hold the points of a region.\<close>

definition tiles :: "ivpbox list \<Rightarrow> ((nat \<Rightarrow> int) \<Rightarrow> bool) \<Rightarrow> bool" where
  "tiles bs P \<longleftrightarrow> (\<forall>x. (\<exists>b\<in>set bs. in_box b x) \<longleftrightarrow> P x) \<and>
     sorted_wrt (\<lambda>b c. \<forall>x. \<not> (in_box b x \<and> in_box c x)) bs"

lemma tiles_Nil: "(\<And>x. \<not> P x) \<Longrightarrow> tiles [] P"
  by (simp add: tiles_def)

lemma tiles_Cons: "tiles bs P \<Longrightarrow> (\<And>x. in_box b x \<Longrightarrow> \<not> P x) \<Longrightarrow> (\<And>x. Q x \<longleftrightarrow> in_box b x \<or> P x) \<Longrightarrow>
    tiles (b # bs) Q"
  by (auto simp: tiles_def)

lemma tiles_cong: "tiles bs P \<Longrightarrow> (\<And>x. P x \<longleftrightarrow> Q x) \<Longrightarrow> tiles bs Q"
  by (simp add: tiles_def)

section \<open>Cutting a box\<close>

lemma half_up: "1 < n \<Longrightarrow> 0 < (n + 1) sdiv 2 \<and> (n + 1) sdiv 2 < n \<and> 2 * ((n + 1) sdiv 2) \<in> {n, n + 1}" for n :: int
proof -
  assume "1 < n"
  then have "(n + 1) sdiv 2 = (n + 1) div 2" by (simp add: sdiv_nonneg)
  moreover have "0 < (n + 1) div 2 \<and> (n + 1) div 2 < n \<and> (2 * ((n + 1) div 2) = n \<or> 2 * ((n + 1) div 2) = n + 1)"
    using \<open>1 < n\<close> by presburger
  ultimately show ?thesis by simp
qed

lemma cutBox_ok:
  assumes "closed_box b" "d < m_dim b"
  shows "if pt b d 1 \<le> pt b d 0 then cutBox b d = Some (b, None)
    else \<exists>old new h. cutBox b d = Some (old, Some new) \<and> closed_box old \<and> closed_box new \<and>
      payload old = payload b \<and> payload new = payload b \<and> pt b d 0 \<le> h \<and> h < pt b d 1 \<and>
      2 * (h - pt b d 0 + 1) \<in> {pt b d 1 - pt b d 0 + 1, pt b d 1 - pt b d 0 + 2} \<and>
      (\<forall>x. in_box old x \<longleftrightarrow> in_box b x \<and> x d \<le> h) \<and> (\<forall>x. in_box new x \<longleftrightarrow> in_box b x \<and> h < x d)"
proof (cases "pt b d 1 \<le> pt b d 0")
  case True
  then show ?thesis by (simp add: cutBox_def Let_def)
next
  case False
  let ?n = "pt b d 1 - pt b d 0 + 1" let ?h = "pt b d 0 + (?n + 1) sdiv 2 - 1"
  have n: "1 < ?n" using False by simp
  note hu = half_up [OF n]
  have h: "pt b d 0 \<le> ?h" "?h < pt b d 1" "2 * (?h - pt b d 0 + 1) \<in> {?n, ?n + 1}" using hu by auto
  let ?o = "set_pt d 1 ?h b" and ?w = "set_pt d 0 (?h + 1) b"
  have "cutBox b d = Some (set_bd d 1 True ?o, Some (set_bd d 0 True ?w))"
    using False copy_closed [OF assms(1)] by (simp add: cutBox_def Let_def)
  moreover have "in_box (set_bd d 1 True ?o) x \<longleftrightarrow> in_box b x \<and> x d \<le> ?h"
    "in_box (set_bd d 0 True ?w) x \<longleftrightarrow> in_box b x \<and> ?h < x d" for x
    using assms h in_set_high [OF assms, of ?h] in_set_low [OF assms, of "?h + 1"]
    by (simp_all add: in_set_bd set_fields del: One_nat_def) linarith?
  moreover have "closed_box (set_bd d 1 True ?o)" "closed_box (set_bd d 0 True ?w)"
    using assms by (simp_all add: closed_set_bd box_simps)
  ultimately show ?thesis
    unfolding if_not_P [OF False] using h
    by (intro exI [of _ "set_bd d 1 True ?o"] exI [of _ "set_bd d 0 True ?w"] exI [of _ ?h]) auto
qed

text \<open>A cut of the old box behind \<open>h\<close>; when \<open>h\<close> is not below its end the new box is empty.\<close>

lemma cut_behind:
  assumes "closed_box b" "d < m_dim b" "pt b d 0 \<le> h" "pt b d 0 \<le> pt b d 1"
  defines "old \<equiv> set_bd d 1 True (set_pt d 1 h b)" and "new \<equiv> set_bd d 0 True (set_pt d 0 (h + 1) b)"
  shows "closed_box old" "closed_box new" "payload old = payload b" "payload new = payload b"
    "in_box new x \<longleftrightarrow> in_box b x \<and> h < x d" "h \<le> pt b d 1 \<Longrightarrow> in_box old x \<longleftrightarrow> in_box b x \<and> x d \<le> h"
proof -
  show "closed_box old" "closed_box new" "payload old = payload b" "payload new = payload b"
    using assms(1,2) by (simp_all add: old_def new_def closed_set_bd set_fields)
  have "in_box new x \<longleftrightarrow> in_box (set_pt d 0 (h + 1) b) x"
    using assms(1,2) by (simp add: new_def in_set_bd set_fields)
  then show "in_box new x \<longleftrightarrow> in_box b x \<and> h < x d"
    using in_set_low [OF assms(1,2), of "h + 1" x] assms(3) by auto
  have "in_box old x \<longleftrightarrow> in_box (set_pt d 1 h b) x"
    using assms(1,2) by (simp add: old_def in_set_bd set_fields del: One_nat_def)
  then show "h \<le> pt b d 1 \<Longrightarrow> in_box old x \<longleftrightarrow> in_box b x \<and> x d \<le> h"
    using in_set_high [OF assms(1,2), of h x] by simp
qed

definition quarter_end :: "int \<Rightarrow> bool \<Rightarrow> int" where
  "quarter_end n high = (if n = 2 then 0 else max 1 (if high then 3 * n div 4 else n div 4))"

lemma quarterBox_eq:
  fixes high
  assumes "closed_box b" "d < m_dim b" "pt b d 0 < pt b d 1"
  defines "h \<equiv> pt b d 0 + quarter_end (pt b d 1 - pt b d 0 + 1) high"
  shows "quarterBox b d high =
    Some (set_bd d 1 True (set_pt d 1 h b), Some (set_bd d 0 True (set_pt d 0 (h + 1) b)))"
proof -
  let ?n = "pt b d 1 - pt b d 0 + 1"
  have n: "2 \<le> ?n" using assms(3) by simp
  have fl: "\<lfloor>real_of_int ?n * 0.75\<rfloor> = 3 * ?n div 4" "\<lfloor>real_of_int ?n * 0.25\<rfloor> = ?n div 4"
    using floor_divide_of_int_eq [of "3 * ?n" 4, where ?'a = real] floor_divide_of_int_eq [of ?n 4, where ?'a = real]
    by (simp_all add: field_simps)
  have delta: "(let delta = c_trunc (if high then of_int ?n * 0.75 else of_int ?n * 0.25) in if delta = 0 then 1 else delta)
      = max 1 (if high then 3 * ?n div 4 else ?n div 4)"
    using n fl by (auto simp: c_trunc_nonneg Let_def)
  have c: "box_copy b = Some b" by (rule copy_closed [OF assms(1)])
  show ?thesis
  proof (cases "?n = 2")
    case True
    then have "pt b d 1 = pt b d 0 + 1" by simp
    then show ?thesis using c by (simp add: quarterBox_def h_def quarter_end_def)
  next
    case False
    have "pt (set_pt d 1 h b) d 1 = h" using assms(1,2) by simp
    then show ?thesis using False n c delta
      by (simp add: quarterBox_def h_def quarter_end_def Let_def del: One_nat_def)
  qed
qed

section \<open>Taking a box out of a box\<close>

text \<open>
  During the subtraction the source box is what is left of the original inside the bounds \<open>Q\<close> seen so
  far, and the boxes made hold the rest.
\<close>

definition peeled :: "ivpbox \<Rightarrow> ((nat \<Rightarrow> int) \<Rightarrow> bool) \<Rightarrow> ivpbox \<times> ivpbox list \<Rightarrow> bool" where
  "peeled orig Q st \<longleftrightarrow> (case st of (source, bs) \<Rightarrow>
     (\<forall>b\<in>insert source (set bs). closed_box b \<and> payload b = payload orig \<and> ordered_box b) \<and>
     (\<forall>x. in_box source x \<longleftrightarrow> in_box orig x \<and> Q x) \<and> tiles bs (\<lambda>x. in_box orig x \<and> \<not> Q x))"

lemma payload_dim: "payload b = payload c \<Longrightarrow> m_dim b = m_dim c"
  by (simp add: payload_def)

lemma ordered_set: "closed_box b \<Longrightarrow> ordered_box b \<Longrightarrow> d < m_dim b \<Longrightarrow> e < 2 \<Longrightarrow>
    (if e = 0 then v \<le> pt b d 1 else pt b d 0 \<le> v) \<Longrightarrow> ordered_box (set_pt d e v b)"
  by (auto simp: ordered_box_def set_fields split: if_splits)

lemma peel_high:
  assumes "peeled orig Q (source, bs)" "d < m_dim orig" "pt source d 0 \<le> v"
  shows "v < pt source d 1 \<Longrightarrow> peeled orig (\<lambda>x. Q x \<and> x d \<le> v) (set_pt d 1 v source, set_pt d 0 (v + 1) source # bs)"
    "\<not> v < pt source d 1 \<Longrightarrow> peeled orig (\<lambda>x. Q x \<and> x d \<le> v) (source, bs)"
proof -
  have s: "closed_box source" "payload source = payload orig" "ordered_box source"
    "\<And>x. in_box source x \<longleftrightarrow> in_box orig x \<and> Q x" and b: "\<forall>b\<in>set bs. closed_box b \<and> payload b = payload orig \<and> ordered_box b"
    and t: "tiles bs (\<lambda>x. in_box orig x \<and> \<not> Q x)" using assms(1) by (auto simp: peeled_def)
  have d: "d < m_dim source" using assms(2) payload_dim [OF s(2)] by simp
  {
    assume v: "v < pt source d 1"
    have h: "in_box (set_pt d 1 v source) x \<longleftrightarrow> in_box source x \<and> x d \<le> v" for x
      using in_set_high [OF s(1) d, of v x] v by simp
    have l: "in_box (set_pt d 0 (v + 1) source) x \<longleftrightarrow> in_box source x \<and> v + 1 \<le> x d" for x
      using in_set_low [OF s(1) d, of "v + 1" x] assms(3) by simp
    have "tiles (set_pt d 0 (v + 1) source # bs) (\<lambda>x. in_box orig x \<and> \<not> (Q x \<and> x d \<le> v))"
      by (rule tiles_Cons [OF t]) (use l s(4) in auto)
    moreover have "ordered_box (set_pt d 1 v source)" "ordered_box (set_pt d 0 (v + 1) source)"
      by (rule ordered_set [OF s(1,3) d]; use v assms(3) in simp)+
    ultimately show "peeled orig (\<lambda>x. Q x \<and> x d \<le> v) (set_pt d 1 v source, set_pt d 0 (v + 1) source # bs)"
      using s b h by (simp add: peeled_def)
  }
  {
    assume v: "\<not> v < pt source d 1"
    have "in_box source x \<Longrightarrow> x d \<le> v" for x using in_closed [OF s(1), of x] d v by fastforce
    with s b t show "peeled orig (\<lambda>x. Q x \<and> x d \<le> v) (source, bs)"
      by (auto simp: peeled_def elim!: tiles_cong)
  }
qed

lemma peel_low:
  assumes "peeled orig Q (source, bs)" "d < m_dim orig" "v \<le> pt source d 1"
  shows "pt source d 0 < v \<Longrightarrow> peeled orig (\<lambda>x. Q x \<and> v \<le> x d) (set_pt d 0 v source, set_pt d 1 (v - 1) source # bs)"
    "\<not> pt source d 0 < v \<Longrightarrow> peeled orig (\<lambda>x. Q x \<and> v \<le> x d) (source, bs)"
proof -
  have s: "closed_box source" "payload source = payload orig" "ordered_box source"
    "\<And>x. in_box source x \<longleftrightarrow> in_box orig x \<and> Q x" and b: "\<forall>b\<in>set bs. closed_box b \<and> payload b = payload orig \<and> ordered_box b"
    and t: "tiles bs (\<lambda>x. in_box orig x \<and> \<not> Q x)" using assms(1) by (auto simp: peeled_def)
  have d: "d < m_dim source" using assms(2) payload_dim [OF s(2)] by simp
  {
    assume v: "pt source d 0 < v"
    have l: "in_box (set_pt d 0 v source) x \<longleftrightarrow> in_box source x \<and> v \<le> x d" for x
      using in_set_low [OF s(1) d, of v x] v by simp
    have h: "in_box (set_pt d 1 (v - 1) source) x \<longleftrightarrow> in_box source x \<and> x d \<le> v - 1" for x
      using in_set_high [OF s(1) d, of "v - 1" x] assms(3) by simp
    have "tiles (set_pt d 1 (v - 1) source # bs) (\<lambda>x. in_box orig x \<and> \<not> (Q x \<and> v \<le> x d))"
      by (rule tiles_Cons [OF t]) (use h s(4) in auto)
    moreover have "ordered_box (set_pt d 1 (v - 1) source)" "ordered_box (set_pt d 0 v source)"
      by (rule ordered_set [OF s(1,3) d]; use v assms(3) in simp)+
    ultimately show "peeled orig (\<lambda>x. Q x \<and> v \<le> x d) (set_pt d 0 v source, set_pt d 1 (v - 1) source # bs)"
      using s b l by (simp add: peeled_def)
  }
  {
    assume v: "\<not> pt source d 0 < v"
    have "in_box source x \<Longrightarrow> v \<le> x d" for x using in_closed [OF s(1), of x] d v by fastforce
    with s b t show "peeled orig (\<lambda>x. Q x \<and> v \<le> x d) (source, bs)"
      by (auto simp: peeled_def elim!: tiles_cong)
  }
qed

lemma subtract_step_peels:
  assumes "peeled orig Q (source, bs)" "d < m_dim orig" "pt sub d 0 \<le> pt sub d 1"
    "pt source d 0 \<le> pt sub d 1" "pt sub d 0 \<le> pt source d 1"
  shows "\<exists>st. subtract_step sub (source, bs) d = Some st \<and>
    peeled orig (\<lambda>x. (Q x \<and> x d \<le> pt sub d 1) \<and> pt sub d 0 \<le> x d) st \<and>
    (\<forall>k e. k \<noteq> d \<longrightarrow> e < 2 \<longrightarrow> pt (fst st) k e = pt source k e)"
proof -
  have s: "closed_box source" "d < m_dim source" using assms(1,2) by (auto simp: peeled_def dest: payload_dim)
  define s1 where "s1 = (if pt sub d 1 < pt source d 1 then set_pt d 1 (pt sub d 1) source else source)"
  define bs1 where "bs1 = (if pt sub d 1 < pt source d 1 then set_pt d 0 (pt sub d 1 + 1) source # bs else bs)"
  have p1: "peeled orig (\<lambda>x. Q x \<and> x d \<le> pt sub d 1) (s1, bs1)"
    using peel_high [OF assms(1,2,4)] unfolding s1_def bs1_def by simp
  have c: "closed_box s1" using p1 by (simp add: peeled_def)
  have e1: "pt s1 d 0 = pt source d 0" "pt s1 d 1 = min (pt source d 1) (pt sub d 1)"
    "k \<noteq> d \<Longrightarrow> e < 2 \<Longrightarrow> pt s1 k e = pt source k e" for k e
    using s by (auto simp: s1_def simp del: One_nat_def)
  have le: "pt sub d 0 \<le> pt s1 d 1" using e1(2) assms(3,5) by simp
  define s2 where "s2 = (if pt s1 d 0 < pt sub d 0 then set_pt d 0 (pt sub d 0) s1 else s1)"
  define bs2 where "bs2 = (if pt s1 d 0 < pt sub d 0 then set_pt d 1 (pt sub d 0 - 1) s1 # bs1 else bs1)"
  have p2: "peeled orig (\<lambda>x. (Q x \<and> x d \<le> pt sub d 1) \<and> pt sub d 0 \<le> x d) (s2, bs2)"
    using peel_low [OF p1 assms(2) le] unfolding s2_def bs2_def by simp
  have "d < m_dim s1" using s(2) by (simp add: s1_def set_fields)
  then have e2: "k \<noteq> d \<Longrightarrow> e < 2 \<Longrightarrow> pt s2 k e = pt s1 k e" for k e
    using c by (auto simp: s2_def)
  have "subtract_step sub (source, bs) d =
      Some (s1, bs1) \<bind> (\<lambda>(source, bs). if pt sub d 0 > pt source d 0
         then box_copy source \<bind> (\<lambda>nb. Some (set_pt d 0 (pt sub d 0) source, set_pt d 1 (pt sub d 0 - 1) nb # bs))
         else Some (source, bs))"
    unfolding subtract_step_def prod.case s1_def bs1_def using copy_closed [OF s(1)] by (simp del: One_nat_def)
  then have "subtract_step sub (source, bs) d = Some (s2, bs2)"
    using copy_closed [OF c] by (simp add: s2_def bs2_def)
  with p2 e1(3) e2 show ?thesis by auto
qed

lemma subtract_loop:
  assumes "closed_box orig" "ordered_box orig" "m_dim sub = m_dim orig" "ordered_box sub" "box_intersect orig sub"
    "k \<le> m_dim orig"
  shows "\<exists>st. foldM (subtract_step sub) (orig, []) [0..<k] = Some st \<and>
    peeled orig (\<lambda>x. \<forall>d<k. pt sub d 0 \<le> x d \<and> x d \<le> pt sub d 1) st \<and>
    (\<forall>d e. k \<le> d \<longrightarrow> e < 2 \<longrightarrow> pt (fst st) d e = pt orig d e)"
  using assms(6)
proof (induction k)
  case 0
  show ?case using assms(1,2) by (auto simp: peeled_def intro!: tiles_Nil)
next
  case (Suc k)
  then obtain source bs where st: "foldM (subtract_step sub) (orig, []) [0..<k] = Some (source, bs)"
    "peeled orig (\<lambda>x. \<forall>d<k. pt sub d 0 \<le> x d \<and> x d \<le> pt sub d 1) (source, bs)"
    "\<forall>d e. k \<le> d \<longrightarrow> e < 2 \<longrightarrow> pt source d e = pt orig d e" by auto
  have k: "k < m_dim orig" using Suc.prems by simp
  have o: "pt sub k 0 \<le> pt sub k 1" using assms(3,4) k by (simp add: ordered_box_def)
  have i: "pt orig k 0 \<le> pt sub k 1" "pt sub k 0 \<le> pt orig k 1"
    using assms(5) k by (auto simp: box_intersect_def list_all_upt not_less simp del: One_nat_def)
  then have i': "pt source k 0 \<le> pt sub k 1" "pt sub k 0 \<le> pt source k 1" using st(3) by auto
  obtain st' where st': "subtract_step sub (source, bs) k = Some st'"
    "peeled orig (\<lambda>x. ((\<forall>d<k. pt sub d 0 \<le> x d \<and> x d \<le> pt sub d 1) \<and> x k \<le> pt sub k 1) \<and> pt sub k 0 \<le> x k) st'"
    "\<forall>d e. d \<noteq> k \<longrightarrow> e < 2 \<longrightarrow> pt (fst st') d e = pt source d e"
    using subtract_step_peels [OF st(2) k o i'] by blast
  have q: "(\<lambda>x. ((\<forall>d<k. pt sub d 0 \<le> x d \<and> x d \<le> pt sub d 1) \<and> x k \<le> pt sub k 1) \<and> pt sub k 0 \<le> x k) =
      (\<lambda>x. \<forall>d<Suc k. pt sub d 0 \<le> x d \<and> x d \<le> pt sub d 1)" by (auto simp: less_Suc_eq)
  show ?case using st(1,3) st'(1,3) st'(2) [unfolded q] by (auto simp: foldM_append)
qed

text \<open>What the containment test says of closed boxes.\<close>

lemma contained_closed:
  assumes "closed_box t" "closed_box g" "m_dim g = m_dim t"
  shows "containedWithinBox t g = Some (\<forall>d<m_dim t. pt g d 0 \<le> pt t d 0 \<and> pt t d 1 \<le> pt g d 1)"
proof -
  have "bd g d 0" "bd g d 1" if "d < m_dim t" for d using that assms(2,3) by (auto simp: closed_box_def inclusive_def)
  then show ?thesis using assms(3) unfolding containedWithinBox_def list_all_upt by (auto simp: not_less simp del: One_nat_def)
qed

lemma contained_points:
  assumes "closed_box t" "closed_box g" "m_dim g = m_dim t" "ordered_box t"
  shows "containedWithinBox t g = Some (\<forall>x. in_box t x \<longrightarrow> in_box g x)"
proof -
  have "(\<forall>x. in_box t x \<longrightarrow> in_box g x) \<longleftrightarrow> (\<forall>d<m_dim t. pt g d 0 \<le> pt t d 0 \<and> pt t d 1 \<le> pt g d 1)"
  proof
    assume h: "\<forall>x. in_box t x \<longrightarrow> in_box g x"
    have "in_box t (\<lambda>d. pt t d 0)" "in_box t (\<lambda>d. pt t d 1)"
      using assms(4) in_closed [OF assms(1)] by (simp_all add: ordered_box_def)
    with h have "in_box g (\<lambda>d. pt t d 0)" "in_box g (\<lambda>d. pt t d 1)" by blast+
    then show "\<forall>d<m_dim t. pt g d 0 \<le> pt t d 0 \<and> pt t d 1 \<le> pt g d 1"
      using in_closed [OF assms(2)] assms(3) by simp
  next
    assume "\<forall>d<m_dim t. pt g d 0 \<le> pt t d 0 \<and> pt t d 1 \<le> pt g d 1"
    then show "\<forall>x. in_box t x \<longrightarrow> in_box g x"
      using in_closed [OF assms(1)] in_closed [OF assms(2)] assms(3) by (auto intro: order.trans simp del: One_nat_def)
  qed
  then show ?thesis using contained_closed [OF assms(1-3)] by simp
qed

lemma subtractBox_tiles:
  assumes "closed_box orig" "ordered_box orig" "closed_box sub" "ordered_box sub" "m_dim sub = m_dim orig"
  obtains bs where "subtractBox orig sub = Some bs" "tiles bs (\<lambda>x. in_box orig x \<and> \<not> in_box sub x)"
    "\<forall>b\<in>set bs. closed_box b \<and> ordered_box b \<and> payload b = payload orig"
proof -
  have inside: "containedWithinBox orig sub = Some (\<forall>x. in_box orig x \<longrightarrow> in_box sub x)"
    by (rule contained_points [OF assms(1,3,5,2)])
  consider "\<forall>x. in_box orig x \<longrightarrow> in_box sub x"
    | "\<not> (\<forall>x. in_box orig x \<longrightarrow> in_box sub x)" "\<not> box_intersect orig sub"
    | "\<not> (\<forall>x. in_box orig x \<longrightarrow> in_box sub x)" "box_intersect orig sub" by blast
  then show ?thesis
  proof cases
    case 1
    with inside assms(5) show ?thesis by (intro that [of "[]"]) (auto simp: subtractBox_def intro!: tiles_Nil)
  next
    case 2
    have "\<not> (in_box orig x \<and> in_box sub x)" for x
      using box_intersect_complete [of orig x sub] 2(2) assms(5) by auto
    then have "tiles [orig] (\<lambda>x. in_box orig x \<and> \<not> in_box sub x)" by (auto simp: tiles_def)
    moreover have "subtractBox orig sub = Some [orig]"
      using inside 2 assms(5) copy_closed [OF assms(1)] by (simp add: subtractBox_def)
    ultimately show ?thesis using that assms(1,2) by simp
  next
    case 3
    obtain source bs where st: "foldM (subtract_step sub) (orig, []) [0..<m_dim orig] = Some (source, bs)"
      "peeled orig (\<lambda>x. \<forall>d<m_dim orig. pt sub d 0 \<le> x d \<and> x d \<le> pt sub d 1) (source, bs)"
      using subtract_loop [OF assms(1,2,5,4) 3(2), of "m_dim orig"] by auto
    have "in_box sub x \<longleftrightarrow> (\<forall>d<m_dim orig. pt sub d 0 \<le> x d \<and> x d \<le> pt sub d 1)" for x
      using in_closed [OF assms(3), of x] assms(5) by simp
    with st(2) have "tiles bs (\<lambda>x. in_box orig x \<and> \<not> in_box sub x)"
      "\<forall>b\<in>set bs. closed_box b \<and> ordered_box b \<and> payload b = payload orig" by (auto simp: peeled_def)
    moreover have "subtractBox orig sub = Some bs"
      unfolding subtractBox_def inside Option.bind.bind_lunit if_not_P [OF 3(1)]
      using 3(2) assms(5) st(1) copy_new_eq [OF closed_wf [OF assms(1)]] by simp
    ultimately show ?thesis using that by blast
  qed
qed

section \<open>Covering a box with uniform pieces\<close>

text \<open>The lower ends of the pieces along one edge, and the lower corners of all pieces in the order in
  which they are made: the first dimension moves fastest.\<close>

definition edge_pieces :: "int \<Rightarrow> int \<Rightarrow> int \<Rightarrow> nat" where
  "edge_pieces l h v = nat ((h - l) div v + 1)"

definition starts :: "int \<Rightarrow> int \<Rightarrow> int \<Rightarrow> int list" where
  "starts l h v = map (\<lambda>i. l + int i * v) [0..<edge_pieces l h v]"

fun corners :: "int list \<Rightarrow> int list \<Rightarrow> int list \<Rightarrow> int list list" where
  "corners (l # low) (h # uhgh) (v # uval) =
     map (\<lambda>(us, u). u # us) (List.product (corners low uhgh uval) (starts l h v))"
| "corners low uhgh uval = [[]]"

fun edges_ok :: "int list \<Rightarrow> int list \<Rightarrow> int list \<Rightarrow> bool" where
  "edges_ok (l # low) (h # uhgh) (v # uval) \<longleftrightarrow> l \<le> h \<and> 0 < v \<and> edges_ok low uhgh uval"
| "edges_ok [] [] [] \<longleftrightarrow> True"
| "edges_ok low uhgh uval \<longleftrightarrow> False"

lemma edges_ok_nth: "edges_ok low uhgh uval \<longleftrightarrow> length uhgh = length low \<and> length uval = length low \<and>
    (\<forall>d<length low. low ! d \<le> uhgh ! d \<and> 0 < uval ! d)"
  by (induction low uhgh uval rule: edges_ok.induct) (auto simp: All_less_Suc2)

text \<open>The states of a loop that moves on with \<open>nx\<close> until \<open>dn\<close>.\<close>

fun run_of :: "('s \<Rightarrow> 's) \<Rightarrow> ('s \<Rightarrow> bool) \<Rightarrow> 's list \<Rightarrow> bool" where
  "run_of nx dn [] \<longleftrightarrow> False"
| "run_of nx dn [s] \<longleftrightarrow> dn s"
| "run_of nx dn (s # t # ss) \<longleftrightarrow> \<not> dn s \<and> nx s = t \<and> run_of nx dn (t # ss)"

lemma distro_done_Cons: "distro_done (u # us) (h # hs) (v # vs) \<longleftrightarrow> u + v > h \<and> distro_done us hs vs"
  unfolding distro_done_def list_all_upt by (simp add: All_less_Suc2)

lemma distro_done_Nil [simp]: "distro_done [] hs vs"
  by (simp add: distro_done_def)

text \<open>Moving along the first edge, and then on to the next state of the others.\<close>

lemma run_line:
  assumes "u + int n * v \<le> h" "h < u + (int n + 1) * v" "0 < v"
    and rest: "if distro_done us hs vs then T = []
      else T \<noteq> [] \<and> hd T = l # distro_next us ls hs vs \<and>
        run_of (\<lambda>u. distro_next u (l # ls) (h # hs) (v # vs)) (\<lambda>u. distro_done u (h # hs) (v # vs)) T"
  shows "run_of (\<lambda>u. distro_next u (l # ls) (h # hs) (v # vs)) (\<lambda>u. distro_done u (h # hs) (v # vs))
    (map (\<lambda>i. (u + int i * v) # us) [0..<Suc n] @ T)"
  using assms(1,2)
proof (induction n arbitrary: u)
  case 0
  then have "h < u + v" by simp
  with rest show ?case by (cases "distro_done us hs vs"; cases T) (auto simp: distro_done_Cons)
next
  case (Suc n)
  have shift: "map (\<lambda>i. (u + int i * v) # us) [0..<Suc (Suc n)] =
      (u # us) # map (\<lambda>i. (u + v + int i * v) # us) [0..<Suc n]"
    by (simp add: upt_conv_Cons map_Suc_upt [symmetric] algebra_simps del: upt_Suc map_Suc_upt)
  have "u + v + int n * v \<le> h" "h < u + v + (int n + 1) * v" using Suc.prems by (simp_all add: algebra_simps)
  from Suc.IH [OF this] obtain ts where ts: "map (\<lambda>i. (u + v + int i * v) # us) [0..<Suc n] @ T = ((u + v) # us) # ts"
    "run_of (\<lambda>u. distro_next u (l # ls) (h # hs) (v # vs)) (\<lambda>u. distro_done u (h # hs) (v # vs)) (((u + v) # us) # ts)"
    by (simp add: upt_conv_Cons del: upt_Suc)
  have "0 \<le> int n * v" using assms(3) by simp
  then have "u + v \<le> h" using Suc.prems(1) by (simp add: algebra_simps)
  then show ?case unfolding shift append_Cons ts(1) using ts(2) by (simp add: distro_done_Cons)
qed

lemma edge_pieces_pos:
  assumes "l \<le> h" "0 < v"
  obtains n where "edge_pieces l h v = Suc n" "l + int n * v \<le> h" "h < l + (int n + 1) * v"
proof -
  have q: "0 \<le> (h - l) div v" using assms by (simp add: pos_imp_zdiv_nonneg_iff)
  define n where "n = nat ((h - l) div v)"
  have n: "int n = (h - l) div v" using q by (simp add: n_def)
  have m: "(h - l) div v * v + (h - l) mod v = h - l" "0 \<le> (h - l) mod v" "(h - l) mod v < v"
    using assms(2) by simp_all
  have "edge_pieces l h v = Suc n" using q by (simp add: edge_pieces_def n_def nat_add_distrib)
  moreover have "l + int n * v \<le> h" unfolding n using m by linarith
  moreover have "h < l + (int n + 1) * v" unfolding n distrib_right using m by linarith
  ultimately show ?thesis using that by blast
qed

lemma run_of_nonempty: "run_of nx dn ss \<Longrightarrow> ss \<noteq> []"
  by (cases ss) simp_all

lemma run_lines:
  assumes "l \<le> h" "0 < v" "run_of (\<lambda>u. distro_next u ls hs vs) (\<lambda>u. distro_done u hs vs) R"
  defines "P \<equiv> \<lambda>R. map (\<lambda>(us, u). u # us) (List.product R (starts l h v))"
  shows "run_of (\<lambda>u. distro_next u (l # ls) (h # hs) (v # vs)) (\<lambda>u. distro_done u (h # hs) (v # vs)) (P R)"
    (is "run_of ?nx ?dn _") and "R \<noteq> [] \<Longrightarrow> hd (P R) = l # hd R"
proof -
  obtain n where n: "edge_pieces l h v = Suc n" "l + int n * v \<le> h" "h < l + (int n + 1) * v"
    by (rule edge_pieces_pos [OF assms(1,2)])
  have P: "P (us # ss) = map (\<lambda>i. (l + int i * v) # us) [0..<Suc n] @ P ss" for us ss
    by (simp add: P_def starts_def n(1) del: upt_Suc)
  have [simp]: "P [] = []" by (simp add: P_def)
  have hd: "hd (P ss) = l # hd ss" if "ss \<noteq> []" for ss
    using that P by (cases ss) (simp_all add: upt_conv_Cons del: upt_Suc)
  then show "R \<noteq> [] \<Longrightarrow> hd (P R) = l # hd R" .
  show "run_of ?nx ?dn (P R)" using assms(3)
  proof (induction "\<lambda>u. distro_next u ls hs vs" "\<lambda>u. distro_done u hs vs" R rule: run_of.induct)
    case (2 s)
    have "run_of ?nx ?dn (map (\<lambda>i. (l + int i * v) # s) [0..<Suc n] @ [])"
      by (rule run_line [OF n(2,3) assms(2)]) (use 2 in simp)
    then show ?case unfolding P by simp
  next
    case (3 s t ss)
    then have t: "\<not> distro_done s hs vs" "distro_next s ls hs vs = t" "run_of ?nx ?dn (P (t # ss))" by auto
    have ne: "P (t # ss) \<noteq> []" by (rule run_of_nonempty [OF t(3)])
    show ?case unfolding P [of s]
      by (rule run_line [OF n(2,3) assms(2)]) (use t ne hd [of "t # ss"] in simp)
  qed simp
qed

lemma run_corners: "edges_ok low uhgh uval \<Longrightarrow>
    run_of (\<lambda>u. distro_next u low uhgh uval) (\<lambda>u. distro_done u uhgh uval) (corners low uhgh uval) \<and>
    hd (corners low uhgh uval) = low"
proof (induction low uhgh uval rule: edges_ok.induct)
  case (1 l low h uhgh v uval)
  then have r: "run_of (\<lambda>u. distro_next u low uhgh uval) (\<lambda>u. distro_done u uhgh uval) (corners low uhgh uval)"
    "hd (corners low uhgh uval) = low" "l \<le> h" "0 < v" by auto
  show ?case using run_lines [OF r(3,4,1)] run_of_nonempty [OF r(1)] r(2) by simp
qed auto

lemma distro_loop_run:
  "run_of (\<lambda>u. distro_next u low uhgh uval) (\<lambda>u. distro_done u uhgh uval) (u # us) \<Longrightarrow>
   distro_loop dm degree low uhgh uval u bs = Some (rev (map (distro_box dm degree uhgh uval) (u # us)) @ bs)"
proof (induction us arbitrary: u bs)
  case Nil
  then show ?case by (subst distro_loop.simps) (simp add: Let_def)
next
  case (Cons t us)
  then have "\<not> distro_done u uhgh uval" "distro_next u low uhgh uval = t"
    "distro_loop dm degree low uhgh uval t bs' = Some (rev (map (distro_box dm degree uhgh uval) (t # us)) @ bs')" for bs'
    by auto
  then show ?case by (subst distro_loop.simps) (simp add: Let_def)
qed

text \<open>The cell of a corner, and which points the cells of one edge hold.\<close>

definition in_cell :: "int list \<Rightarrow> int list \<Rightarrow> int list \<Rightarrow> (nat \<Rightarrow> int) \<Rightarrow> bool" where
  "in_cell c uhgh uval x \<longleftrightarrow> (\<forall>d<length c. c ! d \<le> x d \<and> x d \<le> min (c ! d + uval ! d - 1) (uhgh ! d))"

lemma in_cell_Cons: "in_cell (u # us) (h # hs) (v # vs) x \<longleftrightarrow>
    u \<le> x 0 \<and> x 0 \<le> min (u + v - 1) h \<and> in_cell us hs vs (\<lambda>d. x (Suc d))"
  unfolding in_cell_def by (simp add: All_less_Suc2)

lemma starts_cover:
  assumes "l \<le> h" "0 < v"
  shows "(\<exists>u\<in>set (starts l h v). u \<le> y \<and> y \<le> min (u + v - 1) h) \<longleftrightarrow> l \<le> y \<and> y \<le> h"
proof
  assume "\<exists>u\<in>set (starts l h v). u \<le> y \<and> y \<le> min (u + v - 1) h"
  then obtain i where i: "l + int i * v \<le> y" "y \<le> h" by (auto simp: starts_def)
  moreover have "0 \<le> int i * v" using assms(2) by simp
  ultimately show "l \<le> y \<and> y \<le> h" by linarith
next
  assume y: "l \<le> y \<and> y \<le> h"
  define i where "i = nat ((y - l) div v)"
  have i: "int i = (y - l) div v" using y assms(2) by (simp add: i_def pos_imp_zdiv_nonneg_iff)
  have m: "(y - l) div v * v + (y - l) mod v = y - l" "0 \<le> (y - l) mod v" "(y - l) mod v < v"
    using assms(2) by simp_all
  then have "l + int i * v \<le> y" "y \<le> l + int i * v + v - 1" unfolding i by linarith+
  moreover have "(y - l) div v \<le> (h - l) div v" using y assms(2) by (simp add: zdiv_mono1)
  then have "i < edge_pieces l h v" using i by (simp add: edge_pieces_def)
  ultimately show "\<exists>u\<in>set (starts l h v). u \<le> y \<and> y \<le> min (u + v - 1) h"
    using y by (intro bexI [of _ "l + int i * v"]) (auto simp: starts_def)
qed

lemma starts_unique:
  assumes "0 < v" "u \<in> set (starts l h v)" "u' \<in> set (starts l h v)" "u \<le> y" "y \<le> u + v - 1" "u' \<le> y" "y \<le> u' + v - 1"
  shows "u = u'"
proof -
  obtain i j where ij: "u = l + int i * v" "u' = l + int j * v" using assms(2,3) by (auto simp: starts_def)
  have "(y - l) div v = int k" if "l + int k * v \<le> y" "y \<le> l + int k * v + v - 1" for k
  proof -
    have "y - l = int k * v + (y - l - int k * v)" by simp
    moreover have "0 \<le> y - l - int k * v" "y - l - int k * v < v" using that by linarith+
    ultimately show ?thesis by (metis assms(1) div_mult_self3 div_pos_pos_trivial less_irrefl add.right_neutral add.commute)
  qed
  from this [of i] this [of j] ij assms(4-7) have "int i = int j" by simp
  with ij show ?thesis by simp
qed

lemma distinct_starts: "0 < v \<Longrightarrow> distinct (starts l h v)"
  by (simp add: starts_def distinct_map inj_on_def)

lemma corners_cover: "edges_ok low uhgh uval \<Longrightarrow>
    (\<exists>c\<in>set (corners low uhgh uval). in_cell c uhgh uval x) \<longleftrightarrow> (\<forall>d<length low. low ! d \<le> x d \<and> x d \<le> uhgh ! d)"
proof (induction low uhgh uval arbitrary: x rule: edges_ok.induct)
  case (1 l low h uhgh v uval)
  then have s: "l \<le> h" "0 < v" by auto
  have "(\<exists>c\<in>set (corners (l # low) (h # uhgh) (v # uval)). in_cell c (h # uhgh) (v # uval) x) \<longleftrightarrow>
      (\<exists>c\<in>set (corners low uhgh uval). in_cell c uhgh uval (\<lambda>d. x (Suc d))) \<and>
      (\<exists>u\<in>set (starts l h v). u \<le> x 0 \<and> x 0 \<le> min (u + v - 1) h)"
    by (auto simp: in_cell_Cons)
  then show ?case using 1 starts_cover [OF s, of "x 0"] by (simp add: All_less_Suc2) blast
qed (auto simp: in_cell_def)

lemma corners_unique: "edges_ok low uhgh uval \<Longrightarrow> c \<in> set (corners low uhgh uval) \<Longrightarrow>
    c' \<in> set (corners low uhgh uval) \<Longrightarrow> in_cell c uhgh uval x \<Longrightarrow> in_cell c' uhgh uval x \<Longrightarrow> c = c'"
proof (induction low uhgh uval arbitrary: x c c' rule: edges_ok.induct)
  case (1 l low h uhgh v uval)
  then obtain us u us' u' where c: "c = u # us" "us \<in> set (corners low uhgh uval)" "u \<in> set (starts l h v)"
    "c' = u' # us'" "us' \<in> set (corners low uhgh uval)" "u' \<in> set (starts l h v)" by auto
  have "us = us'" by (rule "1.IH" [of us us' "\<lambda>d. x (Suc d)"]) (use 1 c in \<open>auto simp: in_cell_Cons\<close>)
  moreover have "u = u'" by (rule starts_unique [of v u l h u' "x 0"]) (use 1 c in \<open>auto simp: in_cell_Cons\<close>)
  ultimately show ?case using c by simp
qed auto

lemma corners_facts: "edges_ok low uhgh uval \<Longrightarrow> distinct (corners low uhgh uval) \<and>
    length (corners low uhgh uval) = prod_list (map (\<lambda>d. edge_pieces (low ! d) (uhgh ! d) (uval ! d)) [0..<length low]) \<and>
    (\<forall>c\<in>set (corners low uhgh uval). length c = length low \<and> (\<forall>d<length low. low ! d \<le> c ! d \<and> c ! d \<le> uhgh ! d))"
proof (induction low uhgh uval rule: edges_ok.induct)
  case (1 l low h uhgh v uval)
  then have s: "l \<le> h" "0 < v" by auto
  obtain n where n: "edge_pieces l h v = Suc n" "l + int n * v \<le> h" by (rule edge_pieces_pos [OF s])
  have r: "l \<le> u \<and> u \<le> h" if u: "u \<in> set (starts l h v)" for u
  proof -
    have "u \<in> (\<lambda>i. l + int i * v) ` {..<Suc n}" using u by (simp add: starts_def n(1) atLeast0LessThan del: upt_Suc)
    then obtain i where i: "u = l + int i * v" "i < Suc n" by blast
    then have "0 \<le> int i * v" "int i * v \<le> int n * v" using s(2) i(2) by (simp_all add: mult_right_mono)
    then show ?thesis using i(1) n(2) by linarith
  qed
  have "distinct (corners (l # low) (h # uhgh) (v # uval))"
    using 1 distinct_starts [OF s(2), of l h] by (auto simp: distinct_map distinct_product inj_on_def)
  moreover have "length (corners (l # low) (h # uhgh) (v # uval)) =
      prod_list (map (\<lambda>d. edge_pieces ((l # low) ! d) ((h # uhgh) ! d) ((v # uval) ! d)) [0..<length (l # low)])"
    using 1 by (simp add: length_product starts_def upt_conv_Cons map_Suc_upt [symmetric] comp_def mult.commute
        del: upt_Suc map_Suc_upt)
  moreover have "\<forall>c\<in>set (corners (l # low) (h # uhgh) (v # uval)). length c = length (l # low) \<and>
      (\<forall>d<length (l # low). (l # low) ! d \<le> c ! d \<and> c ! d \<le> (h # uhgh) ! d)"
    using 1 r by (auto simp: All_less_Suc2)
  ultimately show ?case by blast
qed auto

lemma setPTS_loop:
  assumes "wf_box r0" "n \<le> m_dim r0"
  shows "same_shape (foldl (\<lambda>b d. setPTS d (L d) (H d) b) r0 [0..<n]) r0 \<and>
    (\<forall>d. ends (foldl (\<lambda>b d. setPTS d (L d) (H d) b) r0 [0..<n]) d =
      (if d < n then (L d, H d, snd (snd (ends r0 d))) else ends r0 d))"
proof (rule foldl_dims_update [OF assms, where V = "\<lambda>d e. (L d, H d, snd (snd e))"])
  fix d r assume d: "d < n" "same_shape r r0"
  then have "wf_box r" "d < m_dim r" using assms(2) by (simp_all add: same_shape_def)
  then show "same_shape (setPTS d (L d) (H d) r) r0 \<and> ends (setPTS d (L d) (H d) r) d = (L d, H d, snd (snd (ends r d))) \<and>
      (\<forall>d'. d' \<noteq> d \<longrightarrow> ends (setPTS d (L d) (H d) r) d' = ends r d')"
    using d(2) by (auto simp: ends_setPTS) (simp add: ends_def)
qed

lemma fresh_setPTS:
  fixes L H :: "nat \<Rightarrow> int" and n g :: nat
  assumes "0 < n" "n < 2 ^ 16" "g < 2 ^ 16"
  defines "b \<equiv> foldl (\<lambda>b d. setPTS d (L d) (H d) b) (IvPBox_new (int n) (int g)) [0..<n]"
  shows "closed_box b" "m_dim b = n" "m_degree b = g" "d < n \<Longrightarrow> pt b d 0 = L d \<and> pt b d 1 = H d"
proof -
  let ?b0 = "IvPBox_new (int n) (int g)"
  have b0: "m_dim ?b0 = n" "m_degree ?b0 = g" using assms(2,3) by simp_all
  have f: "same_shape b ?b0 \<and> (\<forall>d. ends b d = (if d < n then (L d, H d, snd (snd (ends ?b0 d))) else ends ?b0 d))"
    unfolding b_def by (rule setPTS_loop) (use b0 in auto)
  then have e: "d < n \<Longrightarrow> ends b d = (L d, H d, snd (snd (ends ?b0 d)))" for d by simp
  show "m_dim b = n" "m_degree b = g" using f b0 by (simp_all add: same_shape_def)
  show "d < n \<Longrightarrow> pt b d 0 = L d \<and> pt b d 1 = H d" using e [of d] by (simp add: ends_def [of b])
  have "inclusive ?b0" by (rule new_inclusive)
  moreover have "bd b d 0 = bd ?b0 d 0 \<and> bd b d 1 = bd ?b0 d 1" if "d < n" for d using e [OF that] by (simp add: ends_def)
  ultimately have "inclusive b" using f b0 by (simp add: inclusive_def same_shape_def)
  then show "closed_box b" using f b0 assms(1) by (simp add: closed_box_def same_shape_def)
qed

text \<open>How many pieces there are, in reals or in the arithmetic of the code.\<close>

lemma edge_pieces_code:
  assumes "l \<le> h" "0 < v"
  shows "(let size = h - l + 1; dimVal = size sdiv v; remVal = size smod v
          in if remVal > 0 then dimVal + 1 else dimVal) = int (edge_pieces l h v)"
proof -
  have s: "(h - l + 1) sdiv v = (h - l + 1) div v" "(h - l + 1) smod v = (h - l + 1) mod v"
    using assms by (simp_all add: sdiv_nonneg signed_modulo_int_def minus_mult_div_eq_mod mult.commute)
  define q r where "q = (h - l) div v" and "r = (h - l) mod v"
  have qr: "h - l = v * q + r" "0 \<le> r" "r < v" using assms(2) by (simp_all add: q_def r_def)
  have "(h - l + 1) div v + (if (h - l + 1) mod v > 0 then 1 else 0) = q + 1"
  proof (cases "r + 1 < v")
    case True
    then have "(h - l + 1) div v = q" "(h - l + 1) mod v = r + 1"
      using qr int_div_pos_eq [of "h - l + 1" v q "r + 1"] int_mod_pos_eq [of "h - l + 1" v q "r + 1"] by auto
    then show ?thesis using qr(2) by simp
  next
    case False
    then have "h - l + 1 = v * (q + 1) + 0" using qr by (simp add: distrib_left)
    then have "(h - l + 1) div v = q + 1" "(h - l + 1) mod v = 0"
      using assms(2) int_div_pos_eq [of "h - l + 1" v "q + 1" 0] int_mod_pos_eq [of "h - l + 1" v "q + 1" 0] by auto
    then show ?thesis by simp
  qed
  moreover have "0 \<le> (h - l) div v" using assms by (simp add: pos_imp_zdiv_nonneg_iff)
  ultimately show ?thesis unfolding s Let_def edge_pieces_def by (auto simp: q_def)
qed

lemma distinct_sorted_wrt: "distinct xs \<Longrightarrow> sorted_wrt (\<noteq>) xs"
  by (induction xs) auto

lemma foldl_mult: "foldl (\<lambda>n d. n * int (f d)) a ds = a * int (prod_list (map f ds))"
  by (induction ds arbitrary: a) (simp_all add: mult.assoc)

lemma unifPieces_ok:
  assumes "edges_ok low uhgh uval"
  shows "unifPieces low uhgh uval =
    Some (int (prod_list (map (\<lambda>d. edge_pieces (low ! d) (uhgh ! d) (uval ! d)) [0..<length low])))"
proof -
  let ?f = "\<lambda>d. edge_pieces (low ! d) (uhgh ! d) (uval ! d)"
  have "unifPieces low uhgh uval = Some (foldl (\<lambda>n d. n * int (?f d)) 1 [0..<length low])"
    unfolding unifPieces_def
  proof (rule foldM_total)
    fix n d assume "d \<in> set [0..<length low]"
    then have d: "low ! d \<le> uhgh ! d" "0 < uval ! d" "uval ! d \<noteq> 0" using assms by (auto simp: edges_ok_nth)
    show "(if uval ! d = 0 then None
          else let size = uhgh ! d - low ! d + 1; dimVal = size sdiv (uval ! d); remVal = size smod (uval ! d);
                   dimVal = (if remVal > 0 then dimVal + 1 else dimVal) in Some (n * dimVal)) = Some (n * int (?f d))"
      using edge_pieces_code [OF d(1,2)] d(3) by (simp add: Let_def)
  qed
  then show ?thesis by (simp add: foldl_mult)
qed

lemma makeUniformDistro_ok:
  assumes "closed_box outer" "ordered_box outer" "m_dim unif = m_dim outer" "\<forall>d<m_dim outer. 0 \<le> pt unif d 1" "g < 2 ^ 16"
  obtains bs where "makeUniformDistro outer unif (int g) = Some bs" "tiles bs (in_box outer)"
    "length bs = prod_list (map (\<lambda>d. edge_pieces (pt outer d 0) (pt outer d 1) (pt unif d 1 + 1)) [0..<m_dim outer])"
    "\<forall>b\<in>set bs. closed_box b \<and> ordered_box b \<and> m_dim b = m_dim outer \<and> m_degree b = g \<and>
       (\<forall>d<m_dim outer. pt b d 1 - pt b d 0 \<le> pt unif d 1)"
proof -
  let ?n = "m_dim outer"
  let ?low = "map (\<lambda>d. pt outer d 0) [0..<?n]" and ?h = "map (\<lambda>d. pt outer d 1) [0..<?n]"
    and ?v = "map (\<lambda>d. pt unif d 1 + 1) [0..<?n]"
  have n: "0 < ?n" "?n < 2 ^ 16" using assms(1) by (auto simp: closed_box_def wf_box_def)
  have e: "edges_ok ?low ?h ?v" using assms(2,4) by (auto simp: edges_ok_nth ordered_box_def)
  note run = run_corners [OF e] and cf = corners_facts [OF e]
  obtain cs where cs: "corners ?low ?h ?v = ?low # cs"
    using run run_of_nonempty by (cases "corners ?low ?h ?v") auto
  let ?bs = "rev (map (distro_box ?n (int g) ?h ?v) (corners ?low ?h ?v))"
  have box: "closed_box (distro_box ?n (int g) ?h ?v c)" "m_dim (distro_box ?n (int g) ?h ?v c) = ?n"
    "m_degree (distro_box ?n (int g) ?h ?v c) = g"
    "d < ?n \<Longrightarrow> pt (distro_box ?n (int g) ?h ?v c) d 0 = c ! d \<and>
       pt (distro_box ?n (int g) ?h ?v c) d 1 = min (c ! d + ?v ! d - 1) (?h ! d)" for c d
    unfolding distro_box_def by (rule fresh_setPTS [OF n assms(5)]; assumption?)+
  have cell: "in_box (distro_box ?n (int g) ?h ?v c) x \<longleftrightarrow> in_cell c ?h ?v x" if "c \<in> set (corners ?low ?h ?v)" for c x
    using cf that box by (simp add: in_closed in_cell_def)
  have "makeUniformDistro outer unif (int g) = Some ?bs"
    unfolding makeUniformDistro_def Let_def unifPieces_ok [OF e] Option.bind.bind_lunit
    using distro_loop_run [OF run [THEN conjunct1, unfolded cs], of ?n "int g" "[]"] assms(3)
    by (simp only: cs append_Nil2) simp
  moreover have "tiles ?bs (in_box outer)"
    unfolding tiles_def
  proof (intro conjI allI)
    fix x
    have "(\<exists>b\<in>set ?bs. in_box b x) \<longleftrightarrow> (\<exists>c\<in>set (corners ?low ?h ?v). in_cell c ?h ?v x)" using cell by auto
    also have "\<dots> \<longleftrightarrow> in_box outer x" using corners_cover [OF e, of x] in_closed [OF assms(1), of x] by simp
    finally show "(\<exists>b\<in>set ?bs. in_box b x) \<longleftrightarrow> in_box outer x" .
  next
    have "sorted_wrt (\<noteq>) (rev (corners ?low ?h ?v))" using cf by (simp add: distinct_sorted_wrt)
    then show "sorted_wrt (\<lambda>b c. \<forall>x. \<not> (in_box b x \<and> in_box c x)) ?bs"
      unfolding rev_map sorted_wrt_map
      by (rule sorted_wrt_mono_rel [rotated]) (use cell corners_unique [OF e] in auto)
  qed
  moreover have "length ?bs = prod_list (map (\<lambda>d. edge_pieces (pt outer d 0) (pt outer d 1) (pt unif d 1 + 1)) [0..<?n])"
  proof -
    have "map (\<lambda>d. edge_pieces (?low ! d) (?h ! d) (?v ! d)) [0..<length ?low] =
        map (\<lambda>d. edge_pieces (pt outer d 0) (pt outer d 1) (pt unif d 1 + 1)) [0..<?n]"
      by (rule map_cong) auto
    then show ?thesis using cf by (simp only: length_rev length_map)
  qed
  moreover have "\<forall>b\<in>set ?bs. closed_box b \<and> ordered_box b \<and> m_dim b = ?n \<and> m_degree b = g \<and>
       (\<forall>d<?n. pt b d 1 - pt b d 0 \<le> pt unif d 1)"
  proof
    fix b assume "b \<in> set ?bs"
    then obtain c where c: "c \<in> set (corners ?low ?h ?v)" "b = distro_box ?n (int g) ?h ?v c" by auto
    have "c ! d \<le> min (c ! d + ?v ! d - 1) (?h ! d) \<and> min (c ! d + ?v ! d - 1) (?h ! d) - c ! d \<le> pt unif d 1" if d: "d < ?n" for d
      using cf c(1) assms(4) d by auto
    then show "closed_box b \<and> ordered_box b \<and> m_dim b = ?n \<and> m_degree b = g \<and> (\<forall>d<?n. pt b d 1 - pt b d 0 \<le> pt unif d 1)"
      using box [where c = c] c(2) by (simp add: ordered_box_def)
  qed
  ultimately show ?thesis using that by blast
qed

section \<open>Choosing the size of uniform pieces\<close>

text \<open>
  The numbers of pieces on the edges are whole \<open>double\<close>s, here natural numbers; a product beyond the
  amount asked for is undone at once. The dimension to split next is the first with the largest size
  per piece, and 0 when there is none.
\<close>

definition augment_dim :: "nat list \<Rightarrow> nat list \<Rightarrow> bool list \<Rightarrow> nat" where
  "augment_dim pts pcs maxed =
     snd (foldl (\<lambda>(biggestVal, augment) d.
            if \<not> maxed ! d
            then let dsize = of_nat (pts ! d) / of_nat (pcs ! d)
                 in if dsize > biggestVal then (dsize, d) else (biggestVal, augment)
            else (biggestVal, augment)) (0 :: real, 0) [0..<length pts])"

partial_function (option) unif_loop :: "int \<Rightarrow> nat list \<Rightarrow> nat list \<Rightarrow> bool list \<Rightarrow> nat list option" where
  "unif_loop maxAmount pts pcs maxed =
     (if list_all (\<lambda>m. m) maxed then Some pcs
      else let a = augment_dim pts pcs maxed;
               pcs1 = pcs[a := pcs ! a + 1];
               hypothetical_amt = foldl (\<lambda>n d. n * pcs1 ! d) 1 [0..<length pts];
               too_many = int hypothetical_amt > maxAmount;
               maxed2 = (if too_many then maxed[a := True] else maxed);
               pcs2 = (if too_many then pcs1[a := pcs1 ! a - 1] else pcs1);
               maxed3 = (if pcs2 ! a \<ge> pts ! a then maxed2[a := True] else maxed2)
           in unif_loop maxAmount pts pcs2 maxed3)"

definition unif_edge :: "nat \<Rightarrow> nat \<Rightarrow> int" where
  "unif_edge pts pcs = c_trunc (of_int \<lceil>of_nat pts / of_nat pcs :: real\<rceil>) - 1"

definition genUnifBox :: "ivpdomain \<Rightarrow> int \<Rightarrow> ivpbox option" where
  "genUnifBox domain maxAmount =
     (let dm = dom_size domain in
      if maxAmount \<le> 0 \<or> dm = 0 then Some (IvPBox_new 0 0)
      else let pts = map (getVarPoints_i domain) [0..<dm]
           in unif_loop maxAmount pts (replicate dm 1) (replicate dm False) \<bind>
              (\<lambda>pcs. Some (foldl (\<lambda>b d. setPTS d 0 (unif_edge (pts ! d) (pcs ! d)) b)
                       (IvPBox_new (int dm) 0) [0..<dm])))"

lemma foldl_mult_nat: "foldl (\<lambda>n d. n * f d) a ds = a * prod_list (map f ds)" for a :: nat
  by (induction ds arbitrary: a) (simp_all add: mult.assoc)

lemma prod_list_nth: "prod_list (map (\<lambda>d. xs ! d) [0..<length xs]) = prod_list xs" for xs :: "nat list"
  by (simp add: map_nth)

lemma augment_loop:
  fixes biggest :: real
  assumes "\<forall>d\<in>set ds. \<not> maxed ! d \<longrightarrow> 0 < pts ! d \<and> 0 < pcs ! d" "0 \<le> biggest"
    "0 < biggest \<longrightarrow> a < n \<and> \<not> maxed ! a" "\<forall>d\<in>set ds. d < n"
  shows "0 < biggest \<or> (\<exists>d\<in>set ds. \<not> maxed ! d) \<Longrightarrow>
    (case foldl (\<lambda>(biggestVal, augment) d.
            if \<not> maxed ! d
            then let dsize = of_nat (pts ! d) / of_nat (pcs ! d)
                 in if dsize > biggestVal then (dsize, d) else (biggestVal, augment)
            else (biggestVal, augment)) (biggest, a) ds of (b, k) \<Rightarrow> k < n \<and> \<not> maxed ! k)"
  using assms
proof (induction ds arbitrary: biggest a)
  case (Cons d ds)
  show ?case
  proof (cases "maxed ! d")
    case True
    with Cons show ?thesis by simp
  next
    case False
    let ?s = "of_nat (pts ! d) / of_nat (pcs ! d) :: real"
    have s: "0 < ?s" using Cons.prems(2) False by simp
    show ?thesis
    proof (cases "?s > biggest")
      case True
      with Cons.IH [of ?s d] Cons.prems False s show ?thesis by (simp add: Let_def)
    next
      case F: False
      then have "0 < biggest" using s by linarith
      with Cons.IH [of biggest a] Cons.prems False F show ?thesis by (simp add: Let_def)
    qed
  qed
qed auto

lemma augment_dim_open:
  assumes "length maxed = length pts" "length pcs = length pts" "\<not> list_all (\<lambda>m. m) maxed"
    "\<forall>d<length pts. 0 < pts ! d \<and> 0 < pcs ! d"
  shows "augment_dim pts pcs maxed < length pts \<and> \<not> maxed ! augment_dim pts pcs maxed"
proof -
  have "\<exists>d\<in>set [0..<length pts]. \<not> maxed ! d" using assms(1,3) by (auto simp: list_all_length)
  with augment_loop [of "[0..<length pts]" maxed pts pcs 0 0 "length pts"] assms(4)
  show ?thesis unfolding augment_dim_def by (auto split: prod.splits)
qed

definition open_work :: "nat list \<Rightarrow> nat list \<Rightarrow> bool list \<Rightarrow> nat" where
  "open_work pts pcs maxed = (\<Sum>d<length pts. if maxed ! d then 0 else 1 + (pts ! d - pcs ! d))"

lemma open_work_less:
  assumes "a < length pts" "\<not> maxed ! a" "length maxed = length pts" "length pcs = length pts"
    "maxed' = maxed[a := True] \<or> maxed' = maxed \<and> p < pts ! a" "p \<noteq> pcs ! a \<longrightarrow> pcs ! a < p" "maxed' = maxed \<longrightarrow> p \<noteq> pcs ! a"
  shows "open_work pts (pcs[a := p]) maxed' < open_work pts pcs maxed"
  unfolding open_work_def
proof (rule sum_strict_mono_ex1)
  show "\<forall>d\<in>{..<length pts}. (if maxed' ! d then 0 else 1 + (pts ! d - pcs[a := p] ! d))
      \<le> (if maxed ! d then 0 else 1 + (pts ! d - pcs ! d))"
    using assms by (auto simp: nth_list_update)
  have "maxed \<noteq> maxed[a := True]" using assms(1-3) by (metis nth_list_update_eq)
  then show "\<exists>d\<in>{..<length pts}. (if maxed' ! d then 0 else 1 + (pts ! d - pcs[a := p] ! d))
      < (if maxed ! d then 0 else 1 + (pts ! d - pcs ! d))"
    using assms by (intro bexI [of _ a]) auto
qed simp

lemma unif_loop_ok:
  assumes "length maxed = length pts" "length pcs = length pts" "\<forall>p\<in>set pts. 0 < p" "\<forall>p\<in>set pcs. 0 < p"
    "int (prod_list pcs) \<le> maxAmount"
  shows "\<exists>pcs'. unif_loop maxAmount pts pcs maxed = Some pcs' \<and> length pcs' = length pts \<and>
    (\<forall>p\<in>set pcs'. 0 < p) \<and> int (prod_list pcs') \<le> maxAmount"
  using assms
proof (induction "open_work pts pcs maxed" arbitrary: pcs maxed rule: less_induct)
  case less
  show ?case
  proof (cases "list_all (\<lambda>m. m) maxed")
    case True
    with less.prems show ?thesis by (subst unif_loop.simps) simp
  next
    case False
    let ?a = "augment_dim pts pcs maxed" let ?p1 = "pcs[?a := pcs ! ?a + 1]"
    have a: "?a < length pts" "\<not> maxed ! ?a"
      using augment_dim_open [OF less.prems(1,2) False] less.prems(2-4) by auto
    have amt: "foldl (\<lambda>n d. n * ?p1 ! d) 1 [0..<length pts] = prod_list ?p1"
      using prod_list_nth [of ?p1] less.prems(2) by (simp add: foldl_mult_nat)
    define many where "many \<longleftrightarrow> int (prod_list ?p1) > maxAmount"
    define p where "p = (if many then pcs ! ?a else pcs ! ?a + 1)"
    let ?pcs = "pcs[?a := p]"
    define maxed' where "maxed' = (if p \<ge> pts ! ?a then (if many then maxed[?a := True] else maxed)[?a := True]
        else if many then maxed[?a := True] else maxed)"
    have pcs2: "(if many then ?p1[?a := ?p1 ! ?a - 1] else ?p1) = ?pcs" using a(1) less.prems(2) by (simp add: p_def)
    have step: "unif_loop maxAmount pts pcs maxed = unif_loop maxAmount pts ?pcs maxed'"
    proof -
      have "?pcs ! ?a = p" using a(1) less.prems(2) by simp
      then show ?thesis
        unfolding maxed'_def
        by (subst unif_loop.simps) (simp only: if_not_P [OF False] Let_def amt many_def [symmetric] pcs2)
    qed
    have m: "maxed' = maxed[?a := True] \<or> maxed' = maxed \<and> p < pts ! ?a" "maxed' = maxed \<longrightarrow> p \<noteq> pcs ! ?a"
    proof -
      have "maxed[?a := True] \<noteq> maxed" using a less.prems(1) by (metis nth_list_update_eq)
      then show "maxed' = maxed[?a := True] \<or> maxed' = maxed \<and> p < pts ! ?a" "maxed' = maxed \<longrightarrow> p \<noteq> pcs ! ?a"
        by (auto simp: maxed'_def p_def)
    qed
    have "int (prod_list ?pcs) \<le> maxAmount"
      using less.prems(5) by (cases many) (simp_all add: p_def many_def)
    moreover have "\<forall>q\<in>set ?pcs. 0 < q"
      using less.prems(4) a(1) less.prems(2) by (auto simp: p_def dest!: set_update_subset_insert [THEN subsetD])
    moreover have "length maxed' = length pts" using less.prems(1) by (simp add: maxed'_def)
    moreover have "open_work pts ?pcs maxed' < open_work pts pcs maxed"
      by (rule open_work_less [OF a less.prems(1,2) m(1) _ m(2)]) (simp add: p_def)
    ultimately show ?thesis using less.hyps [of ?pcs maxed'] less.prems(2,3) step by simp
  qed
qed

text \<open>Pieces of the chosen edge: no more of them than counted.\<close>

lemma unif_edge_pieces:
  assumes "0 < pts" "0 < pcs"
  shows "0 \<le> unif_edge pts pcs" "edge_pieces 0 (int pts - 1) (unif_edge pts pcs + 1) \<le> pcs"
proof -
  let ?c = "\<lceil>of_nat pts / of_nat pcs :: real\<rceil>"
  have "0 < (of_nat pts / of_nat pcs :: real)" using assms by simp
  then have c: "0 < ?c" by simp
  have e: "unif_edge pts pcs + 1 = ?c" by (simp add: unif_edge_def)
  then show "0 \<le> unif_edge pts pcs" using c by linarith
  have "of_nat pts / of_nat pcs \<le> (of_int ?c :: real)" by (rule le_of_int_ceiling)
  then have "of_nat pts \<le> of_int ?c * (of_nat pcs :: real)" using assms(2) by (subst (asm) pos_divide_le_eq) simp_all
  then have "of_nat pts \<le> (of_int (int pcs * ?c) :: real)" by (simp only: of_int_mult of_int_of_nat_eq mult.commute)
  then have "int pts \<le> int pcs * ?c" by linarith
  then have "int pts - 1 < int pcs * ?c" by simp
  moreover have "(int pts - 1) div ?c * ?c \<le> int pts - 1" using pos_mod_sign [OF c, of "int pts - 1"] unfolding minus_mod_eq_div_mult [symmetric] by linarith
  ultimately have "(int pts - 1) div ?c * ?c < int pcs * ?c" by (simp only: order.strict_trans1)
  then have "(int pts - 1) div ?c < int pcs" using c by (simp only: mult_less_cancel_right)
  then show "edge_pieces 0 (int pts - 1) (unif_edge pts pcs + 1) \<le> pcs" unfolding e by (simp add: edge_pieces_def)
qed

lemma domainToBox_facts:
  assumes "0 < dom_size D" "dom_size D < 2 ^ 16"
  shows "closed_box (domainToBox D)" "m_dim (domainToBox D) = dom_size D"
    "d < dom_size D \<Longrightarrow> pt (domainToBox D) d 0 = 0 \<and> pt (domainToBox D) d 1 = int (getVarPoints_i D d) - 1"
  using fresh_setPTS [OF assms, where g = 0 and L = "\<lambda>_. 0" and H = "\<lambda>i. int (getVarPoints_i D i) - 1"]
  by (simp_all add: domainToBox_def)

lemma prod_list_mono: "list_all2 (\<le>) xs ys \<Longrightarrow> prod_list xs \<le> prod_list ys" for xs ys :: "nat list"
  by (induction xs ys rule: list_all2_induct) (simp_all add: mult_le_mono)

lemma genUnifBox_ok:
  assumes "valid_domain D" "0 < dom_size D" "dom_size D < 2 ^ 16" "0 < n"
  obtains ub where "genUnifBox D n = Some ub" "m_dim ub = dom_size D" "closed_box ub"
    "\<forall>d<dom_size D. 0 \<le> pt ub d 1"
    "int (prod_list (map (\<lambda>d. edge_pieces 0 (int (getVarPoints_i D d) - 1) (pt ub d 1 + 1)) [0..<dom_size D])) \<le> n"
proof -
  let ?k = "dom_size D" let ?pts = "map (getVarPoints_i D) [0..<?k]"
  have pts: "\<forall>p\<in>set ?pts. 0 < p"
    using assms(1) by (auto simp: valid_domain_def valid_var_def getVarPoints_i_def dom_size_def)
  have one: "int (prod_list (replicate ?k 1)) \<le> n" using assms(4) by (simp add: prod_list_replicate)
  obtain pcs where pcs: "unif_loop n ?pts (replicate ?k 1) (replicate ?k False) = Some pcs" "length pcs = ?k"
    "\<forall>p\<in>set pcs. 0 < p" "int (prod_list pcs) \<le> n"
  proof -
    have "\<exists>pcs. unif_loop n ?pts (replicate ?k 1) (replicate ?k False) = Some pcs \<and> length pcs = length ?pts \<and>
        (\<forall>p\<in>set pcs. 0 < p) \<and> int (prod_list pcs) \<le> n"
      by (rule unif_loop_ok [OF _ _ pts _ one]) simp_all
    then show ?thesis using that by (auto simp del: replicate.simps)
  qed
  let ?ub = "foldl (\<lambda>b d. setPTS d 0 (unif_edge (?pts ! d) (pcs ! d)) b) (IvPBox_new (int ?k) (int 0)) [0..<?k]"
  note f = fresh_setPTS [OF assms(2,3), where g = 0 and L = "\<lambda>_. 0" and H = "\<lambda>d. unif_edge (?pts ! d) (pcs ! d)"]
  have ub: "closed_box ?ub" "m_dim ?ub = ?k" "\<And>d. d < ?k \<Longrightarrow> pt ?ub d 1 = unif_edge (?pts ! d) (pcs ! d)"
    using f by simp_all
  have pos: "0 < ?pts ! d" "0 < pcs ! d" if "d < ?k" for d
    using pts pcs(2,3) that by auto
  have e: "0 \<le> pt ?ub d 1 \<and> edge_pieces 0 (int (getVarPoints_i D d) - 1) (pt ?ub d 1 + 1) \<le> pcs ! d" if d: "d < ?k" for d
    unfolding ub(3) [OF d] using unif_edge_pieces [OF pos [OF d]] d by simp
  have "prod_list (map (\<lambda>d. edge_pieces 0 (int (getVarPoints_i D d) - 1) (pt ?ub d 1 + 1)) [0..<?k]) \<le> prod_list pcs"
    by (rule prod_list_mono) (use e pcs(2) in \<open>simp add: list_all2_conv_all_nth\<close>)
  then have "int (prod_list (map (\<lambda>d. edge_pieces 0 (int (getVarPoints_i D d) - 1) (pt ?ub d 1 + 1)) [0..<?k])) \<le> n"
    using pcs(4) by linarith
  moreover have "genUnifBox D n = Some ?ub" using assms(2,4) pcs(1) by (simp add: genUnifBox_def Let_def)
  ultimately show ?thesis using that ub(1,2) e by blast
qed

section \<open>Properties\<close>



text \<open>C39: \<open>subtractBox\<close> leaves nonempty boxes that share no point and together hold exactly the points of the
  first box that are not in the second, with the interior function of the first. Both boxes have
  inclusive ends.\<close>

theorem subtractBox_partition:
  assumes "wf_box orig" "wf_box sub" "inclusive orig" "inclusive sub" "ordered_box orig" "ordered_box sub"
    "m_dim sub = m_dim orig" "0 < m_dim orig"
  shows "\<exists>bs. subtractBox orig sub = Some bs \<and>
    (\<forall>x. (\<exists>b\<in>set bs. in_box b x) \<longleftrightarrow> in_box orig x \<and> \<not> in_box sub x) \<and>
    sorted_wrt (\<lambda>b c. \<forall>x. \<not> (in_box b x \<and> in_box c x)) bs \<and>
    (\<forall>b\<in>set bs. (\<exists>x. in_box b x) \<and> (m_degree orig \<le> 2 \<longrightarrow> (\<forall>x. ival b x = ival orig x)))"
proof -
  have c: "closed_box orig" "closed_box sub" using assms by (simp_all add: closed_box_def)
  obtain bs where bs: "subtractBox orig sub = Some bs" "tiles bs (\<lambda>x. in_box orig x \<and> \<not> in_box sub x)"
    "\<forall>b\<in>set bs. closed_box b \<and> ordered_box b \<and> payload b = payload orig"
    by (rule subtractBox_tiles [OF c(1) assms(5) c(2) assms(6,7)])
  have "(\<exists>x. in_box b x) \<and> (m_degree orig \<le> 2 \<longrightarrow> (\<forall>x. ival b x = ival orig x))" if "b \<in> set bs" for b
    using bs(3) that closed_nonempty [of b] payload_ival [of b orig] by (auto simp: payload_def)
  with bs(1,2) show ?thesis unfolding tiles_def by blast
qed

theorem subtractBox_partition_witness:
  "\<exists>bs. subtractBox (domainToBox ex_dom) (point_box 2 0 (\<lambda>_. 4)) = Some bs \<and>
     (\<exists>b\<in>set bs. in_box b (\<lambda>_. 5)) \<and> \<not> (\<exists>b\<in>set bs. in_box b (\<lambda>_. 4))"
proof -
  have p: "getVarPoints_i ex_dom 0 = 360" "getVarPoints_i ex_dom 1 = 11"
    using ex_dom_facts by (simp_all add: getVarPoints_i_def)
  have D: "0 < dom_size ex_dom" "dom_size ex_dom < 2 ^ 16" by (simp_all add: ex_dom_facts)
  note d = domainToBox_facts [OF D]
  have d0: "pt (domainToBox ex_dom) 0 0 = 0" "pt (domainToBox ex_dom) 0 1 = 359" "pt (domainToBox ex_dom) 1 0 = 0"
    "pt (domainToBox ex_dom) 1 1 = 10" using d(3) [of 0] d(3) [of 1] p by (simp_all add: ex_dom_facts)
  have o: "ordered_box (domainToBox ex_dom)" using d(2) d0 by (simp add: ordered_box_def ex_dom_facts less_2_cases_iff)
  have b: "wf_box (point_box 2 0 (\<lambda>_. 4))" "m_dim (point_box 2 0 (\<lambda>_. 4)) = 2" "at_point (point_box 2 0 (\<lambda>_. 4)) (\<lambda>_. 4)"
    by (simp_all add: point_box_facts(1,2) at_point_box)
  have i: "inclusive (point_box 2 0 (\<lambda>_. 4))" "ordered_box (point_box 2 0 (\<lambda>_. 4))"
    using b by (simp_all add: inclusive_def ordered_box_def at_point_ends)
  have "\<exists>bs. subtractBox (domainToBox ex_dom) (point_box 2 0 (\<lambda>_. 4)) = Some bs \<and>
    (\<forall>x. (\<exists>b\<in>set bs. in_box b x) \<longleftrightarrow> in_box (domainToBox ex_dom) x \<and> \<not> in_box (point_box 2 0 (\<lambda>_. 4)) x) \<and>
    sorted_wrt (\<lambda>b c. \<forall>x. \<not> (in_box b x \<and> in_box c x)) bs \<and>
    (\<forall>b\<in>set bs. (\<exists>x. in_box b x) \<and> (m_degree (domainToBox ex_dom) \<le> 2 \<longrightarrow> (\<forall>x. ival b x = ival (domainToBox ex_dom) x)))"
    by (rule subtractBox_partition) (use d(1,2) o b(1,2) i in \<open>simp_all add: closed_box_def ex_dom_facts\<close>)
  moreover have "in_box (domainToBox ex_dom) (\<lambda>_. 5)"
    using in_closed [OF d(1), of "\<lambda>_. 5"] d(2) d0 by (simp add: ex_dom_facts less_2_cases_iff)
  moreover have "in_box (point_box 2 0 (\<lambda>_. 4)) (\<lambda>_. 4)" "\<not> in_box (point_box 2 0 (\<lambda>_. 4)) (\<lambda>_. 5)"
    using b i by (auto simp: inclusive_in_box in_closure_def at_point_ends intro!: exI [of _ 0])
  ultimately show ?thesis by blast
qed

text \<open>Cutting a box with inclusive ends. \<open>cutBox\<close> splits it into halves that differ by at most one
  layer, and refuses an edge of one point. \<open>quarterBox\<close> splits as well, except at the high end of an edge of three
  or four points: there the old box stays whole and the new one is empty, since the
  length of the first part is used as the offset of its last point.\<close>

theorem box_cuts:
  assumes "wf_box b" "inclusive b" "d < m_dim b" "pt b d 0 < pt b d 1"
  shows "(\<exists>old new h. cutBox b d = Some (old, Some new) \<and> pt b d 0 \<le> h \<and> h < pt b d 1 \<and>
      \<bar>(h - pt b d 0 + 1) - (pt b d 1 - h)\<bar> \<le> 1 \<and>
      (\<forall>x. in_box old x \<longleftrightarrow> in_box b x \<and> x d \<le> h) \<and> (\<forall>x. in_box new x \<longleftrightarrow> in_box b x \<and> h < x d)) \<and>
    (\<exists>old new h. quarterBox b d high = Some (old, Some new) \<and> pt b d 0 \<le> h \<and>
      (\<forall>x. in_box new x \<longleftrightarrow> in_box b x \<and> h < x d) \<and>
      (if high \<and> pt b d 1 - pt b d 0 + 1 \<in> {3, 4} then h = pt b d 1 \<and> (\<forall>x. in_box old x \<longleftrightarrow> in_box b x) \<and> (\<forall>x. \<not> in_box new x)
       else h < pt b d 1 \<and> (\<forall>x. in_box old x \<longleftrightarrow> in_box b x \<and> x d \<le> h)))"
proof
  have c: "closed_box b" using assms by (auto simp: closed_box_def)
  have ne: "\<not> pt b d 1 \<le> pt b d 0" using assms(4) by simp
  obtain old new h where o: "cutBox b d = Some (old, Some new)" "pt b d 0 \<le> h" "h < pt b d 1"
    "2 * (h - pt b d 0 + 1) \<in> {pt b d 1 - pt b d 0 + 1, pt b d 1 - pt b d 0 + 2}"
    "\<forall>x. in_box old x \<longleftrightarrow> in_box b x \<and> x d \<le> h" "\<forall>x. in_box new x \<longleftrightarrow> in_box b x \<and> h < x d"
    using cutBox_ok [OF c assms(3)] unfolding if_not_P [OF ne] by blast
  have "\<bar>(h - pt b d 0 + 1) - (pt b d 1 - h)\<bar> \<le> 1" using o(4) by auto
  with o show "\<exists>old new h. cutBox b d = Some (old, Some new) \<and> pt b d 0 \<le> h \<and> h < pt b d 1 \<and>
      \<bar>(h - pt b d 0 + 1) - (pt b d 1 - h)\<bar> \<le> 1 \<and>
      (\<forall>x. in_box old x \<longleftrightarrow> in_box b x \<and> x d \<le> h) \<and> (\<forall>x. in_box new x \<longleftrightarrow> in_box b x \<and> h < x d)" by blast
  let ?n = "pt b d 1 - pt b d 0 + 1"
  define h where "h = pt b d 0 + quarter_end ?n high"
  let ?old = "set_bd d 1 True (set_pt d 1 h b)" and ?new = "set_bd d 0 True (set_pt d 0 (h + 1) b)"
  have q: "quarterBox b d high = Some (?old, Some ?new)"
    unfolding h_def by (rule quarterBox_eq [OF c assms(3,4)])
  have "0 \<le> quarter_end n high" for n by (auto simp: quarter_end_def max_def)
  then have low: "pt b d 0 \<le> h" by (simp add: h_def)
  have le: "pt b d 0 \<le> pt b d 1" using assms(4) by simp
  note cut = cut_behind [OF c assms(3) low le]
  have e: "if high \<and> ?n \<in> {3, 4} then h = pt b d 1 else h < pt b d 1"
  proof -
    define n where "n = ?n"
    have "2 \<le> n" using assms(4) by (simp add: n_def)
    then have "if high \<and> n \<in> {3, 4} then quarter_end n high = n - 1 else quarter_end n high < n - 1"
      by (cases high; cases "n = 2"; cases "n = 3"; cases "n = 4") (auto simp: quarter_end_def)
    then show ?thesis by (auto simp: h_def n_def)
  qed
  have hi: "h \<le> pt b d 1" using e by (auto split: if_splits)
  have top: "in_box b x \<Longrightarrow> x d \<le> pt b d 1" for x using in_closed [OF c, of x] assms(3) by simp
  have r: "in_box ?new x \<longleftrightarrow> in_box b x \<and> h < x d" "in_box ?old x \<longleftrightarrow> in_box b x \<and> x d \<le> h" for x
    using cut(5) cut(6) [OF hi] by blast+
  have "if high \<and> ?n \<in> {3, 4} then h = pt b d 1 \<and> (\<forall>x. in_box ?old x \<longleftrightarrow> in_box b x) \<and> (\<forall>x. \<not> in_box ?new x)
       else h < pt b d 1 \<and> (\<forall>x. in_box ?old x \<longleftrightarrow> in_box b x \<and> x d \<le> h)"
    using e r top by (auto split: if_splits simp: not_less)
  with q low r(1) show "\<exists>old new h. quarterBox b d high = Some (old, Some new) \<and> pt b d 0 \<le> h \<and>
      (\<forall>x. in_box new x \<longleftrightarrow> in_box b x \<and> h < x d) \<and>
      (if high \<and> ?n \<in> {3, 4} then h = pt b d 1 \<and> (\<forall>x. in_box old x \<longleftrightarrow> in_box b x) \<and> (\<forall>x. \<not> in_box new x)
       else h < pt b d 1 \<and> (\<forall>x. in_box old x \<longleftrightarrow> in_box b x \<and> x d \<le> h))" by blast
qed

theorem box_cuts_witness:
  "\<exists>old new old' new'. cutBox (domainToBox ex_dom) 1 = Some (old, Some new) \<and>
     quarterBox (domainToBox ex_dom) 1 True = Some (old', Some new') \<and>
     in_box old (\<lambda>_. 0) \<and> \<not> in_box new (\<lambda>_. 0) \<and> in_box new (\<lambda>_. 10) \<and> \<not> in_box old (\<lambda>_. 10) \<and>
     in_box old' (\<lambda>_. 0) \<and> \<not> in_box new' (\<lambda>_. 0) \<and> in_box new' (\<lambda>_. 10) \<and> \<not> in_box old' (\<lambda>_. 10)"
proof -
  have p: "getVarPoints_i ex_dom 0 = 360" "getVarPoints_i ex_dom 1 = 11"
    using ex_dom_facts by (simp_all add: getVarPoints_i_def)
  have D: "0 < dom_size ex_dom" "dom_size ex_dom < 2 ^ 16" by (simp_all add: ex_dom_facts)
  note d = domainToBox_facts [OF D]
  have d0: "pt (domainToBox ex_dom) 0 0 = 0" "pt (domainToBox ex_dom) 0 1 = 359" "pt (domainToBox ex_dom) 1 0 = 0"
    "pt (domainToBox ex_dom) 1 1 = 10" using d(3) [of 0] d(3) [of 1] p by (simp_all add: ex_dom_facts)
  have w: "wf_box (domainToBox ex_dom)" "inclusive (domainToBox ex_dom)" "1 < m_dim (domainToBox ex_dom)"
    "pt (domainToBox ex_dom) 1 0 < pt (domainToBox ex_dom) 1 1"
    using d d0 by (simp_all add: closed_box_def ex_dom_facts)
  have i: "in_box (domainToBox ex_dom) (\<lambda>_. 0)" "in_box (domainToBox ex_dom) (\<lambda>_. 10)"
    using in_closed [OF d(1), of "\<lambda>_. 0"] in_closed [OF d(1), of "\<lambda>_. 10"] d(2) d0
    by (simp_all add: ex_dom_facts less_2_cases_iff)
  have n: "\<not> (True \<and> pt (domainToBox ex_dom) 1 1 - pt (domainToBox ex_dom) 1 0 + 1 \<in> {3, 4})" using d0 by simp
  note c = box_cuts [OF w, of True, unfolded if_not_P [OF n]]
  obtain old new h where o: "cutBox (domainToBox ex_dom) 1 = Some (old, Some new)" "0 \<le> h" "h < 10"
    "\<And>x. in_box old x \<longleftrightarrow> in_box (domainToBox ex_dom) x \<and> x 1 \<le> h"
    "\<And>x. in_box new x \<longleftrightarrow> in_box (domainToBox ex_dom) x \<and> h < x 1"
    using conjunct1 [OF c] unfolding d0 by blast
  obtain old' new' h' where q: "quarterBox (domainToBox ex_dom) 1 True = Some (old', Some new')" "0 \<le> h'" "h' < 10"
    "\<And>x. in_box old' x \<longleftrightarrow> in_box (domainToBox ex_dom) x \<and> x 1 \<le> h'"
    "\<And>x. in_box new' x \<longleftrightarrow> in_box (domainToBox ex_dom) x \<and> h' < x 1"
    using conjunct2 [OF c] unfolding d0 by blast
  show ?thesis using o q i by (intro exI [of _ old] exI [of _ new] exI [of _ old'] exI [of _ new']) simp
qed

end
