(* ===== verification/Box_Strings.thy ===== *)
theory Box_Strings
  imports Build_Utils MB_Values
begin

text \<open>
  The functions of \<open>src/ivp/src/lib_ivpbuild/BuildUtils.cpp\<close> that print domains and read domains and
  boxes from text. A number of points read from text is an \<open>int\<close> that is passed as an \<open>unsigned int\<close>;
  a division by a step of 0 has no value.
\<close>

section \<open>Domains\<close>

definition domainToString :: "ivpdomain \<Rightarrow> bool \<Rightarrow> string" where
  "domainToString domain full_version =
     foldl (\<lambda>return_string i.
         let s = return_string @ getVarName domain i;
             s = (if full_version
                  then s @ '','' @ dstringCompact (doubleToString (getVarLow_i domain i) 5)
                         @ '','' @ dstringCompact (doubleToString (getVarHigh_i domain i) 5)
                         @ '','' @ intToString (int (getVarPoints_i domain i))
                  else s)
         in if i < dom_size domain - 1 then s @ '':'' else s) '''' [0..<dom_size domain]"

text \<open>One chunk of a description, or nothing when it is no variable.\<close>

definition domain_chunk :: "ivpdomain \<Rightarrow> string \<Rightarrow> ivpdomain option" where
  "domain_chunk good_domain s =
     (let svector2 = parseString (stripBlankEnds s) (CHR '','')
      in if length svector2 \<noteq> 4 then None
         else let (ok, D) = addDomain (c_str (svector2 ! 0)) (atof (svector2 ! 1)) (atof (svector2 ! 2))
                              (nat (atoi (svector2 ! 3) mod 2 ^ 32)) good_domain
              in if ok then Some D else None)"

definition stringToDomain :: "string \<Rightarrow> ivpdomain" where
  "stringToDomain domain_descriptor =
     (case foldM domain_chunk empty_domain (parseString domain_descriptor (CHR '':'')) of
        Some good_domain \<Rightarrow> good_domain | None \<Rightarrow> empty_domain)"

definition subDomain :: "ivpdomain \<Rightarrow> string \<Rightarrow> ivpdomain" where
  "subDomain domain vars =
     (let svector = parseString vars (CHR '','')
      in if list_ex (\<lambda>s. \<not> hasDomain domain s) svector then empty_domain
         else foldl (\<lambda>D s. snd (addDomain_from domain s D)) empty_domain svector)"

definition boxToDomain :: "ivpbox \<Rightarrow> ivpdomain" where
  "boxToDomain box =
     (if m_dim box = 0 then empty_domain
      else case foldM (\<lambda>D i. let (ok, D') = addDomain (intToString (int i)) (of_int (pt box i 0)) (of_int (pt box i 1))
                                         (nat ((pt box i 1 - pt box i 0 + 1) mod 2 ^ 32)) D
                             in if ok then Some D' else None) empty_domain [0..<m_dim box] of
             Some good_domain \<Rightarrow> good_domain | None \<Rightarrow> empty_domain)"

definition stringToBox :: "string \<Rightarrow> ivpbox" where
  "stringToBox str = domainToBox (stringToDomain str)"

section \<open>Boxes\<close>

definition null_ivpbox :: ivpbox where
  "null_ivpbox = IvPBox_new 0 0"

text \<open>The box with the given ends.\<close>

definition ends_box :: "(int \<times> int) list \<Rightarrow> ivpbox" where
  "ends_box es = foldl (\<lambda>b i. set_pt i 1 (snd (es ! i)) (set_pt i 0 (fst (es ! i)) b))
     (IvPBox_new (int (length es)) 0) [0..<length es]"

text \<open>The chunks of a description, each split into its trimmed fields in lower case.\<close>

definition tuple_fields :: "string \<Rightarrow> char \<Rightarrow> char \<Rightarrow> string list list" where
  "tuple_fields given_str gsep lsep =
     map (\<lambda>s. map (\<lambda>f. tolower (stripBlankEnds f)) (parseString (stripBlankEnds s) lsep)) (parseString given_str gsep)"

definition point_extent :: "string \<Rightarrow> ivpdomain \<Rightarrow> char \<Rightarrow> char \<Rightarrow> nat \<Rightarrow> int option" where
  "point_extent given_str domain gsep lsep i =
     (let (ok, strval) = tokParse given_str (getVarName domain i) gsep lsep;
          strval = stripBlankEnds strval
      in if \<not> ok \<or> \<not> isNumber strval True then None
         else let extent = atoi strval; varpts = int (getVarPoints_i domain i)
              in if extent \<le> 0 then None else Some (if extent > varpts then varpts else extent))"

definition stringDiscreteToPointBox :: "string \<Rightarrow> ivpdomain \<Rightarrow> char \<Rightarrow> char \<Rightarrow> ivpbox" where
  "stringDiscreteToPointBox given_str domain gsep lsep =
     (if given_str = '''' then null_ivpbox
      else case those (map (point_extent given_str domain gsep lsep) [0..<dom_size domain]) of
             None \<Rightarrow> null_ivpbox
           | Some extents \<Rightarrow> ends_box (map (\<lambda>e. (e - 1, e - 1)) extents))"

text \<open>What the chunks say of one variable: whether it is there, and its native value.\<close>

definition native_point :: "ivpdomain \<Rightarrow> string list list \<Rightarrow> nat \<Rightarrow> bool \<times> real" where
  "native_point domain chunks i =
     foldl (\<lambda>(legal, val) svector2.
         if length svector2 = 2 \<and> svector2 ! 0 = tolower (getVarName domain i)
         then if svector2 ! 1 = ''all'' then (True, getVarHigh_i domain i)
              else if isNumber (svector2 ! 1) True
              then let fval = atof (svector2 ! 1); dom_low_i = getVarLow_i domain i; dom_high_i = getVarHigh_i domain i
                   in (True, if fval > dom_high_i then dom_high_i else if fval < dom_low_i then dom_low_i else fval)
              else (legal, val)
         else (legal, val)) (False, 0) chunks"

definition stringNativeToPointBox :: "string \<Rightarrow> ivpdomain \<Rightarrow> char \<Rightarrow> char \<Rightarrow> ivpbox option" where
  "stringNativeToPointBox given_str domain gsep lsep =
     (if given_str = '''' then Some null_ivpbox
      else let dvar = map (native_point domain (tuple_fields given_str gsep lsep)) [0..<dom_size domain]
           in if list_ex (\<lambda>v. \<not> fst v) dvar then Some null_ivpbox
              else foldM (\<lambda>es i. if getVarDelta_i domain i = 0 then None
                                 else let val = snd (dvar ! i) / getVarDelta_i domain i + 0.5; n = c_trunc val - 1
                                      in Some (es @ [(n, n)])) [] [0..<dom_size domain] \<bind>
                   (\<lambda>es. Some (ends_box es)))"

text \<open>The preface; \<open>svector[1]\<close> is read without a look at the length when a region has no preface.\<close>

definition stringToPointBox :: "string \<Rightarrow> ivpdomain \<Rightarrow> char \<Rightarrow> char \<Rightarrow> ivpbox option" where
  "stringToPointBox given_str domain gsep lsep =
     (let svector = parseString given_str (CHR ''@''); vsize = length svector
      in if vsize = 0 \<or> vsize > 2 then Some null_ivpbox
         else if vsize = 1 then stringNativeToPointBox given_str domain gsep lsep
         else let preface = tolower (stripBlankEnds (svector ! 0)); remainder = stripBlankEnds (svector ! 1)
              in if preface = ''discrete'' then Some (stringDiscreteToPointBox remainder domain gsep lsep)
                 else if preface = ''float'' \<or> preface = ''native'' then stringNativeToPointBox remainder domain gsep lsep
                 else Some null_ivpbox)"

definition native_region :: "ivpdomain \<Rightarrow> string list list \<Rightarrow> nat \<Rightarrow> bool \<times> real \<times> real" where
  "native_region domain chunks i =
     foldl (\<lambda>(legal, val_low, val_high) svector2.
         if length svector2 > 0 \<and> svector2 ! 0 = tolower (getVarName domain i)
         then if length svector2 = 2 \<and> svector2 ! 1 = ''all'' then (True, val_low, val_high)
              else if length svector2 = 3 \<and> isNumber (svector2 ! 1) True \<and> isNumber (svector2 ! 2) True
              then let lval = atof (svector2 ! 1); hval = atof (svector2 ! 2)
                   in (if lval \<le> hval \<and> lval \<le> val_high \<and> hval \<ge> val_low then True else legal, lval, hval)
              else (legal, val_low, val_high)
         else (legal, val_low, val_high)) (False, getVarLow_i domain i, getVarHigh_i domain i) chunks"

definition stringNativeToRegionBox :: "string \<Rightarrow> ivpdomain \<Rightarrow> char \<Rightarrow> char \<Rightarrow> ivpbox" where
  "stringNativeToRegionBox given_str domain gsep lsep =
     (if given_str = '''' then null_ivpbox
      else let dvar = map (native_region domain (tuple_fields given_str gsep lsep)) [0..<dom_size domain]
           in if list_ex (\<lambda>v. \<not> fst v) dvar then null_ivpbox
              else ends_box (map (\<lambda>i. (getDiscreteVal domain i (fst (snd (dvar ! i))) 1,
                                       getDiscreteVal domain i (snd (snd (dvar ! i))) 0)) [0..<dom_size domain]))"

definition discrete_region :: "ivpdomain \<Rightarrow> string list list \<Rightarrow> nat \<Rightarrow> bool \<times> int \<times> int" where
  "discrete_region domain chunks i =
     foldl (\<lambda>(legal, low, high) svector2.
         if length svector2 > 0 \<and> svector2 ! 0 = tolower (getVarName domain i)
         then if length svector2 = 2 \<and> svector2 ! 1 = ''all'' then (True, low, high)
              else if length svector2 = 3 \<and> isNumber (svector2 ! 1) True \<and> isNumber (svector2 ! 2) True
              then let lval = atoi (svector2 ! 1); hval = atoi (svector2 ! 2); top = int (getVarPoints_i domain i) - 1
                   in (if lval \<le> hval \<and> hval \<ge> 0 \<and> lval \<le> top then True else legal,
                       if lval < 0 then 0 else lval, if hval > top then top else hval)
              else (legal, low, high)
         else (legal, low, high)) (False, 0, 0) chunks"

definition stringDiscreteToRegionBox :: "string \<Rightarrow> ivpdomain \<Rightarrow> char \<Rightarrow> char \<Rightarrow> ivpbox" where
  "stringDiscreteToRegionBox given_str domain gsep lsep =
     (if given_str = '''' then null_ivpbox
      else let dvar = map (discrete_region domain (tuple_fields given_str gsep lsep)) [0..<dom_size domain]
           in if list_ex (\<lambda>v. \<not> fst v) dvar then null_ivpbox else ends_box (map snd dvar))"

definition stringToRegionBox :: "string \<Rightarrow> ivpdomain \<Rightarrow> char \<Rightarrow> char \<Rightarrow> ivpbox option" where
  "stringToRegionBox given_str domain gsep lsep =
     (let svector = parseString given_str (CHR ''@''); vsize = length svector
      in if vsize = 0 \<or> vsize > 2 then Some null_ivpbox
         else if vsize = 1 then None
         else let preface = tolower (stripBlankEnds (svector ! 0)); remainder = stripBlankEnds (svector ! 1)
              in if preface = ''discrete'' then Some (stringDiscreteToRegionBox remainder domain gsep lsep)
                 else if preface = ''float'' \<or> preface = ''native'' then Some (stringNativeToRegionBox remainder domain gsep lsep)
                 else Some null_ivpbox)"

section \<open>Numbers in text\<close>

lemma printf_f_chars: "set (printf_f d x) \<subseteq> {c. is_digit c} \<union> {CHR ''-'', CHR ''.''}"
proof -
  have z: "set (zero_pad k (nat_str n)) \<subseteq> {c. is_digit c}" for k n
    using nat_str_digits(1) [of n] by (auto simp: zero_pad_def is_digit_def)
  have n: "c \<in> set (nat_str n) \<Longrightarrow> is_digit c" for c n using nat_str_digits(1) [of n] by auto
  have z': "c \<in> set (zero_pad k (nat_str n)) \<Longrightarrow> is_digit c" for c k n using z [of k n] by auto
  show ?thesis unfolding printf_f_def Let_def by (auto dest!: n z' split: if_splits)
qed

lemma compact_rev_set: "set (compact_rev s) \<subseteq> set s"
  by (induction s rule: compact_rev.induct) auto

lemma dstringCompact_set: "set (dstringCompact s) \<subseteq> set s"
  using compact_rev_set [of "rev s"] by (auto simp: dstringCompact_def)

text \<open>A value as the printers of the helm write it, and as it is read back.\<close>

definition reread :: "real \<Rightarrow> real" where
  "reread v = atof (printf_f 5 v)"

lemma doubleToString_5: "v \<le> 2 ^ 128 \<Longrightarrow> doubleToString v 5 = printf_f 5 v"
  by (simp add: doubleToString_def)

lemma compact_value: "v \<le> 2 ^ 128 \<Longrightarrow> atof (dstringCompact (doubleToString v 5)) = reread v"
  by (simp add: doubleToString_5 dstringCompact_printf_f reread_def)

lemma compact_chars: "v \<le> 2 ^ 128 \<Longrightarrow> set (dstringCompact (doubleToString v 5)) \<subseteq> {c. is_digit c} \<union> {CHR ''-'', CHR ''.''}"
  using dstringCompact_set [of "printf_f 5 v"] printf_f_chars [of 5 v] by (auto simp: doubleToString_5)

lemma reread_close: "\<bar>reread v - v\<bar> \<le> 1 / (2 * 10 ^ 5)"
  using printed_close [of v 5] by (simp add: reread_def atof_printf_f)

lemma round_even_mono: "x \<le> y \<Longrightarrow> round_even x \<le> round_even y"
proof -
  assume le: "x \<le> y"
  have f: "\<lfloor>x\<rfloor> \<le> \<lfloor>y\<rfloor>" using le by (rule floor_mono)
  show ?thesis
  proof (cases "\<lfloor>x\<rfloor> = \<lfloor>y\<rfloor>")
    case True
    then show ?thesis using le by (auto simp: round_even_def Let_def)
  next
    case False
    with f have "\<lfloor>x\<rfloor> + 1 \<le> \<lfloor>y\<rfloor>" by simp
    then show ?thesis by (auto simp: round_even_def Let_def)
  qed
qed

lemma round_even_int: "round_even (of_int n) = n"
  by (simp add: round_even_def)

lemma reread_eq: "reread v = of_int (if v < 0 then - round_even (\<bar>v\<bar> * 10 ^ 5) else round_even (\<bar>v\<bar> * 10 ^ 5)) / 10 ^ 5"
  using round_even_nonneg [of "\<bar>v\<bar> * 10 ^ 5"] by (simp add: reread_def atof_printf_f printed_def)

lemma reread_mono: "v \<le> w \<Longrightarrow> reread v \<le> reread w"
proof -
  assume le: "v \<le> w"
  have "(if v < 0 then - round_even (\<bar>v\<bar> * 10 ^ 5) else round_even (\<bar>v\<bar> * 10 ^ 5))
      \<le> (if w < 0 then - round_even (\<bar>w\<bar> * 10 ^ 5) else round_even (\<bar>w\<bar> * 10 ^ 5))"
    using round_even_mono [of "\<bar>v\<bar> * 10 ^ 5" "\<bar>w\<bar> * 10 ^ 5"] round_even_mono [of "\<bar>w\<bar> * 10 ^ 5" "\<bar>v\<bar> * 10 ^ 5"]
      round_even_nonneg [of "\<bar>v\<bar> * 10 ^ 5"] round_even_nonneg [of "\<bar>w\<bar> * 10 ^ 5"] le by auto
  then show ?thesis unfolding reread_eq by (intro divide_right_mono) (simp_all only: of_int_le_iff, simp)
qed

text \<open>Five decimals are kept.\<close>

lemma reread_exact: "v = of_int m / 10 ^ 5 \<Longrightarrow> reread v = v"
proof -
  assume v: "v = of_int m / 10 ^ 5"
  then have "\<bar>v\<bar> * 10 ^ 5 = of_int \<bar>m\<bar>" by (simp add: abs_divide)
  then show ?thesis using v unfolding reread_eq by (simp only: round_even_int) auto
qed

section \<open>Domains as text\<close>

definition chunk_text :: "ivpdomain \<Rightarrow> nat \<Rightarrow> string" where
  "chunk_text D i = joined (CHR '','') [getVarName D i, dstringCompact (doubleToString (getVarLow_i D i) 5),
     dstringCompact (doubleToString (getVarHigh_i D i) 5), nat_str (getVarPoints_i D i)]"

lemma domainToString_joined: "domainToString D True = joined (CHR '':'') (map (chunk_text D) [0..<dom_size D])"
proof -
  have "domainToString D True =
      foldl (\<lambda>r i. let s = r @ chunk_text D i in if i < dom_size D - 1 then s @ [CHR '':''] else s) [] [0..<dom_size D]"
    unfolding domainToString_def
    by (rule foldl_cong) (simp_all add: chunk_text_def intToString_def int_str_def Let_def)
  then show ?thesis by (simp only: joined_loop)
qed

text \<open>The names a description can carry, and values in the range of \<open>%f\<close>.\<close>

definition plain_name :: "string \<Rightarrow> bool" where
  "plain_name n \<longleftrightarrow> NUL \<notin> set n \<and> CHR '','' \<notin> set n \<and> CHR '':'' \<notin> set n \<and> (n = [] \<or> \<not> front_blank (hd n))"

definition printable :: "ivpdomain \<Rightarrow> bool" where
  "printable D \<longleftrightarrow> valid_domain D \<and> (\<forall>i<dom_size D. plain_name (m_dname D ! i) \<and>
     m_dlow D ! i \<le> 2 ^ 128 \<and> m_dhigh D ! i \<le> 2 ^ 128 \<and> m_dpoints D ! i < 2 ^ 31)"

text \<open>The first variables of a domain, with their ends as printed.\<close>

definition reread_dom :: "ivpdomain \<Rightarrow> nat \<Rightarrow> ivpdomain" where
  "reread_dom D k = \<lparr>m_dname = take k (m_dname D), m_dlow = map reread (take k (m_dlow D)),
     m_dhigh = map reread (take k (m_dhigh D)),
     m_ddelta = map (\<lambda>i. if 1 < m_dpoints D ! i
        then (reread (m_dhigh D ! i) - reread (m_dlow D ! i)) / (of_nat (m_dpoints D ! i) - 1) else 0) [0..<k],
     m_dpoints = take k (m_dpoints D)\<rparr>"

lemma is_digit_not: "is_digit c \<Longrightarrow> c \<notin> {NUL, CHR '','', CHR '':'', CHR ''$'', CHR ''='', QUOTE, CHR ''{'', CHR ''}''} \<and>
    \<not> front_blank c \<and> \<not> back_blank c"
  by (auto simp: is_digit_def front_blank_def back_blank_def)

lemma nat_str_clean: "c \<in> set (nat_str n) \<Longrightarrow> is_digit c"
  using nat_str_digits(1) [of n] by auto

lemma chunk_fields:
  assumes "printable D" "i < dom_size D"
  shows "parseString (stripBlankEnds (chunk_text D i)) (CHR '','') = [m_dname D ! i,
      dstringCompact (doubleToString (m_dlow D ! i) 5), dstringCompact (doubleToString (m_dhigh D ! i) 5),
      nat_str (m_dpoints D ! i)]"
    "CHR '':'' \<notin> set (chunk_text D i)" "NUL \<notin> set (chunk_text D i)" "chunk_text D i \<noteq> []"
proof -
  let ?n = "m_dname D ! i" and ?p = "nat_str (m_dpoints D ! i)"
  let ?l = "dstringCompact (doubleToString (m_dlow D ! i) 5)" and ?h = "dstringCompact (doubleToString (m_dhigh D ! i) 5)"
  have i: "i < length (m_dname D)" using assms(2) by (simp add: dom_size_def)
  have n: "plain_name ?n" and r: "m_dlow D ! i \<le> 2 ^ 128" "m_dhigh D ! i \<le> 2 ^ 128"
    using assms by (auto simp: printable_def)
  have t: "chunk_text D i = joined (CHR '','') [?n, ?l, ?h, ?p]"
    using i by (simp add: chunk_text_def getVarName_def getVarLow_i_def getVarHigh_i_def getVarPoints_i_def)
  have d: "is_digit c \<or> c = CHR ''-'' \<or> c = CHR ''.''" if "c \<in> set ?l \<union> set ?h \<union> set ?p" for c
    using that compact_chars [OF r(1)] compact_chars [OF r(2)] nat_str_clean by blast
  have nd: "c \<notin> {NUL, CHR '','', CHR '':''}" if "c \<in> set ?l \<union> set ?h \<union> set ?p" for c
    using d [OF that] is_digit_not [of c] by auto
  have ne: "?p \<noteq> []" by (rule nat_str_digits(2))
  have lst: "last (chunk_text D i) = last ?p" "chunk_text D i \<noteq> []" using ne by (simp_all add: t)
  have "is_digit (last ?p)" using ne nat_str_clean last_in_set by blast
  then have b: "\<not> back_blank (last (chunk_text D i))" using lst is_digit_not by simp
  have f: "\<not> front_blank (hd (chunk_text D i))"
    using n by (cases ?n) (auto simp: t plain_name_def front_blank_def)
  have nul: "NUL \<notin> set (chunk_text D i)" using n nd by (auto simp: t plain_name_def)
  have "stripBlankEnds (chunk_text D i) = chunk_text D i"
    using f b nul by (simp add: stripBlankEnds_trimmed trimmed_id)
  moreover have "parseString (joined (CHR '','') [?n, ?l, ?h, ?p]) (CHR '','') = [?n, ?l, ?h, ?p]"
    by (rule parse_joined) (use n nd ne in \<open>auto simp: plain_name_def\<close>)
  ultimately show "parseString (stripBlankEnds (chunk_text D i)) (CHR '','') = [?n, ?l, ?h, ?p]" by (simp add: t)
  show "CHR '':'' \<notin> set (chunk_text D i)" using n nd by (auto simp: t plain_name_def)
  show "NUL \<notin> set (chunk_text D i)" "chunk_text D i \<noteq> []" by (fact nul, fact lst(2))
qed

lemma chunk_step:
  assumes "printable D" "i < dom_size D"
  shows "domain_chunk (reread_dom D i) (chunk_text D i) = Some (reread_dom D (Suc i))"
proof -
  have i: "i < length (m_dname D)" and len: "length (m_dlow D) = length (m_dname D)" "length (m_dhigh D) = length (m_dname D)"
    "length (m_dpoints D) = length (m_dname D)" and v: "valid_var (m_dlow D ! i) (m_dhigh D ! i) (m_ddelta D ! i) (m_dpoints D ! i)"
    and dist: "distinct (m_dname D)" and n: "plain_name (m_dname D ! i)" and r: "m_dlow D ! i \<le> 2 ^ 128" "m_dhigh D ! i \<le> 2 ^ 128"
    and k: "m_dpoints D ! i < 2 ^ 31"
    using assms by (auto simp: printable_def valid_domain_def dom_size_def)
  have fresh: "\<not> hasDomain (reread_dom D i) (m_dname D ! i)"
    using i dist by (auto simp: hasDomain_iff reread_dom_def in_set_conv_nth nth_eq_iff_index_eq)
  have le: "\<not> reread (m_dlow D ! i) > reread (m_dhigh D ! i)" using v reread_mono by (simp add: valid_var_def not_less)
  have pts: "nat (atoi (nat_str (m_dpoints D ! i)) mod 2 ^ 32) = m_dpoints D ! i"
    using atoi_int_str [of "int (m_dpoints D ! i)"] k by (simp add: int_str_def)
  have c: "c_str (m_dname D ! i) = m_dname D ! i" using n by (simp add: plain_name_def)
  have t: "take (Suc i) (m_dname D) = take i (m_dname D) @ [m_dname D ! i]" "take (Suc i) (m_dlow D) = take i (m_dlow D) @ [m_dlow D ! i]"
    "take (Suc i) (m_dhigh D) = take i (m_dhigh D) @ [m_dhigh D ! i]" "take (Suc i) (m_dpoints D) = take i (m_dpoints D) @ [m_dpoints D ! i]"
    using i len by (simp_all add: take_Suc_conv_app_nth)
  have one: "\<not> (m_dpoints D ! i < 1)" "\<not> (m_dpoints D ! i = 1 \<and> reread (m_dhigh D ! i) \<noteq> reread (m_dlow D ! i))"
    using v by (auto simp: valid_var_def)
  have c1: "\<not> (hasDomain (reread_dom D i) (m_dname D ! i) \<or> reread (m_dlow D ! i) > reread (m_dhigh D ! i) \<or> m_dpoints D ! i < 1)"
    using fresh le one(1) by simp
  have "addDomain (m_dname D ! i) (reread (m_dlow D ! i)) (reread (m_dhigh D ! i)) (m_dpoints D ! i) (reread_dom D i) =
      (True, reread_dom D (Suc i))"
    unfolding addDomain_def if_not_P [OF c1] if_not_P [OF one(2)] by (simp add: reread_dom_def t)
  then show ?thesis
    unfolding domain_chunk_def chunk_fields(1) [OF assms]
    by (simp add: compact_value [OF r(1)] compact_value [OF r(2)] pts [simplified] c)
qed

lemma reread_chunks: "printable D \<Longrightarrow> k \<le> dom_size D \<Longrightarrow>
    foldM domain_chunk empty_domain (map (chunk_text D) [0..<k]) = Some (reread_dom D k)"
proof (induction k)
  case 0
  show ?case by (simp add: empty_domain_def reread_dom_def)
next
  case (Suc k)
  then show ?case by (simp add: foldM_append chunk_step)
qed

lemma stringToDomain_reread: "printable D \<Longrightarrow> stringToDomain (domainToString D True) = reread_dom D (dom_size D)"
proof -
  assume p: "printable D"
  have "parseString (domainToString D True) (CHR '':'') = map (chunk_text D) [0..<dom_size D]"
    unfolding domainToString_joined
    by (rule parse_joined) (use chunk_fields(2-4) [OF p] in \<open>auto simp: last_map\<close>)
  then show ?thesis using reread_chunks [OF p order_refl] by (simp add: stringToDomain_def)
qed

section \<open>Properties\<close>

text \<open>C37: A domain written to text and read back: the names and numbers of points are
  the same, the ends differ by at most half a unit of the fifth decimal, and with ends of at most five
  decimals the code's comparison finds both domains equal.\<close>

theorem domain_roundtrip:
  assumes "printable D"
  shows "m_dname (stringToDomain (domainToString D True)) = m_dname D \<and>
    m_dpoints (stringToDomain (domainToString D True)) = m_dpoints D \<and>
    (\<forall>i<dom_size D. \<bar>m_dlow (stringToDomain (domainToString D True)) ! i - m_dlow D ! i\<bar> \<le> 1 / (2 * 10 ^ 5) \<and>
                    \<bar>m_dhigh (stringToDomain (domainToString D True)) ! i - m_dhigh D ! i\<bar> \<le> 1 / (2 * 10 ^ 5)) \<and>
    ((\<forall>i<dom_size D. \<exists>m n. m_dlow D ! i = of_int m / 10 ^ 5 \<and> m_dhigh D ! i = of_int n / 10 ^ 5) \<longrightarrow>
       dom_eq (stringToDomain (domainToString D True)) D)"
proof -
  have len: "length (m_dlow D) = length (m_dname D)" "length (m_dhigh D) = length (m_dname D)"
    "length (m_dpoints D) = length (m_dname D)" using assms by (auto simp: printable_def valid_domain_def)
  have v: "valid_domain D" using assms by (simp add: printable_def)
  have d: "stringToDomain (domainToString D True) = reread_dom D (dom_size D)" by (rule stringToDomain_reread [OF assms])
  have e: "dom_eq (reread_dom D (dom_size D)) D"
    if h: "\<forall>i<dom_size D. \<exists>m n. m_dlow D ! i = of_int m / 10 ^ 5 \<and> m_dhigh D ! i = of_int n / 10 ^ 5"
  proof -
    have "reread (m_dlow D ! i) = m_dlow D ! i \<and> reread (m_dhigh D ! i) = m_dhigh D ! i" if "i < dom_size D" for i
      using h that reread_exact by blast
    then show ?thesis
      using len by (auto simp: dom_eq_def list_all_upt reread_dom_def dom_size_def getVarName_def getVarLow_i_def
          getVarHigh_i_def getVarPoints_i_def)
  qed
  show ?thesis
    unfolding d using len reread_close e by (auto simp: reread_dom_def dom_size_def)
qed

lemma printable_ex_dom: "printable ex_dom"
  using valid_ex_dom ex_dom_facts by (simp add: printable_def plain_name_def front_blank_def less_2_cases_iff)

theorem domain_roundtrip_witness:
  "dom_eq (stringToDomain (domainToString ex_dom True)) ex_dom"
proof -
  have "\<forall>i<dom_size ex_dom. \<exists>m n. m_dlow ex_dom ! i = of_int m / 10 ^ 5 \<and> m_dhigh ex_dom ! i = of_int n / 10 ^ 5"
    using ex_dom_facts by (auto simp: less_2_cases_iff intro: exI [of _ 0] exI [of _ "35900000"] exI [of _ "500000"])
  then show ?thesis using domain_roundtrip [OF printable_ex_dom] by blast
qed

section \<open>Boxes from text\<close>

lemma ends_box_facts:
  assumes "0 < length es" "length es < 2 ^ 16"
  shows "m_dim (ends_box es) = length es"
    "d < length es \<Longrightarrow> pt (ends_box es) d 0 = fst (es ! d) \<and> pt (ends_box es) d 1 = snd (es ! d)"
proof -
  have e: "ends_box es = foldl (\<lambda>b d. setPTS d (fst (es ! d)) (snd (es ! d)) b) (IvPBox_new (int (length es)) (int 0)) [0..<length es]"
    by (simp add: ends_box_def setPTS_def)
  have "(0::nat) < 2 ^ 16" by simp
  note f = fresh_setPTS [OF assms this, where L = "\<lambda>d. fst (es ! d)" and H = "\<lambda>d. snd (es ! d)", folded e]
  show "m_dim (ends_box es) = length es"
    "d < length es \<Longrightarrow> pt (ends_box es) d 0 = fst (es ! d) \<and> pt (ends_box es) d 1 = snd (es ! d)"
    by (fact f(2), rule f(4))
qed

lemma point_extent_range: "point_extent s D g l i = Some e \<Longrightarrow> valid_domain D \<Longrightarrow> i < dom_size D \<Longrightarrow>
    1 \<le> e \<and> e \<le> int (getVarPoints_i D i)"
  by (auto simp: point_extent_def Let_def valid_domain_def valid_var_def dom_size_def getVarPoints_i_def
      split: prod.splits if_splits)

lemma those_Some: "those xs = Some ys \<Longrightarrow> length ys = length xs \<and> (\<forall>i<length xs. xs ! i = Some (ys ! i))"
proof (induction xs arbitrary: ys)
  case (Cons x xs)
  then obtain y zs where "x = Some y" "those xs = Some zs" "ys = y # zs" by (auto split: option.splits)
  with Cons.IH [of zs] show ?case by (auto simp: nth_Cons split: nat.splits)
qed simp

text \<open>A point read in discrete units, and a region read in native ones, lie inside the
  domain, or the null box is returned. A region may have its ends the wrong way round.\<close>

theorem text_boxes_inside:
  assumes "valid_domain D" "0 < dom_size D" "dom_size D < 2 ^ 16" "b = stringDiscreteToPointBox s D gsep lsep"
    "c = stringNativeToRegionBox s D gsep lsep"
  shows "(b = null_ivpbox \<or> m_dim b = dom_size D \<and>
        (\<forall>d<dom_size D. pt b d 0 = pt b d 1 \<and> 0 \<le> pt b d 0 \<and> pt b d 0 < int (getVarPoints_i D d))) \<and>
    (c = null_ivpbox \<or> m_dim c = dom_size D \<and>
        (\<forall>d<dom_size D. \<forall>e<2. 0 \<le> pt c d e \<and> pt c d e < int (getVarPoints_i D d)))"
proof
  show "b = null_ivpbox \<or> m_dim b = dom_size D \<and>
        (\<forall>d<dom_size D. pt b d 0 = pt b d 1 \<and> 0 \<le> pt b d 0 \<and> pt b d 0 < int (getVarPoints_i D d))"
  proof (cases "s = '''' \<or> those (map (point_extent s D gsep lsep) [0..<dom_size D]) = None")
    case True
    then show ?thesis by (auto simp: assms(4) stringDiscreteToPointBox_def)
  next
    case False
    then obtain es where es: "those (map (point_extent s D gsep lsep) [0..<dom_size D]) = Some es" by auto
    note t = those_Some [OF es]
    have b: "b = ends_box (map (\<lambda>e. (e - 1, e - 1)) es)" using False es by (simp add: assms(4) stringDiscreteToPointBox_def)
    have n: "0 < length (map (\<lambda>e. (e - 1, e - 1)) es)" "length (map (\<lambda>e. (e - 1, e - 1)) es) < 2 ^ 16" using t assms(2,3) by simp_all
    note f = ends_box_facts [OF n, folded b]
    have "0 \<le> es ! d - 1 \<and> es ! d - 1 < int (getVarPoints_i D d)" if "d < dom_size D" for d
      using t that point_extent_range [OF _ assms(1) that, of s gsep lsep "es ! d"] by simp
    then show ?thesis using f t by auto
  qed
  show "c = null_ivpbox \<or> m_dim c = dom_size D \<and>
        (\<forall>d<dom_size D. \<forall>e<2. 0 \<le> pt c d e \<and> pt c d e < int (getVarPoints_i D d))"
  proof (cases "c = null_ivpbox")
    case False
    define es where "es = map (\<lambda>i. (getDiscreteVal D i (fst (snd (map (native_region D (tuple_fields s gsep lsep)) [0..<dom_size D] ! i))) 1,
        getDiscreteVal D i (snd (snd (map (native_region D (tuple_fields s gsep lsep)) [0..<dom_size D] ! i))) 0)) [0..<dom_size D]"
    from False have c: "c = ends_box es"
      by (auto simp: assms(5) stringNativeToRegionBox_def Let_def es_def split: if_splits)
    have n: "0 < length es" "length es < 2 ^ 16" using assms(2,3) by (simp_all add: es_def)
    note f = ends_box_facts [OF n, folded c]
    have "0 \<le> getDiscreteVal D d v k \<and> getDiscreteVal D d v k < int (getVarPoints_i D d)" if "d < dom_size D" for d v k
      using getDiscreteVal_bounds [OF assms(1) that, of v k] that by (simp add: getVarPoints_i_def dom_size_def)
    then show ?thesis using f by (auto simp: es_def less_2_cases_iff)
  qed simp
qed

theorem text_boxes_inside_witness:
  "\<exists>b c. b = stringDiscreteToPointBox ''course:7,speed:20'' ex_dom (CHR '','') (CHR '':'') \<and>
     c = stringNativeToRegionBox ''course:all,speed:1.1:2.4'' ex_dom (CHR '','') (CHR '':'') \<and>
     pt b 1 0 = pt b 1 1 \<and> pt b 1 1 < 11 \<and> 0 \<le> pt c 1 0 \<and> pt c 1 1 < 11"
proof -
  let ?b = "stringDiscreteToPointBox ''course:7,speed:20'' ex_dom (CHR '','') (CHR '':'')"
  let ?c = "stringNativeToRegionBox ''course:all,speed:1.1:2.4'' ex_dom (CHR '','') (CHR '':'')"
  have nb: "?b \<noteq> null_ivpbox" "?c \<noteq> null_ivpbox" by code_simp+
  have D: "0 < dom_size ex_dom" "dom_size ex_dom < 2 ^ 16" by (simp_all add: ex_dom_facts)
  have p: "getVarPoints_i ex_dom 1 = 11" "1 < dom_size ex_dom" using ex_dom_facts by (simp_all add: getVarPoints_i_def)
  have "\<forall>d<dom_size ex_dom. pt ?b d 0 = pt ?b d 1 \<and> 0 \<le> pt ?b d 0 \<and> pt ?b d 0 < int (getVarPoints_i ex_dom d)"
    "\<forall>d<dom_size ex_dom. \<forall>e<2. 0 \<le> pt ?c d e \<and> pt ?c d e < int (getVarPoints_i ex_dom d)"
    using text_boxes_inside [OF valid_ex_dom D refl refl] nb by blast+
  from this [rule_format, OF p(2)] show ?thesis using p(1) by (intro exI [of _ ?b] exI [of _ ?c]) simp
qed

text \<open>Descriptions that are read against the comments: a negative number of points
  is accepted as a huge one; the native value 0 is the point before the first; a native region may be
  turned round; "all" is the first point in a discrete region.\<close>

theorem misread_descriptions:
  "m_dpoints (stringToDomain ''X,0,10,-5'') = [4294967291] \<and>
   (\<exists>b. stringNativeToPointBox ''x:0'' (stringToDomain ''x,0,20,21'') (CHR '','') (CHR '':'') = Some b \<and> pt b 0 0 = -1) \<and>
   m_pts (stringNativeToRegionBox ''x:7.2:7.8'' (stringToDomain ''x,0,20,21'') (CHR '','') (CHR '':'')) = [8, 7] \<and>
   m_pts (stringDiscreteToRegionBox ''x:all'' (stringToDomain ''x,0,20,21'') (CHR '','') (CHR '':'')) = [0, 0]"
proof -
  have x: "stringToDomain ''x,0,20,21'' = snd (addDomain ''x'' 0 20 21 empty_domain)"
  proof -
    have p: "parseString ''x,0,20,21'' (CHR '':'') = [''x,0,20,21'']" by code_simp
    have q: "parseString (stripBlankEnds ''x,0,20,21'') (CHR '','') = [''x'', ''0'', ''20'', ''21'']" by code_simp
    have n: "c_str ''x'' = ''x''" "atof ''0'' = 0" "atof ''20'' = 20" "atoi ''21'' = 21" by code_simp+
    show ?thesis by (simp add: stringToDomain_def p domain_chunk_def q n addDomain_def hasDomain_def empty_domain_def)
  qed
  have "parseString ''X,0,10,-5'' (CHR '':'') = [''X,0,10,-5'']" by code_simp
  moreover have "parseString (stripBlankEnds ''X,0,10,-5'') (CHR '','') = [''X'', ''0'', ''10'', ''-5'']" by code_simp
  moreover have "c_str ''X'' = ''X''" "atof ''0'' = 0" "atof ''10'' = 10" "atoi ''-5'' = - 5" by code_simp+
  ultimately have 1: "m_dpoints (stringToDomain ''X,0,10,-5'') = [4294967291]"
    by (simp add: stringToDomain_def domain_chunk_def addDomain_def hasDomain_def empty_domain_def)
  have "map_option (\<lambda>b. pt b 0 0) (stringNativeToPointBox ''x:0'' (snd (addDomain ''x'' 0 20 21 empty_domain)) (CHR '','') (CHR '':'')) = Some (-1)"
    by code_simp
  then have 2: "\<exists>b. stringNativeToPointBox ''x:0'' (stringToDomain ''x,0,20,21'') (CHR '','') (CHR '':'') = Some b \<and> pt b 0 0 = -1"
    unfolding x by auto
  have 3: "m_pts (stringNativeToRegionBox ''x:7.2:7.8'' (stringToDomain ''x,0,20,21'') (CHR '','') (CHR '':'')) = [8, 7]"
    unfolding x by code_simp
  have 4: "m_pts (stringDiscreteToRegionBox ''x:all'' (stringToDomain ''x,0,20,21'') (CHR '','') (CHR '':'')) = [0, 0]"
    unfolding x by code_simp
  from 1 2 3 4 show ?thesis by (intro conjI)
qed


end
