(* ===== verification/Function_Encoder.thy ===== *)
theory Function_Encoder
  imports IvP_Problem Box_Strings
begin

text \<open>
  \<open>src/ivp/src/lib_ivpbuild/FunctionEncoder.cpp\<close>: an objective function as a string, its packets, and the way
  back. The text is written into a buffer of a size computed from the number of pieces; a result is \<open>None\<close>
  where a write goes past the end of a buffer, a read past the terminating null of the string, a pointer
  is null or a number does not fit its type.
\<close>

section \<open>Numbers as text\<close>

definition c_int :: "int \<Rightarrow> int option" where
  "c_int x = (if - (2 ^ 31) \<le> x \<and> x < 2 ^ 31 then Some x else None)"

definition c_char :: "int \<Rightarrow> char" where
  "c_char x = char_of (nat (x mod 256))"

text \<open>The loop that peels off digits, with the reversal behind it; remainders of a negative number are negative.\<close>

function int_digits :: "int \<Rightarrow> string" where
  "int_digits iv = (if iv = 0 then '''' else int_digits (iv sdiv 10) @ [c_char (48 + iv smod 10)])"
  by pat_completeness auto
termination
  by (relation "measure (\<lambda>i. nat \<bar>i\<bar>)") (auto simp: signed_divide_int_def abs_mult sgn_if)

declare int_digits.simps [simp del]

definition low_text :: "int \<Rightarrow> string" where
  "low_text iv = (if iv < 10 then [c_char (48 + iv)] else int_digits iv)"

definition high_text :: "int \<Rightarrow> string" where
  "high_text iv = (if iv = 0 then ''0'' else int_digits iv)"

text \<open>The digits of a weight in units of a ten-thousandth, from the last, and at least five of them.\<close>

function weight_digits :: "nat \<Rightarrow> nat \<Rightarrow> nat list" where
  "weight_digits iv c_ix =
     (let rval = iv mod 10; iv = iv div 10
      in if iv = 0 \<and> c_ix \<ge> 4 then [rval] else rval # weight_digits iv (c_ix + 1))"
  by pat_completeness auto
termination
  by (relation "measure (\<lambda>(i, c). i + (5 - c))") auto

declare weight_digits.simps [simp del]

definition weight_text :: "real \<Rightarrow> string option" where
  "weight_text jwt =
     (let sign = (if jwt < 0 then ''-'' else ''''); jwt = (if jwt < 0 then - jwt else jwt);
          iv = c_trunc (jwt * 10000 + 1 / 2)
      in if jwt = 0 then Some (sign @ ''0'')
         else if iv \<ge> 2 ^ 63 then None
         else let tbuff = weight_digits (nat iv) 0;
                  b_ix = (case find (\<lambda>c_ix. tbuff ! c_ix \<noteq> 0) [0..<length tbuff] of None \<Rightarrow> 0 | Some i \<Rightarrow> i);
                  b_ix = (if b_ix > 4 then 4 else b_ix)
              in Some (sign @ concat (map (\<lambda>k. c_char (48 + int (tbuff ! k)) # (if k = 4 then ''.'' else ''''))
                   (rev [b_ix..<length tbuff]))))"

section \<open>A function as text\<close>

definition edge_text :: "ivpbox \<Rightarrow> nat \<Rightarrow> string" where
  "edge_text ibox d =
     (if \<not> bd ibox d 0 then ''X'' else '''') @ low_text (pt ibox d 0) @ '','' @
     (if \<not> bd ibox d 1 then ''X'' else '''') @ high_text (pt ibox d 1) @ '',''"

text \<open>The weights of piece \<open>i\<close>; only the very last one has no comma behind it.\<close>

definition weights_text :: "nat \<Rightarrow> nat \<Rightarrow> nat \<Rightarrow> ivpbox \<Rightarrow> string option" where
  "weights_text pcs wtc i ibox =
     foldM (\<lambda>s j. weight_text (wt ibox j) \<bind> (\<lambda>w.
         Some (s @ w @ (if i < pcs - 1 \<or> j < wtc - 1 then '','' else '''')))) '''' [0..<wtc]"

definition piece_text :: "nat \<Rightarrow> nat \<Rightarrow> nat \<Rightarrow> nat \<Rightarrow> ivpbox \<Rightarrow> string option" where
  "piece_text dm pcs wtc i ibox =
     (if dm * 2 > length (m_pts ibox) \<or> dm * 2 > length (m_bds ibox) \<or> wtc > length (m_wts ibox) then None
      else weights_text pcs wtc i ibox \<bind> (\<lambda>w. Some (concat (map (edge_text ibox) [0..<dm]) @ w)))"

text \<open>What comes before the pieces.\<close>

definition ipf_header :: "ivpfunction \<Rightarrow> string option" where
  "ipf_header f =
     (let pdmap = m_pdmap f; dm = pd_dim pdmap; cstr = m_context_string f
      in if dm * 2 > length (m_pts (m_gelbox pdmap)) then None
         else Some (''H,'' @ nat_str (length cstr) @ '','' @ c_str cstr @ '','' @ nat_str dm @ '','' @
           nat_str (m_boxCount pdmap) @ '','' @ nat_str (pd_degree pdmap) @ '','' @
           dstringCompact (doubleToString (m_pwt f) 5) @ '',D,'' @
           findReplace_chr (c_str (domainToString (pd_domain pdmap) True)) (CHR '','') (CHR '';'') @ '',G,'' @
           concat (map (\<lambda>d. int_str (pt (m_gelbox pdmap) d 1) @ '','') [0..<dm]) @ ''F,''))"

text \<open>All of it, before the check of the buffer.\<close>

definition ipf_text :: "ivpfunction \<Rightarrow> string option" where
  "ipf_text f =
     (let pdmap = m_pdmap f; dm = pd_dim pdmap; pcs = m_boxCount pdmap
      in if pcs = 0 then None
         else box_at pdmap 0 \<bind> (\<lambda>p0. let wtc = getWtc (pd_store pdmap p0) in
           ipf_header f \<bind> (\<lambda>header.
           foldM (\<lambda>s i. box_at pdmap i \<bind> (\<lambda>p.
               piece_text dm pcs wtc i (pd_store pdmap p) \<bind> (\<lambda>t. Some (s @ t)))) '''' [0..<pcs] \<bind> (\<lambda>body.
           Some (header @ body)))))"

definition ipf_bsize :: "ivpfunction \<Rightarrow> nat option" where
  "ipf_bsize f =
     (let pdmap = m_pdmap f; pcs = m_boxCount pdmap
      in if pcs = 0 then None
         else box_at pdmap 0 \<bind> (\<lambda>p0.
           let bsize = pcs * ((pd_dim pdmap * 2 + getWtc (pd_store pdmap p0)) * 50) + length (m_context_string f)
           in if bsize < 2 ^ 31 then Some bsize else None))"

definition IvPFunctionToString :: "ivpfunction \<Rightarrow> string option" where
  "IvPFunctionToString f =
     ipf_bsize f \<bind> (\<lambda>bsize. ipf_text f \<bind> (\<lambda>buff.
     if length buff + 1 > bsize then None else Some (c_str buff)))"

text \<open>Packets; a packet size of exactly the header divides by zero, and one below it makes no packets that
  hold anything. The packet is a buffer of \<open>packet_size\<close>.\<close>

definition IvPFunctionToVector :: "string \<Rightarrow> string \<Rightarrow> int \<Rightarrow> string list option" where
  "IvPFunctionToVector whole_string function_id packet_size =
     (let whole_size = int (length whole_string); body_size = packet_size - (int (length function_id) + 50)
      in if body_size = 0 \<or> packet_size < 0 then None
         else let num_packets = whole_size sdiv body_size + 1;
                  head = ''P,'' @ c_str function_id @ '','' @ int_str num_packets @ '',''
              in if int (length head) + 1 > packet_size then None
                 else foldM (\<lambda>svector i.
                   let ihead = head @ nat_str (i + 1) @ '','';
                       body = take (nat body_size) (drop (i * nat body_size) whole_string);
                       buff = ihead @ body
                   in if int (length buff) + 1 > packet_size then None else Some (svector @ [c_str buff]))
                   [] [0..<nat num_packets])"

section \<open>Reading it back\<close>

text \<open>
  A place in the string is what is left of it; \<open>None\<close> is a place behind the terminating null, where nothing may
  be read. A loop that looks for a comma runs off the end when there is none.
\<close>

definition skip :: "nat \<Rightarrow> string option \<Rightarrow> string option" where
  "skip n at_cix = at_cix \<bind> (\<lambda>s. if n \<le> length s then Some (drop n s) else None)"

definition comma_field :: "string option \<Rightarrow> (string \<times> string option) option" where
  "comma_field at_cix =
     at_cix \<bind> (\<lambda>s. if CHR '','' \<in> set s
       then Some (takeWhile (\<lambda>c. c \<noteq> CHR '','') s, Some (tl (dropWhile (\<lambda>c. c \<noteq> CHR '','') s))) else None)"

text \<open>\<open>char\<close> is signed.\<close>

definition c_code :: "char \<Rightarrow> int" where
  "c_code c = (let n = int (of_char c) in if n < 128 then n else n - 256)"

definition dec_int :: "string \<Rightarrow> int option" where
  "dec_int s = foldM (\<lambda>v c. c_int (v * 10) \<bind> (\<lambda>v. c_int (v + (c_code c - 48)))) 0 s"

definition dec_step :: "real \<times> real \<times> bool \<Rightarrow> char \<Rightarrow> real \<times> real \<times> bool" where
  "dec_step s c =
     (case s of (coef, scale, left_of_decimal) \<Rightarrow>
        if c = CHR ''.'' then (coef, scale, False)
        else if left_of_decimal then (coef * 10 + of_int (c_code c - 48), scale, left_of_decimal)
        else (coef + of_int (c_code c - 48) * scale, scale / 10, left_of_decimal))"

definition dec_real :: "string \<Rightarrow> real" where
  "dec_real s = fst (foldl dec_step (0, 1 / 10, True) s)"

definition int_field :: "string option \<Rightarrow> (int \<times> string option) option" where
  "int_field at_cix = comma_field at_cix \<bind> (\<lambda>(s, rest). dec_int s \<bind> (\<lambda>v. Some (v, rest)))"

text \<open>An end of an edge: an X makes it exclusive.\<close>

definition edge_field :: "string option \<Rightarrow> (bool \<times> int \<times> string option) option" where
  "edge_field at_cix =
     at_cix \<bind> (\<lambda>s.
     let open_end = (s \<noteq> '''' \<and> hd s = CHR ''X''); s = (if open_end then tl s else s)
     in int_field (Some s) \<bind> (\<lambda>(v, rest). Some (open_end, v, rest)))"

definition weight_field :: "string option \<Rightarrow> (real \<times> string option) option" where
  "weight_field at_cix =
     at_cix \<bind> (\<lambda>s.
     let neg = (s \<noteq> '''' \<and> hd s = CHR ''-''); s = (if neg then tl s else s);
         body = takeWhile (\<lambda>c. c \<noteq> CHR '','' \<and> c \<noteq> NUL) s; rest = drop (length body) s
     in Some (dec_real body * (if neg then - 1 else 1), if rest = '''' then None else Some (tl rest)))"

definition read_edge :: "ivpbox \<times> string option \<Rightarrow> nat \<Rightarrow> (ivpbox \<times> string option) option" where
  "read_edge s d =
     (let (newbox, at_cix) = s
      in edge_field at_cix \<bind> (\<lambda>(open_low, low, at_cix).
         let newbox = (if open_low then set_bd d 0 False newbox else newbox)
         in edge_field at_cix \<bind> (\<lambda>(open_high, hgh, at_cix).
         let newbox = (if open_high then set_bd d 1 False newbox else newbox)
         in Some (setPTS d low hgh newbox, at_cix))))"

definition read_weight :: "ivpbox \<times> string option \<Rightarrow> nat \<Rightarrow> (ivpbox \<times> string option) option" where
  "read_weight s d =
     (let (newbox, at_cix) = s
      in if d \<ge> length (m_wts newbox) then None
         else weight_field at_cix \<bind> (\<lambda>(w, at_cix). Some (set_wt d w newbox, at_cix)))"

definition read_piece :: "nat \<Rightarrow> nat \<Rightarrow> pdmap \<times> string option \<Rightarrow> nat \<Rightarrow> (pdmap \<times> string option) option" where
  "read_piece dm deg s i =
     (let (pdmap, at_cix) = s
      in foldM read_edge (IvPBox_new (int dm) (int deg), at_cix) [0..<dm] \<bind> (\<lambda>s.
         foldM read_weight s [0..<deg * dm + 1] \<bind> (\<lambda>(newbox, at_cix).
         Some (bx_new i newbox pdmap, at_cix))))"

definition read_gel :: "ivpbox \<times> string option \<Rightarrow> nat \<Rightarrow> (ivpbox \<times> string option) option" where
  "read_gel s d =
     (let (gelbox, at_cix) = s
      in int_field at_cix \<bind> (\<lambda>(val, at_cix). Some (setPTS d 0 val gelbox, at_cix)))"

text \<open>The context is copied to a buffer whose size the header tells.\<close>

definition read_context :: "string \<Rightarrow> (string \<times> string option) option" where
  "read_context str =
     int_field (skip 2 (Some str)) \<bind> (\<lambda>(cstr_len, at_cix).
     comma_field at_cix \<bind> (\<lambda>(cstr, at_cix).
     if int (length cstr) < cstr_len + 10 then Some (c_str cstr, at_cix) else None))"

definition non_negative :: "int \<Rightarrow> nat option" where
  "non_negative v = (if v < 0 then None else Some (nat v))"

definition StringToIvPFunction :: "string \<Rightarrow> ivpfunction option option" where
  "StringToIvPFunction str =
     (if str = '''' then Some None
      else read_context str \<bind> (\<lambda>(cstr, at_cix).
        int_field at_cix \<bind> (\<lambda>(dm, at_cix). non_negative dm \<bind> (\<lambda>dm.
        int_field at_cix \<bind> (\<lambda>(pcs, at_cix). non_negative pcs \<bind> (\<lambda>pcs.
        int_field at_cix \<bind> (\<lambda>(deg, at_cix). non_negative deg \<bind> (\<lambda>deg.
        comma_field at_cix \<bind> (\<lambda>(pwt, at_cix).
        comma_field (skip 2 at_cix) \<bind> (\<lambda>(buff, at_cix).
        if length buff \<ge> 5000 \<or> dm \<ge> 2 ^ 16 \<or> deg \<ge> 2 ^ 16 then None
        else let domain = stringToDomain (c_str (findReplace_chr buff (CHR '';'') (CHR '','')))
          in foldM read_gel (IvPBox_new (int dm) 0, skip 2 at_cix) [0..<dm] \<bind> (\<lambda>(gelbox, at_cix).
             PDMap_new pcs domain (int deg) \<bind> (\<lambda>pdmap.
             foldM (read_piece dm deg) (pdmap, skip 2 at_cix) [0..<pcs] \<bind> (\<lambda>(pdmap, at_cix).
             setGelBox gelbox pdmap \<bind> (\<lambda>pdmap. updateGrid True True pdmap \<bind> (\<lambda>pdmap.
             Some (Some (setContextStr cstr (setPWT (dec_real pwt) (IvPFunction_new pdmap)))))))))))))))))))"

definition StringToIvPContext :: "string \<Rightarrow> string option" where
  "StringToIvPContext str = read_context str \<bind> (\<lambda>(cstr, at_cix). Some cstr)"

text \<open>The search for the D of the domain begins with the context.\<close>

definition IPFStringToIvPDomain :: "string \<Rightarrow> ivpdomain option" where
  "IPFStringToIvPDomain str =
     int_field (skip 2 (Some str)) \<bind> (\<lambda>(cstr_len, at_cix).
     at_cix \<bind> (\<lambda>s.
     if CHR ''D'' \<notin> set s then None
     else comma_field (skip 2 (Some (dropWhile (\<lambda>c. c \<noteq> CHR ''D'') s))) \<bind> (\<lambda>(domain_str, at_cix).
     Some (stringToDomain (findReplace_chr domain_str (CHR '';'') (CHR '',''))))))"

end
