(* ===== verification/Function_Text.thy ===== *)
theory Function_Text
  imports Function_Encoder
begin

text \<open>
  An objective function as text: what the writer of \<open>Function_Encoder\<close> writes in closed form, how the reader
  takes it field by field (numbers, edges, weights, pieces, header), that the text stays in the buffer, and
  what is left of the function after the round trip. \<open>stored_weight\<close> and \<open>stored_piece\<close> say what becomes
  of weights and pieces; \<open>sendable\<close> and \<open>roomy\<close> are the conditions on the function.
\<close>

section \<open>Numbers read back\<close>

lemma c_code_digit: "is_digit c \<Longrightarrow> c_code c - 48 = int (code c - 48)"
  by (simp add: c_code_def is_digit_def Let_def of_nat_diff)

lemma c_char_digit: "d < 10 \<Longrightarrow> c_char (48 + int d) = digit_char d"
  by (simp add: c_char_def digit_char_def nat_add_distrib)

lemma dec_int_append: "dec_int (s @ t) = dec_int s \<bind> (\<lambda>v. foldM (\<lambda>v c. c_int (v * 10) \<bind> (\<lambda>v. c_int (v + (c_code c - 48)))) v t)"
  by (simp add: dec_int_def foldM_append)

lemma dec_int_nat_str: "n < 2 ^ 31 \<Longrightarrow> dec_int (nat_str n) = Some (int n)"
proof (induction n rule: nat_str.induct)
  case (1 n)
  show ?case
  proof (cases "n < 10")
    case True
    then have "c_code (digit_char n) = 48 + int n" using c_code_digit [of "digit_char n"] by (simp add: is_digit_def code_digit_char)
    then show ?thesis using True by (subst nat_str.simps) (simp add: dec_int_def c_int_def)
  next
    case False
    let ?d = "digit_char (n mod 10)"
    have d: "c_code ?d - 48 = int (n mod 10)" using c_code_digit [of ?d] by (simp add: is_digit_def code_digit_char)
    have "dec_int (nat_str (n div 10)) = Some (int (n div 10))" using 1 False by simp
    moreover have e: "int (n div 10) * 10 + int (n mod 10) = int n"
      by (metis div_mult_mod_eq of_nat_add of_nat_mult of_nat_numeral)
    moreover have "int n < 2 ^ 31" using "1.prems" by simp
    moreover from this e have "int (n div 10) * 10 < 2 ^ 31" by linarith
    ultimately show ?thesis
      by (subst nat_str.simps) (use False "1.prems" d in \<open>simp add: dec_int_append c_int_def\<close>)
  qed
qed

lemma int_digits_nat: "int_digits (int n) = (if n = 0 then '''' else nat_str n)"
proof (induction n rule: less_induct)
  case (less n)
  have q: "int n sdiv 10 = int (n div 10)" by (simp add: sdiv_nonneg zdiv_int)
  have r: "int n smod 10 = int (n mod 10)" by (simp add: signed_modulo_int_def zmod_int sgn_if)
  show ?case
  proof (cases "n = 0")
    case True
    then show ?thesis by (simp add: int_digits.simps)
  next
    case False
    then have "int_digits (int n) = int_digits (int (n div 10)) @ [digit_char (n mod 10)]"
      by (subst int_digits.simps) (simp add: q r c_char_digit)
    also have "\<dots> = nat_str n" using less [of "n div 10"] False by (cases "n < 10") (auto simp: nat_str.simps [of n])
    finally show ?thesis using False by simp
  qed
qed

lemma zero_char: "digit_char 0 = CHR ''0''"
  by code_simp

lemma edge_numbers: "low_text (int n) = nat_str n" "high_text (int n) = nat_str n"
proof -
  show "high_text (int n) = nat_str n" using zero_char by (cases "n = 0") (auto simp: high_text_def int_digits_nat nat_str.simps [of 0])
  show "low_text (int n) = nat_str n"
    by (cases "n < 10") (auto simp: low_text_def int_digits_nat c_char_digit nat_str.simps [of n])
qed

section \<open>Fields\<close>

lemma field_app: "CHR '','' \<notin> set s \<Longrightarrow> comma_field (Some (s @ CHR '','' # r)) = Some (s, Some r)"
  by (simp add: comma_field_def takeWhile_append dropWhile_append)

lemma comma_no_digit: "CHR '','' \<notin> set (nat_str n)"
  using nat_str_clean by (fastforce simp: is_digit_def)

lemma int_field_app: "n < 2 ^ 31 \<Longrightarrow> int_field (Some (nat_str n @ CHR '','' # r)) = Some (int n, Some r)"
  by (simp add: int_field_def field_app comma_no_digit dec_int_nat_str)

lemma edge_field_app:
  "n < 2 ^ 31 \<Longrightarrow> edge_field (Some ((if open_end then ''X'' else '''') @ nat_str n @ CHR '','' # r)) = Some (open_end, int n, Some r)"
proof -
  assume n: "n < 2 ^ 31"
  obtain c cs where c: "nat_str n = c # cs" using nat_str_digits(2) by (cases "nat_str n") auto
  then have "c \<noteq> CHR ''X''" using nat_str_clean [of c n] by (auto simp: is_digit_def)
  then show ?thesis using int_field_app [OF n, of r] c by (simp add: edge_field_def)
qed

section \<open>Weights read back\<close>

lemma weight_digits_nth:
  "\<exists>len. weight_digits iv c = map (\<lambda>k. iv div 10 ^ k mod 10) [0..<len] \<and> iv < 10 ^ len \<and> 5 \<le> len + c \<and> 0 < len"
proof (induction iv c rule: weight_digits.induct)
  case (1 iv c)
  show ?case
  proof (cases "iv div 10 = 0 \<and> c \<ge> 4")
    case True
    then show ?thesis by (intro exI [of _ 1]) (subst weight_digits.simps, auto)
  next
    case False
    with 1 [of "iv mod 10" "iv div 10"] obtain len where
      l: "weight_digits (iv div 10) (c + 1) = map (\<lambda>k. iv div 10 div 10 ^ k mod 10) [0..<len]"
        "iv div 10 < 10 ^ len" "5 \<le> len + (c + 1)" by auto
    have "weight_digits iv c = iv mod 10 # weight_digits (iv div 10) (c + 1)"
      by (subst weight_digits.simps) (use False in auto)
    also have "\<dots> = map (\<lambda>k. iv div 10 ^ k mod 10) [0..<Suc len]"
      unfolding l(1) by (subst upt_conv_Cons) (auto simp: map_Suc_upt [symmetric] div_mult2_eq simp del: upt_Suc)
    finally show ?thesis using l(2,3) by (intro exI [of _ "Suc len"]) (auto simp: less_mult_imp_div_less)
  qed
qed

lemma digits_val_slice:
  "a \<le> b \<Longrightarrow> digits_val (map (\<lambda>k. digit_char (iv div 10 ^ k mod 10)) (rev [a..<b])) = iv mod 10 ^ b div 10 ^ a"
proof (induction "b - a" arbitrary: a)
  case 0
  then show ?case by simp
next
  case (Suc n)
  then have ab: "a < b" by simp
  let ?x = "iv mod 10 ^ b"
  have "digits_val (map (\<lambda>k. digit_char (iv div 10 ^ k mod 10)) (rev [Suc a..<b])) = ?x div 10 ^ Suc a"
    using Suc by simp
  moreover have "iv div 10 ^ a mod 10 = ?x div 10 ^ a mod 10"
  proof -
    obtain e where b: "b = a + Suc e" using ab less_iff_Suc_add by auto
    have "?x div 10 ^ a = iv div 10 ^ a mod 10 ^ Suc e" unfolding b power_add by (simp add: mod_mult2_eq)
    then show ?thesis by (simp add: mod_mod_cancel)
  qed
  moreover have "?x div 10 ^ a = 10 * (?x div 10 ^ Suc a) + ?x div 10 ^ a mod 10"
    by (metis div_mult2_eq mult.commute mult_div_mod_eq power_Suc)
  ultimately show ?case using ab by (simp add: upt_conv_Cons digits_val_snoc code_digit_char)
qed

lemma dec_real_left: "list_all is_digit s \<Longrightarrow>
    foldl dec_step (coef, fr, True) s = (coef * 10 ^ length s + real (digits_val s), fr, True)"
proof (induction s rule: rev_induct)
  case (snoc c s)
  then have "c \<noteq> CHR ''.''" "48 \<le> code c" by (auto simp: is_digit_def)
  then show ?case using snoc c_code_digit [of c]
    by (simp add: dec_step_def digits_val_snoc distrib_right)
qed simp

lemma dec_real_right: "list_all is_digit s \<Longrightarrow>
    foldl dec_step (coef, 1 / 10, False) s = (coef + real (digits_val s) / 10 ^ length s, 1 / 10 ^ Suc (length s), False)"
proof (induction s rule: rev_induct)
  case (snoc c s)
  then have c: "c \<noteq> CHR ''.''" "is_digit c" by (auto simp: is_digit_def)
  then show ?case using snoc c_code_digit [of c]
    by (simp add: dec_step_def digits_val_snoc field_simps)
qed simp

lemma dec_real_decimal: "list_all is_digit s \<Longrightarrow> list_all is_digit t \<Longrightarrow>
    dec_real (s @ ''.'' @ t) = real (digits_val s) + real (digits_val t) / 10 ^ length t"
  "list_all is_digit s \<Longrightarrow> dec_real s = real (digits_val s)"
  by (simp_all add: dec_real_def dec_real_left dec_step_def dec_real_right)


text \<open>What a weight is after a round trip.\<close>

definition stored_weight :: "real \<Rightarrow> real" where
  "stored_weight w = (if w < 0 then - 1 else 1) * (real_of_int \<lfloor>\<bar>w\<bar> * 10000 + 1 / 2\<rfloor> / 10000)"

lemma stored_weight_close: "\<bar>stored_weight w - w\<bar> \<le> 1 / 20000"
proof -
  define f where "f = real_of_int \<lfloor>\<bar>w\<bar> * 10000 + 1 / 2\<rfloor>"
  have "\<bar>w\<bar> * 10000 - 1 / 2 < f" "f \<le> \<bar>w\<bar> * 10000 + 1 / 2" unfolding f_def by linarith+
  then have f: "\<bar>f / 10000 - \<bar>w\<bar>\<bar> \<le> 1 / 20000" unfolding abs_le_iff by (intro conjI; linarith)
  then have "\<bar>(- 1) * (f / 10000) - w\<bar> \<le> 1 / 20000" if "w < 0" using that by linarith
  moreover have "\<bar>1 * (f / 10000) - w\<bar> \<le> 1 / 20000" if "\<not> w < 0" using that f by linarith
  ultimately show ?thesis unfolding stored_weight_def f_def [symmetric] by (metis (full_types))
qed

lemma real_div_mod: "real n = real (n div 10 ^ 4) * 10 ^ 4 + real (n mod 10 ^ 4)"
proof -
  have "real n = real (n div 10 ^ 4 * 10 ^ 4 + n mod 10 ^ 4)" by (simp only: div_mult_mod_eq)
  also have "\<dots> = real (n div 10 ^ 4) * 10 ^ 4 + real (n mod 10 ^ 4)" by (simp only: of_nat_add of_nat_mult of_nat_power of_nat_numeral)
  finally show ?thesis .
qed

lemma weight_text_body:
  assumes "0 < w" "w * 10000 + 1 / 2 < 2 ^ 63"
  shows "\<exists>s t. weight_text w = Some (s @ ''.'' @ t) \<and> list_all is_digit s \<and> list_all is_digit t \<and> s \<noteq> [] \<and>
     real (digits_val s) + real (digits_val t) / 10 ^ length t = real_of_int \<lfloor>w * 10000 + 1 / 2\<rfloor> / 10000"
proof -
  let ?r = "\<lfloor>w * 10000 + 1 / 2\<rfloor>" let ?n = "nat ?r"
  have r0: "0 \<le> ?r" and r1: "?r < 2 ^ 63" using assms by (simp_all add: floor_less_iff)
  obtain len where len: "weight_digits ?n 0 = map (\<lambda>k. ?n div 10 ^ k mod 10) [0..<len]" "?n < 10 ^ len" "5 \<le> len"
    using weight_digits_nth [of ?n 0] by auto
  let ?tb = "weight_digits ?n 0"
  have l: "length ?tb = len" by (simp add: len(1))
  have nth: "k < len \<Longrightarrow> ?tb ! k = ?n div 10 ^ k mod 10" for k by (simp add: len(1))
  define b0 where "b0 = (case find (\<lambda>c_ix. ?tb ! c_ix \<noteq> 0) [0..<length ?tb] of None \<Rightarrow> 0 | Some i \<Rightarrow> i)"
  define b where "b = (if b0 > 4 then 4 else b0)"
  have b4: "b \<le> 4" by (simp add: b_def)
  have zero: "?tb ! k = 0" if "k < b" for k
    using that by (auto simp: b_def b0_def find_upt_Some split: option.splits if_splits)
  have low: "?n mod 10 ^ k = 0" if "k \<le> b" for k
    using that
  proof (induction k)
    case (Suc k)
    have "?n div 10 ^ k mod 10 = 0" using zero [of k] nth [of k] Suc.prems b4 len(3) by simp
    moreover have "?n mod 10 ^ Suc k = 10 ^ k * (?n div 10 ^ k mod 10) + ?n mod 10 ^ k"
      by (metis mod_mult2_eq mult.commute power_Suc)
    ultimately show ?case using Suc by simp
  qed simp
  let ?dg = "\<lambda>k. digit_char (?n div 10 ^ k mod 10)"
  define s where "s = map ?dg (rev [4..<len])"
  define t where "t = map ?dg (rev [b..<4])"
  have ix: "rev [b..<len] = rev [5..<len] @ [4] @ rev [b..<4]"
  proof -
    have "[b..<len] = [b..<4] @ [4..<len]" using b4 len(3) upt_add_eq_append [of b 4 "len - 4"] by simp
    moreover have "[4..<len] = 4 # [5..<len]" using len(3) by (simp add: upt_conv_Cons)
    ultimately show ?thesis by simp
  qed
  have out: "concat (map (\<lambda>k. c_char (48 + int (?tb ! k)) # (if k = 4 then ''.'' else '''')) (rev [b..<length ?tb])) = s @ ''.'' @ t"
  proof -
    have c: "c_char (48 + int (?tb ! k)) = ?dg k" if "k < len" for k using nth [OF that] c_char_digit by simp
    have one: "concat (map (\<lambda>k. c_char (48 + int (?tb ! k)) # (if k = 4 then ''.'' else '''')) ks) = map ?dg ks"
      if "\<forall>k\<in>set ks. k < len \<and> k \<noteq> 4" for ks using that c by (induction ks) auto
    have "s = map ?dg (rev [5..<len]) @ [?dg 4]" using len(3) by (simp add: s_def upt_conv_Cons)
    moreover have "concat (map (\<lambda>k. c_char (48 + int (?tb ! k)) # (if k = 4 then ''.'' else '''')) (rev [5..<len])) = map ?dg (rev [5..<len])"
      by (rule one) auto
    moreover have "concat (map (\<lambda>k. c_char (48 + int (?tb ! k)) # (if k = 4 then ''.'' else '''')) (rev [b..<4])) = t"
      unfolding t_def by (rule one) (use len(3) in auto)
    ultimately show ?thesis unfolding l ix using c [of 4] len(3) by simp
  qed
  have dig: "is_digit (?dg k)" for k by (simp add: is_digit_def code_digit_char)
  have vs: "digits_val s = ?n div 10 ^ 4"
    using digits_val_slice [of 4 len ?n] len by (simp add: s_def)
  have vt: "digits_val t = ?n mod 10 ^ 4 div 10 ^ b" unfolding t_def by (rule digits_val_slice [OF b4])
  have "?n mod 10 ^ 4 = 10 ^ b * (?n mod 10 ^ 4 div 10 ^ b)"
  proof -
    have "(10::nat) ^ b dvd 10 ^ 4" by (rule le_imp_power_dvd [OF b4])
    then have "?n mod 10 ^ 4 mod 10 ^ b = 0" using low [OF order_refl] by (simp add: mod_mod_cancel)
    then show ?thesis by (metis add.right_neutral mult_div_mod_eq)
  qed
  then have "real (?n mod 10 ^ 4) = real (10 ^ b * digits_val t)" unfolding vt by (rule arg_cong)
  then have vt': "real (?n mod 10 ^ 4) = 10 ^ b * real (digits_val t)" by (simp only: of_nat_mult of_nat_power of_nat_numeral)
  have "real (digits_val t) / 10 ^ length t = real (?n mod 10 ^ 4) / 10 ^ 4"
  proof -
    have "(10::real) ^ 4 = 10 ^ b * 10 ^ length t" using b4 by (simp add: t_def power_add [symmetric])
    then show ?thesis unfolding vt' by (simp only: nonzero_mult_divide_mult_cancel_left zero_neq_numeral power_not_zero not_False_eq_True)
  qed
  moreover have "real ?n = real (?n div 10 ^ 4) * 10 ^ 4 + real (?n mod 10 ^ 4)"
    by (rule real_div_mod)
  ultimately have "real (digits_val s) + real (digits_val t) / 10 ^ length t = real ?n / 10 ^ 4"
    unfolding vs by (simp add: field_simps)
  moreover have "real ?n = real_of_int ?r" using r0 by simp
  moreover have "weight_text w = Some (s @ ''.'' @ t)"
  proof -
    have n: "\<not> w < 0" "w \<noteq> 0" "\<not> 2 ^ 63 \<le> ?r" "c_trunc (w * 10000 + 1 / 2) = ?r"
      using assms(1) r1 by (auto simp: c_trunc_nonneg)
    show ?thesis
      unfolding weight_text_def Let_def if_not_P [OF n(1)] n(4) if_not_P [OF n(2)] if_not_P [OF n(3)]
        b0_def [symmetric] b_def [symmetric] out by simp
  qed
  moreover have "list_all is_digit s" "list_all is_digit t" "s \<noteq> []"
    using dig len(3) by (simp_all add: s_def t_def list_all_iff)
  ultimately show ?thesis by (intro exI [of _ s] exI [of _ t]) simp
qed


definition plain_number :: "string \<Rightarrow> bool" where
  "plain_number s = (\<forall>c\<in>set s. is_digit c \<or> c = CHR ''-'' \<or> c = CHR ''.'')"

lemma plain_number_clean: "plain_number s \<Longrightarrow> CHR '','' \<notin> set s \<and> NUL \<notin> set s \<and> CHR ''X'' \<notin> set s"
  by (force simp: plain_number_def is_digit_def)

lemma stored_weight_simps: "stored_weight 0 = 0" "0 < w \<Longrightarrow> stored_weight w = real_of_int \<lfloor>w * 10000 + 1 / 2\<rfloor> / 10000"
  "w < 0 \<Longrightarrow> stored_weight w = - stored_weight (- w)"
  by (simp_all add: stored_weight_def)

lemma weight_field_signless:
  assumes "plain_number t" "t \<noteq> []" "hd t \<noteq> CHR ''-''"
  shows "weight_field (Some (t @ CHR '','' # r)) = Some (dec_real t, Some r)" "weight_field (Some t) = Some (dec_real t, None)"
    "weight_field (Some (CHR ''-'' # t @ CHR '','' # r)) = Some (- dec_real t, Some r)"
    "weight_field (Some (CHR ''-'' # t)) = Some (- dec_real t, None)"
proof -
  have c: "\<forall>c\<in>set t. c \<noteq> CHR '','' \<and> c \<noteq> NUL" using plain_number_clean [OF assms(1)] by auto
  then have tk: "takeWhile (\<lambda>c. c \<noteq> CHR '','' \<and> c \<noteq> NUL) (t @ z) = t @ takeWhile (\<lambda>c. c \<noteq> CHR '','' \<and> c \<noteq> NUL) z" for z
    by (intro takeWhile_append2) auto
  have h: "hd (t @ CHR '','' # r) = hd t" "t @ CHR '','' # r \<noteq> []" using assms(2) by simp_all
  have e: "takeWhile (\<lambda>c. c \<noteq> CHR '','' \<and> c \<noteq> NUL) t = t" using tk [of "[]"] by simp
  show "weight_field (Some (t @ CHR '','' # r)) = Some (dec_real t, Some r)" "weight_field (Some t) = Some (dec_real t, None)"
    "weight_field (Some (CHR ''-'' # t @ CHR '','' # r)) = Some (- dec_real t, Some r)"
    "weight_field (Some (CHR ''-'' # t)) = Some (- dec_real t, None)"
    using assms(2,3) by (simp_all add: weight_field_def Let_def tk e h)
qed

lemma weight_positive:
  assumes "0 < w" "w * 10000 + 1 / 2 < 2 ^ 63"
  shows "\<exists>t. weight_text w = Some t \<and> plain_number t \<and> t \<noteq> [] \<and> hd t \<noteq> CHR ''-'' \<and> dec_real t = stored_weight w"
proof -
  obtain s t where st: "weight_text w = Some (s @ ''.'' @ t)" "list_all is_digit s" "list_all is_digit t" "s \<noteq> []"
    "real (digits_val s) + real (digits_val t) / 10 ^ length t = real_of_int \<lfloor>w * 10000 + 1 / 2\<rfloor> / 10000"
    using weight_text_body [OF assms] by blast
  have "plain_number (s @ ''.'' @ t)" using st(2,3) by (auto simp: plain_number_def list_all_iff)
  moreover have "hd (s @ ''.'' @ t) \<noteq> CHR ''-''" using st(2,4) by (cases s) (auto simp: is_digit_def)
  moreover have "dec_real (s @ ''.'' @ t) = stored_weight w"
    using st(5) by (simp only: dec_real_decimal(1) [OF st(2,3)] stored_weight_simps(2) [OF assms(1)])
  ultimately show ?thesis using st(1) by (intro exI [of _ "s @ ''.'' @ t"]) simp
qed

lemma weight_text_neg: "w < 0 \<Longrightarrow> weight_text w = map_option (\<lambda>t. CHR ''-'' # t) (weight_text (- w))"
  by (simp add: weight_text_def Let_def)

lemma weight_field_app:
  assumes "\<bar>w\<bar> * 10000 + 1 / 2 < 2 ^ 63"
  shows "\<exists>t. weight_text w = Some t \<and> plain_number t \<and> weight_field (Some t) = Some (stored_weight w, None) \<and>
     (\<forall>r. weight_field (Some (t @ CHR '','' # r)) = Some (stored_weight w, Some r))"
proof -
  consider (z) "w = 0" | (p) "0 < w" | (n) "w < 0" by linarith
  then show ?thesis
  proof cases
    case z
    have p: "plain_number ''0''" by (simp add: plain_number_def is_digit_def)
    have "dec_real ''0'' = 0" by (simp add: dec_real_def dec_step_def c_code_def)
    then show ?thesis using weight_field_signless(1,2) [OF p] z p
      by (intro exI [of _ "''0''"]) (simp add: weight_text_def stored_weight_simps)
  next
    case p
    then have "w * 10000 + 1 / 2 < 2 ^ 63" using assms by (simp only: abs_of_pos)
    from weight_positive [OF p this] obtain t where t: "weight_text w = Some t" "plain_number t" "t \<noteq> []" "hd t \<noteq> CHR ''-''"
      "dec_real t = stored_weight w" by blast
    show ?thesis using weight_field_signless(1,2) [OF t(2,3,4)] t(1,2,5) by (intro exI [of _ t]) simp
  next
    case n
    then have "0 < - w" "(- w) * 10000 + 1 / 2 < 2 ^ 63" using assms by (simp_all only: abs_of_neg neg_0_less_iff_less)
    from weight_positive [OF this] obtain t where t: "weight_text (- w) = Some t" "plain_number t" "t \<noteq> []" "hd t \<noteq> CHR ''-''"
      "dec_real t = stored_weight (- w)" by blast
    have "plain_number (CHR ''-'' # t)" using t(2) by (simp add: plain_number_def)
    then show ?thesis using weight_field_signless(3,4) [OF t(2,3,4)] t(1,5) n
      by (intro exI [of _ "CHR ''-'' # t"]) (simp add: weight_text_neg stored_weight_simps)
  qed
qed


section \<open>Pieces read back\<close>

lemma pairs_update:
  assumes "length xs = n * 2" "k < n"
  shows "(take (k * 2) xs @ replicate ((n - k) * 2) z)[k * 2 := xs ! (k * 2), k * 2 + 1 := xs ! (k * 2 + 1)] =
     take (Suc k * 2) xs @ replicate ((n - Suc k) * 2) z"
proof -
  have r: "replicate ((n - k) * 2) z = z # z # replicate ((n - Suc k) * 2) z"
    using assms(2) by (cases "n - k") (auto simp: Suc_diff_Suc)
  have t: "take (Suc k * 2) xs = take (k * 2) xs @ [xs ! (k * 2), xs ! (k * 2 + 1)]"
    using assms by (simp add: take_Suc_conv_app_nth)
  have "length (take (k * 2) xs) = k * 2" using assms by simp
  then show ?thesis unfolding r t by (simp add: list_update_append)
qed

lemma pairs_fresh: "length xs = n * 2 \<Longrightarrow> k < n \<Longrightarrow>
    (take (k * 2) xs @ replicate ((n - k) * 2) z) ! (k * 2) = z \<and> (take (k * 2) xs @ replicate ((n - k) * 2) z) ! (k * 2 + 1) = z"
  by (simp add: nth_append)

text \<open>The box after the edges of the first \<open>k\<close> dimensions, and the box in the end.\<close>

definition edges_done :: "ivpbox \<Rightarrow> nat \<Rightarrow> ivpbox" where
  "edges_done b k = \<lparr>m_dim = m_dim b, m_degree = m_degree b,
     m_pts = take (k * 2) (m_pts b) @ replicate ((m_dim b - k) * 2) 0,
     m_bds = take (k * 2) (m_bds b) @ replicate ((m_dim b - k) * 2) True,
     m_wts = replicate (getWtc b) 0, m_of = 0, m_markval = False\<rparr>"

definition stored_piece :: "ivpbox \<Rightarrow> ivpbox" where
  "stored_piece b = b\<lparr>m_wts := map stored_weight (m_wts b), m_of := 0, m_markval := False\<rparr>"

text \<open>A piece whose ends the text can hold.\<close>

definition piece_fits :: "ivpbox \<Rightarrow> bool" where
  "piece_fits b \<longleftrightarrow> (\<forall>d<m_dim b. 0 \<le> pt b d 0 \<and> pt b d 0 < 2 ^ 31 \<and> 0 \<le> pt b d 1 \<and> pt b d 1 < 2 ^ 31) \<and>
     (\<forall>w\<in>set (m_wts b). \<bar>w\<bar> * 10000 + 1 / 2 < 2 ^ 63)"

lemma list_update_same: "xs ! i = x \<Longrightarrow> xs[i := x] = xs"
  by auto

lemma edge_step:
  assumes "wf_box b" "piece_fits b" "d < m_dim b"
  shows "read_edge (edges_done b d, Some (edge_text b d @ r)) d = Some (edges_done b (Suc d), Some r)"
proof -
  have n: "length (m_pts b) = m_dim b * 2" "length (m_bds b) = m_dim b * 2" using assms(1) by (simp_all add: wf_box_def)
  obtain l h where lh: "pt b d 0 = int l" "pt b d 1 = int h" "l < 2 ^ 31" "h < 2 ^ 31"
  proof -
    have "0 \<le> pt b d 0 \<and> pt b d 0 < 2 ^ 31 \<and> 0 \<le> pt b d 1 \<and> pt b d 1 < 2 ^ 31" using assms(2,3) by (simp add: piece_fits_def)
    then show ?thesis by (intro that [of "nat (pt b d 0)" "nat (pt b d 1)"]) (auto simp: nat_less_iff)
  qed
  have l: "edge_field (Some (edge_text b d @ r)) =
      Some (\<not> bd b d 0, int l, Some ((if \<not> bd b d 1 then ''X'' else '''') @ nat_str h @ CHR '','' # r))"
    unfolding edge_text_def lh(1,2) edge_numbers append_assoc append_Cons append_Nil by (rule edge_field_app [OF lh(3)])
  note h = edge_field_app [OF lh(4), of "\<not> bd b d 1" r]
  have open_ends: "(if \<not> bd b d e then set_bd d e False nb else nb) = set_bd d e (bd b d e) nb"
    if "m_bds nb ! (d * 2 + e) = True" for e nb
    using that by (cases "bd b d e") (simp_all add: set_bd_def list_update_same)
  have "m_bds (edges_done b d) ! (d * 2 + 0) = True" "m_bds (set_bd d 0 v (edges_done b d)) ! (d * 2 + 1) = True" for v
    using pairs_fresh [OF n(2) assms(3), of True] by (simp_all add: edges_done_def set_bd_def)
  note o = open_ends [OF this(1)] open_ends [OF this(2)]
  have "setPTS d (pt b d 0) (pt b d 1) (set_bd d 1 (bd b d 1) (set_bd d 0 (bd b d 0) (edges_done b d))) = edges_done b (Suc d)"
    using pairs_update [OF n(1) assms(3), of 0] pairs_update [OF n(2) assms(3), of True]
    by (simp add: edges_done_def setPTS_def set_pt_def set_bd_def pt_def bd_def)
  then show ?thesis unfolding read_edge_def prod.case l h Let_def Option.bind.simps lh(1,2) [symmetric] o by simp
qed

lemma edges_read:
  assumes "wf_box b" "piece_fits b"
  shows "k \<le> m_dim b \<Longrightarrow> foldM read_edge (edges_done b 0, Some (concat (map (edge_text b) [0..<k]) @ r)) [0..<k] = Some (edges_done b k, Some r)"
proof (induction k arbitrary: r)
  case (Suc k)
  then show ?case using edge_step [OF assms, of k r] by (simp add: foldM_append)
qed simp

lemma edges_done_new: "0 < m_dim b \<Longrightarrow> m_dim b < 2 ^ 16 \<Longrightarrow> m_degree b < 2 ^ 16 \<Longrightarrow>
    IvPBox_new (int (m_dim b)) (int (m_degree b)) = edges_done b 0"
proof -
  assume a: "0 < m_dim b" "m_dim b < 2 ^ 16" "m_degree b < 2 ^ 16"
  have m: "nat (int k mod 2 ^ 16) = k" if "k < 2 ^ 16" for k :: nat using that by (simp only: mod_pos_pos_trivial of_nat_0_le_iff nat_int of_nat_less_numeral_power_cancel_iff)
  show ?thesis unfolding IvPBox_new_def Let_def m [OF a(2)] m [OF a(3)] if_P [OF a(1)] by (simp add: edges_done_def getWtc_def)
qed


text \<open>The box after \<open>j\<close> weights.\<close>

definition weights_done :: "ivpbox \<Rightarrow> nat \<Rightarrow> ivpbox" where
  "weights_done b j = (stored_piece b)\<lparr>m_wts := take j (map stored_weight (m_wts b)) @ replicate (getWtc b - j) 0\<rparr>"

lemma weights_done_ends:
  assumes "wf_box b" "0 < m_dim b"
  shows "edges_done b (m_dim b) = weights_done b 0" "weights_done b (getWtc b) = stored_piece b"
  using assms by (simp_all add: edges_done_def weights_done_def stored_piece_def wf_box_def)

definition wt_str :: "real \<Rightarrow> string" where
  "wt_str w = the (weight_text w)"

lemma wt_str:
  assumes "\<bar>w\<bar> * 10000 + 1 / 2 < 2 ^ 63"
  shows "weight_text w = Some (wt_str w)" "plain_number (wt_str w)" "weight_field (Some (wt_str w)) = Some (stored_weight w, None)"
    "weight_field (Some (wt_str w @ CHR '','' # r)) = Some (stored_weight w, Some r)"
  using weight_field_app [OF assms] by (auto simp: wt_str_def)

lemma weight_step:
  assumes "wf_box b" "piece_fits b" "0 < m_dim b" "j < getWtc b"
  shows "read_weight (weights_done b j, Some (wt_str (wt b j) @ CHR '','' # r)) j = Some (weights_done b (Suc j), Some r)"
    "read_weight (weights_done b j, Some (wt_str (wt b j))) j = Some (weights_done b (Suc j), None)"
proof -
  have l: "length (m_wts b) = getWtc b" using assms(1,3) by (simp add: wf_box_def)
  then have "wt b j \<in> set (m_wts b)" using assms(4) by (simp add: wt_def)
  then have f: "\<bar>wt b j\<bar> * 10000 + 1 / 2 < 2 ^ 63" using assms(2) by (simp add: piece_fits_def)
  have j: "\<not> length (m_wts (weights_done b j)) \<le> j" using l assms(4) by (simp add: weights_done_def)
  have r: "replicate (getWtc b - j) (0::real) = 0 # replicate (getWtc b - Suc j) 0"
    using assms(4) by (cases "getWtc b - j") (auto simp: Suc_diff_Suc)
  have "set_wt j (stored_weight (wt b j)) (weights_done b j) = weights_done b (Suc j)"
    using l assms(4) unfolding weights_done_def r by (simp add: set_wt_def list_update_append take_Suc_conv_app_nth wt_def)
  then show "read_weight (weights_done b j, Some (wt_str (wt b j) @ CHR '','' # r)) j = Some (weights_done b (Suc j), Some r)"
    "read_weight (weights_done b j, Some (wt_str (wt b j))) j = Some (weights_done b (Suc j), None)"
    using wt_str(3,4) [OF f] j by (simp_all add: read_weight_def)
qed

text \<open>The weights with a comma behind each, and without the last comma.\<close>

definition weight_str :: "ivpbox \<Rightarrow> nat \<Rightarrow> string" where
  "weight_str b j = wt_str (wt b j) @ '',''"

lemma weights_read:
  assumes "wf_box b" "piece_fits b" "0 < m_dim b"
  shows "j \<le> getWtc b \<Longrightarrow>
    foldM read_weight (weights_done b 0, Some (concat (map (weight_str b) [0..<j]) @ r)) [0..<j] = Some (weights_done b j, Some r)"
proof (induction j arbitrary: r)
  case (Suc j)
  then show ?case using weight_step(1) [OF assms, of j r] by (simp add: foldM_append weight_str_def)
qed simp

definition weights_str :: "ivpbox \<Rightarrow> bool \<Rightarrow> string" where
  "weights_str b last_one = concat (map (weight_str b) [0..<getWtc b - 1]) @ wt_str (wt b (getWtc b - 1)) @ (if last_one then '''' else '','')"

lemma weights_read_all:
  assumes "wf_box b" "piece_fits b" "0 < m_dim b"
  shows "foldM read_weight (weights_done b 0, Some (weights_str b False @ r)) [0..<getWtc b] = Some (stored_piece b, Some r)"
    "foldM read_weight (weights_done b 0, Some (weights_str b True)) [0..<getWtc b] = Some (stored_piece b, None)"
proof -
  have w: "[0..<getWtc b] = [0..<getWtc b - 1] @ [getWtc b - 1]" "Suc (getWtc b - 1) = getWtc b" "getWtc b - 1 < getWtc b"
    "getWtc b - 1 \<le> getWtc b"
    by (simp_all add: getWtc_def)
  note s = weight_step [OF assms w(3), unfolded w(2) weights_done_ends(2) [OF assms(1,3)]]
  show "foldM read_weight (weights_done b 0, Some (weights_str b False @ r)) [0..<getWtc b] = Some (stored_piece b, Some r)"
    unfolding w(1) foldM_append weights_str_def append_assoc weights_read [OF assms w(4)] using s(1) [of r] by simp
  show "foldM read_weight (weights_done b 0, Some (weights_str b True)) [0..<getWtc b] = Some (stored_piece b, None)"
    unfolding w(1) foldM_append weights_str_def append_assoc weights_read [OF assms w(4)] using s(2) by simp
qed

definition piece_str :: "ivpbox \<Rightarrow> bool \<Rightarrow> string" where
  "piece_str b last_one = concat (map (edge_text b) [0..<m_dim b]) @ weights_str b last_one"

lemma piece_read:
  assumes "wf_box b" "piece_fits b" "0 < m_dim b" "m_dim b < 2 ^ 16" "m_degree b < 2 ^ 16"
  shows "read_piece (m_dim b) (m_degree b) (pd, Some (piece_str b False @ r)) i = Some (bx_new i (stored_piece b) pd, Some r)"
    "read_piece (m_dim b) (m_degree b) (pd, Some (piece_str b True)) i = Some (bx_new i (stored_piece b) pd, None)"
proof -
  have w: "[0..<m_degree b * m_dim b + 1] = [0..<getWtc b]" by (simp only: getWtc_def)
  have e: "foldM read_edge (edges_done b 0, Some (concat (map (edge_text b) [0..<m_dim b]) @ z)) [0..<m_dim b] = Some (weights_done b 0, Some z)" for z
    using edges_read [OF assms(1,2) order_refl, of z] unfolding weights_done_ends(1) [OF assms(1,3)] .
  show "read_piece (m_dim b) (m_degree b) (pd, Some (piece_str b False @ r)) i = Some (bx_new i (stored_piece b) pd, Some r)"
    using e [of "weights_str b False @ r"] weights_read_all(1) [OF assms(1,2,3), of r]
    unfolding read_piece_def prod.case edges_done_new [OF assms(3,4,5)] piece_str_def append_assoc w by simp
  show "read_piece (m_dim b) (m_degree b) (pd, Some (piece_str b True)) i = Some (bx_new i (stored_piece b) pd, None)"
    using e [of "weights_str b True"] weights_read_all(2) [OF assms(1,2,3)]
    unfolding read_piece_def prod.case edges_done_new [OF assms(3,4,5)] piece_str_def append_assoc w by simp
qed


section \<open>The writer\<close>

lemma weights_text_prefix:
  assumes "piece_fits b" "wf_box b" "0 < m_dim b" "j \<le> getWtc b - 1"
  shows "foldM (\<lambda>s j. weight_text (wt b j) \<bind> (\<lambda>w. Some (s @ w @ (if i < pcs - 1 \<or> j < getWtc b - 1 then '','' else '''')))) '''' [0..<j] =
    Some (concat (map (weight_str b) [0..<j]))"
  using assms(4)
proof (induction j)
  case (Suc j)
  then have "wt b j \<in> set (m_wts b)" using assms(2,3) by (simp add: wt_def wf_box_def)
  then have "weight_text (wt b j) = Some (wt_str (wt b j))" using assms(1) wt_str(1) by (simp add: piece_fits_def)
  then show ?case using Suc by (simp add: foldM_append weight_str_def)
qed simp

lemma weights_text_str:
  assumes "piece_fits b" "wf_box b" "0 < m_dim b" "i < pcs"
  shows "weights_text pcs (getWtc b) i b = Some (weights_str b (i = pcs - 1))"
proof -
  have w: "[0..<getWtc b] = [0..<getWtc b - 1] @ [getWtc b - 1]" "getWtc b - 1 < getWtc b" by (simp_all add: getWtc_def)
  then have "wt b (getWtc b - 1) \<in> set (m_wts b)" using assms(2,3) by (simp add: wt_def wf_box_def)
  then have "weight_text (wt b (getWtc b - 1)) = Some (wt_str (wt b (getWtc b - 1)))" using assms(1) wt_str(1) by (simp add: piece_fits_def)
  moreover have "(i < pcs - 1) = (i \<noteq> pcs - 1)" using assms(4) by auto
  ultimately show ?thesis
    unfolding weights_text_def w(1) foldM_append weights_text_prefix [OF assms(1-3) order_refl] weights_str_def by simp
qed

lemma piece_text_str:
  assumes "piece_fits b" "wf_box b" "0 < m_dim b" "i < pcs"
  shows "piece_text (m_dim b) pcs (getWtc b) i b = Some (piece_str b (i = pcs - 1))"
  using assms weights_text_str [OF assms] by (simp add: piece_text_def wf_box_def piece_str_def)

definition pieces_str :: "ivpbox list \<Rightarrow> string" where
  "pieces_str bs = concat (map (\<lambda>i. piece_str (bs ! i) (i = length bs - 1)) [0..<length bs])"

lemma pieces_str_snoc: "pieces_str (bs @ [b]) = concat (map (\<lambda>b. piece_str b False) bs) @ piece_str b True"
proof -
  have "map (\<lambda>i. piece_str ((bs @ [b]) ! i) (i = length bs)) [0..<length bs] = map (\<lambda>b. piece_str b False) bs"
    by (intro nth_equalityI) (auto simp: nth_append)
  then show ?thesis by (simp add: pieces_str_def)
qed

lemma body_text:
  assumes "filled pd" "\<forall>b\<in>set (pieces pd). piece_fits b \<and> wf_box b \<and> 0 < m_dim b \<and> m_dim b = dm \<and> getWtc b = wtc"
  shows "foldM (\<lambda>s i. box_at pd i \<bind> (\<lambda>p. piece_text dm (m_boxCount pd) wtc i (pd_store pd p) \<bind> (\<lambda>t. Some (s @ t)))) '''' [0..<m_boxCount pd] =
    Some (pieces_str (pieces pd))"
proof -
  let ?pc = "\<lambda>i. piece_str (pieces pd ! i) (i = m_boxCount pd - 1)"
  have step: "(box_at pd i \<bind> (\<lambda>p. piece_text dm (m_boxCount pd) wtc i (pd_store pd p) \<bind> (\<lambda>t. Some (s @ t)))) = Some (s @ ?pc i)"
    if "i < m_boxCount pd" for i s
  proof -
    have "pieces pd ! i \<in> set (pieces pd)" using that by simp
    then have p: "piece_fits (pieces pd ! i)" "wf_box (pieces pd ! i)" "0 < m_dim (pieces pd ! i)" "m_dim (pieces pd ! i) = dm"
      "getWtc (pieces pd ! i) = wtc" using assms(2) by blast+
    have "piece_text dm (m_boxCount pd) wtc i (pieces pd ! i) = Some (?pc i)"
      using piece_text_str [OF p(1-3) that] by (simp only: p(4,5))
    then show ?thesis unfolding box_at_ptrs [OF assms(1) that] pieces_nth [OF that] by simp
  qed
  have "foldM (\<lambda>s i. box_at pd i \<bind> (\<lambda>p. piece_text dm (m_boxCount pd) wtc i (pd_store pd p) \<bind> (\<lambda>t. Some (s @ t)))) '''' [0..<m_boxCount pd] =
     Some (foldl (\<lambda>s i. s @ ?pc i) '''' [0..<m_boxCount pd])"
    by (rule foldM_total) (use step in simp)
  also have "foldl (\<lambda>s i. s @ ?pc i) s ks = s @ concat (map ?pc ks)" for s ks by (induction ks arbitrary: s) auto
  finally show ?thesis by (simp add: pieces_str_def)
qed

section \<open>The pieces of a map read back\<close>

definition read_map :: "ivpdomain \<Rightarrow> nat \<Rightarrow> ivpbox \<Rightarrow> nat \<Rightarrow> ivpbox list \<Rightarrow> nat \<Rightarrow> pdmap" where
  "read_map D deg gb n bs k = \<lparr>pd_domain = D, m_boxes = map (\<lambda>i. if i < k then Some i else None) [0..<n],
     m_boxCount = n, pd_degree = deg, m_gelbox = gb, m_grid = None,
     pd_store = (\<lambda>p. if p < k then stored_piece (bs ! p) else IvPBox_new 0 1), pd_next = k\<rparr>"

lemma read_map_step: "k < n \<Longrightarrow> bx_new k (stored_piece (bs ! k)) (read_map D deg gb n bs k) = read_map D deg gb n bs (Suc k)"
proof -
  assume k: "k < n"
  have "(map (\<lambda>i. if i < k then Some i else None) [0..<n])[k := Some k] = map (\<lambda>i. if i < Suc k then Some i else None) [0..<n]"
    using k by (intro nth_equalityI) (auto simp: nth_list_update)
  moreover have "(\<lambda>p. if p < k then stored_piece (bs ! p) else IvPBox_new 0 1)(k := stored_piece (bs ! k)) =
      (\<lambda>p. if p < Suc k then stored_piece (bs ! p) else IvPBox_new 0 1)"
    by (auto simp: fun_eq_iff less_Suc_eq)
  ultimately show ?thesis by (simp add: read_map_def bx_new_def del: fun_upd_apply)
qed

definition readable :: "nat \<Rightarrow> nat \<Rightarrow> ivpbox \<Rightarrow> bool" where
  "readable dm deg b \<longleftrightarrow> wf_box b \<and> piece_fits b \<and> m_dim b = dm \<and> m_degree b = deg"

lemma pieces_read_prefix:
  assumes "0 < dm" "dm < 2 ^ 16" "deg < 2 ^ 16" "\<forall>b\<in>set bs. readable dm deg b" "k \<le> length bs" "length bs \<le> n"
  shows "foldM (read_piece dm deg) (read_map D deg gb n bs 0, Some (concat (map (\<lambda>b. piece_str b False) (take k bs)) @ r)) [0..<k] =
    Some (read_map D deg gb n bs k, Some r)"
  using assms(5)
proof (induction k arbitrary: r)
  case (Suc k)
  let ?b = "bs ! k"
  have k: "k < n" "k < length bs" using Suc.prems assms(6) by simp_all
  have b: "readable dm deg ?b" using assms(4) k(2) by simp
  then have d: "m_dim ?b = dm" "m_degree ?b = deg" "wf_box ?b" "piece_fits ?b" by (simp_all add: readable_def)
  have t: "take (Suc k) bs = take k bs @ [?b]" using k(2) by (simp add: take_Suc_conv_app_nth)
  have "read_piece dm deg (read_map D deg gb n bs k, Some (piece_str ?b False @ r)) k = Some (read_map D deg gb n bs (Suc k), Some r)"
    using piece_read(1) [OF d(3,4), unfolded d(1,2), OF assms(1-3)] read_map_step [OF k(1)] by simp
  then show ?case using Suc.IH [of "piece_str ?b False @ r"] Suc.prems by (simp add: foldM_append t)
qed simp

lemma pieces_read:
  assumes "0 < dm" "dm < 2 ^ 16" "deg < 2 ^ 16" "\<forall>b\<in>set bs. readable dm deg b" "bs \<noteq> []"
  shows "foldM (read_piece dm deg) (read_map D deg gb (length bs) bs 0, Some (pieces_str bs)) [0..<length bs] =
    Some (read_map D deg gb (length bs) bs (length bs), None)"
proof -
  obtain cs b where bs: "bs = cs @ [b]" using assms(5) by (cases bs rule: rev_cases) auto
  have d: "m_dim b = dm" "m_degree b = deg" "wf_box b" "piece_fits b" using assms(4) by (simp_all add: bs readable_def)
  have "foldM (read_piece dm deg) (read_map D deg gb (length bs) bs 0, Some (pieces_str bs)) [0..<length cs] =
      Some (read_map D deg gb (length bs) bs (length cs), Some (piece_str b True))"
    using pieces_read_prefix [OF assms(1-4), of "length cs" "length bs" D gb "piece_str b True"] by (simp add: bs pieces_str_snoc)
  moreover have "read_piece dm deg (read_map D deg gb (length bs) bs (length cs), Some (piece_str b True)) (length cs) =
      Some (read_map D deg gb (length bs) bs (length bs), None)"
    using piece_read(2) [OF d(3,4), unfolded d(1,2), OF assms(1-3)] read_map_step [of "length cs" "length bs" bs] by (simp add: bs)
  moreover have "[0..<length bs] = [0..<length cs] @ [length cs]" by (simp add: bs)
  ultimately show ?thesis by (simp add: foldM_append)
qed


section \<open>The header\<close>

lemma dec_compact:
  assumes "0 \<le> v" "v \<le> 2 ^ 128"
  shows "dec_real (dstringCompact (doubleToString v 5)) = reread v"
proof -
  let ?n = "printed 5 v"
  define z where "z = zero_pad 5 (nat_str (?n mod 10 ^ 5))"
  have "?n mod 10 ^ 5 < 10 ^ 5" "(0::nat) < 5" by simp_all
  note zf = zero_pad_facts [OF this(2,1)]
  have z: "list_all is_digit z" unfolding z_def by (rule zf(3))
  have p: "printf_f 5 v = nat_str (?n div 10 ^ 5) @ ''.'' @ z"
    using assms(1) unfolding printf_f_def Let_def printed_def z_def by (simp only: not_less [symmetric] if_False) simp
  note ds = nat_str_all_digits nat_str_digits(2)
  obtain g where g: "list_all is_digit g" "real (digits_val z) / 10 ^ length z = real (digits_val g) / 10 ^ length g"
    "dstringCompact (nat_str (?n div 10 ^ 5) @ ''.'' @ z) = (if g = [] then nat_str (?n div 10 ^ 5) else nat_str (?n div 10 ^ 5) @ ''.'' @ g)"
    using dstringCompact_shape [OF ds z, where neg = False, unfolded if_False append_Nil] by blast
  have d: "dstringCompact (doubleToString v 5) = (if g = [] then nat_str (?n div 10 ^ 5) else nat_str (?n div 10 ^ 5) @ ''.'' @ g)"
    unfolding doubleToString_5 [OF assms(2)] p g(3) ..
  note a = atof_decimal [where neg = False, OF ds, unfolded if_False append_Nil]
  have "dec_real (dstringCompact (doubleToString v 5)) = atof (dstringCompact (doubleToString v 5))"
    unfolding d using a(1) [OF g(1)] a(2) [OF g(1)] dec_real_decimal(1) [OF ds(1) g(1)] dec_real_decimal(2) [OF ds(1)] by (cases "g = []") (simp_all only: simp_thms if_True if_False mult_1)
  then show ?thesis using compact_value [OF assms(2)] by simp
qed

lemma reread_nonneg: "0 \<le> v \<Longrightarrow> 0 \<le> reread v"
  using reread_mono [of 0 v] reread_exact [of 0 0] by simp

text \<open>A function whose names, context and numbers the text can hold.\<close>

definition sendable :: "ivpfunction \<Rightarrow> bool" where
  "sendable f \<longleftrightarrow> (let pd = m_pdmap f; D = pd_domain pd; gb = m_gelbox pd; cstr = m_context_string f
     in wf_pdmap pd \<and> 0 < m_boxCount pd \<and> printable D \<and> (\<forall>n\<in>set (m_dname D). CHR '';'' \<notin> set n) \<and>
        length (domainToString D True) < 5000 \<and>
        (\<forall>d<dom_size D. 0 \<le> pt gb d 1 \<and> pt gb d 1 \<le> int (getVarPoints_i D d) - 1) \<and>
        (\<forall>b\<in>set (pieces pd). \<forall>w\<in>set (m_wts b). \<bar>w\<bar> * 10000 + 1 / 2 < 2 ^ 63) \<and>
        0 \<le> m_pwt f \<and> m_pwt f \<le> 2 ^ 128 \<and> CHR '','' \<notin> set cstr \<and> NUL \<notin> set cstr \<and> length cstr < 2 ^ 31 \<and>
        m_boxCount pd < 2 ^ 31)"

lemma sendableD:
  assumes "sendable f"
  shows "wf_pdmap (m_pdmap f)" "0 < m_boxCount (m_pdmap f)" "printable (pd_domain (m_pdmap f))"
    "\<forall>n\<in>set (m_dname (pd_domain (m_pdmap f))). CHR '';'' \<notin> set n"
    "length (domainToString (pd_domain (m_pdmap f)) True) < 5000"
    "\<forall>d<pd_dim (m_pdmap f). 0 \<le> pt (m_gelbox (m_pdmap f)) d 1 \<and> pt (m_gelbox (m_pdmap f)) d 1 \<le> int (getVarPoints_i (pd_domain (m_pdmap f)) d) - 1"
    "\<forall>b\<in>set (pieces (m_pdmap f)). \<forall>w\<in>set (m_wts b). \<bar>w\<bar> * 10000 + 1 / 2 < 2 ^ 63"
    "0 \<le> m_pwt f" "m_pwt f \<le> 2 ^ 128" "CHR '','' \<notin> set (m_context_string f)" "NUL \<notin> set (m_context_string f)"
    "length (m_context_string f) < 2 ^ 31" "m_boxCount (m_pdmap f) < 2 ^ 31"
  using assms unfolding sendable_def Let_def pd_dim_def by blast+

lemma sendable_pieces:
  assumes "sendable f"
  shows "\<forall>b\<in>set (pieces (m_pdmap f)). readable (pd_dim (m_pdmap f)) (pd_degree (m_pdmap f)) b"
    "0 < pd_dim (m_pdmap f)" "pd_dim (m_pdmap f) < 2 ^ 16" "pd_degree (m_pdmap f) < 2 ^ 16" "pieces (m_pdmap f) \<noteq> []"
proof -
  note s = sendableD [OF assms]
  note w = wf_pdmapD [OF s(1)]
  show dm: "0 < pd_dim (m_pdmap f)" "pd_dim (m_pdmap f) < 2 ^ 16" using w(1) by (simp_all add: good_domain_def pd_dim_def)
  show "pd_degree (m_pdmap f) < 2 ^ 16" using w(2) by simp
  show "pieces (m_pdmap f) \<noteq> []" using s(2) length_pieces [of "m_pdmap f"] by (metis less_nat_zero_code list.size(3))
  have small: "int (getVarPoints_i (pd_domain (m_pdmap f)) d) < 2 ^ 31" if "d < pd_dim (m_pdmap f)" for d
    using s(3) that by (simp add: printable_def pd_dim_def getVarPoints_i_def)
  show "\<forall>b\<in>set (pieces (m_pdmap f)). readable (pd_dim (m_pdmap f)) (pd_degree (m_pdmap f)) b"
  proof
    fix b assume b: "b \<in> set (pieces (m_pdmap f))"
    then have g: "good_piece (pd_domain (m_pdmap f)) (pd_degree (m_pdmap f)) b" by (rule w(4))
    have "0 \<le> pt b d 0 \<and> pt b d 0 < 2 ^ 31 \<and> 0 \<le> pt b d 1 \<and> pt b d 1 < 2 ^ 31" if "d < m_dim b" for d
    proof -
      have d: "d < pd_dim (m_pdmap f)" using that g by (simp add: good_piece_def pd_dim_def)
      have "0 \<le> pt b d 0 \<and> pt b d 0 \<le> pt b d 1 \<and> pt b d 1 \<le> int (getVarPoints_i (pd_domain (m_pdmap f)) d) - 1"
        using g d by (simp add: good_piece_def pd_dim_def)
      with small [OF d] show ?thesis by linarith
    qed
    then have "piece_fits b" using s(7) b by (simp add: piece_fits_def)
    then show "readable (pd_dim (m_pdmap f)) (pd_degree (m_pdmap f)) b" using g by (simp add: readable_def good_piece_def pd_dim_def)
  qed
qed


lemma joined_set: "set (joined sep xs) \<subseteq> insert sep (\<Union> (set ` set xs))"
  by (induction sep xs rule: joined.induct) auto

lemma domain_text_clean:
  assumes "printable D" "\<forall>n\<in>set (m_dname D). CHR '';'' \<notin> set n"
  shows "NUL \<notin> set (domainToString D True)" "CHR '';'' \<notin> set (domainToString D True)"
proof -
  have c: "NUL \<notin> set (chunk_text D i) \<and> CHR '';'' \<notin> set (chunk_text D i)" if "i < dom_size D" for i
  proof -
    have r: "m_dlow D ! i \<le> 2 ^ 128" "m_dhigh D ! i \<le> 2 ^ 128" "i < length (m_dname D)"
      using assms(1) that by (auto simp: printable_def dom_size_def)
    have "CHR '';'' \<notin> set (m_dname D ! i)" using assms(2) r(3) by simp
    moreover have "CHR '';'' \<notin> set (dstringCompact (doubleToString (m_dlow D ! i) 5))"
      "CHR '';'' \<notin> set (dstringCompact (doubleToString (m_dhigh D ! i) 5))"
      using compact_chars [OF r(1)] compact_chars [OF r(2)] by (auto simp: is_digit_def)
    moreover have "CHR '';'' \<notin> set (nat_str n)" for n using nat_str_clean by (fastforce simp: is_digit_def)
    ultimately have "CHR '';'' \<notin> set (chunk_text D i)"
      using r(3) by (simp add: chunk_text_def getVarName_def getVarLow_i_def getVarHigh_i_def getVarPoints_i_def)
    then show ?thesis using chunk_fields(3) [OF assms(1) that] by simp
  qed
  have s: "set (domainToString D True) \<subseteq> insert (CHR '':'') (\<Union> (set ` chunk_text D ` {0..<dom_size D}))"
    unfolding domainToString_joined using joined_set [of "CHR '':''" "map (chunk_text D) [0..<dom_size D]"] by simp
  show "NUL \<notin> set (domainToString D True)" "CHR '';'' \<notin> set (domainToString D True)" using s c by auto
qed

lemma swap_back: "CHR '';'' \<notin> set s \<Longrightarrow> findReplace_chr (findReplace_chr s (CHR '','') (CHR '';'')) (CHR '';'') (CHR '','') = s"
  by (induction s) (auto simp: findReplace_chr_def)

lemma swap_clean: "NUL \<notin> set s \<Longrightarrow> CHR '','' \<notin> set (findReplace_chr s (CHR '','') (CHR '';'')) \<and>
    NUL \<notin> set (findReplace_chr s (CHR '','') (CHR '';'')) \<and> length (findReplace_chr s (CHR '','') (CHR '';'')) = length s"
  by (auto simp: findReplace_chr_def)

text \<open>The gel box read back.\<close>

definition gel_reread :: "ivpbox \<Rightarrow> nat \<Rightarrow> nat \<Rightarrow> ivpbox" where
  "gel_reread gb dm k = foldl (\<lambda>b d. setPTS d 0 (pt gb d 1) b) (IvPBox_new (int dm) 0) [0..<k]"

definition gel_str :: "ivpbox \<Rightarrow> nat \<Rightarrow> string" where
  "gel_str gb k = concat (map (\<lambda>d. int_str (pt gb d 1) @ '','') [0..<k])"

lemma gel_read: "\<forall>d<dm. 0 \<le> pt gb d 1 \<and> pt gb d 1 < 2 ^ 31 \<Longrightarrow> k \<le> dm \<Longrightarrow>
    foldM read_gel (IvPBox_new (int dm) 0, Some (gel_str gb k @ r)) [0..<k] = Some (gel_reread gb dm k, Some r)"
proof (induction k arbitrary: r)
  case (Suc k)
  obtain n where n: "pt gb k 1 = int n" "n < 2 ^ 31"
  proof -
    have "0 \<le> pt gb k 1 \<and> pt gb k 1 < 2 ^ 31" using Suc.prems by simp
    then show ?thesis by (intro that [of "nat (pt gb k 1)"]) (auto simp: nat_less_iff)
  qed
  have "read_gel (gel_reread gb dm k, Some (int_str (int n) @ CHR '','' # r)) k = Some (gel_reread gb dm (Suc k), Some r)"
    using int_field_app [OF n(2)] n(1) by (simp add: read_gel_def int_str_def gel_reread_def)
  then show ?case using Suc by (simp add: foldM_append gel_str_def n(1) [simplified])
qed (simp add: gel_reread_def gel_str_def)

lemma gel_reread_facts:
  assumes "0 < dm" "dm < 2 ^ 16"
  shows "wf_box (gel_reread gb dm dm)" "m_dim (gel_reread gb dm dm) = dm" "m_degree (gel_reread gb dm dm) = 0"
    "d < dm \<Longrightarrow> pt (gel_reread gb dm dm) d 0 = 0 \<and> pt (gel_reread gb dm dm) d 1 = pt gb d 1"
proof -
  let ?b = "IvPBox_new (int dm) 0"
  have b: "wf_box ?b" "m_dim ?b = dm" "m_degree ?b = 0" using assms by simp_all
  have f: "same_shape (gel_reread gb dm dm) ?b \<and> (\<forall>d. ends (gel_reread gb dm dm) d =
      (if d < dm then (0, pt gb d 1, snd (snd (ends ?b d))) else ends ?b d))"
    unfolding gel_reread_def
    by (rule foldl_dims_update [where V = "\<lambda>d e. (0, pt gb d 1, snd (snd e))"])
      (use b in \<open>auto simp: ends_setPTS same_shapeD, auto simp: ends_def\<close>)
  then show "wf_box (gel_reread gb dm dm)" "m_dim (gel_reread gb dm dm) = dm" "m_degree (gel_reread gb dm dm) = 0"
    using b by (simp_all add: same_shape_def)
  have "ends (gel_reread gb dm dm) d = (0, pt gb d 1, snd (snd (ends ?b d)))" if "d < dm" using f that by simp
  then show "d < dm \<Longrightarrow> pt (gel_reread gb dm dm) d 0 = 0 \<and> pt (gel_reread gb dm dm) d 1 = pt gb d 1"
    by (simp add: ends_def)
qed

section \<open>The whole text\<close>

definition ipf_str :: "ivpfunction \<Rightarrow> string" where
  "ipf_str f = (let pd = m_pdmap f
     in ''H,'' @ nat_str (length (m_context_string f)) @ '','' @ m_context_string f @ '','' @ nat_str (pd_dim pd) @ '','' @
        nat_str (m_boxCount pd) @ '','' @ nat_str (pd_degree pd) @ '','' @ dstringCompact (doubleToString (m_pwt f) 5) @ '',D,'' @
        findReplace_chr (domainToString (pd_domain pd) True) (CHR '','') (CHR '';'') @ '',G,'' @
        gel_str (m_gelbox pd) (pd_dim pd) @ ''F,'' @ pieces_str (pieces pd))"

lemma ipf_text_str:
  assumes "sendable f"
  shows "ipf_text f = Some (ipf_str f)"
proof -
  note s = sendableD [OF assms]
  note p = sendable_pieces [OF assms]
  note w = wf_pdmapD [OF s(1)]
  let ?pd = "m_pdmap f"
  have g: "\<not> length (m_pts (m_gelbox ?pd)) < pd_dim ?pd * 2" using w(5,6) by (simp add: wf_box_def pd_dim_def)
  have h: "ipf_header f = Some (''H,'' @ nat_str (length (m_context_string f)) @ '','' @ m_context_string f @ '','' @ nat_str (pd_dim ?pd) @ '','' @
        nat_str (m_boxCount ?pd) @ '','' @ nat_str (pd_degree ?pd) @ '','' @ dstringCompact (doubleToString (m_pwt f) 5) @ '',D,'' @
        findReplace_chr (domainToString (pd_domain ?pd) True) (CHR '','') (CHR '';'') @ '',G,'' @ gel_str (m_gelbox ?pd) (pd_dim ?pd) @ ''F,'')"
    using g s(11) domain_text_clean(1) [OF s(3,4)] by (simp add: ipf_header_def Let_def gel_str_def c_str_plain)
  let ?b0 = "pd_store ?pd (ptrs ?pd ! 0)"
  have b0: "box_at ?pd 0 = Some (ptrs ?pd ! 0)" using box_at_ptrs [OF w(3) s(2)] .
  have "?b0 \<in> set (pieces ?pd)" using s(2) pieces_nth [of 0 ?pd] nth_mem [of 0 "pieces ?pd"] by simp
  then have r0: "readable (pd_dim ?pd) (pd_degree ?pd) ?b0" using p(1) by blast
  have "\<forall>b\<in>set (pieces ?pd). piece_fits b \<and> wf_box b \<and> 0 < m_dim b \<and> m_dim b = pd_dim ?pd \<and> getWtc b = getWtc ?b0"
    using p(1,2) r0 by (simp add: readable_def getWtc_def)
  from body_text [OF w(3) this] show ?thesis using s(2) h b0 by (simp add: ipf_text_def Let_def ipf_str_def)
qed


lemma domain_chunk_valid: "domain_chunk D s = Some E \<Longrightarrow> valid_domain D \<Longrightarrow> valid_domain E"
proof -
  have "addDomain n lo hi k D = (True, E) \<Longrightarrow> valid_domain D \<Longrightarrow> valid_domain E" for n lo hi k using addDomain_valid by (metis snd_conv)
  then show "domain_chunk D s = Some E \<Longrightarrow> valid_domain D \<Longrightarrow> valid_domain E"
    by (auto simp: domain_chunk_def Let_def split: if_splits prod.splits)
qed

lemma reread_dom_valid:
  assumes "printable D"
  shows "valid_domain (reread_dom D (dom_size D))"
proof -
  have "valid_domain (reread_dom D k)" if "k \<le> dom_size D" for k
    using that
  proof (induction k)
    case 0
    show ?case by (simp add: reread_dom_def valid_domain_def)
  next
    case (Suc k)
    then have "domain_chunk (reread_dom D k) (chunk_text D k) = Some (reread_dom D (Suc k))" using chunk_step [OF assms] by simp
    with Suc show ?case using domain_chunk_valid by simp
  qed
  then show ?thesis by simp
qed

lemma reread_dom_same:
  assumes "printable D"
  shows "dom_size (reread_dom D (dom_size D)) = dom_size D" "getVarPoints_i (reread_dom D (dom_size D)) = getVarPoints_i D"
    "m_dname (reread_dom D (dom_size D)) = m_dname D"
proof -
  have "length (m_dpoints D) = length (m_dname D)" using assms by (auto simp: printable_def valid_domain_def)
  then show "dom_size (reread_dom D (dom_size D)) = dom_size D" "getVarPoints_i (reread_dom D (dom_size D)) = getVarPoints_i D"
    "m_dname (reread_dom D (dom_size D)) = m_dname D"
    by (simp_all add: reread_dom_def dom_size_def getVarPoints_i_def fun_eq_iff)
qed

lemma stored_good: "good_piece D deg b \<Longrightarrow> good_piece E deg (stored_piece b)"
  if "dom_size E = dom_size D" "getVarPoints_i E = getVarPoints_i D"
  using that by (simp add: good_piece_def wf_box_def stored_piece_def getWtc_def pt_def)

lemma read_map_core:
  assumes "printable D" "good_domain D" "deg \<le> 1" "\<forall>b\<in>set bs. good_piece D deg b"
    "wf_box gb" "m_dim gb = dom_size D" "m_degree gb \<le> 1"
  defines "pd \<equiv> read_map (reread_dom D (dom_size D)) deg gb (length bs) bs (length bs)"
  shows "wf_core pd" "pieces pd = map stored_piece bs"
proof -
  have pt: "ptrs pd = [0..<length bs]" by (auto simp: ptrs_def pd_def read_map_def intro!: nth_equalityI)
  show pc: "pieces pd = map stored_piece bs" unfolding pieces_def pt by (auto simp: pd_def read_map_def intro!: nth_equalityI)
  have fl: "filled pd" unfolding filled_def pt by (simp add: pd_def read_map_def)
  have f: "pd_domain pd = reread_dom D (dom_size D)" "pd_degree pd = deg" "m_gelbox pd = gb" "m_grid pd = None"
    by (simp_all add: pd_def read_map_def)
  have "good_domain (reread_dom D (dom_size D))"
    using assms(2) reread_dom_valid [OF assms(1)] reread_dom_same(1) [OF assms(1)] by (simp add: good_domain_def)
  moreover have "\<forall>b\<in>set (pieces pd). good_piece (reread_dom D (dom_size D)) deg b"
    using assms(4) stored_good [OF reread_dom_same(1,2) [OF assms(1)]] by (simp add: pc)
  ultimately show "wf_core pd"
    using fl f assms(3,5-7) reread_dom_same(1) [OF assms(1)] by (simp add: wf_core_def wf_pdmap_def)
qed


section \<open>The reader\<close>

lemma read_context_app:
  assumes "CHR '','' \<notin> set cstr" "NUL \<notin> set cstr" "length cstr < 2 ^ 31"
  shows "read_context (''H,'' @ nat_str (length cstr) @ '','' @ cstr @ '','' @ r) = Some (cstr, Some r)"
  using int_field_app [OF assms(3), of "cstr @ CHR '','' # r"] field_app [OF assms(1), of r] assms(2)
  by (simp add: read_context_def skip_def c_str_plain)

lemma ipf_reader:
  assumes "sendable f"
  obtains pd where "StringToIvPFunction (ipf_str f) = Some (Some (setContextStr (m_context_string f) (setPWT (reread (m_pwt f)) (IvPFunction_new pd))))"
    "wf_pdmap pd" "pieces pd = map stored_piece (pieces (m_pdmap f))" "pd_degree pd = pd_degree (m_pdmap f)"
    "pd_domain pd = reread_dom (pd_domain (m_pdmap f)) (pd_dim (m_pdmap f))"
proof -
  note s = sendableD [OF assms]
  note p = sendable_pieces [OF assms]
  note w = wf_pdmapD [OF s(1)]
  define D dm n deg gb bs where "D = pd_domain (m_pdmap f)" and "dm = pd_dim (m_pdmap f)" and "n = m_boxCount (m_pdmap f)"
    and "deg = pd_degree (m_pdmap f)" and "gb = m_gelbox (m_pdmap f)" and "bs = pieces (m_pdmap f)"
  define ds pw where "ds = findReplace_chr (domainToString D True) (CHR '','') (CHR '';'')"
    and "pw = dstringCompact (doubleToString (m_pwt f) 5)"
  note d = D_def [symmetric] dm_def [symmetric] n_def [symmetric] deg_def [symmetric] gb_def [symmetric] bs_def [symmetric]
    ds_def [symmetric] pw_def [symmetric]
  have dmD: "dm = dom_size D" by (simp add: dm_def D_def pd_dim_def)
  have lbs: "length bs = n" by (simp add: bs_def n_def)
  have cl: "CHR '','' \<notin> set ds" "NUL \<notin> set ds" "length ds < 5000"
    using swap_clean [OF domain_text_clean(1) [OF s(3,4)]] s(5) by (simp_all add: ds_def D_def)
  have restored: "findReplace_chr ds (CHR '';'') (CHR '','') = domainToString D True"
    unfolding ds_def D_def by (rule swap_back [OF domain_text_clean(2) [OF s(3,4)]])
  have dom: "stringToDomain (c_str (findReplace_chr ds (CHR '';'') (CHR '',''))) = reread_dom D dm"
    using stringToDomain_reread [OF s(3)] domain_text_clean(1) [OF s(3,4)] by (simp add: restored c_str_plain D_def dm_def pd_dim_def)
  have pw: "CHR '','' \<notin> set pw" "dec_real pw = reread (m_pwt f)"
    using compact_chars [OF s(9)] dec_compact [OF s(8,9)] by (auto simp: pw_def is_digit_def)
  have small: "dm < 2 ^ 31" "n < 2 ^ 31" "deg < 2 ^ 31" using p(3,4) s(13) by (simp_all add: dm_def n_def deg_def)
  have le: "\<not> (length ds \<ge> 5000 \<or> dm \<ge> 2 ^ 16 \<or> deg \<ge> 2 ^ 16)" using cl(3) p(3,4) by (simp add: dm_def deg_def)
  have pts: "int (getVarPoints_i D d) < 2 ^ 31" if "d < dm" for d
    using s(3) that by (simp add: printable_def dm_def pd_dim_def getVarPoints_i_def D_def)
  have "\<forall>d<dm. 0 \<le> pt gb d 1 \<and> pt gb d 1 < 2 ^ 31" using s(6) pts unfolding d by fastforce
  note gel = gel_read [OF this order_refl]
  let ?g = "gel_reread gb dm dm"
  have dm0: "0 < dm" "dm < 2 ^ 16" using p(2,3) by (simp_all add: dm_def)
  note gf = gel_reread_facts [OF dm0, where gb = gb]
  let ?D = "reread_dom D dm"
  define pd0 where "pd0 = read_map ?D deg (spanning_box ?D 1) n bs 0"
  have new: "PDMap_new n ?D (int deg) = Some pd0"
    by (simp add: PDMap_new_def pd0_def read_map_def map_replicate_const)
  have rd: "foldM (read_piece dm deg) (pd0, Some (pieces_str bs)) [0..<n] = Some (read_map ?D deg (spanning_box ?D 1) n bs n, None)"
    using pieces_read [OF p(2,3,4,1,5)] unfolding d pd0_def lbs .
  have same: "dom_size ?D = dm" "getVarPoints_i ?D = getVarPoints_i D"
    using reread_dom_same [OF s(3)] by (simp_all add: dmD D_def)
  have "list_all (\<lambda>d. pt ?g d 0 \<le> pt ?g d 1 \<and> 0 \<le> pt ?g d 0 \<and> pt ?g d 1 \<le> int (getVarPoints_i ?D d) - 1) [0..<dm]"
    using gf(4) s(6) unfolding d same(2) by (simp add: list_all_iff)
  then have gelset: "setGelBox ?g (read_map ?D deg (spanning_box ?D 1) n bs n) = Some (read_map ?D deg ?g n bs n)"
    by (simp add: setGelBox_def gf(2) same(1) read_map_def)
  have gp: "\<forall>b\<in>set bs. good_piece D deg b" using w(4) by (simp add: bs_def D_def deg_def)
  have "good_domain D" "printable D" "deg \<le> 1" using w(1,2) s(3) by (simp_all add: D_def deg_def)
  note core = read_map_core [OF this(2,1,3) gp gf(1), unfolded gf(2,3) lbs dmD [symmetric], OF refl]
  then obtain pd where pd: "updateGrid True True (read_map ?D deg ?g n bs n) = Some pd" "wf_pdmap pd"
    "same_but_grid pd (read_map ?D deg ?g n bs n)" using updateGrid_wf by (metis zero_le_one)
  note sb = same_but_gridD [OF pd(3)]
  note ctx = read_context_app [OF s(10,11,12)]
  have "StringToIvPFunction (ipf_str f) = Some (Some (setContextStr (m_context_string f) (setPWT (reread (m_pwt f)) (IvPFunction_new pd))))"
    unfolding StringToIvPFunction_def ipf_str_def Let_def d ctx
    by (simp add: int_field_app [OF small(1)] int_field_app [OF small(2)] int_field_app [OF small(3)] non_negative_def skip_def
        field_app [OF pw(1)] field_app [OF cl(1)] le [simplified] gel new dom [simplified] rd gelset pd(1) pw(2))
  then show ?thesis
    by (rule that) (use pd(2) sb core(2) in \<open>simp_all add: read_map_def bs_def deg_def D_def dm_def\<close>)
qed


section \<open>The buffer\<close>

lemma weight_digits_length: "iv < 10 ^ k \<Longrightarrow> 0 < k \<Longrightarrow> 5 \<le> k + c \<Longrightarrow> length (weight_digits iv c) \<le> k"
proof (induction iv c arbitrary: k rule: weight_digits.induct)
  case (1 iv c)
  show ?case
  proof (cases "iv div 10 = 0 \<and> c \<ge> 4")
    case True
    then show ?thesis using 1(3) by (subst weight_digits.simps) simp
  next
    case False
    have "1 < k"
    proof (rule ccontr)
      assume "\<not> 1 < k"
      then have "k = 1" using 1(3) by simp
      then show False using 1(2,4) False by simp
    qed
    then obtain j where j: "k = Suc j" "0 < j" by (cases k) auto
    then have "length (weight_digits (iv div 10) (c + 1)) \<le> j"
      using 1(1) [OF refl refl False, of j] 1(2,4) by (simp add: less_mult_imp_div_less mult.commute)
    moreover have "weight_digits iv c = iv mod 10 # weight_digits (iv div 10) (c + 1)"
      by (subst weight_digits.simps) (use False in auto)
    ultimately show ?thesis using j by simp
  qed
qed

lemma one_dot: "distinct (ks :: nat list) \<Longrightarrow> length (concat (map (\<lambda>k. f k # (if k = 4 then ''.'' else '''')) ks)) \<le> length ks + 1"
proof -
  assume d: "distinct ks"
  have "length (concat (map (\<lambda>k. f k # (if k = 4 then ''.'' else '''')) ks)) = length ks + length [k \<leftarrow> ks. k = 4]" for ks :: "nat list"
    by (induction ks) auto
  moreover have "length [k \<leftarrow> ks. k = 4] \<le> 1"
    using d distinct_length_filter [OF d, of "\<lambda>k. k = 4"] card_mono [of "{4::nat}" "{x. x = 4} \<inter> set ks"] by simp
  ultimately show ?thesis by simp
qed

lemma wt_str_length:
  assumes "\<bar>w\<bar> * 10000 + 1 / 2 < 2 ^ 63"
  shows "length (wt_str w) \<le> 21"
proof (cases "w = 0")
  case True
  then show ?thesis by (simp add: wt_str_def weight_text_def)
next
  case False
  define v where "v = \<bar>w\<bar>"
  have v: "0 < v" "v * 10000 + 1 / 2 < 2 ^ 63" using False assms by (simp_all add: v_def)
  let ?r = "\<lfloor>v * 10000 + 1 / 2\<rfloor>" let ?tb = "weight_digits (nat ?r) 0"
  have r: "0 \<le> ?r" "?r < 2 ^ 63" using v by (simp_all add: floor_less_iff)
  then have "nat ?r < 2 ^ 63" by (simp only: nat_less_iff of_nat_power of_nat_numeral)
  then have "nat ?r < 10 ^ 19" by simp
  then have l: "length ?tb \<le> 19" by (rule weight_digits_length) simp_all
  define b where "b = (let b0 = (case find (\<lambda>c_ix. ?tb ! c_ix \<noteq> 0) [0..<length ?tb] of None \<Rightarrow> 0 | Some i \<Rightarrow> i) in if b0 > 4 then 4 else b0)"
  have n: "\<not> v < 0" "v \<noteq> 0" "\<not> 2 ^ 63 \<le> ?r" "c_trunc (v * 10000 + 1 / 2) = ?r" using v(1) r by (auto simp: c_trunc_nonneg)
  have t: "weight_text v = Some (concat (map (\<lambda>k. c_char (48 + int (?tb ! k)) # (if k = 4 then ''.'' else '''')) (rev [b..<length ?tb])))"
    unfolding weight_text_def Let_def if_not_P [OF n(1)] n(4) if_not_P [OF n(2)] if_not_P [OF n(3)] b_def by simp
  have "length (the (weight_text v)) \<le> 20"
    unfolding t option.sel using one_dot [of "rev [b..<length ?tb]" "\<lambda>k. c_char (48 + int (?tb ! k))"] l by simp
  moreover have "length (wt_str w) \<le> length (the (weight_text v)) + 1"
    using t by (cases "w < 0") (simp_all add: wt_str_def weight_text_neg v_def)
  ultimately show ?thesis by simp
qed


lemma end_length: "0 \<le> v \<Longrightarrow> v < 2 ^ 31 \<Longrightarrow> length (low_text v) \<le> 10 \<and> length (high_text v) \<le> 10"
proof -
  assume v: "0 \<le> v" "v < 2 ^ 31"
  obtain n where n: "v = int n" "n < 2 ^ 31" using v by (intro that [of "nat v"]) (auto simp: nat_less_iff)
  then have "n < 10 ^ 10" by simp
  then show ?thesis using length_nat_str [of 10 n] by (simp add: n(1) edge_numbers)
qed

lemma concat_length: "\<forall>x\<in>set xs. length (f x) \<le> k \<Longrightarrow> length (concat (map f xs)) \<le> length xs * k"
  by (induction xs) auto

lemma piece_str_length:
  assumes "readable dm deg b" "0 < dm"
  shows "length (piece_str b last_one) \<le> 24 * dm + 22 * (deg * dm + 1)"
proof -
  have d: "m_dim b = dm" "m_degree b = deg" "wf_box b" "piece_fits b" using assms(1) by (simp_all add: readable_def)
  have wl: "length (m_wts b) = getWtc b" using d(1,3) assms(2) by (simp add: wf_box_def)
  have e: "\<forall>i\<in>set [0..<m_dim b]. length (edge_text b i) \<le> 24"
  proof
    fix i assume "i \<in> set [0..<m_dim b]"
    then have "0 \<le> pt b i 0 \<and> pt b i 0 < 2 ^ 31 \<and> 0 \<le> pt b i 1 \<and> pt b i 1 < 2 ^ 31" using d(4) by (simp add: piece_fits_def)
    then show "length (edge_text b i) \<le> 24"
      using end_length [of "pt b i 0"] end_length [of "pt b i 1"] by (simp add: edge_text_def)
  qed
  have "\<bar>wt b j\<bar> * 10000 + 1 / 2 < 2 ^ 63" if "j < getWtc b" for j using that d(4) wl by (simp add: piece_fits_def wt_def)
  then have wlen: "length (wt_str (wt b j)) \<le> 21" if "j < getWtc b" for j using wt_str_length that by blast
  have w: "\<forall>j\<in>set [0..<getWtc b - 1]. length (weight_str b j) \<le> 22"
  proof
    fix j assume "j \<in> set [0..<getWtc b - 1]"
    then have "j < getWtc b" by simp
    from wlen [OF this] show "length (weight_str b j) \<le> 22" by (simp add: weight_str_def)
  qed
  have "getWtc b - 1 < getWtc b" by (simp add: getWtc_def)
  from wlen [OF this] have l: "length (wt_str (wt b (getWtc b - 1))) \<le> 21" .
  have "length (weights_str b last_one) \<le> 22 * getWtc b"
    using concat_length [OF w] l by (simp add: weights_str_def getWtc_def)
  moreover have "length (concat (map (edge_text b) [0..<m_dim b])) \<le> 24 * dm" using concat_length [OF e] d(1) by simp
  moreover have "getWtc b = deg * dm + 1" by (simp add: getWtc_def d(1,2))
  ultimately show ?thesis by (simp add: piece_str_def)
qed

lemma pieces_str_length:
  assumes "\<forall>b\<in>set bs. readable dm deg b" "0 < dm"
  shows "length (pieces_str bs) \<le> length bs * (24 * dm + 22 * (deg * dm + 1))"
proof -
  have "\<forall>i\<in>set [0..<length bs]. length (piece_str (bs ! i) (i = length bs - 1)) \<le> 24 * dm + 22 * (deg * dm + 1)"
  proof
    fix i assume "i \<in> set [0..<length bs]"
    then have "readable dm deg (bs ! i)" using assms(1) by simp
    from piece_str_length [OF this assms(2)] show "length (piece_str (bs ! i) (i = length bs - 1)) \<le> 24 * dm + 22 * (deg * dm + 1)" .
  qed
  from concat_length [OF this] show ?thesis by (simp add: pieces_str_def)
qed

lemma compact_rev_length: "length (compact_rev s) \<le> length s"
  by (induction s rule: compact_rev.induct) auto

lemma dstringCompact_length: "length (dstringCompact s) \<le> length s"
  using compact_rev_length [of "rev s"] by (simp add: dstringCompact_def)

lemma pwt_length:
  assumes "0 \<le> v" "v \<le> 2 ^ 128"
  shows "length (dstringCompact (doubleToString v 5)) \<le> 46"
proof -
  let ?n = "printed 5 v"
  have "real ?n = of_int (round_even (\<bar>v\<bar> * 10 ^ 5))" using round_even_nonneg [of "\<bar>v\<bar> * 10 ^ 5"] by (simp add: printed_def)
  then have "real ?n \<le> v * 10 ^ 5 + 1 / 2"
    using round_even_close [of "v * 10 ^ 5"] unfolding abs_of_nonneg [OF assms(1)] by linarith
  also have "\<dots> \<le> 2 ^ 128 * 10 ^ 5 + 1 / 2" using assms(2) by simp
  also have "\<dots> < 10 ^ 45" by simp
  finally have "real ?n < real (10 ^ 45)" by simp
  then have "?n < 10 ^ 45" by (simp only: of_nat_less_iff)
  then have "?n div 10 ^ 5 < 10 ^ 40" by (simp add: less_mult_imp_div_less)
  then have q: "length (nat_str (?n div 10 ^ 5)) \<le> 40" by (rule length_nat_str [rotated]) simp
  have "?n mod 10 ^ 5 < 10 ^ 5" by simp
  then have "length (nat_str (?n mod 10 ^ 5)) \<le> 5" by (rule length_nat_str [rotated]) simp
  then have z: "length (zero_pad 5 (nat_str (?n mod 10 ^ 5))) = 5" by (simp add: zero_pad_def)
  have "printf_f 5 v = nat_str (?n div 10 ^ 5) @ ''.'' @ zero_pad 5 (nat_str (?n mod 10 ^ 5))"
    using assms(1) unfolding printf_f_def Let_def printed_def by (simp only: not_less [symmetric] if_False) simp
  then have "length (printf_f 5 v) \<le> 46" using q z by simp
  then show ?thesis using dstringCompact_length [of "printf_f 5 v"] by (simp add: doubleToString_5 [OF assms(2)])
qed


lemma plain_pieces:
  assumes "\<forall>b\<in>set bs. readable dm deg b" "0 < dm"
  shows "NUL \<notin> set (pieces_str bs)"
proof -
  have nn: "NUL \<notin> set (nat_str n)" for n using nat_str_clean by (fastforce simp: is_digit_def)
  have "NUL \<notin> set (piece_str b l)" if "readable dm deg b" for b l
  proof -
    have d: "m_dim b = dm" "wf_box b" "piece_fits b" using that by (simp_all add: readable_def)
    have wl: "length (m_wts b) = getWtc b" using d(1,2) assms(2) by (simp add: wf_box_def)
    have e: "NUL \<notin> set (edge_text b i)" if "i < m_dim b" for i
    proof -
      have "0 \<le> pt b i 0 \<and> 0 \<le> pt b i 1" using d(3) that by (simp add: piece_fits_def)
      then obtain l h where "pt b i 0 = int l" "pt b i 1 = int h" using nonneg_int_cases by metis
      then show ?thesis using nn by (simp add: edge_text_def edge_numbers)
    qed
    have "\<bar>wt b j\<bar> * 10000 + 1 / 2 < 2 ^ 63" if "j < getWtc b" for j using that d(3) wl by (simp add: piece_fits_def wt_def)
    then have w: "NUL \<notin> set (wt_str (wt b j))" if "j < getWtc b" for j using wt_str(2) plain_number_clean that by blast
    have "getWtc b - 1 < getWtc b" by (simp add: getWtc_def)
    from w [OF this] show ?thesis using e by (auto simp: piece_str_def weights_str_def weight_str_def w)
  qed
  then show ?thesis using assms(1) by (auto simp: pieces_str_def)
qed

definition roomy :: "ivpfunction \<Rightarrow> bool" where
  "roomy f \<longleftrightarrow> (let pd = m_pdmap f; dm = pd_dim pd; wtc = pd_degree pd * dm + 1
     in length (domainToString (pd_domain pd) True) + 88 \<le> m_boxCount pd * (65 * dm + 28 * wtc) \<and>
        m_boxCount pd * ((dm * 2 + wtc) * 50) + length (m_context_string f) < 2 ^ 31)"

lemma ipf_written:
  assumes "sendable f" "roomy f"
  shows "IvPFunctionToString f = Some (ipf_str f)"
proof -
  note s = sendableD [OF assms(1)]
  note p = sendable_pieces [OF assms(1)]
  note w = wf_pdmapD [OF s(1)]
  let ?pd = "m_pdmap f"
  define dm n deg where "dm = pd_dim ?pd" and "n = m_boxCount ?pd" and "deg = pd_degree ?pd"
  note d = dm_def [symmetric] n_def [symmetric] deg_def [symmetric]
  let ?b0 = "pd_store ?pd (ptrs ?pd ! 0)"
  have b0: "box_at ?pd 0 = Some (ptrs ?pd ! 0)" using box_at_ptrs [OF w(3) s(2)] .
  have "?b0 \<in> set (pieces ?pd)" using s(2) pieces_nth [of 0 ?pd] nth_mem [of 0 "pieces ?pd"] by simp
  then have wtc: "getWtc ?b0 = deg * dm + 1" using p(1) by (auto simp: readable_def getWtc_def dm_def deg_def)
  have room: "length (domainToString (pd_domain ?pd) True) + 88 \<le> n * (65 * dm + 28 * (deg * dm + 1))"
    "n * ((dm * 2 + (deg * dm + 1)) * 50) + length (m_context_string f) < 2 ^ 31"
    using assms(2) unfolding roomy_def Let_def d by blast+
  have bs: "ipf_bsize f = Some (n * ((dm * 2 + (deg * dm + 1)) * 50) + length (m_context_string f))"
    using s(2) b0 room(2) unfolding ipf_bsize_def Let_def d by (simp only: if_not_P neq0_conv Option.bind.simps wtc if_P simp_thms)
  have len: "length (pieces_str (pieces ?pd)) \<le> n * (24 * dm + 22 * (deg * dm + 1))"
    using pieces_str_length [OF p(1,2)] by (simp add: n_def dm_def deg_def)
  have small: "length (nat_str (length (m_context_string f))) \<le> 10" "length (nat_str dm) \<le> 5" "length (nat_str n) \<le> 10"
    "length (nat_str deg) \<le> 1"
    using length_nat_str [of 10 "length (m_context_string f)"] length_nat_str [of 5 dm] length_nat_str [of 10 n] length_nat_str [of 1 deg]
      s(12,13) p(3) w(2) by (simp_all add: dm_def n_def deg_def)
  have g: "length (gel_str (m_gelbox ?pd) dm) \<le> 11 * dm"
  proof -
    have "\<forall>i\<in>set [0..<dm]. length (int_str (pt (m_gelbox ?pd) i 1) @ '','') \<le> 11"
    proof
      fix i assume "i \<in> set [0..<dm]"
      then have i: "i < pd_dim ?pd" by (simp add: dm_def)
      then have "int (getVarPoints_i (pd_domain ?pd) i) < 2 ^ 31" using s(3) by (simp add: printable_def pd_dim_def getVarPoints_i_def)
      moreover have "0 \<le> pt (m_gelbox ?pd) i 1" "pt (m_gelbox ?pd) i 1 \<le> int (getVarPoints_i (pd_domain ?pd) i) - 1"
        using s(6) i by blast+
      ultimately have "0 \<le> pt (m_gelbox ?pd) i 1" "pt (m_gelbox ?pd) i 1 < 2 ^ 31" by linarith+
      then obtain k where "pt (m_gelbox ?pd) i 1 = int k" "k < 10 ^ 10" by (intro that [of "nat (pt (m_gelbox ?pd) i 1)"]) (simp_all add: nat_less_iff)
      then show "length (int_str (pt (m_gelbox ?pd) i 1) @ '','') \<le> 11" using length_nat_str [of 10 k] by (simp add: int_str_def)
    qed
    from concat_length [OF this] show ?thesis by (simp add: gel_str_def)
  qed
  note nul = domain_text_clean(1) [OF s(3,4)]
  have "1 * dm \<le> n * dm" using s(2) by (intro mult_le_mono1) (simp add: n_def)
  then have "n * (65 * dm + 28 * (deg * dm + 1)) + 11 * dm + n * (24 * dm + 22 * (deg * dm + 1)) \<le> n * ((dm * 2 + (deg * dm + 1)) * 50)"
    by (simp add: algebra_simps)
  then have fits: "length (ipf_str f) + 1 \<le> n * ((dm * 2 + (deg * dm + 1)) * 50) + length (m_context_string f)"
    using len small g room(1) pwt_length [OF s(8,9)] swap_clean [OF nul]
    unfolding ipf_str_def Let_def d by simp
  have "NUL \<notin> set (gel_str (m_gelbox ?pd) dm)"
  proof -
    have "NUL \<notin> set (nat_str k)" for k using nat_str_clean by (fastforce simp: is_digit_def)
    then have "NUL \<notin> set (int_str k)" for k by (simp add: int_str_def)
    then show ?thesis by (auto simp: gel_str_def)
  qed
  moreover have "NUL \<notin> set (dstringCompact (doubleToString (m_pwt f) 5))" using compact_chars [OF s(9)] by (auto simp: is_digit_def)
  moreover have "NUL \<notin> set (nat_str k)" for k using nat_str_clean by (fastforce simp: is_digit_def)
  ultimately have "NUL \<notin> set (ipf_str f)"
    using swap_clean [OF nul] s(11) plain_pieces [OF p(1,2)] unfolding ipf_str_def Let_def d by simp
  then show ?thesis using fits by (simp add: IvPFunctionToString_def bs ipf_text_str [OF assms(1)] c_str_plain)
qed


section \<open>Packets\<close>

text \<open>What a packet carries, behind its header.\<close>

definition packet_body :: "string \<Rightarrow> nat \<Rightarrow> nat \<Rightarrow> string" where
  "packet_body whole sz i = take sz (drop (i * sz) whole)"

lemma bodies_concat: "0 < sz \<Longrightarrow> concat (map (packet_body whole sz) [0..<k]) = take (k * sz) whole"
proof (induction k)
  case (Suc k)
  have "take (Suc k * sz) whole = take (k * sz) whole @ take sz (drop (k * sz) whole)"
    by (metis add.commute mult_Suc take_add)
  with Suc show ?case by (simp add: packet_body_def)
qed simp

lemma packets_loop:
  assumes "\<And>i. i < k \<Longrightarrow> int (length (f i)) + 1 \<le> sz"
  shows "foldM (\<lambda>svector i. let buff = f i in if int (length buff) + 1 > sz then None else Some (svector @ [c_str buff])) [] [0..<k] =
    Some (map (\<lambda>i. c_str (f i)) [0..<k])"
proof -
  have "foldM (\<lambda>svector i. let buff = f i in if int (length buff) + 1 > sz then None else Some (svector @ [c_str buff])) [] [0..<k] =
     Some (foldl (\<lambda>svector i. svector @ [c_str (f i)]) [] [0..<k])"
    by (rule foldM_total) (use assms in \<open>fastforce simp: Let_def\<close>)
  also have "foldl (\<lambda>svector i. svector @ [c_str (f i)]) xs is = xs @ map (\<lambda>i. c_str (f i)) is" for xs "is" by (induction "is" arbitrary: xs) auto
  finally show ?thesis by simp
qed


section \<open>Properties\<close>

text \<open>C33: A function written as text and read back. Where names, context and numbers have a
  form the text can carry and the pieces leave enough room in the buffer for the header, the writer stays in
  its buffer and the reader builds a well-formed function: same names and numbers of points, ends of the
  domain and the priority weight within half a unit of the fifth decimal, same context, and as many pieces
  with the same edges and with weights within half a unit of the fourth decimal.\<close>

theorem ipf_roundtrip:
  assumes "sendable f" "roomy f"
  shows "\<exists>t f'. IvPFunctionToString f = Some t \<and> StringToIvPFunction t = Some (Some f') \<and> wf_pdmap (m_pdmap f') \<and>
     m_dname (pd_domain (m_pdmap f')) = m_dname (pd_domain (m_pdmap f)) \<and>
     m_dpoints (pd_domain (m_pdmap f')) = m_dpoints (pd_domain (m_pdmap f)) \<and>
     (\<forall>d<pd_dim (m_pdmap f).
        \<bar>m_dlow (pd_domain (m_pdmap f')) ! d - m_dlow (pd_domain (m_pdmap f)) ! d\<bar> \<le> 1 / (2 * 10 ^ 5) \<and>
        \<bar>m_dhigh (pd_domain (m_pdmap f')) ! d - m_dhigh (pd_domain (m_pdmap f)) ! d\<bar> \<le> 1 / (2 * 10 ^ 5)) \<and>
     m_context_string f' = m_context_string f \<and> \<bar>m_pwt f' - m_pwt f\<bar> \<le> 1 / (2 * 10 ^ 5) \<and>
     pd_degree (m_pdmap f') = pd_degree (m_pdmap f) \<and> length (pieces (m_pdmap f')) = length (pieces (m_pdmap f)) \<and>
     (\<forall>i<length (pieces (m_pdmap f)). let b = pieces (m_pdmap f) ! i; b' = pieces (m_pdmap f') ! i
        in m_pts b' = m_pts b \<and> m_bds b' = m_bds b \<and> length (m_wts b') = length (m_wts b) \<and>
           (\<forall>j<length (m_wts b). \<bar>wt b' j - wt b j\<bar> \<le> 1 / (2 * 10 ^ 4)))"
proof -
  note s = sendableD [OF assms(1)]
  obtain pd where pd: "StringToIvPFunction (ipf_str f) = Some (Some (setContextStr (m_context_string f) (setPWT (reread (m_pwt f)) (IvPFunction_new pd))))"
    "wf_pdmap pd" "pieces pd = map stored_piece (pieces (m_pdmap f))" "pd_degree pd = pd_degree (m_pdmap f)"
    "pd_domain pd = reread_dom (pd_domain (m_pdmap f)) (pd_dim (m_pdmap f))"
    by (rule ipf_reader [OF assms(1)])
  define f' where "f' = setContextStr (m_context_string f) (setPWT (reread (m_pwt f)) (IvPFunction_new pd))"
  have f': "m_pdmap f' = pd" "m_context_string f' = m_context_string f" "m_pwt f' = reread (m_pwt f)"
    using reread_nonneg [OF s(8)] by (simp_all add: f'_def setContextStr_def setPWT_def IvPFunction_new_def)
  have len: "length (m_dlow (pd_domain (m_pdmap f))) = length (m_dname (pd_domain (m_pdmap f)))"
    "length (m_dhigh (pd_domain (m_pdmap f))) = length (m_dname (pd_domain (m_pdmap f)))"
    "length (m_dpoints (pd_domain (m_pdmap f))) = length (m_dname (pd_domain (m_pdmap f)))"
    using s(3) by (auto simp: printable_def valid_domain_def)
  have dom: "m_dname (pd_domain pd) = m_dname (pd_domain (m_pdmap f))" "m_dpoints (pd_domain pd) = m_dpoints (pd_domain (m_pdmap f))"
    "m_dlow (pd_domain pd) = map reread (m_dlow (pd_domain (m_pdmap f)))" "m_dhigh (pd_domain pd) = map reread (m_dhigh (pd_domain (m_pdmap f)))"
    using len by (simp_all add: pd(5) reread_dom_def pd_dim_def dom_size_def)
  have ends: "\<forall>d<pd_dim (m_pdmap f).
        \<bar>m_dlow (pd_domain pd) ! d - m_dlow (pd_domain (m_pdmap f)) ! d\<bar> \<le> 1 / (2 * 10 ^ 5) \<and>
        \<bar>m_dhigh (pd_domain pd) ! d - m_dhigh (pd_domain (m_pdmap f)) ! d\<bar> \<le> 1 / (2 * 10 ^ 5)"
    unfolding dom using len reread_close by (simp add: pd_dim_def dom_size_def)
  have pcs: "\<forall>i<length (pieces (m_pdmap f)). let b = pieces (m_pdmap f) ! i; b' = pieces pd ! i
        in m_pts b' = m_pts b \<and> m_bds b' = m_bds b \<and> length (m_wts b') = length (m_wts b) \<and>
           (\<forall>j<length (m_wts b). \<bar>wt b' j - wt b j\<bar> \<le> 1 / (2 * 10 ^ 4))"
    unfolding Let_def pd(3) using stored_weight_close by (simp add: stored_piece_def wt_def)
  show ?thesis
    by (intro exI [of _ "ipf_str f"] exI [of _ f'] conjI; (unfold f')?)
      (use ipf_written [OF assms] pd dom ends pcs reread_close in \<open>simp_all only: f'_def [symmetric] length_map\<close>)
qed

text \<open>Two pieces over ten points, with a name and a context.\<close>

definition ex_ipf :: ivpfunction where
  "ex_ipf = \<lparr>m_pdmap = ex_pd (ex_box 0 4 1 0) (ex_box 5 9 (-1) 9), m_pwt = 100, m_context_string = ''7:waypt''\<rparr>"

theorem ipf_roundtrip_witness:
  "\<exists>t f'. IvPFunctionToString ex_ipf = Some t \<and> StringToIvPFunction t = Some (Some f') \<and>
     m_dname (pd_domain (m_pdmap f')) = [''x''] \<and> m_context_string f' = ''7:waypt'' \<and> length (pieces (m_pdmap f')) = 2"
proof -
  let ?pd = "ex_pd (ex_box 0 4 1 0) (ex_box 5 9 (-1) 9)"
  have wf: "wf_pdmap ?pd" by (intro wf_ex_pd good_ex_box) simp_all
  have f: "pd_domain ?pd = ex_line" "m_boxCount ?pd = 2" "pd_degree ?pd = 1" "m_gelbox ?pd = ex_box 0 4 0 0" "pd_dim ?pd = 1"
    by (simp_all add: ex_pd_def pd_dim_def ex_line_facts)
  have pcs: "pieces ?pd = [ex_box 0 4 1 0, ex_box 5 9 (-1) 9]" by simp
  have hi: "m_dhigh ex_line = [9]" by (simp add: ex_line_def addDomain_def empty_domain_def hasDomain_def)
  have pr: "printable ex_line"
    using ex_line_facts hi by (simp add: printable_def plain_name_def front_blank_def)
  have len: "length (domainToString ex_line True) \<le> 98"
  proof -
    have "chunk_text ex_line 0 = joined (CHR '','') [''x'', dstringCompact (doubleToString 0 5), dstringCompact (doubleToString 9 5), nat_str 10]"
      using ex_line_facts hi by (simp add: chunk_text_def getVarName_def getVarLow_i_def getVarHigh_i_def getVarPoints_i_def)
    moreover have "length (nat_str 10) \<le> 2" by (rule length_nat_str) simp_all
    ultimately show ?thesis using pwt_length [of 0] pwt_length [of 9] by (simp add: domainToString_joined ex_line_facts)
  qed
  have s: "sendable ex_ipf"
    unfolding sendable_def Let_def ex_ipf_def ivpfunction.simps f pcs
    using wf pr len ex_line_facts by (simp add: ex_box_def pt_def)
  have r: "roomy ex_ipf"
    unfolding roomy_def Let_def ex_ipf_def ivpfunction.simps f using len by simp
  have e: "m_dname (pd_domain (m_pdmap ex_ipf)) = [''x'']" "m_context_string ex_ipf = ''7:waypt''" "length (pieces (m_pdmap ex_ipf)) = 2"
    using ex_line_facts by (simp_all add: ex_ipf_def f(1) pcs)
  show ?thesis using ipf_roundtrip [OF s r] unfolding e by blast
qed

text \<open>C35: The packets of a string. For every packet size above that of the header, each
  packet fits in its buffer, tells its number and how many there are, and what the packets carry is the
  string, in order and complete.\<close>

theorem packets_reassemble:
  assumes "int (length function_id) + 50 < packet_size" "NUL \<notin> set whole_string" "NUL \<notin> set function_id"
    "length whole_string < 2 ^ 31 - 1"
  shows "\<exists>n bodies. length bodies = n \<and> concat bodies = whole_string \<and>
     IvPFunctionToVector whole_string function_id packet_size =
       Some (map (\<lambda>i. ''P,'' @ function_id @ '','' @ nat_str n @ '','' @ nat_str (i + 1) @ '','' @ bodies ! i) [0..<n])"
proof -
  define sz where "sz = nat (packet_size - (int (length function_id) + 50))"
  have sz: "packet_size - (int (length function_id) + 50) = int sz" "0 < sz" using assms(1) by (simp_all add: sz_def)
  define n where "n = length whole_string div sz + 1"
  have n: "int (length whole_string) sdiv int sz + 1 = int n" using sz(2) by (simp add: n_def sdiv_nonneg zdiv_int)
  have "length whole_string div sz \<le> length whole_string" by (rule div_le_dividend)
  then have "n < 2 ^ 31" using assms(4) unfolding n_def by linarith
  then have n10: "n < 10 ^ 10" by simp
  let ?h = "''P,'' @ function_id @ '','' @ nat_str n @ '',''"
  let ?f = "\<lambda>i. (?h @ nat_str (i + 1) @ '','') @ take (nat (int sz)) (drop (i * nat (int sz)) whole_string)"
  have ln: "length (nat_str n) \<le> 10" using length_nat_str [OF _ n10] by simp
  have "int (length (?f i)) + 1 \<le> packet_size" if "i < n" for i
  proof -
    have "length (nat_str (i + 1)) \<le> 10" by (rule length_nat_str) (use that n10 in simp_all)
    then have "length (?f i) \<le> length function_id + 25 + sz" using ln by simp
    then show ?thesis using sz(1) by linarith
  qed
  note loop = packets_loop [of n ?f, OF this]
  have h: "c_str function_id = function_id" using assms(3) by (rule c_str_plain)
  have small: "\<not> int (length ?h) + 1 > packet_size" using ln sz(1) by simp
  have nul: "NUL \<notin> set (nat_str k)" for k using nat_str_clean by (fastforce simp: is_digit_def)
  have c: "c_str (?f i) = ?h @ nat_str (i + 1) @ '','' @ packet_body whole_string sz i" for i
  proof -
    have "NUL \<notin> set (take sz (drop (i * sz) whole_string))" using assms(2) by (meson in_set_dropD in_set_takeD)
    then show ?thesis using assms(3) nul by (simp add: packet_body_def c_str_plain)
  qed
  have v: "IvPFunctionToVector whole_string function_id packet_size = Some (map (\<lambda>i. c_str (?f i)) [0..<n])"
  proof -
    have c1: "\<not> (int sz = 0 \<or> packet_size < 0)" using sz(2) assms(1) by simp
    have i: "int_str (int n) = nat_str n" by (simp add: int_str_def)
    show ?thesis
      using loop unfolding IvPFunctionToVector_def Let_def sz(1) n h i if_not_P [OF c1] if_not_P [OF small] nat_int .
  qed
  have "length whole_string < n * sz" using sz(2) by (simp add: n_def dividend_less_div_times)
  then have "concat (map (packet_body whole_string sz) [0..<n]) = whole_string" using bodies_concat [OF sz(2)] by simp
  then show ?thesis
    by (intro exI [of _ n] exI [of _ "map (packet_body whole_string sz) [0..<n]"]) (simp add: v [unfolded c])
qed

theorem packets_reassemble_witness:
  "\<exists>n bodies. length bodies = n \<and> concat bodies = ''H,3,a:b,1,2'' \<and>
     IvPFunctionToVector ''H,3,a:b,1,2'' ''f1'' 57 =
       Some (map (\<lambda>i. ''P,'' @ ''f1'' @ '','' @ nat_str n @ '','' @ nat_str (i + 1) @ '','' @ bodies ! i) [0..<n])"
  by (rule packets_reassemble) simp_all

end
