(* ===== verification/Behavior_Set.thy ===== *)
theory Behavior_Set
  imports Behavior_Spec Function_Text
begin

text \<open>
  The behaviors of the helm and their steps: \<open>BehaviorSetEntry.h\<close>, \<open>BehaviorSet.h\<close> and \<open>BehaviorSet.cpp\<close> of
  \<open>src/ivp/src/lib_helmivp\<close> and \<open>LifeEvent.h\<close> of \<open>lib_behaviors\<close>. A behavior object is its table of virtual
  methods and its state; the buffer all of them have been connected to is an argument. A \<open>std::set\<close> of strings
  is the ascending list of its elements.
\<close>

section \<open>State\<close>

text \<open>The virtual methods, and those of the base class.\<close>

record 'x bhv_methods =
  v_setParam :: "string \<Rightarrow> string \<Rightarrow> 'x ivp_behavior_scheme \<Rightarrow> (bool \<times> 'x ivp_behavior_scheme) option"
  v_postConfigStatus :: "'x ivp_behavior_scheme \<Rightarrow> 'x ivp_behavior_scheme option"
  v_onSetParamComplete :: "infobuffer option \<Rightarrow> 'x ivp_behavior_scheme \<Rightarrow> 'x ivp_behavior_scheme option"
  v_onIdleState :: "infobuffer option \<Rightarrow> 'x ivp_behavior_scheme \<Rightarrow> 'x ivp_behavior_scheme option"
  v_onCompleteState :: "infobuffer option \<Rightarrow> 'x ivp_behavior_scheme \<Rightarrow> 'x ivp_behavior_scheme option"
  v_onIdleToRunState :: "infobuffer option \<Rightarrow> 'x ivp_behavior_scheme \<Rightarrow> 'x ivp_behavior_scheme option"
  v_onRunToIdleState :: "infobuffer option \<Rightarrow> 'x ivp_behavior_scheme \<Rightarrow> 'x ivp_behavior_scheme option"
  v_onHelmStart :: "infobuffer option \<Rightarrow> 'x ivp_behavior_scheme \<Rightarrow> 'x ivp_behavior_scheme option"
  v_onRunState :: "infobuffer option \<Rightarrow> 'x ivp_behavior_scheme \<Rightarrow> (ivpfunction option \<times> 'x ivp_behavior_scheme) option"

definition base_methods :: "'x bhv_methods" where
  "base_methods = \<lparr>v_setParam = plain_setParam, v_postConfigStatus = Some, v_onSetParamComplete = (\<lambda>_. Some),
     v_onIdleState = (\<lambda>_. Some), v_onCompleteState = (\<lambda>_. Some), v_onIdleToRunState = (\<lambda>_. Some),
     v_onRunToIdleState = (\<lambda>_. Some), v_onHelmStart = (\<lambda>_. Some), v_onRunState = (\<lambda>_ b. Some (None, b))\<rparr>"

record 'x bhv_entry =
  m_behavior :: "('x bhv_methods \<times> 'x ivp_behavior_scheme) option"
  m_state :: string
  m_state_time_entered :: real
  m_state_time_elapsed :: real

definition BehaviorSetEntry_new :: "('x bhv_methods \<times> 'x ivp_behavior_scheme) option \<Rightarrow> 'x bhv_entry" where
  "BehaviorSetEntry_new b = \<lparr>m_behavior = b, m_state = '''', m_state_time_entered = 0, m_state_time_elapsed = - 1\<rparr>"

definition getBehaviorName :: "'x bhv_entry \<Rightarrow> string" where
  "getBehaviorName e = (case m_behavior e of Some (_, b) \<Rightarrow> m_descriptor b | None \<Rightarrow> ''unknown'')"

definition getBehaviorType :: "'x bhv_entry \<Rightarrow> string" where
  "getBehaviorType e = (case m_behavior e of Some (_, b) \<Rightarrow> m_behavior_type b | None \<Rightarrow> ''unknown'')"

record life_event =
  le_timestamp :: real
  le_iteration :: nat
  le_event_type :: string
  le_behavior_name :: string
  le_behavior_type :: string
  le_spawn_string :: string

record 'x behavior_set =
  m_bhv_entry :: "'x bhv_entry list"
  m_bhv_names :: "string list"
  m_initial_vars :: "var_data_pair list"
  m_default_vars :: "var_data_pair list"
  m_helm_start_msgs :: "var_data_pair list"
  m_prev_info_vars :: "string list"
  m_state_space_vars :: "string list"
  m_warnings :: "string list"
  m_behavior_specs :: "behavior_spec list"
  m_life_events :: "life_event list"
  m_report_ipf :: bool
  bs_curr_time :: real
  m_completed_pending :: bool
  m_mode_set :: mode_set
  m_total_behaviors_ever :: nat

definition BehaviorSet_new :: "'x behavior_set" where
  "BehaviorSet_new = \<lparr>m_bhv_entry = [], m_bhv_names = [], m_initial_vars = [], m_default_vars = [],
     m_helm_start_msgs = [], m_prev_info_vars = [], m_state_space_vars = [], m_warnings = [],
     m_behavior_specs = [],
     m_life_events = [], m_report_ipf = True, bs_curr_time = - 1, m_completed_pending = False, m_mode_set = ModeSet_new,
     m_total_behaviors_ever = 0\<rparr>"

definition addBehavior :: "('x bhv_methods \<times> 'x ivp_behavior_scheme) option \<Rightarrow> 'x behavior_set \<Rightarrow> 'x behavior_set" where
  "addBehavior bhv bs =
     (case bhv of None \<Rightarrow> bs
      | Some (_, b) \<Rightarrow> bs\<lparr>m_bhv_entry := m_bhv_entry bs @ [BehaviorSetEntry_new bhv],
          m_bhv_names := insort_insert (m_descriptor b) (m_bhv_names bs),
          m_total_behaviors_ever := (m_total_behaviors_ever bs + 1) mod 2 ^ 32\<rparr>)"

definition clearBehaviors :: "'x behavior_set \<Rightarrow> 'x behavior_set" where
  "clearBehaviors bs = bs\<lparr>m_bhv_entry := [], m_bhv_names := []\<rparr>"

section \<open>A step of one behavior\<close>

text \<open>Part 1: updates, a reset of the duration, the new state.\<close>

definition prepare :: "infobuffer option \<Rightarrow> 'x bhv_methods \<Rightarrow> 'x ivp_behavior_scheme \<Rightarrow>
    (string \<times> 'x ivp_behavior_scheme) option" where
  "prepare info M b =
     checkUpdates (v_setParam M) (v_postConfigStatus M) info b \<bind> (\<lambda>(update_made, b).
     (if update_made then v_onSetParamComplete M info b else Some b) \<bind> (\<lambda>b.
     isRunnable info (snd (checkForDurationReset info b))))"

definition idle_step :: "infobuffer option \<Rightarrow> 'x bhv_methods \<Rightarrow> string \<Rightarrow> 'x ivp_behavior_scheme \<Rightarrow>
    'x ivp_behavior_scheme option" where
  "idle_step info M old b =
     (if old \<noteq> ''idle'' then postFlags ''idleflags'' True b \<bind> postFlags ''inactiveflags'' True else Some b) \<bind> (\<lambda>b.
     (if old = ''running'' \<or> old = ''active'' then v_onRunToIdleState M info b else Some b) \<bind> (\<lambda>b.
     v_onIdleState M info b \<bind> updateStateDurations info ''idle''))"

text \<open>The report of a function: its text is posted, with the iteration and the name as its context.\<close>

definition report_ipf :: "nat \<Rightarrow> ivpfunction \<Rightarrow> 'x ivp_behavior_scheme \<Rightarrow> (ivpfunction \<times> 'x ivp_behavior_scheme) option" where
  "report_ipf iteration ipf b =
     (let ipf = setContextStr (uintToString iteration @ '':'' @ m_descriptor b) ipf
      in IvPFunctionToString ipf \<bind> (\<lambda>ipf_str. postMessage_s ''BHV_IPF'' ipf_str '''' b \<bind> (\<lambda>b. Some (ipf, b))))"

text \<open>A function without positive weight is dropped.\<close>

definition run_step :: "infobuffer option \<Rightarrow> 'x bhv_methods \<Rightarrow> bool \<Rightarrow> nat \<Rightarrow> string \<Rightarrow> 'x ivp_behavior_scheme \<Rightarrow>
    (ivpfunction option \<times> string \<times> 'x ivp_behavior_scheme) option" where
  "run_step info M report iteration old b =
     (if old = ''idle'' \<or> old = '''' then postFlags ''runflags'' True b else Some b) \<bind> (\<lambda>b.
     postDurationStatus info b \<bind> (\<lambda>b.
     (if old = ''idle'' then v_onIdleToRunState M info b else Some b) \<bind> (\<lambda>b.
     v_onRunState M info b \<bind> (\<lambda>(ipf, b).
     (case ipf of
        Some f \<Rightarrow>
          if m_pwt f \<le> 0 then Some (None, b)
          else if report then report_ipf iteration f b \<bind> (\<lambda>(f, b). Some (Some f, b)) else Some (Some f, b)
      | None \<Rightarrow> Some (None, b)) \<bind> (\<lambda>(ipf, b).
     (case ipf of
        Some f \<Rightarrow>
          (if old \<noteq> ''active'' then postFlags ''activeflags'' True b else Some b) \<bind> (\<lambda>b.
          let b = statusInfoAdd ''pwt'' (doubleToString (m_pwt f) 5) b;
              b = statusInfoAdd ''pcs'' (intToString (int (m_boxCount (m_pdmap f)))) b
          in Some (''active'', b))
      | None \<Rightarrow>
          (if old = ''active'' then postFlags ''inactiveflags'' True b else Some b) \<bind> (\<lambda>b. Some (''running'', b))) \<bind> (\<lambda>(new, b).
     updateStateDurations info ''running'' b \<bind> (\<lambda>b. Some (ipf, new, b))))))))"

text \<open>Part 2, by the new state.\<close>

definition state_step :: "infobuffer option \<Rightarrow> 'x bhv_methods \<Rightarrow> bool \<Rightarrow> nat \<Rightarrow> string \<Rightarrow> string \<Rightarrow> 'x ivp_behavior_scheme \<Rightarrow>
    (ivpfunction option \<times> string \<times> 'x ivp_behavior_scheme) option" where
  "state_step info M report iteration old new b =
     (if new = ''completed'' then v_onCompleteState M info b \<bind> (\<lambda>b. Some (None, new, b))
      else if new = ''idle'' then idle_step info M old b \<bind> (\<lambda>b. Some (None, new, b))
      else if new = ''running'' then run_step info M report iteration old b
      else Some (None, new, b))"

definition produceOF :: "infobuffer option \<Rightarrow> nat \<Rightarrow> nat \<Rightarrow> string \<Rightarrow> 'x behavior_set \<Rightarrow>
    (ivpfunction option \<times> string \<times> 'x behavior_set) option" where
  "produceOF info ix iteration new_activity_state bs =
     (if ix \<ge> length (m_bhv_entry bs) then Some (None, new_activity_state, bs)
      else let e = m_bhv_entry bs ! ix; old = m_state e
        in m_behavior e \<bind> (\<lambda>(M, b).
           prepare info M b \<bind> (\<lambda>(new, b).
           state_step info M (m_report_ipf bs) iteration old new b \<bind> (\<lambda>(ipf, new, b).
           statusInfoPost (statusInfoAdd ''state'' new b) \<bind> (\<lambda>b.
           let entered = (if old \<noteq> new then bs_curr_time bs else m_state_time_entered e);
               e = e\<lparr>m_behavior := Some (M, b), m_state := new, m_state_time_entered := entered,
                     m_state_time_elapsed := bs_curr_time bs - entered\<rparr>
           in Some (ipf, new, bs\<lparr>m_bhv_entry := (m_bhv_entry bs)[ix := e]\<rparr>))))))"

section \<open>The set of behaviors\<close>

definition on_behavior :: "nat \<Rightarrow> ('x ivp_behavior_scheme \<Rightarrow> 'a) \<Rightarrow> 'a \<Rightarrow> 'x behavior_set \<Rightarrow> 'a option" where
  "on_behavior ix f dflt bs =
     (if ix < length (m_bhv_entry bs) then map_option (f \<circ> snd) (m_behavior (m_bhv_entry bs ! ix)) else Some dflt)"

definition bs_stateOK :: "nat \<Rightarrow> 'x behavior_set \<Rightarrow> bool option" where
  "bs_stateOK ix bs = on_behavior ix m_bhv_state_ok False bs"

definition resetStateOK :: "'x behavior_set \<Rightarrow> 'x behavior_set option" where
  "resetStateOK bs =
     foldM (\<lambda>es e. m_behavior e \<bind> (\<lambda>(M, b). Some (es @ [e\<lparr>m_behavior := Some (M, b\<lparr>m_bhv_state_ok := True\<rparr>)\<rparr>]))) [] (m_bhv_entry bs)
     \<bind> (\<lambda>es. Some (bs\<lparr>m_bhv_entry := es\<rparr>))"

definition death :: "'x bhv_entry \<Rightarrow> life_event" where
  "death e = \<lparr>le_timestamp = 0, le_iteration = 0, le_event_type = ''death'', le_behavior_name = getBehaviorName e,
     le_behavior_type = getBehaviorType e, le_spawn_string = ''''\<rparr>"

definition removeCompletedBehaviors :: "'x behavior_set \<Rightarrow> nat \<times> 'x behavior_set" where
  "removeCompletedBehaviors bs =
     (if \<not> m_completed_pending bs then (0, bs)
      else let (new_bhv_entry, events, names, completed_count) =
             foldl (\<lambda>(new_bhv_entry, events, names, completed_count) e.
                 if m_state e \<noteq> ''completed'' then (new_bhv_entry @ [e], events, names, completed_count)
                 else (new_bhv_entry, events @ [death e], removeAll (getBehaviorName e) names, completed_count + 1))
               ([], m_life_events bs, m_bhv_names bs, 0) (m_bhv_entry bs)
           in (completed_count, bs\<lparr>m_bhv_entry := new_bhv_entry, m_life_events := events, m_bhv_names := names,
                 m_completed_pending := False\<rparr>))"

definition getDescriptor :: "nat \<Rightarrow> 'x behavior_set \<Rightarrow> string" where
  "getDescriptor ix bs = (if ix < length (m_bhv_entry bs) then getBehaviorName (m_bhv_entry bs ! ix) else '''')"

definition getStateElapsed :: "nat \<Rightarrow> 'x behavior_set \<Rightarrow> real" where
  "getStateElapsed ix bs = (if ix < length (m_bhv_entry bs) then m_state_time_elapsed (m_bhv_entry bs ! ix) else - 1)"

definition getStateTimeEntered :: "nat \<Rightarrow> 'x behavior_set \<Rightarrow> real" where
  "getStateTimeEntered ix bs = (if ix < length (m_bhv_entry bs) then m_state_time_entered (m_bhv_entry bs ! ix) else - 1)"

definition getUpdateSummary :: "nat \<Rightarrow> 'x behavior_set \<Rightarrow> string option" where
  "getUpdateSummary ix bs = on_behavior ix m_update_summary ''err'' bs"

definition getFilterLevel :: "nat \<Rightarrow> 'x behavior_set \<Rightarrow> int option" where
  "getFilterLevel ix bs = on_behavior ix m_filter_level 0 bs"

fun filter_loop :: "'x bhv_entry list \<Rightarrow> bool option" where
  "filter_loop [] = Some False"
| "filter_loop (e # es) = m_behavior e \<bind> (\<lambda>(_, b). if m_filter_level b \<noteq> 0 then Some True else filter_loop es)"

definition filterBehaviorsPresent :: "'x behavior_set \<Rightarrow> bool option" where
  "filterBehaviorsPresent bs = filter_loop (m_bhv_entry bs)"

definition getMessages :: "nat \<Rightarrow> bool \<Rightarrow> 'x behavior_set \<Rightarrow> (var_data_pair list \<times> 'x behavior_set) option" where
  "getMessages ix clear bs =
     (if ix < length (m_bhv_entry bs)
      then let e = m_bhv_entry bs ! ix
        in m_behavior e \<bind> (\<lambda>(M, b).
           Some (bhv_messages b, if clear then bs\<lparr>m_bhv_entry := (m_bhv_entry bs)[ix :=
             e\<lparr>m_behavior := Some (M, b\<lparr>bhv_messages := []\<rparr>)\<rparr>]\<rparr> else bs))
      else Some ([], bs))"

definition bs_getInfoVars :: "'x behavior_set \<Rightarrow> string list option" where
  "bs_getInfoVars bs =
     foldM (\<lambda>rvector e. m_behavior e \<bind> (\<lambda>(_, b). Some (rvector @ bhv_getInfoVars b))) [] (m_bhv_entry bs) \<bind> (\<lambda>rvector.
     Some (removeDuplicates (mergeVectors rvector (getConditionVars (m_mode_set bs)))))"

definition getNewInfoVars :: "'x behavior_set \<Rightarrow> (string list \<times> 'x behavior_set) option" where
  "getNewInfoVars bs =
     bs_getInfoVars bs \<bind> (\<lambda>cvector.
     let (rvector, prev) = foldl (\<lambda>(rvector, prev) c.
           if c \<notin> set prev then (rvector @ [c], insort_insert c prev) else (rvector, prev)) ([], m_prev_info_vars bs) cvector
     in Some (rvector, bs\<lparr>m_prev_info_vars := prev\<rparr>))"

definition bs_addWarning :: "string \<Rightarrow> 'x behavior_set \<Rightarrow> 'x behavior_set" where
  "bs_addWarning str bs = bs\<lparr>m_warnings := m_warnings bs @ [str]\<rparr>"

text \<open>A name is unique when neither it nor a name of the set begins with the other.\<close>

definition uniqueNameX :: "string \<Rightarrow> string list \<Rightarrow> bool" where
  "uniqueNameX given_name given_set =
     list_all (\<lambda>this_name. \<not> strBegins given_name this_name True \<and> \<not> strBegins this_name given_name True) given_set"

definition updateStateSpaceVars :: "'x behavior_set \<Rightarrow> bool \<times> 'x behavior_set" where
  "updateStateSpaceVars bs =
     (let vars = foldl (\<lambda>vars e. case m_behavior e of None \<Rightarrow> vars
              | Some (_, b) \<Rightarrow> foldl (\<lambda>vars v. insort_insert v vars) vars (bhv_getStateSpaceVars b))
            (m_state_space_vars bs) (m_bhv_entry bs)
      in (length vars > length (m_state_space_vars bs), bs\<lparr>m_state_space_vars := vars\<rparr>))"

definition bs_getStateSpaceVars :: "'x behavior_set \<Rightarrow> string" where
  "bs_getStateSpaceVars bs =
     foldl (\<lambda>return_str str. (if return_str \<noteq> '''' then return_str @ '','' else return_str) @ str) '''' (m_state_space_vars bs)"

end
