(* ===== verification/Behavior_Step.thy ===== *)
theory Behavior_Step
  imports Behavior_Set
begin

text \<open>
  What a step of the behavior set does. \<open>able\<close> says when a behavior can take a step; the locale \<open>behavior_class\<close>
  is the contract of the virtual methods, interpreted on the methods of the base class; \<open>produceOF\<close> keeps it and
  moves the state of the behavior as \<open>outcome\<close> says.
\<close>

section \<open>Behaviors that can take a step\<close>

definition plain_start :: "string \<Rightarrow> bool" where
  "plain_start s \<longleftrightarrow> s \<noteq> '''' \<and> hd s \<noteq> QUOTE \<and> \<not> front_blank (hd s)"

text \<open>The name has been set, no update is waiting, the duration is not reported, every flag can be posted.\<close>

definition able :: "infobuffer \<Rightarrow> 'x ivp_behavior_scheme \<Rightarrow> bool" where
  "able ib b \<longleftrightarrow> bhv_inv b \<and> plain_start (m_status_info b) \<and> m_duration_status b = '''' \<and>
     (m_update_var b = '''' \<or> fst (getBufferStringVector (Some ib) (m_update_var b)) = []) \<and>
     (\<forall>p\<in>set (m_run_flags b @ m_active_flags b @ m_inactive_flags b @ m_end_flags b @ m_idle_flags b). flag_ok b p)"

lemma ableD:
  assumes "able ib b"
  shows "bhv_inv b" "plain_start (m_status_info b)" "m_duration_status b = ''''"
    "m_update_var b = '''' \<or> fst (getBufferStringVector (Some ib) (m_update_var b)) = []"
    "\<forall>p\<in>set (flags_of k b). flag_ok b p" "\<forall>p\<in>set (m_end_flags b). flag_ok b p"
  using assms by (auto simp: able_def flags_of_def)

lemma plain_start_append [simp]: "plain_start s \<Longrightarrow> plain_start (s @ t)"
  by (simp add: plain_start_def)

lemma able_frame:
  assumes "able ib b" "same_setup b b'" "bhv_inv b'" "plain_start (m_status_info b')"
  shows "able ib b'"
proof -
  have "flag_ok b' p = flag_ok b p" for p using assms(2) by (simp add: flag_ok_def expanded_def same_setup_def)
  then show ?thesis using assms by (simp add: able_def same_setup_def)
qed

lemma able_messages [simp]: "able ib (b\<lparr>bhv_messages := ms\<rparr>) = able ib b"
  by (simp add: able_def bhv_inv_def flag_ok_def expanded_def)

lemma able_flags: "able ib b \<Longrightarrow> \<exists>b'. postFlags k True b = Some b' \<and> able ib b'"
  using postFlag_loop_ok [OF ableD(5)] by (fastforce simp: postFlags_def)

lemma able_duration:
  assumes "able ib b"
  shows "postDurationStatus (Some ib) b = Some b"
proof -
  have "post_remaining r b = Some b" for r using ableD(3) [OF assms] by (simp add: post_remaining_def)
  then show ?thesis by (simp add: postDurationStatus_def Let_def)
qed

lemma able_clock:
  assumes "able ib b"
  shows "\<exists>b'. updateStateDurations (Some ib) s b = Some b' \<and> able ib b'"
proof -
  let ?c = "\<lambda>i r. b\<lparr>m_duration_prev_timestamp := m_curr_time_utc ib, m_duration_prev_state := s,
      m_duration_idle_time := i, m_duration_running_time := r\<rparr>"
  have "\<exists>i r. updateStateDurations (Some ib) s b = Some (?c i r)"
  proof (cases "m_duration_prev_state b = ''''")
    case True
    then show ?thesis
      by (intro exI [of _ "m_duration_idle_time b"] exI [of _ "m_duration_running_time b"]) (simp add: updateStateDurations_def)
  next
    case False
    let ?d = "m_curr_time_utc ib - m_duration_prev_timestamp b"
    show ?thesis
      by (rule exI [of _ "if s = ''idle'' then m_duration_idle_time b + ?d else m_duration_idle_time b"],
          rule exI [of _ "if s = ''running'' then m_duration_running_time b + ?d else m_duration_running_time b"])
        (simp add: updateStateDurations_def Let_def False)
  qed
  then obtain i r where u: "updateStateDurations (Some ib) s b = Some (?c i r)" by blast
  have "bhv_inv (?c i r)" using ableD(1) [OF assms] by (simp add: bhv_inv_def)
  moreover have "same_setup b (?c i r)" "plain_start (m_status_info (?c i r))" using ableD(2) [OF assms] by simp_all
  ultimately have "able ib (?c i r)" using able_frame [OF assms] by blast
  with u show ?thesis by blast
qed

lemma able_status [simp]:
  assumes "able ib b"
  shows "able ib (statusInfoAdd p v b)"
proof -
  have "bhv_inv (statusInfoAdd p v b)" using ableD(1) [OF assms] by (simp add: bhv_inv_def statusInfoAdd_def)
  moreover have "plain_start (m_status_info (statusInfoAdd p v b))"
    using ableD(2) [OF assms] by (simp add: statusInfoAdd_def)
  ultimately show ?thesis using able_frame [OF assms] by simp
qed

lemma able_post:
  assumes "able ib b"
  shows "\<exists>b'. statusInfoPost (statusInfoAdd p v b) = Some b' \<and> able ib b'"
proof -
  let ?b = "statusInfoAdd ''updates'' (m_update_summary b) (statusInfoAdd p v b)"
  have a: "able ib ?b" using assms by simp
  then have "plain_start (m_status_info ?b)" by (rule ableD)
  then obtain c s where c: "m_status_info ?b = c # s" "c \<noteq> QUOTE" "\<not> front_blank c"
    by (cases "m_status_info ?b") (auto simp: plain_start_def)
  obtain ms where ms: "postMessage_s ''BHV_STATUS'' (m_status_info ?b) (m_descriptor ?b) ?b = Some (with_messages ?b ms)"
    using post_plain [OF c(2,3)] unfolding c(1) by blast
  let ?b' = "(with_messages ?b ms)\<lparr>m_status_info := ''name='' @ m_descriptor (with_messages ?b ms)\<rparr>"
  have "statusInfoPost (statusInfoAdd p v b) = Some ?b'"
    using ms by (simp add: statusInfoPost_def statusInfoAdd_def Let_def)
  moreover have "able ib ?b'"
    using ableD(1) [OF a] a by (auto simp: able_def bhv_inv_def plain_start_def front_blank_def flag_ok_def expanded_def)
  ultimately show ?thesis by blast
qed

lemma able_reset:
  assumes "able ib b"
  shows "able ib (snd (checkForDurationReset (Some ib) b))"
    "bhv_logic_conditions (snd (checkForDurationReset (Some ib) b)) = bhv_logic_conditions b"
proof -
  obtain r b' where b': "checkForDurationReset (Some ib) b = (r, b')" by (cases "checkForDurationReset (Some ib) b")
  have "durationReset (b\<lparr>m_duration_reset_timestamp := t\<rparr>) = b\<lparr>m_duration_reset_timestamp := t,
      m_duration_reset_pending := False, m_duration_started := False, m_duration_start_time := - 1,
      m_duration_idle_time := 0, m_duration_running_time := 0\<rparr>" for t
    using ableD(3) [OF assms] by (simp add: durationReset_def)
  then have "b' = b \<or> (\<exists>t. b' = b\<lparr>m_duration_reset_timestamp := t,
      m_duration_reset_pending := False, m_duration_started := False, m_duration_start_time := - 1,
      m_duration_idle_time := 0, m_duration_running_time := 0\<rparr>)"
    using checkForDurationReset_cases [OF b'] by fastforce
  then show "able ib (snd (checkForDurationReset (Some ib) b))"
    "bhv_logic_conditions (snd (checkForDurationReset (Some ib) b)) = bhv_logic_conditions b"
    using assms unfolding b' snd_conv able_def bhv_inv_def flag_ok_def expanded_def by (elim disjE exE; simp)+
qed

lemma able_runnable:
  assumes "able ib b" "\<forall>c\<in>set (bhv_logic_conditions b). logic_ok env c"
    "first_fails (map (\<lambda>c. holds (\<lambda>v. learned ib v (env v)) (condition_of c)) (bhv_logic_conditions b)) = Some met"
  shows "\<exists>b'. isRunnable (Some ib) b = Some (run_state ib met b, b') \<and> able ib b'"
proof -
  note a = ableD [OF assms(1)]
  obtain b' where b': "isRunnable (Some ib) b = Some (run_state ib met b, b')" "bhv_inv b'"
    using isRunnable_returns [OF a(1) assms(2,3) a(6)] a(3) by blast
  have s: "same_setup b b'" by (rule isRunnable_frame [OF b'(1)])
  then obtain x where x: "m_status_info b' = m_status_info b @ x" by (auto simp: same_setup_def)
  have "plain_start (m_status_info b')" unfolding x by (rule plain_start_append) (rule a(2))
  then show ?thesis using b' able_frame [OF assms(1) s] by blast
qed


lemma able_prepare:
  assumes "able ib b" "\<forall>c\<in>set (bhv_logic_conditions b). logic_ok env c"
    "first_fails (map (\<lambda>c. holds (\<lambda>v. learned ib v (env v)) (condition_of c)) (bhv_logic_conditions b)) = Some met"
  shows "\<exists>u b'. prepare (Some ib) M b =
     Some (run_state ib met (snd (checkForDurationReset (Some ib) (b\<lparr>m_update_summary := u\<rparr>))), b') \<and> able ib b'"
proof -
  obtain u where u: "checkUpdates (v_setParam M) (v_postConfigStatus M) (Some ib) b = Some (False, b\<lparr>m_update_summary := u\<rparr>)"
  proof (cases "m_update_var b = ''''")
    case True
    then show ?thesis by (intro that) (simp add: checkUpdates_def)
  next
    case False
    then show ?thesis using ableD(4) [OF assms(1)] by (intro that) (simp add: checkUpdates_def)
  qed
  let ?b = "b\<lparr>m_update_summary := u\<rparr>"
  have a: "able ib ?b" using assms(1) by (simp add: able_def bhv_inv_def flag_ok_def expanded_def)
  have c: "bhv_logic_conditions (snd (checkForDurationReset (Some ib) ?b)) = bhv_logic_conditions b"
    using able_reset(2) [OF a] by simp
  obtain b' where "isRunnable (Some ib) (snd (checkForDurationReset (Some ib) ?b)) =
      Some (run_state ib met (snd (checkForDurationReset (Some ib) ?b)), b')" "able ib b'"
    using able_runnable [OF able_reset(1) [OF a], unfolded c, OF assms(2,3)] by blast
  then show ?thesis by (auto simp: prepare_def u)
qed

lemma ipf_string_starts:
  assumes "IvPFunctionToString f = Some s"
  shows "\<exists>r. s = CHR ''H'' # r"
proof -
  obtain t where t: "ipf_text f = Some t" "s = c_str t"
    using assms by (auto simp: IvPFunctionToString_def split: Option.bind_splits if_splits)
  then obtain h x where h: "ipf_header f = Some h" "t = h @ x"
    by (auto simp: ipf_text_def Let_def split: Option.bind_splits if_splits)
  then obtain y where "h = CHR ''H'' # y" by (auto simp: ipf_header_def Let_def split: if_splits)
  then show ?thesis using h(2) t(2) by (simp add: c_str_def)
qed

text \<open>The summary of the updates has no influence on the clock.\<close>

lemma run_state_summary: "run_state ib met (b\<lparr>m_update_summary := u\<rparr>) = run_state ib met b"
  by (simp add: run_state_def limit_reached_def elapsed_def is_starving_def)

lemma reset_summary: "snd (checkForDurationReset (Some ib) (b\<lparr>m_update_summary := u\<rparr>)) =
    (snd (checkForDurationReset (Some ib) b))\<lparr>m_update_summary := u\<rparr>"
proof -
  have "durationReset (b\<lparr>m_update_summary := u, m_duration_reset_timestamp := t\<rparr>) =
      (durationReset (b\<lparr>m_duration_reset_timestamp := t\<rparr>))\<lparr>m_update_summary := u\<rparr>" for t
    by (intro ivp_behavior.equality)
      (simp_all add: durationReset_def Let_def postMessage_d_def remapped_def keyed_def split: option.splits)
  then show ?thesis by (simp add: checkForDurationReset_def Let_def split: prod.splits)
qed

text \<open>What a step gives, from the state \<open>isRunnable\<close> found: only a running behavior is asked for a function, and only
  one with positive weight is kept and makes the behavior active.\<close>

definition outcome :: "'x bhv_methods \<Rightarrow> infobuffer \<Rightarrow> bool \<Rightarrow> nat \<Rightarrow> string \<Rightarrow> ivpfunction option \<Rightarrow> string \<Rightarrow> bool" where
  "outcome M ib report iteration state0 ipf new \<longleftrightarrow>
     (if state0 = ''running''
      then \<exists>b1 b2 r. able ib b1 \<and> v_onRunState M (Some ib) b1 = Some (r, b2) \<and>
        (case r of
           Some f \<Rightarrow>
             if 0 < m_pwt f
             then new = ''active'' \<and>
               ipf = Some (if report then setContextStr (uintToString iteration @ '':'' @ m_descriptor b2) f else f)
             else new = ''running'' \<and> ipf = None
         | None \<Rightarrow> new = ''running'' \<and> ipf = None)
      else new = state0 \<and> ipf = None)"

section \<open>The contract of a behavior class\<close>

text \<open>What the set relies on: its hooks return and leave the behavior able, and a function it returns can be reported.\<close>

locale behavior_class =
  fixes M :: "'x bhv_methods" and ib :: infobuffer and report :: bool and iteration :: nat
  assumes on_idle: "able ib b \<Longrightarrow> \<exists>b'. v_onIdleState M (Some ib) b = Some b' \<and> able ib b'"
    and on_complete: "able ib b \<Longrightarrow> \<exists>b'. v_onCompleteState M (Some ib) b = Some b' \<and> able ib b'"
    and idle_to_run: "able ib b \<Longrightarrow> \<exists>b'. v_onIdleToRunState M (Some ib) b = Some b' \<and> able ib b'"
    and run_to_idle: "able ib b \<Longrightarrow> \<exists>b'. v_onRunToIdleState M (Some ib) b = Some b' \<and> able ib b'"
    and on_run: "able ib b \<Longrightarrow> \<exists>ipf b'. v_onRunState M (Some ib) b = Some (ipf, b') \<and> able ib b' \<and>
      (\<forall>f. ipf = Some f \<and> 0 < m_pwt f \<and> report \<longrightarrow>
         IvPFunctionToString (setContextStr (uintToString iteration @ '':'' @ m_descriptor b') f) \<noteq> None)"
begin

lemma idle_step_returns:
  assumes "able ib b"
  shows "\<exists>b'. idle_step (Some ib) M old b = Some b' \<and> able ib b'"
proof -
  obtain b1 where b1: "(if old \<noteq> ''idle'' then postFlags ''idleflags'' True b \<bind> postFlags ''inactiveflags'' True else Some b) = Some b1" "able ib b1"
  proof (cases "old = ''idle''")
    case False
    obtain b0 where "postFlags ''idleflags'' True b = Some b0" "able ib b0" using able_flags [OF assms] by blast
    with able_flags [OF this(2), of "''inactiveflags''"] False that show ?thesis by auto
  qed (use assms that in simp)
  obtain b2 where b2: "(if old = ''running'' \<or> old = ''active'' then v_onRunToIdleState M (Some ib) b1 else Some b1) = Some b2" "able ib b2"
    using run_to_idle [OF b1(2)] b1(2) that by (cases "old = ''running'' \<or> old = ''active''") auto
  obtain b3 where b3: "v_onIdleState M (Some ib) b2 = Some b3" "able ib b3" using on_idle [OF b2(2)] by blast
  obtain b4 where b4: "updateStateDurations (Some ib) ''idle'' b3 = Some b4" "able ib b4" using able_clock [OF b3(2)] by blast
  show ?thesis unfolding idle_step_def b1(1) by (simp add: b2(1) [simplified] b3(1) b4)
qed

lemma report_returns:
  assumes "able ib b" "IvPFunctionToString (setContextStr (uintToString iteration @ '':'' @ m_descriptor b) f) = Some s"
  shows "\<exists>b'. report_ipf iteration f b = Some (setContextStr (uintToString iteration @ '':'' @ m_descriptor b) f, b') \<and> able ib b'"
proof -
  obtain r where r: "s = CHR ''H'' # r" using ipf_string_starts [OF assms(2)] by blast
  have "\<exists>ms. postMessage_s ''BHV_IPF'' s '''' b = Some (with_messages b ms)"
    unfolding r by (rule post_plain) (simp_all add: front_blank_def)
  with assms show ?thesis by (auto simp: report_ipf_def Let_def)
qed

text \<open>The function that is kept, and what it is reported as.\<close>

lemma function_returns:
  assumes "able ib b"
  shows "\<exists>b1 ipf b'. v_onRunState M (Some ib) b = Some (ipf, b1) \<and> able ib b' \<and>
    (case ipf of
        Some f \<Rightarrow> if m_pwt f \<le> 0 then Some (None, b1)
          else if report then report_ipf iteration f b1 \<bind> (\<lambda>(f, b). Some (Some f, b)) else Some (Some f, b1)
      | None \<Rightarrow> Some (None, b1)) =
    Some (if \<exists>f. ipf = Some f \<and> 0 < m_pwt f
          then Some (if report then setContextStr (uintToString iteration @ '':'' @ m_descriptor b1) (the ipf) else the ipf) else None, b')"
proof -
  obtain ipf b1 where r: "v_onRunState M (Some ib) b = Some (ipf, b1)" "able ib b1"
    "\<forall>f. ipf = Some f \<and> 0 < m_pwt f \<and> report \<longrightarrow>
       IvPFunctionToString (setContextStr (uintToString iteration @ '':'' @ m_descriptor b1) f) \<noteq> None"
    using on_run [OF assms] by blast
  show ?thesis
  proof (cases "report \<and> (\<exists>f. ipf = Some f \<and> 0 < m_pwt f)")
    case True
    then obtain f where f: "ipf = Some f" "0 < m_pwt f" by blast
    then obtain s where "IvPFunctionToString (setContextStr (uintToString iteration @ '':'' @ m_descriptor b1) f) = Some s"
      using r(3) True by blast
    from report_returns [OF r(2) this] obtain b' where
      b': "report_ipf iteration f b1 = Some (setContextStr (uintToString iteration @ '':'' @ m_descriptor b1) f, b')" "able ib b'" by blast
    show ?thesis by (rule exI [of _ b1], rule exI [of _ ipf], rule exI [of _ b']) (use r(1) f b' True in simp)
  next
    case False
    show ?thesis
      by (rule exI [of _ b1], rule exI [of _ ipf], rule exI [of _ b1]) (use r(1,2) False in \<open>auto split: option.splits\<close>)
  qed
qed

lemma run_step_returns:
  assumes "able ib b"
  shows "\<exists>ipf new b'. run_step (Some ib) M report iteration old b = Some (ipf, new, b') \<and> able ib b' \<and>
     outcome M ib report iteration ''running'' ipf new"
proof -
  obtain b1 where b1: "(if old = ''idle'' \<or> old = '''' then postFlags ''runflags'' True b else Some b) = Some b1" "able ib b1"
    using able_flags [OF assms, of "''runflags''"] assms by (cases "old = ''idle'' \<or> old = ''''") auto
  note d = able_duration [OF b1(2)]
  obtain b2 where b2: "(if old = ''idle'' then v_onIdleToRunState M (Some ib) b1 else Some b1) = Some b2" "able ib b2"
    using idle_to_run [OF b1(2)] b1(2) by (cases "old = ''idle''") auto
  obtain b3 ipf b4 where f: "v_onRunState M (Some ib) b2 = Some (ipf, b3)" "able ib b4"
    "(case ipf of
        Some f \<Rightarrow> if m_pwt f \<le> 0 then Some (None, b3)
          else if report then report_ipf iteration f b3 \<bind> (\<lambda>(f, b). Some (Some f, b)) else Some (Some f, b3)
      | None \<Rightarrow> Some (None, b3)) =
    Some (if \<exists>f. ipf = Some f \<and> 0 < m_pwt f
          then Some (if report then setContextStr (uintToString iteration @ '':'' @ m_descriptor b3) (the ipf) else the ipf) else None, b4)"
    using function_returns [OF b2(2)] by blast
  define k where "k = (if \<exists>f. ipf = Some f \<and> 0 < m_pwt f
          then Some (if report then setContextStr (uintToString iteration @ '':'' @ m_descriptor b3) (the ipf) else the ipf) else None)"
  define part where "part = (case k of
        Some f \<Rightarrow>
          (if old \<noteq> ''active'' then postFlags ''activeflags'' True b4 else Some b4) \<bind> (\<lambda>b.
          let b = statusInfoAdd ''pwt'' (doubleToString (m_pwt f) 5) b;
              b = statusInfoAdd ''pcs'' (intToString (int (m_boxCount (m_pdmap f)))) b
          in Some (''active'', b))
      | None \<Rightarrow>
          (if old = ''active'' then postFlags ''inactiveflags'' True b4 else Some b4) \<bind> (\<lambda>b. Some (''running'', b)))"
  have "run_step (Some ib) M report iteration old b =
      part \<bind> (\<lambda>(new, b). updateStateDurations (Some ib) ''running'' b \<bind> (\<lambda>b. Some (k, new, b)))"
    unfolding run_step_def b1(1) Option.bind.simps d b2(1) f(1) prod.case f(3) k_def [symmetric] part_def ..
  moreover obtain new b5 where p: "part = Some (new, b5)" "able ib b5" "new = (if k = None then ''running'' else ''active'')"
  proof (cases k)
    case None
    obtain b5 where "(if old = ''active'' then postFlags ''inactiveflags'' True b4 else Some b4) = Some b5" "able ib b5"
      using able_flags [OF f(2), of "''inactiveflags''"] f(2) by (cases "old = ''active''") auto
    with None show ?thesis by (intro that [of "''running''" b5]) (simp_all add: part_def)
  next
    case (Some g)
    obtain b5 where "(if old \<noteq> ''active'' then postFlags ''activeflags'' True b4 else Some b4) = Some b5" "able ib b5"
      using able_flags [OF f(2), of "''activeflags''"] f(2) by (cases "old = ''active''") auto
    with Some show ?thesis
      by (intro that [of "''active''" "statusInfoAdd ''pcs'' (intToString (int (m_boxCount (m_pdmap g))))
            (statusInfoAdd ''pwt'' (doubleToString (m_pwt g) 5) b5)"]) (simp_all add: part_def)
  qed
  moreover obtain b6 where "updateStateDurations (Some ib) ''running'' b5 = Some b6" "able ib b6" using able_clock [OF p(2)] by blast
  moreover have "outcome M ib report iteration ''running'' k new"
    unfolding outcome_def if_P [OF refl]
    by (rule exI [of _ b2], rule exI [of _ b3], rule exI [of _ ipf])
      (use b2(2) f(1) p(3) in \<open>cases ipf; auto simp: k_def split: if_splits\<close>)
  ultimately show ?thesis by (intro exI [of _ k] exI [of _ new] exI [of _ b6]) auto
qed

lemma state_step_returns:
  assumes "able ib b" "new0 = ''completed'' \<or> new0 = ''idle'' \<or> new0 = ''running''"
  shows "\<exists>ipf new b'. state_step (Some ib) M report iteration old new0 b = Some (ipf, new, b') \<and> able ib b' \<and>
     outcome M ib report iteration new0 ipf new"
proof -
  consider (c) "new0 = ''completed''" | (i) "new0 = ''idle''" | (r) "new0 = ''running''" using assms(2) by blast
  then show ?thesis
  proof cases
    case c
    then show ?thesis using on_complete [OF assms(1)] by (auto simp: state_step_def outcome_def)
  next
    case i
    then show ?thesis using idle_step_returns [OF assms(1), of old] by (auto simp: state_step_def outcome_def)
  next
    case r
    then have "state_step (Some ib) M report iteration old new0 b = run_step (Some ib) M report iteration old b"
      by (simp add: state_step_def)
    then show ?thesis using run_step_returns [OF assms(1), of old] r by fastforce
  qed
qed

lemma produce_returns:
  assumes ix: "ix < length (m_bhv_entry bs)" "m_bhv_entry bs ! ix = e" "m_behavior e = Some (M, b)" "m_report_ipf bs = report"
    and b: "able ib b" "\<forall>c\<in>set (bhv_logic_conditions b). logic_ok env c"
      "first_fails (map (\<lambda>c. holds (\<lambda>v. learned ib v (env v)) (condition_of c)) (bhv_logic_conditions b)) = Some met"
  shows "\<exists>ipf new b'. produceOF (Some ib) ix iteration st bs = Some (ipf, new, bs\<lparr>m_bhv_entry := (m_bhv_entry bs)[ix :=
       let t = if m_state e \<noteq> new then bs_curr_time bs else m_state_time_entered e
       in \<lparr>m_behavior = Some (M, b'), m_state = new, m_state_time_entered = t, m_state_time_elapsed = bs_curr_time bs - t\<rparr>]\<rparr>) \<and>
     able ib b' \<and> outcome M ib report iteration (run_state ib met (snd (checkForDurationReset (Some ib) b))) ipf new"
proof -
  let ?s = "run_state ib met (snd (checkForDurationReset (Some ib) b))"
  obtain b1 where b1: "prepare (Some ib) M b = Some (?s, b1)" "able ib b1"
    using able_prepare [OF b, of M] reset_summary [where ib = ib and b = b] run_state_summary by fastforce
  have "?s = ''completed'' \<or> ?s = ''idle'' \<or> ?s = ''running''" by (auto simp: run_state_def)
  from state_step_returns [OF b1(2) this, of "m_state e"] obtain ipf new b2 where
    s: "state_step (Some ib) M report iteration (m_state e) ?s b1 = Some (ipf, new, b2)" "able ib b2"
    "outcome M ib report iteration ?s ipf new" by blast
  obtain b3 where b3: "statusInfoPost (statusInfoAdd ''state'' new b2) = Some b3" "able ib b3" using able_post [OF s(2)] by blast
  have whole: "e\<lparr>m_behavior := x, m_state := y, m_state_time_entered := z, m_state_time_elapsed := w\<rparr> =
      \<lparr>m_behavior = x, m_state = y, m_state_time_entered = z, m_state_time_elapsed = w\<rparr>" for x y z w by (cases e) simp
  have "produceOF (Some ib) ix iteration st bs = Some (ipf, new, bs\<lparr>m_bhv_entry := (m_bhv_entry bs)[ix :=
       let t = if m_state e \<noteq> new then bs_curr_time bs else m_state_time_entered e
       in \<lparr>m_behavior = Some (M, b3), m_state = new, m_state_time_entered = t, m_state_time_elapsed = bs_curr_time bs - t\<rparr>]\<rparr>)"
    using ix(1) by (simp add: produceOF_def Let_def ix(2,3,4) b1(1) s(1) b3(1) whole)
  with s(3) b3(2) show ?thesis by blast
qed

end

interpretation base: behavior_class base_methods ib report iteration for ib report iteration
  by unfold_locales (simp_all add: base_methods_def)

text \<open>The contract written out.\<close>

definition lawful :: "'x bhv_methods \<Rightarrow> infobuffer \<Rightarrow> bool \<Rightarrow> nat \<Rightarrow> bool" where
  "lawful M ib report iteration \<longleftrightarrow> (\<forall>b. able ib b \<longrightarrow>
     (\<exists>b'. v_onIdleState M (Some ib) b = Some b' \<and> able ib b') \<and>
     (\<exists>b'. v_onCompleteState M (Some ib) b = Some b' \<and> able ib b') \<and>
     (\<exists>b'. v_onIdleToRunState M (Some ib) b = Some b' \<and> able ib b') \<and>
     (\<exists>b'. v_onRunToIdleState M (Some ib) b = Some b' \<and> able ib b') \<and>
     (\<exists>ipf b'. v_onRunState M (Some ib) b = Some (ipf, b') \<and> able ib b' \<and>
        (\<forall>f. ipf = Some f \<and> 0 < m_pwt f \<and> report \<longrightarrow>
           IvPFunctionToString (setContextStr (uintToString iteration @ '':'' @ m_descriptor b') f) \<noteq> None)))"

lemma lawful_class: "lawful M ib report iteration \<Longrightarrow> behavior_class M ib report iteration"
  by unfold_locales (simp_all add: lawful_def)

lemma lawful_base: "lawful base_methods ib report iteration"
  unfolding lawful_def using base.on_idle base.on_complete base.idle_to_run base.run_to_idle base.on_run by blast


section \<open>The list of behaviors\<close>

text \<open>Completed behaviors are taken out when their removal is pending, with a death for each, in order.\<close>

lemma completed_removed:
  "removeCompletedBehaviors bs =
     (let dead = [e \<leftarrow> m_bhv_entry bs. m_state e = ''completed'']
      in if m_completed_pending bs
         then (length dead, bs\<lparr>m_bhv_entry := [e \<leftarrow> m_bhv_entry bs. m_state e \<noteq> ''completed''],
            m_life_events := m_life_events bs @ map death dead,
            m_bhv_names := [n \<leftarrow> m_bhv_names bs. n \<notin> getBehaviorName ` set dead], m_completed_pending := False\<rparr>)
         else (0, bs))"
proof -
  have "foldl (\<lambda>(new_bhv_entry, events, names, completed_count) e.
          if m_state e \<noteq> ''completed'' then (new_bhv_entry @ [e], events, names, completed_count)
          else (new_bhv_entry, events @ [death e], removeAll (getBehaviorName e) names, completed_count + 1)) (ns, ev, nm, k) es =
      (ns @ [e \<leftarrow> es. m_state e \<noteq> ''completed''], ev @ map death [e \<leftarrow> es. m_state e = ''completed''],
       [n \<leftarrow> nm. n \<notin> getBehaviorName ` set [e \<leftarrow> es. m_state e = ''completed'']],
       k + length [e \<leftarrow> es. m_state e = ''completed''])" for ns ev nm k and es :: "'a bhv_entry list"
    by (induction es arbitrary: ns ev nm k) (auto simp: removeAll_filter_not_eq intro!: filter_cong)
  then show ?thesis by (simp add: removeCompletedBehaviors_def Let_def)
qed

text \<open>Every variable is announced once.\<close>

lemma new_vars_once:
  assumes "bs_getInfoVars bs = Some vars"
  shows "\<exists>rv bs'. getNewInfoVars bs = Some (rv, bs') \<and> distinct rv \<and> set rv = set vars - set (m_prev_info_vars bs) \<and>
     set (m_prev_info_vars bs') = set (m_prev_info_vars bs) \<union> set vars \<and> getNewInfoVars bs' = Some ([], bs')"
proof -
  let ?f = "\<lambda>(rvector, prev) c. if c \<notin> set prev then (rvector @ [c], insort_insert c prev) else (rvector, prev :: string list)"
  have f: "\<exists>rv' prev'. foldl ?f (rv, prev) cs = (rv', prev') \<and> distinct rv' \<and> set rv' = set rv \<union> (set cs - set prev) \<and>
      set prev' = set prev \<union> set cs" if "distinct rv" "set rv \<subseteq> set prev" for rv prev cs
    using that
  proof (induction cs arbitrary: rv prev)
    case (Cons c cs)
    show ?case
    proof (cases "c \<in> set prev")
      case True
      then show ?thesis using Cons by (auto simp: insert_absorb)
    next
      case False
      then have "distinct (rv @ [c])" "set (rv @ [c]) \<subseteq> set (insort_insert c prev)" using Cons.prems by (auto simp: set_insort_insert)
      from Cons.IH [OF this] False show ?thesis by (auto simp: set_insort_insert)
    qed
  qed simp
  obtain rv prev where p: "foldl ?f ([], m_prev_info_vars bs) vars = (rv, prev)" "distinct rv"
    "set rv = set vars - set (m_prev_info_vars bs)" "set prev = set (m_prev_info_vars bs) \<union> set vars"
    using f [of "[]" "m_prev_info_vars bs" vars] by auto
  have known: "foldl ?f (rv, prev) cs = (rv, prev)" if "set cs \<subseteq> set prev" for rv prev cs
    using that by (induction cs) auto
  let ?bs = "bs\<lparr>m_prev_info_vars := prev\<rparr>"
  have "bs_getInfoVars ?bs = Some vars" using assms by (simp add: bs_getInfoVars_def)
  then have "getNewInfoVars ?bs = Some ([], ?bs)" using known [of vars prev "[]"] p(4) by (simp add: getNewInfoVars_def)
  then show ?thesis using assms p by (intro exI [of _ rv] exI [of _ ?bs]) (simp add: getNewInfoVars_def)
qed

section \<open>Properties\<close>


text \<open>A behavior that always gives the same function.\<close>

definition ex_wp :: ivp_behavior where
  "ex_wp = (IvPBehavior_new ex_line)\<lparr>m_descriptor := ''wp'', m_status_info := ''name=wp''\<rparr>"

definition ex_class :: "unit bhv_methods" where
  "ex_class = base_methods\<lparr>v_onRunState := (\<lambda>_ b. Some (Some ex_ipf, b))\<rparr>"

definition ex_bhvs :: "unit behavior_set" where
  "ex_bhvs = (addBehavior (Some (ex_class, ex_wp)) BehaviorSet_new)\<lparr>bs_curr_time := 12, m_report_ipf := False\<rparr>"

lemma ex_wp_facts: "lawful ex_class (ex_clock 12) False 1" "able (ex_clock 12) ex_wp" "bhv_logic_conditions ex_wp = []" "m_filter_level ex_wp = 0"
  by (simp_all add: lawful_def ex_class_def base_methods_def able_def ex_wp_def bhv_inv_def IvPBehavior_new_def front_blank_def plain_start_def)

lemma ex_bhvs_facts: "m_bhv_entry ex_bhvs = [BehaviorSetEntry_new (Some (ex_class, ex_wp))]" "m_report_ipf ex_bhvs = False" "bs_curr_time ex_bhvs = 12"
  by (simp_all add: ex_bhvs_def addBehavior_def BehaviorSet_new_def)

lemma ex_wp_outcome:
  assumes "outcome ex_class (ex_clock 12) False 1 (run_state (ex_clock 12) True (snd (checkForDurationReset (Some (ex_clock 12)) ex_wp))) ipf new"
  shows "ipf = Some ex_ipf" "new = ''active''"
proof -
  let ?ib = "ex_clock 12"
  have r: "run_state ?ib True b = ''running''" if "b = ex_wp \<or> (\<exists>t. b = durationReset (ex_wp\<lparr>m_duration_reset_timestamp := t\<rparr>))" for b
    using that by (auto simp: run_state_def ex_wp_def IvPBehavior_new_def limit_reached_def is_starving_def durationReset_def)
  have "run_state ?ib True (snd (checkForDurationReset (Some ?ib) ex_wp)) = ''running''"
    by (rule r) (use checkForDurationReset_cases [of "Some ?ib" ex_wp] in \<open>metis prod.collapse\<close>)
  with assms show "ipf = Some ex_ipf" "new = ''active''" by (auto simp: outcome_def ex_class_def ex_ipf_def)
qed


end
