(* ===== verification/Behavior_Build.thy ===== *)
theory Behavior_Build
  imports Behavior_Step
begin

text \<open>
  Behaviors made from specifications, at the start of the helm and while it runs: the rest of \<open>BehaviorSet.cpp\<close>,
  and \<open>SpecBuild.h\<close>, \<open>SpecBuild.cpp\<close> (\<open>src/ivp/src/lib_helmivp\<close>). The two factories, one for compiled in classes and
  one for libraries loaded at run time, are the arguments \<open>static\<close> and \<open>dynamic\<close>: a kind is made into a behavior or not.
  A behavior that is being built is not connected to a buffer yet. Console output is left out.
\<close>

section \<open>The result of a build\<close>

record 'x spec_build =
  sb_behavior :: "('x bhv_methods \<times> 'x ivp_behavior_scheme) option"
  m_bhv_kind :: string
  m_bhv_kind_result :: string
  m_bhv_kind_lnum :: nat
  m_bad_config_lines :: "string list"
  m_bad_config_lnums :: "nat list"

definition SpecBuild_new :: "'x spec_build" where
  "SpecBuild_new = \<lparr>sb_behavior = None, m_bhv_kind = '''', m_bhv_kind_result = '''', m_bhv_kind_lnum = 0,
     m_bad_config_lines = [], m_bad_config_lnums = []\<rparr>"

definition addBadConfig :: "string \<Rightarrow> nat \<Rightarrow> 'x spec_build \<Rightarrow> 'x spec_build" where
  "addBadConfig line lnum sb =
     sb\<lparr>m_bad_config_lines := m_bad_config_lines sb @ [line], m_bad_config_lnums := m_bad_config_lnums sb @ [lnum]\<rparr>"

definition sb_valid :: "'x spec_build \<Rightarrow> bool" where
  "sb_valid sb \<longleftrightarrow> sb_behavior sb \<noteq> None"

definition sb_deleteBehavior :: "'x spec_build \<Rightarrow> 'x spec_build" where
  "sb_deleteBehavior sb = sb\<lparr>sb_behavior := None\<rparr>"

definition sb_getBehaviorName :: "'x spec_build \<Rightarrow> string" where
  "sb_getBehaviorName sb = (case sb_behavior sb of Some (_, b) \<Rightarrow> m_descriptor b | None \<Rightarrow> '''')"

definition getHelmStartMessages :: "'x spec_build \<Rightarrow> var_data_pair list \<times> 'x spec_build" where
  "getHelmStartMessages sb =
     (case sb_behavior sb of
        Some (M, b) \<Rightarrow> (bhv_messages b, sb\<lparr>sb_behavior := Some (M, b\<lparr>bhv_messages := []\<rparr>)\<rparr>)
      | None \<Rightarrow> ([], sb))"

section \<open>Building one behavior\<close>

type_synonym 'x factory = "string \<Rightarrow> ('x bhv_methods \<times> 'x ivp_behavior_scheme) option"

text \<open>One line: the base class first, the class itself when that refuses. \<open>setName\<close> is what a name does, \<open>copy\<close> how a string is passed.\<close>

definition config_line :: "'x bhv_methods \<Rightarrow> (string \<Rightarrow> 'x ivp_behavior_scheme \<Rightarrow> bool \<times> 'x ivp_behavior_scheme) \<Rightarrow>
    (string \<Rightarrow> string) \<Rightarrow> string \<Rightarrow> 'x ivp_behavior_scheme \<Rightarrow> (bool \<times> 'x ivp_behavior_scheme) option" where
  "config_line M setName copy cline b =
     (let (left, right) = biteStringX cline (CHR ''=''); left = tolower left
      in (if left = ''name'' \<or> left = ''descriptor'' then Some (setName right b)
          else setParam (v_setParam M) (copy left) (copy right) b) \<bind> (\<lambda>(valid, b).
         if \<not> valid then v_setParam M (copy left) (copy right) b else Some (valid, b)))"

text \<open>The lines of the specification.\<close>

definition config_step :: "'x bhv_methods \<Rightarrow> behavior_spec \<Rightarrow> bool \<times> 'x spec_build \<times> 'x ivp_behavior_scheme \<times> 'x behavior_set \<Rightarrow> nat \<Rightarrow>
    (bool \<times> 'x spec_build \<times> 'x ivp_behavior_scheme \<times> 'x behavior_set) option" where
  "config_step M spec = (\<lambda>(specs_valid, sbuild, b, bs) i.
     let orig = getConfigLine i spec; cline = snd (biteStringX orig (CHR ''=''))
     in config_line M setBehaviorName id orig b \<bind> (\<lambda>(valid, b).
        let bad_line = getConfigLineNum i spec in
        Some (specs_valid \<and> valid,
          if \<not> valid then addBadConfig cline bad_line sbuild else sbuild, b,
          if \<not> valid then bs_addWarning (m_filename spec @ '': '' @ ''Line '' @ uintToString bad_line @ '': '' @ orig) bs else bs)))"

text \<open>The parts of the text that asks for a spawning.\<close>

definition update_step :: "'x bhv_methods \<Rightarrow> bool \<times> 'x spec_build \<times> 'x ivp_behavior_scheme \<times> 'x behavior_set \<Rightarrow> string \<Rightarrow>
    (bool \<times> 'x spec_build \<times> 'x ivp_behavior_scheme \<times> 'x behavior_set) option" where
  "update_step M = (\<lambda>(specs_valid, sbuild, b, bs) orig.
     config_line M augBehaviorName c_str orig b \<bind> (\<lambda>(valid, b).
     Some (specs_valid \<and> valid,
       if \<not> valid then addBadConfig orig 0 sbuild else sbuild, b,
       if \<not> valid then bs_addWarning (''Failed to spawn '' @ m_descriptor b @ ''. Bad config: '' @ orig) bs else bs)))"

definition buildBehaviorFromSpec :: "'x factory \<Rightarrow> 'x factory \<Rightarrow> behavior_spec \<Rightarrow> string \<Rightarrow> 'x behavior_set \<Rightarrow>
    ('x spec_build \<times> 'x behavior_set) option" where
  "buildBehaviorFromSpec static dynamic spec update_str bs =
     (let bhv_kind = m_behavior_kind spec;
          sbuild = SpecBuild_new\<lparr>m_bhv_kind := bhv_kind, m_bhv_kind_lnum := m_kind_line_num spec\<rparr>
      in case (case static bhv_kind of Some bhv \<Rightarrow> Some (bhv, ''static'')
               | None \<Rightarrow> map_option (\<lambda>bhv. (bhv, ''dynamic'')) (dynamic bhv_kind)) of
           None \<Rightarrow>
             let bs = bs_addWarning (''BehaviorSpec: failed to load dynamic behavior '' @ bhv_kind) bs;
                 bs = bs_addWarning ''Check IVP_BEHAVIOR_DIRS Env Variable or ivp_behavior_dir param'' bs
             in Some (sbuild\<lparr>m_bhv_kind_result := ''failed''\<rparr>, bs)
         | Some ((M, b), result) \<Rightarrow>
             foldM (config_step M spec) (True, sbuild\<lparr>m_bhv_kind_result := result\<rparr>, b\<lparr>m_behavior_type := bhv_kind\<rparr>, bs)
               [0..<length (m_config_lines spec)] \<bind> (\<lambda>s.
             foldM (update_step M) s (parseStringQ update_str (CHR ''#'')) \<bind> (\<lambda>(specs_valid, sbuild, b, bs).
             if specs_valid then v_onHelmStart M None b \<bind> (\<lambda>b. Some (sbuild\<lparr>sb_behavior := Some (M, b)\<rparr>, bs))
             else Some (sbuild, bs))))"

section \<open>Building all of them when the helm starts\<close>

definition build_step :: "'x factory \<Rightarrow> 'x factory \<Rightarrow> bool \<times> 'x spec_build list \<times> string list \<times> 'x behavior_set \<Rightarrow> behavior_spec \<Rightarrow>
    (bool \<times> 'x spec_build list \<times> string list \<times> 'x behavior_set) option" where
  "build_step static dynamic = (\<lambda>(all_builds_ok, spec_builds, bhv_names, bs) spec.
     buildBehaviorFromSpec static dynamic spec '''' bs \<bind> (\<lambda>(sbuild, bs).
     if \<not> sb_valid sbuild then Some (False, spec_builds @ [sbuild], bhv_names, bs)
     else let (msgs, sbuild) = getHelmStartMessages sbuild;
              bs = bs\<lparr>m_helm_start_msgs := m_helm_start_msgs bs @ msgs\<rparr>
       in if m_templating spec = ''spawn'' then Some (all_builds_ok, spec_builds, bhv_names, bs)
          else let bhv_name = sb_getBehaviorName sbuild; spec_builds = spec_builds @ [sbuild]
            in if \<not> uniqueNameX bhv_name bhv_names \<or> \<not> uniqueNameX bhv_name (m_bhv_names bs)
               then Some (False, spec_builds, bhv_names, bs_addWarning (''Duplicate behavior name found: '' @ bhv_name) bs)
               else Some (all_builds_ok, spec_builds, insort_insert bhv_name bhv_names, bs)))"

definition birth :: "string \<Rightarrow> string \<Rightarrow> 'x spec_build \<Rightarrow> life_event" where
  "birth event_type spawn_string sb = \<lparr>le_timestamp = 0, le_iteration = 0, le_event_type = event_type,
     le_behavior_name = sb_getBehaviorName sb, le_behavior_type = m_bhv_kind sb, le_spawn_string = spawn_string\<rparr>"

definition buildBehaviorsFromSpecs :: "'x factory \<Rightarrow> 'x factory \<Rightarrow> 'x behavior_set \<Rightarrow> (bool \<times> 'x behavior_set) option" where
  "buildBehaviorsFromSpecs static dynamic bs =
     foldM (build_step static dynamic) (True, [], [], bs) (m_behavior_specs bs) \<bind> (\<lambda>(all_builds_ok, spec_builds, bhv_names, bs).
     if \<not> all_builds_ok then Some (False, bs)
     else Some (True, foldl (\<lambda>bs sb. let bs = addBehavior (sb_behavior sb) bs
            in bs\<lparr>m_life_events := m_life_events bs @ [birth ''spawn'' ''helm_startup'' sb]\<rparr>) bs spec_builds))"

section \<open>Spawning while the helm runs\<close>

definition spawn_step :: "'x factory \<Rightarrow> 'x factory \<Rightarrow> behavior_spec \<Rightarrow> 'x behavior_set \<Rightarrow> string \<Rightarrow> 'x behavior_set option" where
  "spawn_step static dynamic spec bs update_str =
     (if tokStringParse update_str ''name'' (CHR ''#'') (CHR ''='') \<in> set (m_bhv_names bs) then Some bs
      else buildBehaviorFromSpec static dynamic spec update_str bs \<bind> (\<lambda>(sbuild, bs).
        case sb_behavior sbuild of
          Some (M, b) \<Rightarrow> v_onSetParamComplete M None b \<bind> (\<lambda>b'.
            let bs = addBehavior (Some (M, b')) bs
            in Some (bs\<lparr>m_life_events := m_life_events bs @ [birth ''spawn'' update_str sbuild]\<rparr>))
        | None \<Rightarrow> Some (bs\<lparr>m_life_events := m_life_events bs @ [birth ''abort'' update_str sbuild]\<rparr>)))"

definition handlePossibleSpawnings :: "'x factory \<Rightarrow> 'x factory \<Rightarrow> infobuffer option \<Rightarrow> 'x behavior_set \<Rightarrow>
    (bool \<times> 'x behavior_set) option" where
  "handlePossibleSpawnings static dynamic info bs =
     foldM (\<lambda>bs spec.
       if m_templating_enabled spec
       then checkForSpawningStrings info spec \<bind> foldM (spawn_step static dynamic spec) bs
       else Some bs) bs (m_behavior_specs bs) \<bind> (\<lambda>bs. Some (True, bs))"

definition getSpecUpdateVars :: "'x behavior_set \<Rightarrow> string list" where
  "getSpecUpdateVars bs =
     [m_updates_var spec. spec \<leftarrow> m_behavior_specs bs, m_templating spec \<noteq> ''disallowed'' \<and> m_updates_var spec \<noteq> '''']"

section \<open>Names\<close>

lemma name_starts: "isAlphaNum v ''_-[]()#@+'' \<Longrightarrow> \<exists>c s. v = c # s \<and> c \<noteq> QUOTE \<and> \<not> front_blank c"
  by (cases v) (auto simp: isAlphaNum_def front_blank_def split: if_splits)

lemma names_keep: "bhv_inv b \<Longrightarrow> bhv_inv (snd (setBehaviorName v b))" "bhv_inv b \<Longrightarrow> bhv_inv (snd (augBehaviorName v b))"
  using name_starts [of v] by (auto simp: setBehaviorName_def augBehaviorName_def bhv_inv_def Let_def)

section \<open>The contract of a class that can be built\<close>

text \<open>
  Configuring an object returns and keeps the invariant of the base class; so do the methods called on a new
  behavior. The client here is the building of behaviors.
\<close>

locale buildable_class =
  fixes M :: "'x bhv_methods"
  assumes param: "clean_result b (v_setParam M p v b)"
    and helm_start: "bhv_inv b \<Longrightarrow> \<exists>b'. v_onHelmStart M None b = Some b' \<and> bhv_inv b' \<and> m_descriptor b' = m_descriptor b"
    and param_complete: "bhv_inv b \<Longrightarrow> \<exists>b'. v_onSetParamComplete M None b = Some b' \<and> bhv_inv b' \<and> m_descriptor b' = m_descriptor b"
begin

lemma config_line_inv:
  assumes "bhv_inv b" "\<And>v b. bhv_inv b \<Longrightarrow> bhv_inv (snd (setName v b))"
  shows "\<exists>valid b'. config_line M setName copy cline b = Some (valid, b') \<and> bhv_inv b'"
proof -
  obtain l r where lr: "biteStringX cline (CHR ''='') = (l, r)" by (cases "biteStringX cline (CHR ''='')")
  let ?l = "tolower l"
  have again: "\<exists>valid b'. v_setParam M p v b = Some (valid, b') \<and> bhv_inv b'" if "bhv_inv b" for p v b
    using param [of b p v] that by (auto simp: clean_result_def)
  have base: "\<exists>valid b'. setParam (v_setParam M) p v b = Some (valid, b') \<and> bhv_inv b'" for p v
    using setParam_clean [of b "v_setParam M" p v, OF param] assms(1) by (auto simp: clean_result_def)
  obtain valid b' where f: "(if ?l = ''name'' \<or> ?l = ''descriptor'' then Some (setName r b)
      else setParam (v_setParam M) (copy ?l) (copy r) b) = Some (valid, b')" "bhv_inv b'"
  proof (cases "?l = ''name'' \<or> ?l = ''descriptor''")
    case True
    then show ?thesis using that [of "fst (setName r b)" "snd (setName r b)"] assms(2) [OF assms(1), of r] by simp
  next
    case False
    then show ?thesis using that base [of "copy ?l" "copy r"] by auto
  qed
  then have "config_line M setName copy cline b = (if \<not> valid then v_setParam M (copy ?l) (copy r) b' else Some (valid, b'))"
    by (simp only: config_line_def lr prod.case Let_def Option.bind.bind_lunit)
  with again [OF f(2), of "copy ?l" "copy r"] f(2) show ?thesis by auto
qed

end


text \<open>The contract written out, and for a factory.\<close>

definition buildable :: "'x bhv_methods \<Rightarrow> bool" where
  "buildable M \<longleftrightarrow> (\<forall>p v b. clean_result b (v_setParam M p v b)) \<and> (\<forall>b. bhv_inv b \<longrightarrow>
     (\<exists>b'. v_onHelmStart M None b = Some b' \<and> bhv_inv b' \<and> m_descriptor b' = m_descriptor b) \<and>
     (\<exists>b'. v_onSetParamComplete M None b = Some b' \<and> bhv_inv b' \<and> m_descriptor b' = m_descriptor b))"

lemma buildable_class: "buildable M \<Longrightarrow> buildable_class M"
  by unfold_locales (simp_all add: buildable_def)

interpretation base_built: buildable_class base_methods
  by unfold_locales (simp_all add: base_methods_def plain_clean)

lemma buildable_base: "buildable base_methods"
  unfolding buildable_def using base_built.param base_built.helm_start base_built.param_complete by blast

definition makes_buildable :: "'x factory \<Rightarrow> bool" where
  "makes_buildable fac \<longleftrightarrow> (\<forall>kind M b. fac kind = Some (M, b) \<longrightarrow> buildable M \<and> bhv_inv b)"

section \<open>A build returns\<close>

text \<open>What the loops over the configuration keep.\<close>

definition building :: "'x behavior_set \<Rightarrow> bool \<times> 'x spec_build \<times> 'x ivp_behavior_scheme \<times> 'x behavior_set \<Rightarrow> bool" where
  "building bs = (\<lambda>(valid, sb, b, bs'). sb_behavior sb = None \<and> bhv_inv b \<and> (\<exists>w. bs' = bs\<lparr>m_warnings := w\<rparr>))"

lemma warning_added: "\<exists>w. bs_addWarning s (bs\<lparr>m_warnings := v\<rparr>) = bs\<lparr>m_warnings := w\<rparr>"
  by (auto simp: bs_addWarning_def)

lemma building_steps:
  assumes "buildable M" "building bs s"
  shows "\<exists>s'. config_step M spec s i = Some s' \<and> building bs s'" "\<exists>s'. update_step M s u = Some s' \<and> building bs s'"
proof -
  obtain valid sb b bs' where s: "s = (valid, sb, b, bs')" by (cases s)
  with assms(2) obtain w where b: "sb_behavior sb = None" "bhv_inv b" "bs' = bs\<lparr>m_warnings := w\<rparr>" by (auto simp: building_def)
  note line = buildable_class.config_line_inv [OF buildable_class [OF assms(1)] b(2)]
  obtain v b1 where c: "config_line M setBehaviorName id (getConfigLine i spec) b = Some (v, b1)" "bhv_inv b1"
    using line names_keep(1) by blast
  show "\<exists>s'. config_step M spec s i = Some s' \<and> building bs s'"
    using b c warning_added [where bs = bs and v = w] by (simp add: s config_step_def building_def addBadConfig_def Let_def) blast
  obtain v b1 where c: "config_line M augBehaviorName c_str u b = Some (v, b1)" "bhv_inv b1"
    using line names_keep(2) by blast
  show "\<exists>s'. update_step M s u = Some s' \<and> building bs s'"
    using b c warning_added [where bs = bs and v = w] by (simp add: s update_step_def building_def addBadConfig_def Let_def) blast
qed

lemma build_returns:
  assumes "makes_buildable static" "makes_buildable dynamic"
  obtains sb w where "buildBehaviorFromSpec static dynamic spec upd bs = Some (sb, bs\<lparr>m_warnings := w\<rparr>)"
    "\<And>M b. sb_behavior sb = Some (M, b) \<Longrightarrow> buildable M \<and> bhv_inv b"
proof -
  let ?kind = "m_behavior_kind spec"
  let ?found = "case static ?kind of Some bhv \<Rightarrow> Some (bhv, ''static'') | None \<Rightarrow> map_option (\<lambda>bhv. (bhv, ''dynamic'')) (dynamic ?kind)"
  show ?thesis
  proof (cases ?found)
    case None
    then show ?thesis
      by (intro that [of "SpecBuild_new\<lparr>m_bhv_kind := ?kind, m_bhv_kind_lnum := m_kind_line_num spec, m_bhv_kind_result := ''failed''\<rparr>"])
        (simp_all add: buildBehaviorFromSpec_def bs_addWarning_def SpecBuild_new_def Let_def)
  next
    case (Some bhv)
    then obtain M b r where f: "?found = Some ((M, b), r)" by (cases bhv) auto
    then have m: "buildable M" "bhv_inv b"
      using assms by (auto simp: makes_buildable_def split: option.splits)
    let ?s = "(True, (SpecBuild_new :: 'a spec_build)\<lparr>m_bhv_kind := ?kind, m_bhv_kind_lnum := m_kind_line_num spec, m_bhv_kind_result := r\<rparr>,
      b\<lparr>m_behavior_type := ?kind\<rparr>, bs)"
    have "\<exists>w. bs = bs\<lparr>m_warnings := w\<rparr>" by (rule exI [of _ "m_warnings bs"]) simp
    then have "building bs ?s" using m(2) by (simp add: building_def SpecBuild_new_def bhv_inv_def)
    then obtain s1 where s1: "foldM (config_step M spec) ?s [0..<length (m_config_lines spec)] = Some s1" "building bs s1"
      using foldM_invariant [of "building bs" ?s] building_steps(1) [OF m(1)] by blast
    obtain s2 where s2: "foldM (update_step M) s1 (parseStringQ upd (CHR ''#'')) = Some s2" "building bs s2"
      using foldM_invariant [of "building bs" s1] building_steps(2) [OF m(1)] s1(2) by blast
    obtain valid sb b2 w where b2: "s2 = (valid, sb, b2, bs\<lparr>m_warnings := w\<rparr>)" "sb_behavior sb = None" "bhv_inv b2"
      using s2(2) by (cases s2) (auto simp: building_def)
    obtain b3 where b3: "v_onHelmStart M None b2 = Some b3" "bhv_inv b3" using m(1) b2(3) by (auto simp: buildable_def)
    have "buildBehaviorFromSpec static dynamic spec upd bs =
        Some (if valid then sb\<lparr>sb_behavior := Some (M, b3)\<rparr> else sb, bs\<lparr>m_warnings := w\<rparr>)"
      unfolding buildBehaviorFromSpec_def Let_def f using s1(1) s2(1) b2(1) b3(1) by simp
    then show ?thesis by (rule that) (use m(1) b2(2) b3(2) in \<open>auto split: if_splits\<close>)
  qed
qed

section \<open>The start of the helm\<close>

text \<open>Neither name begins with the other. The empty name begins nothing.\<close>

definition names_apart :: "string \<Rightarrow> string \<Rightarrow> bool" where
  "names_apart a b \<longleftrightarrow> \<not> strBegins a b True \<and> \<not> strBegins b a True"

lemma names_apart_sym: "names_apart a b = names_apart b a"
  by (auto simp: names_apart_def)

lemma uniqueNameX_apart: "uniqueNameX n ns \<longleftrightarrow> (\<forall>m\<in>set ns. names_apart n m)"
  by (simp add: uniqueNameX_def names_apart_def list_all_iff)

text \<open>Only the warnings and the messages of the start are touched.\<close>

definition touched :: "'x behavior_set \<Rightarrow> 'x behavior_set \<Rightarrow> bool" where
  "touched bs bs' \<longleftrightarrow> bs' = bs\<lparr>m_warnings := m_warnings bs', m_helm_start_msgs := m_helm_start_msgs bs'\<rparr>"

lemma touched_simps [simp]: "touched bs bs" "touched bs bs' \<Longrightarrow> touched bs (bs'\<lparr>m_warnings := w\<rparr>)"
    "touched bs bs' \<Longrightarrow> touched bs (bs'\<lparr>m_helm_start_msgs := m\<rparr>)" "touched bs bs' \<Longrightarrow> touched bs (bs_addWarning s bs')"
  unfolding touched_def bs_addWarning_def by ((cases bs; cases bs'; simp)+)

lemma touched_same: "touched bs bs' \<Longrightarrow> m_bhv_names bs' = m_bhv_names bs \<and> m_bhv_entry bs' = m_bhv_entry bs \<and>
    m_life_events bs' = m_life_events bs \<and> m_total_behaviors_ever bs' = m_total_behaviors_ever bs"
  unfolding touched_def by (cases bs; cases bs') simp

text \<open>What the loop over the specifications keeps.\<close>

definition starting :: "'x behavior_set \<Rightarrow> bool \<times> 'x spec_build list \<times> string list \<times> 'x behavior_set \<Rightarrow> bool" where
  "starting bs = (\<lambda>(ok, sbs, names, bs'). touched bs bs' \<and>
     (ok \<longrightarrow> (\<forall>sb\<in>set sbs. \<exists>M b. sb_behavior sb = Some (M, b) \<and> buildable M \<and> bhv_inv b) \<and>
       set names = sb_getBehaviorName ` set sbs \<and> sorted_wrt names_apart (map sb_getBehaviorName sbs) \<and>
       (\<forall>n\<in>set names. \<forall>m\<in>set (m_bhv_names bs). names_apart n m)))"

lemma build_step_starting:
  assumes "makes_buildable static" "makes_buildable dynamic" "starting bs (ok, sbs, names, bs1)"
  shows "\<exists>ok' sbs' names' bs2. build_step static dynamic (ok, sbs, names, bs1) spec = Some (ok', sbs', names', bs2) \<and>
     starting bs (ok', sbs', names', bs2) \<and>
     (ok' \<longrightarrow> ok \<and> length sbs' = length sbs + (if m_templating spec = ''spawn'' then 0 else 1))"
proof -
  have t: "touched bs bs1" and bn: "m_bhv_names bs1 = m_bhv_names bs" using assms(3) touched_same [of bs bs1] by (simp_all add: starting_def)
  obtain sb w where b: "buildBehaviorFromSpec static dynamic spec '''' bs1 = Some (sb, bs1\<lparr>m_warnings := w\<rparr>)"
    "\<And>M b. sb_behavior sb = Some (M, b) \<Longrightarrow> buildable M \<and> bhv_inv b" using build_returns [OF assms(1,2)] by blast
  show ?thesis
  proof (cases "sb_behavior sb")
    case None
    then have "build_step static dynamic (ok, sbs, names, bs1) spec = Some (False, sbs @ [sb], names, bs1\<lparr>m_warnings := w\<rparr>)"
      using b(1) by (simp add: build_step_def sb_valid_def)
    moreover have "starting bs (False, sbs @ [sb], names, bs1\<lparr>m_warnings := w\<rparr>)" using t by (simp add: starting_def)
    ultimately show ?thesis by blast
  next
    case (Some x)
    then obtain M c where x: "sb_behavior sb = Some (M, c)" by (cases x) auto
    let ?sb = "sb\<lparr>sb_behavior := Some (M, c\<lparr>bhv_messages := []\<rparr>)\<rparr>"
    let ?bs = "bs1\<lparr>m_warnings := w, m_helm_start_msgs := m_helm_start_msgs bs1 @ bhv_messages c\<rparr>"
    have inv: "buildable M" "bhv_inv (c\<lparr>bhv_messages := []\<rparr>)" using b(2) [OF x] by (simp_all add: bhv_inv_def)
    have nm: "sb_getBehaviorName ?sb = m_descriptor c" by (simp add: sb_getBehaviorName_def)
    let ?bad = "\<not> uniqueNameX (m_descriptor c) names \<or> \<not> uniqueNameX (m_descriptor c) (m_bhv_names bs)"
    have run: "build_step static dynamic (ok, sbs, names, bs1) spec =
        Some (if m_templating spec = ''spawn'' then (ok, sbs, names, ?bs)
          else if ?bad then (False, sbs @ [?sb], names, bs_addWarning (''Duplicate behavior name found: '' @ m_descriptor c) ?bs)
          else (ok, sbs @ [?sb], insort_insert (m_descriptor c) names, ?bs))"
      using b(1) x by (simp add: build_step_def sb_valid_def getHelmStartMessages_def Let_def nm bn)
    consider "m_templating spec = ''spawn''" | "m_templating spec \<noteq> ''spawn''" ?bad | "m_templating spec \<noteq> ''spawn''" "\<not> ?bad" by blast
    then show ?thesis
    proof cases
      case 1
      then have "build_step static dynamic (ok, sbs, names, bs1) spec = Some (ok, sbs, names, ?bs)" using run by simp
      moreover have "starting bs (ok, sbs, names, ?bs)" using assms(3) by (simp add: starting_def)
      ultimately show ?thesis using 1 by (intro exI conjI) auto
    next
      case 2
      let ?w = "bs_addWarning (''Duplicate behavior name found: '' @ m_descriptor c) ?bs"
      have "build_step static dynamic (ok, sbs, names, bs1) spec = Some (False, sbs @ [?sb], names, ?w)" using run 2 by simp
      moreover have "starting bs (False, sbs @ [?sb], names, ?w)" using t by (simp add: starting_def)
      ultimately show ?thesis by blast
    next
      case 3
      have "starting bs (ok, sbs @ [?sb], insort_insert (m_descriptor c) names, ?bs)"
        using assms(3) 3(2) inv nm
        by (auto simp: starting_def set_insort_insert uniqueNameX_apart sorted_wrt_append names_apart_sym [of _ "m_descriptor c"])
      moreover have "build_step static dynamic (ok, sbs, names, bs1) spec = Some (ok, sbs @ [?sb], insort_insert (m_descriptor c) names, ?bs)"
        using run 3 by simp
      ultimately show ?thesis using 3(1) by (intro exI conjI) auto
    qed
  qed
qed

lemma build_loop:
  assumes "makes_buildable static" "makes_buildable dynamic"
  shows "starting bs (ok, sbs, names, bs1) \<Longrightarrow>
     \<exists>ok' sbs' names' bs2. foldM (build_step static dynamic) (ok, sbs, names, bs1) specs = Some (ok', sbs', names', bs2) \<and>
     starting bs (ok', sbs', names', bs2) \<and>
     (ok' \<longrightarrow> ok \<and> length sbs' = length sbs + length [s \<leftarrow> specs. m_templating s \<noteq> ''spawn''])"
proof (induction specs arbitrary: ok sbs names bs1)
  case (Cons spec specs)
  obtain ok1 sbs1 names1 bs2 where 1: "build_step static dynamic (ok, sbs, names, bs1) spec = Some (ok1, sbs1, names1, bs2)"
    "starting bs (ok1, sbs1, names1, bs2)"
    "ok1 \<longrightarrow> ok \<and> length sbs1 = length sbs + (if m_templating spec = ''spawn'' then 0 else 1)"
    using build_step_starting [OF assms Cons.prems, of spec] by blast
  show ?case using Cons.IH [OF 1(2)] 1(1,3) by (auto split: if_splits)
qed simp


lemma enrolled:
  fixes bs :: "'x behavior_set"
  defines "enroll \<equiv> (\<lambda>bs sb. let bs = addBehavior (sb_behavior sb) bs
      in bs\<lparr>m_life_events := m_life_events bs @ [birth ''spawn'' ''helm_startup'' sb]\<rparr>)"
  assumes "\<forall>sb\<in>set sbs. sb_behavior sb \<noteq> None"
  shows "m_bhv_entry (foldl enroll bs sbs) = m_bhv_entry bs @ map (\<lambda>sb. BehaviorSetEntry_new (sb_behavior sb)) sbs"
    "m_life_events (foldl enroll bs sbs) = m_life_events bs @ map (birth ''spawn'' ''helm_startup'') sbs"
    "set (m_bhv_names (foldl enroll bs sbs)) = set (m_bhv_names bs) \<union> sb_getBehaviorName ` set sbs"
proof -
  have "m_bhv_entry (foldl enroll bs sbs) = m_bhv_entry bs @ map (\<lambda>sb. BehaviorSetEntry_new (sb_behavior sb)) sbs \<and>
    m_life_events (foldl enroll bs sbs) = m_life_events bs @ map (birth ''spawn'' ''helm_startup'') sbs \<and>
    set (m_bhv_names (foldl enroll bs sbs)) = set (m_bhv_names bs) \<union> sb_getBehaviorName ` set sbs"
    using assms(2)
  proof (induction sbs arbitrary: bs)
    case (Cons sb sbs)
    then obtain M b where b: "sb_behavior sb = Some (M, b)" by force
    with Cons.IH [of "enroll bs sb"] Cons.prems show ?case
      by (simp add: enroll_def addBehavior_def Let_def set_insort_insert sb_getBehaviorName_def)
  qed simp
  then show "m_bhv_entry (foldl enroll bs sbs) = m_bhv_entry bs @ map (\<lambda>sb. BehaviorSetEntry_new (sb_behavior sb)) sbs"
    "m_life_events (foldl enroll bs sbs) = m_life_events bs @ map (birth ''spawn'' ''helm_startup'') sbs"
    "set (m_bhv_names (foldl enroll bs sbs)) = set (m_bhv_names bs) \<union> sb_getBehaviorName ` set sbs" by simp_all
qed

lemma started_bhvs:
  fixes bs :: "'x behavior_set"
  defines "enroll \<equiv> (\<lambda>bs sb. let bs = addBehavior (sb_behavior sb) bs
      in bs\<lparr>m_life_events := m_life_events bs @ [birth ''spawn'' ''helm_startup'' sb]\<rparr>)"
  assumes "starting bs (True, sbs, names, bs1)"
  shows "\<exists>bhvs. m_bhv_entry (foldl enroll bs1 sbs) = m_bhv_entry bs @ map (\<lambda>b. BehaviorSetEntry_new (Some b)) bhvs \<and>
       length bhvs = length sbs \<and>
       (\<forall>(M, b)\<in>set bhvs. bhv_inv b \<and> (\<forall>n\<in>set (m_bhv_names bs). names_apart (m_descriptor b) n)) \<and>
       sorted_wrt names_apart (map (\<lambda>(M, b). m_descriptor b) bhvs) \<and>
       set (m_bhv_names (foldl enroll bs1 sbs)) = set (m_bhv_names bs) \<union> set (map (\<lambda>(M, b). m_descriptor b) bhvs) \<and>
       map le_behavior_name (m_life_events (foldl enroll bs1 sbs)) = map le_behavior_name (m_life_events bs) @ map (\<lambda>(M, b). m_descriptor b) bhvs"
proof -
  have t: "touched bs bs1" using assms(2) by (simp add: starting_def)
  have s: "\<forall>sb\<in>set sbs. \<exists>M b. sb_behavior sb = Some (M, b) \<and> buildable M \<and> bhv_inv b"
    "set names = sb_getBehaviorName ` set sbs" "sorted_wrt names_apart (map sb_getBehaviorName sbs)"
    "\<forall>n\<in>set names. \<forall>m\<in>set (m_bhv_names bs). names_apart n m" using assms(2) by (simp_all add: starting_def)
  then have "\<forall>sb\<in>set sbs. sb_behavior sb \<noteq> None" by auto
  note e = enrolled [OF this, of bs1, folded enroll_def]
  let ?bhvs = "map (\<lambda>sb. the (sb_behavior sb)) sbs"
  have en: "map (\<lambda>b. BehaviorSetEntry_new (Some b)) ?bhvs = map (\<lambda>sb. BehaviorSetEntry_new (sb_behavior sb)) sbs"
    using s(1) by force
  have nm: "map (\<lambda>(M, b). m_descriptor b) ?bhvs = map sb_getBehaviorName sbs"
    using s(1) by (force simp: sb_getBehaviorName_def)
  have lf: "map le_behavior_name (map (birth ''spawn'' ''helm_startup'') sbs) = map sb_getBehaviorName sbs" by (simp add: birth_def)
  have iv: "\<forall>(M, b)\<in>set ?bhvs. bhv_inv b \<and> (\<forall>n\<in>set (m_bhv_names bs). names_apart (m_descriptor b) n)"
  proof (rule ballI)
    fix x assume "x \<in> set ?bhvs"
    then obtain sb where sb: "sb \<in> set sbs" "x = the (sb_behavior sb)" by auto
    then obtain M b where b: "sb_behavior sb = Some (M, b)" "bhv_inv b" using s(1) by blast
    have "m_descriptor b = sb_getBehaviorName sb" using b(1) by (simp add: sb_getBehaviorName_def)
    then have "\<forall>n\<in>set (m_bhv_names bs). names_apart (m_descriptor b) n" using s(2,4) sb(1) by simp
    then show "case x of (M, b) \<Rightarrow> bhv_inv b \<and> (\<forall>n\<in>set (m_bhv_names bs). names_apart (m_descriptor b) n)"
      using sb(2) b by simp
  qed
  show ?thesis
  proof (rule exI [of _ ?bhvs], intro conjI)
    show "m_bhv_entry (foldl enroll bs1 sbs) = m_bhv_entry bs @ map (\<lambda>b. BehaviorSetEntry_new (Some b)) ?bhvs"
      unfolding en e(1) using touched_same [OF t] by simp
    show "length ?bhvs = length sbs" by simp
    show "sorted_wrt names_apart (map (\<lambda>(M, b). m_descriptor b) ?bhvs)" unfolding nm by (rule s(3))
    show "set (m_bhv_names (foldl enroll bs1 sbs)) = set (m_bhv_names bs) \<union> set (map (\<lambda>(M, b). m_descriptor b) ?bhvs)"
      unfolding nm e(3) using touched_same [OF t] by simp
    show "map le_behavior_name (m_life_events (foldl enroll bs1 sbs)) = map le_behavior_name (m_life_events bs) @ map (\<lambda>(M, b). m_descriptor b) ?bhvs"
      unfolding nm e(2) map_append lf using touched_same [OF t] by simp
  qed (rule iv)
qed

section \<open>Properties\<close>

text \<open>C9: The start of the helm is all or nothing, and it returns. When its answer is false, no behavior, name or
  life event is added. When it is true, one behavior is added, in order, for every specification that is not there
  for spawning only: its invariant holds, no two names begin one another or a name that was there, and the set of names
  and the life events grow by exactly these.\<close>

theorem start_all_or_nothing:
  fixes bs :: "'x behavior_set"
  assumes "makes_buildable static" "makes_buildable dynamic"
  shows "\<exists>ok bs'. buildBehaviorsFromSpecs static dynamic bs = Some (ok, bs') \<and>
    (if ok then \<exists>bhvs. m_bhv_entry bs' = m_bhv_entry bs @ map (\<lambda>b. BehaviorSetEntry_new (Some b)) bhvs \<and>
         length bhvs = length [s \<leftarrow> m_behavior_specs bs. m_templating s \<noteq> ''spawn''] \<and>
         (\<forall>(M, b)\<in>set bhvs. bhv_inv b \<and> (\<forall>n\<in>set (m_bhv_names bs). names_apart (m_descriptor b) n)) \<and>
         sorted_wrt names_apart (map (\<lambda>(M, b). m_descriptor b) bhvs) \<and>
         set (m_bhv_names bs') = set (m_bhv_names bs) \<union> set (map (\<lambda>(M, b). m_descriptor b) bhvs) \<and>
         map le_behavior_name (m_life_events bs') = map le_behavior_name (m_life_events bs) @ map (\<lambda>(M, b). m_descriptor b) bhvs
     else m_bhv_entry bs' = m_bhv_entry bs \<and> m_bhv_names bs' = m_bhv_names bs \<and> m_life_events bs' = m_life_events bs)"
proof -
  have "starting bs (True, [], [], bs)" by (simp add: starting_def)
  from build_loop [OF assms this, of "m_behavior_specs bs"] obtain ok sbs names bs1 where
    l: "foldM (build_step static dynamic) (True, [], [], bs) (m_behavior_specs bs) = Some (ok, sbs, names, bs1)"
    "starting bs (ok, sbs, names, bs1)" "ok \<longrightarrow> length sbs = length [s \<leftarrow> m_behavior_specs bs. m_templating s \<noteq> ''spawn'']" by auto
  have t: "touched bs bs1" using l(2) by (simp add: starting_def)
  show ?thesis
  proof (cases ok)
    case False
    then show ?thesis using l(1) touched_same [OF t] by (intro exI [of _ False] exI [of _ bs1]) (simp add: buildBehaviorsFromSpecs_def)
  next
    case True
    let ?bs = "foldl (\<lambda>bs sb. let bs = addBehavior (sb_behavior sb) bs
      in bs\<lparr>m_life_events := m_life_events bs @ [birth ''spawn'' ''helm_startup'' sb]\<rparr>) bs1 sbs"
    have "buildBehaviorsFromSpecs static dynamic bs = Some (True, ?bs)"
      using l(1) True by (simp add: buildBehaviorsFromSpecs_def)
    with started_bhvs [of bs sbs names bs1] l(2,3) True show ?thesis by (intro exI [of _ True] exI [of _ ?bs]) simp
  qed
qed


text \<open>A factory with one class, and a specification.\<close>

definition ex_factory :: "unit factory" where
  "ex_factory kind = (if kind = ''BHV_Waypoint'' then Some (base_methods, IvPBehavior_new ex_line) else None)"

definition ex_spec :: "(string \<times> nat) list \<Rightarrow> behavior_spec" where
  "ex_spec ls = foldl (\<lambda>spec (l, n). addBehaviorConfig l n spec) (setBehaviorKind ''BHV_Waypoint'' 3 BehaviorSpec_new) ls"

lemma ex_factory_builds: "makes_buildable ex_factory" "makes_buildable (\<lambda>_. None)"
  using bhv_inv_new [of ex_line] buildable_base by (simp_all add: makes_buildable_def ex_factory_def)

definition ex_set :: "(string \<times> nat) list list \<Rightarrow> unit behavior_set" where
  "ex_set specs = BehaviorSet_new\<lparr>m_behavior_specs := map ex_spec specs\<rparr>"

theorem start_all_or_nothing_witness:
  "\<exists>bs' bhvs. buildBehaviorsFromSpecs ex_factory (\<lambda>_. None) (ex_set [[(''name=wpt'', 4)], [(''name=loiter'', 8)]]) = Some (True, bs') \<and>
     m_bhv_entry bs' = map (\<lambda>b. BehaviorSetEntry_new (Some b)) bhvs \<and> length bhvs = 2"
proof -
  let ?bs = "ex_set [[(''name=wpt'', 4)], [(''name=loiter'', 8)]]"
  have "map_option fst (foldM (build_step ex_factory (\<lambda>_. None)) (True, [], [], ?bs) (m_behavior_specs ?bs)) = Some True" by code_simp
  then have "map_option fst (buildBehaviorsFromSpecs ex_factory (\<lambda>_. None) ?bs) = Some True" by (auto simp: buildBehaviorsFromSpecs_def)
  moreover have "m_bhv_entry ?bs = []" by (simp add: ex_set_def BehaviorSet_new_def)
  moreover have "length [s \<leftarrow> m_behavior_specs ?bs. m_templating s \<noteq> ''spawn''] = 2" by code_simp
  ultimately show ?thesis using start_all_or_nothing [OF ex_factory_builds, of ?bs] by auto
qed

section \<open>Spawning\<close>

text \<open>A build looks at nothing of the set.\<close>

definition build_view :: "bool \<times> 'x spec_build \<times> 'x ivp_behavior_scheme \<times> 'x behavior_set \<Rightarrow> bool \<times> 'x spec_build \<times> 'x ivp_behavior_scheme" where
  "build_view = (\<lambda>(v, sb, b, bs). (v, sb, b))"

lemma config_view:
  "map_option build_view (config_step M spec (v, sb, b, bs1) i) = map_option build_view (config_step M spec (v, sb, b, bs2) i)"
  "map_option build_view (update_step M (v, sb, b, bs1) u) = map_option build_view (update_step M (v, sb, b, bs2) u)"
  by (simp_all add: config_step_def update_step_def build_view_def Let_def split: Option.bind_split)

lemma view_loop:
  assumes "\<And>v sb b bs1 bs2 x. map_option build_view (f (v, sb, b, bs1) x) = map_option build_view (f (v, sb, b, bs2) x)"
  shows "build_view s1 = build_view s2 \<Longrightarrow> map_option build_view (foldM f s1 xs) = map_option build_view (foldM f s2 xs)"
proof (induction xs arbitrary: s1 s2)
  case (Cons x xs)
  obtain v sb b bs1 bs2 where s: "s1 = (v, sb, b, bs1)" "s2 = (v, sb, b, bs2)"
    using Cons.prems by (cases s1; cases s2) (simp add: build_view_def)
  have e: "map_option build_view (f s1 x) = map_option build_view (f s2 x)" unfolding s by (rule assms)
  show ?case
  proof (cases "f s1 x")
    case None
    with e show ?thesis by simp
  next
    case (Some t1)
    with e have "\<exists>t2. f s2 x = Some t2 \<and> build_view t1 = build_view t2" by (cases "f s2 x") simp_all
    then obtain t2 where "f s2 x = Some t2" "build_view t1 = build_view t2" by blast
    with Some Cons.IH [of t1 t2] show ?thesis by simp
  qed
qed simp

lemma view_bind:
  assumes "map_option V x = map_option V y" "\<And>a b. V a = V b \<Longrightarrow> map_option V (g a) = map_option V (g b)"
  shows "map_option V (x \<bind> g) = map_option V (y \<bind> g)"
proof (cases x)
  case None
  with assms(1) show ?thesis by simp
next
  case (Some a)
  with assms(1) obtain b where "y = Some b" "V a = V b" by (cases y) simp_all
  with Some assms(2) [of a b] show ?thesis by simp
qed

lemma view_Some: "map_option build_view x = map_option build_view y \<Longrightarrow> x = Some (v, sb, b, c) \<Longrightarrow> \<exists>d. y = Some (v, sb, b, d)"
  by (cases y) (auto simp: build_view_def)

lemma build_same:
  assumes "buildBehaviorFromSpec static dynamic spec u bs1 = Some (sb, bs1')"
  shows "\<exists>bs2'. buildBehaviorFromSpec static dynamic spec u bs2 = Some (sb, bs2')"
proof -
  let ?kind = "m_behavior_kind spec"
  let ?found = "case static ?kind of Some bhv \<Rightarrow> Some (bhv, ''static'') | None \<Rightarrow> map_option (\<lambda>bhv. (bhv, ''dynamic'')) (dynamic ?kind)"
  show ?thesis
  proof (cases ?found)
    case None
    with assms show ?thesis by (auto simp: buildBehaviorFromSpec_def Let_def)
  next
    case (Some x)
    then obtain M b r where f: "?found = Some ((M, b), r)" by (cases x) auto
    let ?s = "\<lambda>bs. (True, (SpecBuild_new :: 'a spec_build)\<lparr>m_bhv_kind := ?kind, m_bhv_kind_lnum := m_kind_line_num spec,
      m_bhv_kind_result := r\<rparr>, b\<lparr>m_behavior_type := ?kind\<rparr>, bs)"
    let ?run = "\<lambda>bs. foldM (config_step M spec) (?s bs) [0..<length (m_config_lines spec)] \<bind>
      (\<lambda>s. foldM (update_step M) s (parseStringQ u (CHR ''#'')))"
    let ?fin = "\<lambda>(specs_valid, sbuild, b, bs). if specs_valid then v_onHelmStart M None b \<bind> (\<lambda>b. Some (sbuild\<lparr>sb_behavior := Some (M, b)\<rparr>, bs))
      else Some (sbuild, bs)"
    have B: "buildBehaviorFromSpec static dynamic spec u bs = ?run bs \<bind> ?fin" for bs
      unfolding buildBehaviorFromSpec_def Let_def f by simp
    have "map_option build_view (?run bs1) = map_option build_view (?run bs2)"
    proof -
      have "build_view (?s bs1) = build_view (?s bs2)" by (simp add: build_view_def)
      from view_loop [of "config_step M spec", OF config_view(1) this]
      have e: "map_option build_view (foldM (config_step M spec) (?s bs1) [0..<length (m_config_lines spec)]) =
        map_option build_view (foldM (config_step M spec) (?s bs2) [0..<length (m_config_lines spec)])" .
      show ?thesis by (rule view_bind [OF e]) (rule view_loop [of "update_step M", OF config_view(2)])
    qed
    moreover obtain v sb0 b0 c1 where r1: "?run bs1 = Some (v, sb0, b0, c1)"
      using assms unfolding B by (cases "?run bs1") auto
    ultimately obtain c2 where r2: "?run bs2 = Some (v, sb0, b0, c2)" using view_Some [of "?run bs1" "?run bs2"] by blast
    show ?thesis using assms unfolding B r1 r2 by (cases v; cases "v_onHelmStart M None b0") auto
  qed
qed

text \<open>The entries that were there stay in front; a new one comes with a life event of its name.\<close>

definition spawned :: "'x behavior_set \<Rightarrow> 'x behavior_set \<Rightarrow> bool" where
  "spawned bs bs' \<longleftrightarrow> m_behavior_specs bs' = m_behavior_specs bs \<and>
     (\<exists>bhvs evs. m_bhv_entry bs' = m_bhv_entry bs @ map (\<lambda>b. BehaviorSetEntry_new (Some b)) bhvs \<and>
       m_life_events bs' = m_life_events bs @ evs \<and>
       map (\<lambda>(M, b). m_descriptor b) bhvs = map le_behavior_name [e \<leftarrow> evs. le_event_type e = ''spawn''] \<and>
       set (m_bhv_names bs') = set (m_bhv_names bs) \<union> set (map (\<lambda>(M, b). m_descriptor b) bhvs) \<and>
       (\<forall>(M, b)\<in>set bhvs. buildable M \<and> bhv_inv b))"

lemma spawned_refl: "spawned bs bs"
  unfolding spawned_def by (intro conjI refl exI [of _ "[]"]) simp_all

lemma spawned_trans:
  assumes "spawned bs bs1" "spawned bs1 bs2"
  shows "spawned bs bs2"
proof -
  obtain xs es where 1: "m_behavior_specs bs1 = m_behavior_specs bs"
    "m_bhv_entry bs1 = m_bhv_entry bs @ map (\<lambda>b. BehaviorSetEntry_new (Some b)) xs" "m_life_events bs1 = m_life_events bs @ es"
    "map (\<lambda>(M, b). m_descriptor b) xs = map le_behavior_name [e \<leftarrow> es. le_event_type e = ''spawn'']"
    "set (m_bhv_names bs1) = set (m_bhv_names bs) \<union> set (map (\<lambda>(M, b). m_descriptor b) xs)"
    "\<forall>(M, b)\<in>set xs. buildable M \<and> bhv_inv b" using assms(1) unfolding spawned_def by blast
  obtain ys fs where 2: "m_behavior_specs bs2 = m_behavior_specs bs1"
    "m_bhv_entry bs2 = m_bhv_entry bs1 @ map (\<lambda>b. BehaviorSetEntry_new (Some b)) ys" "m_life_events bs2 = m_life_events bs1 @ fs"
    "map (\<lambda>(M, b). m_descriptor b) ys = map le_behavior_name [e \<leftarrow> fs. le_event_type e = ''spawn'']"
    "set (m_bhv_names bs2) = set (m_bhv_names bs1) \<union> set (map (\<lambda>(M, b). m_descriptor b) ys)"
    "\<forall>(M, b)\<in>set ys. buildable M \<and> bhv_inv b" using assms(2) unfolding spawned_def by blast
  show ?thesis unfolding spawned_def
  proof (intro conjI exI [of _ "xs @ ys"] exI [of _ "es @ fs"])
    show "map (\<lambda>(M, b). m_descriptor b) (xs @ ys) = map le_behavior_name [e \<leftarrow> es @ fs. le_event_type e = ''spawn'']"
      unfolding map_append filter_append 1(4) 2(4) ..
    show "set (m_bhv_names bs2) = set (m_bhv_names bs) \<union> set (map (\<lambda>(M, b). m_descriptor b) (xs @ ys))"
      unfolding 1(5) 2(5) by auto
  qed (use 1(1-3,6) 2(1-3,6) in \<open>auto simp: ball_Un\<close>)
qed

lemma spawn_step_adds:
  assumes "makes_buildable static" "makes_buildable dynamic"
  shows "\<exists>bs'. spawn_step static dynamic spec bs u = Some bs' \<and> spawned bs bs' \<and>
     (tokStringParse u ''name'' (CHR ''#'') (CHR ''='') \<in> set (m_bhv_names bs) \<longrightarrow> bs' = bs)"
proof (cases "tokStringParse u ''name'' (CHR ''#'') (CHR ''='') \<in> set (m_bhv_names bs)")
  case True
  then show ?thesis using spawned_refl [of bs] by (simp add: spawn_step_def)
next
  case False
  obtain sb w where b: "buildBehaviorFromSpec static dynamic spec u bs = Some (sb, bs\<lparr>m_warnings := w\<rparr>)"
    "\<And>M b. sb_behavior sb = Some (M, b) \<Longrightarrow> buildable M \<and> bhv_inv b" using build_returns [OF assms] by blast
  show ?thesis
  proof (cases "sb_behavior sb")
    case None
    let ?bs = "bs\<lparr>m_warnings := w, m_life_events := m_life_events bs @ [birth ''abort'' u sb]\<rparr>"
    have "spawn_step static dynamic spec bs u = Some ?bs" using False b(1) None by (simp add: spawn_step_def)
    moreover have "spawned bs ?bs" unfolding spawned_def
      by (intro conjI exI [of _ "[]"] exI [of _ "[birth ''abort'' u sb]"]) (simp_all add: birth_def)
    ultimately show ?thesis using False by blast
  next
    case (Some x)
    then obtain M c where x: "sb_behavior sb = Some (M, c)" by (cases x) auto
    obtain c' where c': "v_onSetParamComplete M None c = Some c'" "bhv_inv c'" "m_descriptor c' = m_descriptor c"
      using b(2) [OF x] by (auto simp: buildable_def)
    let ?bs = "let bs = addBehavior (Some (M, c')) (bs\<lparr>m_warnings := w\<rparr>) in bs\<lparr>m_life_events := m_life_events bs @ [birth ''spawn'' u sb]\<rparr>"
    have "spawn_step static dynamic spec bs u = Some ?bs" using False b(1) x c'(1) by (simp add: spawn_step_def Let_def)
    moreover have "spawned bs ?bs" unfolding spawned_def
      by (intro conjI exI [of _ "[(M, c')]"] exI [of _ "[birth ''spawn'' u sb]"])
        (use b(2) [OF x] c' x in \<open>simp_all add: addBehavior_def Let_def birth_def sb_getBehaviorName_def set_insort_insert\<close>)
    ultimately show ?thesis using False by blast
  qed
qed

lemma spawn_loop:
  assumes "makes_buildable static" "makes_buildable dynamic"
  shows "\<exists>bs'. foldM (spawn_step static dynamic spec) bs us = Some bs' \<and> spawned bs bs'"
  using foldM_invariant [of "spawned bs" bs us "spawn_step static dynamic spec"] spawned_refl [of bs]
    spawn_step_adds [OF assms, of spec] spawned_trans [of bs] by blast

text \<open>A round of spawnings returns true. Whatever the postings ask for, the behaviors that were there stay
  in place, new ones follow with their invariant, each with a life event of its name in order, and the names of the set grow by theirs.\<close>

theorem spawning_adds:
  assumes "makes_buildable static" "makes_buildable dynamic"
  shows "\<exists>bs'. handlePossibleSpawnings static dynamic (Some ib) bs = Some (True, bs') \<and>
     (\<exists>bhvs evs. m_bhv_entry bs' = m_bhv_entry bs @ map (\<lambda>b. BehaviorSetEntry_new (Some b)) bhvs \<and>
       m_life_events bs' = m_life_events bs @ evs \<and>
       map (\<lambda>(M, b). m_descriptor b) bhvs = map le_behavior_name [e \<leftarrow> evs. le_event_type e = ''spawn''] \<and>
       set (m_bhv_names bs') = set (m_bhv_names bs) \<union> set (map (\<lambda>(M, b). m_descriptor b) bhvs) \<and>
       (\<forall>(M, b)\<in>set bhvs. bhv_inv b))"
proof -
  let ?f = "\<lambda>bs spec. if m_templating_enabled spec
       then checkForSpawningStrings (Some ib) spec \<bind> foldM (spawn_step static dynamic spec) bs else Some bs"
  have "\<exists>bs'. foldM ?f bs (m_behavior_specs bs) = Some bs' \<and> spawned bs bs'"
  proof (rule foldM_invariant [of "spawned bs", OF spawned_refl])
    fix s x assume s: "spawned bs s"
    obtain us where "checkForSpawningStrings (Some ib) x = Some us"
      by (cases "\<not> m_templating_enabled x \<or> m_updates_var x = '''' ") (auto simp: checkForSpawningStrings_def)
    then show "\<exists>s'. ?f s x = Some s' \<and> spawned bs s'"
      using s spawn_loop [OF assms, of x s us] spawned_trans [of bs s] by auto
  qed
  then obtain bs' where b: "foldM ?f bs (m_behavior_specs bs) = Some bs'" "spawned bs bs'" by blast
  have h: "handlePossibleSpawnings static dynamic (Some ib) bs = Some (True, bs')"
    unfolding handlePossibleSpawnings_def b(1) by simp
  from b(2) obtain bhvs evs where e: "m_bhv_entry bs' = m_bhv_entry bs @ map (\<lambda>b. BehaviorSetEntry_new (Some b)) bhvs"
    "m_life_events bs' = m_life_events bs @ evs"
    "map (\<lambda>(M, b). m_descriptor b) bhvs = map le_behavior_name [e \<leftarrow> evs. le_event_type e = ''spawn'']"
    "set (m_bhv_names bs') = set (m_bhv_names bs) \<union> set (map (\<lambda>(M, b). m_descriptor b) bhvs)"
    "\<forall>(M, b)\<in>set bhvs. buildable M \<and> bhv_inv b" unfolding spawned_def by blast
  have i: "\<forall>(M, b)\<in>set bhvs. bhv_inv b" using e(5) by auto
  show ?thesis by (rule exI [of _ bs'], intro conjI exI [of _ bhvs] exI [of _ evs]) (rule h e(1-4) i)+
qed


theorem spawning_adds_witness:
  "\<exists>bs'. handlePossibleSpawnings ex_factory (\<lambda>_. None) (Some InfoBuffer_new) (ex_set [[(''name=wpt'', 4)]]) = Some (True, bs') \<and>
     length (m_life_events bs') \<ge> length (m_bhv_entry bs')"
proof -
  have e: "m_bhv_entry (ex_set [[(''name=wpt'', 4)]]) = []" "m_life_events (ex_set [[(''name=wpt'', 4)]]) = []"
    by (simp_all add: ex_set_def BehaviorSet_new_def)
  obtain bs' bhvs evs where h: "handlePossibleSpawnings ex_factory (\<lambda>_. None) (Some InfoBuffer_new) (ex_set [[(''name=wpt'', 4)]]) = Some (True, bs')"
    "m_bhv_entry bs' = map (\<lambda>b. BehaviorSetEntry_new (Some b)) bhvs" "m_life_events bs' = evs"
    "map (\<lambda>(M, b). m_descriptor b) bhvs = map le_behavior_name [e \<leftarrow> evs. le_event_type e = ''spawn'']"
    using spawning_adds [OF ex_factory_builds, of InfoBuffer_new "ex_set [[(''name=wpt'', 4)]]"] e by auto
  from h(4) have "length bhvs = length [e \<leftarrow> evs. le_event_type e = ''spawn'']" by (metis length_map)
  also have "\<dots> \<le> length evs" by (rule length_filter_le)
  finally show ?thesis using h(1-3) by auto
qed

text \<open>C11: A spawning is refused by the name in the posting, while the behavior is named with the name of its
  specification in front: when that makes a difference, one posting made twice adds two behaviors of one name.\<close>

theorem name_taken_twice:
  assumes "makes_buildable static" "makes_buildable dynamic"
    "tokStringParse u ''name'' (CHR ''#'') (CHR ''='') = bare" "bare \<notin> set (m_bhv_names bs)"
    "buildBehaviorFromSpec static dynamic spec u bs0 = Some (sb, bs1)" "sb_behavior sb = Some (M, c)" "m_descriptor c \<noteq> bare"
  shows "\<exists>bs'. foldM (spawn_step static dynamic spec) bs [u, u] = Some bs' \<and>
     map getBehaviorName (m_bhv_entry bs') = map getBehaviorName (m_bhv_entry bs) @ [m_descriptor c, m_descriptor c]"
proof -
  have step: "\<exists>b2. spawn_step static dynamic spec b u = Some b2 \<and> set (m_bhv_names b2) = insert (m_descriptor c) (set (m_bhv_names b)) \<and>
      map getBehaviorName (m_bhv_entry b2) = map getBehaviorName (m_bhv_entry b) @ [m_descriptor c]"
    if "bare \<notin> set (m_bhv_names b)" for b
  proof -
    obtain w where w: "buildBehaviorFromSpec static dynamic spec u b = Some (sb, b\<lparr>m_warnings := w\<rparr>)" "buildable M" "bhv_inv c"
    proof -
      obtain b3 where b3: "buildBehaviorFromSpec static dynamic spec u b = Some (sb, b3)" using build_same [OF assms(5)] by blast
      obtain sb' w where w: "buildBehaviorFromSpec static dynamic spec u b = Some (sb', b\<lparr>m_warnings := w\<rparr>)"
        "\<And>M b. sb_behavior sb' = Some (M, b) \<Longrightarrow> buildable M \<and> bhv_inv b" using build_returns [OF assms(1,2)] by blast
      have "sb' = sb" using b3 w(1) by simp
      with that w assms(6) show ?thesis by simp
    qed
    obtain c' where c': "v_onSetParamComplete M None c = Some c'" "m_descriptor c' = m_descriptor c"
      using w(2,3) by (auto simp: buildable_def)
    show ?thesis using that assms(3,6) w(1) c'
      by (simp add: spawn_step_def Let_def addBehavior_def set_insort_insert BehaviorSetEntry_new_def getBehaviorName_def)
  qed
  obtain b2 where b2: "spawn_step static dynamic spec bs u = Some b2" "set (m_bhv_names b2) = insert (m_descriptor c) (set (m_bhv_names bs))"
    "map getBehaviorName (m_bhv_entry b2) = map getBehaviorName (m_bhv_entry bs) @ [m_descriptor c]" using step [OF assms(4)] by blast
  have "bare \<notin> set (m_bhv_names b2)" using b2(2) assms(4,7) by simp
  from step [OF this] b2 show ?thesis by auto
qed

theorem name_taken_twice_witness:
  "\<exists>bs'. foldM (spawn_step ex_factory (\<lambda>_. None) (ex_spec [(''name=wpt_'', 4), (''templating=spawn'', 5)])) BehaviorSet_new
       [''name=a'', ''name=a''] = Some bs' \<and>
     map getBehaviorName (m_bhv_entry bs') = [''wpt_a'', ''wpt_a'']"
proof -
  let ?spec = "ex_spec [(''name=wpt_'', 4), (''templating=spawn'', 5)]"
  have "map_option (\<lambda>(sb, bs). sb_getBehaviorName sb) (buildBehaviorFromSpec ex_factory (\<lambda>_. None) ?spec ''name=a'' BehaviorSet_new) = Some ''wpt_a''"
    by code_simp
  then obtain sb bs1 where b: "buildBehaviorFromSpec ex_factory (\<lambda>_. None) ?spec ''name=a'' BehaviorSet_new = Some (sb, bs1)"
    "sb_getBehaviorName sb = ''wpt_a''" by auto
  then obtain M c where c: "sb_behavior sb = Some (M, c)" "m_descriptor c = ''wpt_a''"
    by (cases "sb_behavior sb") (auto simp: sb_getBehaviorName_def)
  have t: "tokStringParse ''name=a'' ''name'' (CHR ''#'') (CHR ''='') = ''a''" by code_simp
  show ?thesis using name_taken_twice [OF ex_factory_builds t _ b(1) c(1), of BehaviorSet_new] c(2)
    by (simp add: BehaviorSet_new_def)
qed

end
