(* ===== verification/Helm_Report.thy ===== *)
theory Helm_Report
  imports Box_Strings
begin

text \<open>
  \<open>HelmReport\<close> (\<open>src/ivp/src/lib_helmivp/HelmReport.h\<close>, \<open>HelmReport.cpp\<close>, \<open>HelmReportUtils.cpp\<close>):
  what the helm publishes after every iteration, its text and the reader of that text. The parallel
  vectors of the code are parallel lists. \<open>print\<close> writes to the console and is not modelled.
\<close>

section \<open>State\<close>

record helm_report =
  m_bhvs_running_desc :: "string list"
  m_bhvs_running_time :: "real list"
  m_bhvs_running_upds :: "string list"
  m_bhvs_idle_desc :: "string list"
  m_bhvs_idle_time :: "real list"
  m_bhvs_idle_upds :: "string list"
  m_bhvs_completed_desc :: "string list"
  m_bhvs_completed_time :: "real list"
  m_bhvs_completed_upds :: "string list"
  m_bhvs_active_desc :: "string list"
  m_bhvs_active_time :: "real list"
  m_bhvs_active_upds :: "string list"
  m_bhvs_active_pwt :: "real list"
  m_bhvs_active_cpu :: "real list"
  m_bhvs_active_pcs :: "int list"
  m_bhvs_active_ipfs :: "nat list"
  m_messages :: "string list"
  m_decisions :: "string \<Rightarrow> real option"
  m_halt_message :: string
  m_modes :: string
  m_warning_count :: nat
  m_time_utc :: real
  m_iteration :: nat
  m_report_ofnum :: nat
  m_halted :: bool
  m_report_domain :: ivpdomain
  m_create_time :: real
  m_solve_time :: real
  m_max_create_time :: real
  m_max_solve_time :: real
  m_max_loop_time :: real

definition initialize_report :: "helm_report \<Rightarrow> helm_report" where
  "initialize_report r = r\<lparr>m_warning_count := 0, m_time_utc := 0, m_iteration := 0, m_report_ofnum := 0,
     m_create_time := 0, m_solve_time := 0, m_halted := False, m_max_create_time := 0, m_max_solve_time := 0,
     m_max_loop_time := 0\<rparr>"

definition HelmReport_new :: helm_report where
  "HelmReport_new = \<lparr>m_bhvs_running_desc = [], m_bhvs_running_time = [], m_bhvs_running_upds = [],
     m_bhvs_idle_desc = [], m_bhvs_idle_time = [], m_bhvs_idle_upds = [],
     m_bhvs_completed_desc = [], m_bhvs_completed_time = [], m_bhvs_completed_upds = [],
     m_bhvs_active_desc = [], m_bhvs_active_time = [], m_bhvs_active_upds = [], m_bhvs_active_pwt = [],
     m_bhvs_active_cpu = [], m_bhvs_active_pcs = [], m_bhvs_active_ipfs = [], m_messages = [], m_decisions = Map.empty,
     m_halt_message = '''', m_modes = '''', m_warning_count = 0, m_time_utc = 0, m_iteration = 0, m_report_ofnum = 0,
     m_halted = False, m_report_domain = empty_domain, m_create_time = 0, m_solve_time = 0, m_max_create_time = 0,
     m_max_solve_time = 0, m_max_loop_time = 0\<rparr>"

section \<open>Updating\<close>

definition clearActiveBHVs :: "helm_report \<Rightarrow> helm_report" where
  "clearActiveBHVs r = r\<lparr>m_bhvs_active_desc := [], m_bhvs_active_time := [], m_bhvs_active_upds := [],
     m_bhvs_active_pwt := [], m_bhvs_active_cpu := [], m_bhvs_active_pcs := [], m_bhvs_active_ipfs := []\<rparr>"

definition clearRunningBHVs :: "helm_report \<Rightarrow> helm_report" where
  "clearRunningBHVs r = r\<lparr>m_bhvs_running_desc := [], m_bhvs_running_time := [], m_bhvs_running_upds := []\<rparr>"

definition clearIdleBHVs :: "helm_report \<Rightarrow> helm_report" where
  "clearIdleBHVs r = r\<lparr>m_bhvs_idle_desc := [], m_bhvs_idle_time := [], m_bhvs_idle_upds := []\<rparr>"

definition clearCompletedBHVs :: "helm_report \<Rightarrow> helm_report" where
  "clearCompletedBHVs r = r\<lparr>m_bhvs_completed_desc := [], m_bhvs_completed_time := [], m_bhvs_completed_upds := []\<rparr>"

definition clearDecisions :: "helm_report \<Rightarrow> helm_report" where
  "clearDecisions r = r\<lparr>m_decisions := Map.empty\<rparr>"

text \<open>The halt message and the modes stay.\<close>

definition clear_report :: "bool \<Rightarrow> helm_report \<Rightarrow> helm_report" where
  "clear_report clear_completed r =
     (let r = initialize_report r;
          r = clearIdleBHVs (clearRunningBHVs r);
          r = (if clear_completed then clearCompletedBHVs r else r);
          r = clearActiveBHVs r
      in r\<lparr>m_messages := [], m_decisions := Map.empty, m_report_domain := empty_domain\<rparr>)"

definition addMsg :: "string \<Rightarrow> helm_report \<Rightarrow> helm_report" where
  "addMsg str r = r\<lparr>m_messages := m_messages r @ [str]\<rparr>"

definition addDecision :: "string \<Rightarrow> real \<Rightarrow> helm_report \<Rightarrow> helm_report" where
  "addDecision var val r = r\<lparr>m_decisions := (m_decisions r)(var \<mapsto> val)\<rparr>"

definition addActiveBHV :: "string \<Rightarrow> real \<Rightarrow> real \<Rightarrow> int \<Rightarrow> real \<Rightarrow> string \<Rightarrow> nat \<Rightarrow> helm_report \<Rightarrow> helm_report" where
  "addActiveBHV descriptor time pwt pcs cpu_time update_summary ipfs r =
     r\<lparr>m_bhvs_active_desc := m_bhvs_active_desc r @ [descriptor], m_bhvs_active_time := m_bhvs_active_time r @ [time],
       m_bhvs_active_upds := m_bhvs_active_upds r @ [update_summary], m_bhvs_active_pwt := m_bhvs_active_pwt r @ [pwt],
       m_bhvs_active_pcs := m_bhvs_active_pcs r @ [pcs], m_bhvs_active_cpu := m_bhvs_active_cpu r @ [cpu_time],
       m_bhvs_active_ipfs := m_bhvs_active_ipfs r @ [ipfs]\<rparr>"

definition addRunningBHV :: "string \<Rightarrow> real \<Rightarrow> string \<Rightarrow> helm_report \<Rightarrow> helm_report" where
  "addRunningBHV descriptor time update_summary r =
     r\<lparr>m_bhvs_running_desc := m_bhvs_running_desc r @ [descriptor], m_bhvs_running_time := m_bhvs_running_time r @ [time],
       m_bhvs_running_upds := m_bhvs_running_upds r @ [update_summary]\<rparr>"

definition addIdleBHV :: "string \<Rightarrow> real \<Rightarrow> string \<Rightarrow> helm_report \<Rightarrow> helm_report" where
  "addIdleBHV descriptor time update_summary r =
     r\<lparr>m_bhvs_idle_desc := m_bhvs_idle_desc r @ [descriptor], m_bhvs_idle_time := m_bhvs_idle_time r @ [time],
       m_bhvs_idle_upds := m_bhvs_idle_upds r @ [update_summary]\<rparr>"

text \<open>The history of completed behaviors drops its oldest entry when it grows past 50.\<close>

definition addCompletedBHV :: "string \<Rightarrow> real \<Rightarrow> string \<Rightarrow> helm_report \<Rightarrow> helm_report" where
  "addCompletedBHV descriptor time update_summary r =
     (if descriptor = '''' then r
      else let r = r\<lparr>m_bhvs_completed_desc := m_bhvs_completed_desc r @ [descriptor],
                     m_bhvs_completed_time := m_bhvs_completed_time r @ [time],
                     m_bhvs_completed_upds := m_bhvs_completed_upds r @ [update_summary]\<rparr>
           in if length (m_bhvs_completed_desc r) > 50
              then r\<lparr>m_bhvs_completed_desc := tl (m_bhvs_completed_desc r),
                     m_bhvs_completed_time := tl (m_bhvs_completed_time r),
                     m_bhvs_completed_upds := tl (m_bhvs_completed_upds r)\<rparr>
              else r)"

section \<open>Queries\<close>

definition getLoopTime :: "helm_report \<Rightarrow> real" where
  "getLoopTime r = m_solve_time r + m_create_time r"

definition getDecision :: "helm_report \<Rightarrow> string \<Rightarrow> real" where
  "getDecision r var = (case m_decisions r var of None \<Rightarrow> 0 | Some v \<Rightarrow> v)"

definition hasDecision :: "helm_report \<Rightarrow> string \<Rightarrow> bool" where
  "hasDecision r var = (case m_decisions r var of None \<Rightarrow> False | Some v \<Rightarrow> True)"

definition getDecisionSummary :: "helm_report \<Rightarrow> string" where
  "getDecisionSummary r =
     foldl (\<lambda>summary i. (if i > 0 then summary @ '','' else summary) @
         (let varname = getVarName (m_report_domain r) i
          in ''var='' @ varname @ '':'' @ (case m_decisions r varname of None \<Rightarrow> ''varbalk'' | Some v \<Rightarrow> doubleToStringX v 5)))
       '''' [0..<dom_size (m_report_domain r)]"

definition getActiveBehaviors :: "helm_report \<Rightarrow> bool \<Rightarrow> string" where
  "getActiveBehaviors r full_report =
     (let return_str = foldl (\<lambda>s i.
            if full_report
            then (if i > 0 then s @ '':'' else s) @ (m_bhvs_active_desc r ! i @
                 ''$'' @ doubleToString (m_bhvs_active_time r ! i) 2 @
                 ''$'' @ doubleToString (m_bhvs_active_pwt r ! i) 5 @
                 ''$'' @ intToString (m_bhvs_active_pcs r ! i) @
                 ''$'' @ doubleToString (m_bhvs_active_cpu r ! i) 5 @
                 ''$'' @ m_bhvs_active_upds r ! i @
                 ''$'' @ uintToString (m_bhvs_active_ipfs r ! i))
            else (if i > 0 then s @ '','' else s) @ m_bhvs_active_desc r ! i) '''' [0..<length (m_bhvs_active_desc r)]
      in if return_str = ''none'' then '''' else return_str)"

text \<open>The loop the other three lists share.\<close>

definition bhv_list :: "string list \<Rightarrow> real list \<Rightarrow> string list \<Rightarrow> bool \<Rightarrow> string" where
  "bhv_list desc time upds full_report =
     (let return_str = foldl (\<lambda>s i.
            if full_report
            then (if i > 0 then s @ '':'' else s) @ (desc ! i @ ''$'' @ doubleToString (time ! i) 2 @ ''$'' @ upds ! i)
            else (if i > 0 then s @ '','' else s) @ desc ! i) '''' [0..<length desc]
      in if return_str = ''none'' then '''' else return_str)"

definition getRunningBehaviors :: "helm_report \<Rightarrow> bool \<Rightarrow> string" where
  "getRunningBehaviors r = bhv_list (m_bhvs_running_desc r) (m_bhvs_running_time r) (m_bhvs_running_upds r)"

definition getIdleBehaviors :: "helm_report \<Rightarrow> bool \<Rightarrow> string" where
  "getIdleBehaviors r = bhv_list (m_bhvs_idle_desc r) (m_bhvs_idle_time r) (m_bhvs_idle_upds r)"

definition getCompletedBehaviors :: "helm_report \<Rightarrow> bool \<Rightarrow> string" where
  "getCompletedBehaviors r = bhv_list (m_bhvs_completed_desc r) (m_bhvs_completed_time r) (m_bhvs_completed_upds r)"

definition changedBehaviors :: "helm_report \<Rightarrow> helm_report \<Rightarrow> bool" where
  "changedBehaviors r report =
     (if getActiveBehaviors r False \<noteq> getActiveBehaviors report False then True
      else if getRunningBehaviors r False \<noteq> getRunningBehaviors report False then True
      else if getIdleBehaviors r False \<noteq> getIdleBehaviors report False then True
      else if getCompletedBehaviors r False \<noteq> getCompletedBehaviors report False then True
      else False)"

definition getDomainString :: "helm_report \<Rightarrow> string" where
  "getDomainString r = domainToString (m_report_domain r) True"

definition timeInState :: "real \<Rightarrow> real \<Rightarrow> string" where
  "timeInState curr_time mark_time =
     (if mark_time > 0 then doubleToString (curr_time - mark_time) 2 else ''always'')"

section \<open>The text of a report\<close>

text \<open>A part of the text that is written on a condition, and a value that is never empty.\<close>

definition add_if :: "bool \<Rightarrow> string \<Rightarrow> string \<Rightarrow> string" where
  "add_if b str report = (if b then report @ str else report)"

definition or_none :: "string \<Rightarrow> string" where
  "or_none s = (if s = '''' then ''none'' else s)"

definition getReportAsString_from :: "helm_report \<Rightarrow> helm_report \<Rightarrow> bool \<Rightarrow> string" where
  "getReportAsString_from r prep full =
     (let report = ''iter='' @ uintToString (m_iteration r);
          report = report @ '',utc_time='' @ doubleToString (m_time_utc r) 2;
          report = add_if (full \<or> m_report_ofnum r \<noteq> m_report_ofnum prep) ('',ofnum='' @ uintToString (m_report_ofnum r)) report;
          report = add_if (full \<or> m_warning_count r \<noteq> m_warning_count prep) ('',warnings='' @ uintToString (m_warning_count r)) report;
          report = add_if (full \<or> m_solve_time r \<noteq> m_solve_time prep) ('',solve_time='' @ doubleToString (m_solve_time r) 2) report;
          report = add_if (full \<or> m_create_time r \<noteq> m_create_time prep) ('',create_time='' @ doubleToString (m_create_time r) 2) report;
          report = add_if (full \<or> m_max_create_time r \<noteq> m_max_create_time prep) ('',max_create_time='' @ doubleToString (m_max_create_time r) 2) report;
          report = add_if (full \<or> m_max_solve_time r \<noteq> m_max_solve_time prep) ('',max_solve_time='' @ doubleToString (m_max_solve_time r) 2) report;
          report = add_if (full \<or> m_max_loop_time r \<noteq> m_max_loop_time prep) ('',max_loop_time='' @ doubleToString (m_max_loop_time r) 2) report;
          loop_time = m_create_time r + m_solve_time r;
          report = add_if (full \<or> loop_time \<noteq> getLoopTime prep) ('',loop_time='' @ doubleToString loop_time 2) report;
          decision_summary = getDecisionSummary r;
          report = add_if (full \<or> decision_summary \<noteq> getDecisionSummary prep) ('','' @ decision_summary) report;
          report = add_if (full \<or> m_halted r \<noteq> m_halted prep) ('',halted='' @ boolToString (m_halted r)) report;
          report = add_if (full \<or> m_modes r \<noteq> m_modes prep) ('',modes='' @ or_none (m_modes r)) report;
          running_bhvs = getRunningBehaviors r True;
          report = add_if (full \<or> running_bhvs \<noteq> getRunningBehaviors prep True) ('',running_bhvs='' @ or_none running_bhvs) report;
          active_bhvs = getActiveBehaviors r True;
          report = add_if (full \<or> active_bhvs \<noteq> getActiveBehaviors prep True) ('',active_bhvs='' @ or_none active_bhvs) report;
          idle_bhvs = getIdleBehaviors r True;
          report = add_if (full \<or> idle_bhvs \<noteq> getIdleBehaviors prep True) ('',idle_bhvs='' @ or_none idle_bhvs) report;
          completed_bhvs = getCompletedBehaviors r True;
          report = add_if (full \<or> completed_bhvs \<noteq> getCompletedBehaviors prep True)
            ('',completed_bhvs='' @ (if completed_bhvs = '''' then if getCompletedBehaviors prep True = '''' then ''none'' else ''''
                                     else completed_bhvs)) report;
          domain_str = domainToString (m_report_domain r) True;
          report = add_if (full \<or> domain_str \<noteq> getDomainString prep) ('',ivpdomain='' @ [QUOTE] @ domain_str @ [QUOTE]) report
      in add_if (full \<or> m_halt_message r \<noteq> m_halt_message prep) ('',halt_msg='' @ or_none (m_halt_message r)) report)"

definition getReportAsString :: "helm_report \<Rightarrow> string" where
  "getReportAsString r = getReportAsString_from r HelmReport_new True"

section \<open>Reading the text of a report\<close>

text \<open>One behavior of a list: three fields for most lists, seven for the active ones.\<close>

definition read_bhv :: "(string \<Rightarrow> real \<Rightarrow> string \<Rightarrow> helm_report \<Rightarrow> helm_report) \<Rightarrow> helm_report \<Rightarrow> string \<Rightarrow> helm_report" where
  "read_bhv add report bhv =
     (let (descriptor, bhv) = biteStringX bhv (CHR ''$'');
          (time, bhv) = biteStringX bhv (CHR ''$'');
          (upds, bhv) = biteStringX bhv (CHR ''$'')
      in add descriptor (atof time) upds report)"

definition read_active :: "helm_report \<Rightarrow> string \<Rightarrow> helm_report" where
  "read_active report bhv =
     (let (descriptor, bhv) = biteStringX bhv (CHR ''$'');
          (time, bhv) = biteStringX bhv (CHR ''$'');
          (pwt, bhv) = biteStringX bhv (CHR ''$'');
          (pcs, bhv) = biteStringX bhv (CHR ''$'');
          (cpu, bhv) = biteStringX bhv (CHR ''$'');
          (upds, ipfs) = biteStringX bhv (CHR ''$'')
      in addActiveBHV descriptor (atof time) (atof pwt) (atoi pcs) (atof cpu) upds (nat (atoi ipfs mod 2 ^ 32)) report)"

definition to_uint :: "int \<Rightarrow> nat" where
  "to_uint i = nat (i mod 2 ^ 32)"

text \<open>One field; the flag tells whether a decision was read before.\<close>

definition read_field :: "helm_report \<times> bool \<Rightarrow> string \<Rightarrow> string \<Rightarrow> helm_report \<times> bool" where
  "read_field st left right =
     (case st of (report, new_decision) \<Rightarrow>
        if left = ''iter'' then (report\<lparr>m_iteration := to_uint (atoi right)\<rparr>, new_decision)
        else if left = ''ofnum'' then (report\<lparr>m_report_ofnum := to_uint (atoi right)\<rparr>, new_decision)
        else if left = ''warnings'' then (report\<lparr>m_warning_count := to_uint (atoi right)\<rparr>, new_decision)
        else if left = ''solve_time'' then (report\<lparr>m_solve_time := atof right\<rparr>, new_decision)
        else if left = ''create_time'' then (report\<lparr>m_create_time := atof right\<rparr>, new_decision)
        else if left = ''max_create_time'' then (report\<lparr>m_max_create_time := atof right\<rparr>, new_decision)
        else if left = ''max_solve_time'' then (report\<lparr>m_max_solve_time := atof right\<rparr>, new_decision)
        else if left = ''max_loop_time'' then (report\<lparr>m_max_loop_time := atof right\<rparr>, new_decision)
        else if left = ''utc_time'' then (report\<lparr>m_time_utc := atof right\<rparr>, new_decision)
        else if left = ''var''
        then let report = (if \<not> new_decision then clearDecisions report else report);
                 (var, right) = biteStringX right (CHR '':'')
             in (addDecision var (atof right) report, True)
        else if left = ''halted'' then (report\<lparr>m_halted := (right = ''true'')\<rparr>, new_decision)
        else if left = ''modes'' then (report\<lparr>m_modes := right\<rparr>, new_decision)
        else if left = ''ivpdomain'' then (report\<lparr>m_report_domain := stringToDomain (stripQuotes right)\<rparr>, new_decision)
        else if left = ''active_bhvs''
        then (foldl read_active (clearActiveBHVs report) (parseString right (CHR '':'')), new_decision)
        else if left = ''running_bhvs''
        then (foldl (read_bhv addRunningBHV) (clearRunningBHVs report) (parseString right (CHR '':'')), new_decision)
        else if left = ''idle_bhvs''
        then (foldl (read_bhv addIdleBHV) (clearIdleBHVs report) (parseString right (CHR '':'')), new_decision)
        else if left = ''completed_bhvs''
        then (foldl (read_bhv addCompletedBHV)
                (if strContains (getCompletedBehaviors report True) ''none'' then clearCompletedBHVs report else report)
                (parseString right (CHR '':'')), new_decision)
        else if left = ''halt_msg'' then (report\<lparr>m_halt_message := right\<rparr>, new_decision)
        else st)"

definition string2HelmReport_from :: "string \<Rightarrow> helm_report \<Rightarrow> helm_report" where
  "string2HelmReport_from str prior_report =
     fst (foldl (\<lambda>st s. case biteStringX s (CHR ''='') of (left, right) \<Rightarrow> read_field st left right)
            (prior_report, False) (parseStringQ str (CHR '','')))"

definition string2HelmReport :: "string \<Rightarrow> helm_report" where
  "string2HelmReport str = string2HelmReport_from str HelmReport_new"

section \<open>The summary for people\<close>

definition bracketed :: "string list \<Rightarrow> real list \<Rightarrow> real \<Rightarrow> string" where
  "bracketed desc time curr_time =
     foldl (\<lambda>str i. (if i > 0 then str @ '', '' else str) @ desc ! i @ ''['' @ timeInState curr_time (time ! i) @ '']'')
       ''  '' [0..<length desc]"

definition formattedSummary :: "helm_report \<Rightarrow> real \<Rightarrow> bool \<Rightarrow> string list option" where
  "formattedSummary r curr_time verbose =
     (findReplace (''['' @ domainToString (m_report_domain r) True @ '']'') '':'' ''] ['' \<bind> (\<lambda>domain_str.
        Some
         ([''  Helm Iteration: '' @ uintToString (m_iteration r),
           ''  IvP Functions:  '' @ uintToString (m_report_ofnum r),
           ''  Mode(s):        '' @ m_modes r,
           ''  SolveTime:   '' @ doubleToString (m_solve_time r) 2 @ ''   (max='' @ doubleToString (m_max_solve_time r) 2 @ '')'',
           ''  CreateTime:  '' @ doubleToString (m_create_time r) 2 @ ''   (max='' @ doubleToString (m_max_create_time r) 2 @ '')'',
           ''  LoopTime:    '' @ doubleToString (getLoopTime r) 2 @ ''   (max='' @ doubleToString (m_max_loop_time r) 2 @ '')'',
           ''  Halted:         '' @ boolToString (m_halted r) @ ''   ('' @ uintToString (m_warning_count r) @ '' warnings)'',
           ''Helm Decision: '' @ domain_str] @
          map (\<lambda>i. let varname = getVarName (m_report_domain r) i
                   in case m_decisions r varname of None \<Rightarrow> ''  '' @ varname @ '' = no-decision''
                      | Some v \<Rightarrow> ''  '' @ varname @ '' = '' @ doubleToStringX v 5) [0..<dom_size (m_report_domain r)] @
          [''Behaviors Active: ---------- ('' @ uintToString (length (m_bhvs_active_desc r)) @ '')''] @
          map (\<lambda>i. ''  '' @ m_bhvs_active_desc r ! i @
                 '' ['' @ timeInState curr_time (m_bhvs_active_time r ! i) @ '']'' @
                 '' (pwt='' @ doubleToStringX (m_bhvs_active_pwt r ! i) 5 @ '')'' @
                 '' (pcs='' @ intToString (m_bhvs_active_pcs r ! i) @ '')'' @
                 '' (cpu='' @ doubleToStringX (m_bhvs_active_cpu r ! i) 5 @ '')'' @
                 '' (upd='' @ m_bhvs_active_upds r ! i @ '')'') [0..<length (m_bhvs_active_desc r)] @
          [''Behaviors Running: --------- ('' @ uintToString (length (m_bhvs_running_desc r)) @ '')''] @
          map (\<lambda>i. ''  '' @ m_bhvs_running_desc r ! i @ '' ['' @ timeInState curr_time (m_bhvs_running_time r ! i) @ '']'')
            [0..<length (m_bhvs_running_desc r)] @
          [''Behaviors Idle: ------------ ('' @ uintToString (length (m_bhvs_idle_desc r)) @ '')''] @
          (if verbose
           then map (\<lambda>i. ''  '' @ m_bhvs_idle_desc r ! i @ '' ['' @ timeInState curr_time (m_bhvs_idle_time r ! i) @ '']'')
                  [0..<length (m_bhvs_idle_desc r)]
           else [bracketed (m_bhvs_idle_desc r) (m_bhvs_idle_time r) curr_time]) @
          [''Behaviors Completed: ------- ('' @ uintToString (length (m_bhvs_completed_desc r)) @ '')''] @
          (if verbose
           then map (\<lambda>i. ''  {'' @ m_bhvs_completed_desc r ! i @ ''}'' @
                       '' ['' @ timeInState curr_time (m_bhvs_completed_time r ! i) @ '']'') [0..<length (m_bhvs_completed_desc r)]
           else if length (m_bhvs_completed_desc r) > 0
           then [bracketed (m_bhvs_completed_desc r) (m_bhvs_completed_time r) curr_time]
           else []))))"


end
