(* ===== verification/Report_Text.thy ===== *)
theory Report_Text
  imports Helm_Report
begin

text \<open>
  The text of a helm report and its reader, \<open>getReportAsString\<close> and \<open>string2HelmReport\<close>: the fields
  between commas, the quotes that protect the domain, the lists of behaviors between colons and dollar
  signs, and what of a report comes back. \<open>plain_report\<close> says which reports can be told apart in
  their text: no name holds a separator, a quote or a brace, and names and messages have no blank ends.
\<close>

section \<open>Splitting protected fields\<close>

text \<open>A field that a scanner passes in one piece and leaves in the state it began with.\<close>

definition whole_field :: "('s \<Rightarrow> bool) \<Rightarrow> ('s \<Rightarrow> char \<Rightarrow> 's) \<Rightarrow> char \<Rightarrow> 's \<Rightarrow> string \<Rightarrow> bool" where
  "whole_field prot step sep st x \<longleftrightarrow> (\<forall>r. scan_field prot step sep st (x @ sep # r) = (x, sep # r, st)) \<and>
     scan_field prot step sep st x = (x, [], st)"

lemma split_whole_fields:
  assumes "\<not> prot st" "\<forall>x\<in>set xs. whole_field prot step sep st x" "xs = [] \<or> last xs \<noteq> []"
  shows "split_scan prot step sep st (joined sep xs) = xs"
  using assms(2,3)
proof (induction sep xs rule: joined.induct)
  case (2 sep x)
  then show ?case by (subst split_scan.simps) (simp add: whole_field_def skip_sep_def)
next
  case (3 sep x y r)
  then have "split_scan prot step sep st (joined sep (y # r)) = y # r" by simp
  with 3 show ?case by (subst split_scan.simps) (simp add: whole_field_def skip_sep_def)
qed simp

abbreviation q0 :: qstate where "q0 \<equiv> \<lparr>in_quotes = False, brace_count = 0\<rparr>"

text \<open>Text without separators, quotes and braces, and such text in quotes.\<close>

definition clean :: "string \<Rightarrow> bool" where
  "clean s \<longleftrightarrow> set s \<inter> {NUL, CHR '','', QUOTE, CHR ''{'', CHR ''}''} = {} \<and> trimmed s = s"

lemma scan_clean:
  assumes "set x \<inter> {CHR '','', QUOTE, CHR ''{'', CHR ''}''} = {}"
  shows "scan_field q_prot q_step (CHR '','') q0 (x @ r) =
    (case scan_field q_prot q_step (CHR '','') q0 r of (f, s, st) \<Rightarrow> (x @ f, s, st))"
  using assms by (induction x) (auto simp: q_step_def split: prod.splits)

lemma scan_quoted:
  assumes "set x \<inter> {QUOTE, CHR ''{'', CHR ''}''} = {}"
  shows "scan_field q_prot q_step (CHR '','') \<lparr>in_quotes = True, brace_count = 0\<rparr> (x @ QUOTE # r) =
    (case scan_field q_prot q_step (CHR '','') q0 r of (f, s, st) \<Rightarrow> (x @ QUOTE # f, s, st))"
  using assms by (induction x) (auto simp: q_step_def q_prot_def split: prod.splits)

lemma whole_clean: "set x \<inter> {CHR '','', QUOTE, CHR ''{'', CHR ''}''} = {} \<Longrightarrow> whole_field q_prot q_step (CHR '','') q0 x"
  using scan_clean [of x "[]"] scan_clean [of x "CHR '','' # r" for r] by (simp add: whole_field_def q_prot_def)

lemma whole_quoted:
  assumes "set x \<inter> {CHR '','', QUOTE, CHR ''{'', CHR ''}''} = {}" "set y \<inter> {QUOTE, CHR ''{'', CHR ''}''} = {}"
  shows "whole_field q_prot q_step (CHR '','') q0 (x @ QUOTE # y @ [QUOTE])"
proof -
  have "scan_field q_prot q_step (CHR '','') q0 (QUOTE # y @ QUOTE # r) =
      (case scan_field q_prot q_step (CHR '','') q0 r of (f, s, st) \<Rightarrow> (QUOTE # y @ QUOTE # f, s, st))" for r
    using scan_quoted [OF assms(2), of r] by (simp add: q_step_def split: prod.splits)
  from this [of "[]"] this [of "CHR '','' # r" for r] show ?thesis
    by (simp add: whole_field_def scan_clean [OF assms(1)] q_prot_def)
qed

lemma parseStringQ_whole:
  assumes "\<forall>x\<in>set xs. whole_field q_prot q_step (CHR '','') q0 x \<and> NUL \<notin> set x" "xs = [] \<or> last xs \<noteq> []"
  shows "parseStringQ (joined (CHR '','') xs) (CHR '','') = xs"
proof -
  have "NUL \<notin> set (joined (CHR '','') xs)" using set_joined [of "CHR '',''" xs] assms(1) by auto
  then show ?thesis using split_whole_fields [of q_prot q0 xs q_step "CHR '',''"] assms
    by (simp add: parseStringQ_def q_prot_def)
qed

section \<open>Biting fields\<close>

lemma chr_find_app: "c \<notin> set a \<Longrightarrow> chr_find (a @ c # b) c = Some (length a)"
  unfolding chr_find_def find_upt_Some by (auto simp: nth_append)

lemma biteString_app: "c \<notin> set a \<Longrightarrow> biteString (a @ c # b) c = (a, b)"
  by (cases b) (simp_all add: biteString_def chr_find_app)

lemma strip_clean: "trimmed s = s \<Longrightarrow> NUL \<notin> set s \<Longrightarrow> stripBlankEnds s = s"
  by (simp add: stripBlankEnds_trimmed)

lemma biteStringX_app:
  assumes "c \<notin> set a" "trimmed a = a" "NUL \<notin> set a" "NUL \<notin> set b" "trimmed b = b"
  shows "biteStringX (a @ c # b) c = (a, b)"
  using assms by (simp add: biteStringX_def biteString_app strip_clean)

lemma biteStringX_none:
  assumes "c \<notin> set a" "trimmed a = a" "NUL \<notin> set a"
  shows "biteStringX a c = (a, [])"
proof -
  have "chr_find a c = None" using assms(1) by (simp add: chr_find_None)
  moreover have "stripBlankEnds [] = []" by code_simp
  ultimately show ?thesis using assms by (cases a) (simp_all add: biteStringX_def biteString_def strip_clean)
qed

lemma trimmed_cat: "trimmed a = a \<Longrightarrow> trimmed b = b \<Longrightarrow> \<not> back_blank c \<Longrightarrow> trimmed (a @ c # b) = a @ c # b"
proof -
  assume h: "trimmed a = a" "trimmed b = b" "\<not> back_blank c"
  have "\<not> front_blank c" using h(3) front_back_blank by blast
  then have "\<not> front_blank (hd (a @ c # b))" using trimmed_ends [of a] h(1) by (cases a) auto
  moreover have "\<not> back_blank (last (a @ c # b))" using trimmed_ends [of b] h(2,3) by (cases b) auto
  ultimately show ?thesis by (intro trimmed_id) blast
qed


section \<open>Lists of behaviors\<close>

lemma joined_fields_loop: "foldl (\<lambda>s i. (if i > 0 then s @ [sep] else s) @ f i) [] [0..<n] = joined sep (map f [0..<n])"
proof -
  have "foldl (\<lambda>s i. (if i > 0 then s @ [sep] else s) @ f i) [] [0..<n] =
      foldl (\<lambda>s i. (if i > 0 then s @ [sep] else s) @ map f [0..<n] ! i) [] [0..<length (map f [0..<n])]"
    by (rule foldl_cong) simp_all
  also have "\<dots> = joined sep (map f [0..<n])" using svectorToString_joined [of "map f [0..<n]" sep] by (simp add: svectorToString_def)
  finally show ?thesis .
qed

text \<open>Text that can stand in a field of a behavior.\<close>

definition bhv_text :: "string \<Rightarrow> bool" where
  "bhv_text s \<longleftrightarrow> clean s \<and> CHR '':'' \<notin> set s \<and> CHR ''$'' \<notin> set s"

definition entry_text :: "string \<times> real \<times> string \<Rightarrow> string" where
  "entry_text e = fst e @ CHR ''$'' # printf_f 2 (fst (snd e)) @ CHR ''$'' # snd (snd e)"

definition active_text :: "string \<times> real \<times> real \<times> int \<times> real \<times> string \<times> nat \<Rightarrow> string" where
  "active_text e = (case e of (desc, time, pwt, pcs, cpu, upds, ipfs) \<Rightarrow>
     desc @ CHR ''$'' # printf_f 2 time @ CHR ''$'' # printf_f 5 pwt @ CHR ''$'' # int_str pcs @ CHR ''$'' # printf_f 5 cpu @
     CHR ''$'' # upds @ CHR ''$'' # nat_str ipfs)"

lemma numeral_like: "set s \<subseteq> {c. is_digit c} \<union> {CHR ''-'', CHR ''.''} \<Longrightarrow> bhv_text s"
proof -
  assume h: "set s \<subseteq> {c. is_digit c} \<union> {CHR ''-'', CHR ''.''}"
  have a: "c \<notin> {NUL, CHR '','', CHR '':'', CHR ''$'', QUOTE, CHR ''{'', CHR ''}''} \<and> \<not> front_blank c \<and> \<not> back_blank c" if "c \<in> set s" for c
    using h that is_digit_not [of c] by (auto simp: front_blank_def back_blank_def)
  then have "s = [] \<or> \<not> front_blank (hd s) \<and> \<not> back_blank (last s)" by (cases "s = []") simp_all
  then show ?thesis using a trimmed_id [of s] by (auto simp: bhv_text_def clean_def)
qed

lemma numeral_text: "bhv_text (printf_f d x)" "bhv_text (int_str i)" "bhv_text (nat_str n)"
proof -
  show "bhv_text (printf_f d x)" by (rule numeral_like [OF printf_f_chars])
  show "bhv_text (int_str i)" by (rule numeral_like) (auto simp: int_str_def dest: nat_str_clean)
  show "bhv_text (nat_str n)" by (rule numeral_like) (auto dest: nat_str_clean)
qed

lemma bhv_text_bite: "bhv_text a \<Longrightarrow> NUL \<notin> set b \<Longrightarrow> trimmed b = b \<Longrightarrow> biteStringX (a @ CHR ''$'' # b) (CHR ''$'') = (a, b)"
  by (rule biteStringX_app) (auto simp: bhv_text_def clean_def)

lemma bhv_text_bite_end: "bhv_text a \<Longrightarrow> biteStringX a (CHR ''$'') = (a, [])"
  by (rule biteStringX_none) (auto simp: bhv_text_def clean_def)

text \<open>Text without separators that is trimmed and holds dollar signs only between texts.\<close>

lemma dollar_cat:
  assumes "bhv_text a" "NUL \<notin> set b" "trimmed b = b"
  shows "NUL \<notin> set (a @ CHR ''$'' # b)" "trimmed (a @ CHR ''$'' # b) = a @ CHR ''$'' # b"
  using assms trimmed_cat [of a b "CHR ''$''"] by (auto simp: bhv_text_def clean_def back_blank_def)

lemma bhv_text_facts: "bhv_text a \<Longrightarrow> NUL \<notin> set a" "bhv_text a \<Longrightarrow> trimmed a = a"
  by (auto simp: bhv_text_def clean_def)

lemma read_entry:
  assumes "bhv_text (fst e)" "bhv_text (snd (snd e))"
  shows "read_bhv add r (entry_text e) = add (fst e) (atof (printf_f 2 (fst (snd e)))) (snd (snd e)) r"
proof -
  note n = numeral_text(1) [of 2 "fst (snd e)"]
  note u = bhv_text_facts [OF assms(2)]
  note d = dollar_cat [OF n u]
  show ?thesis
    unfolding entry_text_def read_bhv_def
    by (simp add: bhv_text_bite [OF assms(1) d, simplified] bhv_text_bite [OF n u, simplified] bhv_text_bite_end [OF assms(2)])
qed

lemma read_active_entry:
  assumes "bhv_text desc" "bhv_text upds" "ipfs < 2 ^ 31"
  shows "read_active r (active_text (desc, time, pwt, pcs, cpu, upds, ipfs)) =
    addActiveBHV desc (atof (printf_f 2 time)) (atof (printf_f 5 pwt)) pcs (atof (printf_f 5 cpu)) upds ipfs r"
proof -
  note i = bhv_text_facts [OF numeral_text(3) [of ipfs]]
  note u = dollar_cat [OF assms(2) i]
  note c = dollar_cat [OF numeral_text(1) [of 5 cpu] u]
  note p = dollar_cat [OF numeral_text(2) [of pcs] c]
  note w = dollar_cat [OF numeral_text(1) [of 5 pwt] p]
  note t = dollar_cat [OF numeral_text(1) [of 2 time] w]
  have a: "nat (atoi (nat_str ipfs) mod 2 ^ 32) = ipfs"
    using atoi_int_str [of "int ipfs"] assms(3) by (simp add: int_str_def)
  show ?thesis
    unfolding active_text_def prod.case read_active_def bhv_text_bite [OF assms(1) t] Let_def
      bhv_text_bite [OF numeral_text(1) w] bhv_text_bite [OF numeral_text(1) p] bhv_text_bite [OF numeral_text(2) c]
      bhv_text_bite [OF numeral_text(1) u] bhv_text_bite [OF assms(2) i] a atoi_int_str ..
qed

lemma colon_free: "bhv_text (fst e) \<Longrightarrow> bhv_text (snd (snd e)) \<Longrightarrow> CHR '':'' \<notin> set (entry_text e) \<and> NUL \<notin> set (entry_text e) \<and>
    entry_text e \<noteq> [] \<and> entry_text e \<noteq> ''none''"
proof -
  assume h: "bhv_text (fst e)" "bhv_text (snd (snd e))"
  have "CHR ''$'' \<in> set (entry_text e)" by (simp add: entry_text_def)
  then have "entry_text e \<noteq> [] \<and> entry_text e \<noteq> ''none''" by auto
  then show ?thesis using h numeral_text(1) [of 2 "fst (snd e)"] by (auto simp: entry_text_def bhv_text_def clean_def)
qed

lemma doubleToString_small: "v \<le> 2 ^ 128 \<Longrightarrow> 0 \<le> d \<Longrightarrow> d \<le> 9 \<Longrightarrow> doubleToString v d = printf_f (nat d) v"
  by (simp add: doubleToString_def)

text \<open>The entries of a list, and the list read back.\<close>

definition entries :: "string list \<Rightarrow> real list \<Rightarrow> string list \<Rightarrow> (string \<times> real \<times> string) list" where
  "entries desc time upds = zip desc (zip time upds)"

lemma entries_nth: "length time = length desc \<Longrightarrow> length upds = length desc \<Longrightarrow> i < length desc \<Longrightarrow>
    entries desc time upds ! i = (desc ! i, time ! i, upds ! i)"
  by (simp add: entries_def)

lemma bhv_list_text:
  assumes "length time = length desc" "length upds = length desc" "\<forall>t\<in>set time. t \<le> 2 ^ 128"
  shows "bhv_list desc time upds True = joined (CHR '':'') (map entry_text (entries desc time upds))"
proof -
  have t: "doubleToString (time ! i) 2 = printf_f 2 (time ! i)" if "i < length desc" for i
    using assms that by (simp add: doubleToString_small)
  have m: "map entry_text (entries desc time upds) = map (\<lambda>i. desc ! i @ ''$'' @ doubleToString (time ! i) 2 @ ''$'' @ upds ! i) [0..<length desc]"
    by (rule nth_equalityI) (use assms(1,2) t in \<open>simp_all add: entries_def entry_text_def\<close>)
  have "foldl (\<lambda>s i. (if i > 0 then s @ '':'' else s) @ (desc ! i @ ''$'' @ doubleToString (time ! i) 2 @ ''$'' @ upds ! i)) [] [0..<length desc] =
      joined (CHR '':'') (map entry_text (entries desc time upds))"
    unfolding m by (rule joined_fields_loop)
  moreover have "joined (CHR '':'') (map entry_text (entries desc time upds)) \<noteq> ''none''"
  proof (cases "entries desc time upds")
    case (Cons e es)
    have "CHR ''$'' \<in> set (joined (CHR '':'') (map entry_text (entries desc time upds)))"
      unfolding Cons by (cases es) (simp_all add: entry_text_def)
    then show ?thesis by auto
  qed simp
  ultimately show ?thesis by (simp add: bhv_list_def)
qed
lemma or_none_list: "\<forall>e\<in>set es. f e \<noteq> ([] :: string) \<Longrightarrow>
    or_none (joined (CHR '':'') (map f es)) = joined (CHR '':'') (if es = [] then [''none''] else map f es)"
proof (cases "map f es = []")
  case False
  assume h: "\<forall>e\<in>set es. f e \<noteq> []"
  obtain e es' where "es = e # es'" using False by (cases es) auto
  then have "joined (CHR '':'') (map f es) \<noteq> []" using h by (cases es') auto
  then show ?thesis using False by (auto simp: or_none_def)
qed (simp add: or_none_def)

definition shown :: "(string \<times> real \<times> string) list \<Rightarrow> (string \<times> real \<times> string) list" where
  "shown es = (if es = [] then [(''none'', 0, '''')] else es)"

lemma none_bite: "biteStringX ''none'' (CHR ''$'') = (''none'', '''')" "biteStringX '''' (CHR ''$'') = ('''', '''')"
  "parseString ''none'' (CHR '':'') = [''none'']" "atof '''' = 0" "atoi '''' = 0"
  by code_simp+

lemma atof_zero: "atof (printf_f d 0) = 0"
  by (simp add: atof_printf_f printed_def round_even_def)

lemma read_list:
  assumes "\<forall>e\<in>set es. bhv_text (fst e) \<and> bhv_text (snd (snd e))"
  shows "foldl (read_bhv add) r (parseString (or_none (joined (CHR '':'') (map entry_text es))) (CHR '':'')) =
    foldl (\<lambda>r e. add (fst e) (atof (printf_f 2 (fst (snd e)))) (snd (snd e)) r) r (shown es)"
proof (cases "es = []")
  case True
  then show ?thesis by (simp add: or_none_def none_bite atof_zero read_bhv_def shown_def)
next
  case False
  have "parseString (joined (CHR '':'') (map entry_text es)) (CHR '':'') = map entry_text es"
    by (rule parse_joined) (use assms colon_free False in \<open>auto simp: last_map\<close>)
  moreover have "or_none (joined (CHR '':'') (map entry_text es)) = joined (CHR '':'') (map entry_text es)"
    using or_none_list [of es entry_text] colon_free assms False by auto
  moreover have "foldl (read_bhv add) r (map entry_text es) =
      foldl (\<lambda>r e. add (fst e) (atof (printf_f 2 (fst (snd e)))) (snd (snd e)) r) r es"
    unfolding foldl_map by (rule foldl_cong) (use assms read_entry in auto)
  ultimately show ?thesis using False by (simp add: shown_def)
qed

definition round2 :: "real \<Rightarrow> real" where
  "round2 v = atof (printf_f 2 v)"

lemma add_running: "foldl (\<lambda>r e. addRunningBHV (fst e) (f e) (snd (snd e)) r) r es =
   r\<lparr>m_bhvs_running_desc := m_bhvs_running_desc r @ map fst es, m_bhvs_running_time := m_bhvs_running_time r @ map f es,
     m_bhvs_running_upds := m_bhvs_running_upds r @ map (\<lambda>e. snd (snd e)) es\<rparr>"
  by (induction es arbitrary: r) (simp_all add: addRunningBHV_def)

lemma add_idle: "foldl (\<lambda>r e. addIdleBHV (fst e) (f e) (snd (snd e)) r) r es =
   r\<lparr>m_bhvs_idle_desc := m_bhvs_idle_desc r @ map fst es, m_bhvs_idle_time := m_bhvs_idle_time r @ map f es,
     m_bhvs_idle_upds := m_bhvs_idle_upds r @ map (\<lambda>e. snd (snd e)) es\<rparr>"
  by (induction es arbitrary: r) (simp_all add: addIdleBHV_def)

lemma add_completed: "length (m_bhvs_completed_desc r) + length es \<le> 50 \<Longrightarrow> \<forall>e\<in>set es. fst e \<noteq> '''' \<Longrightarrow>
   foldl (\<lambda>r e. addCompletedBHV (fst e) (f e) (snd (snd e)) r) r es =
   r\<lparr>m_bhvs_completed_desc := m_bhvs_completed_desc r @ map fst es, m_bhvs_completed_time := m_bhvs_completed_time r @ map f es,
     m_bhvs_completed_upds := m_bhvs_completed_upds r @ map (\<lambda>e. snd (snd e)) es\<rparr>"
  by (induction es arbitrary: r) (simp_all add: addCompletedBHV_def)

section \<open>Active behaviors\<close>

type_synonym active = "string \<times> real \<times> real \<times> int \<times> real \<times> string \<times> nat"

definition active_entries :: "helm_report \<Rightarrow> active list" where
  "active_entries r = map (\<lambda>i. (m_bhvs_active_desc r ! i, m_bhvs_active_time r ! i, m_bhvs_active_pwt r ! i,
     m_bhvs_active_pcs r ! i, m_bhvs_active_cpu r ! i, m_bhvs_active_upds r ! i, m_bhvs_active_ipfs r ! i))
     [0..<length (m_bhvs_active_desc r)]"

definition shown_active :: "active list \<Rightarrow> active list" where
  "shown_active es = (if es = [] then [(''none'', 0, 0, 0, 0, '''', 0)] else es)"

definition active_ok :: "active \<Rightarrow> bool" where
  "active_ok e \<longleftrightarrow> (case e of (desc, time, pwt, pcs, cpu, upds, ipfs) \<Rightarrow> bhv_text desc \<and> bhv_text upds \<and> ipfs < 2 ^ 31 \<and>
     time \<le> 2 ^ 128 \<and> pwt \<le> 2 ^ 128 \<and> cpu \<le> 2 ^ 128)"

definition add_active :: "helm_report \<Rightarrow> active \<Rightarrow> helm_report" where
  "add_active r e = (case e of (desc, time, pwt, pcs, cpu, upds, ipfs) \<Rightarrow>
     addActiveBHV desc (round2 time) (reread pwt) pcs (reread cpu) upds ipfs r)"

lemma dollar_in_active: "CHR ''$'' \<in> set (active_text e)"
  by (cases e) (simp add: active_text_def)

lemma active_plain: "active_ok e \<Longrightarrow> CHR '':'' \<notin> set (active_text e) \<and> NUL \<notin> set (active_text e) \<and> active_text e \<noteq> []"
  using numeral_text dollar_in_active [of e]
  by (fastforce simp: active_ok_def active_text_def bhv_text_def clean_def split: prod.splits)

lemma active_list_text:
  assumes "\<forall>e\<in>set (active_entries r). active_ok e"
  shows "getActiveBehaviors r True = joined (CHR '':'') (map active_text (active_entries r))"
proof -
  define f where "f i = m_bhvs_active_desc r ! i @ ''$'' @ doubleToString (m_bhvs_active_time r ! i) 2 @
      ''$'' @ doubleToString (m_bhvs_active_pwt r ! i) 5 @ ''$'' @ intToString (m_bhvs_active_pcs r ! i) @
      ''$'' @ doubleToString (m_bhvs_active_cpu r ! i) 5 @ ''$'' @ m_bhvs_active_upds r ! i @
      ''$'' @ uintToString (m_bhvs_active_ipfs r ! i)" for i
  have t: "f i = active_text (active_entries r ! i)" if i: "i < length (m_bhvs_active_desc r)" for i
  proof -
    have "active_entries r ! i \<in> set (active_entries r)" using i by (simp add: active_entries_def)
    with assms have "active_ok (active_entries r ! i)" by blast
    then have "m_bhvs_active_time r ! i \<le> 2 ^ 128" "m_bhvs_active_pwt r ! i \<le> 2 ^ 128" "m_bhvs_active_cpu r ! i \<le> 2 ^ 128"
      using i by (simp_all add: active_entries_def active_ok_def)
    then have "doubleToString (m_bhvs_active_time r ! i) 2 = printf_f 2 (m_bhvs_active_time r ! i)"
      "doubleToString (m_bhvs_active_pwt r ! i) 5 = printf_f 5 (m_bhvs_active_pwt r ! i)"
      "doubleToString (m_bhvs_active_cpu r ! i) 5 = printf_f 5 (m_bhvs_active_cpu r ! i)" by (simp_all add: doubleToString_def)
    then show ?thesis using i
      by (simp add: f_def active_text_def active_entries_def intToString_def uintToString_def)
  qed
  have m: "map active_text (active_entries r) = map f [0..<length (m_bhvs_active_desc r)]"
    by (rule nth_equalityI) (simp_all add: t active_entries_def)
  have "foldl (\<lambda>s i. (if i > 0 then s @ [CHR '':''] else s) @ f i) [] [0..<length (m_bhvs_active_desc r)] =
      joined (CHR '':'') (map active_text (active_entries r))"
    unfolding m by (rule joined_fields_loop)
  moreover have "joined (CHR '':'') (map active_text (active_entries r)) \<noteq> ''none''"
  proof (cases "active_entries r")
    case (Cons e es)
    have "CHR ''$'' \<in> set (joined (CHR '':'') (map active_text (active_entries r)))"
      unfolding Cons by (cases es) (simp_all add: dollar_in_active)
    then show ?thesis by auto
  qed simp
  ultimately show ?thesis by (simp add: getActiveBehaviors_def f_def)
qed

lemma read_actives:
  assumes "\<forall>e\<in>set es. active_ok e"
  shows "foldl read_active r (parseString (or_none (joined (CHR '':'') (map active_text es))) (CHR '':'')) =
    foldl add_active r (shown_active es)"
proof (cases "es = []")
  case True
  then show ?thesis
    by (simp add: or_none_def none_bite atof_zero read_active_def shown_active_def add_active_def round2_def reread_def)
next
  case False
  have "parseString (joined (CHR '':'') (map active_text es)) (CHR '':'') = map active_text es"
    by (rule parse_joined) (use assms active_plain False in \<open>auto simp: last_map\<close>)
  moreover have "or_none (joined (CHR '':'') (map active_text es)) = joined (CHR '':'') (map active_text es)"
    using or_none_list [of es active_text] active_plain assms False by auto
  moreover have "read_active r (active_text e) = add_active r e" if "active_ok e" for r e
    using that read_active_entry by (auto simp: active_ok_def add_active_def round2_def reread_def split: prod.splits)
  then have "foldl read_active r (map active_text es) = foldl add_active r es"
    unfolding foldl_map by (intro foldl_cong) (use assms in auto)
  ultimately show ?thesis using False by (simp add: shown_active_def)
qed

section \<open>Decisions\<close>

definition dec_text :: "helm_report \<Rightarrow> string \<Rightarrow> string" where
  "dec_text r v = (case m_decisions r v of None \<Rightarrow> ''varbalk'' | Some x \<Rightarrow> doubleToStringX x 5)"

definition dec_val :: "helm_report \<Rightarrow> string \<Rightarrow> real" where
  "dec_val r v = (case m_decisions r v of None \<Rightarrow> 0 | Some x \<Rightarrow> reread x)"

lemma doubleToStringX_value: "v \<le> 2 ^ 128 \<Longrightarrow> atof (doubleToStringX v 5) = reread v"
  by (simp add: doubleToStringX_compact compact_value)

lemma dec_text_facts:
  assumes "\<forall>x. m_decisions r v = Some x \<longrightarrow> x \<le> 2 ^ 128"
  shows "bhv_text (dec_text r v)" "atof (dec_text r v) = dec_val r v"
proof -
  have b: "bhv_text ''varbalk''" "atof ''varbalk'' = 0" "bhv_text ''0''" by code_simp+
  have "bhv_text (doubleToStringX x 5)" if "x \<le> 2 ^ 128" for x
    using numeral_like [OF compact_chars [OF that]] b(3) by (simp add: doubleToStringX_def Let_def)
  then show "bhv_text (dec_text r v)" using b assms by (auto simp: dec_text_def split: option.splits)
  show "atof (dec_text r v) = dec_val r v"
    using b assms doubleToStringX_value by (auto simp: dec_text_def dec_val_def split: option.splits)
qed

definition field :: "string \<Rightarrow> string \<Rightarrow> string" where
  "field k v = k @ CHR ''='' # v"

definition dec_fields :: "helm_report \<Rightarrow> string list" where
  "dec_fields r = (if dom_size (m_report_domain r) = 0 then [''''] else
     map (\<lambda>v. field ''var'' (v @ CHR '':'' # dec_text r v)) (m_dname (m_report_domain r)))"

lemma decision_summary: "getDecisionSummary r = joined (CHR '','') (dec_fields r)"
proof -
  have m: "map (\<lambda>v. field ''var'' (v @ CHR '':'' # dec_text r v)) (m_dname (m_report_domain r)) =
      map (\<lambda>i. let varname = getVarName (m_report_domain r) i
          in ''var='' @ varname @ '':'' @ (case m_decisions r varname of None \<Rightarrow> ''varbalk'' | Some v \<Rightarrow> doubleToStringX v 5))
        [0..<dom_size (m_report_domain r)]"
    by (rule nth_equalityI) (simp_all add: dom_size_def getVarName_def field_def dec_text_def Let_def)
  show ?thesis unfolding getDecisionSummary_def joined_fields_loop m [symmetric] dec_fields_def by (simp add: dom_size_def)
qed

lemma field_bite:
  assumes "CHR ''='' \<notin> set k" "clean k" "NUL \<notin> set v" "trimmed v = v"
  shows "biteStringX (field k v) (CHR ''='') = (k, v)"
  unfolding field_def by (rule biteStringX_app) (use assms in \<open>auto simp: clean_def\<close>)

definition step :: "helm_report \<times> bool \<Rightarrow> string \<Rightarrow> helm_report \<times> bool" where
  "step st s = (case biteStringX s (CHR ''='') of (left, right) \<Rightarrow> read_field st left right)"

lemma step_field: "CHR ''='' \<notin> set k \<Longrightarrow> clean k \<Longrightarrow> NUL \<notin> set v \<Longrightarrow> trimmed v = v \<Longrightarrow> step st (field k v) = read_field st k v"
  by (simp add: step_def field_bite)

lemma step_empty: "step st '''' = st"
proof -
  have "biteStringX '''' (CHR ''='') = ('''', '''')" by code_simp
  then show ?thesis by (simp add: step_def read_field_def split: prod.splits)
qed

text \<open>Names that can stand before a decision.\<close>

definition dec_ok :: "helm_report \<Rightarrow> string \<Rightarrow> bool" where
  "dec_ok r v \<longleftrightarrow> clean v \<and> CHR '':'' \<notin> set v \<and> (\<forall>x. m_decisions r v = Some x \<longrightarrow> x \<le> 2 ^ 128)"

lemma step_var:
  assumes "dec_ok r v"
  shows "step (q, b) (field ''var'' (v @ CHR '':'' # dec_text r v)) =
    (addDecision v (dec_val r v) (if b then q else clearDecisions q), True)"
proof -
  have d: "bhv_text (dec_text r v)" "atof (dec_text r v) = dec_val r v"
    using dec_text_facts assms by (auto simp: dec_ok_def)
  have v: "trimmed v = v" "NUL \<notin> set v" "CHR '':'' \<notin> set v" using assms by (auto simp: dec_ok_def clean_def)
  have t: "NUL \<notin> set (v @ CHR '':'' # dec_text r v)" "trimmed (v @ CHR '':'' # dec_text r v) = v @ CHR '':'' # dec_text r v"
    using trimmed_cat [of v "dec_text r v" "CHR '':''"] v d by (auto simp: back_blank_def bhv_text_def clean_def)
  have k: "clean ''var''" by code_simp
  have "biteStringX (v @ CHR '':'' # dec_text r v) (CHR '':'') = (v, dec_text r v)"
    by (rule biteStringX_app) (use v d bhv_text_facts in auto)
  then show ?thesis using step_field [OF _ k t] d(2) by (simp add: read_field_def)
qed

lemma steps_var: "vs \<noteq> [] \<Longrightarrow> \<forall>v\<in>set vs. dec_ok r v \<Longrightarrow>
    foldl step (q, False) (map (\<lambda>v. field ''var'' (v @ CHR '':'' # dec_text r v)) vs) =
    (q\<lparr>m_decisions := (\<lambda>v. if v \<in> set vs then Some (dec_val r v) else None)\<rparr>, True)"
proof (induction vs rule: rev_induct)
  case (snoc v vs)
  show ?case
  proof (cases "vs = []")
    case True
    then show ?thesis using snoc.prems by (auto simp: step_var addDecision_def clearDecisions_def fun_eq_iff)
  next
    case False
    with snoc have "foldl step (q, False) (map (\<lambda>v. field ''var'' (v @ CHR '':'' # dec_text r v)) vs) =
        (q\<lparr>m_decisions := (\<lambda>v. if v \<in> set vs then Some (dec_val r v) else None)\<rparr>, True)" by simp
    moreover have "dec_ok r v" using snoc.prems by simp
    ultimately show ?thesis by (auto simp: step_var addDecision_def fun_eq_iff)
  qed
next
  case Nil
  then show ?case by blast
qed

lemma steps_dec_fields:
  assumes "\<forall>v\<in>set (m_dname (m_report_domain r)). dec_ok r v" "m_decisions q = Map.empty"
  shows "\<exists>b. foldl step (q, False) (dec_fields r) =
    (q\<lparr>m_decisions := (\<lambda>v. if v \<in> set (m_dname (m_report_domain r)) then Some (dec_val r v) else None)\<rparr>, b)"
proof (cases "m_dname (m_report_domain r) = []")
  case True
  have "(\<lambda>v. if v \<in> set [] then Some (dec_val r v) else None) = m_decisions q" using assms(2) by auto
  with True show ?thesis by (intro exI [of _ False]) (simp add: dec_fields_def dom_size_def step_empty)
next
  case False
  then show ?thesis using steps_var [OF False assms(1), of q] by (intro exI [of _ True]) (simp add: dec_fields_def dom_size_def)
qed

section \<open>The whole text\<close>

lemma joined_append: "xs \<noteq> [] \<Longrightarrow> ys \<noteq> [] \<Longrightarrow> joined sep (xs @ ys) = joined sep xs @ sep # joined sep ys"
proof (induction sep xs rule: joined.induct)
  case (2 sep x)
  then show ?case by (cases ys) simp_all
qed simp_all

definition head_fields :: "helm_report \<Rightarrow> string list" where
  "head_fields r = [field ''iter'' (nat_str (m_iteration r)), field ''utc_time'' (printf_f 2 (m_time_utc r)),
     field ''ofnum'' (nat_str (m_report_ofnum r)), field ''warnings'' (nat_str (m_warning_count r)),
     field ''solve_time'' (printf_f 2 (m_solve_time r)), field ''create_time'' (printf_f 2 (m_create_time r)),
     field ''max_create_time'' (printf_f 2 (m_max_create_time r)), field ''max_solve_time'' (printf_f 2 (m_max_solve_time r)),
     field ''max_loop_time'' (printf_f 2 (m_max_loop_time r)),
     field ''loop_time'' (printf_f 2 (m_create_time r + m_solve_time r))]"

definition bhv_entries :: "(helm_report \<Rightarrow> string list) \<Rightarrow> (helm_report \<Rightarrow> real list) \<Rightarrow> (helm_report \<Rightarrow> string list) \<Rightarrow>
    helm_report \<Rightarrow> (string \<times> real \<times> string) list" where
  "bhv_entries desc time upds r = entries (desc r) (time r) (upds r)"

abbreviation "running_entries \<equiv> bhv_entries m_bhvs_running_desc m_bhvs_running_time m_bhvs_running_upds"
abbreviation "idle_entries \<equiv> bhv_entries m_bhvs_idle_desc m_bhvs_idle_time m_bhvs_idle_upds"
abbreviation "completed_entries \<equiv> bhv_entries m_bhvs_completed_desc m_bhvs_completed_time m_bhvs_completed_upds"

definition list_value :: "('a \<Rightarrow> string) \<Rightarrow> 'a list \<Rightarrow> string" where
  "list_value f es = or_none (joined (CHR '':'') (map f es))"

definition tail_fields :: "helm_report \<Rightarrow> string list" where
  "tail_fields r = [field ''halted'' (boolToString (m_halted r)), field ''modes'' (or_none (m_modes r)),
     field ''running_bhvs'' (list_value entry_text (running_entries r)),
     field ''active_bhvs'' (list_value active_text (active_entries r)),
     field ''idle_bhvs'' (list_value entry_text (idle_entries r)),
     field ''completed_bhvs'' (list_value entry_text (completed_entries r)),
     field ''ivpdomain'' (QUOTE # domainToString (m_report_domain r) True @ [QUOTE]),
     field ''halt_msg'' (or_none (m_halt_message r))]"

text \<open>A report whose parts can be told apart in its text.\<close>

definition list_ok :: "string list \<Rightarrow> real list \<Rightarrow> string list \<Rightarrow> bool" where
  "list_ok desc time upds \<longleftrightarrow> length time = length desc \<and> length upds = length desc \<and> (\<forall>t\<in>set time. t \<le> 2 ^ 128) \<and>
     (\<forall>s\<in>set desc. bhv_text s) \<and> (\<forall>s\<in>set upds. bhv_text s)"

definition plain_report :: "helm_report \<Rightarrow> bool" where
  "plain_report r \<longleftrightarrow>
     list_ok (m_bhvs_running_desc r) (m_bhvs_running_time r) (m_bhvs_running_upds r) \<and>
     list_ok (m_bhvs_idle_desc r) (m_bhvs_idle_time r) (m_bhvs_idle_upds r) \<and>
     list_ok (m_bhvs_completed_desc r) (m_bhvs_completed_time r) (m_bhvs_completed_upds r) \<and>
     length (m_bhvs_completed_desc r) \<le> 50 \<and> '''' \<notin> set (m_bhvs_completed_desc r) \<and>
     (\<forall>e\<in>set (active_entries r). active_ok e) \<and>
     m_iteration r < 2 ^ 31 \<and> m_report_ofnum r < 2 ^ 31 \<and> m_warning_count r < 2 ^ 31 \<and>
     (\<forall>t\<in>{m_time_utc r, m_solve_time r, m_create_time r, m_max_create_time r, m_max_solve_time r, m_max_loop_time r,
           m_create_time r + m_solve_time r}. t \<le> 2 ^ 128) \<and>
     clean (m_modes r) \<and> clean (m_halt_message r) \<and>
     printable (m_report_domain r) \<and> (\<forall>v\<in>set (m_dname (m_report_domain r)). dec_ok r v)"

lemma list_ok_text: "list_ok desc time upds \<Longrightarrow> bhv_list desc time upds True = joined (CHR '':'') (map entry_text (entries desc time upds))"
  by (rule bhv_list_text) (auto simp: list_ok_def)

lemma list_ok_entries: "list_ok desc time upds \<Longrightarrow> \<forall>e\<in>set (entries desc time upds). bhv_text (fst e) \<and> bhv_text (snd (snd e))"
  by (auto simp: list_ok_def entries_def set_zip)

lemma report_text:
  assumes "plain_report r"
  shows "getReportAsString r = joined (CHR '','') (head_fields r @ dec_fields r @ tail_fields r)"
proof -
  have ne: "dec_fields r \<noteq> []" by (simp add: dec_fields_def dom_size_def)
  have j: "joined (CHR '','') (head_fields r @ dec_fields r @ tail_fields r) =
      joined (CHR '','') (head_fields r) @ CHR '','' # joined (CHR '','') (dec_fields r) @ CHR '','' # joined (CHR '','') (tail_fields r)"
    using joined_append [of "head_fields r" "dec_fields r @ tail_fields r" "CHR '',''"] joined_append [OF ne, of "tail_fields r" "CHR '',''"] ne
    by (simp add: head_fields_def tail_fields_def)
  have l: "getRunningBehaviors r True = joined (CHR '':'') (map entry_text (running_entries r))"
    "getIdleBehaviors r True = joined (CHR '':'') (map entry_text (idle_entries r))"
    "getCompletedBehaviors r True = joined (CHR '':'') (map entry_text (completed_entries r))"
    using assms by (simp_all add: plain_report_def getRunningBehaviors_def getIdleBehaviors_def getCompletedBehaviors_def
        list_ok_text bhv_entries_def)
  have a: "getActiveBehaviors r True = joined (CHR '':'') (map active_text (active_entries r))"
    by (rule active_list_text) (use assms in \<open>simp add: plain_report_def\<close>)
  have c: "(if s = '''' then if getCompletedBehaviors HelmReport_new True = '''' then ''none'' else '''' else s) = or_none s" for s
    by (simp add: getCompletedBehaviors_def bhv_list_def HelmReport_new_def or_none_def)
  have t: "doubleToString v 2 = printf_f 2 v" if "v \<in> {m_time_utc r, m_solve_time r, m_create_time r, m_max_create_time r,
      m_max_solve_time r, m_max_loop_time r, m_create_time r + m_solve_time r}" for v
  proof -
    have "v \<le> 2 ^ 128" using that assms unfolding plain_report_def by blast
    then show ?thesis using doubleToString_small [of v 2] by simp
  qed
  show ?thesis
    unfolding j getReportAsString_def getReportAsString_from_def Let_def c
    by (simp add: add_if_def decision_summary head_fields_def tail_fields_def field_def list_value_def l a t uintToString_def)
qed

section \<open>Reading the whole text\<close>

lemma clean_keys: "clean ''iter''" "clean ''utc_time''" "clean ''ofnum''" "clean ''warnings''" "clean ''solve_time''"
  "clean ''create_time''" "clean ''max_create_time''" "clean ''max_solve_time''" "clean ''max_loop_time''" "clean ''loop_time''"
  "clean ''halted''" "clean ''modes''" "clean ''running_bhvs''" "clean ''active_bhvs''" "clean ''idle_bhvs''"
  "clean ''completed_bhvs''" "clean ''ivpdomain''" "clean ''halt_msg''" "clean ''none''" "clean ''true''" "clean ''false''" "clean ''var''"
  by code_simp+

lemma to_uint_nat: "n < 2 ^ 31 \<Longrightarrow> to_uint (atoi (nat_str n)) = n"
  using atoi_int_str [of "int n"] by (simp add: int_str_def to_uint_def)

lemma steps_head:
  assumes "m_iteration r < 2 ^ 31" "m_report_ofnum r < 2 ^ 31" "m_warning_count r < 2 ^ 31"
  shows "foldl step (q, b) (head_fields r) =
    (q\<lparr>m_iteration := m_iteration r, m_time_utc := round2 (m_time_utc r), m_report_ofnum := m_report_ofnum r,
       m_warning_count := m_warning_count r, m_solve_time := round2 (m_solve_time r), m_create_time := round2 (m_create_time r),
       m_max_create_time := round2 (m_max_create_time r), m_max_solve_time := round2 (m_max_solve_time r),
       m_max_loop_time := round2 (m_max_loop_time r)\<rparr>, b)"
proof -
  note n = bhv_text_facts [OF numeral_text(1)] bhv_text_facts [OF numeral_text(3)]
  show ?thesis
    by (simp add: head_fields_def step_field clean_keys n read_field_def to_uint_nat [OF assms(1)]
        to_uint_nat [OF assms(2)] to_uint_nat [OF assms(3)] round2_def)
qed

lemma clean_cat: "clean a \<Longrightarrow> clean b \<Longrightarrow> c = CHR '':'' \<or> c = CHR ''$'' \<or> c = CHR ''='' \<Longrightarrow> clean (a @ c # b)"
  using trimmed_cat [of a b c] by (auto simp: clean_def back_blank_def)

lemma clean_joined: "\<forall>x\<in>set xs. clean x \<Longrightarrow> clean (joined (CHR '':'') xs)"
proof (induction "CHR '':''" xs rule: joined.induct)
  case 1
  show ?case by code_simp
qed (simp_all add: clean_cat)

lemma bhv_clean: "bhv_text s \<Longrightarrow> clean s"
  by (simp add: bhv_text_def)

lemma clean_or_none: "clean s \<Longrightarrow> clean (or_none s)"
  by (simp add: or_none_def clean_keys)

lemma clean_entries: "\<forall>e\<in>set es. bhv_text (fst e) \<and> bhv_text (snd (snd e)) \<Longrightarrow> clean (list_value entry_text es)"
  unfolding list_value_def
  by (intro clean_or_none clean_joined) (auto simp: entry_text_def bhv_clean numeral_text intro!: clean_cat)

lemma clean_active: "active_ok e \<Longrightarrow> clean (active_text e)"
  by (cases e) (simp add: active_text_def active_ok_def clean_cat bhv_clean numeral_text)

lemma clean_actives: "\<forall>e\<in>set es. active_ok e \<Longrightarrow> clean (list_value active_text es)"
  unfolding list_value_def
  by (intro clean_or_none clean_joined) (auto simp: clean_active)

lemma whole_clean_field: "clean k \<Longrightarrow> clean v \<Longrightarrow> whole_field q_prot q_step (CHR '','') q0 (field k v) \<and> NUL \<notin> set (field k v)"
  using whole_clean [of "field k v"] by (auto simp: field_def clean_def)

lemma clean_facts: "clean v \<Longrightarrow> NUL \<notin> set v" "clean v \<Longrightarrow> trimmed v = v"
  by (auto simp: clean_def)

lemma step_clean: "CHR ''='' \<notin> set k \<Longrightarrow> clean k \<Longrightarrow> clean v \<Longrightarrow> step st (field k v) = read_field st k v"
  by (rule step_field) (auto simp: clean_def)

text \<open>The domain between its quotes.\<close>

lemma domain_text_chars:
  assumes "printable D" "\<forall>v\<in>set (m_dname D). clean v"
  shows "set (domainToString D True) \<inter> {NUL, QUOTE, CHR ''{'', CHR ''}''} = {}"
proof -
  have "set (chunk_text D i) \<inter> {NUL, QUOTE, CHR ''{'', CHR ''}''} = {}" if i: "i < dom_size D" for i
  proof -
    have r: "m_dlow D ! i \<le> 2 ^ 128" "m_dhigh D ! i \<le> 2 ^ 128" using assms(1) i by (auto simp: printable_def)
    have n: "clean (m_dname D ! i)" using assms(2) i by (simp add: dom_size_def)
    have "bhv_text (dstringCompact (doubleToString (m_dlow D ! i) 5))" "bhv_text (dstringCompact (doubleToString (m_dhigh D ! i) 5))"
      using compact_chars r numeral_like by blast+
    then have c: "clean s" if "s \<in> {m_dname D ! i, dstringCompact (doubleToString (m_dlow D ! i) 5),
        dstringCompact (doubleToString (m_dhigh D ! i) 5), nat_str (m_dpoints D ! i)}" for s
      using that n numeral_text(3) bhv_clean by blast
    have u: "set (chunk_text D i) = insert (CHR '','') (set (m_dname D ! i) \<union> set (dstringCompact (doubleToString (m_dlow D ! i) 5)) \<union>
        set (dstringCompact (doubleToString (m_dhigh D ! i) 5)) \<union> set (nat_str (m_dpoints D ! i)))"
      using i by (auto simp: chunk_text_def getVarName_def getVarLow_i_def getVarHigh_i_def getVarPoints_i_def dom_size_def)
    have d: "set s \<inter> {NUL, QUOTE, CHR ''{'', CHR ''}''} = {}" if "clean s" for s using that by (auto simp: clean_def)
    have "\<And>s. s \<in> {m_dname D ! i, dstringCompact (doubleToString (m_dlow D ! i) 5),
        dstringCompact (doubleToString (m_dhigh D ! i) 5), nat_str (m_dpoints D ! i)} \<Longrightarrow>
        set s \<inter> {NUL, QUOTE, CHR ''{'', CHR ''}''} = {}" using c d by blast
    then show ?thesis unfolding u by (simp add: Int_Un_distrib2)
  qed
  then show ?thesis using set_joined [of "CHR '':''" "map (chunk_text D) [0..<dom_size D]"]
    unfolding domainToString_joined by auto
qed

lemma quoted_facts:
  assumes "NUL \<notin> set d"
  shows "stripQuotes (QUOTE # d @ [QUOTE]) = d" "trimmed (QUOTE # d @ [QUOTE]) = QUOTE # d @ [QUOTE]" "NUL \<notin> set (QUOTE # d @ [QUOTE])"
proof -
  have "last (QUOTE # d @ [QUOTE]) = QUOTE" by (induction d) simp_all
  then show t: "trimmed (QUOTE # d @ [QUOTE]) = QUOTE # d @ [QUOTE]"
    by (intro trimmed_id) (simp add: front_blank_def back_blank_def)
  show n: "NUL \<notin> set (QUOTE # d @ [QUOTE])" using assms by simp
  have "stripBlankEnds (QUOTE # d @ [QUOTE]) = QUOTE # d @ [QUOTE]" using t n by (rule strip_clean)
  then show "stripQuotes (QUOTE # d @ [QUOTE]) = d"
    by (simp add: stripQuotes_def strip_pair_def Let_def nth_append)
qed

lemma entries_ok:
  assumes "plain_report r"
  shows "\<forall>e\<in>set (running_entries r). bhv_text (fst e) \<and> bhv_text (snd (snd e))"
    "\<forall>e\<in>set (idle_entries r). bhv_text (fst e) \<and> bhv_text (snd (snd e))"
    "\<forall>e\<in>set (completed_entries r). bhv_text (fst e) \<and> bhv_text (snd (snd e))"
  unfolding bhv_entries_def by (rule list_ok_entries, use assms in \<open>simp add: plain_report_def\<close>)+

lemma values_clean:
  assumes "plain_report r"
  shows "clean (boolToString (m_halted r))" "clean (or_none (m_modes r))" "clean (or_none (m_halt_message r))"
    "clean (list_value entry_text (running_entries r))" "clean (list_value entry_text (idle_entries r))"
    "clean (list_value entry_text (completed_entries r))" "clean (list_value active_text (active_entries r))"
proof -
  show "clean (boolToString (m_halted r))" by (simp add: boolToString_def clean_keys)
  show "clean (or_none (m_modes r))" "clean (or_none (m_halt_message r))"
    using assms by (simp_all add: plain_report_def clean_or_none)
  show "clean (list_value entry_text (running_entries r))" "clean (list_value entry_text (idle_entries r))"
    "clean (list_value entry_text (completed_entries r))"
    by (rule clean_entries, rule entries_ok [OF assms])+
  show "clean (list_value active_text (active_entries r))"
    by (rule clean_actives) (use assms in \<open>simp add: plain_report_def\<close>)
qed

lemma fields_whole:
  assumes "plain_report r"
  shows "\<forall>x\<in>set (head_fields r @ dec_fields r @ tail_fields r). whole_field q_prot q_step (CHR '','') q0 x \<and> NUL \<notin> set x"
proof -
  note p = assms [unfolded plain_report_def]
  have h: "\<forall>x\<in>set (head_fields r). whole_field q_prot q_step (CHR '','') q0 x \<and> NUL \<notin> set x"
    by (simp add: head_fields_def whole_clean_field clean_keys bhv_clean numeral_text)
  have e: "whole_field q_prot q_step (CHR '','') q0 ''''" by (rule whole_clean) simp
  have v: "clean (v @ CHR '':'' # dec_text r v)" if "v \<in> set (m_dname (m_report_domain r))" for v
    using p that dec_text_facts(1) [of r v] by (intro clean_cat) (auto simp: dec_ok_def bhv_clean)
  have d: "\<forall>x\<in>set (dec_fields r). whole_field q_prot q_step (CHR '','') q0 x \<and> NUL \<notin> set x"
    using e v by (auto simp: dec_fields_def whole_clean_field clean_keys)
  have n: "\<forall>v\<in>set (m_dname (m_report_domain r)). clean v" using p by (auto simp: dec_ok_def)
  have "whole_field q_prot q_step (CHR '','') q0 (''ivpdomain='' @ QUOTE # domainToString (m_report_domain r) True @ [QUOTE])"
    by (rule whole_quoted) (use domain_text_chars [OF _ n] p in auto)
  then have i: "whole_field q_prot q_step (CHR '','') q0 (field ''ivpdomain'' (QUOTE # domainToString (m_report_domain r) True @ [QUOTE]))"
    "NUL \<notin> set (field ''ivpdomain'' (QUOTE # domainToString (m_report_domain r) True @ [QUOTE]))"
    using domain_text_chars [OF _ n] p by (auto simp: field_def)
  have t: "\<forall>x\<in>set (tail_fields r). whole_field q_prot q_step (CHR '','') q0 x \<and> NUL \<notin> set x"
    using i by (simp add: tail_fields_def whole_clean_field clean_keys values_clean [OF assms])
  from h d t show ?thesis by auto
qed

text \<open>What a reader finds in the tail of the text.\<close>

lemma read_completed:
  assumes "plain_report r" "m_bhvs_completed_desc q = []" "m_bhvs_completed_time q = []" "m_bhvs_completed_upds q = []"
  shows "foldl (read_bhv addCompletedBHV)
      (if strContains (getCompletedBehaviors q True) ''none'' then clearCompletedBHVs q else q)
      (parseString (list_value entry_text (completed_entries r)) (CHR '':'')) =
    q\<lparr>m_bhvs_completed_desc := map fst (shown (completed_entries r)),
      m_bhvs_completed_time := map (\<lambda>e. round2 (fst (snd e))) (shown (completed_entries r)),
      m_bhvs_completed_upds := map (\<lambda>e. snd (snd e)) (shown (completed_entries r))\<rparr>"
proof -
  have "getCompletedBehaviors q True = ''''" by (simp add: getCompletedBehaviors_def bhv_list_def assms)
  moreover have "\<not> strContains '''' ''none''" by code_simp
  moreover have "length (m_bhvs_completed_desc q) + length (shown (completed_entries r)) \<le> 50"
    "\<forall>e\<in>set (shown (completed_entries r)). fst e \<noteq> ''''"
    using assms by (auto simp: plain_report_def shown_def bhv_entries_def entries_def list_ok_def dest: set_zip_leftD)
  ultimately show ?thesis
    using read_list [OF entries_ok(3) [OF assms(1)], of addCompletedBHV q, folded round2_def]
      add_completed [of q "shown (completed_entries r)" "\<lambda>e. round2 (fst (snd e))"] assms(2-4)
    by (simp add: list_value_def)
qed

definition tail_read :: "helm_report \<Rightarrow> helm_report \<Rightarrow> helm_report" where
  "tail_read r q = (foldl add_active (q\<lparr>m_halted := m_halted r, m_modes := or_none (m_modes r),
      m_bhvs_running_desc := map fst (shown (running_entries r)),
      m_bhvs_running_time := map (\<lambda>e. round2 (fst (snd e))) (shown (running_entries r)),
      m_bhvs_running_upds := map (\<lambda>e. snd (snd e)) (shown (running_entries r)),
      m_bhvs_idle_desc := map fst (shown (idle_entries r)),
      m_bhvs_idle_time := map (\<lambda>e. round2 (fst (snd e))) (shown (idle_entries r)),
      m_bhvs_idle_upds := map (\<lambda>e. snd (snd e)) (shown (idle_entries r)),
      m_bhvs_completed_desc := map fst (shown (completed_entries r)),
      m_bhvs_completed_time := map (\<lambda>e. round2 (fst (snd e))) (shown (completed_entries r)),
      m_bhvs_completed_upds := map (\<lambda>e. snd (snd e)) (shown (completed_entries r)),
      m_report_domain := reread_dom (m_report_domain r) (dom_size (m_report_domain r)),
      m_halt_message := or_none (m_halt_message r)\<rparr>) (shown_active (active_entries r)))"

lemma add_actives: "foldl add_active r es =
   r\<lparr>m_bhvs_active_desc := m_bhvs_active_desc r @ map fst es,
     m_bhvs_active_time := m_bhvs_active_time r @ map (\<lambda>e. round2 (fst (snd e))) es,
     m_bhvs_active_pwt := m_bhvs_active_pwt r @ map (\<lambda>e. reread (fst (snd (snd e)))) es,
     m_bhvs_active_pcs := m_bhvs_active_pcs r @ map (\<lambda>e. fst (snd (snd (snd e)))) es,
     m_bhvs_active_cpu := m_bhvs_active_cpu r @ map (\<lambda>e. reread (fst (snd (snd (snd (snd e)))))) es,
     m_bhvs_active_upds := m_bhvs_active_upds r @ map (\<lambda>e. fst (snd (snd (snd (snd (snd e)))))) es,
     m_bhvs_active_ipfs := m_bhvs_active_ipfs r @ map (\<lambda>e. snd (snd (snd (snd (snd (snd e)))))) es\<rparr>"
  by (induction es arbitrary: r) (auto simp: add_active_def addActiveBHV_def split: prod.splits)

lemma steps_tail:
  assumes "plain_report r" "m_bhvs_completed_desc q = []" "m_bhvs_completed_time q = []" "m_bhvs_completed_upds q = []"
    "m_bhvs_active_desc q = []" "m_bhvs_active_time q = []" "m_bhvs_active_upds q = []" "m_bhvs_active_pwt q = []"
    "m_bhvs_active_cpu q = []" "m_bhvs_active_pcs q = []" "m_bhvs_active_ipfs q = []"
  shows "foldl step (q, b) (tail_fields r) = (tail_read r q, b)"
proof -
  note p = assms(1) [unfolded plain_report_def]
  have n: "\<forall>v\<in>set (m_dname (m_report_domain r)). clean v" using p by (auto simp: dec_ok_def)
  have dn: "NUL \<notin> set (domainToString (m_report_domain r) True)" using domain_text_chars [OF _ n] p by blast
  have ao: "\<forall>e\<in>set (active_entries r). active_ok e" using p by blast
  have pr: "printable (m_report_domain r)" using p by blast
  have dom: "step (u, b) (field ''ivpdomain'' (QUOTE # domainToString (m_report_domain r) True @ [QUOTE])) =
      (u\<lparr>m_report_domain := reread_dom (m_report_domain r) (dom_size (m_report_domain r))\<rparr>, b)" for u
    using step_field [OF _ clean_keys(17) quoted_facts(3) [OF dn] quoted_facts(2) [OF dn]] quoted_facts(1) [OF dn]
      stringToDomain_reread [OF pr] by (simp add: read_field_def)
  have halted: "step (u, b) (field ''halted'' (boolToString (m_halted r))) = (u\<lparr>m_halted := m_halted r\<rparr>, b)" for u
    using step_clean [OF _ clean_keys(11) values_clean(1) [OF assms(1)]] by (simp add: read_field_def boolToString_def)
  have modes: "step (u, b) (field ''modes'' (or_none (m_modes r))) = (u\<lparr>m_modes := or_none (m_modes r)\<rparr>, b)" for u
    using step_clean [OF _ clean_keys(12) values_clean(2) [OF assms(1)]] by (simp add: read_field_def)
  have halt: "step (u, b) (field ''halt_msg'' (or_none (m_halt_message r))) = (u\<lparr>m_halt_message := or_none (m_halt_message r)\<rparr>, b)" for u
    using step_clean [OF _ clean_keys(18) values_clean(3) [OF assms(1)]] by (simp add: read_field_def)
  have run: "step (u, b) (field ''running_bhvs'' (list_value entry_text (running_entries r))) =
      (u\<lparr>m_bhvs_running_desc := map fst (shown (running_entries r)),
      m_bhvs_running_time := map (\<lambda>e. round2 (fst (snd e))) (shown (running_entries r)),
      m_bhvs_running_upds := map (\<lambda>e. snd (snd e)) (shown (running_entries r))\<rparr>, b)" for u
    using step_clean [OF _ clean_keys(13) values_clean(4) [OF assms(1)]]
      read_list [OF entries_ok(1) [OF assms(1)], of addRunningBHV "clearRunningBHVs u", folded list_value_def round2_def]
      add_running [of "\<lambda>e. round2 (fst (snd e))" "clearRunningBHVs u" "shown (running_entries r)"]
    by (simp add: read_field_def clearRunningBHVs_def)
  have idle: "step (u, b) (field ''idle_bhvs'' (list_value entry_text (idle_entries r))) =
      (u\<lparr>m_bhvs_idle_desc := map fst (shown (idle_entries r)),
      m_bhvs_idle_time := map (\<lambda>e. round2 (fst (snd e))) (shown (idle_entries r)),
      m_bhvs_idle_upds := map (\<lambda>e. snd (snd e)) (shown (idle_entries r))\<rparr>, b)" for u
    using step_clean [OF _ clean_keys(15) values_clean(5) [OF assms(1)]]
      read_list [OF entries_ok(2) [OF assms(1)], of addIdleBHV "clearIdleBHVs u", folded list_value_def round2_def]
      add_idle [of "\<lambda>e. round2 (fst (snd e))" "clearIdleBHVs u" "shown (idle_entries r)"]
    by (simp add: read_field_def clearIdleBHVs_def)
  have act: "step (u, b) (field ''active_bhvs'' (list_value active_text (active_entries r))) =
      (foldl add_active (clearActiveBHVs u) (shown_active (active_entries r)), b)" for u
    using step_clean [OF _ clean_keys(14) values_clean(7) [OF assms(1)]]
      read_actives [OF ao, of "clearActiveBHVs u", folded list_value_def]
    by (simp add: read_field_def)
  have comp: "step (u, b) (field ''completed_bhvs'' (list_value entry_text (completed_entries r))) =
      (u\<lparr>m_bhvs_completed_desc := map fst (shown (completed_entries r)),
      m_bhvs_completed_time := map (\<lambda>e. round2 (fst (snd e))) (shown (completed_entries r)),
      m_bhvs_completed_upds := map (\<lambda>e. snd (snd e)) (shown (completed_entries r))\<rparr>, b)"
    if "m_bhvs_completed_desc u = []" "m_bhvs_completed_time u = []" "m_bhvs_completed_upds u = []" for u
    using step_clean [OF _ clean_keys(16) values_clean(6) [OF assms(1)]] read_completed [OF assms(1) that]
    by (simp add: read_field_def)
  show ?thesis
    unfolding tail_fields_def foldl.simps halted modes run act idle tail_read_def add_actives
    by (subst comp) (simp_all add: assms(2-) clearActiveBHVs_def dom halt)
qed

lemma string2HelmReport_text:
  assumes "plain_report r"
  shows "string2HelmReport (getReportAsString r) = tail_read r (HelmReport_new
     \<lparr>m_iteration := m_iteration r, m_time_utc := round2 (m_time_utc r), m_report_ofnum := m_report_ofnum r,
      m_warning_count := m_warning_count r, m_solve_time := round2 (m_solve_time r), m_create_time := round2 (m_create_time r),
      m_max_create_time := round2 (m_max_create_time r), m_max_solve_time := round2 (m_max_solve_time r),
      m_max_loop_time := round2 (m_max_loop_time r),
      m_decisions := (\<lambda>v. if v \<in> set (m_dname (m_report_domain r)) then Some (dec_val r v) else None)\<rparr>)"
proof -
  note p = assms [unfolded plain_report_def]
  have ne: "tail_fields r \<noteq> []" "last (tail_fields r) \<noteq> []" by (simp_all add: tail_fields_def field_def)
  have parse: "parseStringQ (getReportAsString r) (CHR '','') = head_fields r @ dec_fields r @ tail_fields r"
    unfolding report_text [OF assms]
    by (rule parseStringQ_whole [OF fields_whole [OF assms]]) (use ne in simp)
  let ?h = "HelmReport_new\<lparr>m_iteration := m_iteration r, m_time_utc := round2 (m_time_utc r), m_report_ofnum := m_report_ofnum r,
      m_warning_count := m_warning_count r, m_solve_time := round2 (m_solve_time r), m_create_time := round2 (m_create_time r),
      m_max_create_time := round2 (m_max_create_time r), m_max_solve_time := round2 (m_max_solve_time r),
      m_max_loop_time := round2 (m_max_loop_time r)\<rparr>"
  have lims: "m_iteration r < 2 ^ 31" "m_report_ofnum r < 2 ^ 31" "m_warning_count r < 2 ^ 31" using p by blast+
  have oks: "\<forall>v\<in>set (m_dname (m_report_domain r)). dec_ok r v" using p by blast
  have "m_decisions ?h = Map.empty" by (simp add: HelmReport_new_def)
  from steps_dec_fields [OF oks this] obtain b where
    d: "foldl step (?h, False) (dec_fields r) = (?h\<lparr>m_decisions := (\<lambda>v. if v \<in> set (m_dname (m_report_domain r)) then Some (dec_val r v) else None)\<rparr>, b)"
    by blast
  have s: "(\<lambda>st s. case biteStringX s (CHR ''='') of (left, right) \<Rightarrow> read_field st left right) = step"
    by (simp add: step_def fun_eq_iff)
  show ?thesis
    unfolding string2HelmReport_def string2HelmReport_from_def parse s foldl_append steps_head [OF lims] d
    by (subst steps_tail [OF assms]) (simp_all add: HelmReport_new_def)
qed

lemma round2_close: "\<bar>round2 v - v\<bar> \<le> 1 / 200"
  using printed_close [of v 2] by (simp add: round2_def atof_printf_f)

definition names_shown :: "string list \<Rightarrow> string list" where
  "names_shown ds = (if ds = [] then [''none''] else ds)"

lemma shown_names: "length t = length d \<Longrightarrow> length u = length d \<Longrightarrow>
    map fst (shown (entries d t u)) = names_shown d \<and> map (\<lambda>e. snd (snd e)) (shown (entries d t u)) = (if d = [] then [''''] else u)"
proof -
  assume h: "length t = length d" "length u = length d"
  have "map (\<lambda>e. snd (snd e)) (zip d (zip t u)) = u" by (rule nth_equalityI) (use h in simp_all)
  then show ?thesis using h by (auto simp: shown_def names_shown_def entries_def)
qed

lemma shown_active_names: "map fst (shown_active (active_entries r)) = names_shown (m_bhvs_active_desc r)"
  by (simp add: shown_active_def names_shown_def active_entries_def comp_def map_nth)

text \<open>The short form of a list names the behaviors only.\<close>

definition names_text :: "string list \<Rightarrow> string" where
  "names_text d = (if joined (CHR '','') d = ''none'' then '''' else joined (CHR '','') d)"

lemma bhv_list_names: "bhv_list d t u False = names_text d"
  using joined_fields_loop [of "CHR '',''" "\<lambda>i. d ! i" "length d"] by (simp add: bhv_list_def map_nth names_text_def)

lemma active_names: "getActiveBehaviors r False = names_text (m_bhvs_active_desc r)"
  using joined_fields_loop [of "CHR '',''" "\<lambda>i. m_bhvs_active_desc r ! i" "length (m_bhvs_active_desc r)"]
  by (simp add: getActiveBehaviors_def map_nth names_text_def)

lemma names_shown_list: "names_text (names_shown d) = names_text d"
  by (simp add: names_shown_def names_text_def)

section \<open>Properties\<close>


definition ex_report :: helm_report where
  "ex_report = addDecision ''speed'' (6 / 5) (addDecision ''course'' 195 (addRunningBHV ''loiter'' (25 / 2) ''4/4''
     (addActiveBHV ''loiter'' (25 / 2) 100 9 0 ''4/4'' 1 (HelmReport_new\<lparr>m_iteration := 7, m_report_domain := ex_dom\<rparr>))))"

lemma plain_ex_report: "plain_report ex_report"
proof -
  have t: "bhv_text ''loiter''" "bhv_text ''4/4''" "clean ''course''" "clean ''speed''" "clean ''''" by code_simp+
  show ?thesis
    using printable_ex_dom
    by (simp add: plain_report_def ex_report_def HelmReport_new_def addDecision_def addRunningBHV_def addActiveBHV_def
        list_ok_def active_entries_def active_ok_def dec_ok_def t ex_dom_facts)
qed


lemma entries_snoc: "length d = length t \<Longrightarrow> length t = length u \<Longrightarrow> entries (d @ [a]) (t @ [b]) (u @ [c]) = entries d t u @ [(a, b, c)]"
  by (simp add: entries_def)

lemma entries_tl: "entries (tl d) (tl t) (tl u) = tl (entries d t u)"
  by (cases d; cases t; cases u) (simp_all add: entries_def)

lemma drop_oldest: "n \<le> length h \<Longrightarrow> tl (drop (length h - n) h @ [e]) = drop (length (h @ [e]) - n) (h @ [e])"
proof -
  assume n: "n \<le> length h"
  have "drop (length h - n) h @ [e] = drop (length h - n) (h @ [e])" by simp
  moreover have "tl (drop (length h - n) (h @ [e])) = drop (Suc (length h - n)) (h @ [e])" by (simp only: drop_Suc tl_drop)
  moreover have "Suc (length h - n) = length (h @ [e]) - n" using n by simp
  ultimately show ?thesis by (simp only:)
qed

text \<open>C36: The history of completed behaviors: whatever is added, the three lists stay of one
  length, and they hold the last 50 of the behaviors with a name, in order.\<close>

theorem completed_history:
  assumes "length (m_bhvs_completed_time r) = length (m_bhvs_completed_desc r)"
    "length (m_bhvs_completed_upds r) = length (m_bhvs_completed_desc r)" "length (m_bhvs_completed_desc r) \<le> 50"
    "q = foldl (\<lambda>r e. addCompletedBHV (fst e) (fst (snd e)) (snd (snd e)) r) r es"
    "hist = completed_entries r @ filter (\<lambda>e. fst e \<noteq> '''') es"
  shows "completed_entries q = drop (length hist - 50) hist \<and> length (m_bhvs_completed_desc q) = min 50 (length hist) \<and>
    length (m_bhvs_completed_time q) = length (m_bhvs_completed_desc q) \<and>
    length (m_bhvs_completed_upds q) = length (m_bhvs_completed_desc q)"
  unfolding assms(4,5)
proof (induction es rule: rev_induct)
  case Nil
  have "length (completed_entries r) = length (m_bhvs_completed_desc r)"
    using assms(1,2) by (simp add: bhv_entries_def entries_def)
  then show ?case using assms(1-3) by simp
next
  case (snoc e es)
  let ?q = "foldl (\<lambda>r e. addCompletedBHV (fst e) (fst (snd e)) (snd (snd e)) r) r es"
  let ?h = "completed_entries r @ filter (\<lambda>e. fst e \<noteq> '''') es"
  from snoc have q: "completed_entries ?q = drop (length ?h - 50) ?h" "length (m_bhvs_completed_desc ?q) = min 50 (length ?h)"
    "length (m_bhvs_completed_time ?q) = length (m_bhvs_completed_desc ?q)"
    "length (m_bhvs_completed_upds ?q) = length (m_bhvs_completed_desc ?q)" by blast+
  show ?case
  proof (cases "fst e = ''''")
    case True
    then show ?thesis using q by (simp add: addCompletedBHV_def)
  next
    case False
    have s: "entries (m_bhvs_completed_desc ?q @ [fst e]) (m_bhvs_completed_time ?q @ [fst (snd e)]) (m_bhvs_completed_upds ?q @ [snd (snd e)]) =
        drop (length ?h - 50) ?h @ [e]" using q entries_snoc by (simp add: bhv_entries_def)
    show ?thesis
    proof (cases "50 \<le> length ?h")
      case True
      have "tl (drop (length ?h - 50) ?h @ [e]) = drop (length (?h @ [e]) - 50) (?h @ [e])"
        by (rule drop_oldest [OF True])
      then show ?thesis using True False q s
        by (simp add: addCompletedBHV_def bhv_entries_def entries_tl Let_def)
    next
      case less: False
      then show ?thesis using False q s by (simp add: addCompletedBHV_def bhv_entries_def Let_def)
    qed
  qed
qed

theorem completed_history_witness:
  "m_bhvs_completed_desc (foldl (\<lambda>r e. addCompletedBHV (fst e) (fst (snd e)) (snd (snd e)) r) HelmReport_new
      (replicate 60 (''a'', 0, ''''))) \<noteq> [] \<and>
   length (m_bhvs_completed_desc (foldl (\<lambda>r e. addCompletedBHV (fst e) (fst (snd e)) (snd (snd e)) r) HelmReport_new
      (replicate 60 (''a'', 0, '''')))) = 50"
proof -
  have n: "m_bhvs_completed_desc HelmReport_new = []" "m_bhvs_completed_time HelmReport_new = []" "m_bhvs_completed_upds HelmReport_new = []"
    by (simp_all add: HelmReport_new_def)
  have h: "length (completed_entries HelmReport_new @ filter (\<lambda>e. fst e \<noteq> '''') (replicate 60 (''a'', 0 :: real, '''' :: string))) = 60"
    by (simp add: n bhv_entries_def entries_def)
  have "length (m_bhvs_completed_desc (foldl (\<lambda>r e. addCompletedBHV (fst e) (fst (snd e)) (snd (snd e)) r) HelmReport_new
      (replicate 60 (''a'', 0, '''')))) = min 50 60"
    using completed_history [where r = HelmReport_new and es = "replicate 60 (''a'', 0, '''')", OF _ _ _ refl refl] h n by simp
  then show ?thesis by auto
qed

end
