(* ===== verification/IvP_Solver.thy ===== *)
theory IvP_Solver
  imports IvP_Problem
begin

text \<open>
  The branch and bound search: \<open>IvPProblem.cpp\<close> and \<open>IvPProblem_v3.cpp\<close> of
  \<open>src/ivp/src/lib_ivpsolve\<close>, with the compactor they call, \<open>CompactorNull.h\<close> of
  \<open>src/ivp/src/lib_ivpcore\<close>. Level \<open>k\<close> of the search tree chooses a piece of function \<open>k\<close>; node
  box \<open>k + 1\<close> is the intersection of the pieces chosen so far, and its interior function is
  the sum of theirs.
\<close>

section \<open>Compactors\<close>

text \<open>The virtual interface, and the null compactor that the solver makes for itself.\<close>

record compactor =
  compact :: "ivpbox \<Rightarrow> bool \<times> ivpbox"
  c_maxVal :: "ivpbox \<Rightarrow> real \<times> bool"

definition CompactorNull :: compactor where
  "CompactorNull = \<lparr>compact = (\<lambda>b. (True, b)), c_maxVal = (\<lambda>b. (maxVal b, True))\<rparr>"

definition IvPProblem_compactor :: "compactor option \<Rightarrow> compactor \<times> bool" where
  "IvPProblem_compactor g_compactor =
     (case g_compactor of Some c \<Rightarrow> (c, False) | None \<Rightarrow> (CompactorNull, True))"

text \<open>\<open>preCompact\<close> deletes the boxes for which \<open>compact\<close> returns true.\<close>

definition preCompact_map :: "compactor \<Rightarrow> pdmap \<Rightarrow> pdmap option" where
  "preCompact_map cp pd =
     foldM (\<lambda>pd j. box_at pd j \<bind> (\<lambda>p.
         let (violation, b) = compact cp (pd_store pd p); pd1 = pd\<lparr>pd_store := (pd_store pd)(p := b)\<rparr>
         in Some (if violation then pd1\<lparr>m_boxes := (m_boxes pd1)[j := None]\<rparr> else pd1)))
       pd [0..<m_boxCount pd] \<bind> removeNULLs"

definition preCompact :: "compactor \<Rightarrow> problem \<Rightarrow> problem option" where
  "preCompact cp pr =
     foldM (\<lambda>pr i. of_at pr i \<bind> (\<lambda>f. preCompact_map cp (m_pdmap f) \<bind>
              (\<lambda>pd. Some (pr\<lparr>m_ofs := (m_ofs pr)[i := f\<lparr>m_pdmap := pd\<rparr>]\<rparr>)))) pr [0..<m_ofnum pr]"

section \<open>Before the search\<close>

record search = best_sol +
  nodeBox :: "ivpbox list"

text \<open>One node box per level, each a copy of the universe of the first function.\<close>

definition make_nodes :: "problem \<Rightarrow> ivpbox list option" where
  "make_nodes pr =
     of_at pr 0 \<bind> (\<lambda>f.
     foldM (\<lambda>nodes i. box_copy (getUniverse (m_pdmap f)) \<bind> (\<lambda>b. Some (nodes @ [b])))
       [] [0..<m_ofnum pr + 1] \<bind>
     (\<lambda>nodes. Some (nodes[0 := setWT 0 (nodes ! 0)])))"

definition give_grid :: "nat \<Rightarrow> problem \<Rightarrow> problem option" where
  "give_grid j pr = of_at pr j \<bind> (\<lambda>f.
     if m_grid (m_pdmap f) = None
     then updateGrid True True (m_pdmap f) \<bind>
          (\<lambda>pd. Some (pr\<lparr>m_ofs := (m_ofs pr)[j := f\<lparr>m_pdmap := pd\<rparr>]\<rparr>))
     else Some pr)"

definition solvePrior :: "ivpbox option \<Rightarrow> problem \<Rightarrow> (problem \<times> ivpbox list) option" where
  "solvePrior isolBox pr =
     make_nodes pr \<bind> (\<lambda>nodes.
     (case isolBox of None \<Rightarrow> Some pr | Some b \<Rightarrow> processInitSol b pr) \<bind> (\<lambda>pr1.
     foldM (\<lambda>pr j. give_grid j pr) pr1 [0..<m_ofnum pr1] \<bind> (\<lambda>pr2. Some (pr2, nodes))))"

section \<open>The recursion\<close>

definition upperCheapBound :: "problem \<Rightarrow> nat \<Rightarrow> ivpbox \<Rightarrow> real option" where
  "upperCheapBound pr level box =
     foldM (\<lambda>bound i. of_at pr i \<bind> (\<lambda>f. case m_grid (m_pdmap f) of None \<Rightarrow> None
              | Some g \<Rightarrow> Some (bound + getCheapBound g box)))
       (maxVal box) [level..<m_ofnum pr]"

text \<open>
  The test before a node is entered: there is no solution yet, or the bound beats it. The code
  computes the bound of a root node only when there is a solution; it does nothing else.
\<close>

definition worth_entering :: "problem \<Rightarrow> nat \<Rightarrow> search \<Rightarrow> bool option" where
  "worth_entering pr level s =
     upperCheapBound pr level (nodeBox s ! level) \<bind> (\<lambda>ub.
     Some (m_maxbox s = None \<or> ub > m_maxwt s + m_epsilon pr))"

definition boundary :: "compactor \<Rightarrow> problem \<Rightarrow> nat \<Rightarrow> search \<Rightarrow> search option" where
  "boundary cp pr level s =
     (let (currWT, ok) = c_maxVal cp (nodeBox s ! level)
      in if ok \<and> (m_maxbox s = None \<or> currWT > m_maxwt s + m_epsilon pr)
         then newSolution currWT (nodeBox s ! level) s else Some s)"

lemma foldM_cong [fundef_cong]:
  "s = s' \<Longrightarrow> xs = ys \<Longrightarrow> (\<And>x t. x \<in> set ys \<Longrightarrow> f t x = g t x) \<Longrightarrow> foldM f s xs = foldM g s' ys"
proof -
  assume h: "s = s'" "xs = ys" "\<And>x t. x \<in> set ys \<Longrightarrow> f t x = g t x"
  have "foldM f s ys = foldM g s ys" using h(3)
  proof (induction ys arbitrary: s)
    case (Cons y ys)
    then have "f s y = g s y" by simp
    with Cons show ?case by (auto split: Option.bind_splits)
  qed simp
  with h show ?thesis by simp
qed

text \<open>
  The problem is only read during the recursion; the best solution and the node boxes are in
  the state \<open>s\<close>. A level above the number of functions would read past the arrays.
\<close>

function solveRecurse :: "compactor \<Rightarrow> problem \<Rightarrow> nat \<Rightarrow> search \<Rightarrow> search option" where
  "solveRecurse cp pr level s =
     (if level = m_ofnum pr then boundary cp pr level s
      else if level > m_ofnum pr then None
      else of_at pr level \<bind> (\<lambda>f. pd_getBS (m_pdmap f) (nodeBox s ! level) \<bind> (\<lambda>levelBoxes.
        foldM (\<lambda>s p.
          case intersect_into (nodeBox s ! level) (pd_store (m_pdmap f) p) (Some (nodeBox s ! (level + 1))) of
            (result, rb) \<Rightarrow>
              let s1 = s\<lparr>nodeBox := (nodeBox s)[level + 1 := the rb]\<rparr>
              in if result
                 then worth_entering pr (level + 1) s1 \<bind>
                      (\<lambda>enter. if enter then solveRecurse cp pr (level + 1) s1 else Some s1)
                 else Some s1)
          s levelBoxes)))"
  by pat_completeness auto

termination
  by (relation "measure (\<lambda>(cp, pr, level, s). m_ofnum pr - level)") auto

declare solveRecurse.simps [simp del]

section \<open>The entry point\<close>

definition solve :: "compactor \<Rightarrow> ivpbox option \<Rightarrow> problem \<Rightarrow> (bool \<times> problem) option" where
  "solve cp isolBox pr =
     (if m_ofnum pr = 0 then Some (False, pr)
      else solvePrior isolBox pr \<bind> (\<lambda>(pr1, nodes).
        of_at pr1 0 \<bind> (\<lambda>f.
        foldM (\<lambda>s i. box_at (m_pdmap f) i \<bind> (\<lambda>p.
            copy_from (nodeBox s ! 1) (pd_store (m_pdmap f) p) \<bind> (\<lambda>nb.
            let s1 = s\<lparr>nodeBox := (nodeBox s)[1 := nb]\<rparr>
            in worth_entering pr1 1 s1 \<bind> (\<lambda>enter.
               if enter then solveRecurse cp pr1 1 s1 else Some s1))))
          \<lparr>m_maxbox = m_maxbox pr1, m_maxwt = m_maxwt pr1, nodeBox = nodes\<rparr>
          [0..<m_boxCount (m_pdmap f)] \<bind>
        (\<lambda>s. Some (True, pr1\<lparr>m_maxbox := m_maxbox s, m_maxwt := m_maxwt s\<rparr>)))))"

section \<open>Version 3: the search without bounds\<close>

text \<open>
  It ignores the box it is given, and the flag of the compactor. The conversion of \<open>currWT\<close> to a
  \<open>float\<close> rounds; it is the identity here.
\<close>

definition boundary_v3 :: "compactor \<Rightarrow> problem \<Rightarrow> nat \<Rightarrow> search \<Rightarrow> search option" where
  "boundary_v3 cp pr level s =
     (let (currWT, ok) = c_maxVal cp (nodeBox s ! level)
      in if m_maxbox s = None \<or> currWT > m_maxwt s + m_epsilon pr
         then newSolution currWT (nodeBox s ! level) s else Some s)"

function solveRecurse_v3 :: "compactor \<Rightarrow> problem \<Rightarrow> nat \<Rightarrow> search \<Rightarrow> search option" where
  "solveRecurse_v3 cp pr level s =
     (if level = m_ofnum pr then boundary_v3 cp pr level s
      else if level > m_ofnum pr then None
      else of_at pr level \<bind> (\<lambda>f.
        if m_grid (m_pdmap f) = None then None
        else pd_getBS (m_pdmap f) (nodeBox s ! level) \<bind> (\<lambda>levelBoxes.
        foldM (\<lambda>s p.
          case intersect_into (nodeBox s ! level) (pd_store (m_pdmap f) p) (Some (nodeBox s ! (level + 1))) of
            (result, rb) \<Rightarrow>
              let s1 = s\<lparr>nodeBox := (nodeBox s)[level + 1 := the rb]\<rparr>
              in if result then solveRecurse_v3 cp pr (level + 1) s1 else Some s1)
          s levelBoxes)))"
  by pat_completeness auto

termination
  by (relation "measure (\<lambda>(cp, pr, level, s). m_ofnum pr - level)") auto

declare solveRecurse_v3.simps [simp del]

definition solve_v3 :: "compactor \<Rightarrow> ivpbox option \<Rightarrow> problem \<Rightarrow> (bool \<times> problem) option" where
  "solve_v3 cp b pr =
     solvePrior None pr \<bind> (\<lambda>(pr1, nodes).
     of_at pr1 0 \<bind> (\<lambda>f.
     foldM (\<lambda>s i. box_at (m_pdmap f) i \<bind> (\<lambda>p.
         copy_from (nodeBox s ! 1) (pd_store (m_pdmap f) p) \<bind> (\<lambda>nb.
         solveRecurse_v3 cp pr1 1 (s\<lparr>nodeBox := (nodeBox s)[1 := nb]\<rparr>))))
       \<lparr>m_maxbox = m_maxbox pr1, m_maxwt = m_maxwt pr1, nodeBox = nodes\<rparr>
       [0..<m_boxCount (m_pdmap f)] \<bind>
     (\<lambda>s. Some (True, pr1\<lparr>m_maxbox := m_maxbox s, m_maxwt := m_maxwt s\<rparr>))))"

section \<open>What the search is about\<close>

text \<open>
  A choice of one piece per function, all covering \<open>x\<close>, and its value there. The search looks
  for the largest value of a choice.
\<close>

definition choice :: "ivpbox list \<Rightarrow> ivpfunction list \<Rightarrow> (nat \<Rightarrow> int) \<Rightarrow> bool" where
  "choice bs fs x \<longleftrightarrow> list_all2 (\<lambda>b f. b \<in> set (pieces (m_pdmap f)) \<and> in_box b x) bs fs"

definition total :: "ivpbox list \<Rightarrow> (nat \<Rightarrow> int) \<Rightarrow> real" where
  "total bs x = sum_list (map (\<lambda>b. ival b x) bs)"

definition chosen :: "ivpbox list \<Rightarrow> ivpfunction list \<Rightarrow> bool" where
  "chosen bs fs \<longleftrightarrow> list_all2 (\<lambda>b f. b \<in> set (pieces (m_pdmap f))) bs fs"

lemma choice_chosen: "choice bs fs x \<longleftrightarrow> chosen bs fs \<and> (\<forall>b\<in>set bs. in_box b x)"
  unfolding choice_def chosen_def by (induction bs arbitrary: fs) (auto simp: list_all2_Cons1)

text \<open>Functions over \<open>n\<close> variables with interior functions of degree \<open>deg\<close>, ready to be solved.\<close>

definition ready :: "nat \<Rightarrow> nat \<Rightarrow> problem \<Rightarrow> bool" where
  "ready n deg pr \<longleftrightarrow> m_ofnum pr = length (m_ofs pr) \<and> 0 < n \<and> n < 2 ^ 16 \<and> deg \<le> 1 \<and> 0 \<le> m_epsilon pr \<and>
     (\<forall>f\<in>set (m_ofs pr). wf_pdmap (m_pdmap f) \<and> dom_size (pd_domain (m_pdmap f)) = n \<and>
        pd_degree (m_pdmap f) = deg \<and> (\<forall>b\<in>set (pieces (m_pdmap f)). inclusive b))"

definition gridded :: "problem \<Rightarrow> bool" where
  "gridded pr \<longleftrightarrow> (\<forall>f\<in>set (m_ofs pr). m_grid (m_pdmap f) \<noteq> None)"

text \<open>A node box stands for the pieces chosen so far.\<close>

definition node :: "nat \<Rightarrow> nat \<Rightarrow> ivpbox list \<Rightarrow> ivpbox \<Rightarrow> bool" where
  "node n deg bs nb \<longleftrightarrow> wf_box nb \<and> m_dim nb = n \<and> m_degree nb = deg \<and> inclusive nb \<and> ordered_box nb \<and>
     (\<forall>d<n. 0 \<le> pt nb d 1) \<and> (\<forall>x. in_box nb x \<longleftrightarrow> (\<forall>b\<in>set bs. in_box b x)) \<and> (\<forall>x. ival nb x = total bs x)"

definition nodes_ok :: "nat \<Rightarrow> nat \<Rightarrow> problem \<Rightarrow> search \<Rightarrow> bool" where
  "nodes_ok n deg pr s \<longleftrightarrow> length (nodeBox s) = m_ofnum pr + 1 \<and>
     (\<forall>b\<in>set (nodeBox s). wf_box b \<and> m_dim b = n \<and> m_degree b = deg)"

text \<open>The solution kept is the value of a choice, taken at the point that \<open>maxPt\<close> returns.\<close>

definition best_ok :: "nat \<Rightarrow> nat \<Rightarrow> ivpfunction list \<Rightarrow> 'a best_sol_scheme \<Rightarrow> bool" where
  "best_ok n deg fs s \<longleftrightarrow> (\<forall>mb. m_maxbox s = Some mb \<longrightarrow> wf_box mb \<and> m_dim mb = n \<and> m_degree mb = deg \<and>
     (\<exists>bs. choice bs fs (maxPt_coord mb) \<and> total bs (maxPt_coord mb) = m_maxwt s))"

definition improves :: "'a best_sol_scheme \<Rightarrow> 'b best_sol_scheme \<Rightarrow> bool" where
  "improves s t \<longleftrightarrow> (m_maxbox s \<noteq> None \<longrightarrow> m_maxbox t \<noteq> None \<and> m_maxwt s \<le> m_maxwt t)"

definition beats :: "real \<Rightarrow> 'a best_sol_scheme \<Rightarrow> real \<Rightarrow> bool" where
  "beats eps s v \<longleftrightarrow> m_maxbox s \<noteq> None \<and> v \<le> m_maxwt s + eps"

lemma improves_refl [simp]: "improves s s"
  by (simp add: improves_def)

lemma improves_trans: "improves s t \<Longrightarrow> improves t u \<Longrightarrow> improves s u"
  by (auto simp: improves_def)

lemma improves_nodes [simp]: "improves s (t\<lparr>nodeBox := ns\<rparr>) = improves s t"
  "improves (s\<lparr>nodeBox := ns\<rparr>) t = improves s t" "best_ok n deg fs (s\<lparr>nodeBox := ns\<rparr>) = best_ok n deg fs s"
  "beats e (s\<lparr>nodeBox := ns\<rparr>) v = beats e s v"
  by (simp_all add: improves_def best_ok_def beats_def)

lemma beats_improves: "beats e s v \<Longrightarrow> improves s t \<Longrightarrow> beats e t v"
  by (auto simp: beats_def improves_def)

lemma total_append [simp]: "total (bs @ cs) x = total bs x + total cs x" "total [b] x = ival b x"
  "total (b # bs) x = ival b x + total bs x" "total [] x = 0"
  by (simp_all add: total_def)

lemma choice_append: "length bs = k \<Longrightarrow> k \<le> length fs \<Longrightarrow>
    choice (bs @ cs) fs x \<longleftrightarrow> choice bs (take k fs) x \<and> choice cs (drop k fs) x"
proof -
  assume "length bs = k" "k \<le> length fs"
  then have "length bs = length (take k fs)" by simp
  from list_all2_append [OF this, of "\<lambda>b f. b \<in> set (pieces (m_pdmap f)) \<and> in_box b x" cs "drop k fs"]
  show ?thesis by (simp add: choice_def)
qed

lemma readyD:
  assumes "ready n deg pr" "f \<in> set (m_ofs pr)"
  shows "wf_pdmap (m_pdmap f)" "dom_size (pd_domain (m_pdmap f)) = n" "pd_degree (m_pdmap f) = deg"
    "b \<in> set (pieces (m_pdmap f)) \<Longrightarrow> inclusive b"
    "b \<in> set (pieces (m_pdmap f)) \<Longrightarrow> good_piece (pd_domain (m_pdmap f)) deg b"
  using assms wf_pdmapD(4) [of "m_pdmap f" b] by (auto simp: ready_def)

lemma ready_of_at: "ready n deg pr \<Longrightarrow> i < m_ofnum pr \<Longrightarrow> of_at pr i = Some (m_ofs pr ! i)"
  by (simp add: ready_def of_at_def)

section \<open>Nodes\<close>

lemma node_piece:
  assumes "good_piece D deg b" "good_domain D" "dom_size D = n" "inclusive b"
  shows "node n deg [b] b"
  using good_pieceD [OF assms(1,2)] assms unfolding node_def by (force simp: good_piece_def)

lemma node_intersect:
  assumes "node n deg bs nb" "node n deg [c] c" "wf_box r" "m_dim r = n" "m_degree r = deg" "0 < n"
    "box_intersect nb c"
  obtains r' where "intersect_into nb c (Some r) = (True, Some r')" "node n deg (bs @ [c]) r'"
proof -
  have nb: "wf_box nb" "m_dim nb = n" "m_degree nb = deg" "inclusive nb" "ordered_box nb" "\<forall>d<n. 0 \<le> pt nb d 1"
    and c: "wf_box c" "m_dim c = n" "m_degree c = deg" "inclusive c" "ordered_box c" "\<forall>d<n. 0 \<le> pt c d 1"
    using assms(1,2) by (auto simp: node_def)
  obtain r' where r: "intersect_into nb c (Some r) = (True, Some r')" "wf_box r'"
    "m_dim r' = m_dim nb" "m_degree r' = m_degree nb" "m_of r' = m_of r"
    "\<forall>d<m_dim nb. ends r' d = isect_ends nb c d"
    "m_wts r' = map (\<lambda>i. wt nb i + wt c i) [0..<getWtc nb]"
    by (rule intersect_into_Some [OF nb(1) c(1) assms(3)]) (use nb c assms in auto)
  have e: "pt r' d 0 = max (pt nb d 0) (pt c d 0) \<and> pt r' d 1 = min (pt nb d 1) (pt c d 1) \<and> bd r' d 0 \<and> bd r' d 1"
    if d: "d < n" for d
  proof -
    have "ends r' d = isect_ends nb c d" using r(6) d nb(2) by simp
    with d nb c show ?thesis by (auto simp: ends_def isect_ends_def inclusive_def)
  qed
  have ord: "ordered_box r'"
    unfolding ordered_box_def
  proof (intro allI impI)
    fix d assume "d < m_dim r'"
    then have d: "d < n" using r(3) nb(2) by simp
    have "pt nb d 0 \<le> pt c d 1" "pt c d 0 \<le> pt nb d 1"
      using assms(7) d nb(2) by (auto simp: box_intersect_def list_all_upt not_less)
    moreover have "pt nb d 0 \<le> pt nb d 1" "pt c d 0 \<le> pt c d 1"
      using nb c d by (simp_all add: ordered_box_def)
    ultimately show "pt r' d 0 \<le> pt r' d 1" using e [OF d] by auto
  qed
  have "in_box r' x = (\<forall>b\<in>set (bs @ [c]). in_box b x)" for x
    using in_box_isect [OF r(3) _ r(6), of x] assms(1,2) nb(2) c(2) by (auto simp: node_def)
  moreover have "ival r' x = total (bs @ [c]) x" for x
    using ival_isect [of nb r' c x] r(3,4,7) assms(1,6) nb c by (simp add: node_def)
  moreover have "inclusive r'" using e r(3) nb(2) by (simp add: inclusive_def)
  moreover have "\<forall>d<n. 0 \<le> pt r' d 1" using e nb(6) c(6) by auto
  ultimately have "node n deg (bs @ [c]) r'"
    using r(2-4) nb(2,3) ord by (simp add: node_def)
  with that r(1) show ?thesis by blast
qed

lemma node_max:
  assumes "node n deg bs nb" "deg \<le> 1" "0 < n"
  shows "\<forall>b\<in>set bs. in_box b (maxPt_coord nb)" "total bs (maxPt_coord nb) = maxVal nb"
    "in_box nb x \<Longrightarrow> total bs x \<le> maxVal nb"
proof -
  have nb: "wf_box nb" "m_degree nb = deg" "inclusive nb" "ordered_box nb"
    "in_box nb x \<longleftrightarrow> (\<forall>b\<in>set bs. in_box b x)" "ival nb x = total bs x" for x
    using assms(1) by (auto simp: node_def)
  have "in_box nb (maxPt_coord nb)"
    using maxPt_coord_in [of nb] nb(2-4) assms(2) by (simp add: inclusive_in_box)
  then show "\<forall>b\<in>set bs. in_box b (maxPt_coord nb)" using nb(5) by blast
  show "total bs (maxPt_coord nb) = maxVal nb"
    using ival_maxPt [of nb] nb(2,6) assms(2) by simp
  show "in_box nb x \<Longrightarrow> total bs x \<le> maxVal nb"
    using maxVal_upper [of nb x] in_box_closure [of nb x] nb(2,6) assms(2) by simp
qed

section \<open>Bounds of nodes\<close>

lemma choice_pointers: "choice cs fs x \<Longrightarrow> \<exists>ps.
    list_all2 (\<lambda>p pd. p \<in> set (ptrs pd) \<and> in_box (pd_store pd p) x) ps (map m_pdmap fs) \<and>
    sum_list (map2 (\<lambda>p pd. ival (pd_store pd p) x) ps (map m_pdmap fs)) = total cs x"
proof (induction fs arbitrary: cs)
  case (Cons f fs)
  then obtain b bs where b: "cs = b # bs" "b \<in> set (pieces (m_pdmap f))" "in_box b x" "choice bs fs x"
    by (auto simp: choice_def list_all2_Cons2)
  from b(2) obtain p where p: "p \<in> set (ptrs (m_pdmap f))" "b = pd_store (m_pdmap f) p"
    by (auto simp: pieces_def)
  from Cons.IH [OF b(4)] obtain ps where
    "list_all2 (\<lambda>p pd. p \<in> set (ptrs pd) \<and> in_box (pd_store pd p) x) ps (map m_pdmap fs)"
    "sum_list (map2 (\<lambda>p pd. ival (pd_store pd p) x) ps (map m_pdmap fs)) = total bs x" by blast
  with b p show ?case by (intro exI [of _ "p # ps"]) simp
qed (simp add: choice_def)

lemma cheap_bound_loop:
  assumes "m_ofnum pr = length (m_ofs pr)"
  shows "upperCheapBound pr level b =
    foldM (\<lambda>t pd. pd_bound pd b \<bind> (\<lambda>u. Some (t + u))) (maxVal b) (map m_pdmap (drop level (m_ofs pr)))"
proof -
  have "upperCheapBound pr level b =
     foldM (\<lambda>t i. pd_bound (m_pdmap (m_ofs pr ! i)) b \<bind> (\<lambda>u. Some (t + u))) (maxVal b) [level..<m_ofnum pr]"
    unfolding upperCheapBound_def
    by (rule foldM_congruent) (use assms in \<open>auto simp: of_at_def pd_bound_def split: option.splits\<close>)
  also have "\<dots> = foldM (\<lambda>t pd. pd_bound pd b \<bind> (\<lambda>u. Some (t + u))) (maxVal b)
      (map (\<lambda>i. m_pdmap (m_ofs pr ! i)) [level..<m_ofnum pr])"
    by (simp add: foldM_map)
  also have "map (\<lambda>i. m_pdmap (m_ofs pr ! i)) [level..<m_ofnum pr] = map m_pdmap (drop level (m_ofs pr))"
    using map_nth_drop [OF assms, of level] by (metis (no_types, lifting) list.map_comp comp_apply map_eq_conv)
  finally show ?thesis .
qed

theorem upperCheapBound_upper:
  assumes "ready n deg pr" "gridded pr" "node n deg bs nb"
  obtains u where "upperCheapBound pr level nb = Some u"
    "\<And>cs x. in_box nb x \<Longrightarrow> choice cs (drop level (m_ofs pr)) x \<Longrightarrow> total bs x + total cs x \<le> u"
proof -
  have r: "m_ofnum pr = length (m_ofs pr)" "deg \<le> 1" "0 < n" using assms(1) by (simp_all add: ready_def)
  let ?fs = "map m_pdmap (drop level (m_ofs pr))"
  have ok: "\<forall>pd\<in>set ?fs. (wf_pdmap pd \<and> m_grid pd \<noteq> None) \<and> pd_probe pd nb"
  proof
    fix pd assume "pd \<in> set ?fs"
    then obtain f where f: "f \<in> set (m_ofs pr)" "pd = m_pdmap f" by (auto dest: in_set_dropD)
    with assms readyD [OF assms(1) f(1)] show "(wf_pdmap pd \<and> m_grid pd \<noteq> None) \<and> pd_probe pd nb"
      by (auto simp: gridded_def pd_probe_def node_def)
  qed
  from pm.total_bound [OF ok, of "maxVal nb"] obtain u where
    u: "foldM (\<lambda>b f. pd_bound f nb \<bind> (\<lambda>u. Some (b + u))) (maxVal nb) ?fs = Some u"
    "\<And>ps x. in_box nb x \<Longrightarrow> list_all2 (\<lambda>p f. p \<in> set (ptrs f) \<and> in_box (pd_store f p) x) ps ?fs \<Longrightarrow>
       maxVal nb + sum_list (map2 (\<lambda>p f. ival (pd_store f p) x) ps ?fs) \<le> u" by blast
  show ?thesis
  proof (rule that)
    show "upperCheapBound pr level nb = Some u" unfolding cheap_bound_loop [OF r(1)] by (rule u(1))
    fix cs x assume x: "in_box nb x" "choice cs (drop level (m_ofs pr)) x"
    from choice_pointers [OF x(2)] u(2) [OF x(1)] have "maxVal nb + total cs x \<le> u" by fastforce
    with node_max(3) [OF assms(3) r(2,3) x(1)] show "total bs x + total cs x \<le> u" by linarith
  qed
qed

section \<open>One step of the search\<close>

lemma newSolution_node:
  assumes "node n deg bs nb" "0 < n" "best_ok n deg fs s"
  shows "newSolution v nb s = Some (s\<lparr>m_maxbox := Some nb, m_maxwt := v\<rparr>)"
proof (cases "m_maxbox s")
  case None
  with assms(1,2) show ?thesis by (simp add: newSolution_def node_def box_copy_eq)
next
  case (Some mb)
  with assms have "copy_from mb nb = Some nb"
    by (intro copy_from_eq) (auto simp: node_def best_ok_def)
  with Some show ?thesis by (simp add: newSolution_def)
qed

text \<open>The boundary of the tree: the maximum of the node is settled.\<close>

lemma boundary_step:
  assumes "ready n deg pr" "nodes_ok n deg pr s" "best_ok n deg (m_ofs pr) s"
    "node n deg bs (nodeBox s ! m_ofnum pr)" "chosen bs (m_ofs pr)"
  obtains s' where "boundary CompactorNull pr (m_ofnum pr) s = Some s'" "nodes_ok n deg pr s'"
    "best_ok n deg (m_ofs pr) s'" "improves s s'" "nodeBox s' = nodeBox s"
    "\<And>x. choice bs (m_ofs pr) x \<Longrightarrow> beats (m_epsilon pr) s' (total bs x)"
proof -
  let ?nb = "nodeBox s ! m_ofnum pr"
  have r: "deg \<le> 1" "0 < n" "0 \<le> m_epsilon pr" using assms(1) by (simp_all add: ready_def)
  note mx = node_max [OF assms(4) r(1,2)]
  have inb: "in_box ?nb x \<longleftrightarrow> choice bs (m_ofs pr) x" for x
    using assms(4,5) by (simp add: node_def choice_chosen)
  have cm: "choice bs (m_ofs pr) (maxPt_coord ?nb)" using mx(1) assms(5) by (simp add: choice_chosen)
  show ?thesis
  proof (cases "m_maxbox s = None \<or> maxVal ?nb > m_maxwt s + m_epsilon pr")
    case True
    let ?s = "s\<lparr>m_maxbox := Some ?nb, m_maxwt := maxVal ?nb\<rparr>"
    have "boundary CompactorNull pr (m_ofnum pr) s = Some ?s"
      using True newSolution_node [OF assms(4) r(2) assms(3)] by (simp add: boundary_def CompactorNull_def)
    moreover have "best_ok n deg (m_ofs pr) ?s"
      using assms(4) cm mx(2) by (auto simp: best_ok_def node_def)
    moreover have "improves s ?s" using True r(3) by (auto simp: improves_def)
    moreover have "choice bs (m_ofs pr) x \<Longrightarrow> beats (m_epsilon pr) ?s (total bs x)" for x
      using mx(3) [of x] inb [of x] r(3) by (simp add: beats_def)
    ultimately show ?thesis using that assms(2) by (simp add: nodes_ok_def)
  next
    case False
    have "choice bs (m_ofs pr) x \<Longrightarrow> beats (m_epsilon pr) s (total bs x)" for x
      using mx(3) [of x] inb [of x] False by (auto simp: beats_def)
    then show ?thesis using that [of s] False assms(2,3) by (simp add: boundary_def CompactorNull_def)
  qed
qed

text \<open>What the recursion promises for the node at \<open>level\<close>, which stands for the pieces \<open>bs\<close>.\<close>

definition settles :: "nat \<Rightarrow> nat \<Rightarrow> problem \<Rightarrow> ivpbox list \<Rightarrow> nat \<Rightarrow> search \<Rightarrow> search \<Rightarrow> bool" where
  "settles n deg pr bs level s s' \<longleftrightarrow> nodes_ok n deg pr s' \<and> best_ok n deg (m_ofs pr) s' \<and> improves s s' \<and>
     (\<forall>k\<le>level. nodeBox s' ! k = nodeBox s ! k) \<and>
     (\<forall>cs x. choice (bs @ cs) (m_ofs pr) x \<longrightarrow> beats (m_epsilon pr) s' (total (bs @ cs) x))"

text \<open>The pruning test: a node that is not entered needs no search.\<close>

lemma worth_entering_prunes:
  assumes "ready n deg pr" "gridded pr" "node n deg bs (nodeBox s ! level)" "length bs = level" "level \<le> m_ofnum pr"
  obtains b where "worth_entering pr level s = Some b"
    "\<And>cs x. \<not> b \<Longrightarrow> choice (bs @ cs) (m_ofs pr) x \<Longrightarrow> beats (m_epsilon pr) s (total (bs @ cs) x)"
proof -
  let ?nb = "nodeBox s ! level"
  have r: "m_ofnum pr = length (m_ofs pr)" using assms(1) by (simp add: ready_def)
  obtain u where u: "upperCheapBound pr level ?nb = Some u"
    "\<And>cs x. in_box ?nb x \<Longrightarrow> choice cs (drop level (m_ofs pr)) x \<Longrightarrow> total bs x + total cs x \<le> u"
    by (rule upperCheapBound_upper [OF assms(1-3)]) blast
  show ?thesis
  proof (rule that)
    show "worth_entering pr level s = Some (m_maxbox s = None \<or> u > m_maxwt s + m_epsilon pr)"
      using u(1) by (simp add: worth_entering_def)
    fix cs x assume h: "\<not> (m_maxbox s = None \<or> u > m_maxwt s + m_epsilon pr)" "choice (bs @ cs) (m_ofs pr) x"
    from h(2) have c: "choice bs (take level (m_ofs pr)) x" "choice cs (drop level (m_ofs pr)) x"
      using choice_append [OF assms(4)] assms(5) r by simp_all
    then have "\<forall>b\<in>set bs. in_box b x" by (auto simp: choice_def list_all2_conv_all_nth in_set_conv_nth)
    then have "in_box ?nb x" using assms(3) by (simp add: node_def)
    from u(2) [OF this c(2)] h(1) show "beats (m_epsilon pr) s (total (bs @ cs) x)"
      by (simp add: beats_def)
  qed
qed

section \<open>The search\<close>

text \<open>The body of the loop over the boxes of a level, for any way \<open>G\<close> to go on below.\<close>

definition level_step :: "(search \<Rightarrow> search option) \<Rightarrow> box_store \<Rightarrow> nat \<Rightarrow> search \<Rightarrow> box_ptr \<Rightarrow> search option" where
  "level_step G st level s p =
     (case intersect_into (nodeBox s ! level) (st p) (Some (nodeBox s ! (level + 1))) of
        (result, rb) \<Rightarrow>
          let s1 = s\<lparr>nodeBox := (nodeBox s)[level + 1 := the rb]\<rparr> in if result then G s1 else Some s1)"

text \<open>Going below settles the node it is given.\<close>

definition settling :: "nat \<Rightarrow> nat \<Rightarrow> problem \<Rightarrow> ivpbox list \<Rightarrow> nat \<Rightarrow> (search \<Rightarrow> search option) \<Rightarrow> bool" where
  "settling n deg pr bs level G \<longleftrightarrow>
     (\<forall>s. nodes_ok n deg pr s \<longrightarrow> best_ok n deg (m_ofs pr) s \<longrightarrow> node n deg bs (nodeBox s ! level) \<longrightarrow>
        (\<exists>s'. G s = Some s' \<and> settles n deg pr bs level s s'))"

lemma level_step_settles:
  assumes "ready n deg pr" "level < m_ofnum pr" "node n deg bs (nodeBox s ! level)"
    "nodes_ok n deg pr s" "best_ok n deg (m_ofs pr) s"
    "c = pd_store (m_pdmap (m_ofs pr ! level)) p" "p \<in> set (ptrs (m_pdmap (m_ofs pr ! level)))"
    "settling n deg pr (bs @ [c]) (level + 1) G"
  shows "\<exists>s'. level_step G (pd_store (m_pdmap (m_ofs pr ! level))) level s p = Some s' \<and>
    nodes_ok n deg pr s' \<and> best_ok n deg (m_ofs pr) s' \<and> improves s s' \<and>
    (\<forall>k\<le>level. nodeBox s' ! k = nodeBox s ! k) \<and>
    (\<forall>cs x. choice (bs @ c # cs) (m_ofs pr) x \<longrightarrow> beats (m_epsilon pr) s' (total (bs @ c # cs) x))"
proof -
  let ?nb = "nodeBox s ! level" and ?r = "nodeBox s ! (level + 1)"
  have f: "m_ofs pr ! level \<in> set (m_ofs pr)" using assms(1,2) by (simp add: ready_def)
  note rd = readyD [OF assms(1) f]
  have c: "c \<in> set (pieces (m_pdmap (m_ofs pr ! level)))" using assms(6,7) by (simp add: pieces_def)
  have nc: "node n deg [c] c" by (rule node_piece [OF rd(5) [OF c] wf_pdmapD(1) [OF rd(1)] rd(2) rd(4) [OF c]])
  have len: "level + 1 < length (nodeBox s)" using assms(2,4) by (simp add: nodes_ok_def)
  then have r: "wf_box ?r" "m_dim ?r = n" "m_degree ?r = deg" using assms(4) by (simp_all add: nodes_ok_def)
  show ?thesis
  proof (cases "box_intersect ?nb c")
    case False
    have "\<not> choice (bs @ c # cs) (m_ofs pr) x" for cs x
      using False box_intersect_complete [of ?nb x c] assms(3) nc by (auto simp: choice_chosen node_def)
    moreover have "level_step G (pd_store (m_pdmap (m_ofs pr ! level))) level s p = Some s"
      using False assms(6) by (simp add: level_step_def intersect_into_def Let_def)
    ultimately show ?thesis using assms(4,5) by simp
  next
    case True
    have n: "0 < n" using assms(1) by (simp add: ready_def)
    obtain r' where r': "intersect_into ?nb c (Some ?r) = (True, Some r')" "node n deg (bs @ [c]) r'"
      by (rule node_intersect [OF assms(3) nc r n True])
    let ?s = "s\<lparr>nodeBox := (nodeBox s)[level + 1 := r']\<rparr>"
    have nk: "nodes_ok n deg pr ?s"
      using assms(4) r'(2) len by (auto simp: nodes_ok_def node_def dest!: set_update_subset_insert [THEN subsetD])
    have nn: "node n deg (bs @ [c]) (nodeBox ?s ! (level + 1))" using r'(2) len by simp
    from assms(8) nk nn assms(5) obtain s' where s': "G ?s = Some s'" "settles n deg pr (bs @ [c]) (level + 1) ?s s'"
      unfolding settling_def by (metis improves_nodes(3))
    have "level_step G (pd_store (m_pdmap (m_ofs pr ! level))) level s p = Some s'"
      using r'(1) s'(1) assms(6) by (simp add: level_step_def)
    with s'(2) show ?thesis by (auto simp: settles_def)
  qed
qed

lemma level_loop_settles:
  assumes "ready n deg pr" "level < m_ofnum pr" "length bs = level" "node n deg bs (nodeBox s ! level)"
    "nodes_ok n deg pr s" "best_ok n deg (m_ofs pr) s" "set r \<subseteq> set (ptrs (m_pdmap (m_ofs pr ! level)))"
    and found: "\<forall>p\<in>set (ptrs (m_pdmap (m_ofs pr ! level))). \<forall>x. in_box (nodeBox s ! level) x \<longrightarrow>
      in_box (pd_store (m_pdmap (m_ofs pr ! level)) p) x \<longrightarrow> p \<in> set r"
    and G: "\<And>c. c \<in> set (pieces (m_pdmap (m_ofs pr ! level))) \<Longrightarrow> settling n deg pr (bs @ [c]) (level + 1) G"
  shows "\<exists>s'. foldM (level_step G (pd_store (m_pdmap (m_ofs pr ! level))) level) s r = Some s' \<and>
    settles n deg pr bs level s s'"
proof -
  let ?pd = "m_pdmap (m_ofs pr ! level)"
  let ?I = "\<lambda>t. nodes_ok n deg pr t \<and> best_ok n deg (m_ofs pr) t \<and> (\<forall>k\<le>level. nodeBox t ! k = nodeBox s ! k)"
  let ?Q = "\<lambda>p t. \<forall>cs x. choice (bs @ pd_store ?pd p # cs) (m_ofs pr) x \<longrightarrow>
    beats (m_epsilon pr) t (total (bs @ pd_store ?pd p # cs) x)"
  have "\<exists>s'. foldM (level_step G (pd_store ?pd) level) s r = Some s' \<and> ?I s' \<and> improves s s' \<and> (\<forall>p\<in>set r. ?Q p s')"
  proof (rule foldM_progress)
    show "?I s" using assms(5,6) by simp
    fix t p assume I: "?I t" and "p \<in> set r"
    then have p: "p \<in> set (ptrs ?pd)" "pd_store ?pd p \<in> set (pieces ?pd)" using assms(7) by (auto simp: pieces_def)
    have nt: "node n deg bs (nodeBox t ! level)" using I assms(4) by simp
    from level_step_settles [OF assms(1,2) nt _ _ refl p(1) G [OF p(2)]] I
    show "\<exists>s'. level_step G (pd_store ?pd) level t p = Some s' \<and> ?I s' \<and> improves t s' \<and> ?Q p s'" by fastforce
  qed (auto intro: improves_trans beats_improves)
  then obtain s' where s': "foldM (level_step G (pd_store ?pd) level) s r = Some s'" "?I s'" "improves s s'"
    "\<forall>p\<in>set r. ?Q p s'" by blast
  have "beats (m_epsilon pr) s' (total (bs @ cs) x)" if ch: "choice (bs @ cs) (m_ofs pr) x" for cs x
  proof -
    have len: "level < length (m_ofs pr)" using assms(1,2) by (simp add: ready_def)
    have "choice cs (drop level (m_ofs pr)) x" using ch choice_append [OF assms(3)] len by simp
    then have "choice cs (m_ofs pr ! level # drop (Suc level) (m_ofs pr)) x"
      using Cons_nth_drop_Suc [OF len] by simp
    then obtain c ds where c: "cs = c # ds" "c \<in> set (pieces ?pd)" "in_box c x"
      by (auto simp: choice_def list_all2_Cons2)
    then obtain p where p: "p \<in> set (ptrs ?pd)" "c = pd_store ?pd p" by (auto simp: pieces_def)
    have "in_box (nodeBox s ! level) x" using assms(4) ch by (auto simp: node_def choice_chosen)
    with found p c(3) have "p \<in> set r" by blast
    with s'(4) p(2) c(1) ch show ?thesis by auto
  qed
  with s' show ?thesis by (auto simp: settles_def)
qed

lemma level_query:
  assumes "ready n deg pr" "gridded pr" "level < m_ofnum pr" "node n deg bs nb"
  obtains r where "of_at pr level = Some (m_ofs pr ! level)" "pd_getBS (m_pdmap (m_ofs pr ! level)) nb = Some r"
    "set r \<subseteq> set (ptrs (m_pdmap (m_ofs pr ! level)))"
    "\<forall>p\<in>set (ptrs (m_pdmap (m_ofs pr ! level))). \<forall>x. in_box nb x \<longrightarrow>
      in_box (pd_store (m_pdmap (m_ofs pr ! level)) p) x \<longrightarrow> p \<in> set r"
proof -
  have f: "m_ofs pr ! level \<in> set (m_ofs pr)" using assms(1,3) by (simp add: ready_def)
  note rd = readyD [OF assms(1) f]
  have "wf_pdmap (m_pdmap (m_ofs pr ! level)) \<and> m_grid (m_pdmap (m_ofs pr ! level)) \<noteq> None"
    using rd(1) f assms(2) by (simp add: gridded_def)
  moreover have "pd_probe (m_pdmap (m_ofs pr ! level)) nb" using assms(4) rd(2) by (simp add: pd_probe_def node_def)
  ultimately show ?thesis using pm.query_law that ready_of_at [OF assms(1,3)] by blast
qed

lemma chosen_snoc: "chosen bs (take level fs) \<Longrightarrow> level < length fs \<Longrightarrow>
    c \<in> set (pieces (m_pdmap (fs ! level))) \<Longrightarrow> chosen (bs @ [c]) (take (level + 1) fs)"
  by (auto simp: chosen_def take_Suc_conv_app_nth intro: list_all2_appendI)

lemma solveRecurse_level:
  assumes "level < m_ofnum pr"
  shows "solveRecurse cp pr level s =
    of_at pr level \<bind> (\<lambda>f. pd_getBS (m_pdmap f) (nodeBox s ! level) \<bind> (\<lambda>levelBoxes.
      foldM (level_step (\<lambda>s. worth_entering pr (level + 1) s \<bind>
        (\<lambda>enter. if enter then solveRecurse cp pr (level + 1) s else Some s)) (pd_store (m_pdmap f)) level)
        s levelBoxes))"
proof -
  have n: "level \<noteq> m_ofnum pr" "\<not> level > m_ofnum pr" using assms by auto
  show ?thesis unfolding level_step_def [abs_def]
    by (subst solveRecurse.simps) (simp only: n if_False)
qed

theorem solveRecurse_settles:
  assumes "ready n deg pr" "gridded pr" "level \<le> m_ofnum pr" "chosen bs (take level (m_ofs pr))"
  shows "settling n deg pr bs level (solveRecurse CompactorNull pr level)"
  using assms(3,4)
proof (induction "m_ofnum pr - level" arbitrary: level bs)
  case 0
  then have lv: "level = m_ofnum pr" "chosen bs (m_ofs pr)" using assms(1) by (simp_all add: ready_def)
  have nil: "choice (bs @ cs) (m_ofs pr) x \<Longrightarrow> cs = []" for cs x
    using lv(2) by (auto simp: choice_def chosen_def dest!: list_all2_lengthD)
  show ?case
    unfolding settling_def
  proof (intro allI impI)
    fix s assume s: "nodes_ok n deg pr s" "best_ok n deg (m_ofs pr) s" "node n deg bs (nodeBox s ! level)"
    obtain s' where s': "boundary CompactorNull pr (m_ofnum pr) s = Some s'" "nodes_ok n deg pr s'"
      "best_ok n deg (m_ofs pr) s'" "improves s s'" "nodeBox s' = nodeBox s"
      "\<And>x. choice bs (m_ofs pr) x \<Longrightarrow> beats (m_epsilon pr) s' (total bs x)"
      using boundary_step [OF assms(1) s(1,2) s(3) [unfolded lv(1)] lv(2)] by blast
    have "settles n deg pr bs level s s'"
      unfolding settles_def
    proof (intro conjI allI impI)
      fix cs x assume "choice (bs @ cs) (m_ofs pr) x"
      with nil [OF this] s'(6) [of x] show "beats (m_epsilon pr) s' (total (bs @ cs) x)" by simp
    qed (use s'(2-5) in simp_all)
    with s'(1) lv(1) show "\<exists>s'. solveRecurse CompactorNull pr level s = Some s' \<and> settles n deg pr bs level s s'"
      by (simp add: solveRecurse.simps [of _ _ "m_ofnum pr"])
  qed
next
  case (Suc k)
  then have lv: "level < m_ofnum pr" "k = m_ofnum pr - (level + 1)" "level + 1 \<le> m_ofnum pr" by auto
  have lf: "level < length (m_ofs pr)" using lv(1) assms(1) by (simp add: ready_def)
  have len: "length bs = level" using Suc.prems(2) lf by (auto simp: chosen_def dest!: list_all2_lengthD)
  let ?G = "\<lambda>s. worth_entering pr (level + 1) s \<bind>
      (\<lambda>enter. if enter then solveRecurse CompactorNull pr (level + 1) s else Some s)"
  have G: "settling n deg pr (bs @ [c]) (level + 1) ?G"
    if c: "c \<in> set (pieces (m_pdmap (m_ofs pr ! level)))" for c
    unfolding settling_def
  proof (intro allI impI)
    fix s assume s: "nodes_ok n deg pr s" "best_ok n deg (m_ofs pr) s" "node n deg (bs @ [c]) (nodeBox s ! (level + 1))"
    have l1: "length (bs @ [c]) = level + 1" using len by simp
    obtain b where b: "worth_entering pr (level + 1) s = Some b"
      "\<And>cs x. \<not> b \<Longrightarrow> choice ((bs @ [c]) @ cs) (m_ofs pr) x \<Longrightarrow>
        beats (m_epsilon pr) s (total ((bs @ [c]) @ cs) x)"
      using worth_entering_prunes [OF assms(1,2) s(3) l1 lv(3)] by blast
    have IH: "settling n deg pr (bs @ [c]) (level + 1) (solveRecurse CompactorNull pr (level + 1))"
      by (rule Suc.hyps(1) [OF lv(2,3) chosen_snoc [OF Suc.prems(2) lf c]])
    show "\<exists>s'. ?G s = Some s' \<and> settles n deg pr (bs @ [c]) (level + 1) s s'"
    proof (cases b)
      case True
      with b(1) IH s show ?thesis by (simp add: settling_def)
    next
      case False
      with b s show ?thesis by (auto simp: settles_def)
    qed
  qed
  show ?case
    unfolding settling_def
  proof (intro allI impI)
    fix s assume s: "nodes_ok n deg pr s" "best_ok n deg (m_ofs pr) s" "node n deg bs (nodeBox s ! level)"
    obtain r where r: "of_at pr level = Some (m_ofs pr ! level)"
      "pd_getBS (m_pdmap (m_ofs pr ! level)) (nodeBox s ! level) = Some r"
      "set r \<subseteq> set (ptrs (m_pdmap (m_ofs pr ! level)))"
      "\<forall>p\<in>set (ptrs (m_pdmap (m_ofs pr ! level))). \<forall>x. in_box (nodeBox s ! level) x \<longrightarrow>
        in_box (pd_store (m_pdmap (m_ofs pr ! level)) p) x \<longrightarrow> p \<in> set r"
      by (rule level_query [OF assms(1,2) lv(1) s(3)])
    have "solveRecurse CompactorNull pr level s =
        foldM (level_step ?G (pd_store (m_pdmap (m_ofs pr ! level))) level) s r"
      unfolding solveRecurse_level [OF lv(1)] r(1) Option.bind.bind_lunit r(2) ..
    with level_loop_settles [OF assms(1) lv(1) len s(3,1,2) r(3,4) G]
    show "\<exists>s'. solveRecurse CompactorNull pr level s = Some s' \<and> settles n deg pr bs level s s'" by simp
  qed
qed

section \<open>Preparing the search\<close>

lemma setWT_shape: "wf_box b \<Longrightarrow> wf_box (setWT w b)" "m_dim (setWT w b) = m_dim b" "m_degree (setWT w b) = m_degree b"
proof -
  have "same_region r b \<and> wf_box r" if "wf_box b" "r = foldl (\<lambda>r i. set_wt i 0 r) b is" for r "is"
    using that by (simp add: foldl_set_wt same_region_def wf_box_def getWtc_def)
  have f: "m_dim (foldl (\<lambda>r i. set_wt i 0 r) b is) = m_dim b" "m_degree (foldl (\<lambda>r i. set_wt i 0 r) b is) = m_degree b"
    "wf_box b \<Longrightarrow> wf_box (foldl (\<lambda>r i. set_wt i 0 r) b is)" for "is"
    by (simp_all add: foldl_set_wt wf_box_def getWtc_def)
  show "wf_box b \<Longrightarrow> wf_box (setWT w b)" "m_dim (setWT w b) = m_dim b" "m_degree (setWT w b) = m_degree b"
    unfolding setWT_def using f by (simp_all add: box_simps)
qed

lemma make_nodes_ok:
  assumes "ready n deg pr" "0 < m_ofnum pr"
  obtains ns where "make_nodes pr = Some ns" "length ns = m_ofnum pr + 1"
    "\<forall>b\<in>set ns. wf_box b \<and> m_dim b = n \<and> m_degree b = deg"
proof -
  let ?f = "m_ofs pr ! 0" and ?k = "m_ofnum pr + 1"
  have f: "?f \<in> set (m_ofs pr)" using assms by (simp add: ready_def)
  note rd = readyD [OF assms(1) f]
  have n: "0 < n" "n < 2 ^ 16" "deg < 2 ^ 16" using assms(1) by (simp_all add: ready_def)
  let ?u = "getUniverse (m_pdmap ?f)"
  have u: "wf_box ?u" "m_dim ?u = n" "m_degree ?u = deg"
    using spanning_box_facts [of "pd_domain (m_pdmap ?f)" deg] rd(2,3) n by (simp_all add: getUniverse_def)
  have "foldM (\<lambda>nodes i. Some (nodes @ [?u])) ns is = Some (ns @ replicate (length is) ?u)" for ns and "is" :: "nat list"
    by (induction "is" arbitrary: ns) (auto simp: replicate_app_Cons_same)
  from this [of "[]" "[0..<?k]"] have r: "foldM (\<lambda>nodes i. Some (nodes @ [?u])) [] [0..<?k] = Some (replicate ?k ?u)"
    by (simp del: replicate_Suc upt_Suc)
  have c: "box_copy ?u = Some ?u" by (rule box_copy_eq) (use u n in simp_all)
  let ?ns = "(replicate ?k ?u)[0 := setWT 0 (replicate ?k ?u ! 0)]"
  have "make_nodes pr = Some ?ns"
    unfolding make_nodes_def ready_of_at [OF assms] Option.bind.bind_lunit c r ..
  moreover have "\<forall>b\<in>set ?ns. wf_box b \<and> m_dim b = n \<and> m_degree b = deg"
    using u setWT_shape [where b = ?u and w = 0] by auto
  ultimately show ?thesis using that by simp
qed

text \<open>Building missing grids changes nothing else.\<close>

definition regridded :: "problem \<Rightarrow> problem \<Rightarrow> bool" where
  "regridded pr pr' \<longleftrightarrow> pr'\<lparr>m_ofs := m_ofs pr\<rparr> = pr \<and> length (m_ofs pr') = length (m_ofs pr) \<and>
     (\<forall>i<length (m_ofs pr). same_but_grid (m_pdmap (m_ofs pr' ! i)) (m_pdmap (m_ofs pr ! i)) \<and>
        wf_pdmap (m_pdmap (m_ofs pr' ! i)) \<and> m_pwt (m_ofs pr' ! i) = m_pwt (m_ofs pr ! i))"

lemma regriddedD:
  assumes "regridded pr pr'"
  shows "m_maxbox pr' = m_maxbox pr" "m_maxwt pr' = m_maxwt pr" "m_ofnum pr' = m_ofnum pr"
    "m_epsilon pr' = m_epsilon pr" "p_domain pr' = p_domain pr" "length (m_ofs pr') = length (m_ofs pr)"
    "pr' = pr\<lparr>m_ofs := m_ofs pr'\<rparr>"
proof -
  have e: "pr = pr'\<lparr>m_ofs := m_ofs pr\<rparr>" using assms by (simp add: regridded_def)
  show "m_maxbox pr' = m_maxbox pr" "m_maxwt pr' = m_maxwt pr" "m_ofnum pr' = m_ofnum pr"
    "m_epsilon pr' = m_epsilon pr" "p_domain pr' = p_domain pr" by (subst e, simp)+
  show "length (m_ofs pr') = length (m_ofs pr)" using assms by (simp add: regridded_def)
  show "pr' = pr\<lparr>m_ofs := m_ofs pr'\<rparr>" by (subst e) simp
qed

lemma regridded_choice:
  assumes "regridded pr pr'"
  shows "choice bs (m_ofs pr') x = choice bs (m_ofs pr) x"
proof -
  have "pieces (m_pdmap (m_ofs pr' ! i)) = pieces (m_pdmap (m_ofs pr ! i))" if "i < length (m_ofs pr)" for i
    using assms that same_but_gridD(1) by (auto simp: regridded_def)
  with regriddedD(6) [OF assms] show ?thesis by (auto simp: choice_def list_all2_conv_all_nth)
qed

lemma regridded_best: "regridded pr pr' \<Longrightarrow> best_ok n deg (m_ofs pr') s = best_ok n deg (m_ofs pr) s"
  by (simp add: best_ok_def regridded_choice)

lemma regridded_ready:
  assumes "regridded pr pr'" "ready n deg pr"
  shows "ready n deg pr'"
proof -
  note d = regriddedD [OF assms(1)]
  have "wf_pdmap (m_pdmap f) \<and> dom_size (pd_domain (m_pdmap f)) = n \<and>
        pd_degree (m_pdmap f) = deg \<and> (\<forall>b\<in>set (pieces (m_pdmap f)). inclusive b)" if f: "f \<in> set (m_ofs pr')" for f
  proof -
    obtain i where i: "i < length (m_ofs pr)" "f = m_ofs pr' ! i" using f d(6) by (auto simp: in_set_conv_nth)
    then have s: "same_but_grid (m_pdmap f) (m_pdmap (m_ofs pr ! i))" "wf_pdmap (m_pdmap f)"
      using assms(1) by (simp_all add: regridded_def)
    note rd = readyD [OF assms(2) nth_mem [OF i(1)]]
    show ?thesis using s(2) same_but_gridD [OF s(1)] rd by simp
  qed
  with assms(2) d show ?thesis by (simp add: ready_def)
qed

lemma give_grids_ok:
  assumes "ready n deg pr" "k \<le> m_ofnum pr"
  obtains pr' where "foldM (\<lambda>pr j. give_grid j pr) pr [0..<k] = Some pr'" "regridded pr pr'"
    "\<forall>i<k. m_grid (m_pdmap (m_ofs pr' ! i)) \<noteq> None"
  using assms(2)
proof (induction k arbitrary: thesis)
  case 0
  have "regridded pr pr" using assms(1) by (simp add: regridded_def ready_def same_but_grid_def)
  with 0 show ?case by simp
next
  case (Suc k)
  obtain pr' where p: "foldM (\<lambda>pr j. give_grid j pr) pr [0..<k] = Some pr'" "regridded pr pr'"
    "\<forall>i<k. m_grid (m_pdmap (m_ofs pr' ! i)) \<noteq> None" using Suc.IH Suc.prems(2) by auto
  note d = regriddedD [OF p(2)]
  have k: "k < length (m_ofs pr)" "k < m_ofnum pr'" using Suc.prems(2) assms(1) d(3) by (simp_all add: ready_def)
  have at: "of_at pr' k = Some (m_ofs pr' ! k)" using k d(6) by (simp add: of_at_def)
  have wf: "wf_pdmap (m_pdmap (m_ofs pr' ! k))" using p(2) k(1) by (simp add: regridded_def)
  show ?case
  proof (cases "m_grid (m_pdmap (m_ofs pr' ! k)) = None")
    case False
    then have "give_grid k pr' = Some pr'" using at by (auto simp: give_grid_def)
    with p False Suc.prems(1) [of pr'] show ?thesis by (auto simp: foldM_append less_Suc_eq)
  next
    case True
    obtain pd where pd: "updateGrid True True (m_pdmap (m_ofs pr' ! k)) = Some pd" "wf_pdmap pd"
      "same_but_grid pd (m_pdmap (m_ofs pr' ! k))" "m_grid pd \<noteq> None"
      by (rule updateGrid_wf [OF wf_core [OF wf]])
    let ?f = "(m_ofs pr' ! k)\<lparr>m_pdmap := pd\<rparr>" and ?pr = "pr'\<lparr>m_ofs := (m_ofs pr')[k := (m_ofs pr' ! k)\<lparr>m_pdmap := pd\<rparr>]\<rparr>"
    have g: "give_grid k pr' = Some ?pr" using at True pd(1) by (simp add: give_grid_def)
    have sk: "same_but_grid pd (m_pdmap (m_ofs pr ! k))"
      using pd(3) p(2) k(1) by (simp add: regridded_def same_but_grid_def)
    have "regridded pr ?pr"
      using p(2) k(1) d(6) pd(2) sk by (auto simp: regridded_def nth_list_update)
    moreover have "\<forall>i<Suc k. m_grid (m_pdmap (m_ofs ?pr ! i)) \<noteq> None"
      using p(3) pd(4) k(1) d(6) by (auto simp: nth_list_update less_Suc_eq)
    ultimately show ?thesis using Suc.prems(1) [of ?pr] p(1) g by (simp add: foldM_append)
  qed
qed

text \<open>The functions are the same but for their grids.\<close>

definition grids_only :: "ivpfunction list \<Rightarrow> ivpfunction list \<Rightarrow> bool" where
  "grids_only fs fs' \<longleftrightarrow> list_all2 (\<lambda>f f'. same_but_grid (m_pdmap f') (m_pdmap f) \<and> wf_pdmap (m_pdmap f') \<and> m_pwt f' = m_pwt f) fs fs'"

lemma regridded_grids_only: "regridded pr pr' \<Longrightarrow> grids_only (m_ofs pr) (m_ofs pr')"
  by (simp add: regridded_def grids_only_def list_all2_conv_all_nth)

section \<open>Initial solutions\<close>

lemma in_box_cong: "(\<And>d. d < m_dim b \<Longrightarrow> x d = y d) \<Longrightarrow> in_box b x = in_box b y"
  by (simp add: in_box_def)

lemma ival_cong: "(\<And>d. d < m_dim b \<Longrightarrow> x d = y d) \<Longrightarrow> ival b x = ival b y"
  by (simp add: ival_def quad_val_def)

lemma at_point_max: "at_point b x \<Longrightarrow> m_degree b \<le> 1 \<Longrightarrow> d < m_dim b \<Longrightarrow> maxPt_coord b d = x d"
  by (auto simp: maxPt_coord_def at_point_ends)

lemma choice_cong:
  assumes "ready n deg pr" "choice bs (m_ofs pr) x" "\<And>d. d < n \<Longrightarrow> y d = x d"
  shows "choice bs (m_ofs pr) y" "total bs y = total bs x"
proof -
  have ch: "chosen bs (m_ofs pr)" "\<forall>b\<in>set bs. in_box b x" using assms(2) by (auto simp: choice_chosen)
  have dm: "m_dim b = n" if b: "b \<in> set bs" for b
  proof -
    obtain i where i: "i < length bs" "b = bs ! i" using b by (auto simp: in_set_conv_nth)
    then have "m_ofs pr ! i \<in> set (m_ofs pr)" "b \<in> set (pieces (m_pdmap (m_ofs pr ! i)))"
      using ch(1) by (auto simp: chosen_def list_all2_conv_all_nth)
    with readyD(2,5) [OF assms(1)] show ?thesis by (auto simp: good_piece_def)
  qed
  have e: "in_box b y = in_box b x" "ival b y = ival b x" if "b \<in> set bs" for b
    using in_box_cong [of b y x] ival_cong [of b y x] dm [OF that] assms(3) by auto
  show "choice bs (m_ofs pr) y" using ch e by (simp add: choice_chosen)
  show "total bs y = total bs x" using e(2) by (simp add: total_def cong: map_cong)
qed

text \<open>A box that may be given as an initial solution: a point box of the right shape inside all domains.\<close>

definition init_box :: "nat \<Rightarrow> nat \<Rightarrow> problem \<Rightarrow> ivpbox \<Rightarrow> bool" where
  "init_box n deg pr b \<longleftrightarrow> wf_box b \<and> m_dim b = n \<and> m_degree b = deg \<and>
     (\<exists>x. at_point b x \<and> (\<forall>f\<in>set (m_ofs pr). in_dom (pd_domain (m_pdmap f)) x)) \<and>
     (\<forall>f\<in>set (m_ofs pr). 0 < m_boxCount (m_pdmap f))"

lemma init_weight_loop:
  assumes "ready n deg pr" "m_dim b = n" "at_point b x" "\<forall>f\<in>set (m_ofs pr). in_dom (pd_domain (m_pdmap f)) x"
    "\<forall>f\<in>set (m_ofs pr). 0 < m_boxCount (m_pdmap f)" "k \<le> m_ofnum pr"
  shows "\<exists>weight covered. foldM (\<lambda>(weight, covered) i.
             if covered
             then of_at pr i \<bind> (\<lambda>f. evalPoint (m_pdmap f) b covered \<bind>
                    (\<lambda>(v, c). Some (weight + v, c)))
             else Some (weight, covered)) (0, True) [0..<k] = Some (weight, covered) \<and>
     (covered \<longrightarrow> (\<exists>bs. choice bs (take k (m_ofs pr)) x \<and> total bs x = weight))"
  using assms(6)
proof (induction k)
  case 0
  have "choice [] [] x" by (simp add: choice_def)
  then show ?case by fastforce
next
  case (Suc k)
  let ?F = "\<lambda>(weight, covered) i. if covered
             then of_at pr i \<bind> (\<lambda>f. evalPoint (m_pdmap f) b covered \<bind>
                    (\<lambda>(v, c). Some (weight + v, c)))
             else Some (weight, covered)"
  obtain weight covered where wc: "foldM ?F (0, True) [0..<k] = Some (weight, covered)"
    "covered \<longrightarrow> (\<exists>bs. choice bs (take k (m_ofs pr)) x \<and> total bs x = weight)" using Suc by auto
  have up: "foldM ?F (0, True) [0..<Suc k] = ?F (weight, covered) k"
    using wc(1) by (simp add: foldM_append split: Option.bind_splits)
  show ?case
  proof (cases covered)
    case False
    with up show ?thesis by (intro exI [of _ weight] exI [of _ False]) simp
  next
    case True
    let ?f = "m_ofs pr ! k"
    have k: "k < length (m_ofs pr)" "k < m_ofnum pr" using Suc.prems assms(1) by (simp_all add: ready_def)
    then have f: "?f \<in> set (m_ofs pr)" by simp
    note rd = readyD [OF assms(1) f]
    have dm: "m_dim b = dom_size (pd_domain (m_pdmap ?f))" using assms(2) rd(2) by simp
    have q: "0 < m_boxCount (m_pdmap ?f)" "in_dom (pd_domain (m_pdmap ?f)) x" using assms(4,5) f by auto
    obtain v c where vc: "evalPoint (m_pdmap ?f) b True = Some (v, c)"
      "c \<Longrightarrow> \<exists>p\<in>set (pieces (m_pdmap ?f)). in_box p x \<and> v = ival p x"
      by (rule evalPoint_sound [OF rd(1) assms(3) dm q, of True]) blast
    from True wc(2) obtain bs where bs: "choice bs (take k (m_ofs pr)) x" "total bs x = weight" by blast
    have "\<exists>bs. choice bs (take (Suc k) (m_ofs pr)) x \<and> total bs x = weight + v" if c
    proof -
      from vc(2) [OF that] obtain p where p: "p \<in> set (pieces (m_pdmap ?f))" "in_box p x" "v = ival p x" by blast
      have "choice (bs @ [p]) (take (Suc k) (m_ofs pr)) x"
        using bs(1) p(1,2) k(1) by (auto simp: choice_def take_Suc_conv_app_nth intro: list_all2_appendI)
      with bs(2) p(3) show ?thesis by (intro exI [of _ "bs @ [p]"]) simp
    qed
    with up True vc(1) ready_of_at [OF assms(1) k(2)] show ?thesis by simp
  qed
qed

theorem processInitSol_ok:
  assumes "ready n deg pr" "best_ok n deg (m_ofs pr) pr" "init_box n deg pr b"
  obtains pr' where "processInitSol b pr = Some pr'" "best_ok n deg (m_ofs pr) pr'" "improves pr pr'"
    "pr' = pr\<lparr>m_maxbox := m_maxbox pr', m_maxwt := m_maxwt pr'\<rparr>"
proof -
  obtain x where x: "at_point b x" "\<forall>f\<in>set (m_ofs pr). in_dom (pd_domain (m_pdmap f)) x"
    using assms(3) by (auto simp: init_box_def)
  have b: "wf_box b" "m_dim b = n" "m_degree b = deg" "\<forall>f\<in>set (m_ofs pr). 0 < m_boxCount (m_pdmap f)"
    using assms(3) by (simp_all add: init_box_def)
  have r: "0 < n" "deg \<le> 1" "0 \<le> m_epsilon pr" "take (m_ofnum pr) (m_ofs pr) = m_ofs pr"
    using assms(1) by (simp_all add: ready_def)
  have pt: "isPtBox b" using at_point_isPtBox [OF x(1)] b(2) r(1) by simp
  obtain w c where wc: "foldM (\<lambda>(weight, covered) i. if covered
             then of_at pr i \<bind> (\<lambda>f. evalPoint (m_pdmap f) b covered \<bind> (\<lambda>(v, c). Some (weight + v, c)))
             else Some (weight, covered)) (0, True) [0..<m_ofnum pr] = Some (w, c)"
    "c \<Longrightarrow> \<exists>bs. choice bs (m_ofs pr) x \<and> total bs x = w"
    using init_weight_loop [OF assms(1) b(2) x b(4) order.refl] r(4) by auto
  show ?thesis
  proof (cases "c \<and> (m_maxbox pr = None \<or> w > m_maxwt pr + m_epsilon pr)")
    case False
    then have "processInitSol b pr = Some pr" using pt wc(1) by (auto simp: processInitSol_def)
    with that [of pr] assms(2) show ?thesis by simp
  next
    case True
    let ?pr = "pr\<lparr>m_maxbox := Some b, m_maxwt := w\<rparr>"
    have "(case m_maxbox pr of None \<Rightarrow> box_copy b | Some mb \<Rightarrow> copy_from mb b) = Some b"
    proof (cases "m_maxbox pr")
      case None
      then show ?thesis using b r(1) by (simp add: box_copy_eq)
    next
      case (Some mb)
      with assms(2) b r(1) show ?thesis by (auto simp: best_ok_def intro!: copy_from_eq)
    qed
    then have "newSolution w b pr = Some ?pr" by (simp add: newSolution_def)
    with True have run: "processInitSol b pr = Some ?pr" using pt wc(1) by (simp add: processInitSol_def)
    obtain bs where bs: "choice bs (m_ofs pr) x" "total bs x = w" using True wc(2) by blast
    have "d < n \<Longrightarrow> maxPt_coord b d = x d" for d using at_point_max [OF x(1)] b(2,3) r(2) by simp
    from choice_cong [OF assms(1) bs(1) this] bs(2) have
      "choice bs (m_ofs pr) (maxPt_coord b) \<and> total bs (maxPt_coord b) = w" by simp
    with b have "best_ok n deg (m_ofs pr) ?pr" by (auto simp: best_ok_def)
    moreover have "improves pr ?pr" using True r(3) by (auto simp: improves_def)
    ultimately show ?thesis using that [of ?pr] run by simp
  qed
qed

section \<open>The search is correct\<close>

text \<open>The loop over the boxes of the first function, for any way \<open>H\<close> to settle one of them.\<close>

lemma root_loop:
  assumes "ready n deg pr" "0 < m_ofnum pr" "nodes_ok n deg pr s" "best_ok n deg (m_ofs pr) s"
    "\<And>c. c \<in> set (pieces (m_pdmap (m_ofs pr ! 0))) \<Longrightarrow> settling n deg pr [c] 1 H"
  obtains s' where "foldM (\<lambda>s i. box_at (m_pdmap (m_ofs pr ! 0)) i \<bind> (\<lambda>p.
      copy_from (nodeBox s ! 1) (pd_store (m_pdmap (m_ofs pr ! 0)) p) \<bind>
      (\<lambda>nb. H (s\<lparr>nodeBox := (nodeBox s)[1 := nb]\<rparr>)))) s [0..<m_boxCount (m_pdmap (m_ofs pr ! 0))] = Some s'"
    "best_ok n deg (m_ofs pr) s'" "improves s s'"
    "\<And>bs x. choice bs (m_ofs pr) x \<Longrightarrow> beats (m_epsilon pr) s' (total bs x)"
proof -
  let ?pd = "m_pdmap (m_ofs pr ! 0)"
  let ?F = "\<lambda>s i. box_at ?pd i \<bind> (\<lambda>p. copy_from (nodeBox s ! 1) (pd_store ?pd p) \<bind>
      (\<lambda>nb. H (s\<lparr>nodeBox := (nodeBox s)[1 := nb]\<rparr>)))"
  have len: "0 < length (m_ofs pr)" using assms(1,2) by (simp add: ready_def)
  then have f: "m_ofs pr ! 0 \<in> set (m_ofs pr)" by simp
  note rd = readyD [OF assms(1) f]
  have n: "0 < n" using assms(1) by (simp add: ready_def)
  let ?I = "\<lambda>t. nodes_ok n deg pr t \<and> best_ok n deg (m_ofs pr) t"
  let ?Q = "\<lambda>i t. \<forall>cs x. choice (pieces ?pd ! i # cs) (m_ofs pr) x \<longrightarrow> beats (m_epsilon pr) t (total (pieces ?pd ! i # cs) x)"
  have "\<exists>s'. foldM ?F s [0..<m_boxCount ?pd] = Some s' \<and> ?I s' \<and> improves s s' \<and> (\<forall>i\<in>set [0..<m_boxCount ?pd]. ?Q i s')"
  proof (rule foldM_progress)
    show "?I s" using assms(3,4) by simp
    fix t i assume I: "?I t" and "i \<in> set [0..<m_boxCount ?pd]"
    then have i: "i < m_boxCount ?pd" by simp
    let ?c = "pieces ?pd ! i"
    have c: "?c \<in> set (pieces ?pd)" using i by simp
    have nc: "node n deg [?c] ?c" by (rule node_piece [OF rd(5) [OF c] wf_pdmapD(1) [OF rd(1)] rd(2) rd(4) [OF c]])
    have l1: "1 < length (nodeBox t)" using I assms(2) by (simp add: nodes_ok_def)
    then have "nodeBox t ! 1 \<in> set (nodeBox t)" by simp
    then have "copy_from (nodeBox t ! 1) ?c = Some ?c"
      using I nc n by (intro copy_from_eq) (auto simp: nodes_ok_def node_def)
    then have run: "?F t i = H (t\<lparr>nodeBox := (nodeBox t)[1 := ?c]\<rparr>)"
      using box_at_ptrs [OF wf_pdmapD(3) [OF rd(1)] i] pieces_nth [OF i] by simp
    let ?t = "t\<lparr>nodeBox := (nodeBox t)[1 := ?c]\<rparr>"
    have "nodes_ok n deg pr ?t"
      using I nc by (auto simp: nodes_ok_def node_def dest!: set_update_subset_insert [THEN subsetD])
    moreover have "best_ok n deg (m_ofs pr) ?t" using I by simp
    moreover have "node n deg [?c] (nodeBox ?t ! 1)" using nc l1 by simp
    ultimately obtain t' where t': "H ?t = Some t'" "settles n deg pr [?c] 1 ?t t'"
      using assms(5) [OF c] unfolding settling_def by blast
    with run show "\<exists>s'. ?F t i = Some s' \<and> ?I s' \<and> improves t s' \<and> ?Q i s'"
      by (auto simp: settles_def)
  qed (auto intro: improves_trans beats_improves)
  then obtain s' where s': "foldM ?F s [0..<m_boxCount ?pd] = Some s'" "?I s'" "improves s s'"
    "\<forall>i<m_boxCount ?pd. ?Q i s'" by auto
  have "beats (m_epsilon pr) s' (total bs x)" if ch: "choice bs (m_ofs pr) x" for bs x
  proof -
    obtain f fs where fs: "m_ofs pr = f # fs" using len by (cases "m_ofs pr") auto
    with ch obtain c cs where c: "bs = c # cs" "c \<in> set (pieces ?pd)" by (auto simp: choice_def list_all2_Cons2)
    then obtain i where "i < m_boxCount ?pd" "c = pieces ?pd ! i" by (auto simp: in_set_conv_nth)
    with s'(4) ch c(1) show ?thesis by blast
  qed
  with that s' show ?thesis by blast
qed

lemma solvePrior_ok:
  assumes "ready n deg pr" "0 < m_ofnum pr" "best_ok n deg (m_ofs pr) pr"
    "\<forall>b. isolBox = Some b \<longrightarrow> init_box n deg pr b"
  obtains pr1 ns where "solvePrior isolBox pr = Some (pr1, ns)" "ready n deg pr1" "gridded pr1"
    "m_ofnum pr1 = m_ofnum pr" "m_epsilon pr1 = m_epsilon pr" "best_ok n deg (m_ofs pr1) pr1"
    "\<And>bs x. choice bs (m_ofs pr1) x = choice bs (m_ofs pr) x"
    "nodes_ok n deg pr1 \<lparr>m_maxbox = m_maxbox pr1, m_maxwt = m_maxwt pr1, nodeBox = ns\<rparr>" "improves pr pr1"
    "m_boxCount (m_pdmap (m_ofs pr1 ! 0)) = m_boxCount (m_pdmap (m_ofs pr ! 0))" "p_domain pr1 = p_domain pr"
    "grids_only (m_ofs pr) (m_ofs pr1)"
proof -
  obtain ns where ns: "make_nodes pr = Some ns" "length ns = m_ofnum pr + 1"
    "\<forall>b\<in>set ns. wf_box b \<and> m_dim b = n \<and> m_degree b = deg" by (rule make_nodes_ok [OF assms(1,2)])
  obtain pr0 where p0: "(case isolBox of None \<Rightarrow> Some pr | Some b \<Rightarrow> processInitSol b pr) = Some pr0"
    "best_ok n deg (m_ofs pr) pr0" "improves pr pr0"
    "pr0 = pr\<lparr>m_maxbox := m_maxbox pr0, m_maxwt := m_maxwt pr0\<rparr>"
  proof (cases isolBox)
    case None
    with that [of pr] assms(3) show ?thesis by simp
  next
    case (Some b)
    with assms(4) have i: "init_box n deg pr b" by simp
    show ?thesis by (rule processInitSol_ok [OF assms(1,3) i]) (use that Some in simp)
  qed
  have e: "m_ofs pr0 = m_ofs pr" "m_ofnum pr0 = m_ofnum pr" "m_epsilon pr0 = m_epsilon pr" "p_domain pr0 = p_domain pr"
    by (subst p0(4), simp)+
  have r0: "ready n deg pr0" using assms(1) e by (simp add: ready_def)
  obtain pr1 where p1: "foldM (\<lambda>pr j. give_grid j pr) pr0 [0..<m_ofnum pr0] = Some pr1" "regridded pr0 pr1"
    "\<forall>i<m_ofnum pr0. m_grid (m_pdmap (m_ofs pr1 ! i)) \<noteq> None"
    by (rule give_grids_ok [OF r0 order.refl])
  note d = regriddedD [OF p1(2)]
  have r1: "ready n deg pr1" by (rule regridded_ready [OF p1(2) r0])
  have g: "gridded pr1"
    unfolding gridded_def
  proof
    fix f assume "f \<in> set (m_ofs pr1)"
    then obtain i where "i < length (m_ofs pr1)" "f = m_ofs pr1 ! i" by (auto simp: in_set_conv_nth)
    with p1(3) r1 d(3) show "m_grid (m_pdmap f) \<noteq> None" by (simp add: ready_def)
  qed
  have b1: "best_ok n deg (m_ofs pr1) pr1"
    using p0(2) e d(1,2) by (simp add: best_ok_def regridded_choice [OF p1(2)])
  have bc: "m_boxCount (m_pdmap (m_ofs pr1 ! 0)) = m_boxCount (m_pdmap (m_ofs pr ! 0))"
    using p1(2) assms(2) r0 e same_but_gridD(5) by (simp add: regridded_def ready_def)
  show ?thesis
  proof (rule that [of pr1 ns])
    show "solvePrior isolBox pr = Some (pr1, ns)"
      unfolding solvePrior_def ns(1) Option.bind.bind_lunit p0(1) p1(1) ..
    show "improves pr pr1" using p0(3) d(1,2) by (simp add: improves_def)
    show "nodes_ok n deg pr1 \<lparr>m_maxbox = m_maxbox pr1, m_maxwt = m_maxwt pr1, nodeBox = ns\<rparr>"
      using ns(2,3) d(3) e(2) by (simp add: nodes_ok_def)
  qed (use r1 g b1 bc d e regridded_choice [OF p1(2)] regridded_grids_only [OF p1(2)] in simp_all)
qed

lemma chosen_first: "ready n deg pr \<Longrightarrow> 0 < m_ofnum pr \<Longrightarrow> c \<in> set (pieces (m_pdmap (m_ofs pr ! 0))) \<Longrightarrow>
    chosen [c] (take 1 (m_ofs pr))"
  using take_Suc_conv_app_nth [of 0 "m_ofs pr"] by (simp add: ready_def chosen_def)

text \<open>
  \<open>solve\<close> does not abort; the solution it keeps is the value of a choice of pieces at the point
  \<open>maxPt\<close> returns, and no choice is better by more than \<open>m_epsilon\<close>.
\<close>

lemma solve_ok:
  assumes "ready n deg pr" "0 < m_ofnum pr" "best_ok n deg (m_ofs pr) pr"
    "\<forall>b. isolBox = Some b \<longrightarrow> init_box n deg pr b"
  obtains pr' where "solve CompactorNull isolBox pr = Some (True, pr')" "best_ok n deg (m_ofs pr) pr'"
    "improves pr pr'" "\<And>bs x. choice bs (m_ofs pr) x \<Longrightarrow> beats (m_epsilon pr) pr' (total bs x)"
    "p_domain pr' = p_domain pr" "grids_only (m_ofs pr) (m_ofs pr')"
proof -
  obtain pr1 ns where p: "solvePrior isolBox pr = Some (pr1, ns)" "ready n deg pr1" "gridded pr1"
    "m_ofnum pr1 = m_ofnum pr" "m_epsilon pr1 = m_epsilon pr" "best_ok n deg (m_ofs pr1) pr1"
    "\<And>bs x. choice bs (m_ofs pr1) x = choice bs (m_ofs pr) x"
    "nodes_ok n deg pr1 \<lparr>m_maxbox = m_maxbox pr1, m_maxwt = m_maxwt pr1, nodeBox = ns\<rparr>" "improves pr pr1"
    "m_boxCount (m_pdmap (m_ofs pr1 ! 0)) = m_boxCount (m_pdmap (m_ofs pr ! 0))" "p_domain pr1 = p_domain pr"
    "grids_only (m_ofs pr) (m_ofs pr1)"
    using solvePrior_ok [OF assms] by blast
  let ?s = "\<lparr>m_maxbox = m_maxbox pr1, m_maxwt = m_maxwt pr1, nodeBox = ns\<rparr>"
  let ?H = "\<lambda>s. worth_entering pr1 1 s \<bind> (\<lambda>enter. if enter then solveRecurse CompactorNull pr1 1 s else Some s)"
  have n1: "0 < m_ofnum pr1" "1 \<le> m_ofnum pr1" using assms(2) p(4) by simp_all
  have H: "settling n deg pr1 [c] 1 ?H" if c: "c \<in> set (pieces (m_pdmap (m_ofs pr1 ! 0)))" for c
    unfolding settling_def
  proof (intro allI impI)
    fix s assume s: "nodes_ok n deg pr1 s" "best_ok n deg (m_ofs pr1) s" "node n deg [c] (nodeBox s ! 1)"
    have l: "length [c] = 1" by simp
    obtain b where b: "worth_entering pr1 1 s = Some b"
      "\<And>cs x. \<not> b \<Longrightarrow> choice ([c] @ cs) (m_ofs pr1) x \<Longrightarrow> beats (m_epsilon pr1) s (total ([c] @ cs) x)"
      using worth_entering_prunes [OF p(2,3) s(3) l n1(2)] by blast
    have R: "settling n deg pr1 [c] 1 (solveRecurse CompactorNull pr1 1)"
      by (rule solveRecurse_settles [OF p(2,3) n1(2) chosen_first [OF p(2) n1(1) c]])
    show "\<exists>s'. ?H s = Some s' \<and> settles n deg pr1 [c] 1 s s'"
    proof (cases b)
      case True
      with b(1) R s show ?thesis by (simp add: settling_def)
    next
      case False
      with b s show ?thesis by (auto simp: settles_def)
    qed
  qed
  have b1: "best_ok n deg (m_ofs pr1) ?s" using p(6) by (simp add: best_ok_def)
  obtain s' where s': "foldM (\<lambda>s i. box_at (m_pdmap (m_ofs pr1 ! 0)) i \<bind> (\<lambda>p.
      copy_from (nodeBox s ! 1) (pd_store (m_pdmap (m_ofs pr1 ! 0)) p) \<bind>
      (\<lambda>nb. ?H (s\<lparr>nodeBox := (nodeBox s)[1 := nb]\<rparr>)))) ?s [0..<m_boxCount (m_pdmap (m_ofs pr1 ! 0))] = Some s'"
    "best_ok n deg (m_ofs pr1) s'" "improves ?s s'"
    "\<And>bs x. choice bs (m_ofs pr1) x \<Longrightarrow> beats (m_epsilon pr1) s' (total bs x)"
    using root_loop [OF p(2) n1(1) p(8) b1 H] by blast
  let ?pr = "pr1\<lparr>m_maxbox := m_maxbox s', m_maxwt := m_maxwt s'\<rparr>"
  have nz: "m_ofnum pr \<noteq> 0" using assms(2) by simp
  show ?thesis
  proof (rule that [of ?pr])
    show "solve CompactorNull isolBox pr = Some (True, ?pr)"
      unfolding solve_def if_not_P [OF nz] p(1) Option.bind.bind_lunit prod.case ready_of_at [OF p(2) n1(1)] Let_def s'(1) ..
    show "best_ok n deg (m_ofs pr) ?pr" using s'(2) p(7) by (simp add: best_ok_def)
    show "improves pr ?pr" using p(9) s'(3) by (auto simp: improves_def)
    show "\<And>bs x. choice bs (m_ofs pr) x \<Longrightarrow> beats (m_epsilon pr) ?pr (total bs x)"
      using s'(4) p(5,7) by (simp add: beats_def)
    show "p_domain ?pr = p_domain pr" using p(11) by simp
    show "grids_only (m_ofs pr) (m_ofs ?pr)" using p(12) by simp
  qed
qed

section \<open>The search without bounds finds as good a solution\<close>

lemma solveRecurse_v3_level:
  assumes "level < m_ofnum pr"
  shows "solveRecurse_v3 cp pr level s =
    of_at pr level \<bind> (\<lambda>f. if m_grid (m_pdmap f) = None then None
      else pd_getBS (m_pdmap f) (nodeBox s ! level) \<bind> (\<lambda>levelBoxes.
      foldM (level_step (solveRecurse_v3 cp pr (level + 1)) (pd_store (m_pdmap f)) level) s levelBoxes))"
proof -
  have n: "level \<noteq> m_ofnum pr" "\<not> level > m_ofnum pr" using assms by auto
  show ?thesis unfolding level_step_def [abs_def]
    by (subst solveRecurse_v3.simps) (simp only: n if_False)
qed

lemma boundary_v3_null: "boundary_v3 CompactorNull pr level s = boundary CompactorNull pr level s"
  by (simp add: boundary_v3_def boundary_def CompactorNull_def)

theorem solveRecurse_v3_settles:
  assumes "ready n deg pr" "gridded pr" "level \<le> m_ofnum pr" "chosen bs (take level (m_ofs pr))"
  shows "settling n deg pr bs level (solveRecurse_v3 CompactorNull pr level)"
  using assms(3,4)
proof (induction "m_ofnum pr - level" arbitrary: level bs)
  case 0
  then have lv: "level = m_ofnum pr" by simp
  have "solveRecurse_v3 CompactorNull pr level = solveRecurse CompactorNull pr level"
    by (rule ext) (simp add: lv solveRecurse_v3.simps [of _ _ "m_ofnum pr"] solveRecurse.simps [of _ _ "m_ofnum pr"]
        boundary_v3_null)
  with solveRecurse_settles [OF assms(1,2) 0(2,3)] show ?case by simp
next
  case (Suc k)
  then have lv: "level < m_ofnum pr" "k = m_ofnum pr - (level + 1)" "level + 1 \<le> m_ofnum pr" by auto
  have lf: "level < length (m_ofs pr)" using lv(1) assms(1) by (simp add: ready_def)
  have len: "length bs = level" using Suc.prems(2) lf by (auto simp: chosen_def dest!: list_all2_lengthD)
  have G: "settling n deg pr (bs @ [c]) (level + 1) (solveRecurse_v3 CompactorNull pr (level + 1))"
    if "c \<in> set (pieces (m_pdmap (m_ofs pr ! level)))" for c
    by (rule Suc.hyps(1) [OF lv(2,3) chosen_snoc [OF Suc.prems(2) lf that]])
  have gr: "m_grid (m_pdmap (m_ofs pr ! level)) \<noteq> None" using assms(2) lf by (simp add: gridded_def)
  show ?case
    unfolding settling_def
  proof (intro allI impI)
    fix s assume s: "nodes_ok n deg pr s" "best_ok n deg (m_ofs pr) s" "node n deg bs (nodeBox s ! level)"
    obtain r where r: "of_at pr level = Some (m_ofs pr ! level)"
      "pd_getBS (m_pdmap (m_ofs pr ! level)) (nodeBox s ! level) = Some r"
      "set r \<subseteq> set (ptrs (m_pdmap (m_ofs pr ! level)))"
      "\<forall>p\<in>set (ptrs (m_pdmap (m_ofs pr ! level))). \<forall>x. in_box (nodeBox s ! level) x \<longrightarrow>
        in_box (pd_store (m_pdmap (m_ofs pr ! level)) p) x \<longrightarrow> p \<in> set r"
      by (rule level_query [OF assms(1,2) lv(1) s(3)])
    have "solveRecurse_v3 CompactorNull pr level s = foldM (level_step (solveRecurse_v3 CompactorNull pr (level + 1))
        (pd_store (m_pdmap (m_ofs pr ! level))) level) s r"
      unfolding solveRecurse_v3_level [OF lv(1)] r(1) Option.bind.bind_lunit if_not_P [OF gr] r(2) ..
    with level_loop_settles [OF assms(1) lv(1) len s(3,1,2) r(3,4) G]
    show "\<exists>s'. solveRecurse_v3 CompactorNull pr level s = Some s' \<and> settles n deg pr bs level s s'" by simp
  qed
qed

lemma solve_v3_ok:
  assumes "ready n deg pr" "0 < m_ofnum pr" "best_ok n deg (m_ofs pr) pr"
  obtains pr' where "solve_v3 CompactorNull b pr = Some (True, pr')" "best_ok n deg (m_ofs pr) pr'"
    "improves pr pr'" "\<And>bs x. choice bs (m_ofs pr) x \<Longrightarrow> beats (m_epsilon pr) pr' (total bs x)"
proof -
  have none: "\<forall>b. None = Some b \<longrightarrow> init_box n deg pr b" by simp
  obtain pr1 ns where p: "solvePrior None pr = Some (pr1, ns)" "ready n deg pr1" "gridded pr1"
    "m_ofnum pr1 = m_ofnum pr" "m_epsilon pr1 = m_epsilon pr" "best_ok n deg (m_ofs pr1) pr1"
    "\<And>bs x. choice bs (m_ofs pr1) x = choice bs (m_ofs pr) x"
    "nodes_ok n deg pr1 \<lparr>m_maxbox = m_maxbox pr1, m_maxwt = m_maxwt pr1, nodeBox = ns\<rparr>" "improves pr pr1"
    "m_boxCount (m_pdmap (m_ofs pr1 ! 0)) = m_boxCount (m_pdmap (m_ofs pr ! 0))" "p_domain pr1 = p_domain pr"
    "grids_only (m_ofs pr) (m_ofs pr1)" using solvePrior_ok [OF assms none] by blast
  let ?s = "\<lparr>m_maxbox = m_maxbox pr1, m_maxwt = m_maxwt pr1, nodeBox = ns\<rparr>"
  have n1: "0 < m_ofnum pr1" "1 \<le> m_ofnum pr1" using assms(2) p(4) by simp_all
  have b1: "best_ok n deg (m_ofs pr1) ?s" using p(6) by (simp add: best_ok_def)
  have H: "c \<in> set (pieces (m_pdmap (m_ofs pr1 ! 0))) \<Longrightarrow> settling n deg pr1 [c] 1 (solveRecurse_v3 CompactorNull pr1 1)" for c
    by (rule solveRecurse_v3_settles [OF p(2,3) n1(2) chosen_first [OF p(2) n1(1)]])
  obtain s' where s': "foldM (\<lambda>s i. box_at (m_pdmap (m_ofs pr1 ! 0)) i \<bind> (\<lambda>p.
      copy_from (nodeBox s ! 1) (pd_store (m_pdmap (m_ofs pr1 ! 0)) p) \<bind>
      (\<lambda>nb. solveRecurse_v3 CompactorNull pr1 1 (s\<lparr>nodeBox := (nodeBox s)[1 := nb]\<rparr>))))
      ?s [0..<m_boxCount (m_pdmap (m_ofs pr1 ! 0))] = Some s'"
    "best_ok n deg (m_ofs pr1) s'" "improves ?s s'"
    "\<And>bs x. choice bs (m_ofs pr1) x \<Longrightarrow> beats (m_epsilon pr1) s' (total bs x)"
    using root_loop [OF p(2) n1(1) p(8) b1 H] by blast
  let ?pr = "pr1\<lparr>m_maxbox := m_maxbox s', m_maxwt := m_maxwt s'\<rparr>"
  show ?thesis
  proof (rule that [of ?pr])
    show "solve_v3 CompactorNull b pr = Some (True, ?pr)"
      unfolding solve_v3_def p(1) Option.bind.bind_lunit prod.case ready_of_at [OF p(2) n1(1)] s'(1) ..
    show "best_ok n deg (m_ofs pr) ?pr" using s'(2) p(7) by (simp add: best_ok_def)
    show "improves pr ?pr" using p(9) s'(3) by (auto simp: improves_def)
    show "\<And>bs x. choice bs (m_ofs pr) x \<Longrightarrow> beats (m_epsilon pr) ?pr (total bs x)"
      using s'(4) p(5,7) by (simp add: beats_def)
  qed
qed

section \<open>Compacting with the null compactor\<close>

lemma preCompact_loop:
  assumes "filled pd" "k \<le> m_boxCount pd"
  shows "foldM (\<lambda>pd j. box_at pd j \<bind> (\<lambda>p.
         let (violation, b) = compact CompactorNull (pd_store pd p); pd1 = pd\<lparr>pd_store := (pd_store pd)(p := b)\<rparr>
         in Some (if violation then pd1\<lparr>m_boxes := (m_boxes pd1)[j := None]\<rparr> else pd1))) pd [0..<k] =
    Some (pd\<lparr>m_boxes := replicate k None @ drop k (m_boxes pd)\<rparr>)"
  using assms(2)
proof (induction k)
  case (Suc k)
  have l: "m_boxCount pd \<le> length (m_boxes pd)" using assms(1) by (simp add: filled_def)
  then have k: "k < length (m_boxes pd)" using Suc.prems by simp
  have "m_boxes pd ! k \<noteq> None" using assms(1) Suc.prems by (simp add: filled_def)
  then obtain q where q: "m_boxes pd ! k = Some q" by auto
  let ?pd = "pd\<lparr>m_boxes := replicate k None @ drop k (m_boxes pd)\<rparr>"
  have "box_at ?pd k = Some q" using k q by (simp add: box_at_def nth_append)
  moreover have "(replicate k None @ drop k (m_boxes pd))[k := None] = replicate (Suc k) None @ drop (Suc k) (m_boxes pd)"
    using k by (simp add: list_update_append Cons_nth_drop_Suc [symmetric] replicate_append_same [symmetric])
  ultimately show ?case
    using Suc by (simp add: foldM_append CompactorNull_def replicate_append_same [symmetric] del: replicate_Suc)
      (rule pdmap.equality, auto)
qed simp

section \<open>Properties\<close>

text \<open>The two functions of the example have a common piece structure over \<open>ex_line\<close>.\<close>

definition ex_search :: problem where
  "ex_search = ex_problem [ex_hill, ex_slope]"

lemma ready_ex_search: "ready 1 1 ex_search" "0 < m_ofnum ex_search" "best_ok 1 1 (m_ofs ex_search) ex_search"
proof -
  have i: "\<forall>b\<in>set (pieces (m_pdmap ex_hill)) \<union> set (pieces (m_pdmap ex_slope)). inclusive b"
    by (simp add: ex_hill_def ex_slope_def ex_box_facts(4))
  show "ready 1 1 ex_search"
    using wf_ex_fun i by (simp add: ready_def ex_search_def) (simp add: ex_hill_def ex_slope_def)
  show "0 < m_ofnum ex_search" "best_ok 1 1 (m_ofs ex_search) ex_search"
    by (simp_all add: ex_search_def best_ok_def)
qed

lemma choice_ex_search: "choice [ex_box 0 4 1 0, ex_box 3 9 30 (-30)] (m_ofs ex_search) (\<lambda>_. 4)"
  by (simp add: choice_def ex_search_def) (simp add: ex_hill_def ex_slope_def ex_box_facts(6))

text \<open>C2: The branch and bound search ends without an assertion failing or a bad pointer. The
  solution it leaves is the sum of the values of one piece of every function at the point \<open>maxPt\<close>
  returns for the best box, no worse than the one it started from, and no choice of pieces sharing a
  point is better by more than \<open>m_epsilon\<close>: pruning by the bounds loses nothing.\<close>

theorem solve_optimal:
  assumes "ready n deg pr" "0 < m_ofnum pr" "best_ok n deg (m_ofs pr) pr"
    "\<forall>b. isolBox = Some b \<longrightarrow> init_box n deg pr b"
  shows "\<exists>pr'. solve CompactorNull isolBox pr = Some (True, pr') \<and> best_ok n deg (m_ofs pr) pr' \<and> improves pr pr' \<and>
    (\<forall>bs x. choice bs (m_ofs pr) x \<longrightarrow> m_maxbox pr' \<noteq> None \<and> total bs x \<le> m_maxwt pr' + m_epsilon pr)"
  using solve_ok [OF assms] unfolding beats_def by metis

theorem solve_optimal_witness:
  "\<exists>pr'. solve CompactorNull None ex_search = Some (True, pr') \<and> best_ok 1 1 (m_ofs ex_search) pr' \<and>
    m_maxbox pr' \<noteq> None \<and> 94 \<le> m_maxwt pr'"
proof -
  obtain pr' where pr': "solve CompactorNull None ex_search = Some (True, pr')" "best_ok 1 1 (m_ofs ex_search) pr'"
    "\<forall>bs x. choice bs (m_ofs ex_search) x \<longrightarrow> m_maxbox pr' \<noteq> None \<and> total bs x \<le> m_maxwt pr' + m_epsilon ex_search"
    using solve_optimal [OF ready_ex_search, of None] by auto
  moreover have "total [ex_box 0 4 1 0, ex_box 3 9 30 (-30)] (\<lambda>_. 4) = 94" by (simp add: ex_box_facts(7))
  moreover have "m_epsilon ex_search = 0" by (simp add: ex_search_def)
  ultimately show ?thesis using choice_ex_search by fastforce
qed



text \<open>C18: The bound of a node, which stands for the pieces \<open>bs\<close> chosen so far, is at least the value of
  every completion of the choice by pieces of the remaining functions at a point of the node.\<close>

theorem upperCheapBound_bounds:
  assumes "ready n deg pr" "gridded pr" "node n deg bs nb"
  shows "\<exists>u. upperCheapBound pr level nb = Some u \<and>
    (\<forall>cs x. in_box nb x \<and> choice cs (drop level (m_ofs pr)) x \<longrightarrow> total bs x + total cs x \<le> u)"
  using upperCheapBound_upper [OF assms, of level] by metis

theorem upperCheapBound_bounds_witness:
  "\<exists>pr ns u. solvePrior None ex_search = Some (pr, ns) \<and> upperCheapBound pr 1 (ex_box 0 4 1 0) = Some u \<and>
    (\<forall>cs x. in_box (ex_box 0 4 1 0) x \<and> choice cs (drop 1 (m_ofs pr)) x \<longrightarrow>
       total [ex_box 0 4 1 0] x + total cs x \<le> u)"
proof -
  have none: "\<forall>b. None = Some b \<longrightarrow> init_box 1 1 ex_search b" by simp
  obtain pr ns where p: "solvePrior None ex_search = Some (pr, ns)" "ready 1 1 pr" "gridded pr"
    using solvePrior_ok [OF ready_ex_search none] by metis
  have "node 1 1 [ex_box 0 4 1 0] (ex_box 0 4 1 0)"
  proof (rule node_piece)
    show "good_piece ex_line 1 (ex_box 0 4 1 0)" by (rule good_ex_box) simp_all
    show "good_domain ex_line" by (simp add: good_domain_def ex_line_facts(1))
  qed (simp_all add: ex_box_facts(4))
  from p(1) upperCheapBound_bounds [OF p(2,3) this, of 1] show ?thesis by blast
qed

text \<open>A starting point given to \<open>processInitSol\<close>, a point box inside all domains, is taken only
  when every function has a piece there, and then with the sum of their values.\<close>

theorem initial_solution_sound:
  assumes "ready n deg pr" "best_ok n deg (m_ofs pr) pr" "init_box n deg pr b"
  shows "\<exists>pr'. processInitSol b pr = Some pr' \<and> best_ok n deg (m_ofs pr) pr' \<and> improves pr pr' \<and> m_ofs pr' = m_ofs pr"
proof -
  obtain pr' where p: "processInitSol b pr = Some pr'" "best_ok n deg (m_ofs pr) pr'" "improves pr pr'"
    "pr' = pr\<lparr>m_maxbox := m_maxbox pr', m_maxwt := m_maxwt pr'\<rparr>" by (rule processInitSol_ok [OF assms])
  have "m_ofs pr' = m_ofs pr" by (subst p(4)) simp
  with p(1-3) show ?thesis by blast
qed

theorem initial_solution_sound_witness:
  "\<exists>pr'. processInitSol (ex_box 3 3 0 0) ex_search = Some pr' \<and> best_ok 1 1 (m_ofs ex_search) pr' \<and>
     improves ex_search pr' \<and> m_ofs pr' = m_ofs ex_search"
proof (rule initial_solution_sound [OF ready_ex_search(1,3)])
  have "at_point (ex_box 3 3 0 0) (\<lambda>_. 3)" by (rule ex_point)
  then show "init_box 1 1 ex_search (ex_box 3 3 0 0)"
    unfolding init_box_def by (simp add: ex_box_facts(1-3) ex_search_def ex_hill_def ex_slope_def)
      (intro exI [of _ "\<lambda>_. 3"], simp add: in_ex_line)
qed

text \<open>\<open>preCompact\<close> takes the result of \<open>compact\<close> for a violation, and the null compactor, which the
  solver makes for itself, always answers true: every piece of the function is deleted.\<close>

theorem preCompact_deletes_all:
  assumes "wf_pdmap pd" "0 < m_boxCount pd"
  shows "\<exists>pd'. preCompact_map (fst (IvPProblem_compactor None)) pd = Some pd' \<and> m_boxCount pd' = 0 \<and> pieces pd' = []"
proof -
  note w = wf_pdmapD [OF assms(1)]
  let ?pd = "pd\<lparr>m_boxes := replicate (m_boxCount pd) None @ drop (m_boxCount pd) (m_boxes pd)\<rparr>"
  have run: "preCompact_map CompactorNull pd = removeNULLs ?pd"
    unfolding preCompact_map_def preCompact_loop [OF w(3) order.refl] by simp
  have tk: "take (m_boxCount pd) (m_boxes ?pd) = replicate (m_boxCount pd) None" by simp
  obtain pd' where "removeNULLs ?pd = Some pd'" "ptrs pd' = []" "m_boxCount pd' = length ([] :: box_ptr list)"
  proof (rule removeNULLs_wf [of ?pd "[]"])
    show "m_boxCount ?pd \<le> length (m_boxes ?pd)" by simp
    show "None \<in> set (take (m_boxCount ?pd) (m_boxes ?pd))" using assms(2) by simp
    show "[] = [p. Some p \<leftarrow> take (m_boxCount ?pd) (m_boxes ?pd)]" by simp
  qed (use w in simp_all)
  with run show ?thesis by (simp add: IvPProblem_compactor_def pieces_def)
qed

theorem preCompact_deletes_all_witness:
  "\<exists>pd'. preCompact_map (fst (IvPProblem_compactor None)) (m_pdmap ex_hill) = Some pd' \<and> m_boxCount pd' = 0 \<and> pieces pd' = []"
  by (rule preCompact_deletes_all [OF wf_ex_fun(1)]) (simp add: ex_hill_def)

end
