(* ===== verification/Helm_Engine.thy ===== *)
theory Helm_Engine
  imports Behavior_Build Report_Text IvP_Solver
begin

text \<open>
  One round of the helm: \<open>HelmEngine.h\<close> and \<open>HelmEngine.cpp\<close> of \<open>src/ivp/src/pHelmIvP\<close>. The parts of a round are
  operations on the state of the engine that answer whether the round goes on. The clocks are an argument: the processor
  time a behavior took, and what the timers for creating and for solving have gathered when they are read. The
  factories of the set of behaviors are the arguments \<open>static\<close> and \<open>dynamic\<close>. \<open>None\<close> is a null pointer that is followed.
\<close>

section \<open>State\<close>

text \<open>
  The problem of the code is made and deleted within part 4. The functions are the objects the pointers of
  \<open>m_ivp_functions\<close> lead to; no null pointer is ever put there.
\<close>

record 'x helm_engine =
  m_ivp_domain :: ivpdomain
  m_sub_domain :: ivpdomain
  he_iteration :: nat
  m_helm_report :: helm_report
  m_bhv_set :: "'x behavior_set option"
  he_curr_time :: real
  he_info_buffer :: "infobuffer option"
  he_max_create_time :: real
  he_max_solve_time :: real
  he_max_loop_time :: real
  m_ivp_functions :: "ivpfunction list"

record clocks =
  ipf_time :: "nat \<Rightarrow> real"
  create_timer :: real
  solve_timer :: real

definition HelmEngine_new :: "ivpdomain \<Rightarrow> infobuffer option \<Rightarrow> 'x helm_engine" where
  "HelmEngine_new g_ivp_domain g_info_buffer =
     \<lparr>m_ivp_domain = g_ivp_domain, m_sub_domain = empty_domain, he_iteration = 0, m_helm_report = HelmReport_new,
      m_bhv_set = None, he_curr_time = 0, he_info_buffer = g_info_buffer, he_max_create_time = 0, he_max_solve_time = 0,
      he_max_loop_time = 0, m_ivp_functions = []\<rparr>"

definition report :: "(helm_report \<Rightarrow> helm_report) \<Rightarrow> 'x helm_engine \<Rightarrow> 'x helm_engine" where
  "report f e = e\<lparr>m_helm_report := f (m_helm_report e)\<rparr>"

definition halt :: "string \<Rightarrow> string \<Rightarrow> helm_report \<Rightarrow> helm_report" where
  "halt msg halt_msg r = (addMsg msg (r\<lparr>m_halted := True\<rparr>))\<lparr>m_halt_message := halt_msg\<rparr>"

section \<open>Part 1: the set of behaviors\<close>

definition part1 :: "'x factory \<Rightarrow> 'x factory \<Rightarrow> 'x helm_engine \<Rightarrow> (bool \<times> 'x helm_engine) option" where
  "part1 static dynamic e =
     (let e = report (\<lambda>r. r\<lparr>m_report_domain := m_ivp_domain e, m_iteration := he_iteration e, m_time_utc := he_curr_time e\<rparr>) e
      in case m_bhv_set e of
           None \<Rightarrow> Some (False, report (halt ''HELM HALTING CONDITION: NULL Behavior Set'' ''Null BehaviorSet'') e)
         | Some bs \<Rightarrow>
             resetStateOK bs \<bind> (\<lambda>bs.
             handlePossibleSpawnings static dynamic (he_info_buffer e) (bs\<lparr>bs_curr_time := he_curr_time e\<rparr>) \<bind> (\<lambda>(new_behaviors, bs).
             evaluate_modes (he_info_buffer e) (m_mode_set bs) \<bind> (\<lambda>(modes, info).
             Some (True, report (\<lambda>r. r\<lparr>m_modes := getModeSummary modes\<rparr>)
               (e\<lparr>m_bhv_set := Some (bs\<lparr>m_mode_set := modes\<rparr>), he_info_buffer := info\<rparr>))))))"

section \<open>Part 2: the functions of the behaviors\<close>

text \<open>What is reported of a behavior that has taken its step.\<close>

definition report_line :: "string \<Rightarrow> real \<Rightarrow> ivpfunction option \<Rightarrow> string" where
  "report_line descriptor of_time newof =
     descriptor @ (case newof of
        Some f \<Rightarrow> '' produces obj-function - time:'' @ doubleToString of_time 2 @
          '' pcs: '' @ doubleToString (of_nat (m_boxCount (m_pdmap f))) 5 @ '' pwt: '' @ doubleToString (m_pwt f) 5
      | None \<Rightarrow> '' did NOT produce an obj-function'')"

definition report_behavior :: "string \<Rightarrow> real \<Rightarrow> string \<Rightarrow> string \<Rightarrow> real \<Rightarrow> ivpfunction option \<Rightarrow> helm_report \<Rightarrow> helm_report" where
  "report_behavior descriptor entered upd_summary bhv_state of_time newof r =
     (let r = addMsg (report_line descriptor of_time newof) r;
          r = (case newof of
                 Some f \<Rightarrow> addActiveBHV descriptor entered (m_pwt f) (int (m_boxCount (m_pdmap f))) of_time upd_summary 1 r
               | None \<Rightarrow> r);
          r = (if bhv_state = ''running'' then addRunningBHV descriptor entered upd_summary r else r);
          r = (if bhv_state = ''idle'' then addIdleBHV descriptor entered upd_summary r else r)
      in if bhv_state = ''completed'' then addCompletedBHV descriptor entered upd_summary r else r)"

definition part2_step :: "clocks \<Rightarrow> int \<Rightarrow> nat \<Rightarrow> 'x helm_engine \<Rightarrow> (bool \<times> 'x helm_engine) option" where
  "part2_step clk filter_level ix e =
     m_bhv_set e \<bind> (\<lambda>bs.
     getFilterLevel ix bs \<bind> (\<lambda>level.
     if level \<noteq> filter_level then Some (True, e)
     else produceOF (he_info_buffer e) ix (he_iteration e) '''' bs \<bind> (\<lambda>(newof, bhv_state, bs).
       let entered = getStateTimeEntered ix bs in
       bs_stateOK ix bs \<bind> (\<lambda>ok.
       if \<not> ok
       then he_info_buffer e \<bind> (\<lambda>ib.
         let (bhv_error_str, known) = sQuery ib ''BHV_ERROR'';
             bhv_error_str = (if \<not> known then '' - unknown - '' else bhv_error_str)
         in Some (False, report (halt ''HELM HALTING: Safety Emergency!!!'' (''BHV_ERROR: '' @ bhv_error_str)) (e\<lparr>m_bhv_set := Some bs\<rparr>)))
       else getUpdateSummary ix bs \<bind> (\<lambda>upd_summary.
         let r = report_behavior (getDescriptor ix bs) entered upd_summary bhv_state (ipf_time clk ix) newof (m_helm_report e)
         in Some (True, e\<lparr>m_bhv_set := Some (if bhv_state = ''completed'' then bs\<lparr>m_completed_pending := True\<rparr> else bs),
              m_helm_report := r,
              m_ivp_functions := m_ivp_functions e @ (case newof of Some f \<Rightarrow> [f] | None \<Rightarrow> [])\<rparr>))))))"

fun part2_loop :: "clocks \<Rightarrow> int \<Rightarrow> nat list \<Rightarrow> 'x helm_engine \<Rightarrow> (bool \<times> 'x helm_engine) option" where
  "part2_loop clk filter_level [] e = Some (True, e)"
| "part2_loop clk filter_level (ix # ixs) e =
     part2_step clk filter_level ix e \<bind> (\<lambda>(on, e). if on then part2_loop clk filter_level ixs e else Some (False, e))"

definition part2 :: "clocks \<Rightarrow> int \<Rightarrow> 'x helm_engine \<Rightarrow> (bool \<times> 'x helm_engine) option" where
  "part2 clk filter_level e = m_bhv_set e \<bind> (\<lambda>bs. part2_loop clk filter_level [0..<length (m_bhv_entry bs)] e)"

section \<open>Part 3: the domain\<close>

definition of_names :: "ivpfunction list \<Rightarrow> string list" where
  "of_names fs =
     foldl (\<lambda>of_domains f. foldl (\<lambda>of_domains j. let dname = ipf_getVarName f j
         in if dname \<in> set of_domains then of_domains else of_domains @ [dname]) of_domains [0..<pd_dim (m_pdmap f)]) [] fs"

definition sub_var :: "ivpdomain \<Rightarrow> ivpdomain \<Rightarrow> string \<Rightarrow> ivpdomain" where
  "sub_var D sub name =
     (let dname = c_str name; index = nat (getIndex D dname)
      in snd (addDomain dname (getVarLow_i D index) (getVarHigh_i D index) (getVarPoints_i D index) sub))"

definition part3 :: "'x helm_engine \<Rightarrow> bool \<times> 'x helm_engine" where
  "part3 e =
     (let of_domains = of_names (m_ivp_functions e); D = m_ivp_domain e
      in case find (\<lambda>n. \<not> list_ex (\<lambda>j. n = getVarName D j) [0..<dom_size D]) of_domains of
           Some n \<Rightarrow> (False, report (halt ''HELM HALTING: Unrecognized domain var'' (''DomainVar '' @ n @ '' not recognized ''))
              (e\<lparr>m_sub_domain := empty_domain\<rparr>))
         | None \<Rightarrow>
             if length of_domains = dom_size D then (True, e\<lparr>m_sub_domain := D\<rparr>)
             else (True, e\<lparr>m_sub_domain := foldl (sub_var D) empty_domain of_domains\<rparr>))"

section \<open>Part 4: the problem\<close>

text \<open>
  The problem works on the functions themselves: after it they are what \<open>addOF\<close>, \<open>alignOFs\<close> and \<open>solve\<close> have made of them.
  \<open>put_back\<close> puts those the problem has taken, the ones of positive weight, in their places.
\<close>

fun put_back :: "ivpfunction list \<Rightarrow> ivpfunction list \<Rightarrow> ivpfunction list" where
  "put_back [] gs = []"
| "put_back (f # fs) gs =
     (if m_pwt f \<le> 0 then f # put_back fs gs
      else case gs of [] \<Rightarrow> f # put_back fs [] | g # gs \<Rightarrow> g # put_back fs gs)"

definition solved :: "ivpfunction list \<Rightarrow> ivpdomain \<Rightarrow> problem option" where
  "solved fs sub_domain =
     foldM (\<lambda>pr f. addOF (Some f) pr) Problem_new fs \<bind> (\<lambda>pr.
     alignOFs (setDomain sub_domain pr) \<bind> (\<lambda>(aligned, pr).
     solve CompactorNull None pr \<bind> (\<lambda>(done, pr). Some pr)))"

definition post_str :: "string \<Rightarrow> string" where
  "post_str dom_name = ''DESIRED_'' @ toupper dom_name"

definition post_unfiltered :: "problem \<Rightarrow> infobuffer option \<Rightarrow> string \<Rightarrow> infobuffer option option" where
  "post_unfiltered pr info dom_name =
     info \<bind> (\<lambda>ib. Some (Some (setValue_d ib (post_str dom_name @ ''_UNFILTERED'') (fst (getResult pr dom_name)) 0)))"

definition report_decision :: "problem \<Rightarrow> helm_report \<Rightarrow> string \<Rightarrow> helm_report" where
  "report_decision pr r dom_name =
     (let decision = fst (getResult pr dom_name)
      in addMsg (post_str dom_name @ '': '' @ doubleToString decision 2) (addDecision dom_name decision r))"

text \<open>Without the phase "prefilter" the functions are deleted with the problem.\<close>

definition part4 :: "string \<Rightarrow> 'x helm_engine \<Rightarrow> (bool \<times> 'x helm_engine) option" where
  "part4 phase e =
     (let ipfs = length (m_ivp_functions e);
          e = report (\<lambda>r. (addMsg (''Number of IvP Functions: '' @ intToString (int ipfs)) r)\<lparr>m_report_ofnum := ipfs\<rparr>) e
      in if ipfs = 0 then Some (False, report (addMsg ''No Decision due to zero IvP functions'') e)
         else solved (m_ivp_functions e) (m_sub_domain e) \<bind> (\<lambda>pr.
           let names = map (getVarName (m_sub_domain e)) [0..<dom_size (m_sub_domain e)]
           in if phase = ''prefilter''
              then foldM (post_unfiltered pr) (he_info_buffer e) names \<bind> (\<lambda>info.
                Some (True, e\<lparr>he_info_buffer := info, m_ivp_functions := put_back (m_ivp_functions e) (m_ofs pr)\<rparr>))
              else Some (True, (report (\<lambda>r. foldl (report_decision pr) r names) e)\<lparr>m_ivp_functions := []\<rparr>)))"

section \<open>Part 6 and the round\<close>

definition part6 :: "clocks \<Rightarrow> 'x helm_engine \<Rightarrow> bool \<times> 'x helm_engine" where
  "part6 clk e =
     (let create_time = create_timer clk; solve_time = solve_timer clk; loop_time = create_time + solve_time;
          e = (if create_time > he_max_create_time e then e\<lparr>he_max_create_time := create_time\<rparr> else e);
          e = (if solve_time > he_max_solve_time e then e\<lparr>he_max_solve_time := solve_time\<rparr> else e);
          e = (if loop_time > he_max_loop_time e then e\<lparr>he_max_loop_time := loop_time\<rparr> else e)
      in (True, report (\<lambda>r. r\<lparr>m_create_time := create_time, m_solve_time := solve_time, m_max_create_time := he_max_create_time e,
            m_max_solve_time := he_max_solve_time e, m_max_loop_time := he_max_loop_time e\<rparr>) e))"

text \<open>\<open>handled = handled && part()\<close>.\<close>

definition handled_by :: "('x helm_engine \<Rightarrow> (bool \<times> 'x helm_engine) option) \<Rightarrow> bool \<times> 'x helm_engine \<Rightarrow> (bool \<times> 'x helm_engine) option" where
  "handled_by part = (\<lambda>(handled, e). if handled then part e else Some (False, e))"

definition determineNextDecision :: "'x factory \<Rightarrow> 'x factory \<Rightarrow> clocks \<Rightarrow> 'x behavior_set option \<Rightarrow> real \<Rightarrow> 'x helm_engine \<Rightarrow>
    (helm_report \<times> 'x helm_engine) option" where
  "determineNextDecision static dynamic clk bhv_set curr_time e =
     (let e = e\<lparr>he_iteration := (he_iteration e + 1) mod 2 ^ 32, m_bhv_set := bhv_set, he_curr_time := curr_time,
             m_helm_report := clear_report False (m_helm_report e), m_ivp_functions := []\<rparr>
      in bhv_set \<bind> filterBehaviorsPresent \<bind> (\<lambda>filter_behaviors_present.
         part1 static dynamic e \<bind> handled_by (part2 clk 0) \<bind> handled_by (Some \<circ> part3) \<bind> (\<lambda>s.
         (if filter_behaviors_present
          then handled_by (part4 ''prefilter'') s \<bind> handled_by (part2 clk 1) \<bind> handled_by (Some \<circ> part3)
          else Some s) \<bind> handled_by (part4 ''direct'') \<bind> handled_by (Some \<circ> part6 clk) \<bind> (\<lambda>(handled, e).
         Some (m_helm_report e, e)))))"

section \<open>Functions on their way through the problem\<close>

text \<open>The smallest and the largest value of a function, and what \<open>addOF\<close> makes of the value of a piece at a point.\<close>

definition of_min :: "ivpfunction \<Rightarrow> real" where "of_min f = the (getMinWT (m_pdmap f))"
definition of_max :: "ivpfunction \<Rightarrow> real" where "of_max f = the (getMaxWT (m_pdmap f))"

definition worth :: "ivpfunction \<Rightarrow> (string \<Rightarrow> int) \<Rightarrow> ivpbox \<Rightarrow> real" where
  "worth f v b = m_pwt f * (let x = ival b (by_name (pd_domain (m_pdmap f)) v)
     in if of_max f - of_min f > 100 then (x - of_min f) * (100 / (of_max f - of_min f)) else x)"

lemma worth_weighed: "worth f v b = weighed (m_pwt f) (of_min f) (of_max f) (ival b (by_name (pd_domain (m_pdmap f)) v))"
  by (simp add: worth_def weighed_def Let_def)

text \<open>A function the helm can use: whole, of positive weight, over variables of the domain.\<close>

definition usable :: "ivpdomain \<Rightarrow> nat \<Rightarrow> ivpfunction \<Rightarrow> bool" where
  "usable S deg f \<longleftrightarrow> wf_pdmap (m_pdmap f) \<and> 0 < m_boxCount (m_pdmap f) \<and> 0 < m_pwt f \<and> pd_degree (m_pdmap f) = deg \<and>
     names_fit (pd_domain (m_pdmap f)) S \<and> (\<forall>b\<in>set (pieces (m_pdmap f)). inclusive b)"

text \<open>The function \<open>h\<close> is \<open>f\<close> weighed and moved to the domain \<open>S\<close>, piece by piece.\<close>

definition carried_piece :: "ivpdomain \<Rightarrow> ivpfunction \<Rightarrow> ivpbox \<Rightarrow> ivpbox \<Rightarrow> bool" where
  "carried_piece S f b c \<longleftrightarrow> (\<forall>v. ival c (by_name S v) = worth f v b) \<and>
     (\<forall>v. in_box c (by_name S v) \<longleftrightarrow> in_box b (by_name (pd_domain (m_pdmap f)) v) \<and>
       (\<forall>n\<in>set (m_dname S) - set (m_dname (pd_domain (m_pdmap f))). 0 \<le> v n \<and> v n < int (getVarPoints_s S n))) \<and>
     (inclusive b \<longrightarrow> inclusive c)"

definition carried :: "ivpdomain \<Rightarrow> ivpfunction \<Rightarrow> ivpfunction \<Rightarrow> bool" where
  "carried S f h \<longleftrightarrow> wf_pdmap (m_pdmap h) \<and> dom_eq (pd_domain (m_pdmap h)) S \<and> m_pwt h = m_pwt f \<and>
     pd_degree (m_pdmap h) = pd_degree (m_pdmap f) \<and> list_all2 (carried_piece S f) (pieces (m_pdmap f)) (pieces (m_pdmap h))"

definition taken :: "ivpfunction \<Rightarrow> ivpfunction \<Rightarrow> bool" where
  "taken f g \<longleftrightarrow> wf_pdmap (m_pdmap g) \<and> pd_domain (m_pdmap g) = pd_domain (m_pdmap f) \<and> pd_degree (m_pdmap g) = pd_degree (m_pdmap f) \<and>
     m_pwt g = m_pwt f \<and> list_all2 (weighed_piece (m_pwt f) (of_min f) (of_max f)) (pieces (m_pdmap f)) (pieces (m_pdmap g))"

lemma functions_added:
  assumes "\<forall>f\<in>set fs. usable S deg f" "m_ofnum pr = length (m_ofs pr)"
  shows "\<exists>gs. foldM (\<lambda>pr f. addOF (Some f) pr) pr fs = Some (pr\<lparr>m_ofs := m_ofs pr @ gs, m_ofnum := m_ofnum pr + length gs\<rparr>) \<and>
     list_all2 taken fs gs"
  using assms
proof (induction fs arbitrary: pr)
  case Nil
  then show ?case by (intro exI [of _ "[]"]) simp
next
  case (Cons f fs)
  then have f: "wf_pdmap (m_pdmap f)" "0 < m_boxCount (m_pdmap f)" "0 < m_pwt f" by (simp_all add: usable_def)
  have mm: "getMinWT (m_pdmap f) = Some (of_min f)" "getMaxWT (m_pdmap f) = Some (of_max f)"
    using getMinMaxWT [OF wf_pdmapD(3) [OF f(1)] f(2)] by (simp_all add: of_min_def of_max_def)
  obtain pd where pd: "addOF (Some f) pr = Some (pr\<lparr>m_ofs := m_ofs pr @ [f\<lparr>m_pdmap := pd\<rparr>], m_ofnum := m_ofnum pr + 1\<rparr>)"
    "wf_pdmap pd" "pd_domain pd = pd_domain (m_pdmap f)" "pd_degree pd = pd_degree (m_pdmap f)"
    "list_all2 (weighed_piece (m_pwt f) (of_min f) (of_max f)) (pieces (m_pdmap f)) (pieces pd)"
    by (rule addOF_ok [OF f Cons.prems(2) mm])
  let ?g = "f\<lparr>m_pdmap := pd\<rparr>" and ?pr = "pr\<lparr>m_ofs := m_ofs pr @ [f\<lparr>m_pdmap := pd\<rparr>], m_ofnum := m_ofnum pr + 1\<rparr>"
  have "taken f ?g" using pd(2-5) by (simp add: taken_def)
  moreover obtain gs where "foldM (\<lambda>pr f. addOF (Some f) pr) ?pr fs =
      Some (?pr\<lparr>m_ofs := m_ofs ?pr @ gs, m_ofnum := m_ofnum ?pr + length gs\<rparr>)" "list_all2 taken fs gs"
    using Cons.IH [of ?pr] Cons.prems by auto
  ultimately show ?case using pd(1) by (intro exI [of _ "?g # gs"]) simp
qed

lemma taken_moved:
  assumes "taken f g" "moved S g h"
  shows "carried S f h"
proof -
  let ?D = "pd_domain (m_pdmap f)"
  have p: "carried_piece S f b d" if "weighed_piece (m_pwt f) (of_min f) (of_max f) b c" "moved_piece ?D S c d" for b c d
    using that by (simp add: weighed_piece_def moved_piece_def carried_piece_def worth_weighed)
  have "list_all2 (moved_piece ?D S) (pieces (m_pdmap g)) (pieces (m_pdmap h))"
    "list_all2 (weighed_piece (m_pwt f) (of_min f) (of_max f)) (pieces (m_pdmap f)) (pieces (m_pdmap g))"
    using assms by (simp_all add: moved_def taken_def)
  then have "list_all2 (carried_piece S f) (pieces (m_pdmap f)) (pieces (m_pdmap h))"
    using list_all2_trans [of "weighed_piece (m_pwt f) (of_min f) (of_max f)" "moved_piece ?D S" "carried_piece S f"] p by blast
  then show ?thesis using assms by (simp add: carried_def taken_def moved_def)
qed

lemma carried_regridded:
  assumes "carried S f h" "same_but_grid (m_pdmap k) (m_pdmap h)" "wf_pdmap (m_pdmap k)" "m_pwt k = m_pwt h"
  shows "carried S f k"
  using assms same_but_gridD [OF assms(2)] by (simp add: carried_def)

lemma list_all2_back: "list_all2 P xs ys \<Longrightarrow> y \<in> set ys \<Longrightarrow> \<exists>x\<in>set xs. P x y"
  by (metis in_set_conv_nth list_all2_conv_all_nth)

lemma carried_ok:
  assumes "carried S f h" "usable S deg f"
  shows "wf_pdmap (m_pdmap h)" "dom_size (pd_domain (m_pdmap h)) = dom_size S" "pd_degree (m_pdmap h) = deg"
    "b \<in> set (pieces (m_pdmap h)) \<Longrightarrow> inclusive b"
  using assms list_all2_back [of "carried_piece S f" "pieces (m_pdmap f)" "pieces (m_pdmap h)" b]
  by (auto simp: carried_def usable_def dom_eq_def dom_size_def carried_piece_def)

text \<open>The whole way. The solver is ready for the functions that come out of it.\<close>

lemma carried_ready:
  assumes "good_domain S" "fs \<noteq> []" "\<forall>f\<in>set fs. usable S deg f"
  obtains pr hs where "foldM (\<lambda>pr f. addOF (Some f) pr) Problem_new fs \<bind> (\<lambda>pr. alignOFs (setDomain S pr)) = Some (True, pr)"
    "list_all2 (carried S) fs (m_ofs pr)" "ready (dom_size S) deg pr" "0 < m_ofnum pr" "m_epsilon pr = 0" "m_maxbox pr = None"
    "p_domain pr = S"
proof -
  have n: "m_ofnum Problem_new = length (m_ofs Problem_new)" by (simp add: Problem_new_def)
  obtain gs where g: "foldM (\<lambda>pr f. addOF (Some f) pr) Problem_new fs =
      Some (Problem_new\<lparr>m_ofs := gs, m_ofnum := length gs\<rparr>)" "list_all2 taken fs gs"
    using functions_added [OF assms(3) n] by (auto simp: Problem_new_def)
  let ?pr = "setDomain S (Problem_new\<lparr>m_ofs := gs, m_ofnum := length gs\<rparr>)"
  have l: "length gs = length fs" using g(2) by (simp add: list_all2_lengthD)
  have f: "\<exists>f\<in>set fs. taken f k" if "k \<in> set gs" for k
    using g(2) that by (metis in_set_conv_nth list_all2_conv_all_nth)
  have q: "good_domain (p_domain ?pr)" "m_ofnum ?pr = length (m_ofs ?pr)" "0 < m_ofnum ?pr"
    "\<forall>f\<in>set (m_ofs ?pr). wf_pdmap (m_pdmap f) \<and> names_fit (pd_domain (m_pdmap f)) (p_domain ?pr)"
    using assms l f by (auto simp: setDomain_def Problem_new_def taken_def usable_def dest!: bspec f)
  obtain hs where h: "alignOFs ?pr = Some (True, ?pr\<lparr>m_ofs := hs\<rparr>)" "list_all2 (moved (p_domain ?pr)) (m_ofs ?pr) hs"
    by (rule alignOFs_ok [OF q])
  have c: "list_all2 (carried S) fs hs"
    using list_all2_trans [of taken "moved S" "carried S" fs gs hs] taken_moved g(2) h(2) by (simp add: setDomain_def)
  have r: "ready (dom_size S) deg (?pr\<lparr>m_ofs := hs\<rparr>)"
    unfolding ready_def
  proof (intro conjI ballI)
    fix h b assume h: "h \<in> set (m_ofs (?pr\<lparr>m_ofs := hs\<rparr>))"
    then obtain f where f: "carried S f h" "usable S deg f" using list_all2_back [OF c] assms(3) by auto
    show "wf_pdmap (m_pdmap h)" "dom_size (pd_domain (m_pdmap h)) = dom_size S" "pd_degree (m_pdmap h) = deg"
      "b \<in> set (pieces (m_pdmap h)) \<Longrightarrow> inclusive b" by (fact carried_ok [OF f])+
  next
    obtain f where "f \<in> set fs" using assms(2) by (cases fs) auto
    with assms(3) have "wf_pdmap (m_pdmap f)" "pd_degree (m_pdmap f) = deg" by (auto simp: usable_def)
    then show "deg \<le> 1" using wf_pdmapD(2) by auto
    show "m_ofnum (?pr\<lparr>m_ofs := hs\<rparr>) = length (m_ofs (?pr\<lparr>m_ofs := hs\<rparr>))"
      using c l by (simp add: setDomain_def list_all2_lengthD)
  qed (use assms(1) in \<open>simp_all add: good_domain_def setDomain_def Problem_new_def\<close>)
  show ?thesis
    by (rule that [of "?pr\<lparr>m_ofs := hs\<rparr>"]) (use g(1) h c r q(3) in \<open>simp_all add: setDomain_def Problem_new_def\<close>)
qed

section \<open>The best decision\<close>

text \<open>
  A decision gives every variable a point of its range; \<open>v n\<close> counts the steps from the low end. A piece of each
  function that holds the decision has a worth there; the helm looks for the largest sum.
\<close>

definition on_grid :: "ivpdomain \<Rightarrow> (string \<Rightarrow> int) \<Rightarrow> bool" where
  "on_grid S v \<longleftrightarrow> (\<forall>n\<in>set (m_dname S). 0 \<le> v n \<and> v n < int (getVarPoints_s S n))"

definition pick :: "ivpfunction list \<Rightarrow> (string \<Rightarrow> int) \<Rightarrow> ivpbox list \<Rightarrow> bool" where
  "pick fs v bs \<longleftrightarrow> list_all2 (\<lambda>f b. b \<in> set (pieces (m_pdmap f)) \<and> in_box b (by_name (pd_domain (m_pdmap f)) v)) fs bs"

definition gain :: "ivpfunction list \<Rightarrow> (string \<Rightarrow> int) \<Rightarrow> ivpbox list \<Rightarrow> real" where
  "gain fs v bs = sum_list (map2 (\<lambda>f b. worth f v b) fs bs)"

lemma list_all2_forth: "list_all2 P xs ys \<Longrightarrow> x \<in> set xs \<Longrightarrow> \<exists>y\<in>set ys. P x y"
  by (metis in_set_conv_nth list_all2_conv_all_nth)

lemma choice_of_pick:
  assumes "list_all2 (carried S) fs hs" "on_grid S v" "pick fs v bs"
  shows "\<exists>cs. choice cs hs (by_name S v) \<and> total cs (by_name S v) = gain fs v bs"
  using assms(1,3)
proof (induction arbitrary: bs rule: list_all2_induct)
  case Nil
  then show ?case by (intro exI [of _ "[]"]) (simp add: choice_def pick_def gain_def)
next
  case (Cons f fs h hs)
  then obtain b bs' where b: "bs = b # bs'" "b \<in> set (pieces (m_pdmap f))" "in_box b (by_name (pd_domain (m_pdmap f)) v)" "pick fs v bs'"
    by (auto simp: pick_def list_all2_Cons1)
  obtain cs where cs: "choice cs hs (by_name S v)" "total cs (by_name S v) = gain fs v bs'" using Cons.IH [OF b(4)] by blast
  have "list_all2 (carried_piece S f) (pieces (m_pdmap f)) (pieces (m_pdmap h))" using Cons.hyps(1) by (simp add: carried_def)
  from list_all2_forth [OF this b(2)] obtain c where c: "c \<in> set (pieces (m_pdmap h))" "carried_piece S f b c" by blast
  have "in_box c (by_name S v)" "ival c (by_name S v) = worth f v b"
    using c(2) b(3) assms(2) by (simp_all add: carried_piece_def on_grid_def)
  with c(1) cs b(1) show ?case by (intro exI [of _ "c # cs"]) (simp add: choice_def gain_def)
qed

lemma pick_of_choice:
  assumes "list_all2 (carried S) fs hs" "choice cs hs (by_name S v)"
  shows "\<exists>bs. pick fs v bs \<and> gain fs v bs = total cs (by_name S v)"
  using assms
proof (induction arbitrary: cs rule: list_all2_induct)
  case Nil
  then show ?case by (intro exI [of _ "[]"]) (simp add: choice_def pick_def gain_def)
next
  case (Cons f fs h hs)
  then obtain c cs' where c: "cs = c # cs'" "c \<in> set (pieces (m_pdmap h))" "in_box c (by_name S v)" "choice cs' hs (by_name S v)"
    by (auto simp: choice_def list_all2_Cons2)
  obtain bs where bs: "pick fs v bs" "gain fs v bs = total cs' (by_name S v)" using Cons.IH [OF c(4)] by blast
  have "list_all2 (carried_piece S f) (pieces (m_pdmap f)) (pieces (m_pdmap h))" using Cons.hyps(1) by (simp add: carried_def)
  from list_all2_back [OF this c(2)] obtain b where b: "b \<in> set (pieces (m_pdmap f))" "carried_piece S f b c" by blast
  have "in_box b (by_name (pd_domain (m_pdmap f)) v)" "ival c (by_name S v) = worth f v b"
    using b(2) c(3) by (simp_all add: carried_piece_def)
  with b(1) bs c(1) show ?case by (intro exI [of _ "b # bs"]) (simp add: pick_def gain_def)
qed

text \<open>A point of the solver as a decision.\<close>

definition named :: "ivpdomain \<Rightarrow> (nat \<Rightarrow> int) \<Rightarrow> string \<Rightarrow> int" where
  "named S x n = x (nat (getIndex S n))"

lemma by_name_named: "valid_domain S \<Longrightarrow> d < dom_size S \<Longrightarrow> by_name S (named S x) d = x d"
  by (simp add: by_name_def named_def getIndex_name)

lemma choice_named:
  assumes "good_domain S" "\<forall>h\<in>set hs. wf_pdmap (m_pdmap h) \<and> dom_eq (pd_domain (m_pdmap h)) S"
  shows "choice cs hs (by_name S (named S x)) = choice cs hs x" "choice cs hs x \<Longrightarrow> total cs (by_name S (named S x)) = total cs x"
proof -
  have v: "valid_domain S" using assms(1) by (simp add: good_domain_def)
  have p: "in_box c (by_name S (named S x)) = in_box c x" "ival c (by_name S (named S x)) = ival c x"
    if "h \<in> set hs" "c \<in> set (pieces (m_pdmap h))" for h c
  proof -
    have "m_dim c = dom_size S"
      using assms(2) that wf_pdmapD(4) [of "m_pdmap h" c] by (auto simp: good_piece_def dom_eq_def dom_size_def)
    then show "in_box c (by_name S (named S x)) = in_box c x" "ival c (by_name S (named S x)) = ival c x"
      using by_name_named [OF v] in_box_dim_cong [of c "by_name S (named S x)" x] ival_dim_cong [of c "by_name S (named S x)" x]
      by simp_all
  qed
  show "choice cs hs (by_name S (named S x)) = choice cs hs x"
    unfolding choice_def by (rule list.rel_cong [OF refl refl]) (use p(1) in blast)
  show "total cs (by_name S (named S x)) = total cs x" if "choice cs hs x"
  proof -
    have "ival c (by_name S (named S x)) = ival c x" if c: "c \<in> set cs" for c
    proof -
      have "\<exists>h\<in>set hs. c \<in> set (pieces (m_pdmap h)) \<and> in_box c x"
        using \<open>choice cs hs x\<close> c unfolding choice_def by (rule list_all2_forth)
      with p(2) show ?thesis by blast
    qed
    then show ?thesis by (simp add: total_def cong: map_cong)
  qed
qed

lemma choice_on_grid:
  assumes "good_domain S" "\<forall>h\<in>set hs. wf_pdmap (m_pdmap h) \<and> dom_eq (pd_domain (m_pdmap h)) S" "hs \<noteq> []" "choice cs hs x"
  shows "d < dom_size S \<Longrightarrow> 0 \<le> x d \<and> x d < int (m_dpoints S ! d)"
proof -
  assume d: "d < dom_size S"
  obtain h hs' where hs: "hs = h # hs'" using assms(3) by (cases hs) auto
  obtain c where c: "c \<in> set (pieces (m_pdmap h))" "in_box c x" using assms(4) by (auto simp: hs choice_def list_all2_Cons2)
  let ?D = "pd_domain (m_pdmap h)"
  have h: "wf_pdmap (m_pdmap h)" "dom_eq ?D S" using assms(2) hs by simp_all
  have g: "m_dim c = dom_size S" "0 \<le> pt c d 0" "pt c d 1 \<le> int (getVarPoints_i ?D d) - 1"
    using wf_pdmapD(4) [OF h(1) c(1)] h(2) d by (auto simp: good_piece_def dom_eq_def dom_size_def)
  have "getVarPoints_i ?D d = m_dpoints S ! d"
    using h(2) d by (auto simp: dom_eq_def dom_size_def getVarPoints_i_def list_all_iff)
  with g c(2) d show ?thesis by (fastforce simp: in_box_def)
qed

definition best_decision :: "ivpdomain \<Rightarrow> ivpfunction list \<Rightarrow> (string \<Rightarrow> int) \<Rightarrow> bool" where
  "best_decision S fs v \<longleftrightarrow> on_grid S v \<and> (\<exists>bs. pick fs v bs \<and>
     (\<forall>v' bs'. on_grid S v' \<and> pick fs v' bs' \<longrightarrow> gain fs v' bs' \<le> gain fs v bs))"

definition solves :: "ivpdomain \<Rightarrow> ivpfunction list \<Rightarrow> problem \<Rightarrow> bool" where
  "solves S fs pr \<longleftrightarrow> p_domain pr = S \<and>
     (case m_maxbox pr of
        None \<Rightarrow> \<not> (\<exists>v bs. on_grid S v \<and> pick fs v bs)
      | Some mb \<Rightarrow> wf_box mb \<and> m_dim mb = dom_size S \<and> m_degree mb \<le> 2 \<and> best_decision S fs (named S (maxPt_coord mb)) \<and>
          (\<forall>d<dom_size S. 0 \<le> maxPt_coord mb d \<and> maxPt_coord mb d < int (m_dpoints S ! d)))"

lemma solved_best:
  assumes "good_domain S" "fs \<noteq> []" "\<forall>f\<in>set fs. usable S deg f"
  obtains pr where "solved fs S = Some pr" "list_all2 (carried S) fs (m_ofs pr)" "solves S fs pr"
proof -
  obtain pr where r: "foldM (\<lambda>pr f. addOF (Some f) pr) Problem_new fs \<bind> (\<lambda>pr. alignOFs (setDomain S pr)) = Some (True, pr)"
    "list_all2 (carried S) fs (m_ofs pr)" "ready (dom_size S) deg pr" "0 < m_ofnum pr" "m_epsilon pr = 0" "m_maxbox pr = None"
    "p_domain pr = S" by (rule carried_ready [OF assms])
  have b0: "best_ok (dom_size S) deg (m_ofs pr) pr" "\<forall>b. None = Some b \<longrightarrow> init_box (dom_size S) deg pr b"
    using r(6) by (simp_all add: best_ok_def)
  have "\<exists>pr'. solve CompactorNull None pr = Some (True, pr') \<and> best_ok (dom_size S) deg (m_ofs pr) pr' \<and>
    (\<forall>bs x. choice bs (m_ofs pr) x \<longrightarrow> beats (m_epsilon pr) pr' (total bs x)) \<and> p_domain pr' = p_domain pr \<and>
    grids_only (m_ofs pr) (m_ofs pr')" by (rule solve_ok [OF r(3,4) b0]) blast
  then obtain pr' where s: "solve CompactorNull None pr = Some (True, pr')" "best_ok (dom_size S) deg (m_ofs pr) pr'"
    "\<forall>bs x. choice bs (m_ofs pr) x \<longrightarrow> beats (m_epsilon pr) pr' (total bs x)" "p_domain pr' = p_domain pr"
    "grids_only (m_ofs pr) (m_ofs pr')" by blast
  obtain p0 where p0: "foldM (\<lambda>pr f. addOF (Some f) pr) Problem_new fs = Some p0" "alignOFs (setDomain S p0) = Some (True, pr)"
    using r(1) by (cases "foldM (\<lambda>pr f. addOF (Some f) pr) Problem_new fs") simp_all
  have run: "solved fs S = Some pr'" unfolding solved_def p0(1) Option.bind.bind_lunit p0(2) prod.case s(1) ..
  have c: "list_all2 (carried S) fs (m_ofs pr')"
    by (rule list_all2_trans [OF _ r(2) s(5) [unfolded grids_only_def]]) (rule carried_regridded, simp_all)
  have hs: "\<forall>h\<in>set (m_ofs pr). wf_pdmap (m_pdmap h) \<and> dom_eq (pd_domain (m_pdmap h)) S"
    using list_all2_back [OF r(2)] by (auto simp: carried_def)
  have ne: "m_ofs pr \<noteq> []" using r(2) assms(2) by (auto simp: list_all2_lengthD)
  have v: "valid_domain S" using assms(1) by (simp add: good_domain_def)
  have deg: "deg \<le> 1" using r(3) by (simp add: ready_def)
  show ?thesis
  proof (rule that [OF run c])
    have pd: "p_domain pr' = S" using s(4) r(7) by simp
    have no: "\<not> (\<exists>v bs. on_grid S v \<and> pick fs v bs)" if n: "m_maxbox pr' = None"
      using choice_of_pick [OF r(2)] s(3) n unfolding beats_def by blast
    have yes: "wf_box mb \<and> m_dim mb = dom_size S \<and> m_degree mb \<le> 2 \<and> best_decision S fs (named S (maxPt_coord mb)) \<and>
       (\<forall>d<dom_size S. 0 \<le> maxPt_coord mb d \<and> maxPt_coord mb d < int (m_dpoints S ! d))"
      if mb: "m_maxbox pr' = Some mb" for mb
    proof -
      let ?x = "maxPt_coord mb" let ?v = "named S ?x"
      obtain cs where cs: "wf_box mb" "m_dim mb = dom_size S" "m_degree mb = deg" "choice cs (m_ofs pr) ?x" "total cs ?x = m_maxwt pr'"
        using s(2) mb unfolding best_ok_def by blast
      have grid: "\<forall>d<dom_size S. 0 \<le> ?x d \<and> ?x d < int (m_dpoints S ! d)"
        using choice_on_grid [OF assms(1) hs ne cs(4)] by blast
      have og: "on_grid S ?v"
        unfolding on_grid_def
      proof
        fix n assume "n \<in> set (m_dname S)"
        then obtain d where d: "d < dom_size S" "n = getVarName S d" by (auto simp: names_of_domain)
        then have "?v n = ?x d" using getIndex_name [OF v d(1)] by (simp add: named_def)
        moreover have "getVarPoints_s S n = m_dpoints S ! d"
          using points_by_name [OF v d(1)] d by (simp add: getVarPoints_i_def dom_size_def)
        ultimately show "0 \<le> ?v n \<and> ?v n < int (getVarPoints_s S n)" using grid d(1) by simp
      qed
      obtain bs where bs: "pick fs ?v bs" "gain fs ?v bs = m_maxwt pr'"
        using pick_of_choice [OF r(2), of cs ?v] choice_named [OF assms(1) hs] cs(4,5) by fastforce
      have "gain fs v' bs' \<le> gain fs ?v bs" if h: "on_grid S v'" "pick fs v' bs'" for v' bs'
      proof -
        obtain cs' where "choice cs' (m_ofs pr) (by_name S v')" "total cs' (by_name S v') = gain fs v' bs'"
          using choice_of_pick [OF r(2) h] by blast
        with s(3) [rule_format, of cs' "by_name S v'"] r(5) bs(2) show ?thesis by (simp add: beats_def)
      qed
      with og bs(1) cs(1-3) grid deg show ?thesis by (auto simp: best_decision_def)
    qed
    show "solves S fs pr'" using pd no yes by (simp add: solves_def split: option.split)
  qed
qed

text \<open>The decision for a variable, and its place in the report.\<close>

lemma result_of_best:
  assumes "valid_domain S" "\<forall>p\<in>set (m_dpoints S). p \<le> 2 ^ 31" "p_domain pr = S" "n \<in> set (m_dname S)" "m_maxbox pr = Some mb"
    "wf_box mb" "m_dim mb = dom_size S" "m_degree mb \<le> 2" "\<forall>d<dom_size S. 0 \<le> maxPt_coord mb d \<and> maxPt_coord mb d < int (m_dpoints S ! d)"
  shows "fst (getResult pr n) = getVal S (nat (getIndex S n)) (nat (named S (maxPt_coord mb) n))"
proof -
  obtain d where d: "d < dom_size S" "n = getVarName S d" using assms(4) by (auto simp: names_of_domain)
  have l: "d < length (m_dpoints S)" using assms(1) d(1) by (simp add: valid_domain_def dom_size_def)
  have ix: "getIndex S n = int d" using getIndex_name [OF assms(1) d(1)] d(2) by simp
  have "getResult pr (getVarName (p_domain pr) d) = (getVal (p_domain pr) d (nat (maxPt_coord mb d)), True)"
    using getResult_value [of pr d mb] assms d(1) nth_mem [OF l] by auto
  then show ?thesis using d(2) ix assms(3) by (simp add: named_def)
qed

lemma decisions_reported:
  "m_decisions (foldl (report_decision pr) r names) n = (if n \<in> set names then Some (fst (getResult pr n)) else m_decisions r n)"
  by (induction names arbitrary: r) (auto simp: report_decision_def addMsg_def addDecision_def Let_def)

lemma put_back_all: "list_all2 (carried S) fs gs \<Longrightarrow> \<forall>f\<in>set fs. usable S deg f \<Longrightarrow> put_back fs gs = gs"
  by (induction rule: list_all2_induct) (auto simp: usable_def)

section \<open>Properties of the parts\<close>

text \<open>C1: What the helm decides. For functions that are whole, of positive weight and over variables of the
  domain, the problem is built and solved without a failed assertion, and for every variable of the domain the report gets
  the value of a decision at which the weighted sum of one piece per function, each first brought to a range of at most
  100, is the largest there is; when no decision lies in a piece of every function, each variable gets 0.\<close>

theorem decisions_optimal:
  fixes e :: "'x helm_engine"
  assumes "good_domain (m_sub_domain e)" "\<forall>p\<in>set (m_dpoints (m_sub_domain e)). p \<le> 2 ^ 31" "m_ivp_functions e \<noteq> []"
    "\<forall>f\<in>set (m_ivp_functions e). usable (m_sub_domain e) deg f"
  shows "\<exists>e'. part4 ''direct'' e = Some (True, e') \<and>
    (if \<exists>v bs. on_grid (m_sub_domain e) v \<and> pick (m_ivp_functions e) v bs
     then \<exists>v. best_decision (m_sub_domain e) (m_ivp_functions e) v \<and>
       (\<forall>n. m_decisions (m_helm_report e') n = (if n \<in> set (m_dname (m_sub_domain e))
          then Some (getVal (m_sub_domain e) (nat (getIndex (m_sub_domain e) n)) (nat (v n))) else m_decisions (m_helm_report e) n))
     else \<forall>n. m_decisions (m_helm_report e') n = (if n \<in> set (m_dname (m_sub_domain e)) then Some 0
          else m_decisions (m_helm_report e) n))"
proof -
  let ?S = "m_sub_domain e" and ?fs = "m_ivp_functions e"
  have v: "valid_domain ?S" using assms(1) by (simp add: good_domain_def)
  obtain pr where pr: "solved ?fs ?S = Some pr" "solves ?S ?fs pr" using solved_best [OF assms(1,3,4)] by blast
  define e1 where "e1 = report (\<lambda>r. (addMsg (''Number of IvP Functions: '' @ intToString (int (length ?fs))) r)\<lparr>m_report_ofnum := length ?fs\<rparr>) e"
  have e1: "m_ivp_functions e1 = ?fs" "m_sub_domain e1 = ?S" "m_decisions (m_helm_report e1) = m_decisions (m_helm_report e)"
    by (simp_all add: e1_def report_def addMsg_def)
  have names: "set (map (getVarName ?S) [0..<dom_size ?S]) = set (m_dname ?S)" by (auto simp: names_of_domain)
  define e' where "e' = (report (\<lambda>r. foldl (report_decision pr) r (map (getVarName ?S) [0..<dom_size ?S])) e1)\<lparr>m_ivp_functions := []\<rparr>"
  have run: "part4 ''direct'' e = Some (True, e')"
    using assms(3) pr(1) e1(1,2) unfolding part4_def Let_def e1_def [symmetric] e'_def by simp
  have d: "m_decisions (m_helm_report e') n = (if n \<in> set (m_dname ?S) then Some (fst (getResult pr n)) else m_decisions (m_helm_report e) n)" for n
    using decisions_reported [of pr "m_helm_report e1" "map (getVarName ?S) [0..<dom_size ?S]" n] names e1(3)
    by (simp add: e'_def report_def)
  show ?thesis
  proof (cases "m_maxbox pr")
    case None
    then have z: "fst (getResult pr n) = 0" for n by (simp add: getResult_def)
    have no: "\<not> (\<exists>v bs. on_grid ?S v \<and> pick ?fs v bs)" using pr(2) None by (simp add: solves_def)
    show ?thesis unfolding if_not_P [OF no] using run d z by (intro exI [of _ e']) simp
  next
    case (Some mb)
    have b: "p_domain pr = ?S" "wf_box mb" "m_dim mb = dom_size ?S" "m_degree mb \<le> 2" "best_decision ?S ?fs (named ?S (maxPt_coord mb))"
      "\<forall>d<dom_size ?S. 0 \<le> maxPt_coord mb d \<and> maxPt_coord mb d < int (m_dpoints ?S ! d)"
      using pr(2) Some by (simp_all add: solves_def)
    have r: "fst (getResult pr n) = getVal ?S (nat (getIndex ?S n)) (nat (named ?S (maxPt_coord mb) n))" if "n \<in> set (m_dname ?S)" for n
      by (rule result_of_best [OF v assms(2) b(1) that Some b(2-4,6)])
    have yes: "\<exists>v bs. on_grid ?S v \<and> pick ?fs v bs" using b(5) by (auto simp: best_decision_def)
    show ?thesis unfolding if_P [OF yes]
      by (rule exI [of _ e'], rule conjI [OF run], rule exI [of _ "named ?S (maxPt_coord mb)"]) (use b(5) d r in simp)
  qed
qed

text \<open>Two functions over the points 0 to 9; the steep one wins at 9.\<close>

definition ex_engine :: "unit helm_engine" where
  "ex_engine = (HelmEngine_new ex_line None)\<lparr>m_sub_domain := ex_line, m_ivp_functions := [ex_hill, ex_slope]\<rparr>"

lemma ex_usable: "\<forall>f\<in>set [ex_hill, ex_slope]. usable ex_line 1 f"
proof -
  have "names_fit ex_line ex_line" by (simp add: names_fit_def hasDomain_iff)
  then show ?thesis using wf_ex_fun by (simp add: usable_def) (simp add: ex_hill_def ex_slope_def ex_box_facts(4))
qed

lemma ex_ranges: "of_min ex_slope = 0" "of_max ex_slope = 240" "of_min ex_hill = 0" "of_max ex_hill = 4"
proof -
  have v: "minVal (ex_box 0 4 1 0) = 0" "maxVal (ex_box 0 4 1 0) = 4" "minVal (ex_box 5 9 (-1) 9) = 0" "maxVal (ex_box 5 9 (-1) 9) = 4"
    by (simp_all add: minVal_def maxVal_def ex_box_def pt_def wt_def)
  show "of_min ex_hill = 0" "of_max ex_hill = 4"
    using getMinMaxWT [OF wf_pdmapD(3) [OF wf_ex_fun(1)]] by (simp_all add: of_min_def of_max_def ex_hill_def v)
qed (simp_all add: of_min_def of_max_def ex_slope_range)

theorem decisions_optimal_witness:
  "\<exists>e'. part4 ''direct'' ex_engine = Some (True, e') \<and> m_decisions (m_helm_report e') ''x'' = Some 9"
proof -
  let ?fs = "[ex_hill, ex_slope]" and ?v9 = "\<lambda>n :: string. 9 :: int" and ?b9 = "[ex_box 5 9 (-1) 9, ex_box 3 9 30 (-30)]"
  have e: "m_sub_domain ex_engine = ex_line" "m_ivp_functions ex_engine = ?fs" by (simp_all add: ex_engine_def)
  have f: "m_pdmap ex_hill = ex_pd (ex_box 0 4 1 0) (ex_box 5 9 (-1) 9)" "m_pwt ex_hill = 2"
    "m_pdmap ex_slope = ex_pd (ex_box 0 2 40 0) (ex_box 3 9 30 (-30))" "m_pwt ex_slope = 1"
    by (simp_all add: ex_hill_def ex_slope_def)
  have x: "by_name ex_line v 0 = v ''x''" for v by (simp add: by_name_def getVarName_def ex_line_facts(4))
  have p9: "on_grid ex_line ?v9" "pick ?fs ?v9 ?b9" "gain ?fs ?v9 ?b9 = 100"
    by (simp_all add: on_grid_def ex_line_facts(4) getVarPoints_s_def getIndex_def ex_line_facts(7) pick_def f ex_box_facts(6) x
        gain_def worth_def ex_ranges ex_box_facts(7))
  have best9: "v ''x'' = 9" if b: "best_decision ex_line ?fs v" for v
  proof -
    have g: "0 \<le> v ''x''" "v ''x'' < 10" using b
      by (simp_all add: best_decision_def on_grid_def ex_line_facts(4) getVarPoints_s_def getIndex_def ex_line_facts(7))
    obtain bs where bs: "pick ?fs v bs" "100 \<le> gain ?fs v bs" using b p9 unfolding best_decision_def by metis
    define r where "r = real_of_int (v ''x'')"
    have r: "0 \<le> r" "r \<le> 9" using g by (simp_all add: r_def)
    obtain b1 b2 where l: "bs = [b1, b2]" "b1 \<in> {ex_box 0 4 1 0, ex_box 5 9 (-1) 9}" "b2 \<in> {ex_box 0 2 40 0, ex_box 3 9 30 (-30)}"
      "in_box b1 (by_name ex_line v)" "in_box b2 (by_name ex_line v)" using bs(1) by (auto simp: pick_def list_all2_Cons1 f)
    have w1: "worth ex_hill v b1 \<le> 8 \<and> (5 \<le> r \<longrightarrow> worth ex_hill v b1 = 2 * (9 - r))"
      using l(2,4) by (auto simp: worth_def f ex_ranges ex_box_facts(6,7) x r_def)
    have w2: "worth ex_slope v b2 = (if r < 3 then r * (50 / 3) else (30 * r - 30) / 2.4)"
      using l(3,5) by (auto simp: worth_def f ex_ranges ex_box_facts(6,7) x r_def)
    have "100 \<le> worth ex_hill v b1 + worth ex_slope v b2" using bs(2) l(1) by (simp add: gain_def)
    with w1 w2 r have "9 \<le> r" by (cases "r < 3"; cases "r < 5") auto
    then have "9 \<le> v ''x''" by (simp add: r_def)
    with g show ?thesis by simp
  qed
  obtain e' v where "part4 ''direct'' ex_engine = Some (True, e')" "best_decision ex_line ?fs v"
    "m_decisions (m_helm_report e') ''x'' = Some (getVal ex_line (nat (getIndex ex_line ''x'')) (nat (v ''x'')))"
  proof -
    have some: "\<exists>v bs. on_grid ex_line v \<and> pick ?fs v bs" using p9(1,2) by blast
    have "good_domain ex_line" "\<forall>p\<in>set (m_dpoints ex_line). p \<le> 2 ^ 31" by (simp_all add: good_domain_def ex_line_facts)
    with decisions_optimal [of ex_engine 1, unfolded e if_P [OF some]] ex_usable that show ?thesis
      by (auto simp: ex_line_facts(4))
  qed
  then show ?thesis using best9 [of v] by (simp add: getVal_def getIndex_def ex_line_facts)
qed


lemma carried_usable: "carried S f h \<Longrightarrow> usable S deg f \<Longrightarrow> valid_domain S \<Longrightarrow> usable S deg h"
proof -
  assume c: "carried S f h" and u: "usable S deg f" and v: "valid_domain S"
  let ?D = "pd_domain (m_pdmap h)"
  have "valid_domain ?D" using carried_ok(1) [OF c u] wf_pdmapD(1) by (auto simp: good_domain_def)
  with c v have d: "m_dname ?D = m_dname S" "m_dpoints ?D = m_dpoints S" by (simp_all add: carried_def dom_eq_iff)
  then have "names_fit ?D S" by (simp add: names_fit_def hasDomain_iff getVarPoints_s_def getIndex_def Let_def)
  moreover have "0 < m_boxCount (m_pdmap h)"
  proof -
    have "list_all2 (carried_piece S f) (pieces (m_pdmap f)) (pieces (m_pdmap h))" using c by (simp add: carried_def)
    from list_all2_lengthD [OF this] have "m_boxCount (m_pdmap f) = m_boxCount (m_pdmap h)" by simp
    with u show ?thesis by (simp add: usable_def)
  qed
  moreover have "0 < m_pwt h" using c u by (simp add: carried_def usable_def)
  ultimately show "usable S deg h" using carried_ok [OF c u] by (simp add: usable_def)
qed

lemma unfiltered_posted:
  "\<exists>ib'. foldM (post_unfiltered pr) (Some ib) names = Some (Some ib') \<and>
     (\<forall>v. (\<forall>n\<in>set names. v \<noteq> post_str n @ ''_UNFILTERED'') \<longrightarrow> dmap ib' v = dmap ib v) \<and> smap ib' = smap ib"
  by (induction names arbitrary: ib) (fastforce simp: post_unfiltered_def setValue_d_def Let_def)+

text \<open>C12: The phase before the filter decides on the functions themselves. It posts decisions to the buffer and none to
  the report, and goes on with functions that hold the values it has scaled and weighted and still have their weight, so that
  the last phase scales and weights them a second time.\<close>

theorem prefilter_reweights:
  fixes e :: "'x helm_engine"
  assumes "good_domain (m_sub_domain e)" "m_ivp_functions e \<noteq> []" "\<forall>f\<in>set (m_ivp_functions e). usable (m_sub_domain e) deg f"
    "he_info_buffer e = Some ib"
  shows "\<exists>e' ib'. part4 ''prefilter'' e = Some (True, e') \<and> m_decisions (m_helm_report e') = m_decisions (m_helm_report e) \<and>
    he_info_buffer e' = Some ib' \<and> smap ib' = smap ib \<and>
    (\<forall>v. (\<forall>n\<in>set (m_dname (m_sub_domain e)). v \<noteq> post_str n @ ''_UNFILTERED'') \<longrightarrow> dmap ib' v = dmap ib v) \<and>
    (\<forall>f\<in>set (m_ivp_functions e'). usable (m_sub_domain e) deg f) \<and>
    list_all2 (\<lambda>f f'. m_pwt f' = m_pwt f \<and>
      list_all2 (\<lambda>b c. \<forall>v. ival c (by_name (m_sub_domain e) v) = worth f v b) (pieces (m_pdmap f)) (pieces (m_pdmap f')))
      (m_ivp_functions e) (m_ivp_functions e')"
proof -
  let ?S = "m_sub_domain e" and ?fs = "m_ivp_functions e"
  have v: "valid_domain ?S" using assms(1) by (simp add: good_domain_def)
  obtain pr where pr: "solved ?fs ?S = Some pr" "list_all2 (carried ?S) ?fs (m_ofs pr)" using solved_best [OF assms(1-3)] by blast
  define e1 where "e1 = report (\<lambda>r. (addMsg (''Number of IvP Functions: '' @ intToString (int (length ?fs))) r)\<lparr>m_report_ofnum := length ?fs\<rparr>) e"
  have e1: "m_ivp_functions e1 = ?fs" "m_sub_domain e1 = ?S" "m_decisions (m_helm_report e1) = m_decisions (m_helm_report e)"
    "he_info_buffer e1 = Some ib" by (simp_all add: e1_def report_def addMsg_def assms(4))
  let ?names = "map (getVarName ?S) [0..<dom_size ?S]"
  have names: "set ?names = set (m_dname ?S)" by (auto simp: names_of_domain)
  obtain ib' where ib': "foldM (post_unfiltered pr) (Some ib) ?names = Some (Some ib')"
    "\<forall>v. (\<forall>n\<in>set (m_dname ?S). v \<noteq> post_str n @ ''_UNFILTERED'') \<longrightarrow> dmap ib' v = dmap ib v" "smap ib' = smap ib"
    using unfiltered_posted [of pr ib ?names] unfolding names by blast
  define e' where "e' = e1\<lparr>he_info_buffer := Some ib', m_ivp_functions := m_ofs pr\<rparr>"
  have run: "part4 ''prefilter'' e = Some (True, e')"
    using assms(2) pr(1) e1(1,2,4) ib'(1) put_back_all [OF pr(2) assms(3)]
    unfolding part4_def Let_def e1_def [symmetric] e'_def by simp
  have us: "\<forall>f\<in>set (m_ofs pr). usable ?S deg f"
    using list_all2_back [OF pr(2)] carried_usable [OF _ _ v] assms(3) by blast
  have "list_all2 (\<lambda>f f'. m_pwt f' = m_pwt f \<and>
      list_all2 (\<lambda>b c. \<forall>v. ival c (by_name ?S v) = worth f v b) (pieces (m_pdmap f)) (pieces (m_pdmap f'))) ?fs (m_ofs pr)"
    by (rule list_all2_mono [OF pr(2)]) (auto simp: carried_def carried_piece_def elim!: list_all2_mono)
  with run ib'(2,3) us e1(3) show ?thesis by (intro exI [of _ e'] exI [of _ ib']) (simp add: e'_def)
qed

theorem prefilter_reweights_witness:
  "\<exists>e' ib'. part4 ''prefilter'' (ex_engine\<lparr>he_info_buffer := Some InfoBuffer_new\<rparr>) = Some (True, e') \<and>
     he_info_buffer e' = Some ib' \<and> smap ib' = Map.empty \<and> map m_pwt (m_ivp_functions e') = [2, 1]"
proof -
  let ?e = "ex_engine\<lparr>he_info_buffer := Some InfoBuffer_new\<rparr>"
  have e: "m_sub_domain ?e = ex_line" "m_ivp_functions ?e = [ex_hill, ex_slope]" "he_info_buffer ?e = Some InfoBuffer_new"
    by (simp_all add: ex_engine_def)
  have g: "good_domain ex_line" by (simp add: good_domain_def ex_line_facts)
  have w: "m_pwt ex_hill = 2" "m_pwt ex_slope = 1" by (simp_all add: ex_hill_def ex_slope_def)
  show ?thesis using prefilter_reweights [of ?e 1 InfoBuffer_new, unfolded e] g ex_usable w
    by (auto simp: list_all2_Cons1 InfoBuffer_new_def)
qed


lemma names_collected:
  assumes "distinct acc"
  shows "distinct (foldl (\<lambda>acc j. let x = g j in if x \<in> set acc then acc else acc @ [x]) acc js) \<and>
     set (foldl (\<lambda>acc j. let x = g j in if x \<in> set acc then acc else acc @ [x]) acc js) = set acc \<union> g ` set js"
  using assms by (induction js arbitrary: acc) (auto simp: Let_def)

lemma of_names_facts:
  "distinct (of_names fs) \<and> set (of_names fs) = (\<Union>f\<in>set fs. ipf_getVarName f ` {..<pd_dim (m_pdmap f)})"
proof -
  let ?step = "\<lambda>acc f. foldl (\<lambda>acc j. let x = ipf_getVarName f j in if x \<in> set acc then acc else acc @ [x]) acc [0..<pd_dim (m_pdmap f)]"
  have "distinct (foldl ?step acc fs) \<and> set (foldl ?step acc fs) = set acc \<union> (\<Union>f\<in>set fs. ipf_getVarName f ` {..<pd_dim (m_pdmap f)})"
    if "distinct acc" for acc
    using that
  proof (induction fs arbitrary: acc)
    case (Cons f fs)
    have s: "distinct (?step acc f)" "set (?step acc f) = set acc \<union> ipf_getVarName f ` {..<pd_dim (m_pdmap f)}"
      using names_collected [OF Cons.prems, of "ipf_getVarName f" "[0..<pd_dim (m_pdmap f)]"] by (simp_all add: atLeast0LessThan)
    show ?case using Cons.IH [OF s(1)] s(2) by auto
  qed simp
  from this [of "[]"] show ?thesis by (simp add: of_names_def)
qed

text \<open>A variable is taken over with its range.\<close>

definition var_row :: "ivpdomain \<Rightarrow> string \<Rightarrow> real \<times> real \<times> nat" where
  "var_row D n = (getVarLow_s D n, getVarHigh_s D n, getVarPoints_s D n)"

lemma var_row_index:
  assumes "valid_domain D" "d < dom_size D"
  shows "var_row D (getVarName D d) = (m_dlow D ! d, m_dhigh D ! d, m_dpoints D ! d)"
  using assms getIndex_name [OF assms]
  by (simp add: var_row_def getVarLow_s_def getVarHigh_s_def getVarPoints_s_def valid_domain_def dom_size_def)

lemma sub_var_adds:
  assumes "valid_domain D" "n \<in> set (m_dname D)" "NUL \<notin> set n" "valid_domain S" "n \<notin> set (m_dname S)"
  shows "\<exists>de. sub_var D S n = \<lparr>m_dname = m_dname S @ [n], m_dlow = m_dlow S @ [fst (var_row D n)],
     m_dhigh = m_dhigh S @ [fst (snd (var_row D n))], m_ddelta = m_ddelta S @ [de], m_dpoints = m_dpoints S @ [snd (snd (var_row D n))]\<rparr>"
    and "valid_domain (sub_var D S n)"
proof -
  obtain d where d: "d < dom_size D" "n = getVarName D d" using assms(2) by (auto simp: names_of_domain)
  have ix: "nat (getIndex D n) = d" using getIndex_name [OF assms(1) d(1)] d(2) by simp
  have vv: "valid_var (m_dlow D ! d) (m_dhigh D ! d) (m_ddelta D ! d) (m_dpoints D ! d)"
    using assms(1) d(1) by (simp add: valid_domain_def dom_size_def)
  have row: "var_row D n = (m_dlow D ! d, m_dhigh D ! d, m_dpoints D ! d)" using var_row_index [OF assms(1) d(1)] d(2) by simp
  show "\<exists>de. sub_var D S n = \<lparr>m_dname = m_dname S @ [n], m_dlow = m_dlow S @ [fst (var_row D n)],
     m_dhigh = m_dhigh S @ [fst (snd (var_row D n))], m_ddelta = m_ddelta S @ [de], m_dpoints = m_dpoints S @ [snd (snd (var_row D n))]\<rparr>"
    using vv assms(3,5) d(1)
    by (simp add: sub_var_def ix row addDomain_def hasDomain_iff valid_var_def getVarLow_i_def getVarHigh_i_def getVarPoints_i_def dom_size_def)
      argo
  show "valid_domain (sub_var D S n)" using addDomain_valid [OF assms(4)] by (simp add: sub_var_def Let_def)
qed

lemma sub_domain_facts:
  assumes "valid_domain D" "\<forall>n\<in>set (m_dname D). NUL \<notin> set n" "set ns \<subseteq> set (m_dname D)" "distinct ns" "valid_domain S"
    "set ns \<inter> set (m_dname S) = {}"
  shows "valid_domain (foldl (sub_var D) S ns) \<and> m_dname (foldl (sub_var D) S ns) = m_dname S @ ns \<and>
     m_dlow (foldl (sub_var D) S ns) = m_dlow S @ map (fst \<circ> var_row D) ns \<and>
     m_dhigh (foldl (sub_var D) S ns) = m_dhigh S @ map (fst \<circ> snd \<circ> var_row D) ns \<and>
     m_dpoints (foldl (sub_var D) S ns) = m_dpoints S @ map (snd \<circ> snd \<circ> var_row D) ns"
  using assms(3-6)
proof (induction ns arbitrary: S)
  case (Cons n ns)
  have n: "n \<in> set (m_dname D)" "NUL \<notin> set n" "n \<notin> set (m_dname S)" using Cons.prems assms(2) by auto
  obtain de where de: "sub_var D S n = \<lparr>m_dname = m_dname S @ [n], m_dlow = m_dlow S @ [fst (var_row D n)],
     m_dhigh = m_dhigh S @ [fst (snd (var_row D n))], m_ddelta = m_ddelta S @ [de], m_dpoints = m_dpoints S @ [snd (snd (var_row D n))]\<rparr>"
    "valid_domain (sub_var D S n)" using sub_var_adds [OF assms(1) n(1,2) Cons.prems(3) n(3)] by blast
  show ?case using Cons.IH [OF _ _ de(2)] Cons.prems de(1) by simp
qed simp




section \<open>Asking every behavior\<close>

text \<open>A behavior that can take its step, and what the step makes of its entry.\<close>

definition entry_ready :: "infobuffer \<Rightarrow> nat \<Rightarrow> bool \<Rightarrow> (string \<Rightarrow> side_value) \<Rightarrow> 'x bhv_entry \<Rightarrow> bool" where
  "entry_ready ib iteration rp env x \<longleftrightarrow> (\<exists>M b met. m_behavior x = Some (M, b) \<and> lawful M ib rp iteration \<and> able ib b \<and>
     (\<forall>c\<in>set (bhv_logic_conditions b). logic_ok env c) \<and>
     first_fails (map (\<lambda>c. holds (\<lambda>v. learned ib v (env v)) (condition_of c)) (bhv_logic_conditions b)) = Some met)"

definition entry_step :: "infobuffer \<Rightarrow> nat \<Rightarrow> bool \<Rightarrow> (string \<Rightarrow> side_value) \<Rightarrow> int \<Rightarrow> real \<Rightarrow> 'x bhv_entry \<Rightarrow> 'x bhv_entry \<Rightarrow> ivpfunction option \<Rightarrow> bool \<Rightarrow> bool" where
  "entry_step ib iteration rp env level now x y ipf on \<longleftrightarrow> (\<exists>M b. m_behavior x = Some (M, b) \<and>
     (if m_filter_level b \<noteq> level then y = x \<and> ipf = None \<and> on
      else \<exists>b' new met. able ib b' \<and> on = m_bhv_state_ok b' \<and>
        first_fails (map (\<lambda>c. holds (\<lambda>v. learned ib v (env v)) (condition_of c)) (bhv_logic_conditions b)) = Some met \<and>
        outcome M ib rp iteration (run_state ib met (snd (checkForDurationReset (Some ib) b))) ipf new \<and>
        y = (let t = if m_state x \<noteq> new then now else m_state_time_entered x
             in \<lparr>m_behavior = Some (M, b'), m_state = new, m_state_time_entered = t, m_state_time_elapsed = now - t\<rparr>)))"

definition list_of :: "'a option \<Rightarrow> 'a list" where
  "list_of x = (case x of Some a \<Rightarrow> [a] | None \<Rightarrow> [])"

lemma list_of_simps [simp]: "list_of None = []" "list_of (Some a) = [a]"
  by (simp_all add: list_of_def)

lemma report_behavior_active:
  "m_bhvs_active_desc (report_behavior d t u s c newof r) = m_bhvs_active_desc r @ (if newof = None then [] else [d])"
  by (cases newof) (simp_all add: report_behavior_def addMsg_def addActiveBHV_def addRunningBHV_def addIdleBHV_def addCompletedBHV_def Let_def)

text \<open>What stays the same while the behaviors are asked.\<close>

definition asking :: "infobuffer \<Rightarrow> nat \<Rightarrow> bool \<Rightarrow> real \<Rightarrow> 'x helm_engine \<Rightarrow> 'x behavior_set \<Rightarrow> bool" where
  "asking ib iteration rp now e bs \<longleftrightarrow> m_bhv_set e = Some bs \<and> he_info_buffer e = Some ib \<and> he_iteration e = iteration \<and>
     m_report_ipf bs = rp \<and> bs_curr_time bs = now"

lemma part2_step_returns:
  assumes "asking ib iteration rp now e bs" "ix < length (m_bhv_entry bs)" "entry_ready ib iteration rp env (m_bhv_entry bs ! ix)"
  shows "\<exists>on e' bs' y ipf. part2_step clk level ix e = Some (on, e') \<and> asking ib iteration rp now e' bs' \<and>
     m_bhv_entry bs' = (m_bhv_entry bs)[ix := y] \<and> entry_step ib iteration rp env level now (m_bhv_entry bs ! ix) y ipf on \<and>
     m_ivp_functions e' = m_ivp_functions e @ (if on then list_of ipf else []) \<and>
     m_bhvs_active_desc (m_helm_report e') = m_bhvs_active_desc (m_helm_report e) @ (if on \<and> ipf \<noteq> None then [getBehaviorName y] else []) \<and>
     (on \<or> m_halted (m_helm_report e'))"
proof -
  let ?x = "m_bhv_entry bs ! ix"
  obtain M b met where b: "m_behavior ?x = Some (M, b)" "lawful M ib rp iteration" "able ib b"
    "\<forall>c\<in>set (bhv_logic_conditions b). logic_ok env c"
    "first_fails (map (\<lambda>c. holds (\<lambda>v. learned ib v (env v)) (condition_of c)) (bhv_logic_conditions b)) = Some met"
    using assms(3) by (auto simp: entry_ready_def)
  have a: "m_bhv_set e = Some bs" "he_info_buffer e = Some ib" "he_iteration e = iteration" "m_report_ipf bs = rp" "bs_curr_time bs = now"
    using assms(1) by (simp_all add: asking_def)
  have lv: "getFilterLevel ix bs = Some (m_filter_level b)" using assms(2) b(1) by (simp add: getFilterLevel_def on_behavior_def)
  show ?thesis
  proof (cases "m_filter_level b = level")
    case False
    then have "part2_step clk level ix e = Some (True, e)" by (simp add: part2_step_def a lv)
    moreover have "entry_step ib iteration rp env level now ?x ?x None True" using False b(1) by (simp add: entry_step_def)
    ultimately show ?thesis using assms(1) by (intro exI [of _ True] exI [of _ e] exI [of _ bs] exI [of _ ?x] exI [of _ None]) simp
  next
    case True
    obtain ipf new b' where p: "produceOF (Some ib) ix iteration '''' bs = Some (ipf, new, bs\<lparr>m_bhv_entry := (m_bhv_entry bs)[ix :=
       let t = if m_state ?x \<noteq> new then bs_curr_time bs else m_state_time_entered ?x
       in \<lparr>m_behavior = Some (M, b'), m_state = new, m_state_time_entered = t, m_state_time_elapsed = bs_curr_time bs - t\<rparr>]\<rparr>)"
      "able ib b'" "outcome M ib rp iteration (run_state ib met (snd (checkForDurationReset (Some ib) b))) ipf new"
      using behavior_class.produce_returns [OF lawful_class [OF b(2)] assms(2) refl b(1) a(4) b(3-5), of "''''"] by blast
    define y where "y = (let t = if m_state ?x \<noteq> new then now else m_state_time_entered ?x
       in \<lparr>m_behavior = Some (M, b'), m_state = new, m_state_time_entered = t, m_state_time_elapsed = now - t\<rparr>)"
    define bs1 where "bs1 = bs\<lparr>m_bhv_entry := (m_bhv_entry bs)[ix := y]\<rparr>"
    have prod: "produceOF (Some ib) ix iteration '''' bs = Some (ipf, new, bs1)" using p(1) by (simp add: bs1_def y_def a(5))
    have es: "entry_step ib iteration rp env level now ?x y ipf (m_bhv_state_ok b')" unfolding entry_step_def using True b(1,5) p(2,3) y_def by auto
    have yb: "m_behavior y = Some (M, b')" by (simp add: y_def Let_def)
    have g: "bs_stateOK ix bs1 = Some (m_bhv_state_ok b')" "getUpdateSummary ix bs1 = Some (m_update_summary b')"
      "getDescriptor ix bs1 = getBehaviorName y"
      using assms(2) yb by (simp_all add: bs1_def bs_stateOK_def getUpdateSummary_def getDescriptor_def on_behavior_def)
    have e1: "m_bhv_entry bs1 = (m_bhv_entry bs)[ix := y]" "m_report_ipf bs1 = rp" "bs_curr_time bs1 = now"
      using a(4,5) by (simp_all add: bs1_def)
    show ?thesis
    proof (cases "m_bhv_state_ok b'")
      case False
      obtain e' where "part2_step clk level ix e = Some (False, e')" "asking ib iteration rp now e' bs1" "m_halted (m_helm_report e')"
        "m_ivp_functions e' = m_ivp_functions e" "m_bhvs_active_desc (m_helm_report e') = m_bhvs_active_desc (m_helm_report e)"
      proof
        let ?msg = "''BHV_ERROR: '' @ (if \<not> snd (sQuery ib ''BHV_ERROR'') then '' - unknown - '' else fst (sQuery ib ''BHV_ERROR''))"
        let ?e = "report (halt ''HELM HALTING: Safety Emergency!!!'' ?msg) (e\<lparr>m_bhv_set := Some bs1\<rparr>)"
        show "part2_step clk level ix e = Some (False, ?e)"
          by (simp add: part2_step_def a(1-3) lv True prod g(1) False case_prod_beta Let_def)
        show "asking ib iteration rp now ?e bs1" "m_halted (m_helm_report ?e)" "m_ivp_functions ?e = m_ivp_functions e"
          "m_bhvs_active_desc (m_helm_report ?e) = m_bhvs_active_desc (m_helm_report e)"
          using a(2,3) e1 by (simp_all add: asking_def report_def halt_def addMsg_def)
      qed
      then show ?thesis using e1(1) es False by (intro exI [of _ False] exI [of _ e'] exI [of _ bs1] exI [of _ y] exI [of _ ipf]) simp
    next
      case ok: True
      let ?bs = "if new = ''completed'' then bs1\<lparr>m_completed_pending := True\<rparr> else bs1"
      let ?r = "report_behavior (getDescriptor ix bs1) (getStateTimeEntered ix bs1) (m_update_summary b') new (ipf_time clk ix) ipf (m_helm_report e)"
      let ?e = "e\<lparr>m_bhv_set := Some ?bs, m_helm_report := ?r, m_ivp_functions := m_ivp_functions e @ list_of ipf\<rparr>"
      have "part2_step clk level ix e = Some (True, ?e)"
        by (simp add: part2_step_def a(1-3) lv True prod g(1,2) ok Let_def list_of_def)
      moreover have "asking ib iteration rp now ?e ?bs" "m_bhv_entry ?bs = (m_bhv_entry bs)[ix := y]"
        using a(2,3) e1 by (simp_all add: asking_def)
      ultimately show ?thesis using es g(3) ok
        by (intro exI [of _ True] exI [of _ ?e] exI [of _ ?bs] exI [of _ y] exI [of _ ipf]) (simp add: report_behavior_active)
    qed
  qed
qed


text \<open>The course of a pass: every entry in turn takes its step, until one whose behavior reports an error.\<close>

inductive asks :: "infobuffer \<Rightarrow> nat \<Rightarrow> bool \<Rightarrow> (string \<Rightarrow> side_value) \<Rightarrow> int \<Rightarrow> real \<Rightarrow> 'x bhv_entry list \<Rightarrow> 'x bhv_entry list \<Rightarrow> ivpfunction option list \<Rightarrow> bool \<Rightarrow> bool"
  for ib iteration rp env level now where
  asks_all: "asks ib iteration rp env level now [] [] [] True"
| asks_next: "entry_step ib iteration rp env level now x y f True \<Longrightarrow> asks ib iteration rp env level now xs ys fs on \<Longrightarrow>
    asks ib iteration rp env level now (x # xs) (y # ys) (f # fs) on"
| asks_error: "entry_step ib iteration rp env level now x y f False \<Longrightarrow> asks ib iteration rp env level now (x # xs) (y # xs) [] False"

inductive_cases asks_one: "asks ib iteration rp env level now [x] ys fs on"

definition given :: "ivpfunction option list \<Rightarrow> ivpfunction list" where
  "given fs = concat (map list_of fs)"

definition givers :: "'x bhv_entry list \<Rightarrow> ivpfunction option list \<Rightarrow> string list" where
  "givers ys fs = map (getBehaviorName \<circ> fst) (filter (\<lambda>(y, f). f \<noteq> None) (zip ys fs))"

lemma given_simps [simp]: "given [] = []" "given (f # fs) = list_of f @ given fs"
  by (simp_all add: given_def)

lemma givers_simps [simp]: "givers ys [] = []" "givers (y # ys) (f # fs) = (if f \<noteq> None then [getBehaviorName y] else []) @ givers ys fs"
  by (auto simp: givers_def)

lemma part2_loop_returns:
  assumes "asking ib iteration rp now e bs" "k \<le> length (m_bhv_entry bs)"
    "\<forall>i. k \<le> i \<and> i < length (m_bhv_entry bs) \<longrightarrow> entry_ready ib iteration rp env (m_bhv_entry bs ! i)"
  shows "\<exists>on e' bs' ys fs. part2_loop clk level [k..<length (m_bhv_entry bs)] e = Some (on, e') \<and> asking ib iteration rp now e' bs' \<and>
     m_bhv_entry bs' = take k (m_bhv_entry bs) @ ys \<and> asks ib iteration rp env level now (drop k (m_bhv_entry bs)) ys fs on \<and>
     m_ivp_functions e' = m_ivp_functions e @ given fs \<and>
     m_bhvs_active_desc (m_helm_report e') = m_bhvs_active_desc (m_helm_report e) @ givers ys fs \<and>
     (on \<or> m_halted (m_helm_report e'))"
  using assms
proof (induction "length (m_bhv_entry bs) - k" arbitrary: k e bs)
  case 0
  then show ?case
    by (intro exI [of _ True] exI [of _ e] exI [of _ bs] exI [of _ "[]"]) (auto intro: asks_all)
next
  case (Suc m)
  let ?xs = "m_bhv_entry bs"
  from Suc.hyps(2) have k: "k < length ?xs" by simp
  then have ixs: "[k..<length ?xs] = k # [Suc k..<length ?xs]" by (simp add: upt_conv_Cons)
  have tl: "drop k ?xs = ?xs ! k # drop (Suc k) ?xs" using k by (simp add: Cons_nth_drop_Suc)
  obtain on e1 bs1 y f where s: "part2_step clk level k e = Some (on, e1)" "asking ib iteration rp now e1 bs1"
     "m_bhv_entry bs1 = ?xs[k := y]" "entry_step ib iteration rp env level now (?xs ! k) y f on"
     "m_ivp_functions e1 = m_ivp_functions e @ (if on then list_of f else [])"
     "m_bhvs_active_desc (m_helm_report e1) = m_bhvs_active_desc (m_helm_report e) @ (if on \<and> f \<noteq> None then [getBehaviorName y] else [])"
     "on \<or> m_halted (m_helm_report e1)"
    using part2_step_returns [OF Suc.prems(1) k, of env] Suc.prems(3) k by blast
  have up: "take (Suc k) (?xs[k := y]) = take k ?xs @ [y]" "drop (Suc k) (?xs[k := y]) = drop (Suc k) ?xs"
    "?xs[k := y] = take k ?xs @ y # drop (Suc k) ?xs"
    using k by (simp_all add: take_Suc_conv_app_nth upd_conv_take_nth_drop)
  show ?case
  proof (cases on)
    case False
    then show ?thesis using s up(3) tl
      by (intro exI [of _ False] exI [of _ e1] exI [of _ bs1] exI [of _ "y # drop (Suc k) ?xs"] exI [of _ "[]"])
        (auto simp: ixs intro: asks_error)
  next
    case True
    have "\<exists>on e' bs' ys fs. part2_loop clk level [Suc k..<length (m_bhv_entry bs1)] e1 = Some (on, e') \<and> asking ib iteration rp now e' bs' \<and>
       m_bhv_entry bs' = take (Suc k) (m_bhv_entry bs1) @ ys \<and> asks ib iteration rp env level now (drop (Suc k) (m_bhv_entry bs1)) ys fs on \<and>
       m_ivp_functions e' = m_ivp_functions e1 @ given fs \<and>
       m_bhvs_active_desc (m_helm_report e') = m_bhvs_active_desc (m_helm_report e1) @ givers ys fs \<and>
       (on \<or> m_halted (m_helm_report e'))"
      using Suc.hyps(2) Suc.prems(3) k s(3) by (intro Suc.hyps(1) [OF _ s(2)]) auto
    then obtain on' e' bs' ys fs where r: "part2_loop clk level [Suc k..<length (m_bhv_entry bs1)] e1 = Some (on', e')"
       "asking ib iteration rp now e' bs'" "m_bhv_entry bs' = take (Suc k) (m_bhv_entry bs1) @ ys"
       "asks ib iteration rp env level now (drop (Suc k) (m_bhv_entry bs1)) ys fs on'" "m_ivp_functions e' = m_ivp_functions e1 @ given fs"
       "m_bhvs_active_desc (m_helm_report e') = m_bhvs_active_desc (m_helm_report e1) @ givers ys fs" "on' \<or> m_halted (m_helm_report e')"
      by blast
    show ?thesis
    proof (intro exI conjI)
      show "part2_loop clk level [k..<length ?xs] e = Some (on', e')" using r(1) s(1,3) True by (simp add: ixs)
      show "asking ib iteration rp now e' bs'" by (rule r(2))
      show "m_bhv_entry bs' = take k ?xs @ y # ys" using r(3) s(3) up(1) by simp
      show "asks ib iteration rp env level now (drop k ?xs) (y # ys) (f # fs) on'"
        using r(4) s(3,4) up(2) True tl by (simp add: asks_next)
      show "m_ivp_functions e' = m_ivp_functions e @ given (f # fs)" using r(5) s(5) True by simp
      show "m_bhvs_active_desc (m_helm_report e') = m_bhvs_active_desc (m_helm_report e) @ givers (y # ys) (f # fs)"
        using r(6) s(6) True by simp
      show "on' \<or> m_halted (m_helm_report e')" by (rule r(7))
    qed
  qed
qed


text \<open>A set with the one behavior that always gives the same function.\<close>

definition ex_asked :: "unit helm_engine" where
  "ex_asked = (HelmEngine_new ex_line (Some (ex_clock 12)))\<lparr>m_bhv_set := Some ex_bhvs, he_iteration := 1\<rparr>"

definition ex_clocks :: clocks where
  "ex_clocks = \<lparr>ipf_time = (\<lambda>_. 0), create_timer = 0, solve_timer = 0\<rparr>"


end
