(* ===== verification/Spec2Isabelle.thy ===== *)
theory Spec2Isabelle
  imports MB_Split Helm_Engine
begin

text \<open>
  The decision core of IvP Helm, the autonomy program of \<open>src/ivp/src\<close>.

  The program. The helm runs in rounds. A set of behaviors (\<open>lib_helmivp\<close>, \<open>lib_behaviors\<close>) reads the values of
  variables from a buffer (\<open>lib_logic\<close>); each behavior decides by its conditions and durations whether it runs,
  posts messages, and when it runs may give an objective function: a map from points of a discrete domain to values,
  given piece by piece on boxes (\<open>lib_ivpcore\<close>). The engine (\<open>pHelmIvP\<close>) puts the functions of a round in one problem
  (\<open>lib_ivpsolve\<close>), brings them to a common domain, and a branch and bound search finds the point where the weighted sum is
  largest. The decision and what every behavior did go to a report, which is written as text and read by other
  programs. Strings are handled by \<open>lib_mbutil\<close>, functions and domains are built and written as text by \<open>lib_ivpbuild\<close>.

  Theories and sources, from the bottom up.

  \<^item> \<open>IvP_Prelude\<close>: conversions and divisions of C++, loops over indices, the option monad; \<open>C_Strings\<close>: characters,
    \<open>c_str\<close>, \<open>atoi\<close>, \<open>atof\<close> and printing of numbers of the standard library.
  \<^item> \<open>MB_Split\<close>, \<open>MB_Text\<close>, \<open>MB_Values\<close>: \<open>lib_mbutil/MBUtils.cpp\<close>, by subject: splitting and joining; trimming, replacing, sorting;
    numbers, setters, arguments. \<open>Var_Data_Pair\<close>: \<open>VarDataPair.cpp\<close>.
  \<^item> \<open>IvP_Box\<close>, \<open>IvP_Domain\<close>, \<open>Box_Set\<close>, \<open>IvP_Grid\<close>, \<open>PD_Map\<close>: the classes of the same names in \<open>lib_ivpcore\<close>. A
    box has the arrays of the code; the linked list of boxes and the grid are first modelled over a heap of nodes and
    shown to refine a sequence; a map is an array of pointers into a store of boxes with an optional grid.
  \<^item> \<open>IvP_Problem\<close>: \<open>IvPFunction.cpp\<close> and \<open>lib_ivpsolve/Problem.cpp\<close>; \<open>IvP_Solver\<close>: \<open>IvPProblem.cpp\<close>, \<open>IvPProblem_v3.cpp\<close>, the
    compactors.
  \<^item> \<open>Info_Buffer\<close>, \<open>Logic_Utils\<close>, \<open>Parse_Node\<close>, \<open>Logic_Buffer\<close>: \<open>lib_logic\<close>: the buffer, the scanning of conditions,
    their trees, a set of conditions and conditional parameters.
  \<^item> \<open>Build_Utils\<close>, \<open>Box_Strings\<close>: \<open>lib_ivpbuild/BuildUtils.cpp\<close>; \<open>Function_Encoder\<close>, \<open>Function_Text\<close>: \<open>FunctionEncoder.cpp\<close>.
  \<^item> \<open>Helm_Report\<close>, \<open>Report_Text\<close>: \<open>lib_helmivp/HelmReport.cpp\<close> and \<open>HelmReportUtils.cpp\<close>; \<open>Mode_Set\<close>: \<open>ModeEntry.cpp\<close>, \<open>ModeSet.cpp\<close>.
  \<^item> \<open>IvP_Behavior\<close>: \<open>lib_behaviors/IvPBehavior.cpp\<close>, the base class, as an extensible record; \<open>Behavior_Spec\<close>: \<open>BehaviorSpec.cpp\<close>;
    \<open>Behavior_Set\<close>, \<open>Behavior_Step\<close>, \<open>Behavior_Build\<close>: \<open>BehaviorSet.cpp\<close>, \<open>BehaviorSetEntry.h\<close>, \<open>SpecBuild.cpp\<close>.
  \<^item> \<open>Helm_Engine\<close>: \<open>pHelmIvP/HelmEngine.cpp\<close>, a round put together from all of these.

  Names. A member of a class is a field of a record under its own name, a function a definition under its own name;
  a prefix (\<open>pd_\<close>, \<open>box_\<close>, \<open>bs_\<close>, \<open>he_\<close>, \<open>sb_\<close>) tells classes apart that share a name. The body of a loop or a part of a long
  function may have a definition of its own.

  Conventions. A \<open>double\<close> is a real number: rounding, infinities and NaN are left out, and so is the test \<open>freeOfNan\<close>. An
  \<open>int\<close> is an \<open>int\<close>, an \<open>unsigned int\<close> a \<open>nat\<close>, with the reduction modulo 2 to the 32 or the width of a \<open>short\<close> written out
  where a value can reach it. A string is a list of characters; where the code goes through \<open>c_str()\<close> it is cut at the
  first null character. A failed assertion, a null or dangling pointer, a read past the end, a buffer that overflows
  and an exception are the value \<open>None\<close>, so a theorem that says \<open>Some\<close> says that none of these happens. An object that the code
  changes through a pointer is passed on and returned. Virtual methods, factories and clocks are arguments.

  Loops. Nearly all recursion is over a list or an index range and total. \<open>solveRecurse\<close> ends because the
  level rises to the number of functions. A loop of the code that may run for ever is a partial function into
  \<open>option\<close>, and that it returns is a theorem: \<open>findReplace\<close> ends exactly for a nonempty pattern, the loops of \<open>BuildUtils\<close>
  over pieces end for every domain. Traversals of the linked lists have fuel, the length of the list they
  represent being enough.

  What the lemmas show.

  \<^item> Pieces and maps: values and largest points of boxes, sums on intersections, weights and scaling, moving to a larger domain;
    the index of a grid and the bounds it gives are kept by every operation and hold for every query.
  \<^item> Problems: adding and aligning functions, the search with bounds returns and finds the largest sum of one
    piece per function, the search without bounds agrees.
  \<^item> The engine: part 2 asks the behaviors in order and collects what they give, or halts; part 3 finds the common domain or halts; part 4 publishes a decision with the largest weighted
    sum; what the prefilter phase does to the functions.
  \<^item> Logic: a condition that is accepted is a tree that can be evaluated, and is evaluated as its meaning says under the
    values of the buffer; modes are evaluated in order, each seeing those before it.
  \<^item> Behaviors: parameters are accepted whole or not at all, states follow durations, conditions and flags, a
    step of the set returns for every class that keeps the contract \<open>behavior_class\<close> and hands functions on; the start adds
    all behaviors or none (\<open>buildable_class\<close>), spawning only adds.
  \<^item> Text: splitting and joining, printing and reading of numbers, domains, functions (also in packets) and reports are inverse to one
    another, up to the digits printed.
  \<^item> Interfaces are locales, interpreted on the definitions of the program: sequences of boxes, indexed
    stores of boxes, the buffer as a store of values, the classes of behaviors.

  Not modelled. The middleware below \<open>src/MOOS\<close> (sockets, threads, the database), viewers and log tools, the applications around
  the helm and its own mail handling, behavior files and their populators, the libraries with behaviors (their geometry
  is floating point) and their loading at run time, the builders of functions other than those named above, third-party code: they are
  input and output, or decide nothing here. Of the classes that are modelled, \<open>print\<close> functions, console messages and code under
  \<open>#if 0\<close> are left out.
\<close>

end
